(* ===== verification/Prelude.thy ===== *)
theory Prelude
  imports Main "HOL-Library.Sublist"
begin

text \<open>
  Shared vocabulary of the development: Go's byte strings and the part of the package
  \<open>strings\<close> that the modelled code calls, the theorem collections, and generic lemmas on
  lists and sums. A Go string is a sequence of bytes and so is \<^typ>\<open>string\<close>: a
  \<^typ>\<open>char\<close> is one byte, \<open>len(s)\<close> is \<^const>\<open>length\<close>, and a slice \<open>s[i:]\<close> is
  \<^const>\<open>drop\<close>.
\<close>

named_theorems go_string \<open>definitions of the string functions of Go's standard library\<close>

section \<open>Bytes\<close>

abbreviation byte :: "char \<Rightarrow> nat" where
  "byte c \<equiv> of_char c"

definition ascii_upper :: "char \<Rightarrow> char" where
  "ascii_upper c = (if 97 \<le> byte c \<and> byte c \<le> 122 then char_of (byte c - 32) else c)"

definition ascii_lower :: "char \<Rightarrow> char" where
  "ascii_lower c = (if 65 \<le> byte c \<and> byte c \<le> 90 then char_of (byte c + 32) else c)"

text \<open>
  \<open>strings.ToUpper\<close> and \<open>strings.ToLower\<close> on the strings the code passes to them:
  keywords and identifiers made of ASCII letters. A non-ASCII letter is left alone; no letter
  outside ASCII has an upper case among \<open>A N D O R T\<close>, so comparisons with those keywords
  come out as in Go for every byte string.
\<close>

definition ToUpper :: "string \<Rightarrow> string" where
  [go_string]: "ToUpper s = map ascii_upper s"

definition ToLower :: "string \<Rightarrow> string" where
  [go_string]: "ToLower s = map ascii_lower s"

definition EqualFold :: "string \<Rightarrow> string \<Rightarrow> bool" where
  [go_string]: "EqualFold s t \<longleftrightarrow> ToLower s = ToLower t"

section \<open>Substrings\<close>

definition HasPrefix :: "string \<Rightarrow> string \<Rightarrow> bool" where
  [go_string]: "HasPrefix s p \<longleftrightarrow> take (length p) s = p"

definition HasSuffix :: "string \<Rightarrow> string \<Rightarrow> bool" where
  [go_string]: "HasSuffix s p \<longleftrightarrow> HasPrefix (rev s) (rev p)"

definition TrimPrefix :: "string \<Rightarrow> string \<Rightarrow> string" where
  [go_string]: "TrimPrefix s p = (if HasPrefix s p then drop (length p) s else s)"

definition TrimSuffix :: "string \<Rightarrow> string \<Rightarrow> string" where
  [go_string]: "TrimSuffix s p = rev (TrimPrefix (rev s) (rev p))"

text \<open>\<open>strings.Index\<close>: the first position of a substring; \<open>None\<close> stands for \<open>-1\<close>.\<close>

fun Index :: "string \<Rightarrow> string \<Rightarrow> nat option" where
  "Index [] p = (if p = [] then Some 0 else None)"
| "Index (c # s) p = (if HasPrefix (c # s) p then Some 0 else map_option Suc (Index s p))"

definition Contains :: "string \<Rightarrow> string \<Rightarrow> bool" where
  [go_string]: "Contains s p \<longleftrightarrow> Index s p \<noteq> None"

fun IndexByte :: "string \<Rightarrow> char \<Rightarrow> nat option" where
  "IndexByte [] b = None"
| "IndexByte (c # s) b = (if c = b then Some 0 else map_option Suc (IndexByte s b))"

fun Join :: "string list \<Rightarrow> string \<Rightarrow> string" where
  "Join [] sep = []"
| "Join [x] sep = x"
| "Join (x # y # xs) sep = x @ sep @ Join (y # xs) sep"

text \<open>\<open>strings.Split\<close> at a byte; \<open>cur\<close> is the part being read.\<close>

fun SplitByte :: "string \<Rightarrow> char \<Rightarrow> string \<Rightarrow> string list" where
  "SplitByte cur c [] = [cur]"
| "SplitByte cur c (x # s) = (if x = c then cur # SplitByte [] c s else SplitByte (cur @ [x]) c s)"

section \<open>White space\<close>

text \<open>
  The UTF-8 encodings of the code points for which \<open>unicode.IsSpace\<close> holds: tab to carriage
  return, space, U+0085, U+00A0, U+1680, U+2000 to U+200A, U+2028, U+2029, U+202F, U+205F and
  U+3000. \<open>strings.TrimSpace\<close> removes them at both ends, \<open>strings.Fields\<close> splits on them.
\<close>

definition go_spaces :: "string list" where
  "go_spaces =
     [[CHR 0x20], [CHR 0x09], [CHR 0x0A], [CHR 0x0B], [CHR 0x0C], [CHR 0x0D],
      [CHR 0xC2, CHR 0x85], [CHR 0xC2, CHR 0xA0], [CHR 0xE1, CHR 0x9A, CHR 0x80],
      [CHR 0xE2, CHR 0x80, CHR 0x80], [CHR 0xE2, CHR 0x80, CHR 0x81],
      [CHR 0xE2, CHR 0x80, CHR 0x82], [CHR 0xE2, CHR 0x80, CHR 0x83],
      [CHR 0xE2, CHR 0x80, CHR 0x84], [CHR 0xE2, CHR 0x80, CHR 0x85],
      [CHR 0xE2, CHR 0x80, CHR 0x86], [CHR 0xE2, CHR 0x80, CHR 0x87],
      [CHR 0xE2, CHR 0x80, CHR 0x88], [CHR 0xE2, CHR 0x80, CHR 0x89],
      [CHR 0xE2, CHR 0x80, CHR 0x8A], [CHR 0xE2, CHR 0x80, CHR 0xA8],
      [CHR 0xE2, CHR 0x80, CHR 0xA9], [CHR 0xE2, CHR 0x80, CHR 0xAF],
      [CHR 0xE2, CHR 0x81, CHR 0x9F], [CHR 0xE3, CHR 0x80, CHR 0x80]]"

definition head_space :: "string list \<Rightarrow> string \<Rightarrow> string option" where
  "head_space ps s = find (\<lambda>p. p \<noteq> [] \<and> HasPrefix s p) ps"

lemma head_space_SomeD:
  assumes "head_space ps s = Some p"
  shows "p \<in> set ps \<and> p \<noteq> [] \<and> HasPrefix s p"
  using assms by (auto simp: head_space_def find_Some_iff)

lemma head_space_shrinks:
  assumes "head_space ps s = Some p"
  shows "length (drop (length p) s) < length s"
proof -
  from head_space_SomeD [OF assms] have "p \<noteq> []" and "take (length p) s = p"
    by (auto simp: HasPrefix_def)
  then have "0 < length p" and "s \<noteq> []" by auto
  then show ?thesis by simp
qed

function trim_left :: "string list \<Rightarrow> string \<Rightarrow> string" where
  "trim_left ps s =
     (case head_space ps s of None \<Rightarrow> s | Some p \<Rightarrow> trim_left ps (drop (length p) s))"
  by pat_completeness auto
termination
  by (relation "measure (\<lambda>(ps, s). length s)") (auto dest: head_space_shrinks)

declare trim_left.simps [simp del]

definition TrimSpace :: "string \<Rightarrow> string" where
  [go_string]: "TrimSpace s = rev (trim_left (map rev go_spaces) (rev (trim_left go_spaces s)))"

text \<open>\<open>strings.Fields\<close>: the maximal runs without white space; \<open>cur\<close> is the run being read.\<close>

function fields_loop :: "string \<Rightarrow> string \<Rightarrow> string list" where
  "fields_loop cur s =
     (case head_space go_spaces s of
        Some p \<Rightarrow> (if cur = [] then [] else [cur]) @ fields_loop [] (drop (length p) s)
      | None \<Rightarrow> (case s of
          [] \<Rightarrow> (if cur = [] then [] else [cur])
        | c # cs \<Rightarrow> fields_loop (cur @ [c]) cs))"
  by pat_completeness auto
termination
  by (relation "measure (\<lambda>(cur, s). length s)") (auto dest: head_space_shrinks)

declare fields_loop.simps [simp del]

definition Fields :: "string \<Rightarrow> string list" where
  [go_string]: "Fields s = fields_loop [] s"

section \<open>Generic lemmas\<close>

lemma HasPrefix_iff_prefix: "HasPrefix s p \<longleftrightarrow> prefix p s"
  by (auto simp: HasPrefix_def prefix_def) (metis append_take_drop_id)

lemma HasPrefix_append [simp]: "HasPrefix (p @ s) p"
  by (simp add: HasPrefix_def)

lemma Join_Cons: "xs \<noteq> [] \<Longrightarrow> Join (x # xs) sep = x @ sep @ Join xs sep"
  by (cases xs) auto

lemma takeWhile_append_stop:
  "(\<And>x. x \<in> set xs \<Longrightarrow> P x) \<Longrightarrow> (ys \<noteq> [] \<Longrightarrow> \<not> P (hd ys)) \<Longrightarrow> takeWhile P (xs @ ys) = xs"
  by (cases ys) (auto simp: takeWhile_append)

lemma Index_SomeD:
  "Index s p = Some i \<Longrightarrow> i + length p \<le> length s \<and> take (length p) (drop i s) = p"
proof (induction s arbitrary: i)
  case Nil
  then show ?case by (auto split: if_splits)
next
  case (Cons c s)
  show ?case
  proof (cases "HasPrefix (c # s) p")
    case True
    then have "take (length p) (c # s) = p" by (simp add: HasPrefix_def)
    then have "length p \<le> length (c # s)" by (metis length_take min.cobounded1)
    with True Cons.prems show ?thesis by (auto simp: HasPrefix_def)
  next
    case False
    with Cons show ?thesis by auto
  qed
qed

lemma trim_left_id: "head_space ps s = None \<Longrightarrow> trim_left ps s = s"
  by (subst trim_left.simps) simp

lemma trim_left_length: "length (trim_left ps s) \<le> length s"
proof (induction ps s rule: trim_left.induct)
  case (1 ps s)
  show ?case
  proof (cases "head_space ps s")
    case None
    then show ?thesis by (simp add: trim_left_id)
  next
    case (Some p)
    with 1 have "length (trim_left ps (drop (length p) s)) \<le> length (drop (length p) s)" by simp
    also have "\<dots> \<le> length s" by simp
    finally show ?thesis using Some by (subst trim_left.simps) simp
  qed
qed

text \<open>Trimming leaves a string alone that starts and ends with a printable ASCII byte.\<close>

definition graphic :: "char \<Rightarrow> bool" where
  "graphic c \<longleftrightarrow> 33 \<le> byte c \<and> byte c \<le> 126"

lemma spaces_not_graphic:
  "list_all (\<lambda>p. p \<noteq> [] \<and> \<not> graphic (hd p)) go_spaces"
  "list_all (\<lambda>p. p \<noteq> [] \<and> \<not> graphic (hd p)) (map rev go_spaces)"
  by code_simp+

lemma head_space_graphic:
  assumes "list_all (\<lambda>p. p \<noteq> [] \<and> \<not> graphic (hd p)) ps" and "s \<noteq> []" and "graphic (hd s)"
  shows "head_space ps s = None"
proof -
  have "\<not> HasPrefix s p" if "p \<in> set ps" for p
    using assms that by (cases p; cases s) (auto simp: HasPrefix_def list_all_iff)
  then show ?thesis by (auto simp: head_space_def find_None_iff)
qed

lemma TrimSpace_graphic:
  assumes "s \<noteq> []" and "graphic (hd s)" and "graphic (last s)"
  shows "TrimSpace s = s"
proof -
  have "trim_left go_spaces s = s"
    using assms spaces_not_graphic by (intro trim_left_id head_space_graphic) auto
  moreover have "trim_left (map rev go_spaces) (rev s) = rev s"
    using assms spaces_not_graphic by (intro trim_left_id head_space_graphic) (auto simp: hd_rev)
  ultimately show ?thesis by (simp add: TrimSpace_def)
qed

end
