(* ===== verification/LogQL_Lex.thy ===== *)
theory LogQL_Lex
  imports Prelude
begin

text \<open>
  The tokenizer of the log query language (\<open>internal/logql/logql.go\<close>, \<open>lex\<close> and its helpers).
  The Go loop walks an index \<open>i\<close> over the query \<open>s\<close>. Here the loop state is the byte before
  \<open>i\<close>, the index itself (it only feeds positions) and the suffix \<open>s[i:]\<close>; \<open>lex_step\<close> is one
  iteration of the loop body and says how many bytes it consumed. Error texts are constructors of
  \<open>lmsg\<close>, one per message of the source.
\<close>

section \<open>Tokens\<close>

datatype tokKind =
    TEOF | TLParen | TRParen | TLBracket | TLBrace | TRBracket | TRBrace
  | TAnd | TOr | TNot | TTo | TTerm | TPhrase | TField | TCmp

record token =
  kind :: tokKind
  ttext :: string
  tpos :: nat
  wild :: bool
  tend :: nat
  spaced :: bool

text \<open>A token literal of the source sets some fields; the others are Go's zero values.\<close>

definition mk_tok :: "tokKind \<Rightarrow> string \<Rightarrow> nat \<Rightarrow> nat \<Rightarrow> token" where
  "mk_tok k t p e = \<lparr>kind = k, ttext = t, tpos = p, wild = False, tend = e, spaced = False\<rparr>"

text \<open>The messages of \<open>ParseError\<close>, in the order of the source.\<close>

datatype lmsg =
    UnclosedQuote | UnexpectedChar char
  | UnexpectedTok token | NoExprAfter string | EmptyParens | ExpectedRParen token
  | ExpectedValueAfter string | LoneStar | FieldInField string | ExprExpectedEnd
  | ExistsNeedsField | RangeLowExpected | ExpectedTO | RangeHighExpected | ExpectedRangeClose
  | ExpectedFieldValue string token
  | LintEmptyParens | LintExtraRParen | LintExtraClose char | LintUnclosed char
  | LintUnclosedQuote | LintStartsWith string | LintEndsWith string
  | LintTwoOps string string | LintNoExprAfter string

record ParseError =
  Pos :: nat
  Msg :: lmsg

abbreviation perr :: "nat \<Rightarrow> lmsg \<Rightarrow> ParseError" where
  "perr p m \<equiv> \<lparr>Pos = p, Msg = m\<rparr>"

section \<open>Character classes\<close>

definition isSpace :: "char \<Rightarrow> bool" where
  "isSpace c \<longleftrightarrow> c = CHR '' '' \<or> c = CHR 0x09 \<or> c = CHR 0x0A \<or> c = CHR 0x0D"

definition isIdentStart :: "char \<Rightarrow> bool" where
  "isIdentStart c \<longleftrightarrow>
     c = CHR ''_'' \<or> (97 \<le> byte c \<and> byte c \<le> 122) \<or> (65 \<le> byte c \<and> byte c \<le> 90)"

definition isIdentChar :: "char \<Rightarrow> bool" where
  "isIdentChar c \<longleftrightarrow>
     isIdentStart c \<or> (48 \<le> byte c \<and> byte c \<le> 57) \<or>
     c = CHR ''.'' \<or> c = CHR ''-'' \<or> c = CHR ''@''"

text \<open>The bytes that end a bare term.\<close>

definition isTermStop :: "char \<Rightarrow> bool" where
  "isTermStop c \<longleftrightarrow>
     isSpace c \<or> c = CHR ''('' \<or> c = CHR '')'' \<or> c = CHR 0x22 \<or>
     c = CHR ''['' \<or> c = CHR '']'' \<or> c = CHR ''{'' \<or> c = CHR ''}''"

section \<open>Field prefixes\<close>

text \<open>
  \<open>fieldPrefixLen\<close> on the suffix \<open>r = s[i:]\<close>: the length of an identifier that is followed by a
  colon and by a byte that is neither a space nor a slash; 0 when there is none.
\<close>

definition fieldPrefixLen :: "string \<Rightarrow> nat" where
  "fieldPrefixLen r =
     (case r of
        [] \<Rightarrow> 0
      | c # cs \<Rightarrow>
          if \<not> isIdentStart c then 0
          else (let n = Suc (length (takeWhile isIdentChar cs)) in
            (case drop n r of
               d # e # _ \<Rightarrow>
                 if d \<noteq> CHR '':'' then 0
                 else if isSpace e \<or> e = CHR ''/'' then 0
                 else n
             | _ \<Rightarrow> 0)))"

definition kqlShorthandKeys :: "string list" where
  "kqlShorthandKeys =
     [''level'', ''severity'', ''service'', ''trace'', ''span'', ''message'', ''body'', ''pod'',
      ''container'', ''deployment'', ''namespace'', ''cluster'', ''host'', ''env'', ''status'']"

definition startsWithOp :: "string \<Rightarrow> bool" where
  "startsWithOp rest \<longleftrightarrow>
     list_ex (\<lambda>op. length op \<le> length rest \<and> EqualFold (take (length op) rest) op \<and>
                 (length rest = length op \<or> isSpace (rest ! length op) \<or> rest ! length op = CHR ''(''))
       [''AND'', ''OR'', ''NOT'', ''TO'']"

text \<open>
  \<open>kqlSpacedFieldLen\<close> on \<open>r = s[i:]\<close>: the length of the field name of a spaced \<open>field: value\<close> and
  the offset (from \<open>i\<close>) at which the value starts; \<open>(0, 0)\<close> when there is none.
\<close>

definition kqlSpacedFieldLen :: "string \<Rightarrow> nat \<times> nat" where
  "kqlSpacedFieldLen r =
     (case r of
        [] \<Rightarrow> (0, 0)
      | c # cs \<Rightarrow>
          if \<not> isIdentStart c then (0, 0)
          else (let n = Suc (length (takeWhile isIdentChar cs)) in
            (case drop n r of
               d # e # es \<Rightarrow>
                 if d \<noteq> CHR '':'' \<or> \<not> isSpace e then (0, 0)
                 else (let name = take n r in
                   if \<not> list_ex (\<lambda>x. x \<in> {CHR ''.'', CHR ''_'', CHR ''@''}) name \<and>
                      \<not> List.member kqlShorthandKeys (ToLower name)
                   then (0, 0)
                   else (let k = Suc n + length (takeWhile isSpace (e # es)); rest = drop k r in
                     if rest = [] then (0, 0)
                     else if startsWithOp rest then (0, 0)
                     else (n, k)))
             | _ \<Rightarrow> (0, 0))))"

section \<open>Quoted phrases and bare terms\<close>

text \<open>
  The body of a quoted phrase, after the opening quote: its text with escapes resolved and the
  number of bytes up to and including the closing quote; \<open>None\<close> when it is not closed.
\<close>

fun scanPhrase :: "string \<Rightarrow> (string \<times> nat) option" where
  "scanPhrase [] = None"
| "scanPhrase (c # cs) =
     (if c = CHR 0x5C \<and> cs \<noteq> []
      then map_option (\<lambda>(t, n). (hd cs # t, Suc (Suc n))) (scanPhrase (tl cs))
      else if c = CHR 0x22 then Some ([], 1)
      else map_option (\<lambda>(t, n). (c # t, Suc n)) (scanPhrase cs))"

text \<open>A bare term: its text with escapes resolved, the wildcard flag and the bytes consumed.\<close>

fun scanTerm :: "string \<Rightarrow> string \<times> bool \<times> nat" where
  "scanTerm [] = ([], False, 0)"
| "scanTerm (d # ds) =
     (if isTermStop d then ([], False, 0)
      else if d = CHR 0x5C \<and> ds \<noteq> []
      then (case scanTerm (tl ds) of (t, w, n) \<Rightarrow> (hd ds # t, w, Suc (Suc n)))
      else (case scanTerm ds of
              (t, w, n) \<Rightarrow> (d # t, d = CHR ''*'' \<or> d = CHR ''?'' \<or> w, Suc n)))"

section \<open>The lexer\<close>

text \<open>A bare term that spells an operator in any case is that operator.\<close>

definition termToken :: "string \<Rightarrow> bool \<Rightarrow> nat \<Rightarrow> nat \<Rightarrow> token" where
  "termToken txt w i j =
     (let up = ToUpper txt in
      if up = ''AND'' then mk_tok TAnd txt i j
      else if up = ''OR'' then mk_tok TOr txt i j
      else if up = ''NOT'' then mk_tok TNot txt i j
      else if up = ''TO'' then mk_tok TTo txt i j
      else (mk_tok TTerm txt i j)\<lparr>wild := w\<rparr>)"

text \<open>The loop body, cut at its own breaks: the six brackets; the operators \<open>> >= < <= && || ! -\<close>,
  where \<open>prev\<close> is \<open>s[i-1]\<close> (\<open>None\<close> at the start) and \<open>cs\<close> is \<open>s[i+1:]\<close>; and what
  follows the \<open>switch\<close>, the field prefixes and the bare term.\<close>

definition lex_bracket :: "char \<Rightarrow> tokKind option" where
  "lex_bracket c =
     (if c = CHR ''('' then Some TLParen
      else if c = CHR '')'' then Some TRParen
      else if c = CHR ''['' then Some TLBracket
      else if c = CHR ''{'' then Some TLBrace
      else if c = CHR '']'' then Some TRBracket
      else if c = CHR ''}'' then Some TRBrace
      else None)"

definition lex_operator :: "char option \<Rightarrow> char \<Rightarrow> string \<Rightarrow> (tokKind \<times> string) option" where
  "lex_operator prev c cs =
     (if c = CHR ''>'' \<or> c = CHR ''<'' then
        (if take 1 cs = ''='' then Some (TCmp, [c, CHR ''='']) else Some (TCmp, [c]))
      else if c = CHR ''&'' \<and> take 1 cs = ''&'' then Some (TAnd, ''&&'')
      else if c = CHR ''|'' \<and> take 1 cs = ''|'' then Some (TOr, ''||'')
      else if c = CHR ''!'' \<and> cs \<noteq> [] \<and> \<not> isSpace (hd cs) then Some (TNot, ''!'')
      else if c = CHR ''-'' \<and> cs \<noteq> [] \<and> \<not> isSpace (hd cs) \<and>
              (case prev of None \<Rightarrow> True | Some p \<Rightarrow> isSpace p \<or> p = CHR ''('')
      then Some (TNot, ''-'')
      else None)"

definition lex_word :: "nat \<Rightarrow> string \<Rightarrow> ParseError + token option \<times> nat" where
  "lex_word i r =
     (let n = fieldPrefixLen r in
      if 0 < n then Inr (Some (mk_tok TField (take n r) i (i + n + 1)), n + 1)
      else
        (case kqlSpacedFieldLen r of (m, k) \<Rightarrow>
           if 0 < m
           then Inr (Some ((mk_tok TField (take m r) i (i + k))\<lparr>spaced := True\<rparr>), k)
           else
             (case scanTerm r of (t, w, j) \<Rightarrow>
                if j = 0 then Inl (perr i (UnexpectedChar (hd r)))
                else Inr (Some (termToken t w i (i + j)), j))))"

text \<open>
  One iteration of the loop on \<open>s[i:]\<close>, not empty in the loop: an error, or a token (none for
  white space) with the number of bytes consumed.
\<close>

fun lex_step :: "char option \<Rightarrow> nat \<Rightarrow> string \<Rightarrow> ParseError + token option \<times> nat" where
  "lex_step prev i [] = Inr (None, 0)"
| "lex_step prev i (c # cs) =
     (if isSpace c then Inr (None, 1)
      else case lex_bracket c of
        Some k \<Rightarrow> Inr (Some (mk_tok k [] i (i + 1)), 1)
      | None \<Rightarrow>
          if c = CHR 0x22 then
            (case scanPhrase cs of
               None \<Rightarrow> Inl (perr i UnclosedQuote)
             | Some (t, n) \<Rightarrow> Inr (Some (mk_tok TPhrase t i (i + 1 + n)), 1 + n))
          else
            (case lex_operator prev c cs of
               Some (k, t) \<Rightarrow> Inr (Some (mk_tok k t i (i + length t)), length t)
             | None \<Rightarrow> lex_word i (c # cs)))"

lemma scanPhrase_length: "scanPhrase cs = Some (t, n) \<Longrightarrow> 0 < n \<and> n \<le> length cs"
proof (induction cs arbitrary: t n rule: scanPhrase.induct)
  case (2 c cs)
  then show ?case
    by (cases cs) (auto split: if_splits)
qed simp

lemma scanTerm_length: "scanTerm s = (t, w, n) \<Longrightarrow> n \<le> length s"
proof (induction s arbitrary: t w n rule: scanTerm.induct)
  case (2 d ds)
  then show ?case
    by (cases ds) (auto split: if_splits prod.splits)
qed auto

lemma scanTerm_pos: "\<not> isTermStop d \<Longrightarrow> scanTerm (d # ds) = (t, w, n) \<Longrightarrow> 0 < n"
  by (auto split: if_splits prod.splits)

lemma fieldPrefixLen_bound:
  assumes "0 < fieldPrefixLen r"
  shows "fieldPrefixLen r + 1 < length r"
proof -
  obtain c cs where r: "r = c # cs" using assms by (cases r) (auto simp: fieldPrefixLen_def)
  define n where "n = Suc (length (takeWhile isIdentChar cs))"
  from assms obtain d e es where "drop n r = d # e # es" and eq: "fieldPrefixLen r = n"
    by (auto simp: fieldPrefixLen_def Let_def r n_def split: if_splits list.splits)
  then have "length (drop n r) \<ge> 2" by simp
  with eq show ?thesis by simp
qed

lemma kqlSpacedFieldLen_bound:
  assumes "kqlSpacedFieldLen r = (m, k)" and "0 < m"
  shows "m < k \<and> k < length r"
  using assms
  by (cases r) (auto simp: kqlSpacedFieldLen_def Let_def split: if_splits list.splits)

lemma lex_operator_length: "lex_operator prev c cs = Some (k, t) \<Longrightarrow> 0 < length t \<and> length t \<le> Suc (length cs)"
  by (cases cs) (auto simp: lex_operator_def split: if_splits)

lemma lex_word_length:
  assumes "lex_word i r = Inr (t, n)"
  shows "0 < n \<and> n \<le> length r"
  using assms fieldPrefixLen_bound [of r] kqlSpacedFieldLen_bound [of r] scanTerm_length [of r]
  by (fastforce simp: lex_word_def Let_def split: if_splits prod.splits)

lemma lex_step_consumes:
  assumes "lex_step prev i r = Inr (t, n)" and "r \<noteq> []"
  shows "0 < n \<and> n \<le> length r"
proof -
  obtain c cs where r: "r = c # cs" using assms(2) by (cases r) auto
  from assms(1) show ?thesis
    unfolding r
    by (auto split: if_splits option.splits prod.splits
        dest: lex_operator_length lex_word_length scanPhrase_length)
qed

function lex_loop :: "char option \<Rightarrow> nat \<Rightarrow> string \<Rightarrow> ParseError + token list" where
  "lex_loop prev i r =
     (if r = [] then Inr [mk_tok TEOF [] i i]
      else case lex_step prev i r of
        Inl e \<Rightarrow> Inl e
      | Inr (t, n) \<Rightarrow>
          (case lex_loop (Some (r ! (n - 1))) (i + n) (drop n r) of
             Inl e \<Rightarrow> Inl e
           | Inr ts \<Rightarrow> Inr (case t of None \<Rightarrow> ts | Some x \<Rightarrow> x # ts)))"
  by pat_completeness auto
termination
  by (relation "measure (\<lambda>(prev, i, r). length r)") (auto dest: lex_step_consumes)

declare lex_loop.simps [simp del]

definition lex :: "string \<Rightarrow> ParseError + token list" where
  "lex s = lex_loop None 0 s"

section \<open>What the lexer produces\<close>

lemma scanTerm_zero_iff: "(snd (snd (scanTerm r))) = 0 \<longleftrightarrow> r = [] \<or> isTermStop (hd r)"
  by (cases r) (auto split: prod.splits)

lemma isTermStop_cases:
  "isTermStop c \<Longrightarrow> \<not> isSpace c \<Longrightarrow> lex_bracket c = None \<Longrightarrow> c = CHR 0x22"
  by (auto simp: isTermStop_def lex_bracket_def split: if_splits)

text \<open>The branch \<open>j == i\<close> of the source is dead: a byte that stops a term was handled before.\<close>

lemma lex_step_error:
  assumes "lex_step prev i r = Inl e"
  shows "Msg e = UnclosedQuote \<and> Pos e = i \<and> r \<noteq> [] \<and> hd r = CHR 0x22"
proof -
  obtain c cs where r: "r = c # cs" using assms by (cases r) auto
  have dead: "lex_word i (c # cs) \<noteq> Inl e"
    if "\<not> isSpace c" "lex_bracket c = None" "c \<noteq> CHR 0x22"
  proof -
    from that have "\<not> isTermStop c" using isTermStop_cases by blast
    then have "(snd (snd (scanTerm (c # cs)))) \<noteq> 0" by (subst scanTerm_zero_iff) simp
    then show ?thesis by (auto simp: lex_word_def Let_def split: prod.splits simp del: scanTerm.simps)
  qed
  from assms dead show ?thesis
    unfolding r by (auto split: if_splits option.splits prod.splits)
qed

lemma lex_loop_error:
  assumes "lex_loop prev i r = Inl e"
  shows "Msg e = UnclosedQuote \<and> i \<le> Pos e \<and> Pos e < i + length r \<and> r ! (Pos e - i) = CHR 0x22"
  using assms
proof (induction prev i r rule: lex_loop.induct)
  case (1 prev i r)
  then have ne: "r \<noteq> []" by (auto simp: lex_loop.simps [of prev i r])
  show ?case
  proof (cases "lex_step prev i r")
    case (Inl e')
    with "1.prems" ne have "e' = e" by (simp add: lex_loop.simps [of prev i r])
    with lex_step_error [OF Inl] ne show ?thesis by (auto simp: hd_conv_nth)
  next
    case (Inr p)
    obtain t n where p: "p = (t, n)" by force
    with Inr have st: "lex_step prev i r = Inr (t, n)" by simp
    from lex_step_consumes [OF st ne] have n: "0 < n" "n \<le> length r" by auto
    from "1.prems" ne st have "lex_loop (Some (r ! (n - 1))) (i + n) (drop n r) = Inl e"
      by (simp add: lex_loop.simps [of prev i r] split: sum.splits)
    from "1.IH" [OF ne Inr p [symmetric] this] n show ?thesis
      by (auto simp: nth_drop)
  qed
qed

text \<open>The shape of a token stream over the byte range from \<open>i\<close> to \<open>n\<close>: positions inside the
  range, tokens in source order without overlap, exactly one end marker, at the end.\<close>

definition tok_ok :: "nat \<Rightarrow> nat \<Rightarrow> token \<Rightarrow> bool" where
  "tok_ok i n t \<longleftrightarrow> kind t \<noteq> TEOF \<and> i \<le> tpos t \<and> tpos t < tend t \<and> tend t \<le> n"

fun stream_ok :: "nat \<Rightarrow> nat \<Rightarrow> token list \<Rightarrow> bool" where
  "stream_ok i n [] \<longleftrightarrow> False"
| "stream_ok i n [t] \<longleftrightarrow> t = mk_tok TEOF [] n n \<and> i \<le> n"
| "stream_ok i n (t # u # ts) \<longleftrightarrow> tok_ok i n t \<and> stream_ok (tend t) n (u # ts)"

lemma mk_tok_simps [simp]:
  "kind (mk_tok k t p e) = k" "ttext (mk_tok k t p e) = t" "tpos (mk_tok k t p e) = p"
  "tend (mk_tok k t p e) = e" "wild (mk_tok k t p e) = False" "spaced (mk_tok k t p e) = False"
  by (simp_all add: mk_tok_def)

lemma termToken_fields [simp]:
  "tpos (termToken t w i j) = i" "tend (termToken t w i j) = j" "kind (termToken t w i j) \<noteq> TEOF"
  by (auto simp: termToken_def Let_def)

lemma lex_step_tok:
  assumes "lex_step prev i r = Inr (Some x, n)" and "r \<noteq> []"
  shows "kind x \<noteq> TEOF \<and> tpos x = i \<and> tend x = i + n"
proof -
  obtain c cs where r: "r = c # cs" using assms(2) by (cases r) auto
  have op: "lex_operator prev c cs = Some (k, t) \<Longrightarrow> k \<noteq> TEOF" for k t
    by (auto simp: lex_operator_def split: if_splits)
  have br: "lex_bracket c = Some k \<Longrightarrow> k \<noteq> TEOF" for k
    by (auto simp: lex_bracket_def split: if_splits)
  have wd: "lex_word i (c # cs) = Inr (Some x, n) \<Longrightarrow> kind x \<noteq> TEOF \<and> tpos x = i \<and> tend x = i + n"
    by (auto simp: lex_word_def Let_def split: if_splits prod.splits simp del: scanTerm.simps)
  from assms(1) op br wd show ?thesis
    unfolding r by (auto split: if_splits option.splits prod.splits)
qed

lemma stream_ok_weaken: "stream_ok j n ts \<Longrightarrow> i \<le> j \<Longrightarrow> stream_ok i n ts"
  by (cases "(i, n, ts)" rule: stream_ok.cases) (auto simp: tok_ok_def)

lemma stream_ok_Cons: "tok_ok i n t \<Longrightarrow> stream_ok (tend t) n ts \<Longrightarrow> stream_ok i n (t # ts)"
  by (cases ts) auto

lemma lex_loop_stream:
  assumes "lex_loop prev i r = Inr ts"
  shows "stream_ok i (i + length r) ts"
  using assms
proof (induction prev i r arbitrary: ts rule: lex_loop.induct)
  case (1 prev i r)
  show ?case
  proof (cases "r = []")
    case True
    with "1.prems" show ?thesis by (auto simp: lex_loop.simps [of prev i "[]"])
  next
    case ne: False
    with "1.prems" obtain p where Inr: "lex_step prev i r = Inr p"
      by (cases "lex_step prev i r") (auto simp: lex_loop.simps [of prev i r])
    obtain t n where p: "p = (t, n)" by force
    with Inr have st: "lex_step prev i r = Inr (t, n)" by simp
    from lex_step_consumes [OF st ne] have n: "0 < n" "n \<le> length r" by auto
    from "1.prems" ne st obtain us where
        us: "lex_loop (Some (r ! (n - 1))) (i + n) (drop n r) = Inr us"
        and ts: "ts = (case t of None \<Rightarrow> us | Some x \<Rightarrow> x # us)"
      by (auto simp: lex_loop.simps [of prev i r] split: sum.splits)
    from "1.IH" [OF ne Inr p [symmetric] us] n have ok: "stream_ok (i + n) (i + length r) us" by simp
    show ?thesis
    proof (cases t)
      case None
      with ts ok show ?thesis by (auto intro: stream_ok_weaken)
    next
      case (Some x)
      from lex_step_tok [OF st [unfolded Some] ne] n have "tok_ok i (i + length r) x" "tend x = i + n"
        by (auto simp: tok_ok_def)
      with ts ok Some show ?thesis by (auto intro: stream_ok_Cons)
    qed
  qed
qed

lemma lex_stream: "lex s = Inr ts \<Longrightarrow> stream_ok 0 (length s) ts"
  using lex_loop_stream [of None 0 s ts] by (simp add: lex_def)

lemma stream_ok_nonempty: "stream_ok i n ts \<Longrightarrow> ts \<noteq> []"
  by auto

text \<open>
  What a successful lexing delivers: the tokens lie inside the query, in source order, without
  overlap and without empty ones, and the stream ends with exactly one end marker at the query's end.
\<close>

theorem lex_tokens_ok:
  assumes "lex s = Inr ts"
  shows "stream_ok 0 (length s) ts"
  using assms by (rule lex_stream)

theorem lex_tokens_ok_witness:
  "\<exists>ts. lex ''level: err AND (x OR -y)'' = Inr ts \<and> stream_ok 0 (length ''level: err AND (x OR -y)'') ts"
proof -
  have "(case lex ''level: err AND (x OR -y)'' of Inl _ \<Rightarrow> False | Inr _ \<Rightarrow> True)" by code_simp
  then obtain ts where ts: "lex ''level: err AND (x OR -y)'' = Inr ts" by (auto split: sum.splits)
  from lex_tokens_ok [OF ts] ts show ?thesis by blast
qed

text \<open>
  The lexer fails on one kind of input only, a quote that is not closed, and the reported position
  is that quote; the other error branch of the source cannot be reached.
\<close>

theorem lex_fails_only_on_open_quote:
  assumes "lex s = Inl e"
  shows "Msg e = UnclosedQuote \<and> Pos e < length s \<and> s ! Pos e = CHR 0x22"
  using lex_loop_error [of None 0 s e] assms by (simp add: lex_def)

theorem lex_fails_only_on_open_quote_witness:
  "\<exists>e. lex [CHR ''a'', CHR '' '', CHR 0x22, CHR ''b''] = Inl e \<and> Msg e = UnclosedQuote \<and> Pos e < 4"
proof -
  have e: "lex [CHR ''a'', CHR '' '', CHR 0x22, CHR ''b''] = Inl (perr 2 UnclosedQuote)" by code_simp
  from lex_fails_only_on_open_quote [OF e] e show ?thesis by auto
qed

end
