(* ===== verification/LogQL_Parse.thy ===== *)
theory LogQL_Parse
  imports LogQL_Lex
begin

text \<open>
  The recursive-descent parser of the log query language (\<open>internal/logql/logql.go\<close>, \<open>Parse\<close> and
  the \<open>parser\<close> methods) and the walks over its syntax trees. The parser state \<open>p.toks[p.i:]\<close> is the
  list of the tokens that are left. Reading past its end is a run-time panic in Go and the value
  \<open>Panic\<close> here; the theorems show that it does not happen. The methods call each other in a cycle
  with no structural argument, so each call spends one unit of fuel and \<open>OutOfFuel\<close> is the value for
  running out; \<open>Parse\<close> passes an amount that is shown to be enough for every query.
\<close>

section \<open>Syntax trees\<close>

datatype Op = OpMatch | OpGt | OpGte | OpLt | OpLte | OpExists | OpRange

text \<open>The leaf fields of \<open>Expr\<close>.\<close>

record clause =
  Field :: string
  Oper :: Op
  Value :: string
  Phrase :: bool
  Wildcard :: bool
  Lo :: string
  Hi :: string
  LoIncl :: bool
  HiIncl :: bool

text \<open>\<open>Expr\<close>, one constructor per \<open>Kind\<close>; the source keeps exactly one child under \<open>KindNot\<close>.\<close>

datatype Expr =
    KindAnd "Expr list"
  | KindOr "Expr list"
  | KindNot Expr
  | KindClause clause

definition clause0 :: clause where
  "clause0 = \<lparr>Field = [], Oper = OpMatch, Value = [], Phrase = False, Wildcard = False,
     Lo = [], Hi = [], LoIncl = False, HiIncl = False\<rparr>"

section \<open>Parser\<close>

datatype pfail = Fail ParseError | Panic | OutOfFuel

type_synonym 'a pres = "pfail + 'a \<times> token list"

abbreviation pfail_at :: "nat \<Rightarrow> lmsg \<Rightarrow> pfail + 'a" where
  "pfail_at p m \<equiv> Inl (Fail (perr p m))"

definition bindP :: "'a pres \<Rightarrow> ('a \<Rightarrow> token list \<Rightarrow> 'b pres) \<Rightarrow> 'b pres" where
  "bindP m f = (case m of Inl e \<Rightarrow> Inl e | Inr (a, ts) \<Rightarrow> f a ts)"

definition peek :: "token list \<Rightarrow> token pres" where
  "peek ts = (case ts of [] \<Rightarrow> Inl Panic | t # _ \<Rightarrow> Inr (t, ts))"

definition nextTok :: "token list \<Rightarrow> token pres" where
  "nextTok ts = (case ts of [] \<Rightarrow> Inl Panic | t # us \<Rightarrow> Inr (t, us))"

definition startsPrimary :: "token \<Rightarrow> bool" where
  "startsPrimary t \<longleftrightarrow> kind t \<in> {TLParen, TNot, TTerm, TPhrase, TField}"

definition isIdentToken :: "token \<Rightarrow> bool" where
  "isIdentToken t \<longleftrightarrow>
     kind t = TTerm \<and> \<not> wild t \<and> ttext t \<noteq> [] \<and> isIdentStart (hd (ttext t)) \<and>
     list_all isIdentChar (tl (ttext t))"

text \<open>The map literal from comparison texts to operators; a missing key gives the zero value.\<close>

definition cmpOp :: "string \<Rightarrow> Op" where
  "cmpOp s =
     (if s = ''>'' then OpGt else if s = ''>='' then OpGte
      else if s = ''<'' then OpLt else if s = ''<='' then OpLte else OpMatch)"

definition isValueTok :: "token \<Rightarrow> bool" where
  "isValueTok v \<longleftrightarrow> kind v = TTerm \<or> kind v = TPhrase"

definition cmpClause :: "string \<Rightarrow> token \<Rightarrow> token \<Rightarrow> Expr" where
  "cmpClause field c v =
     KindClause (clause0\<lparr>Field := field, Oper := cmpOp (ttext c), Value := ttext v,
       Phrase := (kind v = TPhrase)\<rparr>)"

text \<open>After a comparison operator: a value.\<close>

definition parseCmpValue :: "string \<Rightarrow> token \<Rightarrow> token list \<Rightarrow> Expr pres" where
  "parseCmpValue field c ts =
     bindP (nextTok ts) (\<lambda>v us.
       if \<not> isValueTok v then pfail_at (tpos v) (ExpectedValueAfter (ttext c))
       else Inr (cmpClause field c v, us))"

text \<open>The range case of \<open>parseFieldValue\<close>, after its opening bracket \<open>op\<close>.\<close>

definition parseRange :: "string \<Rightarrow> token \<Rightarrow> token list \<Rightarrow> Expr pres" where
  "parseRange name op ts =
     bindP (nextTok ts) (\<lambda>lo us.
       if \<not> isValueTok lo then pfail_at (tpos lo) RangeLowExpected
       else bindP (nextTok us) (\<lambda>to vs.
         if kind to \<noteq> TTo then pfail_at (tpos to) ExpectedTO
         else bindP (nextTok vs) (\<lambda>hi ws.
           if \<not> isValueTok hi then pfail_at (tpos hi) RangeHighExpected
           else bindP (nextTok ws) (\<lambda>cl xs.
             if kind cl \<noteq> TRBracket \<and> kind cl \<noteq> TRBrace then pfail_at (tpos cl) ExpectedRangeClose
             else Inr (KindClause (clause0\<lparr>Field := name, Oper := OpRange,
                Lo := (if ttext lo = ''*'' then [] else ttext lo),
                Hi := (if ttext hi = ''*'' then [] else ttext hi),
                LoIncl := (kind op = TLBracket), HiIncl := (kind cl = TRBracket)\<rparr>), xs)))))"

text \<open>The leaf cases of \<open>parsePrimary\<close> and \<open>parseFieldValue\<close> that need no recursion.\<close>

definition matchClause :: "string \<Rightarrow> token \<Rightarrow> Expr" where
  "matchClause field t =
     KindClause (clause0\<lparr>Field := field, Oper := OpMatch, Value := ttext t,
       Phrase := (kind t = TPhrase), Wildcard := (kind t = TTerm \<and> wild t)\<rparr>)"

definition existsClause :: "string \<Rightarrow> Expr" where
  "existsClause field = KindClause (clause0\<lparr>Field := field, Oper := OpExists\<rparr>)"

definition parseTerm :: "string \<Rightarrow> token \<Rightarrow> token list \<Rightarrow> Expr pres" where
  "parseTerm field t ts =
     bindP (if field = [] then peek ts else Inr (t, ts)) (\<lambda>c us.
       if field = [] \<and> kind c = TCmp \<and> isIdentToken t then
         bindP (nextTok us) (\<lambda>c vs. parseCmpValue (ttext t) c vs)
       else if field = [] \<and> ttext t = ''*'' then pfail_at (tpos t) LoneStar
       else if field \<noteq> [] \<and> ttext t = ''*'' then Inr (existsClause field, us)
       else Inr (matchClause field t, us))"

text \<open>\<open>parseOr\<close>, \<open>parseAnd\<close> and the bodies of their loops, \<open>parseNot\<close>, \<open>parsePrimary\<close> with its
  parenthesised case, and \<open>parseFieldValue\<close>.\<close>

function parseOr :: "nat \<Rightarrow> string \<Rightarrow> token list \<Rightarrow> Expr pres"
and orLoop :: "nat \<Rightarrow> string \<Rightarrow> token list \<Rightarrow> Expr list pres"
and parseAnd :: "nat \<Rightarrow> string \<Rightarrow> token list \<Rightarrow> Expr pres"
and andLoop :: "nat \<Rightarrow> string \<Rightarrow> token list \<Rightarrow> Expr list pres"
and parseNot :: "nat \<Rightarrow> string \<Rightarrow> token list \<Rightarrow> Expr pres"
and parsePrimary :: "nat \<Rightarrow> string \<Rightarrow> token list \<Rightarrow> Expr pres"
and parseParen :: "nat \<Rightarrow> string \<Rightarrow> token \<Rightarrow> token list \<Rightarrow> Expr pres"
and parseFieldValue :: "nat \<Rightarrow> token \<Rightarrow> token list \<Rightarrow> Expr pres"
where
  "parseOr fuel field ts = (case fuel of 0 \<Rightarrow> Inl OutOfFuel | Suc n \<Rightarrow>
     bindP (parseAnd n field ts) (\<lambda>left us.
       bindP (orLoop n field us) (\<lambda>kids vs.
         Inr (if kids = [] then left else KindOr (left # kids), vs))))"
| "orLoop fuel field ts = (case fuel of 0 \<Rightarrow> Inl OutOfFuel | Suc n \<Rightarrow>
     bindP (peek ts) (\<lambda>t us.
       if kind t \<noteq> TOr then Inr ([], us)
       else bindP (nextTok us) (\<lambda>_ vs.
         bindP (parseAnd n field vs) (\<lambda>right ws.
           bindP (orLoop n field ws) (\<lambda>kids xs. Inr (right # kids, xs))))))"
| "parseAnd fuel field ts = (case fuel of 0 \<Rightarrow> Inl OutOfFuel | Suc n \<Rightarrow>
     bindP (parseNot n field ts) (\<lambda>left us.
       bindP (andLoop n field us) (\<lambda>kids vs.
         Inr (if kids = [] then left else KindAnd (left # kids), vs))))"
| "andLoop fuel field ts = (case fuel of 0 \<Rightarrow> Inl OutOfFuel | Suc n \<Rightarrow>
     bindP (peek ts) (\<lambda>t us.
       if kind t \<noteq> TAnd \<and> \<not> startsPrimary t then Inr ([], us)
       else bindP (if kind t = TAnd then nextTok us else Inr (t, us)) (\<lambda>_ vs.
         bindP (parseNot n field vs) (\<lambda>right ws.
           bindP (andLoop n field ws) (\<lambda>kids xs. Inr (right # kids, xs))))))"
| "parseNot fuel field ts = (case fuel of 0 \<Rightarrow> Inl OutOfFuel | Suc n \<Rightarrow>
     bindP (peek ts) (\<lambda>p us.
       if kind p = TNot then
         bindP (nextTok us) (\<lambda>t vs.
           bindP (peek vs) (\<lambda>q _.
             if \<not> startsPrimary q then pfail_at (tpos t) (NoExprAfter (ttext t))
             else bindP (parseNot n field vs) (\<lambda>inner ws.
               Inr (case inner of KindNot x \<Rightarrow> x | _ \<Rightarrow> KindNot inner, ws))))
       else parsePrimary n field us))"
| "parsePrimary fuel field ts = (case fuel of 0 \<Rightarrow> Inl OutOfFuel | Suc n \<Rightarrow>
     bindP (nextTok ts) (\<lambda>t us.
       case kind t of
         TLParen \<Rightarrow> parseParen n field t us
       | TTerm \<Rightarrow> parseTerm field t us
       | TPhrase \<Rightarrow> Inr (matchClause field t, us)
       | TField \<Rightarrow>
           if field \<noteq> [] then pfail_at (tpos t) (FieldInField (ttext t))
           else parseFieldValue n t us
       | TEOF \<Rightarrow> pfail_at (tpos t) ExprExpectedEnd
       | _ \<Rightarrow> pfail_at (tpos t) (UnexpectedTok t)))"
| "parseParen fuel field t ts = (case fuel of 0 \<Rightarrow> Inl OutOfFuel | Suc n \<Rightarrow>
     bindP (peek ts) (\<lambda>p us.
       if kind p = TRParen then pfail_at (tpos t) EmptyParens
       else bindP (parseOr n field us) (\<lambda>e vs.
         bindP (nextTok vs) (\<lambda>c ws.
           if kind c \<noteq> TRParen then pfail_at (tpos c) (ExpectedRParen c) else Inr (e, ws)))))"
| "parseFieldValue fuel f ts = (case fuel of 0 \<Rightarrow> Inl OutOfFuel | Suc n \<Rightarrow>
     (if EqualFold (ttext f) ''_exists_'' then
        bindP (nextTok ts) (\<lambda>v us.
          if \<not> isValueTok v then pfail_at (tpos v) ExistsNeedsField
          else Inr (existsClause (ttext v), us))
      else
        bindP (nextTok ts) (\<lambda>t us.
          case kind t of
            TTerm \<Rightarrow>
              if ttext t = ''*'' then Inr (existsClause (ttext f), us)
              else Inr (matchClause (ttext f) t, us)
          | TPhrase \<Rightarrow> Inr (matchClause (ttext f) t, us)
          | TLParen \<Rightarrow> parseParen n (ttext f) t us
          | TCmp \<Rightarrow> parseCmpValue (ttext f) t us
          | TLBracket \<Rightarrow> parseRange (ttext f) t us
          | TLBrace \<Rightarrow> parseRange (ttext f) t us
          | _ \<Rightarrow> pfail_at (tpos t) (ExpectedFieldValue (ttext f) t))))"
  by pat_completeness auto

termination
  by (relation "measure (case_sum (case_sum (case_sum fst fst) (case_sum fst fst))
        (case_sum (case_sum fst fst) (case_sum fst fst)))") simp_all
declare parseOr.simps [simp del] orLoop.simps [simp del] parseAnd.simps [simp del]
  andLoop.simps [simp del] parseNot.simps [simp del] parsePrimary.simps [simp del]
  parseParen.simps [simp del] parseFieldValue.simps [simp del]

lemmas parser_simps =
  parseOr.simps orLoop.simps parseAnd.simps andLoop.simps parseNot.simps parsePrimary.simps
  parseParen.simps parseFieldValue.simps

definition parseFuel :: "token list \<Rightarrow> nat" where
  "parseFuel ts = 6 * length ts + 6"

text \<open>\<open>Parse\<close>: \<open>Inr None\<close> is Go's \<open>(nil, nil)\<close> for a blank query.\<close>

definition Parse :: "string \<Rightarrow> pfail + Expr option" where
  "Parse q =
     (if TrimSpace q = [] then Inr None
      else case lex q of
        Inl e \<Rightarrow> Inl (Fail e)
      | Inr toks \<Rightarrow>
          (case parseOr (parseFuel toks) [] toks of
             Inl e \<Rightarrow> Inl e
           | Inr (e, ts) \<Rightarrow>
               (case peek ts of
                  Inl x \<Rightarrow> Inl x
                | Inr (t, _) \<Rightarrow>
                    if kind t \<noteq> TEOF then pfail_at (tpos t) (UnexpectedTok t) else Inr (Some e))))"

section \<open>Walks over the tree\<close>

text \<open>
  \<open>Walk\<close> visits in pre-order and does not descend where the callback says false. The callbacks of
  the source keep their state in a captured variable, here the state \<open>'s\<close>.
\<close>

fun Walk :: "Expr \<Rightarrow> (Expr \<Rightarrow> 's \<Rightarrow> bool \<times> 's) \<Rightarrow> 's \<Rightarrow> 's" where
  "Walk e fn s =
     (case fn e s of
        (False, s') \<Rightarrow> s'
      | (True, s') \<Rightarrow>
          (case e of
             KindAnd ks \<Rightarrow> fold (\<lambda>k. Walk k fn) ks s'
           | KindOr ks \<Rightarrow> fold (\<lambda>k. Walk k fn) ks s'
           | KindNot k \<Rightarrow> Walk k fn s'
           | KindClause _ \<Rightarrow> s'))"

definition HasFieldClause :: "Expr \<Rightarrow> bool" where
  "HasFieldClause e =
     Walk e (\<lambda>n found.
       let found' = (case n of KindClause c \<Rightarrow> (if Field c \<noteq> [] then True else found) | _ \<Rightarrow> found)
       in (\<not> found', found')) False"

definition FieldsOf :: "Expr \<Rightarrow> string list" where
  "FieldsOf e =
     Walk e (\<lambda>n out.
       (True, case n of
          KindClause c \<Rightarrow> if Field c \<noteq> [] \<and> \<not> List.member out (Field c) then out @ [Field c] else out
        | _ \<Rightarrow> out)) []"

section \<open>The parser returns\<close>

text \<open>A token list with exactly one end marker, at its end: what the lexer delivers.\<close>

fun eof_term :: "token list \<Rightarrow> bool" where
  "eof_term [] \<longleftrightarrow> False"
| "eof_term [t] \<longleftrightarrow> kind t = TEOF"
| "eof_term (t # u # ts) \<longleftrightarrow> kind t \<noteq> TEOF \<and> eof_term (u # ts)"

lemma stream_ok_eof_term: "stream_ok i n ts \<Longrightarrow> eof_term ts"
  by (induction i n ts rule: stream_ok.induct) (auto simp: tok_ok_def)

lemma eof_term_Cons: "eof_term (t # ts) \<Longrightarrow> kind t \<noteq> TEOF \<Longrightarrow> eof_term ts"
  by (cases ts) auto

lemma eof_term_nonempty: "eof_term ts \<Longrightarrow> ts \<noteq> []"
  by auto

text \<open>
  What a parser method promises on the tokens \<open>ts\<close>: no panic and no lack of fuel, an error position
  from \<open>S\<close>, and on success a remainder that ends with the end marker and is at least \<open>k\<close> shorter.
\<close>

definition good :: "nat set \<Rightarrow> nat \<Rightarrow> token list \<Rightarrow> 'a pres \<Rightarrow> bool" where
  "good S k ts r \<longleftrightarrow>
     (case r of
        Inl (Fail pe) \<Rightarrow> Pos pe \<in> S
      | Inl _ \<Rightarrow> False
      | Inr (_, us) \<Rightarrow> eof_term us \<and> length us + k \<le> length ts \<and> set us \<subseteq> set ts)"

lemma good_Fail [simp]: "good S k ts (pfail_at p m) \<longleftrightarrow> p \<in> S"
  by (simp add: good_def)

lemma good_Inr [simp]:
  "good S k ts (Inr (a, us)) \<longleftrightarrow> eof_term us \<and> length us + k \<le> length ts \<and> set us \<subseteq> set ts"
  by (simp add: good_def)

lemma good_bindP:
  assumes "good S k ts m"
    and "\<And>a us. eof_term us \<Longrightarrow> length us + k \<le> length ts \<Longrightarrow> set us \<subseteq> set ts \<Longrightarrow> good S k' ts (f a us)"
  shows "good S k' ts (bindP m f)"
proof (cases m)
  case (Inl e)
  with assms(1) show ?thesis by (cases e) (auto simp: good_def bindP_def)
next
  case (Inr p)
  obtain a us where "p = (a, us)" by force
  with Inr assms(1) assms(2) [of us a] show ?thesis by (simp add: bindP_def)
qed

lemma good_weaken:
  "good S k us m \<Longrightarrow> S \<subseteq> S' \<Longrightarrow> length us + k' \<le> length ts + k \<Longrightarrow> set us \<subseteq> set ts \<Longrightarrow> good S' k' ts m"
  by (fastforce simp: good_def split: sum.splits pfail.splits prod.splits)

lemma bindP_next [simp]: "bindP (nextTok (t # us)) f = f t us" "bindP (nextTok []) f = Inl Panic"
  by (simp_all add: bindP_def nextTok_def)

lemma bindP_peek [simp]: "bindP (peek (t # us)) f = f t (t # us)" "bindP (peek []) f = Inl Panic"
  by (simp_all add: bindP_def peek_def)

lemma bindP_Inr [simp]: "bindP (Inr (a, us)) f = f a us"
  by (simp add: bindP_def)

lemma bindP_Inl [simp]: "bindP (Inl e) f = Inl e"
  by (simp add: bindP_def)

abbreviation posns :: "token list \<Rightarrow> nat set" where
  "posns ts \<equiv> tpos ` set ts"

lemma good_next:
  assumes "eof_term us" "posns us \<subseteq> S"
    and "\<And>t vs. us = t # vs \<Longrightarrow> tpos t \<in> S \<Longrightarrow> posns vs \<subseteq> S \<Longrightarrow> (kind t \<noteq> TEOF \<Longrightarrow> eof_term vs) \<Longrightarrow>
           good S k ts (f t vs)"
  shows "good S k ts (bindP (nextTok us) f)"
proof -
  obtain t vs where us: "us = t # vs" using assms(1) by (cases us) auto
  have "good S k ts (f t vs)"
    by (rule assms(3)) (use assms(1,2) us eof_term_Cons in auto)
  then show ?thesis by (simp add: us)
qed

lemma good_peek:
  assumes "eof_term us" and "\<And>t vs. us = t # vs \<Longrightarrow> good S k ts (f t us)"
  shows "good S k ts (bindP (peek us) f)"
  using assms by (cases us) auto

lemma good_if: "(\<not> c \<Longrightarrow> p \<in> S) \<Longrightarrow> (c \<Longrightarrow> good S k ts X) \<Longrightarrow> good S k ts (if \<not> c then pfail_at p m else X)"
  by simp

lemma good_if': "(c \<Longrightarrow> p \<in> S) \<Longrightarrow> (\<not> c \<Longrightarrow> good S k ts X) \<Longrightarrow> good S k ts (if c then pfail_at p m else X)"
  by simp

lemma isValueTok_not_eof: "isValueTok t \<Longrightarrow> kind t \<noteq> TEOF"
  by (auto simp: isValueTok_def)

lemma good_expect:
  assumes "eof_term us" "posns us \<subseteq> S" "\<And>t. c t \<Longrightarrow> kind t \<noteq> TEOF"
    and "\<And>t vs. us = t # vs \<Longrightarrow> c t \<Longrightarrow> eof_term vs \<Longrightarrow> posns vs \<subseteq> S \<Longrightarrow> good S k ts (X t vs)"
  shows "good S k ts (bindP (nextTok us) (\<lambda>t vs. if \<not> c t then pfail_at (tpos t) (m t) else X t vs))"
  by (rule good_next [OF assms(1,2)]) (use assms(3,4) in auto)

lemma parseCmpValue_good: "eof_term ts \<Longrightarrow> posns ts \<subseteq> S \<Longrightarrow> good S 1 ts (parseCmpValue f c ts)"
  unfolding parseCmpValue_def by (rule good_expect) (auto dest: isValueTok_not_eof)

lemma parseRange_good:
  assumes "eof_term ts" "posns ts \<subseteq> S"
  shows "good S 1 ts (parseRange f op ts)"
  unfolding parseRange_def
proof (rule good_expect [OF assms isValueTok_not_eof], assumption, goal_cases)
  case (1 lo us)
  show ?case
  proof (rule good_expect [OF 1(3,4)], simp, goal_cases)
    case (1 to vs)
    show ?case
    proof (rule good_expect [OF 1(3,4) isValueTok_not_eof], assumption, goal_cases)
      case (1 hi ws)
      show ?case
        by (rule good_next [OF 1(3,4)], rule good_if', assumption)
           (use 1 \<open>us = to # vs\<close> \<open>ts = lo # us\<close> in auto)
    qed
  qed
qed

lemma parseTerm_good:
  assumes "eof_term ts" and "posns ts \<subseteq> S" and "tpos t \<in> S"
  shows "good S 0 ts (parseTerm f t ts)"
proof -
  obtain c us where ts: "ts = c # us" using assms(1) by (cases ts) auto
  have "good S 0 ts (parseCmpValue (ttext t) c us)" if "kind c = TCmp"
  proof -
    from that assms(1) have "eof_term us" unfolding ts by (auto dest: eof_term_Cons)
    then have "good S 1 us (parseCmpValue (ttext t) c us)"
      using assms(2) by (intro parseCmpValue_good) (auto simp: ts)
    then show ?thesis by (rule good_weaken) (auto simp: ts)
  qed
  with assms show ?thesis by (auto simp: parseTerm_def ts)
qed

text \<open>The fuel each method needs: six units per token that is left, plus its rank.\<close>

definition parser_ok :: "nat \<Rightarrow> bool" where
  "parser_ok n \<longleftrightarrow>
     (\<forall>field ts S. eof_term ts \<and> posns ts \<subseteq> S \<longrightarrow>
        (6 * length ts + 4 \<le> n \<longrightarrow> good S 1 ts (parseOr n field ts)) \<and>
        (6 * length ts + 4 \<le> n \<longrightarrow> good S 0 ts (orLoop n field ts)) \<and>
        (6 * length ts + 3 \<le> n \<longrightarrow> good S 1 ts (parseAnd n field ts)) \<and>
        (6 * length ts + 3 \<le> n \<longrightarrow> good S 0 ts (andLoop n field ts)) \<and>
        (6 * length ts + 2 \<le> n \<longrightarrow> good S 1 ts (parseNot n field ts)) \<and>
        (6 * length ts + 1 \<le> n \<longrightarrow> good S 1 ts (parsePrimary n field ts)) \<and>
        (\<forall>t. 6 * length ts + 5 \<le> n \<longrightarrow> tpos t \<in> S \<longrightarrow> good S 0 ts (parseParen n field t ts)) \<and>
        (\<forall>t. 6 * length ts + 5 \<le> n \<longrightarrow> tpos t \<in> S \<longrightarrow> good S 0 ts (parseFieldValue n t ts)))"

lemma parser_okD:
  assumes "parser_ok n" "eof_term ts" "posns ts \<subseteq> S"
  shows "6 * length ts + 4 \<le> n \<Longrightarrow> good S 1 ts (parseOr n field ts)"
    and "6 * length ts + 4 \<le> n \<Longrightarrow> good S 0 ts (orLoop n field ts)"
    and "6 * length ts + 3 \<le> n \<Longrightarrow> good S 1 ts (parseAnd n field ts)"
    and "6 * length ts + 3 \<le> n \<Longrightarrow> good S 0 ts (andLoop n field ts)"
    and "6 * length ts + 2 \<le> n \<Longrightarrow> good S 1 ts (parseNot n field ts)"
    and "6 * length ts + 1 \<le> n \<Longrightarrow> good S 1 ts (parsePrimary n field ts)"
    and "6 * length ts + 5 \<le> n \<Longrightarrow> tpos t \<in> S \<Longrightarrow> good S 0 ts (parseParen n field t ts)"
    and "6 * length ts + 5 \<le> n \<Longrightarrow> tpos t \<in> S \<Longrightarrow> good S 0 ts (parseFieldValue n t ts)"
  using assms unfolding parser_ok_def by blast+

text \<open>Reading a token that is not the end marker, then going on with a parser that is fine.\<close>

lemma good_after:
  assumes "good S k us m" "length us \<le> length ts" "set us \<subseteq> set ts" "k' \<le> k + (length ts - length us)"
  shows "good S k' ts m"
  using assms(1) by (rule good_weaken) (use assms in auto)

lemma parseOr_step:
  assumes ok: "parser_ok n" and ts: "eof_term ts" "posns ts \<subseteq> S" and fuel: "6 * length ts + 4 \<le> Suc n"
  shows "good S 1 ts (parseOr (Suc n) field ts)"
  unfolding parseOr.simps [of "Suc n"] nat.case
proof (rule good_bindP)
  show "good S 1 ts (parseAnd n field ts)" using parser_okD(3) [OF ok ts] fuel by simp
  fix left us assume us: "eof_term us" "length us + 1 \<le> length ts" "set us \<subseteq> set ts"
  show "good S 1 ts (bindP (orLoop n field us)
     (\<lambda>kids vs. Inr (if kids = [] then left else KindOr (left # kids), vs)))"
  proof (rule good_bindP)
    have "posns us \<subseteq> S" using us ts by auto
    with ok us fuel have "good S 0 us (orLoop n field us)" by (intro parser_okD(2)) auto
    then show "good S 1 ts (orLoop n field us)" by (rule good_after) (use us in auto)
  qed auto
qed

lemma orLoop_step:
  assumes ok: "parser_ok n" and ts: "eof_term ts" "posns ts \<subseteq> S" and fuel: "6 * length ts + 4 \<le> Suc n"
  shows "good S 0 ts (orLoop (Suc n) field ts)"
proof -
  obtain t us where t: "ts = t # us" using ts(1) by (cases ts) auto
  have step: "good S 0 ts (bindP (parseAnd n field us) (\<lambda>right ws.
           bindP (orLoop n field ws) (\<lambda>kids xs. Inr (right # kids, xs))))" if "kind t = TOr"
  proof (rule good_bindP)
    from that ts t have us: "eof_term us" "posns us \<subseteq> S" by (auto dest: eof_term_Cons)
    then have "good S 1 us (parseAnd n field us)"
      using ok fuel t by (intro parser_okD(3)) auto
    then show "good S 1 ts (parseAnd n field us)" by (rule good_after) (auto simp: t)
    fix right ws assume ws: "eof_term ws" "length ws + 1 \<le> length ts" "set ws \<subseteq> set ts"
    show "good S 0 ts (bindP (orLoop n field ws) (\<lambda>kids xs. Inr (right # kids, xs)))"
    proof (rule good_bindP)
      have "good S 0 ws (orLoop n field ws)"
        using ok ws ts fuel by (intro parser_okD(2)) auto
      then show "good S 0 ts (orLoop n field ws)" by (rule good_after) (use ws in auto)
    qed auto
  qed
  then show ?thesis using ts(1) by (auto simp: orLoop.simps [of "Suc n"] t)
qed

lemma parseAnd_step:
  assumes ok: "parser_ok n" and ts: "eof_term ts" "posns ts \<subseteq> S" and fuel: "6 * length ts + 3 \<le> Suc n"
  shows "good S 1 ts (parseAnd (Suc n) field ts)"
  unfolding parseAnd.simps [of "Suc n"] nat.case
proof (rule good_bindP)
  show "good S 1 ts (parseNot n field ts)" using parser_okD(5) [OF ok ts] fuel by simp
  fix left us assume us: "eof_term us" "length us + 1 \<le> length ts" "set us \<subseteq> set ts"
  show "good S 1 ts (bindP (andLoop n field us)
     (\<lambda>kids vs. Inr (if kids = [] then left else KindAnd (left # kids), vs)))"
  proof (rule good_bindP)
    have "good S 0 us (andLoop n field us)" using ok us ts fuel by (intro parser_okD(4)) auto
    then show "good S 1 ts (andLoop n field us)" by (rule good_after) (use us in auto)
  qed auto
qed

lemma andLoop_step:
  assumes ok: "parser_ok n" and ts: "eof_term ts" "posns ts \<subseteq> S" and fuel: "6 * length ts + 3 \<le> Suc n"
  shows "good S 0 ts (andLoop (Suc n) field ts)"
proof -
  obtain t us where t: "ts = t # us" using ts(1) by (cases ts) auto
  have step: "good S 0 ts (bindP (parseNot n field vs) (\<lambda>right ws.
           bindP (andLoop n field ws) (\<lambda>kids xs. Inr (right # kids, xs))))"
    if vs: "eof_term vs" "set vs \<subseteq> set ts" "length vs \<le> length ts" for vs
  proof (rule good_bindP)
    have "good S 1 vs (parseNot n field vs)"
      using ok vs ts fuel by (intro parser_okD(5)) auto
    then show "good S 1 ts (parseNot n field vs)" by (rule good_after) (use vs in auto)
    fix right ws assume ws: "eof_term ws" "length ws + 1 \<le> length ts" "set ws \<subseteq> set ts"
    show "good S 0 ts (bindP (andLoop n field ws) (\<lambda>kids xs. Inr (right # kids, xs)))"
    proof (rule good_bindP)
      have "good S 0 ws (andLoop n field ws)"
        using ok ws ts fuel by (intro parser_okD(4)) auto
      then show "good S 0 ts (andLoop n field ws)" by (rule good_after) (use ws in auto)
    qed auto
  qed
  have "eof_term us" if "kind t = TAnd" using that ts(1) t by (auto dest: eof_term_Cons)
  then have "good S 0 ts (bindP (parseNot n field us) (\<lambda>right ws.
           bindP (andLoop n field ws) (\<lambda>kids xs. Inr (right # kids, xs))))" if "kind t = TAnd"
    using that by (intro step) (auto simp: t)
  with step [of ts] ts(1) show ?thesis
    by (auto simp: andLoop.simps [of "Suc n"] t)
qed

lemma parseNot_step:
  assumes ok: "parser_ok n" and ts: "eof_term ts" "posns ts \<subseteq> S" and fuel: "6 * length ts + 2 \<le> Suc n"
  shows "good S 1 ts (parseNot (Suc n) field ts)"
proof -
  obtain t us where t: "ts = t # us" using ts(1) by (cases ts) auto
  have prim: "good S 1 ts (parsePrimary n field ts)" using parser_okD(6) [OF ok ts] fuel by simp
  have not: "good S 1 ts (bindP (peek us) (\<lambda>q _.
             if \<not> startsPrimary q then pfail_at (tpos t) (NoExprAfter (ttext t))
             else bindP (parseNot n field us) (\<lambda>inner ws.
               Inr (case inner of KindNot x \<Rightarrow> x | _ \<Rightarrow> KindNot inner, ws))))" if "kind t = TNot"
  proof (rule good_peek, goal_cases)
    case 1
    from that ts t show ?case by (auto dest: eof_term_Cons)
    then have us: "eof_term us" .
    case (2 q vs)
    have "good S 1 ts (parseNot n field us)"
      by (rule good_after [OF parser_okD(5) [OF ok us]]) (use ts fuel t in auto)
    then have "good S 1 ts (bindP (parseNot n field us) (\<lambda>inner ws.
               Inr (case inner of KindNot x \<Rightarrow> x | _ \<Rightarrow> KindNot inner, ws)))"
      by (rule good_bindP) auto
    with ts t show ?case by auto
  qed
  from prim not show ?thesis by (auto simp: parseNot.simps [of "Suc n"] t)
qed

lemma parseParen_step:
  assumes ok: "parser_ok n" and ts: "eof_term ts" "posns ts \<subseteq> S" and fuel: "6 * length ts + 5 \<le> Suc n"
    and t: "tpos t \<in> S"
  shows "good S 0 ts (parseParen (Suc n) field t ts)"
  unfolding parseParen.simps [of "Suc n"] nat.case
proof (rule good_peek [OF ts(1)], rule good_if', rule t, rule good_bindP)
  show "good S 1 ts (parseOr n field ts)" using parser_okD(1) [OF ok ts] fuel by simp
  fix e vs assume vs: "eof_term vs" "length vs + 1 \<le> length ts" "set vs \<subseteq> set ts"
  have "posns vs \<subseteq> S" using vs ts by auto
  then show "good S 0 ts (bindP (nextTok vs) (\<lambda>c ws.
           if kind c \<noteq> TRParen then pfail_at (tpos c) (ExpectedRParen c) else Inr (e, ws)))"
    by (rule good_expect [OF vs(1)]) (use vs in auto)
qed

lemma parseFieldValue_step:
  assumes ok: "parser_ok n" and ts: "eof_term ts" "posns ts \<subseteq> S" and fuel: "6 * length ts + 5 \<le> Suc n"
  shows "good S 0 ts (parseFieldValue (Suc n) f ts)"
proof (cases "EqualFold (ttext f) ''_exists_''")
  case True
  have "good S 0 ts (bindP (nextTok ts) (\<lambda>v us.
          if \<not> isValueTok v then pfail_at (tpos v) ExistsNeedsField
          else Inr (existsClause (ttext v), us)))"
    by (rule good_expect [OF ts isValueTok_not_eof]) auto
  with True show ?thesis by (simp add: parseFieldValue.simps [of "Suc n"])
next
  case False
  obtain t us where t: "ts = t # us" using ts(1) by (cases ts) auto
  have us: "eof_term us" if "kind t \<noteq> TEOF" using that ts(1) t by (auto dest: eof_term_Cons)
  have S: "posns us \<subseteq> S" "tpos t \<in> S" using ts t by auto
  have "good S 0 ts (parseParen n (ttext f) t us)" if "kind t \<noteq> TEOF"
    by (rule good_after [OF parser_okD(7) [OF ok us [OF that] S(1)]]) (use fuel t S in auto)
  moreover have "good S 0 ts (parseCmpValue (ttext f) t us)" if "kind t \<noteq> TEOF"
    by (rule good_after [OF parseCmpValue_good [OF us [OF that] S(1)]]) (use t in auto)
  moreover have "good S 0 ts (parseRange (ttext f) t us)" if "kind t \<noteq> TEOF"
    by (rule good_after [OF parseRange_good [OF us [OF that] S(1)]]) (use t in auto)
  ultimately show ?thesis using False us S
    by (simp add: parseFieldValue.simps [of "Suc n"] t split: tokKind.split) auto
qed

lemma parsePrimary_step:
  assumes ok: "parser_ok n" and ts: "eof_term ts" "posns ts \<subseteq> S" and fuel: "6 * length ts + 1 \<le> Suc n"
  shows "good S 1 ts (parsePrimary (Suc n) field ts)"
proof -
  obtain t us where t: "ts = t # us" using ts(1) by (cases ts) auto
  have us: "eof_term us" if "kind t \<noteq> TEOF" using that ts(1) t by (auto dest: eof_term_Cons)
  have S: "posns us \<subseteq> S" "tpos t \<in> S" using ts t by auto
  have "good S 1 ts (parseParen n field t us)" if "kind t \<noteq> TEOF"
    by (rule good_after [OF parser_okD(7) [OF ok us [OF that] S(1)]]) (use fuel t S in auto)
  moreover have "good S 1 ts (parseTerm field t us)" if "kind t \<noteq> TEOF"
    by (rule good_after [OF parseTerm_good [OF us [OF that] S]]) (use t in auto)
  moreover have "good S 1 ts (parseFieldValue n t us)" if "kind t \<noteq> TEOF"
    by (rule good_after [OF parser_okD(8) [OF ok us [OF that] S(1)]]) (use fuel t S in auto)
  ultimately show ?thesis using us S
    by (simp add: parsePrimary.simps [of "Suc n"] t split: tokKind.split) auto
qed

lemma parser_ok_all: "parser_ok n"
proof (induction n)
  case 0
  show ?case by (auto simp: parser_ok_def)
next
  case (Suc n)
  show ?case
    unfolding parser_ok_def [of "Suc n"]
    by (intro allI impI conjI; elim conjE; (rule parseOr_step [OF Suc] orLoop_step [OF Suc]
        parseAnd_step [OF Suc] andLoop_step [OF Suc] parseNot_step [OF Suc] parsePrimary_step [OF Suc]
        parseParen_step [OF Suc] parseFieldValue_step [OF Suc]); assumption)
qed

lemma stream_ok_posns: "stream_ok i n ts \<Longrightarrow> posns ts \<subseteq> {..n}"
  by (induction i n ts rule: stream_ok.induct) (auto simp: tok_ok_def)

lemma parseOr_good:
  "eof_term ts \<Longrightarrow> posns ts \<subseteq> S \<Longrightarrow> good S 1 ts (parseOr (parseFuel ts) field ts)"
  by (rule parser_okD(1) [OF parser_ok_all]) (auto simp: parseFuel_def)

lemma Parse_outcome:
  "(\<exists>r. Parse q = Inr r) \<or> (\<exists>e. Parse q = Inl (Fail e) \<and> Pos e \<le> length q)"
proof (cases "TrimSpace q = []")
  case True
  then show ?thesis by (simp add: Parse_def)
next
  case nb: False
  show ?thesis
  proof (cases "lex q")
    case (Inl e)
    with lex_loop_error [of None 0 q e] nb show ?thesis by (simp add: Parse_def lex_def)
  next
    case (Inr toks)
    note st = lex_stream [OF Inr]
    have g: "good {..length q} 1 toks (parseOr (parseFuel toks) [] toks)"
      using st by (intro parseOr_good stream_ok_eof_term stream_ok_posns)
    show ?thesis
    proof (cases "parseOr (parseFuel toks) [] toks")
      case (Inl e)
      with g nb Inr show ?thesis by (cases e) (auto simp: Parse_def good_def)
    next
      case (Inr r)
      obtain e us where r: "r = (e, us)" by force
      with g Inr obtain t vs where "us = t # vs" "t \<in> set toks" by (cases us) auto
      moreover have "tpos t \<le> length q" using stream_ok_posns [OF st] \<open>t \<in> set toks\<close> by auto
      ultimately show ?thesis using nb Inr r \<open>lex q = Inr toks\<close> by (auto simp: Parse_def peek_def)
    qed
  qed
qed

text \<open>
  C13. The parser is total. On every byte string it returns, without running past the end of the token
  stream and without exhausting its fuel, and the position of a syntax error lies inside the query.
\<close>

theorem Parse_total:
  "(\<exists>r. Parse q = Inr r) \<or> (\<exists>e. Parse q = Inl (Fail e) \<and> Pos e \<le> length q)"
  by (rule Parse_outcome)

section \<open>The shape of parsed trees\<close>

text \<open>
  The comment on \<open>Expr\<close>: a conjunction or disjunction has at least two children, a negation has one,
  which is no negation; and a leaf only sets the fields of its operator.
\<close>

fun shape_ok :: "Expr \<Rightarrow> bool" where
  "shape_ok (KindAnd ks) \<longleftrightarrow> 2 \<le> length ks \<and> (\<forall>k \<in> set ks. shape_ok k)"
| "shape_ok (KindOr ks) \<longleftrightarrow> 2 \<le> length ks \<and> (\<forall>k \<in> set ks. shape_ok k)"
| "shape_ok (KindNot k) \<longleftrightarrow> shape_ok k \<and> (\<forall>x. k \<noteq> KindNot x)"
| "shape_ok (KindClause c) \<longleftrightarrow>
     \<not> (Phrase c \<and> Wildcard c) \<and>
     (Wildcard c \<longrightarrow> Oper c = OpMatch) \<and> (Phrase c \<longrightarrow> Oper c \<notin> {OpExists, OpRange}) \<and>
     (Lo c \<noteq> [] \<or> Hi c \<noteq> [] \<or> LoIncl c \<or> HiIncl c \<longrightarrow> Oper c = OpRange)"

definition yields :: "('a \<Rightarrow> bool) \<Rightarrow> 'a pres \<Rightarrow> bool" where
  "yields P r \<longleftrightarrow> (\<forall>a us. r = Inr (a, us) \<longrightarrow> P a)"

lemma yields_simps [simp]: "yields P (Inl e)" "yields P (Inr (a, us)) \<longleftrightarrow> P a"
  by (auto simp: yields_def)

lemma yields_bindP:
  assumes "yields P m" and "\<And>a us. P a \<Longrightarrow> yields Q (f a us)"
  shows "yields Q (bindP m f)"
  using assms(1) assms(2) [of "fst (projr m)" "snd (projr m)"]
  by (cases m) (auto simp: yields_def bindP_def split: prod.splits)

lemma yields_bindP_any: "(\<And>a us. yields Q (f a us)) \<Longrightarrow> yields Q (bindP m f)"
  by (cases m) (auto simp: yields_def bindP_def)

lemma clause0_simps [simp]:
  "Field clause0 = []" "Oper clause0 = OpMatch" "Value clause0 = []" "Phrase clause0 = False"
  "Wildcard clause0 = False" "Lo clause0 = []" "Hi clause0 = []" "LoIncl clause0 = False" "HiIncl clause0 = False"
  by (simp_all add: clause0_def)

lemma leaf_shapes [simp]:
  "shape_ok (matchClause f t)" "shape_ok (existsClause f)" "shape_ok (cmpClause f c v)"
  by (auto simp: matchClause_def existsClause_def cmpClause_def cmpOp_def)

lemma leaf_yields [simp]:
  "yields shape_ok (parseCmpValue f c ts)" "yields shape_ok (parseRange f c ts)" "yields shape_ok (parseTerm f c ts)"
  unfolding parseCmpValue_def parseRange_def parseTerm_def
  by (rule yields_bindP_any; auto intro!: yields_bindP_any)+

lemma parser_shape:
  "yields shape_ok (parseOr n f ts) \<and> yields (list_all shape_ok) (orLoop n f ts) \<and>
   yields shape_ok (parseAnd n f ts) \<and> yields (list_all shape_ok) (andLoop n f ts) \<and>
   yields shape_ok (parseNot n f ts) \<and> yields shape_ok (parsePrimary n f ts) \<and>
   yields shape_ok (parseParen n f t ts) \<and> yields shape_ok (parseFieldValue n t ts)"
proof (induction n arbitrary: f ts t)
  case 0
  then show ?case by (simp add: parser_simps)
next
  case (Suc n)
  then have IH:
    "\<And>f ts. yields shape_ok (parseOr n f ts)" "\<And>f ts. yields (list_all shape_ok) (orLoop n f ts)"
    "\<And>f ts. yields shape_ok (parseAnd n f ts)" "\<And>f ts. yields (list_all shape_ok) (andLoop n f ts)"
    "\<And>f ts. yields shape_ok (parseNot n f ts)" "\<And>f ts. yields shape_ok (parsePrimary n f ts)"
    "\<And>f t ts. yields shape_ok (parseParen n f t ts)" "\<And>t ts. yields shape_ok (parseFieldValue n t ts)"
    by auto
  have len: "list_all shape_ok kids \<Longrightarrow> kids \<noteq> [] \<Longrightarrow> 2 \<le> length (x # kids)" for kids and x :: Expr
    by (cases kids) auto
  have A: "yields shape_ok (parseOr (Suc n) f ts)"
    by (simp add: parseOr.simps) (rule yields_bindP [OF IH(3)], rule yields_bindP [OF IH(2)],
      use len in \<open>auto simp: list_all_iff\<close>)
  have B: "yields (list_all shape_ok) (orLoop (Suc n) f ts)"
    by (simp add: orLoop.simps) (rule yields_bindP_any, simp, intro impI, rule yields_bindP_any,
      rule yields_bindP [OF IH(3)], rule yields_bindP [OF IH(2)], simp)
  have C: "yields shape_ok (parseAnd (Suc n) f ts)"
    by (simp add: parseAnd.simps) (rule yields_bindP [OF IH(5)], rule yields_bindP [OF IH(4)],
      use len in \<open>auto simp: list_all_iff\<close>)
  have D: "yields (list_all shape_ok) (andLoop (Suc n) f ts)"
    by (simp add: andLoop.simps) (rule yields_bindP_any, auto intro!: yields_bindP_any yields_bindP [OF IH(5)] yields_bindP [OF IH(4)])
  have E: "yields shape_ok (parseNot (Suc n) f ts)"
    by (simp add: parseNot.simps) (rule yields_bindP_any, auto intro!: yields_bindP_any yields_bindP [OF IH(5)] IH(6) split: Expr.split)
  have F: "yields shape_ok (parsePrimary (Suc n) f ts)"
    by (simp add: parsePrimary.simps) (rule yields_bindP_any, auto intro!: IH split: tokKind.split)
  have G: "yields shape_ok (parseParen (Suc n) f t ts)"
    by (simp add: parseParen.simps) (rule yields_bindP_any, simp, intro impI, rule yields_bindP [OF IH(1)], rule yields_bindP_any, simp)
  have H: "yields shape_ok (parseFieldValue (Suc n) t ts)"
    by (simp add: parseFieldValue.simps) (auto intro!: yields_bindP_any IH split: tokKind.split)
  from A B C D E F G H show ?case by blast
qed

text \<open>
  Every parsed tree has the documented shape: junctions with two children or more, no double
  negation, and leaves that set only the fields of their operator.
\<close>

theorem Parse_shape:
  assumes "Parse q = Inr (Some e)"
  shows "shape_ok e"
  using assms parser_shape [THEN conjunct1]
  by (fastforce simp: Parse_def yields_def split: if_splits sum.splits)

theorem Parse_shape_witness:
  "\<exists>e. Parse ''a b NOT NOT c'' = Inr (Some e) \<and> shape_ok e"
proof -
  have "(case Parse ''a b NOT NOT c'' of Inr (Some _) \<Rightarrow> True | _ \<Rightarrow> False)" by code_simp
  then obtain e where e: "Parse ''a b NOT NOT c'' = Inr (Some e)" by (auto split: sum.splits option.splits)
  from Parse_shape [OF e] e show ?thesis by blast
qed

end
