(* ===== verification/LogQL_Print.thy ===== *)
theory LogQL_Print
  imports LogQL_Parse
begin

text \<open>
  The printer of the log query language (\<open>Expr.String\<close> in \<open>internal/logql/logql.go\<close>) and its round
  trip with the parser. \<open>wf_expr\<close> describes the trees whose leaves the unquoted syntax can carry; for
  these \<open>Parse\<close> undoes \<open>String\<close>. Outside it does not, contrary to the comment on \<open>String\<close>.
\<close>

section \<open>Printer\<close>

definition escPhrase :: "string \<Rightarrow> string" where
  "escPhrase v = concat (map (\<lambda>c. if c = CHR 0x5C then [CHR 0x5C, CHR 0x5C]
      else if c = CHR 0x22 then [CHR 0x5C, CHR 0x22] else [c]) v)"

definition printVal :: "string \<Rightarrow> bool \<Rightarrow> string" where
  "printVal v phrase = (if phrase then [CHR 0x22] @ escPhrase v @ [CHR 0x22] else v)"

definition printClause :: "clause \<Rightarrow> string" where
  "printClause c =
     (let pre = (if Field c \<noteq> [] then Field c @ '':'' else []) in
      case Oper c of
        OpExists \<Rightarrow> ''_exists_:'' @ Field c
      | OpGt \<Rightarrow> pre @ ''>'' @ printVal (Value c) (Phrase c)
      | OpGte \<Rightarrow> pre @ ''>='' @ printVal (Value c) (Phrase c)
      | OpLt \<Rightarrow> pre @ ''<'' @ printVal (Value c) (Phrase c)
      | OpLte \<Rightarrow> pre @ ''<='' @ printVal (Value c) (Phrase c)
      | OpRange \<Rightarrow>
          (let lo = (if Lo c = [] then ''*'' else Lo c);
               hi = (if Hi c = [] then ''*'' else Hi c);
               l = (if \<not> LoIncl c then ''{'' else ''['');
               r = (if \<not> HiIncl c then ''}'' else '']'')
           in pre @ l @ lo @ '' TO '' @ hi @ r)
      | OpMatch \<Rightarrow> pre @ printVal (Value c) (Phrase c))"

definition isJunction :: "Expr \<Rightarrow> bool" where
  "isJunction e \<longleftrightarrow> (case e of KindAnd _ \<Rightarrow> True | KindOr _ \<Rightarrow> True | _ \<Rightarrow> False)"

definition isClause :: "Expr \<Rightarrow> bool" where
  "isClause e \<longleftrightarrow> (case e of KindClause _ \<Rightarrow> True | _ \<Rightarrow> False)"

definition paren :: "string \<Rightarrow> string" where
  "paren s = ''('' @ s @ '')''"

fun String :: "Expr \<Rightarrow> string" where
  "String (KindAnd ks) = Join (map (\<lambda>k. if isJunction k then paren (String k) else String k) ks) '' AND ''"
| "String (KindOr ks) = Join (map (\<lambda>k. if isJunction k then paren (String k) else String k) ks) '' OR ''"
| "String (KindNot k) = ''NOT '' @ (if isClause k then String k else paren (String k))"
| "String (KindClause c) = printClause c"

section \<open>Printable trees\<close>

definition space_bytes :: "char set" where
  "space_bytes = set (concat go_spaces)"

definition haswild :: "string \<Rightarrow> bool" where
  "haswild v = list_ex (\<lambda>c. c = CHR ''*'' \<or> c = CHR ''?'') v"

text \<open>A text the lexer reads back as one bare term, wherever it stands.\<close>

definition bare_ok :: "string \<Rightarrow> bool" where
  "bare_ok v \<longleftrightarrow>
     v \<noteq> [] \<and> list_all (\<lambda>c. \<not> isTermStop c \<and> c \<noteq> CHR 0x5C) v \<and>
     \<not> List.member [CHR ''>'', CHR ''<'', CHR ''&'', CHR ''|'', CHR ''!'', CHR ''-'', CHR ''/''] (hd v) \<and>
     \<not> List.member [''AND'', ''OR'', ''NOT'', ''TO''] (ToUpper v) \<and>
     (isIdentStart (hd v) \<longrightarrow> \<not> List.member v (CHR '':'')) \<and>
     list_ex (\<lambda>c. c \<notin> space_bytes) v"

definition ident_ok :: "string \<Rightarrow> bool" where
  "ident_ok f \<longleftrightarrow>
     f \<noteq> [] \<and> isIdentStart (hd f) \<and> list_all isIdentChar (tl f) \<and> \<not> EqualFold f ''_exists_''"

definition wf_clause :: "clause \<Rightarrow> bool" where
  "wf_clause c \<longleftrightarrow>
     (case Oper c of
        OpMatch \<Rightarrow>
          c = clause0\<lparr>Field := Field c, Value := Value c, Phrase := Phrase c, Wildcard := Wildcard c\<rparr> \<and>
          (Field c = [] \<or> ident_ok (Field c)) \<and>
          (if Phrase c then \<not> Wildcard c
           else bare_ok (Value c) \<and> Value c \<noteq> ''*'' \<and> Wildcard c = haswild (Value c))
      | OpExists \<Rightarrow> c = clause0\<lparr>Field := Field c, Oper := OpExists\<rparr> \<and> bare_ok (Field c)
      | OpRange \<Rightarrow>
          c = clause0\<lparr>Field := Field c, Oper := OpRange, Lo := Lo c, Hi := Hi c,
                LoIncl := LoIncl c, HiIncl := HiIncl c\<rparr> \<and>
          ident_ok (Field c) \<and>
          (Lo c = [] \<or> bare_ok (Lo c) \<and> Lo c \<noteq> ''*'') \<and> (Hi c = [] \<or> bare_ok (Hi c) \<and> Hi c \<noteq> ''*'')
      | cmp \<Rightarrow>
          c = clause0\<lparr>Field := Field c, Oper := Oper c, Value := Value c, Phrase := Phrase c\<rparr> \<and>
          ident_ok (Field c) \<and> (Phrase c \<or> bare_ok (Value c) \<and> hd (Value c) \<noteq> CHR ''=''))"

fun wf_expr :: "Expr \<Rightarrow> bool" where
  "wf_expr (KindAnd ks) \<longleftrightarrow> 2 \<le> length ks \<and> list_all wf_expr ks"
| "wf_expr (KindOr ks) \<longleftrightarrow> 2 \<le> length ks \<and> list_all wf_expr ks"
| "wf_expr (KindNot k) \<longleftrightarrow> wf_expr k \<and> (case k of KindNot _ \<Rightarrow> False | _ \<Rightarrow> True)"
| "wf_expr (KindClause c) \<longleftrightarrow> wf_clause c"

section \<open>The tokens of a printed tree\<close>

type_synonym ktok = "tokKind \<times> string \<times> bool"

definition strip :: "token \<Rightarrow> ktok" where
  "strip t = (kind t, ttext t, wild t)"

definition lexes :: "string \<Rightarrow> ktok list \<Rightarrow> bool" where
  "lexes r ks \<longleftrightarrow> (\<forall>prev i. \<exists>ts. lex_loop prev i r = Inr ts \<and> map strip ts = ks)"

definition vtok :: "string \<Rightarrow> bool \<Rightarrow> ktok" where
  "vtok v phrase = (if phrase then (TPhrase, v, False) else (TTerm, v, haswild v))"

definition bound :: "string \<Rightarrow> string" where
  "bound v = (if v = [] then ''*'' else v)"

definition ctoks :: "clause \<Rightarrow> ktok list" where
  "ctoks c =
     (let ft = [(TField, Field c, False)]; v = vtok (Value c) (Phrase c) in
      case Oper c of
        OpMatch \<Rightarrow> (if Field c \<noteq> [] then ft else []) @ [v]
      | OpExists \<Rightarrow> [(TField, ''_exists_'', False), vtok (Field c) False]
      | OpGt \<Rightarrow> ft @ [(TCmp, ''>'', False), v]
      | OpGte \<Rightarrow> ft @ [(TCmp, ''>='', False), v]
      | OpLt \<Rightarrow> ft @ [(TCmp, ''<'', False), v]
      | OpLte \<Rightarrow> ft @ [(TCmp, ''<='', False), v]
      | OpRange \<Rightarrow>
          ft @ [(if LoIncl c then TLBracket else TLBrace, [], False), vtok (bound (Lo c)) False,
                (TTo, ''TO'', False), vtok (bound (Hi c)) False,
                (if HiIncl c then TRBracket else TRBrace, [], False)])"

fun sepBy :: "'a \<Rightarrow> 'a list list \<Rightarrow> 'a list" where
  "sepBy s [] = []"
| "sepBy s [x] = x"
| "sepBy s (x # y # xs) = x @ s # sepBy s (y # xs)"

abbreviation LP :: ktok where "LP \<equiv> (TLParen, [], False)"
abbreviation RP :: ktok where "RP \<equiv> (TRParen, [], False)"

definition wrap :: "bool \<Rightarrow> ktok list \<Rightarrow> ktok list" where
  "wrap b ks = (if b then LP # ks @ [RP] else ks)"

fun etoks :: "Expr \<Rightarrow> ktok list" where
  "etoks (KindAnd ks) = sepBy (TAnd, ''AND'', False) (map (\<lambda>k. wrap (isJunction k) (etoks k)) ks)"
| "etoks (KindOr ks) = sepBy (TOr, ''OR'', False) (map (\<lambda>k. wrap (isJunction k) (etoks k)) ks)"
| "etoks (KindNot k) = (TNot, ''NOT'', False) # wrap (\<not> isClause k) (etoks k)"
| "etoks (KindClause c) = ctoks c"

section \<open>Lexing printed text\<close>

lemma lexes_Nil: "lexes [] [(TEOF, [], False)]"
  by (auto simp: lexes_def lex_loop.simps strip_def)

lemma lexes_tok:
  assumes step: "\<And>prev i. \<exists>t. lex_step prev i r = Inr (Some t, n) \<and> strip t = k"
    and ne: "r \<noteq> []" and rest: "lexes (drop n r) ks"
  shows "lexes r (k # ks)"
  unfolding lexes_def
proof (intro allI)
  fix prev i
  from step obtain t where t: "lex_step prev i r = Inr (Some t, n)" "strip t = k" by blast
  from rest obtain ts where "lex_loop (Some (r ! (n - 1))) (i + n) (drop n r) = Inr ts" "map strip ts = ks"
    unfolding lexes_def by blast
  with t ne show "\<exists>ts. lex_loop prev i r = Inr ts \<and> map strip ts = k # ks"
    by (simp add: lex_loop.simps [of prev i r])
qed

lemma lexes_space:
  assumes "isSpace c" "lexes r ks"
  shows "lexes (c # r) ks"
  unfolding lexes_def
proof (intro allI)
  fix prev i
  from assms(2) obtain ts where "lex_loop (Some c) (i + 1) r = Inr ts" "map strip ts = ks"
    unfolding lexes_def by blast
  with assms(1) show "\<exists>ts. lex_loop prev i (c # r) = Inr ts \<and> map strip ts = ks"
    by (simp add: lex_loop.simps [of prev i "c # r"])
qed

lemma lexes_bracket:
  assumes "lex_bracket c = Some k" "\<not> isSpace c" "lexes r ks"
  shows "lexes (c # r) ((k, [], False) # ks)"
  by (rule lexes_tok [where n = 1]) (use assms in \<open>auto simp: strip_def\<close>)

lemma scanPhrase_esc: "scanPhrase (escPhrase v @ CHR 0x22 # r) = Some (v, length (escPhrase v) + 1)"
proof (induction v)
  case (Cons c v)
  then show ?case by (auto simp: escPhrase_def)
qed (simp add: escPhrase_def)

lemma lexes_phrase:
  assumes "lexes r ks"
  shows "lexes (CHR 0x22 # escPhrase v @ CHR 0x22 # r) ((TPhrase, v, False) # ks)"
proof (rule lexes_tok [where n = "length (escPhrase v) + 2"])
  fix prev i
  show "\<exists>t. lex_step prev i (CHR 0x22 # escPhrase v @ CHR 0x22 # r) = Inr (Some t, length (escPhrase v) + 2) \<and>
      strip t = (TPhrase, v, False)"
    by (simp add: isSpace_def lex_bracket_def scanPhrase_esc strip_def)
qed (use assms in auto)

definition delim :: "string \<Rightarrow> bool" where
  "delim r \<longleftrightarrow> r = [] \<or> isTermStop (hd r)"

lemma scanTerm_bare:
  assumes "list_all (\<lambda>c. \<not> isTermStop c \<and> c \<noteq> CHR 0x5C) v" "delim r"
  shows "scanTerm (v @ r) = (v, haswild v, length v)"
  using assms
proof (induction v)
  case Nil
  then show ?case by (cases r) (auto simp: delim_def haswild_def)
next
  case (Cons c v)
  then show ?case by (auto simp: haswild_def)
qed

lemma isIdentChar_not_colon: "\<not> isIdentChar (CHR '':'')"
  by (simp add: isIdentChar_def isIdentStart_def)

text \<open>Without a colon in the identifier's reach there is no field prefix.\<close>

lemma drop_after_ident:
  assumes v: "v \<noteq> []" "isIdentStart (hd v)" "CHR '':'' \<notin> set v" and r: "delim r"
  shows "\<not> (\<exists>x. drop (Suc (length (takeWhile isIdentChar (tl v @ r)))) (v @ r) = CHR '':'' # x)"
proof
  define n where "n = length (takeWhile isIdentChar (tl v @ r))"
  assume "\<exists>x. drop (Suc (length (takeWhile isIdentChar (tl v @ r)))) (v @ r) = CHR '':'' # x"
  then obtain x where "drop n (tl v @ r) = CHR '':'' # x"
    using v(1) by (cases v) (auto simp: n_def)
  then have dw: "dropWhile isIdentChar (tl v @ r) = CHR '':'' # x"
    by (simp add: n_def dropWhile_eq_drop)
  have stop: "r \<noteq> [] \<Longrightarrow> \<not> isIdentChar (hd r) \<and> hd r \<noteq> CHR '':''"
    using r by (auto simp: delim_def isTermStop_def isSpace_def isIdentChar_def isIdentStart_def)
  show False
  proof (cases "\<forall>c \<in> set (tl v). isIdentChar c")
    case True
    then have "dropWhile isIdentChar (tl v @ r) = r"
      using stop by (cases r) (auto simp: dropWhile_append)
    with dw stop show False by (cases r) auto
  next
    case False
    then have "dropWhile isIdentChar (tl v @ r) = dropWhile isIdentChar (tl v) @ r"
      by (auto simp: dropWhile_append dropWhile_eq_Nil_conv)
    with dw False have "dropWhile isIdentChar (tl v) \<noteq> []" "hd (dropWhile isIdentChar (tl v)) = CHR '':''"
      by (auto simp: dropWhile_eq_Nil_conv hd_append) (metis dropWhile_eq_Nil_conv hd_append2 list.sel(1))
    then have "CHR '':'' \<in> set (tl v)" by (metis hd_in_set set_dropWhileD)
    with v show False by (cases v) auto
  qed
qed

definition plain :: "string \<Rightarrow> bool" where
  "plain v \<longleftrightarrow> v \<noteq> [] \<and> list_all (\<lambda>c. \<not> isTermStop c \<and> c \<noteq> CHR 0x5C) v \<and>
     (isIdentStart (hd v) \<longrightarrow> CHR '':'' \<notin> set v)"

lemma bare_plain: "bare_ok v \<Longrightarrow> plain v"
  by (auto simp: bare_ok_def plain_def)

lemma plain_no_prefix:
  assumes "plain v" "delim r"
  shows "fieldPrefixLen (v @ r) = 0 \<and> kqlSpacedFieldLen (v @ r) = (0, 0)"
proof -
  obtain c cs where v: "v = c # cs" using assms by (cases v) (auto simp: plain_def)
  show ?thesis
  proof (cases "isIdentStart c")
    case False
    then show ?thesis by (simp add: fieldPrefixLen_def kqlSpacedFieldLen_def v)
  next
    case True
    with assms v have "\<not> (\<exists>x. drop (Suc (length (takeWhile isIdentChar (cs @ r)))) (v @ r) = CHR '':'' # x)"
      using drop_after_ident [of v r] by (auto simp: plain_def)
    then show ?thesis
      by (auto simp: fieldPrefixLen_def kqlSpacedFieldLen_def v Let_def split: list.splits)
  qed
qed

lemma lex_word_plain:
  assumes "plain v" "delim r"
  shows "lex_word i (v @ r) = Inr (Some (termToken v (haswild v) i (i + length v)), length v)"
  using plain_no_prefix [OF assms] scanTerm_bare [of v r] assms
  by (auto simp: lex_word_def plain_def)

lemma lexes_term:
  assumes v: "bare_ok v" and d: "delim r" and r: "lexes r ks"
  shows "lexes (v @ r) ((TTerm, v, haswild v) # ks)"
proof (rule lexes_tok [where n = "length v"])
  fix prev i
  obtain c cs where vc: "v = c # cs" using v by (cases v) (auto simp: bare_ok_def)
  have ns: "\<not> isTermStop c" using v vc by (simp add: bare_ok_def)
  have nb: "lex_bracket c = None" using ns by (simp add: isTermStop_def lex_bracket_def)
  have nop: "lex_operator prev c (cs @ r) = None"
    using v vc by (simp add: bare_ok_def lex_operator_def)
  have "termToken v (haswild v) i j = (mk_tok TTerm v i j)\<lparr>wild := haswild v\<rparr>" for j
    using v by (simp add: termToken_def bare_ok_def)
  with lex_word_plain [OF bare_plain [OF v] d, of i]
  have "lex_word i (c # cs @ r) = Inr (Some ((mk_tok TTerm v i (i + length v))\<lparr>wild := haswild v\<rparr>), length v)"
    by (simp add: vc)
  with ns nb nop show "\<exists>t. lex_step prev i (v @ r) = Inr (Some t, length v) \<and> strip t = (TTerm, v, haswild v)"
    by (auto simp: vc strip_def isTermStop_def)
qed (use assms in \<open>auto simp: bare_ok_def\<close>)

lemma isIdentStart_plain:
  assumes "isIdentStart c"
  shows "\<not> isSpace c" "lex_bracket c = None" "c \<noteq> CHR 0x22" "lex_operator prev c r = None"
proof -
  let ?odd = "[CHR '' '', CHR 0x09, CHR 0x0A, CHR 0x0D, CHR ''('', CHR '')'', CHR ''['', CHR '']'',
     CHR ''{'', CHR ''}'', CHR 0x22, CHR ''>'', CHR ''<'', CHR ''&'', CHR ''|'', CHR ''!'', CHR ''-'']"
  have "list_all (\<lambda>d. \<not> isIdentStart d) ?odd" by (simp add: isIdentStart_def)
  with assms have "\<not> List.member ?odd c" by (auto simp only: list_all_iff List.member_iff)
  then have "list_all (\<lambda>d. c \<noteq> d) ?odd" by simp
  then show "\<not> isSpace c" "lex_bracket c = None" "c \<noteq> CHR 0x22" "lex_operator prev c r = None"
    by (simp_all add: isSpace_def lex_bracket_def lex_operator_def)
qed

lemma lexes_field:
  assumes f: "f \<noteq> []" "isIdentStart (hd f)" "list_all isIdentChar (tl f)"
    and r: "r \<noteq> []" "\<not> isSpace (hd r)" "hd r \<noteq> CHR ''/''" and ks: "lexes r ks"
  shows "lexes (f @ CHR '':'' # r) ((TField, f, False) # ks)"
proof (rule lexes_tok [where n = "length f + 1"])
  fix prev i
  obtain c cs where fc: "f = c # cs" using f by (cases f) auto
  obtain d ds where rd: "r = d # ds" using r by (cases r) auto
  have c: "\<not> isSpace c" "lex_bracket c = None" "c \<noteq> CHR 0x22" "lex_operator prev c (cs @ CHR '':'' # r) = None"
    using f fc isIdentStart_plain [of c] by auto
  have "takeWhile isIdentChar (cs @ CHR '':'' # r) = cs"
    using f fc isIdentChar_not_colon by (intro takeWhile_append_stop) (auto simp: list_all_iff)
  then have "fieldPrefixLen (f @ CHR '':'' # r) = length f"
    using f r by (simp add: fieldPrefixLen_def fc rd)
  then have "lex_word i (f @ CHR '':'' # r) = Inr (Some (mk_tok TField f i (i + length f + 1)), length f + 1)"
    using f by (simp add: lex_word_def Let_def)
  with c show "\<exists>t. lex_step prev i (f @ CHR '':'' # r) = Inr (Some t, length f + 1) \<and> strip t = (TField, f, False)"
    by (auto simp: fc strip_def)
qed (use assms in auto)

lemma lexes_keyword:
  assumes "(w, k) \<in> {(''AND'', TAnd), (''OR'', TOr), (''NOT'', TNot), (''TO'', TTo)}" and "lexes r ks"
  shows "lexes (w @ CHR '' '' # r) ((k, w, False) # ks)"
proof (rule lexes_tok [where n = "length w"])
  fix prev i
  have pl: "plain w" using assms(1) by (auto simp: plain_def isTermStop_def isSpace_def)
  have "w \<noteq> [] \<and> isIdentStart (hd w)"
    using assms(1) by (elim insertE emptyE) (simp_all add: isIdentStart_def)
  then obtain c cs where w: "w = c # cs" "isIdentStart c" by (cases w) auto
  have tt: "strip (termToken w b i j) = (k, w, False)" for b j
    using assms(1) by (auto simp: termToken_def strip_def ToUpper_def ascii_upper_def)
  have "delim (CHR '' '' # r)" by (simp add: delim_def isTermStop_def isSpace_def)
  from lex_word_plain [OF pl this, of i] tt isIdentStart_plain [OF w(2)]
  show "\<exists>t. lex_step prev i (w @ CHR '' '' # r) = Inr (Some t, length w) \<and> strip t = (k, w, False)"
    by (simp add: w)
next
  show "lexes (drop (length w) (w @ CHR '' '' # r)) ks"
    using assms by (auto intro!: lexes_space simp: isSpace_def)
qed (use assms in auto)

lemma lexes_cmp:
  assumes "o1 = CHR ''>'' \<or> o1 = CHR ''<''" "lexes r ks"
  shows "lexes (o1 # CHR ''='' # r) ((TCmp, [o1, CHR ''=''], False) # ks)"
    and "r = [] \<or> hd r \<noteq> CHR ''='' \<Longrightarrow> lexes (o1 # r) ((TCmp, [o1], False) # ks)"
proof -
  show "lexes (o1 # CHR ''='' # r) ((TCmp, [o1, CHR ''=''], False) # ks)"
    by (rule lexes_tok [where n = 2])
       (use assms in \<open>auto simp: isSpace_def lex_bracket_def lex_operator_def strip_def\<close>)
  assume "r = [] \<or> hd r \<noteq> CHR ''=''"
  then have "take 1 r \<noteq> ''=''" by (cases r) auto
  then show "lexes (o1 # r) ((TCmp, [o1], False) # ks)"
    by (intro lexes_tok [where n = 1])
       (use assms in \<open>auto simp: isSpace_def lex_bracket_def lex_operator_def strip_def\<close>)
qed

lemma delim_cases [simp]: "delim []" "isTermStop c \<Longrightarrow> delim (c # r)"
  by (auto simp: delim_def)

lemma stop_chars [simp]:
  "isTermStop (CHR '' '')" "isTermStop (CHR '')'')" "isTermStop (CHR '']'')" "isTermStop (CHR ''}'')"
  by (simp_all add: isTermStop_def isSpace_def)

lemma bracket_chars [simp]:
  "lex_bracket (CHR ''('') = Some TLParen" "lex_bracket (CHR '')'') = Some TRParen"
  "lex_bracket (CHR ''['') = Some TLBracket" "lex_bracket (CHR '']'') = Some TRBracket"
  "lex_bracket (CHR ''{'') = Some TLBrace" "lex_bracket (CHR ''}'') = Some TRBrace"
  by (simp_all add: lex_bracket_def)

lemma nospace_chars [simp]:
  "\<not> isSpace (CHR ''('')" "\<not> isSpace (CHR '')'')" "\<not> isSpace (CHR ''['')" "\<not> isSpace (CHR '']'')"
  "\<not> isSpace (CHR ''{'')" "\<not> isSpace (CHR ''}'')" "\<not> isSpace (CHR ''>'')" "\<not> isSpace (CHR ''<'')"
  "\<not> isSpace (CHR 0x22)" "isSpace (CHR '' '')"
  by (simp_all add: isSpace_def)

lemma lexes_val:
  assumes "phrase \<or> bare_ok v" "delim r" "lexes r ks"
  shows "lexes (printVal v phrase @ r) (vtok v phrase # ks)"
  using assms lexes_phrase [of r ks v] lexes_term [of v r ks] by (auto simp: printVal_def vtok_def)

lemma printVal_hd:
  assumes "phrase \<or> bare_ok v"
  shows "printVal v phrase \<noteq> []" "\<not> isSpace (hd (printVal v phrase))" "hd (printVal v phrase) \<noteq> CHR ''/''"
proof -
  have "phrase \<or> (v \<noteq> [] \<and> \<not> isTermStop (hd v) \<and> hd v \<noteq> CHR ''/'')"
    using assms by (cases v) (auto simp: bare_ok_def)
  then show "printVal v phrase \<noteq> []" "\<not> isSpace (hd (printVal v phrase))" "hd (printVal v phrase) \<noteq> CHR ''/''"
    by (auto simp: printVal_def isTermStop_def)
qed

lemma lexes_fieldname:
  assumes "ident_ok f" "r \<noteq> []" "\<not> isSpace (hd r)" "hd r \<noteq> CHR ''/''" "lexes r ks"
  shows "lexes (f @ CHR '':'' # r) ((TField, f, False) # ks)"
  using assms by (intro lexes_field) (auto simp: ident_ok_def)

lemma lexes_exists:
  assumes "bare_ok f" "delim r" "lexes r ks"
  shows "lexes (''_exists_:'' @ f @ r) ((TField, ''_exists_'', False) # vtok f False # ks)"
proof -
  have "lexes (f @ r) (vtok f False # ks)" using lexes_val [of False f r ks] assms by (simp add: printVal_def)
  moreover have "f @ r \<noteq> []" "\<not> isSpace (hd (f @ r))" "hd (f @ r) \<noteq> CHR ''/''"
    using printVal_hd [of False f] assms(1) by (auto simp: printVal_def)
  ultimately have "lexes (''_exists_'' @ CHR '':'' # f @ r) ((TField, ''_exists_'', False) # vtok f False # ks)"
    by (intro lexes_field) (auto simp: isIdentStart_def isIdentChar_def)
  then show ?thesis by simp
qed

lemma lexes_compare:
  assumes f: "ident_ok f" and v: "phrase \<or> bare_ok v" and eq: "phrase \<or> hd v \<noteq> CHR ''=''"
    and oc: "oc = CHR ''>'' \<or> oc = CHR ''<''" and d: "delim r" and r: "lexes r ks"
  shows "lexes (f @ CHR '':'' # oc # printVal v phrase @ r) ((TField, f, False) # (TCmp, [oc], False) # vtok v phrase # ks)"
    and "lexes (f @ CHR '':'' # oc # CHR ''='' # printVal v phrase @ r)
      ((TField, f, False) # (TCmp, [oc, CHR ''=''], False) # vtok v phrase # ks)"
proof -
  note val = lexes_val [OF v d r]
  have h: "printVal v phrase @ r = [] \<or> hd (printVal v phrase @ r) \<noteq> CHR ''=''"
    using eq v by (cases v) (auto simp: printVal_def bare_ok_def)
  show "lexes (f @ CHR '':'' # oc # printVal v phrase @ r) ((TField, f, False) # (TCmp, [oc], False) # vtok v phrase # ks)"
    by (rule lexes_fieldname [OF f]) (use oc lexes_cmp(2) [OF oc val h] in auto)
  show "lexes (f @ CHR '':'' # oc # CHR ''='' # printVal v phrase @ r)
      ((TField, f, False) # (TCmp, [oc, CHR ''=''], False) # vtok v phrase # ks)"
    by (rule lexes_fieldname [OF f]) (use oc lexes_cmp(1) [OF oc val] in auto)
qed

lemma bare_star: "bare_ok ''*''"
proof -
  have "CHR ''*'' \<notin> space_bytes" by (simp add: space_bytes_def go_spaces_def)
  then show ?thesis by (simp add: bare_ok_def isTermStop_def isSpace_def ToUpper_def ascii_upper_def isIdentStart_def)
qed

lemma lexes_range:
  assumes f: "ident_ok f" and lo: "bare_ok lo" and hi: "bare_ok hi" and r: "lexes r ks"
    and l: "lex_bracket l = Some lk" "\<not> isSpace l" "l \<noteq> CHR ''/''"
    and u: "lex_bracket u = Some uk" "\<not> isSpace u" "isTermStop u"
  shows "lexes (f @ CHR '':'' # l # lo @ '' TO '' @ hi @ u # r)
     ((TField, f, False) # (lk, [], False) # vtok lo False # (TTo, ''TO'', False) # vtok hi False # (uk, [], False) # ks)"
proof -
  have "lexes (u # r) ((uk, [], False) # ks)" by (rule lexes_bracket [OF u(1,2) r])
  then have "lexes (hi @ u # r) (vtok hi False # (uk, [], False) # ks)"
    using lexes_term [OF hi, of "u # r"] u by (simp add: vtok_def)
  then have "lexes (''TO'' @ CHR '' '' # hi @ u # r) ((TTo, ''TO'', False) # vtok hi False # (uk, [], False) # ks)"
    by (rule lexes_keyword [rotated]) simp
  then have "lexes ('' TO '' @ hi @ u # r) ((TTo, ''TO'', False) # vtok hi False # (uk, [], False) # ks)"
    by (auto intro: lexes_space)
  then have "lexes (lo @ '' TO '' @ hi @ u # r) (vtok lo False # (TTo, ''TO'', False) # vtok hi False # (uk, [], False) # ks)"
    using lexes_term [OF lo, of "'' TO '' @ hi @ u # r"] by (simp add: vtok_def)
  from lexes_bracket [OF l(1,2) this] show ?thesis
    by (intro lexes_fieldname [OF f]) (use l in auto)
qed

lemma lexes_clause:
  assumes wf: "wf_clause c" and d: "delim r" and r: "lexes r ks"
  shows "lexes (printClause c @ r) (ctoks c @ ks)"
proof (cases "Oper c")
  case OpMatch
  with wf have v: "Phrase c \<or> bare_ok (Value c)" and f: "Field c = [] \<or> ident_ok (Field c)"
    by (auto simp: wf_clause_def split: if_splits)
  have "lexes (Field c @ CHR '':'' # printVal (Value c) (Phrase c) @ r) ((TField, Field c, False) # vtok (Value c) (Phrase c) # ks)"
    if "Field c \<noteq> []"
    by (rule lexes_fieldname) (use f that printVal_hd [OF v] lexes_val [OF v d r] in auto)
  then show ?thesis using OpMatch lexes_val [OF v d r] by (auto simp: printClause_def ctoks_def)
next
  case OpExists
  with wf lexes_exists [OF _ d r, of "Field c"] show ?thesis
    by (auto simp: wf_clause_def printClause_def ctoks_def)
next
  case OpRange
  with wf have f: "ident_ok (Field c)" and lo: "bare_ok (bound (Lo c))" and hi: "bare_ok (bound (Hi c))"
    using bare_star by (auto simp: wf_clause_def bound_def)
  from f have "Field c \<noteq> []" by (auto simp: ident_ok_def)
  moreover have "lexes (Field c @ CHR '':'' # (if LoIncl c then CHR ''['' else CHR ''{'') # bound (Lo c) @ '' TO '' @
      bound (Hi c) @ (if HiIncl c then CHR '']'' else CHR ''}'') # r) (ctoks c @ ks)"
    using lexes_range [OF f lo hi r, of "if LoIncl c then CHR ''['' else CHR ''{''"
        "if LoIncl c then TLBracket else TLBrace" "if HiIncl c then CHR '']'' else CHR ''}''"
        "if HiIncl c then TRBracket else TRBrace"] OpRange
    by (simp add: ctoks_def)
  moreover have "printClause c @ r = Field c @ CHR '':'' # (if LoIncl c then CHR ''['' else CHR ''{'') # bound (Lo c) @
      '' TO '' @ bound (Hi c) @ (if HiIncl c then CHR '']'' else CHR ''}'') # r"
    using OpRange \<open>Field c \<noteq> []\<close> by (simp add: printClause_def bound_def Let_def)
  ultimately show ?thesis by simp
qed (use wf lexes_compare [OF _ _ _ _ d r] in
    \<open>force simp: wf_clause_def printClause_def ctoks_def ident_ok_def\<close>)+

lemma lexes_paren:
  assumes "\<And>r ks. delim r \<Longrightarrow> lexes r ks \<Longrightarrow> lexes (s @ r) (es @ ks)" "lexes r ks"
  shows "lexes (paren s @ r) (LP # es @ RP # ks)"
proof -
  have "lexes (s @ CHR '')'' # r) (es @ RP # ks)"
    by (rule assms(1)) (auto intro: lexes_bracket assms(2))
  then have "lexes (CHR ''('' # s @ CHR '')'' # r) (LP # es @ RP # ks)"
    by (intro lexes_bracket) auto
  then show ?thesis by (simp add: paren_def)
qed

lemma lexes_sepBy:
  assumes "(w, k) \<in> {(''AND'', TAnd), (''OR'', TOr)}"
    and "\<And>x r ks. x \<in> set xs \<Longrightarrow> delim r \<Longrightarrow> lexes r ks \<Longrightarrow> lexes (p x @ r) (t x @ ks)"
    and "xs \<noteq> []" "delim r" "lexes r ks"
  shows "lexes (Join (map p xs) (CHR '' '' # w @ '' '') @ r) (sepBy (k, w, False) (map t xs) @ ks)"
  using assms(2-)
proof (induction xs rule: induct_list012)
  case (3 x y xs)
  let ?J = "Join (map p (y # xs)) (CHR '' '' # w @ '' '') @ r"
  let ?T = "sepBy (k, w, False) (map t (y # xs)) @ ks"
  have "lexes ?J ?T" by (rule "3.IH"(2)) (use "3.prems" in auto)
  then have "lexes (w @ CHR '' '' # ?J) ((k, w, False) # ?T)"
    using assms(1) by (intro lexes_keyword) auto
  then have "lexes (CHR '' '' # w @ CHR '' '' # ?J) ((k, w, False) # ?T)" by (intro lexes_space) simp
  then have "lexes (p x @ CHR '' '' # w @ CHR '' '' # ?J) (t x @ (k, w, False) # ?T)"
    by (intro "3.prems"(1)) auto
  then show ?case by simp
qed auto

lemma lexes_String:
  "wf_expr e \<Longrightarrow> delim r \<Longrightarrow> lexes r ks \<Longrightarrow> lexes (String e @ r) (etoks e @ ks)"
proof (induction e arbitrary: r ks)
  case (KindAnd xs)
  have unit: "lexes ((if isJunction x then paren (String x) else String x) @ r) (wrap (isJunction x) (etoks x) @ ks)"
    if "x \<in> set xs" "delim r" "lexes r ks" for x r ks
  proof -
    from that KindAnd.prems(1) have "wf_expr x" by (auto simp: list_all_iff)
    with KindAnd.IH [OF that(1)] that show ?thesis
      using lexes_paren [of "String x" "etoks x" r ks] by (auto simp: wrap_def)
  qed
  have "xs \<noteq> []" using KindAnd.prems by auto
  then show ?case
    using lexes_sepBy [of "''AND''" TAnd xs, OF _ unit _ KindAnd.prems(2,3)] by simp
next
  case (KindOr xs)
  have unit: "lexes ((if isJunction x then paren (String x) else String x) @ r) (wrap (isJunction x) (etoks x) @ ks)"
    if "x \<in> set xs" "delim r" "lexes r ks" for x r ks
  proof -
    from that KindOr.prems(1) have "wf_expr x" by (auto simp: list_all_iff)
    with KindOr.IH [OF that(1)] that show ?thesis
      using lexes_paren [of "String x" "etoks x" r ks] by (auto simp: wrap_def)
  qed
  have "xs \<noteq> []" using KindOr.prems by auto
  then show ?case
    using lexes_sepBy [of "''OR''" TOr xs, OF _ unit _ KindOr.prems(2,3)] by simp
next
  case (KindNot x)
  then have "lexes ((if isClause x then String x else paren (String x)) @ r) (wrap (\<not> isClause x) (etoks x) @ ks)"
    using lexes_paren [of "String x" "etoks x" r ks] by (auto simp: wrap_def)
  then have "lexes (''NOT'' @ CHR '' '' # (if isClause x then String x else paren (String x)) @ r)
     ((TNot, ''NOT'', False) # wrap (\<not> isClause x) (etoks x) @ ks)"
    by (intro lexes_keyword) auto
  then show ?case by simp
next
  case (KindClause c)
  then show ?case by (simp add: lexes_clause)
qed

section \<open>Parsing printed text\<close>

lemma map_strip_Cons: "map strip xs = k # ks \<longleftrightarrow> (\<exists>t ys. xs = t # ys \<and> strip t = k \<and> map strip ys = ks)"
  by (auto simp: map_eq_Cons_conv)

lemma strip_eq: "strip t = (k, x, w) \<longleftrightarrow> kind t = k \<and> ttext t = x \<and> wild t = w"
  by (auto simp: strip_def)

lemma vtok_eq:
  "strip t = vtok v phrase \<longleftrightarrow>
     kind t = (if phrase then TPhrase else TTerm) \<and> ttext t = v \<and> wild t = (\<not> phrase \<and> haswild v)"
  by (auto simp: vtok_def strip_def)

lemmas tok_eqs = map_strip_Cons strip_eq vtok_eq

lemma parsePrimary_field:
  assumes "strip t = (TField, f, False)"
  shows "parsePrimary (Suc (Suc n)) [] (t # us) = parseFieldValue (Suc n) t us"
  using assms by (simp add: parsePrimary.simps strip_eq)

lemma exists_fold: "EqualFold ''_exists_'' ''_exists_''"
  by (simp add: EqualFold_def)

lemma parseRange_run:
  assumes "map strip xs = [vtok lo False, (TTo, ''TO'', False), vtok hi False, (uk, [], False)]"
    and "uk = TRBracket \<or> uk = TRBrace"
  shows "parseRange f op (xs @ us) =
     Inr (KindClause (clause0\<lparr>Field := f, Oper := OpRange, Lo := (if lo = ''*'' then [] else lo),
        Hi := (if hi = ''*'' then [] else hi), LoIncl := (kind op = TLBracket), HiIncl := (uk = TRBracket)\<rparr>), us)"
  using assms by (auto simp: tok_eqs parseRange_def isValueTok_def)

lemma parseFieldValue_match:
  assumes "ident_ok f" "ttext ft = f" "strip t = vtok v phrase" "v \<noteq> ''*'' \<or> phrase"
  shows "parseFieldValue (Suc n) ft (t # us) =
     Inr (KindClause (clause0\<lparr>Field := f, Value := v, Phrase := phrase, Wildcard := (\<not> phrase \<and> haswild v)\<rparr>), us)"
  using assms by (auto simp: parseFieldValue.simps ident_ok_def vtok_eq matchClause_def)

lemma parseFieldValue_cmp:
  assumes "ident_ok f" "ttext ft = f" "strip t = (TCmp, o1, False)" "strip u = vtok v phrase"
  shows "parseFieldValue (Suc n) ft (t # u # us) =
     Inr (KindClause (clause0\<lparr>Field := f, Oper := cmpOp o1, Value := v, Phrase := phrase\<rparr>), us)"
  using assms by (auto simp: parseFieldValue.simps ident_ok_def vtok_eq strip_eq parseCmpValue_def isValueTok_def cmpClause_def)

lemma parseFieldValue_range:
  assumes "ident_ok f" "ttext ft = f" "strip t = (lk, [], False)" "lk = TLBracket \<or> lk = TLBrace"
  shows "parseFieldValue (Suc n) ft (t # us) = parseRange f t us"
  using assms by (auto simp: parseFieldValue.simps ident_ok_def strip_eq)

lemma clause_ext_cmp:
  "c = clause0\<lparr>Field := Field c, Oper := Oper c, Value := Value c, Phrase := Phrase c\<rparr> \<Longrightarrow>
   clause0\<lparr>Field := Field c, Oper := Oper c, Value := Value c, Phrase := Phrase c\<rparr> = c"
  by simp

lemma parse_clause_cmp:
  assumes wf: "wf_clause c" and cmp: "(Oper c, o1) \<in> {(OpGt, ''>''), (OpGte, ''>=''), (OpLt, ''<''), (OpLte, ''<='')}"
    and xs: "map strip xs = [(TField, Field c, False), (TCmp, o1, False), vtok (Value c) (Phrase c)]"
  shows "parsePrimary (Suc (Suc n)) [] (xs @ us) = Inr (KindClause c, us)"
proof -
  from xs obtain t1 t2 t3 where t: "xs = [t1, t2, t3]" "strip t1 = (TField, Field c, False)"
      "strip t2 = (TCmp, o1, False)" "strip t3 = vtok (Value c) (Phrase c)"
    by (auto simp: map_strip_Cons)
  have id: "ident_ok (Field c)" "cmpOp o1 = Oper c"
    "c = clause0\<lparr>Field := Field c, Oper := Oper c, Value := Value c, Phrase := Phrase c\<rparr>"
    using wf cmp by (auto simp: wf_clause_def cmpOp_def)
  have "parsePrimary (Suc (Suc n)) [] (xs @ us) = parseFieldValue (Suc n) t1 (t2 # t3 # us)"
    using parsePrimary_field [OF t(2)] t(1) by simp
  also have "\<dots> = Inr (KindClause (clause0\<lparr>Field := Field c, Oper := cmpOp o1, Value := Value c, Phrase := Phrase c\<rparr>), us)"
    by (rule parseFieldValue_cmp [OF id(1) _ t(3,4)]) (use t(2) in \<open>simp add: strip_eq\<close>)
  finally show ?thesis using id(2,3) by simp
qed

lemma parse_clause_match:
  assumes wf: "wf_clause c" and m: "Oper c = OpMatch" and xs: "map strip xs = ctoks c" and u: "kind u \<noteq> TCmp"
  shows "parsePrimary (Suc (Suc n)) [] (xs @ u # us) = Inr (KindClause c, u # us)"
proof -
  have c: "c = clause0\<lparr>Field := Field c, Value := Value c, Phrase := Phrase c, Wildcard := (\<not> Phrase c \<and> haswild (Value c))\<rparr>"
    and v: "Value c \<noteq> ''*'' \<or> Phrase c" and f: "Field c = [] \<or> ident_ok (Field c)"
    using wf m by (auto simp: wf_clause_def split: if_splits)
  show ?thesis
  proof (cases "Field c = []")
    case True
    with xs m obtain t where t: "xs = [t]" "strip t = vtok (Value c) (Phrase c)"
      by (auto simp: ctoks_def map_strip_Cons)
    have "parsePrimary (Suc (Suc n)) [] (t # u # us) = Inr (matchClause [] t, u # us)"
      using t u v by (auto simp: parsePrimary.simps parseTerm_def vtok_eq)
    moreover have "matchClause [] t = KindClause (clause0\<lparr>Field := [], Value := Value c, Phrase := Phrase c,
         Wildcard := (\<not> Phrase c \<and> haswild (Value c))\<rparr>)"
      using t(2) by (auto simp: matchClause_def vtok_eq)
    ultimately show ?thesis using c t True by simp
  next
    case False
    with xs m obtain t1 t2 where t: "xs = [t1, t2]" "strip t1 = (TField, Field c, False)"
        "strip t2 = vtok (Value c) (Phrase c)"
      by (auto simp: ctoks_def map_strip_Cons)
    have "parsePrimary (Suc (Suc n)) [] (xs @ u # us) = parseFieldValue (Suc n) t1 (t2 # u # us)"
      using parsePrimary_field [OF t(2)] t(1) by simp
    also have "\<dots> = Inr (KindClause (clause0\<lparr>Field := Field c, Value := Value c, Phrase := Phrase c,
         Wildcard := (\<not> Phrase c \<and> haswild (Value c))\<rparr>), u # us)"
      by (rule parseFieldValue_match) (use f False t v in \<open>auto simp: strip_eq\<close>)
    finally show ?thesis using c by simp
  qed
qed

lemma parse_clause_exists:
  assumes wf: "wf_clause c" and m: "Oper c = OpExists" and xs: "map strip xs = ctoks c"
  shows "parsePrimary (Suc (Suc n)) [] (xs @ us) = Inr (KindClause c, us)"
proof -
  have c: "c = clause0\<lparr>Field := Field c, Oper := OpExists\<rparr>" using wf m by (simp add: wf_clause_def)
  from xs m obtain t1 t2 where t: "xs = [t1, t2]" "strip t1 = (TField, ''_exists_'', False)"
      "strip t2 = vtok (Field c) False"
    by (auto simp: ctoks_def map_strip_Cons)
  have "parsePrimary (Suc (Suc n)) [] (xs @ us) = Inr (existsClause (Field c), us)"
    using parsePrimary_field [OF t(2)] t exists_fold
    by (auto simp: parseFieldValue.simps strip_eq vtok_eq isValueTok_def)
  with c show ?thesis by (simp add: existsClause_def)
qed

lemma parse_clause_range:
  assumes wf: "wf_clause c" and m: "Oper c = OpRange" and xs: "map strip xs = ctoks c"
  shows "parsePrimary (Suc (Suc n)) [] (xs @ us) = Inr (KindClause c, us)"
proof -
  define lk where "lk = (if LoIncl c then TLBracket else TLBrace)"
  define uk where "uk = (if HiIncl c then TRBracket else TRBrace)"
  have c: "c = clause0\<lparr>Field := Field c, Oper := OpRange, Lo := Lo c, Hi := Hi c, LoIncl := LoIncl c, HiIncl := HiIncl c\<rparr>"
    and f: "ident_ok (Field c)" and b: "Lo c \<noteq> ''*''" "Hi c \<noteq> ''*''"
    using wf m by (auto simp: wf_clause_def)
  from xs m obtain t1 t2 ys where t: "xs = t1 # t2 # ys" "strip t1 = (TField, Field c, False)" "strip t2 = (lk, [], False)"
      "map strip ys = [vtok (bound (Lo c)) False, (TTo, ''TO'', False), vtok (bound (Hi c)) False, (uk, [], False)]"
    by (auto simp: ctoks_def lk_def uk_def map_strip_Cons)
  have "parsePrimary (Suc (Suc n)) [] (xs @ us) = parseFieldValue (Suc n) t1 (t2 # ys @ us)"
    using parsePrimary_field [OF t(2)] t(1) by simp
  also have "\<dots> = parseRange (Field c) t2 (ys @ us)"
    by (rule parseFieldValue_range [OF f _ t(3)]) (use t(2) in \<open>auto simp: strip_eq lk_def\<close>)
  also have "\<dots> = Inr (KindClause (clause0\<lparr>Field := Field c, Oper := OpRange, Lo := Lo c, Hi := Hi c,
      LoIncl := (kind t2 = TLBracket), HiIncl := (uk = TRBracket)\<rparr>), us)"
    using parseRange_run [OF t(4), of "Field c" t2 us] b by (auto simp: uk_def bound_def)
  also have "(kind t2 = TLBracket) = LoIncl c" using t(3) by (auto simp: strip_eq lk_def)
  also have "(uk = TRBracket) = HiIncl c" by (simp add: uk_def)
  finally show ?thesis using c by simp
qed

lemma two_le:
  assumes "2 \<le> n"
  obtains m where "n = Suc (Suc m)"
  using le_Suc_ex [OF assms] by auto

lemma parse_clause:
  assumes wf: "wf_clause c" and xs: "map strip xs = ctoks c" and u: "kind u \<noteq> TCmp" and n: "2 \<le> n"
  shows "parsePrimary n [] (xs @ u # us) = Inr (KindClause c, u # us)"
proof -
  from n obtain m where n: "n = Suc (Suc m)" by (rule two_le)
  show ?thesis
    unfolding n
  proof (cases "Oper c")
    case OpMatch
    then show "parsePrimary (Suc (Suc m)) [] (xs @ u # us) = Inr (KindClause c, u # us)"
      by (rule parse_clause_match [OF wf _ xs u])
  next
    case OpExists
    then show "parsePrimary (Suc (Suc m)) [] (xs @ u # us) = Inr (KindClause c, u # us)"
      by (rule parse_clause_exists [OF wf _ xs])
  next
    case OpRange
    then show "parsePrimary (Suc (Suc m)) [] (xs @ u # us) = Inr (KindClause c, u # us)"
      by (rule parse_clause_range [OF wf _ xs])
  next
    case OpGt
    then show "parsePrimary (Suc (Suc m)) [] (xs @ u # us) = Inr (KindClause c, u # us)"
      by (intro parse_clause_cmp [OF wf, of "''>''"]) (use xs in \<open>simp_all add: ctoks_def\<close>)
  next
    case OpGte
    then show "parsePrimary (Suc (Suc m)) [] (xs @ u # us) = Inr (KindClause c, u # us)"
      by (intro parse_clause_cmp [OF wf, of "''>=''"]) (use xs in \<open>simp_all add: ctoks_def\<close>)
  next
    case OpLt
    then show "parsePrimary (Suc (Suc m)) [] (xs @ u # us) = Inr (KindClause c, u # us)"
      by (intro parse_clause_cmp [OF wf, of "''<''"]) (use xs in \<open>simp_all add: ctoks_def\<close>)
  next
    case OpLte
    then show "parsePrimary (Suc (Suc m)) [] (xs @ u # us) = Inr (KindClause c, u # us)"
      by (intro parse_clause_cmp [OF wf, of "''<=''"]) (use xs in \<open>simp_all add: ctoks_def\<close>)
  qed
qed

text \<open>The levels of the grammar, over a tree \<open>e\<close> and the fuel bound of \<open>parser_ok\<close>.\<close>

definition or_reads :: "Expr \<Rightarrow> bool" where
  "or_reads e \<longleftrightarrow> (\<forall>n xs u us. map strip xs = etoks e \<longrightarrow> kind u \<in> {TRParen, TEOF} \<longrightarrow>
     6 * length (xs @ u # us) + 4 \<le> n \<longrightarrow> parseOr n [] (xs @ u # us) = Inr (e, u # us))"

definition unit_toks :: "Expr \<Rightarrow> ktok list" where
  "unit_toks e = wrap (isJunction e) (etoks e)"

definition not_reads :: "Expr \<Rightarrow> bool" where
  "not_reads e \<longleftrightarrow> (\<forall>n xs u us. map strip xs = unit_toks e \<longrightarrow> kind u \<in> {TRParen, TEOF, TAnd, TOr} \<longrightarrow>
     6 * length (xs @ u # us) + 2 \<le> n \<longrightarrow> parseNot n [] (xs @ u # us) = Inr (e, u # us))"

lemma or_readsD:
  "or_reads e \<Longrightarrow> map strip xs = etoks e \<Longrightarrow> kind u \<in> {TRParen, TEOF} \<Longrightarrow>
   6 * length (xs @ u # us) + 4 \<le> n \<Longrightarrow> parseOr n [] (xs @ u # us) = Inr (e, u # us)"
  unfolding or_reads_def by blast

lemma not_readsD:
  "not_reads e \<Longrightarrow> map strip xs = unit_toks e \<Longrightarrow> kind u \<in> {TRParen, TEOF, TAnd, TOr} \<Longrightarrow>
   6 * length (xs @ u # us) + 2 \<le> n \<Longrightarrow> parseNot n [] (xs @ u # us) = Inr (e, u # us)"
  unfolding not_reads_def by blast

definition starts :: "ktok list \<Rightarrow> bool" where
  "starts ks \<longleftrightarrow> ks \<noteq> [] \<and> fst (hd ks) \<in> {TLParen, TNot, TTerm, TPhrase, TField}"

lemma starts_ctoks: "starts (ctoks c)"
  by (cases "Oper c") (auto simp: starts_def ctoks_def vtok_def Let_def)

lemma starts_wrap: "starts ks \<Longrightarrow> starts (wrap b ks)"
  by (auto simp: starts_def wrap_def)

lemma starts_sepBy: "xs \<noteq> [] \<Longrightarrow> starts (hd xs) \<Longrightarrow> starts (sepBy s xs)"
  by (cases xs; cases "tl xs") (auto simp: starts_def)

lemma starts_etoks: "wf_expr e \<Longrightarrow> starts (etoks e)"
proof (induction e)
  case (KindAnd xs)
  then show ?case by (cases xs) (auto intro!: starts_sepBy starts_wrap)
next
  case (KindOr xs)
  then show ?case by (cases xs) (auto intro!: starts_sepBy starts_wrap)
next
  case (KindNot e)
  then show ?case by (simp add: starts_def)
next
  case (KindClause c)
  then show ?case by (simp add: starts_ctoks)
qed

lemma starts_unit: "wf_expr e \<Longrightarrow> starts (unit_toks e)"
  by (simp add: unit_toks_def starts_wrap starts_etoks)

lemma starts_startsPrimary:
  assumes "map strip xs = ks" "starts ks"
  shows "xs \<noteq> [] \<and> startsPrimary (hd xs)"
  using assms by (cases xs) (auto simp: starts_def startsPrimary_def strip_def)

lemma paren_reads:
  assumes e: "or_reads e" "starts (etoks e)" and xs: "map strip xs = LP # etoks e @ [RP]"
    and n: "6 * length (xs @ us) + 1 \<le> n"
  shows "parsePrimary n [] (xs @ us) = Inr (e, us)"
proof -
  from xs obtain t ys r where t: "xs = t # ys @ [r]" "strip t = LP" "map strip ys = etoks e" "strip r = RP"
    by (auto simp: map_strip_Cons map_eq_append_conv)
  from n t have "2 \<le> n" by simp
  then obtain m where m: "n = Suc (Suc m)" by (rule two_le)
  have "parseOr m [] (ys @ r # us) = Inr (e, r # us)"
    using e(1) t n m unfolding or_reads_def by (auto simp: strip_eq)
  moreover have "ys \<noteq> []" "startsPrimary (hd ys)" using starts_startsPrimary [OF t(3) e(2)] by auto
  ultimately show ?thesis
    using t by (cases ys) (auto simp: m parsePrimary.simps parseParen.simps strip_eq startsPrimary_def)
qed

lemma one_le:
  assumes "1 \<le> n"
  obtains m where "n = Suc m"
  using assms by (cases n) auto

lemma not_reads_step:
  assumes wf: "wf_expr e" and j: "isJunction e \<Longrightarrow> or_reads e" and neg: "\<And>k. e = KindNot k \<Longrightarrow> not_reads k"
  shows "not_reads e"
  unfolding not_reads_def
proof (intro allI impI)
  fix n xs u us
  assume xs: "map strip xs = unit_toks e" and u: "kind u \<in> {TRParen, TEOF, TAnd, TOr}"
    and n: "6 * length (xs @ u # us) + 2 \<le> n"
  then have "1 \<le> n" by simp
  then obtain m where m: "n = Suc m" by (rule one_le)
  from starts_startsPrimary [OF xs starts_unit [OF wf]] obtain t ys where t: "xs = t # ys" by (cases xs) auto
  show "parseNot n [] (xs @ u # us) = Inr (e, u # us)"
  proof (cases e)
    case (KindNot k)
    then have "unit_toks e = (TNot, ''NOT'', False) # unit_toks k"
      using wf by (cases k) (auto simp: unit_toks_def wrap_def isJunction_def isClause_def)
    with xs t have tn: "kind t = TNot" and ys: "map strip ys = unit_toks k" by (auto simp: strip_eq)
    have "wf_expr k" and nk: "\<And>x. k \<noteq> KindNot x" using wf KindNot by (auto split: Expr.splits)
    from starts_startsPrimary [OF ys starts_unit [OF \<open>wf_expr k\<close>]]
    obtain v vs where v: "ys = v # vs" "startsPrimary v" by (cases ys) auto
    have "parseNot m [] (ys @ u # us) = Inr (k, u # us)"
      using neg [OF KindNot] ys u n m t unfolding not_reads_def by auto
    with tn v nk show ?thesis
      by (auto simp: parseNot.simps [of "Suc m"] m t KindNot split: Expr.splits)
  next
    case (KindClause c)
    then have c: "map strip xs = ctoks c" using xs by (simp add: unit_toks_def wrap_def isJunction_def)
    then have "kind t \<noteq> TNot" using t by (cases "Oper c") (auto simp: ctoks_def strip_def vtok_def split: if_splits)
    moreover have "parsePrimary m [] (xs @ u # us) = Inr (KindClause c, u # us)"
      by (rule parse_clause [OF _ c]) (use wf KindClause u n m in auto)
    ultimately show ?thesis by (auto simp: parseNot.simps [of "Suc m"] m t KindClause)
  next
    case (KindAnd ks)
    then have J: "isJunction e" by (simp add: isJunction_def)
    with xs have "map strip xs = LP # etoks e @ [RP]" by (simp add: unit_toks_def wrap_def)
    moreover from this t have "kind t \<noteq> TNot" by (auto simp: strip_eq)
    ultimately show ?thesis
      using paren_reads [OF j [OF J] starts_etoks [OF wf], of xs "u # us" m] n m
      by (auto simp: parseNot.simps [of "Suc m"] m t)
  next
    case (KindOr ks)
    then have J: "isJunction e" by (simp add: isJunction_def)
    with xs have "map strip xs = LP # etoks e @ [RP]" by (simp add: unit_toks_def wrap_def)
    moreover from this t have "kind t \<noteq> TNot" by (auto simp: strip_eq)
    ultimately show ?thesis
      using paren_reads [OF j [OF J] starts_etoks [OF wf], of xs "u # us" m] n m
      by (auto simp: parseNot.simps [of "Suc m"] m t)
  qed
qed

definition tail_toks :: "ktok \<Rightarrow> Expr list \<Rightarrow> ktok list" where
  "tail_toks s ks = concat (map (\<lambda>k. s # unit_toks k) ks)"

lemma sepBy_Cons: "sepBy s (x # xs) = x @ concat (map (\<lambda>y. s # y) xs)"
  by (induction xs arbitrary: x) auto

lemma sepBy_units: "sepBy s (map (\<lambda>k. wrap (isJunction k) (etoks k)) (x # ks)) = unit_toks x @ tail_toks s ks"
  unfolding list.map sepBy_Cons by (simp add: unit_toks_def tail_toks_def comp_def)

lemma andLoop_stop:
  "kind u \<in> {TRParen, TEOF, TOr} \<Longrightarrow> 1 \<le> n \<Longrightarrow> andLoop n f (u # us) = Inr ([], u # us)"
  by (cases n) (auto simp: andLoop.simps startsPrimary_def)

lemma orLoop_stop: "kind u \<in> {TRParen, TEOF} \<Longrightarrow> 1 \<le> n \<Longrightarrow> orLoop n f (u # us) = Inr ([], u # us)"
  by (cases n) (auto simp: orLoop.simps)

lemma map_strip_append:
  assumes "map strip xs = ks @ ls"
  obtains ys zs where "xs = ys @ zs" "map strip ys = ks" "map strip zs = ls"
  using assms by (auto simp: map_eq_append_conv)

lemma follow_split:
  assumes "map strip zs = tail_toks s ks"
  shows "zs = [] \<and> ks = [] \<or> (\<exists>v vs. zs = v # vs \<and> kind v = fst s)"
  using assms by (cases ks; cases zs) (auto simp: tail_toks_def strip_def)

lemma andLoop_reads:
  assumes "\<forall>k \<in> set ks. not_reads k" "map strip xs = tail_toks (TAnd, ''AND'', False) ks"
    and "kind u \<in> {TRParen, TEOF}" "6 * length (xs @ u # us) + 3 \<le> n"
  shows "andLoop n [] (xs @ u # us) = Inr (ks, u # us)"
  using assms
proof (induction ks arbitrary: xs n)
  case Nil
  then show ?case by (auto simp: tail_toks_def andLoop_stop)
next
  case (Cons k ks)
  then have "1 \<le> n" by simp
  then obtain m where m: "n = Suc m" by (rule one_le)
  from Cons.prems(2) have "map strip xs = ((TAnd, ''AND'', False) # unit_toks k) @ tail_toks (TAnd, ''AND'', False) ks"
    by (simp add: tail_toks_def)
  then obtain ys zs where yz: "xs = ys @ zs" "map strip ys = (TAnd, ''AND'', False) # unit_toks k"
      "map strip zs = tail_toks (TAnd, ''AND'', False) ks"
    by (rule map_strip_append)
  then obtain t ws where t: "ys = t # ws" "kind t = TAnd" "map strip ws = unit_toks k"
    by (auto simp: map_strip_Cons strip_eq)
  obtain v vs where v: "zs @ u # us = v # vs" "kind v \<in> {TRParen, TEOF, TAnd, TOr}"
    using follow_split [OF yz(3)] Cons.prems(3) by (cases zs) auto
  have "parseNot m [] (ws @ v # vs) = Inr (k, v # vs)"
  proof (rule not_readsD [OF _ t(3) v(2)])
    show "not_reads k" using Cons.prems(1) by simp
    have "length (xs @ u # us) = Suc (length (ws @ v # vs))" by (simp add: yz(1) t(1) flip: v(1))
    then show "6 * length (ws @ v # vs) + 2 \<le> m" using Cons.prems(4) m by simp
  qed
  moreover have "andLoop m [] (v # vs) = Inr (ks, u # us)"
    unfolding v(1) [symmetric]
    by (rule Cons.IH [OF _ yz(3) Cons.prems(3)]) (use Cons.prems(1,4) yz t m in auto)
  ultimately show ?case using t yz v(1) by (simp add: andLoop.simps [of "Suc m"] m)
qed

lemma parseAnd_unit:
  assumes "not_reads k" "map strip xs = unit_toks k" "kind u \<in> {TRParen, TEOF, TOr}"
    and "6 * length (xs @ u # us) + 3 \<le> n"
  shows "parseAnd n [] (xs @ u # us) = Inr (k, u # us)"
proof -
  from assms(4) have "2 \<le> n" by simp
  then obtain m where m: "n = Suc (Suc m)" by (rule two_le)
  have "parseNot (Suc m) [] (xs @ u # us) = Inr (k, u # us)"
    using assms m unfolding not_reads_def by auto
  then show ?thesis using assms(3) by (simp add: parseAnd.simps [of "Suc (Suc m)"] m andLoop_stop)
qed

lemma orLoop_reads:
  assumes "\<forall>k \<in> set ks. not_reads k" "map strip xs = tail_toks (TOr, ''OR'', False) ks"
    and "kind u \<in> {TRParen, TEOF}" "6 * length (xs @ u # us) + 4 \<le> n"
  shows "orLoop n [] (xs @ u # us) = Inr (ks, u # us)"
  using assms
proof (induction ks arbitrary: xs n)
  case Nil
  then show ?case by (auto simp: tail_toks_def orLoop_stop)
next
  case (Cons k ks)
  then have "1 \<le> n" by simp
  then obtain m where m: "n = Suc m" by (rule one_le)
  from Cons.prems(2) have "map strip xs = ((TOr, ''OR'', False) # unit_toks k) @ tail_toks (TOr, ''OR'', False) ks"
    by (simp add: tail_toks_def)
  then obtain ys zs where yz: "xs = ys @ zs" "map strip ys = (TOr, ''OR'', False) # unit_toks k"
      "map strip zs = tail_toks (TOr, ''OR'', False) ks"
    by (rule map_strip_append)
  then obtain t ws where t: "ys = t # ws" "kind t = TOr" "map strip ws = unit_toks k"
    by (auto simp: map_strip_Cons strip_eq)
  obtain v vs where v: "zs @ u # us = v # vs" "kind v \<in> {TRParen, TEOF, TOr}"
    using follow_split [OF yz(3)] Cons.prems(3) by (cases zs) auto
  have "parseAnd m [] (ws @ v # vs) = Inr (k, v # vs)"
    by (rule parseAnd_unit [OF _ t(3) v(2)]) (use Cons.prems(1,4) t m yz(1) in \<open>auto simp: v(1) [symmetric]\<close>)
  moreover have "orLoop m [] (v # vs) = Inr (ks, u # us)"
    unfolding v(1) [symmetric]
    by (rule Cons.IH [OF _ yz(3) Cons.prems(3)]) (use Cons.prems(1,4) yz t m in auto)
  ultimately show ?case using t yz v(1) by (simp add: orLoop.simps [of "Suc m"] m)
qed

lemma or_reads_unit:
  assumes "not_reads e" "\<not> isJunction e"
  shows "or_reads e"
  unfolding or_reads_def
proof (intro allI impI)
  fix n xs u us
  assume xs: "map strip xs = etoks e" and u: "kind u \<in> {TRParen, TEOF}" and n: "6 * length (xs @ u # us) + 4 \<le> n"
  from n have "2 \<le> n" by simp
  then obtain m where m: "n = Suc (Suc m)" by (rule two_le)
  have "parseAnd (Suc m) [] (xs @ u # us) = Inr (e, u # us)"
    by (rule parseAnd_unit [OF assms(1)]) (use xs u n m assms(2) in \<open>auto simp: unit_toks_def wrap_def\<close>)
  then show "parseOr n [] (xs @ u # us) = Inr (e, u # us)"
    using u by (simp add: parseOr.simps [of "Suc (Suc m)"] m orLoop_stop)
qed

lemma unit_split:
  assumes "map strip xs = unit_toks k @ ls" "wf_expr k"
  obtains ys zs where "xs = ys @ zs" "map strip ys = unit_toks k" "map strip zs = ls" "0 < length ys"
proof -
  from assms(1) obtain ys zs where yz: "xs = ys @ zs" "map strip ys = unit_toks k" "map strip zs = ls"
    by (rule map_strip_append)
  moreover have "0 < length ys" using starts_startsPrimary [OF yz(2) starts_unit [OF assms(2)]] by simp
  ultimately show ?thesis by (rule that)
qed

lemma or_reads_Or:
  assumes ks: "\<forall>k \<in> set ks. not_reads k \<and> wf_expr k" and len: "2 \<le> length ks"
  shows "or_reads (KindOr ks)"
  unfolding or_reads_def
proof (intro allI impI)
  fix n xs u us
  assume xs: "map strip xs = etoks (KindOr ks)" and u: "kind u \<in> {TRParen, TEOF}"
    and n: "6 * length (xs @ u # us) + 4 \<le> n"
  from n have "1 \<le> n" by simp
  then obtain m where m: "n = Suc m" by (rule one_le)
  obtain k ls where k: "ks = k # ls" "ls \<noteq> []" using len by (cases ks; cases "tl ks") auto
  with xs have "map strip xs = unit_toks k @ tail_toks (TOr, ''OR'', False) ls" by (simp only: etoks.simps sepBy_units)
  then obtain ys zs where yz: "xs = ys @ zs" "map strip ys = unit_toks k"
      "map strip zs = tail_toks (TOr, ''OR'', False) ls" "0 < length ys"
    by (rule unit_split) (use ks k in auto)
  obtain v vs where v: "zs @ u # us = v # vs" "kind v \<in> {TRParen, TEOF, TOr}"
    using follow_split [OF yz(3)] u by (cases zs) auto
  have "parseAnd m [] (ys @ v # vs) = Inr (k, v # vs)"
    by (rule parseAnd_unit [OF _ yz(2) v(2)]) (use ks k n m yz(1) in \<open>auto simp: v(1) [symmetric]\<close>)
  moreover have "orLoop m [] (v # vs) = Inr (ls, u # us)"
    unfolding v(1) [symmetric]
  proof (rule orLoop_reads [OF _ yz(3) u])
    show "\<forall>k \<in> set ls. not_reads k" using ks k by simp
    have "length (xs @ u # us) = length ys + length (zs @ u # us)" by (simp add: yz(1))
    then show "6 * length (zs @ u # us) + 4 \<le> m" using n m yz(4) by linarith
  qed
  ultimately show "parseOr n [] (xs @ u # us) = Inr (KindOr ks, u # us)"
    using yz v(1) k by (simp add: parseOr.simps [of "Suc m"] m)
qed

lemma or_reads_And:
  assumes ks: "\<forall>k \<in> set ks. not_reads k \<and> wf_expr k" and len: "2 \<le> length ks"
  shows "or_reads (KindAnd ks)"
  unfolding or_reads_def
proof (intro allI impI)
  fix n xs u us
  assume xs: "map strip xs = etoks (KindAnd ks)" and u: "kind u \<in> {TRParen, TEOF}"
    and n: "6 * length (xs @ u # us) + 4 \<le> n"
  from n have "2 \<le> n" by simp
  then obtain m where m: "n = Suc (Suc m)" by (rule two_le)
  obtain k ls where k: "ks = k # ls" "ls \<noteq> []" using len by (cases ks; cases "tl ks") auto
  with xs have "map strip xs = unit_toks k @ tail_toks (TAnd, ''AND'', False) ls" by (simp only: etoks.simps sepBy_units)
  then obtain ys zs where yz: "xs = ys @ zs" "map strip ys = unit_toks k"
      "map strip zs = tail_toks (TAnd, ''AND'', False) ls" "0 < length ys"
    by (rule unit_split) (use ks k in auto)
  obtain v vs where v: "zs @ u # us = v # vs" "kind v \<in> {TRParen, TEOF, TAnd, TOr}"
    using follow_split [OF yz(3)] u by (cases zs) auto
  have "parseNot m [] (ys @ v # vs) = Inr (k, v # vs)"
  proof (rule not_readsD [OF _ yz(2) v(2)])
    show "not_reads k" using ks k by simp
    have "length (xs @ u # us) = length (ys @ v # vs)" by (simp add: yz(1) flip: v(1))
    then show "6 * length (ys @ v # vs) + 2 \<le> m" using n m by simp
  qed
  moreover have "andLoop m [] (v # vs) = Inr (ls, u # us)"
    unfolding v(1) [symmetric]
  proof (rule andLoop_reads [OF _ yz(3) u])
    show "\<forall>k \<in> set ls. not_reads k" using ks k by simp
    have "length (xs @ u # us) = length ys + length (zs @ u # us)" by (simp add: yz(1))
    then show "6 * length (zs @ u # us) + 3 \<le> m" using n m yz(4) by linarith
  qed
  ultimately have "parseAnd (Suc m) [] (xs @ u # us) = Inr (KindAnd ks, u # us)"
    using yz v(1) k by (simp add: parseAnd.simps [of "Suc m"])
  then show "parseOr n [] (xs @ u # us) = Inr (KindAnd ks, u # us)"
    using u by (simp add: parseOr.simps [of "Suc (Suc m)"] m orLoop_stop)
qed

lemma junction_not [simp]:
  "isJunction (KindAnd ks)" "isJunction (KindOr ks)" "\<not> isJunction (KindNot k)" "\<not> isJunction (KindClause c)"
  by (simp_all add: isJunction_def)

lemma expr_reads: "wf_expr e \<Longrightarrow> or_reads e \<and> not_reads e"
proof (induction e)
  case (KindAnd ks)
  then have ks: "\<forall>k \<in> set ks. not_reads k \<and> wf_expr k" by (simp add: list_all_iff)
  have "or_reads (KindAnd ks)" by (rule or_reads_And [OF ks]) (use KindAnd.prems in simp)
  then show ?case using not_reads_step [OF KindAnd.prems] by simp
next
  case (KindOr ks)
  then have ks: "\<forall>k \<in> set ks. not_reads k \<and> wf_expr k" by (simp add: list_all_iff)
  have "or_reads (KindOr ks)" by (rule or_reads_Or [OF ks]) (use KindOr.prems in simp)
  then show ?case using not_reads_step [OF KindOr.prems] by simp
next
  case (KindNot k)
  then have "not_reads k" by simp
  then have "not_reads (KindNot k)" using not_reads_step [OF KindNot.prems] by simp
  then show ?case using or_reads_unit by simp
next
  case (KindClause c)
  have "not_reads (KindClause c)" using not_reads_step [OF KindClause.prems] by simp
  then show ?case using or_reads_unit by simp
qed

section \<open>Printed text is not blank\<close>

lemma trim_left_Nil_bytes: "trim_left ps s = [] \<Longrightarrow> set s \<subseteq> set (concat ps)"
proof (induction ps s rule: trim_left.induct)
  case (1 ps s)
  show ?case
  proof (cases "head_space ps s")
    case None
    with "1.prems" show ?thesis by (simp add: trim_left_id)
  next
    case (Some p)
    with "1.prems" have "trim_left ps (drop (length p) s) = []" by (simp add: trim_left.simps [of ps s])
    from "1.IH" [OF Some this] have "set (drop (length p) s) \<subseteq> set (concat ps)" .
    moreover have "set (take (length p) s) \<subseteq> set (concat ps)"
      using head_space_SomeD [OF Some] by (auto simp: HasPrefix_def)
    ultimately show ?thesis by (metis append_take_drop_id set_append Un_least)
  qed
qed

lemma trim_left_suffix: "set s \<subseteq> set (trim_left ps s) \<union> set (concat ps)"
proof (induction ps s rule: trim_left.induct)
  case (1 ps s)
  show ?case
  proof (cases "head_space ps s")
    case None
    then show ?thesis by (auto simp: trim_left_id)
  next
    case (Some p)
    from "1.IH" [OF Some] have "set (drop (length p) s) \<subseteq> set (trim_left ps s) \<union> set (concat ps)"
      using Some by (simp add: trim_left.simps [of ps s])
    moreover have "set (take (length p) s) \<subseteq> set (concat ps)"
      using head_space_SomeD [OF Some] by (auto simp: HasPrefix_def)
    ultimately show ?thesis by (metis append_take_drop_id set_append Un_least sup.coboundedI2)
  qed
qed

lemma TrimSpace_nonblank:
  assumes "c \<in> set s" "c \<notin> space_bytes"
  shows "TrimSpace s \<noteq> []"
proof
  assume "TrimSpace s = []"
  then have "trim_left (map rev go_spaces) (rev (trim_left go_spaces s)) = []" by (simp add: TrimSpace_def)
  from trim_left_Nil_bytes [OF this] have "set (trim_left go_spaces s) \<subseteq> space_bytes"
    by (auto simp: space_bytes_def)
  with trim_left_suffix [of s go_spaces] have "set s \<subseteq> space_bytes" unfolding space_bytes_def by blast
  with assms show False by blast
qed

lemma marker_bytes [simp]:
  "CHR '':'' \<notin> space_bytes" "CHR 0x22 \<notin> space_bytes" "CHR ''N'' \<notin> space_bytes" "CHR ''O'' \<notin> space_bytes"
  by (simp_all add: space_bytes_def go_spaces_def)

lemma set_Join_sep: "2 \<le> length xs \<Longrightarrow> set sep \<subseteq> set (Join xs sep)"
  by (cases xs; cases "tl xs") auto

lemma String_marker: "wf_expr e \<Longrightarrow> \<exists>c \<in> set (String e). c \<notin> space_bytes"
proof (cases e)
  case (KindAnd ks)
  moreover assume "wf_expr e"
  ultimately have "set '' AND '' \<subseteq> set (String e)" by (simp only: String.simps) (rule set_Join_sep, simp)
  then have "CHR ''N'' \<in> set (String e)" by simp
  then show ?thesis by (rule bexI [rotated]) simp
next
  case (KindOr ks)
  moreover assume "wf_expr e"
  ultimately have "set '' OR '' \<subseteq> set (String e)" by (simp only: String.simps) (rule set_Join_sep, simp)
  then have "CHR ''O'' \<in> set (String e)" by simp
  then show ?thesis by (rule bexI [rotated]) simp
next
  case (KindNot k)
  then have "CHR ''N'' \<in> set (String e)" by simp
  then show ?thesis by (rule bexI [rotated]) simp
next
  case (KindClause c)
  assume "wf_expr e"
  with KindClause have wf: "wf_clause c" by simp
  show ?thesis
  proof (cases "Oper c = OpMatch \<and> Field c = [] \<and> \<not> Phrase c")
    case True
    then have "String e = Value c" using KindClause by (simp add: printClause_def printVal_def)
    moreover have "bare_ok (Value c)" using wf True by (simp add: wf_clause_def)
    ultimately show ?thesis by (auto simp: bare_ok_def list_ex_iff)
  next
    case False
    then have "CHR '':'' \<in> set (String e) \<or> CHR 0x22 \<in> set (String e)"
      using KindClause wf by (cases "Oper c") (auto simp: printClause_def printVal_def wf_clause_def ident_ok_def Let_def)
    then show ?thesis using marker_bytes by blast
  qed
qed

section \<open>Round trip\<close>

text \<open>
  C14. The parser undoes the printer: for every printable tree, parsing its canonical text gives the
  same tree back, with the same nesting, flags and range bounds.
\<close>

theorem Parse_String:
  assumes "wf_expr e"
  shows "Parse (String e) = Inr (Some e)"
proof -
  from lexes_String [OF assms, of "[]"] lexes_Nil
  have "lexes (String e) (etoks e @ [(TEOF, [], False)])" by simp
  then obtain toks where toks: "lex (String e) = Inr toks" "map strip toks = etoks e @ [(TEOF, [], False)]"
    unfolding lexes_def lex_def by blast
  from toks(2) obtain xs zs where xs: "toks = xs @ zs" "map strip xs = etoks e" "map strip zs = [(TEOF, [], False)]"
    by (rule map_strip_append)
  then obtain u where u: "zs = [u]" "kind u = TEOF" by (auto simp: map_strip_Cons strip_eq)
  have "parseOr (parseFuel toks) [] (xs @ [u]) = Inr (e, [u])"
    by (rule or_readsD [OF conjunct1 [OF expr_reads [OF assms]] xs(2)]) (use u xs in \<open>auto simp: parseFuel_def\<close>)
  moreover have "TrimSpace (String e) \<noteq> []" using String_marker [OF assms] TrimSpace_nonblank by blast
  ultimately show ?thesis using toks(1) xs(1) u by (simp add: Parse_def peek_def)
qed

definition sampleExpr :: Expr where
  "sampleExpr =
     KindOr [KindAnd [KindClause (clause0\<lparr>Field := ''level'', Value := ''err*'', Wildcard := True\<rparr>),
                      KindNot (KindClause (clause0\<lparr>Value := [CHR ''a'', CHR 0x22, CHR '' '', CHR 0x5C], Phrase := True\<rparr>))],
             KindClause (clause0\<lparr>Field := ''http.status'', Oper := OpRange, Lo := ''500'', LoIncl := True\<rparr>)]"

theorem Parse_String_witness:
  "wf_expr sampleExpr \<and> Parse (String sampleExpr) = Inr (Some sampleExpr)"
proof -
  have "wf_expr sampleExpr" by code_simp
  then show ?thesis using Parse_String [of sampleExpr] by blast
qed

text \<open>
  The comment on \<open>String\<close> promises the round trip for every parsed tree. It fails: \<open>and:*\<close>
  parses to an existence test on the field \<open>and\<close>, which is printed as \<open>_exists_:and\<close>, and the lexer
  reads the field name there as an operator.
\<close>

theorem String_not_inverse:
  "\<exists>q e. Parse q = Inr (Some e) \<and> Parse (String e) = Inl (Fail (perr 9 ExistsNeedsField))"
proof (intro exI conjI)
  show "Parse ''and:*'' = Inr (Some (existsClause ''and''))" by code_simp
  show "Parse (String (existsClause ''and'')) = Inl (Fail (perr 9 ExistsNeedsField))" by code_simp
qed

end
