(* ===== verification/LogQL_Lucene.thy ===== *)
theory LogQL_Lucene
  imports LogQL_Parse
begin

text \<open>
  The Lucene side of the log query language (\<open>internal/logql/lucene.go\<close>): when a query is sent to
  Elasticsearch as it is, when its KQL spellings are rewritten, and the structural check (\<open>Lint\<close>) that
  catches broken queries before they are sent. The loops over the bytes of the query run on an index
  with the length of the rest as measure. The texts of the error messages are the constructors of
  \<open>lmsg\<close>; \<open>closeHint\<close> is the part of \<open>LintUnclosed\<close> that depends on its bracket alone.
\<close>

datatype Lang = LangKQL | LangLucene

record Translation =
  Query :: string
  TLang :: Lang

section \<open>Rewriting\<close>

definition isWordOp :: "string \<Rightarrow> bool" where
  "isWordOp s \<longleftrightarrow> ToUpper s \<in> set [''AND'', ''OR'', ''NOT'', ''TO'']"

definition precededByField :: "token list \<Rightarrow> nat \<Rightarrow> bool" where
  "precededByField toks i \<longleftrightarrow> i > 0 \<and> kind (toks ! (i - 1)) = TField"

definition sliceStr :: "string \<Rightarrow> nat \<Rightarrow> nat \<Rightarrow> string" where
  "sliceStr q a b = take (b - a) (drop a q)"

definition lowerOp :: "token \<Rightarrow> bool" where
  "lowerOp t \<longleftrightarrow> kind t \<in> {TAnd, TOr, TNot, TTo} \<and> isWordOp (ttext t) \<and> ttext t \<noteq> ToUpper (ttext t)"

definition kqlCompare :: "token list \<Rightarrow> nat \<Rightarrow> bool" where
  "kqlCompare toks i \<longleftrightarrow>
     kind (toks ! i) = TTerm \<and> isIdentToken (toks ! i) \<and> i + 2 < length toks \<and>
     kind (toks ! (i + 1)) = TCmp \<and> kind (toks ! (i + 2)) \<in> {TTerm, TPhrase} \<and>
     \<not> precededByField toks i"

function rewrite_loop :: "string \<Rightarrow> token list \<Rightarrow> nat \<Rightarrow> nat \<Rightarrow> string" where
  "rewrite_loop q toks i k =
     (if i \<ge> length toks then drop k q
      else
        (let t = toks ! i in
         if kind t = TEOF then drop k q
         else if lowerOp t
         then sliceStr q k (tpos t) @ ToUpper (ttext t) @ rewrite_loop q toks (i + 1) (tend t)
         else if kind t = TField \<and> spaced t
         then sliceStr q k (tpos t) @ ttext t @ '':'' @ rewrite_loop q toks (i + 1) (tend t)
         else if kqlCompare toks i
         then (let cmp = toks ! (i + 1); v = toks ! (i + 2) in
               sliceStr q k (tpos t) @ sliceStr q (tpos t) (tend t) @ '':'' @ ttext cmp @
               sliceStr q (tpos v) (tend v) @ rewrite_loop q toks (i + 3) (tend v))
         else rewrite_loop q toks (i + 1) k))"
  by pat_completeness auto
termination by (relation "measure (\<lambda>(q, toks, i, k). length toks - i)") auto

declare rewrite_loop.simps [simp del]

definition rewriteKQL :: "string \<Rightarrow> string" where
  "rewriteKQL q = (case lex q of Inl _ \<Rightarrow> q | Inr toks \<Rightarrow> rewrite_loop q toks 0 0)"

section \<open>Lucene-only syntax\<close>

definition atStart :: "string \<Rightarrow> nat \<Rightarrow> bool" where
  "atStart q i \<longleftrightarrow>
     i = 0 \<or> isSpace (q ! (i - 1)) \<or> q ! (i - 1) = CHR ''('' \<or> q ! (i - 1) = CHR '':''"

definition schemeSlash :: "string \<Rightarrow> nat \<Rightarrow> bool" where
  "schemeSlash q i \<longleftrightarrow>
     i > 0 \<and> q ! (i - 1) = CHR '':'' \<and> i + 1 < length q \<and> q ! (i + 1) = CHR ''/''"

function luceneOnly_loop :: "string \<Rightarrow> nat \<Rightarrow> bool \<Rightarrow> bool" where
  "luceneOnly_loop q i inQ =
     (if i \<ge> length q then False
      else
        (let c = q ! i in
         if c = CHR 0x5C then luceneOnly_loop q (i + 2) inQ
         else if c = CHR 0x22 then luceneOnly_loop q (i + 1) (\<not> inQ)
         else if inQ then luceneOnly_loop q (i + 1) inQ
         else if c = CHR ''~'' \<or> c = CHR ''^'' then True
         else if c = CHR ''+'' \<and> atStart q i then True
         else if c = CHR ''/'' \<and> atStart q i \<and> i + 1 < length q \<and>
                 IndexByte (drop (i + 1) q) (CHR ''/'') \<noteq> None \<and> \<not> schemeSlash q i
         then True
         else luceneOnly_loop q (i + 1) inQ))"
  by pat_completeness auto
termination by (relation "measure (\<lambda>(q, i, inQ). length q - i)") auto

declare luceneOnly_loop.simps [simp del]

definition LuceneOnly :: "string \<Rightarrow> bool" where
  "LuceneOnly q = luceneOnly_loop q 0 False"

section \<open>Lint\<close>

text \<open>The scan over the bytes: the open quote, if any, and the stack of open brackets, top first.\<close>

type_synonym brackets = "(char \<times> nat) list"

definition lint_regex :: "string \<Rightarrow> nat \<Rightarrow> nat" where
  "lint_regex q i =
     (if atStart q i \<and> \<not> schemeSlash q i
      then (case IndexByte (drop (i + 1) q) (CHR ''/'') of Some j \<Rightarrow> i + j + 1 | None \<Rightarrow> i)
      else i)"

lemma lint_regex_ge: "i \<le> lint_regex q i"
  by (simp add: lint_regex_def split: option.splits)

definition lint_open :: "string \<Rightarrow> nat \<Rightarrow> brackets \<Rightarrow> ParseError + brackets" where
  "lint_open q i stack =
     (let rest = dropWhile isSpace (drop (i + 1) q) in
      if q ! i = CHR ''('' \<and> rest \<noteq> [] \<and> hd rest = CHR '')'' then Inl (perr i LintEmptyParens)
      else Inr ((q ! i, i) # stack))"

definition lint_close :: "char \<Rightarrow> nat \<Rightarrow> brackets \<Rightarrow> ParseError + brackets" where
  "lint_close c i stack =
     (case stack of
        [] \<Rightarrow> Inl (perr i (if c = CHR '')'' then LintExtraRParen else LintExtraClose c))
      | (o', p) # stack' \<Rightarrow>
          if (c = CHR '')'') \<noteq> (o' = CHR ''('') then Inl (perr p (LintUnclosed o')) else Inr stack')"

definition isOpenBr :: "char \<Rightarrow> bool" where
  "isOpenBr c \<longleftrightarrow> c = CHR ''('' \<or> c = CHR ''['' \<or> c = CHR ''{''"

definition isCloseBr :: "char \<Rightarrow> bool" where
  "isCloseBr c \<longleftrightarrow> c = CHR '')'' \<or> c = CHR '']'' \<or> c = CHR ''}''"

text \<open>One turn of the loop: the next index, the quote state and the stack.\<close>

type_synonym lint_state = "nat \<times> nat option \<times> brackets"

definition lint_bracket :: "string \<Rightarrow> nat \<Rightarrow> brackets \<Rightarrow> ParseError + lint_state" where
  "lint_bracket q i stack =
     map_sum id (\<lambda>st. (i + 1, None, st))
       (if isOpenBr (q ! i) then lint_open q i stack
        else if isCloseBr (q ! i) then lint_close (q ! i) i stack
        else Inr stack)"

definition lint_step :: "string \<Rightarrow> nat \<Rightarrow> nat option \<Rightarrow> brackets \<Rightarrow> ParseError + lint_state" where
  "lint_step q i inQ stack =
     (if q ! i = CHR 0x5C then Inr (i + 2, inQ, stack)
      else if inQ \<noteq> None then Inr (i + 1, if q ! i = CHR 0x22 then None else inQ, stack)
      else if q ! i = CHR 0x22 then Inr (i + 1, Some i, stack)
      else if q ! i = CHR ''/'' then Inr (lint_regex q i + 1, None, stack)
      else lint_bracket q i stack)"

lemma lint_bracket_next: "lint_bracket q i st = Inr (i', inQ', st') \<Longrightarrow> i' = i + 1 \<and> inQ' = None"
  unfolding lint_bracket_def
  by (cases "if isOpenBr (q ! i) then lint_open q i st
        else if isCloseBr (q ! i) then lint_close (q ! i) i st else Inr st") auto

lemma lint_step_next: "lint_step q i inQ st = Inr (i', inQ', st') \<Longrightarrow> i < i'"
  using lint_regex_ge [of i q]
  by (auto simp: lint_step_def dest: lint_bracket_next split: if_splits)

function lint_scan :: "string \<Rightarrow> nat \<Rightarrow> nat option \<Rightarrow> brackets \<Rightarrow> ParseError + nat option \<times> brackets" where
  "lint_scan q i inQ stack =
     (if i \<ge> length q then Inr (inQ, stack)
      else case lint_step q i inQ stack of
        Inl e \<Rightarrow> Inl e
      | Inr (i', inQ', stack') \<Rightarrow> lint_scan q i' inQ' stack')"
  by pat_completeness auto
termination
  by (relation "measure (\<lambda>(q, i, inQ, stack). length q - i)") (auto dest: lint_step_next)

declare lint_scan.simps [simp del]

text \<open>Dangling operators: first and last word, then neighbours.\<close>

fun lint_pairs :: "token list \<Rightarrow> ParseError option" where
  "lint_pairs (a # b # ts) =
     (if kind a \<in> {TAnd, TOr} \<and> kind b \<in> {TAnd, TOr}
      then Some (perr (tpos b) (LintTwoOps (ToUpper (ttext a)) (ToUpper (ttext b))))
      else if kind a \<in> {TAnd, TOr, TNot} \<and> kind b = TRParen
      then Some (perr (tpos a) (LintNoExprAfter (ToUpper (ttext a))))
      else lint_pairs (b # ts))"
| "lint_pairs _ = None"

definition lint_words :: "token list \<Rightarrow> ParseError option" where
  "lint_words toks =
     (if length toks < 2 then None
      else
        (let first = toks ! 0; lastTok = toks ! (length toks - 2) in
         if kind first \<in> {TAnd, TOr}
         then Some (perr (tpos first) (LintStartsWith (ToUpper (ttext first))))
         else if kind lastTok \<in> {TAnd, TOr, TNot}
         then Some (perr (tpos lastTok) (LintEndsWith (ToUpper (ttext lastTok))))
         else lint_pairs toks))"

definition Lint :: "string \<Rightarrow> ParseError option" where
  "Lint q =
     (case lint_scan q 0 None [] of
        Inl e \<Rightarrow> Some e
      | Inr (Some p, _) \<Rightarrow> Some (perr p LintUnclosedQuote)
      | Inr (None, (c, p) # _) \<Rightarrow> Some (perr p (LintUnclosed c))
      | Inr (None, []) \<Rightarrow> (case lex q of Inl _ \<Rightarrow> None | Inr toks \<Rightarrow> lint_words toks))"

section \<open>Entry points\<close>

definition ToES :: "string \<Rightarrow> bool \<Rightarrow> ParseError + Translation" where
  "ToES q forceLucene =
     (if TrimSpace q = [] then Inr \<lparr>Query = q, TLang = LangKQL\<rparr>
      else if forceLucene then Inr \<lparr>Query = q, TLang = LangLucene\<rparr>
      else case Parse q of
        Inl _ \<Rightarrow>
          (case Lint q of
             Some pe \<Rightarrow> Inl pe
           | None \<Rightarrow> Inr \<lparr>Query = q, TLang = LangLucene\<rparr>)
      | Inr _ \<Rightarrow>
          if LuceneOnly q then Inr \<lparr>Query = q, TLang = LangLucene\<rparr>
          else Inr \<lparr>Query = rewriteKQL q, TLang = LangKQL\<rparr>)"

text \<open>The last branch of \<open>Check\<close> wraps an error of another type; every error of \<open>Parse\<close> is a \<open>ParseError\<close>.\<close>

definition Check :: "string \<Rightarrow> pfail option" where
  "Check q =
     (if TrimSpace q = [] then None
      else case Parse q of
        Inr _ \<Rightarrow> None
      | Inl err \<Rightarrow> (case Lint q of Some pe \<Rightarrow> Some (Fail pe) | None \<Rightarrow> Some err))"

section \<open>Positions\<close>

definition lint_inv :: "string \<Rightarrow> nat option \<times> brackets \<Rightarrow> bool" where
  "lint_inv q s \<longleftrightarrow>
     (\<forall>p. fst s = Some p \<longrightarrow> p < length q) \<and>
     (\<forall>(c, p) \<in> set (snd s). p < length q \<and> c = q ! p \<and> isOpenBr c)"

definition lint_ok :: "string \<Rightarrow> ParseError + nat option \<times> brackets \<Rightarrow> bool" where
  "lint_ok q r = (case r of Inl e \<Rightarrow> Pos e < length q | Inr s \<Rightarrow> lint_inv q s)"

lemma lint_open_ok:
  "i < length q \<Longrightarrow> isOpenBr (q ! i) \<Longrightarrow> lint_inv q (None, st) \<Longrightarrow>
   lint_ok q (map_sum id (Pair None) (lint_open q i st))"
  by (auto simp: lint_open_def Let_def lint_ok_def lint_inv_def)

lemma lint_close_ok:
  "i < length q \<Longrightarrow> lint_inv q (None, st) \<Longrightarrow>
   lint_ok q (map_sum id (Pair None) (lint_close c i st))"
  by (auto simp: lint_close_def lint_ok_def lint_inv_def split: list.splits)

lemma lint_bracket_ok:
  assumes "i < length q" and "lint_inv q (None, st)"
  shows "lint_ok q (map_sum id snd (lint_bracket q i st))"
proof -
  have *: "map_sum id snd (map_sum id (\<lambda>st. (i + 1, None, st)) r) = map_sum id (Pair None) r" for r :: "ParseError + brackets"
    by (cases r) simp_all
  from assms lint_open_ok [OF assms(1) _ assms(2)] lint_close_ok [OF assms] show ?thesis
    unfolding lint_bracket_def * by (simp add: lint_ok_def)
qed

lemma lint_step_ok:
  assumes "i < length q" and "lint_inv q (inQ, st)"
  shows "lint_ok q (map_sum id snd (lint_step q i inQ st))"
  using assms lint_bracket_ok [of i q st]
  by (auto simp: lint_step_def) (auto simp: lint_ok_def lint_inv_def)

lemma lint_scan_ok: "lint_inv q (inQ, st) \<Longrightarrow> lint_ok q (lint_scan q i inQ st)"
proof (induction q i inQ st rule: lint_scan.induct)
  case (1 q i inQ st)
  show ?case
  proof (cases "i < length q")
    case False
    with "1.prems" show ?thesis by (simp add: lint_scan.simps [of q i] lint_ok_def)
  next
    case True
    with "1.prems" have "lint_ok q (map_sum id snd (lint_step q i inQ st))" by (intro lint_step_ok)
    with True "1.IH" show ?thesis
      by (cases "lint_step q i inQ st") (auto simp: lint_scan.simps [of q i] lint_ok_def)
  qed
qed

lemma lint_pairs_pos:
  "lint_pairs ts = Some e \<Longrightarrow> \<exists>t \<in> set ts. kind t \<noteq> TEOF \<and> Pos e = tpos t"
  by (induction ts rule: lint_pairs.induct) (auto split: if_splits)

lemma lint_words_pos:
  assumes "lint_words ts = Some e"
  shows "\<exists>t \<in> set ts. kind t \<noteq> TEOF \<and> Pos e = tpos t"
proof -
  let ?a = "ts ! 0" and ?b = "ts ! (length ts - 2)"
  from assms have "2 \<le> length ts" by (auto simp: lint_words_def split: if_splits)
  then have "0 < length ts" "length ts - 2 < length ts" by linarith+
  then have mem: "?a \<in> set ts" "?b \<in> set ts" using nth_mem by blast+
  from assms consider "kind ?a \<noteq> TEOF" "Pos e = tpos ?a" | "kind ?b \<noteq> TEOF" "Pos e = tpos ?b"
    | "lint_pairs ts = Some e"
    by (fastforce simp: lint_words_def Let_def split: if_splits)
  then show ?thesis using mem lint_pairs_pos [of ts e] by cases auto
qed

lemma stream_ok_tpos:
  "stream_ok i n ts \<Longrightarrow> t \<in> set ts \<Longrightarrow> kind t \<noteq> TEOF \<Longrightarrow> tpos t < n"
  by (induction i n ts rule: stream_ok.induct) (auto simp: tok_ok_def)

lemma Lint_pos:
  assumes "Lint q = Some e"
  shows "Pos e < length q"
proof -
  have "lint_ok q (lint_scan q 0 None [])" by (rule lint_scan_ok) (simp add: lint_inv_def)
  moreover have "Pos e < length q" if "lex q = Inr ts" "lint_words ts = Some e" for ts
    using stream_ok_tpos [OF lex_stream [OF that(1)]] lint_words_pos [OF that(2)] by auto
  ultimately show ?thesis using assms
    by (auto simp: Lint_def lint_ok_def lint_inv_def split: sum.splits option.splits list.splits)
qed

section \<open>Brackets\<close>

text \<open>
  The words of balanced brackets. A range may be closed by either range bracket; a parenthesis only by
  a parenthesis.
\<close>

definition pairs_with :: "char \<Rightarrow> char \<Rightarrow> bool" where
  "pairs_with a b \<longleftrightarrow> isOpenBr a \<and> isCloseBr b \<and> (b = CHR '')'') = (a = CHR ''('')"

inductive dyck :: "char list \<Rightarrow> bool" where
  dyck_empty: "dyck []"
| dyck_wrap: "dyck u \<Longrightarrow> dyck v \<Longrightarrow> pairs_with a b \<Longrightarrow> dyck (a # u @ b # v)"

text \<open>What has to follow when the brackets on the stack are open.\<close>

fun closes :: "char list \<Rightarrow> char list \<Rightarrow> bool" where
  "closes [] w \<longleftrightarrow> dyck w"
| "closes (a # st) w \<longleftrightarrow> (\<exists>u b v. w = u @ b # v \<and> dyck u \<and> pairs_with a b \<and> closes st v)"

lemma closes_open: "closes (a # st) w \<Longrightarrow> closes st (a # w)"
proof (induction st arbitrary: a w)
  case Nil
  then show ?case by (auto intro: dyck_wrap)
next
  case (Cons a' st)
  then obtain u b v u' b' v' where
    "w = u @ b # u' @ b' # v'" "dyck u" "pairs_with a b" "dyck u'" "pairs_with a' b'" "closes st v'"
    by fastforce
  then have "a # w = (a # u @ b # u') @ b' # v'" "dyck (a # u @ b # u')" by (auto intro: dyck_wrap)
  with \<open>pairs_with a' b'\<close> \<open>closes st v'\<close> show ?case by (metis closes.simps(2))
qed

definition isBr :: "char \<Rightarrow> bool" where
  "isBr c \<longleftrightarrow> isOpenBr c \<or> isCloseBr c"

definition plainBytes :: "string \<Rightarrow> bool" where
  "plainBytes q \<longleftrightarrow> (\<forall>c \<in> set q. c \<noteq> CHR 0x5C \<and> c \<noteq> CHR 0x22 \<and> c \<noteq> CHR ''/'')"

lemma lint_step_plain: "plainBytes q \<Longrightarrow> i < length q \<Longrightarrow> lint_step q i None st = lint_bracket q i st"
  by (simp add: plainBytes_def lint_step_def)

lemma closes_bracket:
  assumes "lint_bracket q i st = Inr (i', inQ', st')" and "closes (map fst st') w"
    and "\<forall>b \<in> set st. isOpenBr (fst b)"
  shows "closes (map fst st) (if isBr (q ! i) then q ! i # w else w)"
proof (cases "isOpenBr (q ! i)")
  case True
  with assms have "st' = (q ! i, i) # st"
    by (auto simp: lint_bracket_def lint_open_def Let_def split: if_splits)
  with assms True show ?thesis using closes_open [of "q ! i" "map fst st" w] by (simp add: isBr_def)
next
  case no: False
  show ?thesis
  proof (cases "isCloseBr (q ! i)")
    case True
    with no assms have c: "lint_close (q ! i) i st = Inr st'"
      by (cases "lint_close (q ! i) i st") (auto simp: lint_bracket_def)
    then obtain a p where st: "st = (a, p) # st'" and "(q ! i = CHR '')'') = (a = CHR ''('')"
      by (auto simp: lint_close_def split: list.splits if_splits)
    with True assms(3) have "pairs_with a (q ! i)" by (simp add: pairs_with_def)
    with assms(2) st True dyck_empty show ?thesis by (auto simp: isBr_def intro!: exI [of _ "[]"])
  next
    case False
    with no assms show ?thesis by (auto simp: lint_bracket_def isBr_def)
  qed
qed

lemma lint_scan_closes:
  assumes "lint_scan q i inQ st = Inr (None, [])" and "plainBytes q" and "inQ = None"
    and "\<forall>b \<in> set st. isOpenBr (fst b)"
  shows "closes (map fst st) (filter isBr (drop i q))"
  using assms
proof (induction q i inQ st rule: lint_scan.induct)
  case (1 q i inQ st)
  show ?case
  proof (cases "i < length q")
    case False
    with "1.prems" show ?thesis by (simp add: lint_scan.simps [of q i] dyck_empty)
  next
    case i: True
    with "1.prems" have s: "lint_step q i inQ st = lint_bracket q i st" by (simp add: lint_step_plain)
    with i "1.prems"(1) obtain i' inQ' st' where b: "lint_bracket q i st = Inr (i', inQ', st')"
      by (cases "lint_bracket q i st") (auto simp: lint_scan.simps [of q i])
    from lint_bracket_next [OF b] have n: "i' = i + 1" "inQ' = None" by auto
    from b "1.prems"(4) have o: "\<forall>b \<in> set st'. isOpenBr (fst b)"
      by (auto simp: lint_bracket_def lint_open_def lint_close_def Let_def split: if_splits list.splits)
    from i "1.prems" s b n have "lint_scan q i' inQ' st' = Inr (None, [])"
      by (simp add: lint_scan.simps [of q i])
    with "1.IH" [of "(i', inQ', st')" i' "(inQ', st')" inQ' st'] i s b n o "1.prems"
    have "closes (map fst st') (filter isBr (drop (i + 1) q))" by auto
    from closes_bracket [OF b this "1.prems"(4)] i show ?thesis
      by (simp add: Cons_nth_drop_Suc [symmetric] split: if_splits)
  qed
qed

section \<open>Properties\<close>

text \<open>
  A query that reaches Elasticsearch under the label Lucene is the typed text, byte for byte. The
  translation refuses a query only when the user did not force Lucene, the grammar rejects it and
  \<open>Lint\<close> found a structural break, and the reported position lies inside the query. Every query the
  grammar accepts is translated.
\<close>

theorem ToES_contract:
  "case ToES q forceLucene of
     Inr t \<Rightarrow> TLang t = LangKQL \<or> Query t = q
   | Inl pe \<Rightarrow> \<not> forceLucene \<and> (\<exists>e. Parse q = Inl e) \<and> Lint q = Some pe \<and> Pos pe < length q"
  by (auto simp: ToES_def Lint_pos split: sum.split option.split)

text \<open>
  The check of the ClickHouse path agrees with the parser: it reports nothing exactly when the
  query parses, and a report carries a position of the query.
\<close>

theorem Check_iff_Parse:
  "case Check q of
     None \<Rightarrow> \<exists>r. Parse q = Inr r
   | Some e \<Rightarrow> \<exists>x pe. Parse q = Inl x \<and> e = Fail pe \<and> Pos pe \<le> length q"
proof -
  have "Parse q = Inl e \<Longrightarrow> \<exists>pe. e = Fail pe \<and> Pos pe \<le> length q" for e
    using Parse_outcome [of q] by auto
  moreover have "TrimSpace q = [] \<Longrightarrow> Parse q = Inr None" by (simp add: Parse_def)
  ultimately show ?thesis using Lint_pos [of q]
    by (auto simp: Check_def less_imp_le split: sum.split option.split)
qed

text \<open>
  \<open>Lint\<close> lets through only balanced brackets: in a query without escapes, quotes and slashes for
  which it reports nothing, the brackets form a word of the balanced-bracket language.
\<close>

theorem Lint_brackets:
  assumes "plainBytes q" and "Lint q = None"
  shows "dyck (filter isBr q)"
proof -
  from assms(2) have "lint_scan q 0 None [] = Inr (None, [])"
    by (auto simp: Lint_def split: sum.splits option.splits list.splits)
  from lint_scan_closes [OF this assms(1)] show ?thesis by simp
qed

theorem Lint_brackets_witness:
  "dyck (filter isBr ''a AND (b:[1 TO 5} OR (c))'')"
proof (rule Lint_brackets)
  show "plainBytes ''a AND (b:[1 TO 5} OR (c))''" by (simp add: plainBytes_def)
  show "Lint ''a AND (b:[1 TO 5} OR (c))'' = None" by code_simp
qed

text \<open>
  A query written in Lucene's own spelling is left alone: with upper-case operators, no space
  after a field's colon and no bare comparison, rewriting returns the text unchanged.
\<close>

theorem rewriteKQL_unchanged:
  assumes "lex q = Inr toks"
    and "\<forall>i < length toks. \<not> lowerOp (toks ! i) \<and> \<not> (kind (toks ! i) = TField \<and> spaced (toks ! i)) \<and>
      \<not> kqlCompare toks i"
  shows "rewriteKQL q = q"
proof -
  have "rewrite_loop q toks i k = drop k q" for i k
    using assms(2)
    by (induction q toks i k rule: rewrite_loop.induct) (subst rewrite_loop.simps, auto simp: Let_def)
  with assms(1) show ?thesis by (simp add: rewriteKQL_def)
qed

theorem rewriteKQL_unchanged_witness:
  "rewriteKQL ''level:error AND -x:[1 TO 2]'' = ''level:error AND -x:[1 TO 2]''"
proof -
  let ?q = "''level:error AND -x:[1 TO 2]''"
  let ?ok = "\<lambda>toks. list_all (\<lambda>i. \<not> lowerOp (toks ! i) \<and> \<not> (kind (toks ! i) = TField \<and> spaced (toks ! i)) \<and>
      \<not> kqlCompare toks i) [0..<length toks]"
  have "case lex ?q of Inl _ \<Rightarrow> False | Inr toks \<Rightarrow> ?ok toks" by code_simp
  then obtain toks where "lex ?q = Inr toks" and "?ok toks" by (auto split: sum.splits)
  from rewriteKQL_unchanged [OF this(1)] this(2) show ?thesis by (simp add: list_all_iff)
qed

text \<open>
  A comment in \<open>Lint\<close> says that the lexer cannot fail once quotes and brackets were found sound. It
  can: a quote inside a slash-delimited body is skipped by the scan and unclosed for the lexer, so the
  dangling operator after it is not reported.
\<close>

theorem Lint_lexer_may_fail:
  "\<exists>q. lint_scan q 0 None [] = Inr (None, []) \<and> (\<exists>e. lex q = Inl e) \<and> Lint q = None"
proof (intro exI conjI)
  let ?q = "[CHR ''/'', CHR 0x22, CHR ''/''] @ '' AND''"
  show "lint_scan ?q 0 None [] = Inr (None, [])" by code_simp
  show "Lint ?q = None" by code_simp
  show "lex ?q = Inl (perr 1 UnclosedQuote)" by code_simp
qed

end
