(* ===== verification/UTF8.thy ===== *)
theory UTF8
  imports Prelude
begin

text \<open>
  Runes: what ranging over a Go string or converting it to \<open>[]rune\<close> sees. A rune is represented by its
  UTF-8 encoding, which determines it.
\<close>

section \<open>Decoding\<close>

text \<open>
  Ranging over a string decodes UTF-8; a byte that starts no valid sequence counts as U+FFFD, width 1.
  \<open>decodeRune\<close> returns the bytes \<open>WriteRune\<close> writes for the rune, and its width in the source.
\<close>

definition cont :: "string \<Rightarrow> nat \<Rightarrow> nat \<Rightarrow> nat \<Rightarrow> bool" where
  "cont s i lo hi \<longleftrightarrow> i < length s \<and> lo \<le> byte (s ! i) \<and> byte (s ! i) \<le> hi"

definition runeWidth :: "string \<Rightarrow> nat option" where
  "runeWidth s =
     (case s of
        [] \<Rightarrow> None
      | c # _ \<Rightarrow>
          (let b = byte c; lo = (if b = 0xE0 then 0xA0 else if b = 0xF0 then 0x90 else 0x80);
               hi = (if b = 0xED then 0x9F else if b = 0xF4 then 0x8F else 0xBF) in
           if b < 0x80 then Some 1
           else if 0xC2 \<le> b \<and> b \<le> 0xDF \<and> cont s 1 0x80 0xBF then Some 2
           else if 0xE0 \<le> b \<and> b \<le> 0xEF \<and> cont s 1 lo hi \<and> cont s 2 0x80 0xBF then Some 3
           else if 0xF0 \<le> b \<and> b \<le> 0xF4 \<and> cont s 1 lo hi \<and> cont s 2 0x80 0xBF \<and> cont s 3 0x80 0xBF
           then Some 4
           else None))"

definition decodeRune :: "string \<Rightarrow> string \<times> nat" where
  "decodeRune s =
     (case runeWidth s of
        Some n \<Rightarrow> (take n s, n)
      | None \<Rightarrow> ([CHR 0xEF, CHR 0xBF, CHR 0xBD], 1))"

lemma runeWidth_pos: "runeWidth s = Some n \<Longrightarrow> 0 < n \<and> n \<le> length s"
  by (auto simp: runeWidth_def Let_def cont_def Suc_le_eq split: list.splits if_splits)

lemma decodeRune_pos: "s \<noteq> [] \<Longrightarrow> 0 < snd (decodeRune s) \<and> snd (decodeRune s) \<le> length s"
  by (auto simp: decodeRune_def Suc_leI split: option.splits dest: runeWidth_pos)

function runes :: "string \<Rightarrow> string list" where
  "runes s = (if s = [] then [] else fst (decodeRune s) # runes (drop (snd (decodeRune s)) s))"
  by pat_completeness auto
termination
  using decodeRune_pos by (relation "measure length") auto

declare runes.simps [simp del]

lemma runes_Nil [simp]: "runes [] = []"
  by (simp add: runes.simps)

lemma runes_empty: "runes s = [] \<longleftrightarrow> s = []"
  by (subst runes.simps) simp

text \<open>On ASCII text the runes are the bytes.\<close>

lemma runes_ascii: "list_all (\<lambda>c. byte c < 0x80) s \<Longrightarrow> runes s = map (\<lambda>c. [c]) s"
proof (induction s)
  case (Cons c s)
  then have "decodeRune (c # s) = ([c], 1)" by (simp add: decodeRune_def runeWidth_def)
  with Cons show ?case by (subst runes.simps) simp
qed simp

section \<open>Texts in JSON\<close>

text \<open>
  What a text becomes when it is encoded as JSON and decoded again: \<open>encoding/json\<close> replaces every byte that is no part of a valid UTF-8
  sequence by U+FFFD, and keeps everything else. A text that stays as it is is valid UTF-8.
\<close>

definition jsonText :: "string \<Rightarrow> string" where "jsonText s = concat (runes s)"

lemma jsonText_ascii: "list_all (\<lambda>c. byte c < 0x80) s \<Longrightarrow> jsonText s = s"
  by (simp add: jsonText_def runes_ascii)

end
