(* ===== verification/LogQL_Compile.thy ===== *)
theory LogQL_Compile
  imports LogQL_Parse UTF8
begin

text \<open>
  The compiler from query trees to ClickHouse predicates (\<open>internal/logql/compile_ch.go\<close>). The builder
  \<open>chBuilder\<close> only ever appends to its argument list, so each method returns the SQL text it produced
  with the arguments it appended. The schema (\<open>Target\<close>) is given from outside and is a record of its
  two methods; the number parser (\<open>strconv.ParseFloat\<close>) and the
  Unicode lower-casing of Go's library that the code calls on user text are the two fields of \<open>gostd\<close>, so that every statement holds whatever they return.
\<close>

section \<open>Schema and arguments\<close>

datatype FieldKind = FieldBody | FieldString | FieldFold | FieldNumeric | FieldID

text \<open>An SQL argument: a Go string, a number, or what the schema binds.\<close>

datatype ('f, 'x) arg = AStr string | ANum 'f | ARef 'x

record 'x FieldRef =
  RKind :: FieldKind
  RExpr :: string
  RArgs :: "'x list"
  ExistsExpr :: string
  ExistsArgs :: "'x list"

record 'x Target =
  Resolve :: "string \<Rightarrow> 'x FieldRef"
  IDColumns :: "string \<Rightarrow> string list"

record 'f gostd =
  ParseFloat :: "string \<Rightarrow> 'f option"
  uLower :: "string \<Rightarrow> string"

type_synonym ('f, 'x) sql = "string \<times> ('f, 'x) arg list"

section \<open>Compiler\<close>

definition likePattern :: "string \<Rightarrow> string" where
  "likePattern v = concat (map (\<lambda>r.
      if r = [CHR 0x5C] then [CHR 0x5C, CHR 0x5C]
      else if r = ''%'' then [CHR 0x5C, CHR ''%'']
      else if r = ''_'' then [CHR 0x5C, CHR ''_'']
      else if r = ''*'' then ''%''
      else if r = ''?'' then ''_''
      else r) (runes v))"

definition parseNum :: "'f gostd \<Rightarrow> string \<Rightarrow> 'f option" where
  "parseNum std s = ParseFloat std (TrimSpace s)"

definition opSQL :: "Op \<Rightarrow> string" where
  "opSQL op = (case op of OpGt \<Rightarrow> ''>'' | OpGte \<Rightarrow> ''>='' | OpLt \<Rightarrow> ''<'' | _ \<Rightarrow> ''<='')"

definition freeText :: "'f gostd \<Rightarrow> 'x Target \<Rightarrow> clause \<Rightarrow> ('f, 'x) sql" where
  "freeText std t e =
     (if Wildcard e \<and> \<not> Phrase e then (''ilike(body, ?)'', [AStr (likePattern (Value e))])
      else
        (let base = ''multiSearchAnyCaseInsensitive(body, [?])''; cols = IDColumns t (Value e) in
         if cols = [] \<or> Phrase e then (base, [AStr (Value e)])
         else
           (let id = uLower std (TrimSpace (Value e)) in
            (''('' @ Join (base # map (\<lambda>c. c @ '' = ?'') cols) '' OR '' @ '')'',
             AStr (Value e) # map (\<lambda>_. AStr id) cols))))"

definition matchSQL :: "'f gostd \<Rightarrow> 'x FieldRef \<Rightarrow> string \<Rightarrow> bool \<Rightarrow> bool \<Rightarrow> ('f, 'x) sql" where
  "matchSQL std ref val phrase wild0 =
     (let wild = (wild0 \<and> \<not> phrase); ex = RExpr ref; ra = map ARef (RArgs ref) in
      case RKind ref of
        FieldBody \<Rightarrow>
          if wild then (''ilike('' @ ex @ '', ?)'', ra @ [AStr (likePattern val)])
          else (''multiSearchAnyCaseInsensitive('' @ ex @ '', [?])'', ra @ [AStr val])
      | FieldFold \<Rightarrow>
          if wild then (''ilike('' @ ex @ '', ?)'', ra @ [AStr (likePattern val)])
          else (''(lower('' @ ex @ '') = lower(?))'', ra @ [AStr val])
      | FieldID \<Rightarrow>
          if wild then (''like('' @ ex @ '', ?)'', ra @ [AStr (likePattern (uLower std val))])
          else (''('' @ ex @ '' = ?)'', ra @ [AStr (uLower std (TrimSpace val))])
      | FieldNumeric \<Rightarrow>
          (case parseNum std val of
             Some n \<Rightarrow>
               if \<not> wild then (''('' @ ex @ '' = ?)'', ra @ [ANum n])
               else (''like(toString('' @ ex @ ''), ?)'', ra @ [AStr (likePattern val)])
           | None \<Rightarrow>
               if wild then (''like(toString('' @ ex @ ''), ?)'', ra @ [AStr (likePattern val)])
               else (''(toString('' @ ex @ '') = ?)'', ra @ [AStr val]))
      | FieldString \<Rightarrow>
          if wild then (''like('' @ ex @ '', ?)'', ra @ [AStr (likePattern val)])
          else (''('' @ ex @ '' = ?)'', ra @ [AStr val]))"

definition compareSQL :: "'f gostd \<Rightarrow> 'x FieldRef \<Rightarrow> string \<Rightarrow> string \<Rightarrow> ('f, 'x) sql" where
  "compareSQL std ref op val =
     (let ex = RExpr ref; ra = map ARef (RArgs ref); num = parseNum std val;
          str = (''('' @ ex @ '' '' @ op @ '' ?)'', ra @ [AStr val]) in
      case RKind ref of
        FieldNumeric \<Rightarrow>
          (case num of
             Some n \<Rightarrow> (''('' @ ex @ '' '' @ op @ '' ?)'', ra @ [ANum n])
           | None \<Rightarrow> (''(toString('' @ ex @ '') '' @ op @ '' ?)'', ra @ [AStr val]))
      | FieldString \<Rightarrow>
          (case num of
             Some n \<Rightarrow> (''(toFloat64OrNull('' @ ex @ '') '' @ op @ '' ?)'', ra @ [ANum n])
           | None \<Rightarrow> str)
      | FieldFold \<Rightarrow>
          (case num of
             Some n \<Rightarrow> (''(toFloat64OrNull('' @ ex @ '') '' @ op @ '' ?)'', ra @ [ANum n])
           | None \<Rightarrow> str)
      | _ \<Rightarrow> str)"

definition clauseSQL :: "'f gostd \<Rightarrow> 'x Target \<Rightarrow> clause \<Rightarrow> ('f, 'x) sql" where
  "clauseSQL std t e =
     (if Field e = [] then freeText std t e
      else
        (let ref = Resolve t (Field e); notEmpty = (''('' @ RExpr ref @ '' != '' @ [CHR 0x27, CHR 0x27] @ '')'', map ARef (RArgs ref)) in
         case Oper e of
           OpExists \<Rightarrow>
             if ExistsExpr ref \<noteq> [] then (ExistsExpr ref, map ARef (ExistsArgs ref)) else notEmpty
         | OpMatch \<Rightarrow> matchSQL std ref (Value e) (Phrase e) (Wildcard e)
         | OpRange \<Rightarrow>
             (let parts =
                (if Lo e \<noteq> [] then [compareSQL std ref (if LoIncl e then ''>='' else ''>'') (Lo e)] else []) @
                (if Hi e \<noteq> [] then [compareSQL std ref (if HiIncl e then ''<='' else ''<'') (Hi e)] else [])
              in if parts = [] then notEmpty
                 else (''('' @ Join (map fst parts) '' AND '' @ '')'', concat (map snd parts)))
         | op \<Rightarrow> compareSQL std ref (opSQL op) (Value e)))"

fun exprSQL :: "'f gostd \<Rightarrow> 'x Target \<Rightarrow> Expr \<Rightarrow> ('f, 'x) sql" where
  "exprSQL std t (KindAnd ks) =
     (let parts = map (exprSQL std t) ks in
      (''('' @ Join (map fst parts) '' AND '' @ '')'', concat (map snd parts)))"
| "exprSQL std t (KindOr ks) =
     (let parts = map (exprSQL std t) ks in
      (''('' @ Join (map fst parts) '' OR '' @ '')'', concat (map snd parts)))"
| "exprSQL std t (KindNot k) = (''NOT '' @ fst (exprSQL std t k), snd (exprSQL std t k))"
| "exprSQL std t (KindClause c) = clauseSQL std t c"

definition Compile :: "'f gostd \<Rightarrow> 'x Target \<Rightarrow> Expr option \<Rightarrow> ('f, 'x) sql" where
  "Compile std t e = (case e of None \<Rightarrow> ([], []) | Some x \<Rightarrow> exprSQL std t x)"


lemmas compile_defs = freeText_def matchSQL_def compareSQL_def clauseSQL_def Compile_def opSQL_def

section \<open>Placeholders and arguments\<close>

definition qmarks :: "string \<Rightarrow> nat" where
  "qmarks s = length (filter (\<lambda>c. c = CHR ''?'') s)"

lemma qmarks_Nil [simp]: "qmarks [] = 0"
  and qmarks_Cons [simp]: "qmarks (c # s) = (if c = CHR ''?'' then 1 else 0) + qmarks s"
  and qmarks_append [simp]: "qmarks (s @ s') = qmarks s + qmarks s'"
  by (simp_all add: qmarks_def)

lemma qmarks_Join: "qmarks sep = 0 \<Longrightarrow> qmarks (Join xs sep) = sum_list (map qmarks xs)"
  by (induction xs sep rule: Join.induct) auto

text \<open>An SQL fragment is balanced when it has one argument for each placeholder.\<close>

definition balanced :: "string \<times> 'a list \<Rightarrow> bool" where
  "balanced q \<longleftrightarrow> qmarks (fst q) = length (snd q)"

lemma balanced_Join:
  assumes "qmarks sep = 0" and "\<And>q. q \<in> set qs \<Longrightarrow> balanced q"
  shows "balanced (''('' @ Join (map fst qs) sep @ '')'', concat (map snd qs))"
  using assms(2) by (induction qs) (auto simp: balanced_def qmarks_Join [OF assms(1)])

lemma qmarks_opSQL [simp]: "qmarks (opSQL op) = 0"
  by (cases op) (simp_all add: opSQL_def)

text \<open>What the compiler relies on of a schema.\<close>

locale schema =
  fixes t :: "'x Target"
  assumes expr_args: "qmarks (RExpr (Resolve t f)) = length (RArgs (Resolve t f))"
    and exists_args: "qmarks (ExistsExpr (Resolve t f)) = length (ExistsArgs (Resolve t f))"
    and column_args: "c \<in> set (IDColumns t v) \<Longrightarrow> qmarks c = 0"
begin

lemma balanced_freeText: "balanced (freeText std t e)"
proof -
  have "sum_list (map (qmarks \<circ> (\<lambda>c. c @ '' = ?'')) cols) = length cols"
    if "\<And>c. c \<in> set cols \<Longrightarrow> qmarks c = 0" for cols
    using that by (induction cols) auto
  from this [OF column_args] show ?thesis
    by (auto simp: freeText_def Let_def balanced_def qmarks_Join)
qed

lemma balanced_match: "balanced (matchSQL std (Resolve t f) val ph wi)"
  by (cases "RKind (Resolve t f)")
    (auto simp: matchSQL_def Let_def balanced_def expr_args split: option.splits)

lemma balanced_compare: "qmarks op = 0 \<Longrightarrow> balanced (compareSQL std (Resolve t f) op val)"
  by (cases "RKind (Resolve t f)")
    (auto simp: compareSQL_def Let_def balanced_def expr_args split: option.splits)

lemma balanced_range:
  assumes "\<And>q. q \<in> set qs \<Longrightarrow> balanced q" and "balanced d"
  shows "balanced (if qs = [] then d else (''('' @ Join (map fst qs) '' AND '' @ '')'', concat (map snd qs)))"
  using balanced_Join [of "'' AND ''" qs] assms by simp

lemma balanced_clause: "balanced (clauseSQL std t e)"
proof (cases "Field e = []")
  case True
  then show ?thesis by (simp add: clauseSQL_def balanced_freeText)
next
  case False
  have d: "balanced (''('' @ RExpr (Resolve t (Field e)) @ '' != '' @ [CHR 0x27, CHR 0x27] @ '')'',
      map ARef (RArgs (Resolve t (Field e))))"
    by (simp add: balanced_def expr_args)
  show ?thesis
  proof (cases "Oper e")
    case OpRange
    with False show ?thesis
      unfolding clauseSQL_def Let_def
      by (simp only: if_False Op.case, intro balanced_range d) (auto intro!: balanced_compare)
  qed (use False d in \<open>auto simp: clauseSQL_def Let_def balanced_match balanced_compare,
        auto simp: balanced_def exists_args\<close>)
qed

lemma balanced_expr: "balanced (exprSQL std t e)"
proof (induction e)
  case (KindAnd ks)
  then have "\<And>q. q \<in> set (map (exprSQL std t) ks) \<Longrightarrow> balanced q" by auto
  with balanced_Join [of "'' AND ''" "map (exprSQL std t) ks"]
  have "balanced (''('' @ Join (map fst (map (exprSQL std t) ks)) '' AND '' @ '')'',
      concat (map snd (map (exprSQL std t) ks)))" by (simp del: map_map set_map)
  then show ?case by (simp add: Let_def)
next
  case (KindOr ks)
  then have "\<And>q. q \<in> set (map (exprSQL std t) ks) \<Longrightarrow> balanced q" by auto
  with balanced_Join [of "'' OR ''" "map (exprSQL std t) ks"]
  have "balanced (''('' @ Join (map fst (map (exprSQL std t) ks)) '' OR '' @ '')'',
      concat (map snd (map (exprSQL std t) ks)))" by (simp del: map_map set_map)
  then show ?case by (simp add: Let_def)
next
  case (KindNot k)
  then show ?case by (simp add: balanced_def)
next
  case (KindClause c)
  then show ?case by (simp add: balanced_clause)
qed

lemma balanced_Compile: "balanced (Compile std t e)"
  by (cases e) (simp_all add: Compile_def balanced_expr, simp add: balanced_def)

end

section \<open>What the text depends on\<close>

text \<open>
  Two clauses the compiler cannot tell apart but by the values it binds: the same operator, the same
  flags, fields that the schema resolves to the same expressions, and values of the same class
  (numbers or not, identifiers or not, bounds present or not).
\<close>

definition same_ref :: "'x FieldRef \<Rightarrow> 'x FieldRef \<Rightarrow> bool" where
  "same_ref r r' \<longleftrightarrow> RKind r = RKind r' \<and> RExpr r = RExpr r' \<and> ExistsExpr r = ExistsExpr r'"

definition same_class :: "'f gostd \<Rightarrow> string \<Rightarrow> string \<Rightarrow> bool" where
  "same_class std v v' \<longleftrightarrow> (parseNum std v = None) = (parseNum std v' = None)"

definition alike_clause :: "'f gostd \<Rightarrow> 'x Target \<Rightarrow> clause \<Rightarrow> clause \<Rightarrow> bool" where
  "alike_clause std t c c' \<longleftrightarrow>
     Oper c = Oper c' \<and> Phrase c = Phrase c' \<and> Wildcard c = Wildcard c' \<and>
     LoIncl c = LoIncl c' \<and> HiIncl c = HiIncl c' \<and>
     (Field c = []) = (Field c' = []) \<and> same_ref (Resolve t (Field c)) (Resolve t (Field c')) \<and>
     same_class std (Value c) (Value c') \<and> IDColumns t (Value c) = IDColumns t (Value c') \<and>
     (Lo c = []) = (Lo c' = []) \<and> same_class std (Lo c) (Lo c') \<and>
     (Hi c = []) = (Hi c' = []) \<and> same_class std (Hi c) (Hi c')"

fun alike :: "'f gostd \<Rightarrow> 'x Target \<Rightarrow> Expr \<Rightarrow> Expr \<Rightarrow> bool" where
  "alike std t (KindAnd ks) (KindAnd ks') \<longleftrightarrow> list_all2 (alike std t) ks ks'"
| "alike std t (KindOr ks) (KindOr ks') \<longleftrightarrow> list_all2 (alike std t) ks ks'"
| "alike std t (KindNot k) (KindNot k') \<longleftrightarrow> alike std t k k'"
| "alike std t (KindClause c) (KindClause c') \<longleftrightarrow> alike_clause std t c c'"
| "alike std t _ _ \<longleftrightarrow> False"

lemma matchSQL_text:
  "same_ref r r' \<Longrightarrow> same_class std v v' \<Longrightarrow> fst (matchSQL std r v p w) = fst (matchSQL std r' v' p w)"
  by (cases "RKind r'")
    (auto simp: same_ref_def same_class_def matchSQL_def Let_def split: option.splits)

lemma compareSQL_text:
  "same_ref r r' \<Longrightarrow> same_class std v v' \<Longrightarrow> fst (compareSQL std r op v) = fst (compareSQL std r' op v')"
  by (cases "RKind r'")
    (auto simp: same_ref_def same_class_def compareSQL_def Let_def split: option.splits)

lemma freeText_text:
  "alike_clause std t c c' \<Longrightarrow> fst (freeText std t c) = fst (freeText std t c')"
  by (auto simp: alike_clause_def freeText_def Let_def)

lemma clauseSQL_text:
  assumes "alike_clause std t c c'"
  shows "fst (clauseSQL std t c) = fst (clauseSQL std t c')"
proof -
  note a = assms [unfolded alike_clause_def]
  show ?thesis
  proof (cases "Field c = []")
    case True
    then show ?thesis using freeText_text [OF assms] a by (simp add: clauseSQL_def)
  next
    case False
    then show ?thesis
      using a
      by (cases "Oper c'")
        (simp_all add: clauseSQL_def Let_def matchSQL_text [of _ "Resolve t (Field c')" _ _ "Value c'"]
          compareSQL_text [of _ "Resolve t (Field c')" _ _ "Value c'"]
          compareSQL_text [of _ "Resolve t (Field c')" _ _ "Lo c'"]
          compareSQL_text [of _ "Resolve t (Field c')" _ _ "Hi c'"], simp_all add: same_ref_def)
  qed
qed

lemma map_alike:
  "list_all2 R xs ys \<Longrightarrow> (\<And>x y. x \<in> set xs \<Longrightarrow> y \<in> set ys \<Longrightarrow> R x y \<Longrightarrow> f x = f y) \<Longrightarrow> map f xs = map f ys"
  by (induction rule: list_all2_induct) auto

lemma exprSQL_text:
  "alike std t e e' \<Longrightarrow> fst (exprSQL std t e) = fst (exprSQL std t e')"
proof (induction std t e e' rule: alike.induct)
  case (1 std t ks ks')
  then have "map (\<lambda>k. fst (exprSQL std t k)) ks = map (\<lambda>k. fst (exprSQL std t k)) ks'"
    by (intro map_alike [where R = "alike std t"]) auto
  then show ?case by (simp add: Let_def comp_def)
next
  case (2 std t ks ks')
  then have "map (\<lambda>k. fst (exprSQL std t k)) ks = map (\<lambda>k. fst (exprSQL std t k)) ks'"
    by (intro map_alike [where R = "alike std t"]) auto
  then show ?case by (simp add: Let_def comp_def)
qed (simp_all add: clauseSQL_text)

end
