(* ===== verification/LogSearch.thy ===== *)
theory LogSearch
  imports LogQL_Compile
begin

text \<open>
  The logs table as a schema of the compiler and the search box built on it
  (\<open>internal/chstore/log_query_compile.go\<close>, \<open>log_search_predicate.go\<close>, the namespace expression of
  \<open>identity.go\<close>): which column or key lookup a field name means, when a bare term is an identifier,
  and the \<open>WHERE\<close> fragment of a search text, with its fall-back to a plain substring search when the
  text does not parse. The process-wide set of texts already warned about is explicit state; the log
  line itself is not modelled.
\<close>

section \<open>Expressions of the logs table\<close>

text \<open>A SQL string literal and the line structure of the raw constants.\<close>

abbreviation (input) nl :: string where "nl \<equiv> [CHR 0x0A]"

definition sqlStr :: "string \<Rightarrow> string" where
  "sqlStr k = [CHR 0x27] @ k @ [CHR 0x27]"

definition resLookup :: "string \<Rightarrow> string" where
  "resLookup k = ''nullIf(res_values[indexOf(res_keys, '' @ sqlStr k @ '')], '' @ sqlStr [] @ '')''"

definition attrLookup :: "string \<Rightarrow> string" where
  "attrLookup k = ''nullIf(attr_values[indexOf(attr_keys, '' @ sqlStr k @ '')], '' @ sqlStr [] @ '')''"

definition chainSQL :: "string list \<Rightarrow> string" where
  "chainSQL ks =
     ''coalesce('' @ nl @
     concat (map (\<lambda>k. replicate 3 (CHR 0x09) @ resLookup k @ '','' @ nl) ks) @
     replicate 3 (CHR 0x09) @ sqlStr [] @ '')''"

definition LogsClusterChainSQL :: string where
  "LogsClusterChainSQL = chainSQL [''k8s.cluster.name'', ''openshift.cluster.name'', ''cluster'']"

definition logsEnvChainSQL :: string where
  "logsEnvChainSQL = chainSQL [''deployment.environment.name'', ''deployment.environment'']"

definition logsPodChainSQL :: string where
  "logsPodChainSQL =
     chainSQL [''k8s.pod.name'', ''kubernetes.pod_name'', ''kubernetes.pod.name'', ''pod_name'']"

definition logsAttrLookupSQL :: string where
  "logsAttrLookupSQL =
     ''coalesce('' @ nl @
     replicate 3 (CHR 0x09) @ ''nullIf(attr_values[indexOf(attr_keys, ?)], '' @ sqlStr [] @ ''),'' @ nl @
     replicate 3 (CHR 0x09) @ ''nullIf(res_values[indexOf(res_keys, ?)], '' @ sqlStr [] @ ''),'' @ nl @
     replicate 3 (CHR 0x09) @ sqlStr [] @ '')''"

definition logsSeverityTextSQL :: string where
  "logsSeverityTextSQL =
     ''if(severity_text != '' @ sqlStr [] @ '', severity_text, toString(severity_num))''"

definition nsIdentityKeys :: "string list" where
  "nsIdentityKeys =
     [''service.namespace'', ''k8s.namespace.name'', ''kubernetes.namespace.name'',
      ''kubernetes.namespace_name'']"

definition namespaceExpr :: string where
  "namespaceExpr =
     (let ind = replicate 2 (CHR 0x09) @ replicate 9 (CHR 0x20) in
      ''coalesce('' @ nl @
      concat (map (\<lambda>k. ind @ resLookup k @ '','' @ nl) nsIdentityKeys) @
      concat (map (\<lambda>k. ind @ attrLookup k @ '','' @ nl) nsIdentityKeys) @
      ind @ sqlStr [] @ nl @ replicate 2 (CHR 0x09) @ replicate 7 (CHR 0x20) @ '')'')"

section \<open>The schema\<close>

definition plainRef :: "FieldKind \<Rightarrow> string \<Rightarrow> string FieldRef" where
  "plainRef k e = \<lparr>RKind = k, RExpr = e, RArgs = [], ExistsExpr = [], ExistsArgs = []\<rparr>"

definition logResolve :: "'f gostd \<Rightarrow> string \<Rightarrow> string FieldRef" where
  "logResolve std field =
     (let f = uLower std field in
      if f \<in> set [''service'', ''service.name'', ''service_name'', ''servicename'']
      then plainRef FieldString ''service_name''
      else if f \<in> set [''level'', ''severity'', ''log.level'', ''severity_text'', ''severitytext'']
      then (plainRef FieldFold logsSeverityTextSQL)
             \<lparr>ExistsExpr := ''(severity_text != '' @ sqlStr [] @ '' OR severity_num != 0)''\<rparr>
      else if f \<in> set [''severity_num'', ''severity_number'', ''severitynumber'']
      then (plainRef FieldNumeric ''severity_num'')\<lparr>ExistsExpr := ''(severity_num != 0)''\<rparr>
      else if f \<in> set [''trace'', ''trace_id'', ''traceid'', ''trace.id'']
      then plainRef FieldID ''trace_id''
      else if f \<in> set [''span'', ''span_id'', ''spanid'', ''span.id'']
      then plainRef FieldID ''span_id''
      else if f \<in> set [''message'', ''body'', ''msg'', ''log.message'']
      then plainRef FieldBody ''body''
      else if f \<in> set [''host'', ''host.name'', ''hostname'', ''host_name'']
      then plainRef FieldString ''host_name''
      else if f \<in> set [''pod'', ''k8s.pod.name'', ''kubernetes.pod.name'', ''kubernetes.pod_name'', ''pod_name'']
      then plainRef FieldString logsPodChainSQL
      else if f \<in> set [''namespace'', ''k8s.namespace.name'', ''kubernetes.namespace.name'',
                      ''kubernetes.namespace_name'', ''kubernetes.namespace'']
      then plainRef FieldString namespaceExpr
      else if f \<in> set [''cluster'', ''k8s.cluster.name'', ''openshift.cluster.name'',
                      ''kubernetes.cluster.name'', ''kubernetes.cluster_name'']
      then plainRef FieldString LogsClusterChainSQL
      else if f \<in> set [''env'', ''environment'', ''deployment.environment'', ''deployment.environment.name'']
      then plainRef FieldString logsEnvChainSQL
      else \<lparr>RKind = FieldString, RExpr = logsAttrLookupSQL, RArgs = [field, field],
             ExistsExpr = ''(has(attr_keys, ?) OR has(res_keys, ?))'', ExistsArgs = [field, field]\<rparr>)"

definition isHexByte :: "char \<Rightarrow> bool" where
  "isHexByte c \<longleftrightarrow>
     (let b = byte c in
      (byte (CHR ''0'') \<le> b \<and> b \<le> byte (CHR ''9'')) \<or> (byte (CHR ''a'') \<le> b \<and> b \<le> byte (CHR ''f'')) \<or>
      (byte (CHR ''A'') \<le> b \<and> b \<le> byte (CHR ''F'')))"

definition IsBareHexID :: "string \<Rightarrow> bool" where
  "IsBareHexID q0 \<longleftrightarrow>
     (let q = TrimSpace q0 in (length q = 32 \<or> length q = 16) \<and> list_all isHexByte q)"

definition logIDColumns :: "string \<Rightarrow> string list" where
  "logIDColumns term = (if IsBareHexID term then [''trace_id'', ''span_id''] else [])"

definition LogQueryTarget :: "'f gostd \<Rightarrow> string Target" where
  "LogQueryTarget std = \<lparr>Resolve = logResolve std, IDColumns = logIDColumns\<rparr>"

section \<open>The search box\<close>

definition logSearchConjunct :: "'f gostd \<Rightarrow> string \<Rightarrow> ('f, string) sql" where
  "logSearchConjunct std search =
     (if IsBareHexID search
      then (let id = uLower std (TrimSpace search) in
            (''(multiSearchAnyCaseInsensitive(body, [?]) OR trace_id = ? OR span_id = ?)'',
             [AStr search, AStr id, AStr id]))
      else (''multiSearchAnyCaseInsensitive(body, [?])'', [AStr search]))"

definition LogQuerySyntaxError :: "string \<Rightarrow> pfail option" where
  "LogQuerySyntaxError search = (case Parse search of Inl e \<Rightarrow> Some e | Inr _ \<Rightarrow> None)"

definition warnSeen :: "string set \<Rightarrow> string \<Rightarrow> string set" where
  "warnSeen seen search =
     (if search \<in> seen then seen
      else insert search (if card seen > 256 then {} else seen))"

definition LogSearchConjunct :: "'f gostd \<Rightarrow> string set \<Rightarrow> string \<Rightarrow> string set \<times> ('f, string) sql" where
  "LogSearchConjunct std seen search =
     (if TrimSpace search = [] then (seen, [], [])
      else case Parse search of
        Inl _ \<Rightarrow> (warnSeen seen search, logSearchConjunct std search)
      | Inr e \<Rightarrow>
          (let q = Compile std (LogQueryTarget std) e in
           if fst q = [] then (seen, [], []) else (seen, q)))"

section \<open>The logs table satisfies the compiler's contract\<close>

lemma qmarks_constants:
  "qmarks LogsClusterChainSQL = 0" "qmarks logsEnvChainSQL = 0" "qmarks logsPodChainSQL = 0"
  "qmarks namespaceExpr = 0" "qmarks logsSeverityTextSQL = 0" "qmarks logsAttrLookupSQL = 2"
  by code_simp+

lemma logResolve_args:
  "qmarks (RExpr (logResolve std f)) = length (RArgs (logResolve std f))"
  "qmarks (ExistsExpr (logResolve std f)) = length (ExistsArgs (logResolve std f))"
  by (simp_all add: logResolve_def Let_def plainRef_def qmarks_constants sqlStr_def
      del: list.set(2) cong: if_cong)

lemma logIDColumns_args: "c \<in> set (logIDColumns v) \<Longrightarrow> qmarks c = 0"
  by (auto simp: logIDColumns_def split: if_splits)

interpretation logs: schema "LogQueryTarget std" for std
  by unfold_locales (simp_all add: LogQueryTarget_def logResolve_args logIDColumns_args)

lemma compareSQL_nonempty [simp]: "fst (compareSQL std r op v) \<noteq> []"
  by (cases "RKind r") (auto simp: compareSQL_def Let_def split: option.splits)

lemma matchSQL_nonempty [simp]: "fst (matchSQL std r v p w) \<noteq> []"
  by (cases "RKind r") (auto simp: matchSQL_def Let_def split: option.splits)

lemma freeText_nonempty [simp]: "fst (freeText std t c) \<noteq> []"
  by (simp add: freeText_def Let_def)

lemma exprSQL_nonempty: "fst (exprSQL std t e) \<noteq> []"
proof (cases e)
  case (KindClause c)
  then show ?thesis by (cases "Oper c") (simp_all add: clauseSQL_def Let_def)
qed (simp_all add: Let_def)

section \<open>Properties\<close>

lemma logSearch_balanced:
  "qmarks (fst (snd (LogSearchConjunct std seen search))) = length (snd (snd (LogSearchConjunct std seen search)))"
  using logs.balanced_Compile [of std std]
  by (auto simp: LogSearchConjunct_def logSearchConjunct_def balanced_def Let_def split: sum.splits)

text \<open>
  C25. Whatever is typed into the log search, the SQL fragment sent to ClickHouse has exactly one
  \<open>?\<close> for each argument bound to it: no argument is lost and no placeholder stays unbound, on the
  parsed path, on the fall-back path and for a blank text.
\<close>

theorem LogSearchConjunct_binds:
  "qmarks (fst (snd (LogSearchConjunct std seen search))) = length (snd (snd (LogSearchConjunct std seen search)))"
  by (rule logSearch_balanced)

text \<open>
  Two searches that differ in the texts that are bound only. Both trees have the same structure, operators and flags, their fields are resolved to the
  same column or lookup, and their values are of the same class: both numbers or both not, both the form of an identifier or both not, bounds of a
  range present in both or in none. Two texts that do not parse, and are both searched for literally, are alike if both or none has the form of an
  identifier; blank texts are alike.
\<close>

definition alikeSearch :: "'f gostd \<Rightarrow> string \<Rightarrow> string \<Rightarrow> bool" where
  "alikeSearch std s s' \<longleftrightarrow>
     (case (Parse s, Parse s') of
        (Inr (Some e), Inr (Some e')) \<Rightarrow> alike std (LogQueryTarget std) e e'
      | (Inr None, Inr None) \<Rightarrow> True
      | (Inl _, Inl _) \<Rightarrow> IsBareHexID s = IsBareHexID s'
      | _ \<Rightarrow> False)"

text \<open>
  C24. No user text reaches the SQL string. Two searches that are alike in the sense above, parsed or not, produce the same SQL text and the same
  number of bound arguments: whatever else the user typed is in the arguments only.
\<close>

theorem LogSearchConjunct_text:
  assumes "alikeSearch std s s'"
  shows "fst (snd (LogSearchConjunct std seen s)) = fst (snd (LogSearchConjunct std seen s')) \<and>
    length (snd (snd (LogSearchConjunct std seen s))) = length (snd (snd (LogSearchConjunct std seen s')))"
proof -
  have blank: "TrimSpace u \<noteq> []" if "Parse u \<noteq> Inr None" for u using that by (auto simp: Parse_def split: if_splits)
  have eq: "fst (snd (LogSearchConjunct std seen s)) = fst (snd (LogSearchConjunct std seen s'))"
  proof (cases "Parse s")
    case (Inl e)
    then obtain e' where "Parse s' = Inl e'" "IsBareHexID s = IsBareHexID s'"
      using assms by (auto simp: alikeSearch_def split: sum.splits option.splits)
    then show ?thesis using Inl blank [of s] blank [of s'] by (simp add: LogSearchConjunct_def logSearchConjunct_def Let_def)
  next
    case (Inr r)
    show ?thesis
    proof (cases r)
      case None
      then have "Parse s' = Inr None" using Inr assms by (auto simp: alikeSearch_def split: sum.splits option.splits)
      then show ?thesis using Inr None by (simp add: LogSearchConjunct_def Compile_def Let_def)
    next
      case (Some e)
      then obtain e' where "Parse s' = Inr (Some e')" "alike std (LogQueryTarget std) e e'"
        using Inr assms by (auto simp: alikeSearch_def split: sum.splits option.splits)
      then show ?thesis using Inr Some blank [of s] blank [of s'] exprSQL_text [of std "LogQueryTarget std" e e']
        by (simp add: LogSearchConjunct_def Compile_def Let_def exprSQL_nonempty)
    qed
  qed
  then show ?thesis using logSearch_balanced [of std seen s] logSearch_balanced [of std seen s'] by simp
qed

definition asciiStd :: "string gostd" where
  "asciiStd = \<lparr>ParseFloat = (\<lambda>s. if s \<noteq> [] \<and> list_all (\<lambda>c. c \<in> set ''0123456789'') s then Some s else None),
     uLower = ToLower\<rparr>"

definition phraseProbe :: string where
  "phraseProbe = ''app:'' @ [CHR 0x22] @ ''web'' @ [CHR 0x22]"

definition quoteProbe :: string where
  "quoteProbe = ''svc:'' @ [CHR 0x22, CHR 0x27] @ '' OR 1=1'' @ [CHR 0x22]"

definition openProbe :: string where "openProbe = ''app:('' @ [CHR 0x27] @ '' OR 1=1''"

theorem LogSearchConjunct_text_witness:
  "fst (snd (LogSearchConjunct asciiStd {} phraseProbe)) = fst (snd (LogSearchConjunct asciiStd {} quoteProbe)) \<and> phraseProbe \<noteq> quoteProbe \<and>
   fst (snd (LogSearchConjunct asciiStd {} openProbe)) = fst (snd (LogSearchConjunct asciiStd {} ''(''))"
proof -
  have "alikeSearch asciiStd phraseProbe quoteProbe" "alikeSearch asciiStd openProbe ''(''" by code_simp+
  from this [THEN LogSearchConjunct_text [where seen = "{}"]] show ?thesis by (simp add: phraseProbe_def quoteProbe_def)
qed

text \<open>
  The search never widens silently: the predicate is empty exactly for a blank text. A text that
  does not parse is searched for literally in the body, as one bound argument equal to the text.
\<close>

theorem LogSearchConjunct_outcome:
  "(fst (snd (LogSearchConjunct std seen search)) = [] \<longleftrightarrow> TrimSpace search = []) \<and>
   (LogQuerySyntaxError search = None \<or>
    (\<exists>rest. snd (snd (LogSearchConjunct std seen search)) = AStr search # rest \<and>
       length rest = (if IsBareHexID search then 2 else 0)))"
proof (cases "Parse search")
  case (Inl e)
  moreover from Inl have "TrimSpace search \<noteq> []" by (auto simp: Parse_def)
  ultimately show ?thesis by (simp add: LogSearchConjunct_def logSearchConjunct_def Let_def)
next
  case (Inr r)
  moreover have "TrimSpace search = [] \<longleftrightarrow> r = None"
    using Inr by (auto simp: Parse_def split: if_splits sum.splits)
  ultimately show ?thesis
    by (cases r) (simp_all add: LogSearchConjunct_def LogQuerySyntaxError_def Compile_def Let_def exprSQL_nonempty)
qed

text \<open>
  The set of texts already warned about stays bounded: after any sequence of searches it holds at
  most 257 texts.
\<close>

theorem warnSeen_bounded:
  "card (foldl (\<lambda>seen s. fst (LogSearchConjunct std seen s)) {} searches) \<le> 257"
proof -
  let ?step = "\<lambda>seen s. fst (LogSearchConjunct std seen s)"
  have step: "finite (?step seen s) \<and> card (?step seen s) \<le> 257" if "finite seen" "card seen \<le> 257" for seen s
    using that
    by (auto simp: LogSearchConjunct_def warnSeen_def Let_def card_insert_if split: sum.splits)
  have "finite (foldl ?step {} searches) \<and> card (foldl ?step {} searches) \<le> 257"
    by (induction searches rule: rev_induct) (simp_all add: step)
  then show ?thesis by simp
qed

end
