(* ===== verification/GoInt.thy ===== *)
theory GoInt
  imports Prelude "HOL-Library.Word"
begin

text \<open>
  Go's \<open>int\<close> on the 64-bit platforms the program is built for, and its decimal notation: wrap-around
  of arithmetic, \<open>strconv.Itoa\<close> (also the verb \<open>%d\<close>) and \<open>strconv.Atoi\<close>. Values are HOL integers;
  \<open>wrap64\<close> is applied where an operation may leave the range.
\<close>

section \<open>64-bit arithmetic\<close>

definition wrap64 :: "int \<Rightarrow> int" where
  "wrap64 x = sint (word_of_int x :: 64 word)"

definition in64 :: "int \<Rightarrow> bool" where
  "in64 x \<longleftrightarrow> - (2 ^ 63) \<le> x \<and> x < 2 ^ 63"

lemma wrap64_in64: "in64 (wrap64 x)"
  using sint_range_size [of "word_of_int x :: 64 word"] by (simp add: wrap64_def in64_def word_size)

lemma wrap64_id: "in64 x \<Longrightarrow> wrap64 x = x"
  by (simp add: wrap64_def in64_def signed_of_int signed_take_bit_int_eq_self)

lemma wrap64_cong: "wrap64 x mod 2 ^ 64 = x mod 2 ^ 64"
proof -
  have "take_bit 64 (signed_take_bit 63 x) = take_bit 64 x" by (rule take_bit_signed_take_bit) simp
  then show ?thesis by (simp add: wrap64_def signed_of_int take_bit_eq_mod)
qed

section \<open>Decimal notation\<close>

definition digit :: "nat \<Rightarrow> char" where
  "digit d = char_of (48 + d)"

definition isDigit :: "char \<Rightarrow> bool" where
  "isDigit c \<longleftrightarrow> 48 \<le> byte c \<and> byte c \<le> 57"

fun natDec :: "nat \<Rightarrow> string" where
  "natDec n = (if n < 10 then [digit n] else natDec (n div 10) @ [digit (n mod 10)])"

declare natDec.simps [simp del]

definition itoa :: "int \<Rightarrow> string" where
  "itoa x = (if x < 0 then ''-'' @ natDec (nat (- x)) else natDec (nat x))"

definition decVal :: "string \<Rightarrow> nat" where
  "decVal s = foldl (\<lambda>n c. 10 * n + (byte c - 48)) 0 s"

definition Atoi :: "string \<Rightarrow> int option" where
  "Atoi s =
     (let neg = HasPrefix s ''-''; ds = (if neg \<or> HasPrefix s ''+'' then tl s else s);
          v = (if neg then - int (decVal ds) else int (decVal ds)) in
      if ds \<noteq> [] \<and> list_all isDigit ds \<and> in64 v then Some v else None)"

lemma digit_props: "d < 10 \<Longrightarrow> isDigit (digit d) \<and> byte (digit d) = 48 + d"
  by (simp add: digit_def isDigit_def)

lemma decVal_snoc: "decVal (s @ [c]) = 10 * decVal s + (byte c - 48)"
  by (simp add: decVal_def)

lemma natDec_props: "natDec n \<noteq> [] \<and> list_all isDigit (natDec n) \<and> decVal (natDec n) = n"
proof (induction n rule: natDec.induct)
  case (1 n)
  show ?case
  proof (cases "n < 10")
    case True
    then show ?thesis
      by (simp add: natDec.simps [of n] digit_props decVal_snoc [of "[]", simplified]) (simp add: decVal_def)
  next
    case False
    with 1 show ?thesis by (simp add: natDec.simps [of n] decVal_snoc digit_props)
  qed
qed

lemma natDec_hd: "isDigit (hd (natDec n))"
  using natDec_props [of n] by (cases "natDec n") auto

lemma digit_no_sign:
  assumes "list_all isDigit s"
  shows "\<not> HasPrefix s ''-''" "\<not> HasPrefix s ''+''"
  using assms by (cases s; auto simp: HasPrefix_def isDigit_def)+

lemma Atoi_itoa: "in64 x \<Longrightarrow> Atoi (itoa x) = Some x"
  using natDec_props digit_no_sign [of "natDec (nat x)"]
  by (auto simp: Atoi_def itoa_def Let_def HasPrefix_def)

lemma itoa_inj: "in64 x \<Longrightarrow> in64 y \<Longrightarrow> itoa x = itoa y \<Longrightarrow> x = y"
  by (metis Atoi_itoa option.inject)

lemma itoa_nat_inj: "itoa (int m) = itoa (int n) \<longleftrightarrow> m = n"
proof
  assume "itoa (int m) = itoa (int n)"
  then have "decVal (natDec m) = decVal (natDec n)" by (simp add: itoa_def)
  then show "m = n" using natDec_props by metis
qed simp

lemma Atoi_in64: "Atoi s = Some x \<Longrightarrow> in64 x"
  by (auto simp: Atoi_def Let_def split: if_splits)

end
