(* ===== verification/DQL.thy ===== *)
theory DQL
  imports GoInt
begin

text \<open>
  The piped query language (\<open>internal/dql/dql.go\<close>): splitting a query into steps, the handlers that
  apply a step to a plan, \<open>Compile\<close>, and the SQL preview. A plan is a record returned updated; an
  error of a handler ends the compilation, so the plan is not kept with it. Error texts are the
  constructors of \<open>dqlErr\<close>. \<open>strings.ToLower\<close> is an argument where the code passes user text to it,
  because Unicode lower-casing may change the length of a string; a slice out of range is
  \<open>DPanic\<close>.
\<close>

section \<open>Library functions\<close>

definition LastIndexByte :: "string \<Rightarrow> char \<Rightarrow> nat option" where
  "LastIndexByte s b = map_option (\<lambda>i. length s - 1 - i) (IndexByte (rev s) b)"

definition ReplaceByte :: "string \<Rightarrow> char \<Rightarrow> string \<Rightarrow> string" where
  "ReplaceByte s b r = concat (map (\<lambda>c. if c = b then r else [c]) s)"

section \<open>Plans\<close>

datatype Table = TableSpans | TableMetrics | TableLogs

record FilterExpr =
  FKey :: string
  FOp :: string
  FValues :: "string list"

record Plan =
  PTable :: Table
  Filters :: "FilterExpr list"
  Aggregation :: string
  AggField :: string
  MetricName :: string
  StepSeconds :: int
  GroupBy :: "string list"
  JoinTarget :: "Table option"
  JoinKey :: string
  SourceFilters :: "FilterExpr list"

definition emptyPlan :: "Table \<Rightarrow> Plan" where
  "emptyPlan t = \<lparr>PTable = t, Filters = [], Aggregation = [], AggField = [], MetricName = [],
     StepSeconds = 0, GroupBy = [], JoinTarget = None, JoinKey = [], SourceFilters = []\<rparr>"

datatype durErr = EmptyDuration | BadDuration string | UnknownUnit char

datatype dqlErr =
    EmptyQuery | NoTable | MetricsNoName | MetricsNeedsName | UnknownTable string
  | StepErr nat string dqlErr | UnknownOperator string
  | OneJoin | JoinNoTarget | UnknownJoinTarget string | JoinKeyUnsupported string
  | FilterSyntax | NoOperator string
  | SummarizeSyntax | AggShape string | AggNeedsField string | UnknownAgg string
  | BinDuration durErr | MultipleBins

datatype dqlFail = DErr dqlErr | DPanic

section \<open>Splitting\<close>

fun splitPipes_loop :: "char option \<Rightarrow> string \<Rightarrow> string \<Rightarrow> string list" where
  "splitPipes_loop q cur [] = (if cur = [] then [] else [cur])"
| "splitPipes_loop q cur (c # s) =
     (if q = None \<and> (c = CHR 0x27 \<or> c = CHR 0x22) then splitPipes_loop (Some c) (cur @ [c]) s
      else if q = Some c then splitPipes_loop None (cur @ [c]) s
      else if q = None \<and> c = CHR ''|'' then cur # splitPipes_loop None [] s
      else splitPipes_loop q (cur @ [c]) s)"

definition splitPipes :: "string \<Rightarrow> string list" where
  "splitPipes s = splitPipes_loop None [] s"

fun splitComma_loop :: "nat \<Rightarrow> string \<Rightarrow> string \<Rightarrow> string list" where
  "splitComma_loop depth cur [] = (if cur = [] then [] else [cur])"
| "splitComma_loop depth cur (c # s) =
     (if c = CHR ''('' then splitComma_loop (depth + 1) (cur @ [c]) s
      else if c = CHR '')'' then splitComma_loop (depth - 1) (cur @ [c]) s
      else if c = CHR '','' \<and> depth = 0 then cur # splitComma_loop depth [] s
      else splitComma_loop depth (cur @ [c]) s)"

definition splitByCommaTopLevel :: "string \<Rightarrow> string list" where
  "splitByCommaTopLevel s = splitComma_loop 0 [] s"

section \<open>Values\<close>

definition parseDuration :: "string \<Rightarrow> durErr + int" where
  "parseDuration s0 =
     (let s = TrimSpace s0 in
      if s = [] then Inl EmptyDuration
      else
        (let unit = List.last s in
         case Atoi (butlast s) of
           None \<Rightarrow> Inl (BadDuration s)
         | Some n \<Rightarrow>
             if unit = CHR ''s'' then Inr n
             else if unit = CHR ''m'' then Inr (wrap64 (n * 60))
             else if unit = CHR ''h'' then Inr (wrap64 (n * 3600))
             else if unit = CHR ''d'' then Inr (wrap64 (n * 86400))
             else Inl (UnknownUnit unit)))"

definition unquote :: "string \<Rightarrow> string" where
  "unquote s0 =
     (let s = TrimSpace s0 in
      if length s \<ge> 2 \<and> (hd s = CHR 0x22 \<or> hd s = CHR 0x27) \<and> List.last s = hd s
      then butlast (tl s) else s)"

definition firstWord :: "string \<Rightarrow> string" where
  "firstWord s = (case IndexByte s (CHR '' '') of Some i \<Rightarrow> if i > 0 then take i s else s | None \<Rightarrow> s)"

section \<open>Steps\<close>

definition filterOps :: "(string \<times> string) list" where
  "filterOps =
     [(''=='', ''=''), (''!='', ''!=''), (''contains'', ''LIKE''), (''startswith'', ''LIKE''),
      (''endswith'', ''LIKE''), (''>='', ''>=''), (''<='', ''<=''), (''>'', ''>''), (''<'', ''<'')]"

definition filterValue :: "string \<Rightarrow> string \<Rightarrow> string" where
  "filterValue token val =
     (if token = ''contains'' then ''%'' @ val @ ''%''
      else if token = ''startswith'' then val @ ''%''
      else if token = ''endswith'' then ''%'' @ val
      else val)"

fun filter_loop :: "(string \<times> string) list \<Rightarrow> string \<Rightarrow> FilterExpr option" where
  "filter_loop [] expr = None"
| "filter_loop ((token, fop) # ops) expr =
     (case Index expr token of
        None \<Rightarrow> filter_loop ops expr
      | Some idx \<Rightarrow>
          Some \<lparr>FKey = TrimSpace (take idx expr), FOp = fop,
                FValues = [filterValue token (unquote (TrimSpace (drop (idx + length token) expr)))]\<rparr>)"

definition parseFilter :: "Plan \<Rightarrow> string \<Rightarrow> dqlFail + Plan" where
  "parseFilter plan expr0 =
     (let expr = TrimSpace expr0 in
      if expr = [] then Inl (DErr FilterSyntax)
      else case filter_loop filterOps expr of
        Some f \<Rightarrow> Inr (plan\<lparr>Filters := Filters plan @ [f]\<rparr>)
      | None \<Rightarrow> Inl (DErr (NoOperator expr)))"

definition tableOf :: "string \<Rightarrow> Table option" where
  "tableOf s =
     (if s = ''spans'' then Some TableSpans else if s = ''metrics'' then Some TableMetrics
      else if s = ''logs'' then Some TableLogs else None)"

definition joinKeys :: "string list" where
  "joinKeys = [''trace.id'', ''trace_id'', ''traceId'']"

definition parseJoin :: "Plan \<Rightarrow> string \<Rightarrow> dqlFail + Plan" where
  "parseJoin plan expr =
     (if JoinTarget plan \<noteq> None then Inl (DErr OneJoin)
      else
        (let tokens = Fields expr in
         if tokens = [] then Inl (DErr JoinNoTarget)
         else case tableOf (tokens ! 0) of
           None \<Rightarrow> Inl (DErr (UnknownJoinTarget (tokens ! 0)))
         | Some t \<Rightarrow>
             (let key = (if length tokens \<ge> 3 \<and> tokens ! 1 = ''on'' then tokens ! 2 else ''trace.id'') in
              if key \<notin> set joinKeys
              then Inl (DErr (JoinKeyUnsupported key))
              else Inr (plan\<lparr>SourceFilters := Filters plan, Filters := [], JoinTarget := Some t,
                             JoinKey := ''trace.id''\<rparr>))))"

definition fieldAggs :: "string list" where
  "fieldAggs = [''p50'', ''p95'', ''p99'', ''avg'', ''max'', ''min'']"

definition plainAggs :: "string list" where
  "plainAggs = [''count'', ''rate'', ''error_rate'']"

definition parseAgg :: "(string \<Rightarrow> string) \<Rightarrow> Plan \<Rightarrow> string \<Rightarrow> dqlFail + Plan" where
  "parseAgg lower plan aggPart =
     (let low = lower aggPart in
      if low = ''count()'' then Inr (plan\<lparr>Aggregation := ''count''\<rparr>)
      else if low = ''rate()'' then Inr (plan\<lparr>Aggregation := ''rate''\<rparr>)
      else if low = ''error_rate()'' then Inr (plan\<lparr>Aggregation := ''error_rate''\<rparr>)
      else if list_ex (\<lambda>a. HasPrefix low (a @ ''('')) fieldAggs then
        (case (IndexByte aggPart (CHR ''(''), LastIndexByte aggPart (CHR '')'')) of
           (Some opn, Some cls) \<Rightarrow>
             if cls \<le> opn then Inl (DErr (AggShape aggPart))
             else
               (let agg = lower (take opn aggPart);
                    fld = TrimSpace (take (cls - (opn + 1)) (drop (opn + 1) aggPart)) in
                if fld = [] then Inl (DErr (AggNeedsField agg))
                else Inr (plan\<lparr>Aggregation := agg, AggField := fld\<rparr>))
         | _ \<Rightarrow> Inl (DErr (AggShape aggPart)))
      else Inl (DErr (UnknownAgg aggPart)))"

fun byLoop :: "Plan \<Rightarrow> string list \<Rightarrow> dqlFail + Plan" where
  "byLoop plan [] = Inr plan"
| "byLoop plan (raw # parts) =
     (let tok = TrimSpace raw in
      if tok = [] then byLoop plan parts
      else if HasPrefix tok ''bin(time,'' then
        (case parseDuration (TrimSpace (TrimSuffix (TrimPrefix tok ''bin(time,'') '')'')) of
           Inl e \<Rightarrow> Inl (DErr (BinDuration e))
         | Inr secs \<Rightarrow>
             if StepSeconds plan \<noteq> 0 then Inl (DErr MultipleBins)
             else byLoop (plan\<lparr>StepSeconds := secs\<rparr>) parts)
      else byLoop (plan\<lparr>GroupBy := GroupBy plan @ [tok]\<rparr>) parts)"

definition parseSummarize :: "(string \<Rightarrow> string) \<Rightarrow> Plan \<Rightarrow> string \<Rightarrow> dqlFail + Plan" where
  "parseSummarize lower plan expr0 =
     (let expr = TrimSpace expr0 in
      if expr = [] then Inl (DErr SummarizeSyntax)
      else
        (let parts = (case Index (lower expr) '' by '' of
             Some i \<Rightarrow> if i + 4 \<le> length expr
                       then Some (TrimSpace (take i expr), TrimSpace (drop (i + 4) expr)) else None
           | None \<Rightarrow> Some (expr, [])) in
         case parts of
           None \<Rightarrow> Inl DPanic
         | Some (aggPart, byPart) \<Rightarrow>
             (case parseAgg lower plan aggPart of
                Inl e \<Rightarrow> Inl e
              | Inr plan' \<Rightarrow>
                  if byPart \<noteq> [] then byLoop plan' (splitByCommaTopLevel byPart) else Inr plan')))"

definition applyStep :: "(string \<Rightarrow> string) \<Rightarrow> Plan \<Rightarrow> string \<Rightarrow> dqlFail + Plan" where
  "applyStep lower plan step =
     (if HasPrefix step ''filter'' then parseFilter plan (TrimSpace (TrimPrefix step ''filter''))
      else if HasPrefix step ''where'' then parseFilter plan (TrimSpace (TrimPrefix step ''where''))
      else if HasPrefix step ''summarize''
      then parseSummarize lower plan (TrimSpace (TrimPrefix step ''summarize''))
      else if HasPrefix step ''join'' then parseJoin plan (TrimSpace (TrimPrefix step ''join''))
      else Inl (DErr (UnknownOperator (firstWord step))))"

section \<open>Compile\<close>

fun stepsLoop :: "(string \<Rightarrow> string) \<Rightarrow> Plan \<Rightarrow> nat \<Rightarrow> string list \<Rightarrow> dqlFail + Plan" where
  "stepsLoop lower plan i [] = Inr plan"
| "stepsLoop lower plan i (s # steps) =
     (let step = TrimSpace s in
      if step = [] then stepsLoop lower plan (i + 1) steps
      else case applyStep lower plan step of
        Inl (DErr e) \<Rightarrow> Inl (DErr (StepErr i step e))
      | Inl DPanic \<Rightarrow> Inl DPanic
      | Inr plan' \<Rightarrow> stepsLoop lower plan' (i + 1) steps)"

definition startPlan :: "string \<Rightarrow> dqlErr + Plan" where
  "startPlan tbl =
     (if tbl = ''spans'' then Inr (emptyPlan TableSpans)
      else if tbl = ''metrics'' then Inl MetricsNoName
      else if tbl = ''logs'' then Inr (emptyPlan TableLogs)
      else if HasPrefix tbl ''metrics '' then
        (let name = TrimSpace (TrimPrefix tbl ''metrics'') in
         if name = [] then Inl MetricsNeedsName
         else Inr ((emptyPlan TableMetrics)\<lparr>MetricName := name\<rparr>))
      else Inl (UnknownTable tbl))"

definition CompileDQL :: "(string \<Rightarrow> string) \<Rightarrow> string \<Rightarrow> dqlFail + Plan" where
  "CompileDQL lower q0 =
     (let q = TrimSpace q0 in
      if q = [] then Inl (DErr EmptyQuery)
      else
        (let steps = splitPipes q in
         if steps = [] then Inl (DErr NoTable)
         else case startPlan (TrimSpace (steps ! 0)) of
           Inl e \<Rightarrow> Inl (DErr e)
         | Inr plan \<Rightarrow>
             (case stepsLoop lower plan 1 (tl steps) of
                Inl e \<Rightarrow> Inl e
              | Inr p \<Rightarrow> Inr (if Aggregation p = [] then p\<lparr>Aggregation := ''count''\<rparr> else p))))"

section \<open>SQL preview\<close>

definition sqlAlias :: "string \<Rightarrow> string" where
  "sqlAlias k = ReplaceByte k (CHR ''.'') ''_''"

definition escapeSQL :: "string \<Rightarrow> string" where
  "escapeSQL s = ReplaceByte s (CHR 0x27) [CHR 0x27, CHR 0x27]"

definition firstString :: "string list \<Rightarrow> string" where
  "firstString v = (case v of [] \<Rightarrow> [] | x # _ \<Rightarrow> x)"

definition aggToSQLFragment :: "string \<Rightarrow> string \<Rightarrow> string" where
  "aggToSQLFragment agg field0 =
     (let field = (if field0 = [] then ''duration_ms'' else field0) in
      if agg = ''count'' then ''count()''
      else if agg = ''rate'' then ''count() / 60.0''
      else if agg = ''error_rate''
      then ''countIf(status_code = '' @ [CHR 0x27] @ ''error'' @ [CHR 0x27] @ '') / count()''
      else if agg = ''avg'' then ''avg('' @ field @ '')''
      else if agg = ''max'' then ''max('' @ field @ '')''
      else if agg = ''min'' then ''min('' @ field @ '')''
      else if agg = ''p50'' then ''quantile(0.5)('' @ field @ '')''
      else if agg = ''p95'' then ''quantile(0.95)('' @ field @ '')''
      else if agg = ''p99'' then ''quantile(0.99)('' @ field @ '')''
      else agg @ ''('' @ field @ '')'')"

definition quoteSQL :: "string \<Rightarrow> string" where
  "quoteSQL s = [CHR 0x27] @ s @ [CHR 0x27]"

definition previewHead :: "Plan \<Rightarrow> string \<Rightarrow> string" where
  "previewHead p aggField =
     (let secs = (if StepSeconds p \<le> 0 then 60 else StepSeconds p) in
      ''SELECT toStartOfInterval(time, INTERVAL '' @ itoa secs @ '' SECOND) AS bucket'' @
      concat (map (\<lambda>g. '','' @ [CHR 0x0A] @ ''       '' @ g @ '' AS '' @ sqlAlias g) (GroupBy p)) @
      '','' @ [CHR 0x0A] @ ''       '' @ aggToSQLFragment (Aggregation p) aggField @ '' AS value'' @ [CHR 0x0A])"

definition previewTail :: "Plan \<Rightarrow> string \<Rightarrow> string \<Rightarrow> string" where
  "previewTail p fromS toS =
     ''time >= '' @ quoteSQL fromS @ '' AND time <= '' @ quoteSQL toS @
     concat (map (\<lambda>f. [CHR 0x0A] @ ''  AND '' @ FKey f @ '' '' @ FOp f @ '' '' @
       quoteSQL (escapeSQL (firstString (FValues f)))) (Filters p)) @
     [CHR 0x0A] @ ''GROUP BY bucket'' @
     concat (map (\<lambda>g. '', '' @ sqlAlias g) (GroupBy p)) @
     [CHR 0x0A] @ ''ORDER BY bucket'' @ [CHR 0x0A] @ ''SETTINGS max_execution_time = 25''"

text \<open>The two instants come formatted in UTC by \<open>time.Format\<close>.\<close>

definition SQLPreview :: "Plan \<Rightarrow> string \<Rightarrow> string \<Rightarrow> string" where
  "SQLPreview p fromS toS =
     (case PTable p of
        TableSpans \<Rightarrow>
          previewHead p (AggField p) @ ''FROM spans'' @ [CHR 0x0A] @ ''WHERE '' @ previewTail p fromS toS
      | TableMetrics \<Rightarrow>
          previewHead p ''value'' @ ''FROM metric_points'' @ [CHR 0x0A] @ ''WHERE metric = '' @
          quoteSQL (escapeSQL (MetricName p)) @ '' AND '' @ previewTail p fromS toS
      | TableLogs \<Rightarrow> [])"

section \<open>Lemmas on splitting\<close>

lemma splitPipes_loop_Nil: "splitPipes_loop q cur s = [] \<longleftrightarrow> cur = [] \<and> s = []"
  by (induction q cur s rule: splitPipes_loop.induct) auto

lemma splitPipes_loop_Join:
  "cur @ s = Join (splitPipes_loop q cur s) ''|'' \<or> cur @ s = Join (splitPipes_loop q cur s) ''|'' @ ''|''"
proof (induction q cur s rule: splitPipes_loop.induct)
  case (2 q cur c s)
  show ?case
  proof (cases "q = None \<and> c = CHR ''|''")
    case True
    with 2 show ?thesis
      by (cases "s = []") (auto simp: Join_Cons splitPipes_loop_Nil)
  next
    case False
    with 2 show ?thesis by (auto split: if_splits)
  qed
qed auto

text \<open>The quote state after a piece of text without a top-level pipe; \<open>None\<close> if it has one.\<close>

fun quoteState :: "char option \<Rightarrow> string \<Rightarrow> char option option" where
  "quoteState q [] = Some q"
| "quoteState q (c # s) =
     (if q = None \<and> (c = CHR 0x27 \<or> c = CHR 0x22) then quoteState (Some c) s
      else if q = Some c then quoteState None s
      else if q = None \<and> c = CHR ''|'' then None
      else quoteState q s)"

lemma quoteState_append: "quoteState q (s @ s') = Option.bind (quoteState q s) (\<lambda>r. quoteState r s')"
  by (induction q s rule: quoteState.induct) auto

lemma splitPipes_loop_segments:
  assumes "quoteState None cur = Some q" and "seg \<in> set (splitPipes_loop q cur s)"
  shows "quoteState None seg \<noteq> None"
  using assms
proof (induction q cur s rule: splitPipes_loop.induct)
  case (2 q cur c s)
  have *: "quoteState None (cur @ [c]) = quoteState q [c]" using "2.prems" by (simp add: quoteState_append)
  consider "q = None \<and> (c = CHR 0x27 \<or> c = CHR 0x22)"
    | "\<not> (q = None \<and> (c = CHR 0x27 \<or> c = CHR 0x22))" "q = Some c"
    | "q = None \<and> c = CHR ''|''"
    | "\<not> (q = None \<and> (c = CHR 0x27 \<or> c = CHR 0x22))" "q \<noteq> Some c" "\<not> (q = None \<and> c = CHR ''|'')"
    by blast
  then show ?case
  proof cases
    case 3
    with "2.prems" "2.IH"(3) show ?thesis by auto
  next
    case 4
    then have "quoteState q [c] = Some q" by auto
    with 4 "2.prems" "2.IH"(4) * show ?thesis by (auto simp del: quoteState.simps split: if_splits)
  qed (use "2.prems" "2.IH" * in auto)
qed (auto split: if_splits)

lemma splitPipes_loop_whole:
  "quoteState q s \<noteq> None \<Longrightarrow> splitPipes_loop q cur s = (if cur @ s = [] then [] else [cur @ s])"
  by (induction q cur s rule: splitPipes_loop.induct) (auto split: if_splits)

section \<open>Plans\<close>

text \<open>What \<open>strings.ToLower\<close> does with a parenthesis, which has no case.\<close>

locale lowering =
  fixes lower :: "string \<Rightarrow> string"
  assumes lower_paren: "lower (a @ CHR ''('' # b) = lower a @ CHR ''('' # lower b"
    and lower_no_paren: "CHR ''('' \<notin> set a \<Longrightarrow> CHR ''('' \<notin> set (lower a)"
begin

lemma lower_agg_prefix:
  assumes "HasPrefix (lower s) (a @ ''('')" and "IndexByte s (CHR ''('') = Some i" and "CHR ''('' \<notin> set a"
  shows "lower (take i s) = a"
proof -
  have "IndexByte s c = Some i \<Longrightarrow> s = take i s @ c # drop (Suc i) s \<and> c \<notin> set (take i s)" for c
    by (induction s arbitrary: i) (auto split: if_splits)
  with assms(2) have s: "s = take i s @ CHR ''('' # drop (Suc i) s" and no: "CHR ''('' \<notin> set (take i s)"
    by auto
  have "lower s = lower (take i s) @ CHR ''('' # lower (drop (Suc i) s)"
    by (subst s) (rule lower_paren)
  moreover obtain r where "lower s = a @ CHR ''('' # r"
    using assms(1) by (auto simp: HasPrefix_iff_prefix prefix_def)
  moreover have "takeWhile (\<lambda>c. c \<noteq> CHR ''('') (xs @ CHR ''('' # ys) = xs" if "CHR ''('' \<notin> set xs" for xs ys
    using that by (intro takeWhile_append_stop) auto
  ultimately show ?thesis using lower_no_paren [OF no] assms(3) by metis
qed

lemma parseAgg_names:
  assumes "parseAgg lower plan aggPart = Inr p"
  shows "\<exists>a f. p = plan\<lparr>Aggregation := a, AggField := f\<rparr> \<and>
     (a \<in> set plainAggs \<and> f = AggField plan \<or> a \<in> set fieldAggs \<and> f \<noteq> [])"
proof -
  let ?low = "lower aggPart"
  show ?thesis
  proof (cases "?low \<in> set (map (\<lambda>a. a @ ''()'') plainAggs)")
    case True
    then obtain a where a: "a \<in> set plainAggs" "?low = a @ ''()''" by auto
    with assms have "p = plan\<lparr>Aggregation := a\<rparr>" by (auto simp: parseAgg_def plainAggs_def)
    with a show ?thesis by (intro exI [of _ a] exI [of _ "AggField plan"]) simp
  next
    case False
    then have no: "?low \<noteq> ''count()''" "?low \<noteq> ''rate()''" "?low \<noteq> ''error_rate()''"
      by (auto simp: plainAggs_def)
    show ?thesis
    proof (cases "list_ex (\<lambda>a. HasPrefix ?low (a @ ''('')) fieldAggs")
      case True
      then obtain a where a: "a \<in> set fieldAggs" "HasPrefix ?low (a @ ''('')" by (auto simp: list_ex_iff)
      from a have "CHR ''('' \<notin> set a" by (auto simp: fieldAggs_def)
      with a have "IndexByte aggPart (CHR ''('') = Some i \<Longrightarrow> lower (take i aggPart) = a" for i
        using lower_agg_prefix by blast
      with assms no True a show ?thesis
        by (fastforce simp: parseAgg_def Let_def split: option.splits if_splits)
    next
      case False
      with assms no show ?thesis by (simp add: parseAgg_def Let_def)
    qed
  qed
qed

end

definition dqlOps :: "string list" where
  "dqlOps = [''='', ''!='', ''LIKE'', ''>='', ''<='', ''>'', ''<'']"

definition filter_ok :: "FilterExpr \<Rightarrow> bool" where
  "filter_ok f \<longleftrightarrow> FOp f \<in> set dqlOps \<and> length (FValues f) = 1"

definition agg_ok :: "string \<Rightarrow> string \<Rightarrow> bool" where
  "agg_ok agg field \<longleftrightarrow> agg \<in> set plainAggs \<or> agg \<in> set fieldAggs \<and> field \<noteq> []"

definition plan_inv :: "Plan \<Rightarrow> bool" where
  "plan_inv p \<longleftrightarrow>
     (MetricName p \<noteq> [] \<longleftrightarrow> PTable p = TableMetrics) \<and>
     (Aggregation p = [] \<or> agg_ok (Aggregation p) (AggField p)) \<and>
     list_all filter_ok (Filters p) \<and> list_all filter_ok (SourceFilters p) \<and>
     in64 (StepSeconds p) \<and> list_all (\<lambda>g. g \<noteq> []) (GroupBy p) \<and>
     (JoinTarget p = None \<longrightarrow> SourceFilters p = [] \<and> JoinKey p = []) \<and>
     (JoinTarget p \<noteq> None \<longrightarrow> JoinKey p = ''trace.id'')"

lemma startPlan_inv: "startPlan t = Inr p \<Longrightarrow> plan_inv p"
  by (auto simp: startPlan_def emptyPlan_def plan_inv_def in64_def Let_def split: if_splits)

lemma filter_loop_ok:
  "filter_loop ops e = Some f \<Longrightarrow> snd ` set ops \<subseteq> set dqlOps \<Longrightarrow> filter_ok f"
  by (induction ops e rule: filter_loop.induct) (auto simp: filter_ok_def split: option.splits)

lemma filterOps_ok: "snd ` set filterOps \<subseteq> set dqlOps"
  by (simp add: filterOps_def dqlOps_def)

lemma parseFilter_inv: "plan_inv p \<Longrightarrow> parseFilter p e = Inr p' \<Longrightarrow> plan_inv p'"
  using filter_loop_ok [OF _ filterOps_ok]
  by (auto simp: parseFilter_def Let_def plan_inv_def split: if_splits option.splits)

lemma parseJoin_cases:
  assumes "parseJoin p e = Inr p'"
  obtains t where "JoinTarget p = None"
    and "p' = p\<lparr>SourceFilters := Filters p, Filters := [], JoinTarget := Some t, JoinKey := ''trace.id''\<rparr>"
  using assms by (auto simp: parseJoin_def Let_def split: if_split_asm option.split_asm)

lemma parseJoin_inv: "plan_inv p \<Longrightarrow> parseJoin p e = Inr p' \<Longrightarrow> plan_inv p'"
  by (erule parseJoin_cases) (simp add: plan_inv_def)

lemma parseDuration_in64: "parseDuration s = Inr n \<Longrightarrow> in64 n"
  by (auto simp: parseDuration_def Let_def wrap64_in64 split: if_splits option.splits dest: Atoi_in64)

lemma byLoop_inv: "plan_inv p \<Longrightarrow> byLoop p parts = Inr p' \<Longrightarrow> plan_inv p'"
proof (induction p parts rule: byLoop.induct)
  case (2 p raw parts)
  have "plan_inv (p\<lparr>StepSeconds := n\<rparr>)" if "parseDuration e = Inr n" for e n
    using 2(4) parseDuration_in64 [OF that] by (simp add: plan_inv_def)
  moreover have "plan_inv (p\<lparr>GroupBy := GroupBy p @ [t]\<rparr>)" if "t \<noteq> []" for t
    using 2(4) that by (simp add: plan_inv_def)
  ultimately show ?case using 2 by (auto simp: Let_def split: if_splits sum.splits)
qed simp

lemma parseSummarize_inv:
  assumes "lowering lower" and "plan_inv p" and "parseSummarize lower p e = Inr p'"
  shows "plan_inv p'"
proof -
  have "plan_inv q" if "parseAgg lower p a = Inr q" for a q
    using lowering.parseAgg_names [OF assms(1) that] assms(2) by (auto simp: plan_inv_def agg_ok_def)
  moreover from this have "plan_inv p'" if "parseAgg lower p a = Inr q" "byLoop q parts = Inr p'" for a q parts
    using that byLoop_inv by blast
  ultimately show ?thesis
    using assms(3)
    by (auto simp: parseSummarize_def Let_def split: if_splits sum.splits option.splits)
qed

lemma applyStep_inv:
  "lowering lower \<Longrightarrow> plan_inv p \<Longrightarrow> applyStep lower p s = Inr p' \<Longrightarrow> plan_inv p'"
  by (auto simp: applyStep_def split: if_splits
      intro: parseFilter_inv parseJoin_inv parseSummarize_inv)

lemma stepsLoop_inv:
  "stepsLoop lower p i ss = Inr p' \<Longrightarrow> lowering lower \<Longrightarrow> plan_inv p \<Longrightarrow> plan_inv p'"
  by (induction lower p i ss rule: stepsLoop.induct)
    (auto simp: Let_def intro: applyStep_inv split: if_splits sum.splits dqlFail.splits)

section \<open>Lower-casing\<close>

lemma ascii_lower_paren: "ascii_lower c = CHR ''('' \<longleftrightarrow> c = CHR ''(''"
proof
  assume "ascii_lower c = CHR ''(''"
  then have "byte (ascii_lower c) = byte (CHR ''('')" by (rule arg_cong)
  then have "byte c = byte (CHR ''('')" by (auto simp: ascii_lower_def split: if_splits)
  then show "c = CHR ''(''" by (simp only: of_char_eq_iff)
qed (simp add: ascii_lower_def)

interpretation ascii: lowering ToLower
proof unfold_locales
  show "CHR ''('' \<notin> set (ToLower a)" if "CHR ''('' \<notin> set a" for a
    using that by (metis ToLower_def ascii_lower_paren imageE set_map)
qed (simp add: ToLower_def ascii_lower_paren [THEN iffD2])

text \<open>Go's lower-casing on texts of ASCII letters and U+023A, whose lower case U+2C65 is one byte longer.\<close>

fun lowerStroke :: "string \<Rightarrow> string" where
  "lowerStroke [] = []"
| "lowerStroke (c # s) =
     (if c = CHR 0xC8 \<and> s \<noteq> [] \<and> hd s = CHR 0xBA then [CHR 0xE2, CHR 0xB1, CHR 0xA5] @ lowerStroke (tl s)
      else ascii_lower c # lowerStroke s)"

section \<open>Filters in order\<close>












section \<open>Panics\<close>

lemma parseSummarize_no_panic:
  assumes "\<And>s. length (lower s) = length s"
  shows "parseSummarize lower p e \<noteq> Inl DPanic"
proof -
  have "byLoop q parts \<noteq> Inl DPanic" for q parts
    by (induction q parts rule: byLoop.induct) (auto simp: Let_def split: if_splits sum.splits)
  moreover have "parseAgg lower q a \<noteq> Inl DPanic" for q a
    by (simp add: parseAgg_def Let_def split: option.splits)
  moreover have "i + 4 \<le> length s" if "Index (lower s) '' by '' = Some i" for s i
    using Index_SomeD [OF that] assms by simp
  ultimately show ?thesis
    by (fastforce simp: parseSummarize_def Let_def split: option.splits sum.splits if_splits)
qed

lemma applyStep_no_panic:
  assumes "\<And>s. length (lower s) = length s"
  shows "applyStep lower p s \<noteq> Inl DPanic"
  using parseSummarize_no_panic [OF assms]
  by (simp add: applyStep_def parseFilter_def parseJoin_def Let_def split: option.splits)

lemma stepsLoop_no_panic:
  assumes "\<And>s. length (lower s) = length s"
  shows "stepsLoop lower p i ss \<noteq> Inl DPanic"
proof (induction ss arbitrary: p i)
  case (Cons s ss)
  then show ?case using applyStep_no_panic [OF assms]
    by (auto simp: Let_def split: sum.splits dqlFail.splits)
qed simp

section \<open>SQL literals\<close>

text \<open>Reading a literal after its opening quote, two quotes standing for one.\<close>

fun readLit :: "string \<Rightarrow> (string \<times> string) option" where
  "readLit [] = None"
| "readLit (c # s) =
     (if c = CHR 0x27 then
        (case s of
           d # s' \<Rightarrow> if d = CHR 0x27 then map_option (apfst (Cons c)) (readLit s') else Some ([], s)
         | [] \<Rightarrow> Some ([], []))
      else map_option (apfst (Cons c)) (readLit s))"

lemma readLit_escape:
  assumes "r = [] \<or> hd r \<noteq> CHR 0x27"
  shows "readLit (escapeSQL v @ CHR 0x27 # r) = Some (v, r)"
proof (induction v)
  case Nil
  from assms show ?case by (cases r) (simp_all add: escapeSQL_def ReplaceByte_def)
next
  case (Cons c v)
  then show ?case by (simp add: escapeSQL_def ReplaceByte_def)
qed

section \<open>Properties\<close>

text \<open>
  The shape of every plan that \<open>Compile\<close> returns: a known aggregation, with a field where it needs
  one; a metric name exactly for the metrics table; filters with a known operator and one value; no
  empty group key; a step inside \<open>int\<close>; and source-side filters only under a join, on \<open>trace.id\<close>. (Whether a
  plan of this shape is run is decided later, in \<open>api/dql.go\<close>.)
\<close>

theorem CompileDQL_plan:
  assumes "lowering lower" and "CompileDQL lower q = Inr p"
  shows "plan_inv p \<and> agg_ok (Aggregation p) (AggField p)"
proof -
  from assms(2) obtain p0 p1 ss where "startPlan ss = Inr p0"
      and s: "stepsLoop lower p0 1 (tl (splitPipes (TrimSpace q))) = Inr p1"
      and p: "p = (if Aggregation p1 = [] then p1\<lparr>Aggregation := ''count''\<rparr> else p1)"
    by (auto simp: CompileDQL_def Let_def split: if_splits sum.splits)
  then have "plan_inv p1" using stepsLoop_inv [OF s assms(1)] startPlan_inv by blast
  with p show ?thesis by (auto simp: plan_inv_def agg_ok_def plainAggs_def)
qed

theorem CompileDQL_plan_witness:
  "\<exists>p. CompileDQL ToLower ''spans | filter a == 1 | join logs | summarize p99(duration) by x, bin(time, 5m)'' = Inr p \<and>
     agg_ok (Aggregation p) (AggField p) \<and> StepSeconds p = 300"
proof -
  let ?q = "''spans | filter a == 1 | join logs | summarize p99(duration) by x, bin(time, 5m)''"
  have "case CompileDQL ToLower ?q of Inr p \<Rightarrow> StepSeconds p = 300 | Inl _ \<Rightarrow> False" by code_simp
  then obtain p where "CompileDQL ToLower ?q = Inr p" "StepSeconds p = 300" by (auto split: sum.splits)
  with CompileDQL_plan [OF ascii.lowering_axioms this(1)] show ?thesis by blast
qed



text \<open>
  Splitting at pipes loses nothing and never splits inside quotes: joined by pipes the segments
  give the query back (up to one trailing pipe), and a segment is not split again.
\<close>

theorem splitPipes_correct:
  "(s = Join (splitPipes s) ''|'' \<or> s = Join (splitPipes s) ''|'' @ ''|'') \<and>
   list_all (\<lambda>seg. seg = [] \<or> splitPipes seg = [seg]) (splitPipes s)"
  using splitPipes_loop_Join [of "[]" s None] splitPipes_loop_segments [of "[]" None _ s]
    splitPipes_loop_whole [of None _ "[]"]
  by (auto simp: splitPipes_def list_all_iff)

definition unitSecs :: "char \<Rightarrow> int" where
  "unitSecs u = (if u = CHR ''m'' then 60 else if u = CHR ''h'' then 3600 else if u = CHR ''d'' then 86400 else 1)"

text \<open>
  A bin width written as a number and a unit is read as that many seconds, for every number whose
  product with the unit fits into an \<open>int\<close>.
\<close>

theorem parseDuration_value:
  assumes "0 \<le> n" and "in64 (n * unitSecs u)" and "u \<in> set ''smhd''"
  shows "parseDuration (itoa n @ [u]) = Inr (n * unitSecs u)"
proof -
  have "in64 n" using assms(1,2) by (auto simp: in64_def unitSecs_def split: if_splits)
  moreover have "itoa n \<noteq> []" "graphic (hd (itoa n))"
    using assms(1) natDec_props [of "nat n"] natDec_hd [of "nat n"]
    by (auto simp: itoa_def isDigit_def graphic_def)
  then have "TrimSpace (itoa n @ [u]) = itoa n @ [u]"
    using assms(3) by (intro TrimSpace_graphic) (auto simp: graphic_def)
  moreover have "wrap64 (n * unitSecs u) = n * unitSecs u" by (rule wrap64_id [OF assms(2)])
  ultimately show ?thesis
    using assms(3) by (auto simp: parseDuration_def Let_def Atoi_itoa unitSecs_def)
qed

theorem parseDuration_value_witness: "parseDuration (itoa 15 @ ''m'') = Inr 900"
  using parseDuration_value [of 15 "CHR ''m''"] by (simp add: unitSecs_def in64_def)

text \<open>
  The preview's string literals are read back unchanged: the text that \<open>SQLPreview\<close> puts between
  quotes ends exactly at the closing quote and denotes the value, whatever bytes the value has.
\<close>

theorem escapeSQL_literal:
  assumes "r = [] \<or> hd r \<noteq> CHR 0x27"
  shows "quoteSQL (escapeSQL v) @ r = CHR 0x27 # escapeSQL v @ CHR 0x27 # r \<and>
    readLit (escapeSQL v @ CHR 0x27 # r) = Some (v, r)"
  using readLit_escape [OF assms] by (simp add: quoteSQL_def)

theorem escapeSQL_literal_witness:
  "readLit (escapeSQL [CHR ''a'', CHR 0x27] @ CHR 0x27 # '' AND x'') = Some ([CHR ''a'', CHR 0x27], '' AND x'')"
  using escapeSQL_literal [of "'' AND x''" "[CHR ''a'', CHR 0x27]"] by simp

text \<open>
  \<open>Compile\<close> does not panic as long as lower-casing keeps the length of a string, as it does on
  ASCII.
\<close>

theorem CompileDQL_no_panic:
  assumes "\<And>s. length (lower s) = length s"
  shows "CompileDQL lower q \<noteq> Inl DPanic"
  using stepsLoop_no_panic [OF assms]
  by (fastforce simp: CompileDQL_def Let_def split: sum.splits if_splits)

theorem CompileDQL_no_panic_witness: "CompileDQL ToLower ''spans | summarize COUNT() BY x'' \<noteq> Inl DPanic"
  by (rule CompileDQL_no_panic) (simp add: ToLower_def)

text \<open>
  The position of \<open>" by "\<close> is found in the lower-cased text and used to slice the original. With
  letters whose lower case is longer in UTF-8 the slice is out of range and the handler panics.
\<close>

theorem CompileDQL_panics:
  "CompileDQL lowerStroke (''spans | summarize '' @ concat (replicate 5 [CHR 0xC8, CHR 0xBA]) @ '' by x'') = Inl DPanic"
  by code_simp

text \<open>
  An operator inside a quoted value is taken for the operator of the filter: the predicate below
  becomes an equality on a key that contains half of the value.
\<close>

theorem parseFilter_quoted_operator:
  "filter_loop filterOps (''name contains '' @ [CHR 0x22] @ ''a==b'' @ [CHR 0x22]) =
     Some \<lparr>FKey = ''name contains '' @ [CHR 0x22] @ ''a'', FOp = ''='', FValues = [''b'' @ [CHR 0x22]]\<rparr>"
  by code_simp

text \<open>
  A large bin width wraps around: the product is computed in \<open>int\<close> without a check, so a width of
  106751991167301 days is accepted as a negative step.
\<close>

theorem parseDuration_wraps: "\<exists>n < 0. parseDuration ''106751991167301d'' = Inr n"
proof -
  let ?x = "106751991167301 * 86400 :: int"
  have "wrap64 ?x < 0"
    using wrap64_cong [of ?x] wrap64_in64 [of ?x] by (cases "wrap64 ?x < 0") (auto simp: in64_def)
  moreover have "Atoi ''106751991167301'' = Some 106751991167301"
    by (simp add: Atoi_def Let_def HasPrefix_def decVal_def isDigit_def in64_def)
  moreover have "TrimSpace ''106751991167301d'' = ''106751991167301d''" by code_simp
  ultimately show ?thesis by (intro exI [of _ "wrap64 ?x"]) (simp add: parseDuration_def)
qed

end
