(* ===== verification/PromQL_Lex.thy ===== *)
theory PromQL_Lex
  imports GoInt
begin

text \<open>
  The tokenizer of the metric query language (\<open>internal/promql/lex.go\<close>) and the reader of durations (\<open>ParseDuration\<close> in
  \<open>parse.go\<close>). The index \<open>i\<close> into the input is a pair here: the byte position, kept for error messages, and the input from
  that position on. On a lexical error the tokens scanned so far are returned beside the error, as in the source.
\<close>

section \<open>Tokens\<close>

datatype tokenKind = tEOF | tError | tIdentifier | tNumber | tString | tDuration | tLParen | tRParen | tLBrace | tRBrace
  | tLBracket | tRBracket | tComma | tColon | tAdd | tSub | tMul | tDiv | tMod | tPow | tEQL | tNEQ | tLSS | tLTE | tGTR | tGTE
  | tEQLRegex | tNEQRegex | tAssign | tAt

record pqToken =
  tkKind :: tokenKind
  tkVal :: string
  tkPos :: nat

datatype pqLexError = UnexpectedBang nat | UnexpectedChar char nat | UnterminatedRaw | UnterminatedString

definition pqTok :: "tokenKind \<Rightarrow> string \<Rightarrow> nat \<Rightarrow> pqToken" where
  "pqTok k v p = \<lparr>tkKind = k, tkVal = v, tkPos = p\<rparr>"

section \<open>Character classes\<close>

definition isAlpha :: "char \<Rightarrow> bool" where
  "isAlpha c \<longleftrightarrow> c = CHR ''_'' \<or> (97 \<le> byte c \<and> byte c \<le> 122) \<or> (65 \<le> byte c \<and> byte c \<le> 90)"

definition isAlphaNum :: "char \<Rightarrow> bool" where
  "isAlphaNum c \<longleftrightarrow> isAlpha c \<or> isDigit c \<or> c = CHR ''.''"

definition pqIsHex :: "char \<Rightarrow> bool" where
  "pqIsHex c \<longleftrightarrow> isDigit c \<or> (97 \<le> byte c \<and> byte c \<le> 102) \<or> (65 \<le> byte c \<and> byte c \<le> 70)"

definition pqIsBlank :: "char \<Rightarrow> bool" where
  "pqIsBlank c \<longleftrightarrow> byte c \<in> {32, 9, 10, 13}"

section \<open>Durations\<close>

definition durationUnits :: "string list" where
  "durationUnits = [''ms'', ''s'', ''m'', ''h'', ''d'', ''w'', ''y'']"

definition unitPrefix :: "string \<Rightarrow> string option" where
  "unitPrefix r = List.find (HasPrefix r) durationUnits"

lemma unitPrefix_props: "unitPrefix r = Some u \<Longrightarrow> 0 < length u \<and> length u \<le> length r"
  by (auto simp: unitPrefix_def durationUnits_def HasPrefix_iff_prefix dest: prefix_length_le split: if_splits)

text \<open>The loop of \<open>scanDuration\<close>: what is left after the groups of digits and unit, or \<open>None\<close> when a unit is missing.\<close>

function durGroups :: "string \<Rightarrow> string option" where
  "durGroups s =
     (if s = [] \<or> \<not> isDigit (hd s) then Some s
      else case unitPrefix (dropWhile isDigit s) of
        None \<Rightarrow> None
      | Some u \<Rightarrow> durGroups (drop (length u) (dropWhile isDigit s)))"
  by pat_completeness auto
termination
proof (relation "measure length", simp)
  fix s u assume "unitPrefix (dropWhile isDigit s) = Some u"
  then have "0 < length u" "length u \<le> length (dropWhile isDigit s)" using unitPrefix_props by blast+
  moreover have "length (dropWhile isDigit s) \<le> length s" by (rule length_dropWhile_le)
  ultimately have "length (dropWhile isDigit s) - length u < length s" by linarith
  then show "(drop (length u) (dropWhile isDigit s), s) \<in> measure length" by simp
qed

declare durGroups.simps [simp del]

definition scanDuration :: "string \<Rightarrow> (string \<times> string) option" where
  "scanDuration s =
     (case durGroups s of
        None \<Rightarrow> None
      | Some r \<Rightarrow>
          if length r = length s then None
          else if r \<noteq> [] \<and> isAlphaNum (hd r) then None
          else Some (take (length s - length r) s, r))"

section \<open>Numbers\<close>

text \<open>\<open>scanNumber\<close>: the input after the literal.\<close>

definition scanFraction :: "string \<Rightarrow> string" where
  "scanFraction s = (if s \<noteq> [] \<and> hd s = CHR ''.'' then dropWhile isDigit (tl s) else s)"

definition scanExponent :: "string \<Rightarrow> string" where
  "scanExponent s =
     (if s \<noteq> [] \<and> hd s \<in> {CHR ''e'', CHR ''E''} then
        (let r = tl s; r' = (if r \<noteq> [] \<and> hd r \<in> {CHR ''+'', CHR ''-''} then tl r else r) in dropWhile isDigit r')
      else s)"

definition scanNumber :: "string \<Rightarrow> string \<times> string" where
  "scanNumber s =
     (let rest =
        (if HasPrefix s ''0x'' \<or> HasPrefix s ''0X'' then dropWhile pqIsHex (drop 2 s)
         else scanExponent (scanFraction (dropWhile isDigit s)))
      in (take (length s - length rest) s, rest))"

section \<open>Strings\<close>

definition escaped :: "char \<Rightarrow> string" where
  "escaped c =
     (if c = CHR ''n'' then [CHR 10] else if c = CHR ''t'' then [CHR 9] else if c = CHR ''r'' then [CHR 13]
      else if c \<in> {CHR 92, CHR 34, CHR 39} then [c] else [CHR 92, c])"

fun scanRaw :: "string \<Rightarrow> (string \<times> string) option" where
  "scanRaw [] = None"
| "scanRaw (c # s) = (if c = CHR 96 then Some ([], s) else map_option (\<lambda>(v, r). (c # v, r)) (scanRaw s))"

text \<open>After the opening quote. A backslash that is the last byte is an ordinary byte, and the string is then unterminated.\<close>

fun scanQuoted :: "char \<Rightarrow> string \<Rightarrow> (string \<times> string) option" where
  "scanQuoted quote [] = None"
| "scanQuoted quote [c] = (if c = quote then Some ([], []) else None)"
| "scanQuoted quote (c # d # s) =
     (if c = quote then Some ([], d # s)
      else if c = CHR 92 then map_option (\<lambda>(v, r). (escaped d @ v, r)) (scanQuoted quote s)
      else map_option (\<lambda>(v, r). (c # v, r)) (scanQuoted quote (d # s)))"

definition scanString :: "char \<Rightarrow> string \<Rightarrow> pqLexError + string \<times> string" where
  "scanString quote s =
     (if quote = CHR 96 then (case scanRaw s of None \<Rightarrow> Inl UnterminatedRaw | Some x \<Rightarrow> Inr x)
      else (case scanQuoted quote s of None \<Rightarrow> Inl UnterminatedString | Some x \<Rightarrow> Inr x))"

section \<open>The tokenizer\<close>

definition singleToken :: "char \<Rightarrow> tokenKind option" where
  "singleToken c =
     map_of [(CHR ''('', tLParen), (CHR '')'', tRParen), (CHR ''{'', tLBrace), (CHR ''}'', tRBrace), (CHR ''['', tLBracket),
       (CHR '']'', tRBracket), (CHR '','', tComma), (CHR '':'', tColon), (CHR ''@'', tAt), (CHR ''+'', tAdd), (CHR ''-'', tSub),
       (CHR ''*'', tMul), (CHR ''/'', tDiv), (CHR ''%'', tMod), (CHR 94, tPow)] c"

text \<open>The operators that may take a second byte: the token, its text, and the error of a lone \<open>!\<close>.\<close>

definition opToken :: "char \<Rightarrow> string \<Rightarrow> (tokenKind \<times> string) option option" where
  "opToken c s =
     (let next = (if s = [] then [] else [hd s]) in
      if c = CHR ''='' then
        Some (Some (if next = ''='' then (tEQL, ''=='') else if next = ''~'' then (tEQLRegex, ''=~'') else (tAssign, ''='')))
      else if c = CHR ''!'' then
        Some (if next = ''='' then Some (tNEQ, ''!='') else if next = ''~'' then Some (tNEQRegex, ''!~'') else None)
      else if c = CHR ''<'' then Some (Some (if next = ''='' then (tLTE, ''<='') else (tLSS, ''<'')))
      else if c = CHR ''>'' then Some (Some (if next = ''='' then (tGTE, ''>='') else (tGTR, ''>'')))
      else None)"

definition startsNumber :: "string \<Rightarrow> bool" where
  "startsNumber s \<longleftrightarrow> s \<noteq> [] \<and> (isDigit (hd s) \<or> (hd s = CHR ''.'' \<and> tl s \<noteq> [] \<and> isDigit (hd (tl s))))"

definition wordKind :: "string \<Rightarrow> tokenKind" where
  "wordKind w = (if ToLower w \<in> {''inf'', ''nan'', ''+inf'', ''-inf''} then tNumber else tIdentifier)"

text \<open>One turn of the loop at a byte that is neither blank nor a comment: the token, its text and what is left.\<close>

definition lexToken :: "nat \<Rightarrow> string \<Rightarrow> pqLexError + (tokenKind \<times> string \<times> string)" where
  "lexToken p s =
     (let c = hd s in
      case singleToken c of
        Some k \<Rightarrow> Inr (k, [c], tl s)
      | None \<Rightarrow>
        (case opToken c (tl s) of
           Some None \<Rightarrow> Inl (UnexpectedBang p)
         | Some (Some (k, v)) \<Rightarrow> Inr (k, v, drop (length v) s)
         | None \<Rightarrow>
           (if c \<in> {CHR 34, CHR 39, CHR 96} then
              (case scanString c (tl s) of Inl e \<Rightarrow> Inl e | Inr (v, r) \<Rightarrow> Inr (tString, v, r))
            else if startsNumber s then
              (case scanDuration s of
                 Some (d, r) \<Rightarrow> Inr (tDuration, d, r)
               | None \<Rightarrow> (let (v, r) = scanNumber s in Inr (tNumber, v, r)))
            else if isAlpha c then
              (let w = takeWhile isAlphaNum s in Inr (wordKind w, w, dropWhile isAlphaNum s))
            else Inl (UnexpectedChar c p))))"

lemma durGroups_length: "durGroups s = Some r \<Longrightarrow> length r \<le> length s"
proof (induction s arbitrary: r rule: durGroups.induct)
  case (1 s)
  show ?case
  proof (cases "s = [] \<or> \<not> isDigit (hd s)")
    case False
    then obtain u where u: "unitPrefix (dropWhile isDigit s) = Some u" "durGroups (drop (length u) (dropWhile isDigit s)) = Some r"
      using 1(2) by (subst (asm) durGroups.simps) (auto split: option.splits)
    have "length r \<le> length (drop (length u) (dropWhile isDigit s))" using 1(1) [OF False u(1) u(2)] .
    also have "\<dots> \<le> length s" using length_dropWhile_le [of isDigit s] by simp
    finally show ?thesis .
  qed (use 1(2) in \<open>simp add: durGroups.simps\<close>)
qed

lemma scanDuration_length: "scanDuration s = Some (d, r) \<Longrightarrow> length r < length s"
  using durGroups_length [of s r] by (auto simp: scanDuration_def split: option.splits if_splits)

lemma scanFraction_length: "length (scanFraction s) \<le> length s"
  using length_dropWhile_le [of isDigit "tl s"] by (auto simp: scanFraction_def)

lemma scanExponent_length: "length (scanExponent s) \<le> length s"
proof -
  have "length (dropWhile isDigit r) \<le> length s" if "length r \<le> length s" for r
    using length_dropWhile_le [of isDigit r] that by simp
  then show ?thesis by (auto simp: scanExponent_def Let_def)
qed

lemma scanNumber_length:
  assumes "startsNumber s"
  shows "length (snd (scanNumber s)) < length s"
proof -
  obtain c s' where s: "s = c # s'" using assms by (cases s) (auto simp: startsNumber_def)
  have hex: "length (dropWhile pqIsHex (drop 2 s)) < length s" using length_dropWhile_le [of pqIsHex "drop 2 s"] s by simp
  have "length (scanFraction (dropWhile isDigit s)) < length s"
  proof (cases "isDigit c")
    case True
    then show ?thesis using scanFraction_length [of "dropWhile isDigit s"] length_dropWhile_le [of isDigit s'] s by simp
  next
    case False
    then have "c = CHR ''.''" using assms s by (auto simp: startsNumber_def)
    then show ?thesis using False length_dropWhile_le [of isDigit s'] s by (simp add: scanFraction_def)
  qed
  then show ?thesis
    using hex scanExponent_length [of "scanFraction (dropWhile isDigit s)"] by (auto simp: scanNumber_def Let_def)
qed

lemma scanRaw_length: "scanRaw s = Some (v, r) \<Longrightarrow> length r < length s"
  by (induction s arbitrary: v) (auto split: if_splits)

lemma scanQuoted_length: "scanQuoted q s = Some (v, r) \<Longrightarrow> length r < length s"
  by (induction q s arbitrary: v rule: scanQuoted.induct) (fastforce split: if_splits)+

lemma scanString_length: "scanString q s = Inr (v, r) \<Longrightarrow> length r < length s"
  using scanRaw_length scanQuoted_length by (fastforce simp: scanString_def split: if_splits option.splits)

lemma opToken_length: "opToken c s = Some (Some (k, v)) \<Longrightarrow> 0 < length v"
  by (auto simp: opToken_def Let_def split: if_splits)

lemma lexToken_length:
  assumes "s \<noteq> []" "lexToken p s = Inr (k, v, r)"
  shows "length r < length s"
proof -
  have "length (dropWhile isAlphaNum s) < length s" if "isAlpha (hd s)"
    using that assms(1) length_dropWhile_le [of isAlphaNum "tl s"] by (cases s) (auto simp: isAlphaNum_def)
  then show ?thesis
    using assms scanDuration_length [of s] scanNumber_length [of s] scanString_length [of "hd s" "tl s"] opToken_length [of "hd s" "tl s"]
    by (auto simp: lexToken_def Let_def split_beta split: option.splits sum.splits if_splits)
qed

function lexLoop :: "nat \<Rightarrow> string \<Rightarrow> pqToken list \<times> pqLexError option" where
  "lexLoop p s =
     (if s = [] then ([pqTok tEOF [] p], None)
      else if pqIsBlank (hd s) then lexLoop (p + 1) (tl s)
      else if hd s = CHR ''#'' then
        (let r = dropWhile (\<lambda>c. c \<noteq> CHR 10) s in lexLoop (p + (length s - length r)) r)
      else case lexToken p s of
        Inl e \<Rightarrow> ([], Some e)
      | Inr (k, v, r) \<Rightarrow> (let (ts, e) = lexLoop (p + (length s - length r)) r in (pqTok k v p # ts, e)))"
  by pat_completeness auto
termination
proof (relation "measure (\<lambda>(p, s). length s)", goal_cases)
  case (3 p s r)
  then have "length r \<le> length (tl s)" using length_dropWhile_le [of "\<lambda>c. c \<noteq> CHR 10" "tl s"] by (cases s) auto
  then show ?case using 3(1) by (cases s) auto
next
  case (4 p s e k v r)
  then show ?case using lexToken_length [of s p k] by auto
qed auto

declare lexLoop.simps [simp del]

definition promLex :: "string \<Rightarrow> pqToken list \<times> pqLexError option" where
  "promLex input = lexLoop 0 input"

end
