(* ===== verification/PromQL_Parse.thy ===== *)
theory PromQL_Parse
  imports PromQL_Lex
begin

text \<open>
  The syntax trees and the recursive-descent parser of the metric query language (\<open>internal/promql/ast.go\<close>, \<open>parse.go\<close>). The
  parser's state is the list of the tokens that are left, and its field \<open>depth\<close> is an argument: every \<open>enter\<close> has its deferred
  \<open>leave\<close>. Indexing past the last token is a run-time panic and the value \<open>Panic\<close>; a loop or a recursion that has used up its
  fuel is \<open>OutOfFuel\<close>. Neither happens. The methods that call each other in a cycle take the method at the end of the cycle as
  an argument, so each is a definition and the cycle is closed by \<open>parseUnary\<close> (the chain of signs and powers) and \<open>parseExpr\<close>
  (parentheses and arguments). Floating-point numbers are values of a type \<open>'v\<close> with the operations of \<open>floats\<close>.
\<close>

section \<open>Numbers\<close>

record 'v floats =
  fParse :: "string \<Rightarrow> 'v option"
  fOfInt :: "int \<Rightarrow> 'v"
  fInf :: "bool \<Rightarrow> 'v"
  fNaN :: 'v
  fNeg :: "'v \<Rightarrow> 'v"

definition hexDigitVal :: "char \<Rightarrow> nat" where
  "hexDigitVal c = (if isDigit c then byte c - 48 else if 97 \<le> byte c then byte c - 87 else byte c - 55)"

text \<open>\<open>strconv.ParseInt(s, 16, 64)\<close>.\<close>

definition ParseHex :: "string \<Rightarrow> int option" where
  "ParseHex s =
     (let neg = HasPrefix s ''-''; ds = (if neg \<or> HasPrefix s ''+'' then tl s else s);
          m = int (foldl (\<lambda>n c. 16 * n + hexDigitVal c) 0 ds); v = (if neg then - m else m) in
      if ds \<noteq> [] \<and> list_all pqIsHex ds \<and> in64 v then Some v else None)"

datatype pqValueError = BadHex string | BadNumber string | EmptyDuration | BadDuration string | BadDurationUnit string

definition parseNumber :: "'v floats \<Rightarrow> string \<Rightarrow> pqValueError + 'v" where
  "parseNumber F s =
     (let ls = ToLower s in
      if ls = ''inf'' \<or> ls = ''+inf'' then Inr (fInf F True)
      else if ls = ''-inf'' then Inr (fInf F False)
      else if ls = ''nan'' then Inr (fNaN F)
      else if HasPrefix ls ''0x'' then (case ParseHex (drop 2 s) of None \<Rightarrow> Inl (BadHex s) | Some i \<Rightarrow> Inr (fOfInt F i))
      else (case fParse F s of None \<Rightarrow> Inl (BadNumber s) | Some v \<Rightarrow> Inr v))"

section \<open>Durations\<close>

definition msNs :: int where "msNs = 10 ^ 6"
definition secNs :: int where "secNs = 10 ^ 9"
definition minNs :: int where "minNs = 60 * 10 ^ 9"
definition pqHourNs :: int where "pqHourNs = 3600 * 10 ^ 9"
definition dayNs :: int where "dayNs = 86400 * 10 ^ 9"

lemmas unitNs = msNs_def secNs_def minNs_def pqHourNs_def dayNs_def

definition durUnit :: "string \<Rightarrow> (int \<times> nat) option" where
  "durUnit rest =
     (if HasPrefix rest ''ms'' then Some (msNs, 2)
      else if HasPrefix rest ''s'' then Some (secNs, 1)
      else if HasPrefix rest ''m'' then Some (minNs, 1)
      else if HasPrefix rest ''h'' then Some (pqHourNs, 1)
      else if HasPrefix rest ''d'' then Some (dayNs, 1)
      else if HasPrefix rest ''w'' then Some (7 * dayNs, 1)
      else if HasPrefix rest ''y'' then Some (365 * dayNs, 1)
      else None)"

lemma durUnit_props: "durUnit r = Some (u, n) \<Longrightarrow> 0 < n \<and> n \<le> length r"
  by (auto simp: durUnit_def HasPrefix_iff_prefix dest: prefix_length_le split: if_splits)

function durationLoop :: "string \<Rightarrow> int \<Rightarrow> string \<Rightarrow> pqValueError + int" where
  "durationLoop orig acc s =
     (if s = [] then Inr acc
      else
        (let ds = takeWhile isDigit s; rest = dropWhile isDigit s in
         if ds = [] then Inl (BadDuration orig)
         else case Atoi ds of
           None \<Rightarrow> Inl (BadDuration orig)
         | Some n \<Rightarrow>
             (case durUnit rest of
                None \<Rightarrow> Inl (BadDurationUnit orig)
              | Some (unit, ulen) \<Rightarrow> durationLoop orig (wrap64 (acc + wrap64 (n * unit))) (drop ulen rest))))"
  by pat_completeness auto
termination
proof (relation "measure (\<lambda>(orig, acc, s). length s)", goal_cases)
  case (2 orig acc s ds rest n x unit ulen)
  have "length (dropWhile isDigit s) \<le> length s" by (rule length_dropWhile_le)
  moreover have "0 < ulen" "ulen \<le> length rest" using 2 durUnit_props by blast+
  ultimately show ?case using 2 by simp
qed simp

declare durationLoop.simps [simp del]

definition ParseDuration :: "string \<Rightarrow> pqValueError + int" where
  "ParseDuration s = (if s = [] then Inl EmptyDuration else durationLoop s 0 s)"

section \<open>Syntax trees\<close>

datatype MatchType = MatchEqual | MatchNotEqual | MatchRegexp | MatchNotRegexp

record LabelMatcher =
  lmName :: string
  lmType :: MatchType
  lmValue :: string

record 'v vectorSelector =
  vsName :: string
  vsMatchers :: "LabelMatcher list"
  vsOffset :: int
  vsAt :: "'v option"
  vsAtStart :: bool
  vsAtEnd :: bool

datatype VectorMatchCardinality = CardOneToOne | CardManyToOne | CardOneToMany

record VectorMatching =
  vmCard :: VectorMatchCardinality
  vmLabels :: "string list"
  vmOn :: bool
  vmInclude :: "string list"

text \<open>A subquery keeps its expression, range and step, and the offset and \<open>@\<close> that may follow it.\<close>

record 'v atOffset =
  aoOffset :: int
  aoAt :: "'v option"
  aoAtStart :: bool
  aoAtEnd :: bool

datatype 'v promExpr =
    VectorSelector "'v vectorSelector"
  | MatrixSelector "'v vectorSelector" int
  | SubqueryExpr "'v promExpr" int int "'v atOffset"
  | Call string "'v promExpr list"
  | AggregateExpr string "'v promExpr" "'v promExpr option" "string list" bool
  | BinaryExpr string "'v promExpr" "'v promExpr" "VectorMatching option" bool
  | UnaryExpr string "'v promExpr"
  | ParenExpr "'v promExpr"
  | NumberLiteral 'v
  | StringLiteral string

definition noAtOffset :: "'v atOffset" where
  "noAtOffset = \<lparr>aoOffset = 0, aoAt = None, aoAtStart = False, aoAtEnd = False\<rparr>"

section \<open>The parser's primitives\<close>

definition aggregators :: "string list" where
  "aggregators = [''sum'', ''avg'', ''min'', ''max'', ''count'', ''count_values'', ''stddev'', ''stdvar'', ''quantile'', ''topk'',
     ''bottomk'', ''group'']"

definition aggregatorsWithParam :: "string list" where
  "aggregatorsWithParam = [''quantile'', ''topk'', ''bottomk'', ''count_values'']"

definition maxParseDepth :: nat where
  "maxParseDepth = 120"

datatype pqMsg = UnexpectedAfter string | TooDeep | Expected tokenKind string | ExpectedDuration string | RangeOnSelector int
  | OffsetTarget | AtTimestamp string | AtOperand string | AtTarget | UnexpectedTok string | ExpectedLabel string
  | ExpectedMatchOp string | ExpectedMatchValue string | NameTwice string string

datatype pqFail = Fail pqMsg nat | BadValue pqValueError | Lexical pqLexError | Panic | OutOfFuel

type_synonym 'a pq = "pqFail + 'a \<times> pqToken list"

definition bindQ :: "'a pq \<Rightarrow> ('a \<Rightarrow> pqToken list \<Rightarrow> 'b pq) \<Rightarrow> 'b pq" where
  "bindQ m f = (case m of Inl e \<Rightarrow> Inl e | Inr (a, ts) \<Rightarrow> f a ts)"

definition curTok :: "pqToken list \<Rightarrow> pqToken pq" where
  "curTok ts = (case ts of [] \<Rightarrow> Inl Panic | t # _ \<Rightarrow> Inr (t, ts))"

definition peekTok :: "pqToken list \<Rightarrow> pqToken pq" where
  "peekTok ts = (case ts of [] \<Rightarrow> Inl Panic | t # us \<Rightarrow> Inr (if us = [] then t else hd us, ts))"

definition pqAdvance :: "pqToken list \<Rightarrow> pqToken pq" where
  "pqAdvance ts = (case ts of [] \<Rightarrow> Inl Panic | t # us \<Rightarrow> Inr (t, if tkKind t = tEOF then ts else us))"

definition errf :: "pqMsg \<Rightarrow> pqToken list \<Rightarrow> 'a pq" where
  "errf m ts = bindQ (curTok ts) (\<lambda>t _. Inl (Fail m (tkPos t)))"

definition expect :: "tokenKind \<Rightarrow> pqToken list \<Rightarrow> pqToken pq" where
  "expect k ts = bindQ (curTok ts) (\<lambda>t us. if tkKind t \<noteq> k then errf (Expected k (tkVal t)) us else pqAdvance us)"

definition isKeyword :: "string \<Rightarrow> pqToken \<Rightarrow> bool" where
  "isKeyword kw t \<longleftrightarrow> tkKind t = tIdentifier \<and> tkVal t = kw"

definition liftValue :: "pqValueError + 'a \<Rightarrow> pqToken list \<Rightarrow> 'a pq" where
  "liftValue r ts = (case r of Inl e \<Rightarrow> Inl (BadValue e) | Inr a \<Rightarrow> Inr (a, ts))"

definition expectDuration :: "pqToken list \<Rightarrow> int pq" where
  "expectDuration ts =
     bindQ (curTok ts) (\<lambda>t us.
       if tkKind t \<noteq> tDuration then errf (ExpectedDuration (tkVal t)) us
       else bindQ (pqAdvance us) (\<lambda>d vs. liftValue (ParseDuration (tkVal d)) vs))"

section \<open>Label lists and matchers\<close>

primrec labelLoop :: "nat \<Rightarrow> pqToken list \<Rightarrow> string list pq" where
  "labelLoop 0 ts = Inl OutOfFuel"
| "labelLoop (Suc n) ts =
     bindQ (curTok ts) (\<lambda>t us.
       if tkKind t \<noteq> tIdentifier then errf (ExpectedLabel (tkVal t)) us
       else bindQ (pqAdvance us) (\<lambda>l vs.
         bindQ (curTok vs) (\<lambda>c ws.
           if tkKind c = tComma then
             bindQ (pqAdvance ws) (\<lambda>_ xs. bindQ (labelLoop n xs) (\<lambda>ls ys. Inr (tkVal l # ls, ys)))
           else Inr ([tkVal l], ws))))"

definition parseLabelList :: "pqToken list \<Rightarrow> string list pq" where
  "parseLabelList ts =
     bindQ (expect tLParen ts) (\<lambda>_ us.
       bindQ (curTok us) (\<lambda>c vs.
         if tkKind c = tRParen then bindQ (pqAdvance vs) (\<lambda>_ ws. Inr ([], ws))
         else bindQ (labelLoop (length vs) vs) (\<lambda>ls ws. bindQ (expect tRParen ws) (\<lambda>_ xs. Inr (ls, xs)))))"

definition matchTypeOf :: "tokenKind \<Rightarrow> MatchType option" where
  "matchTypeOf k = map_of [(tAssign, MatchEqual), (tNEQ, MatchNotEqual), (tEQLRegex, MatchRegexp), (tNEQRegex, MatchNotRegexp)] k"

primrec matcherLoop :: "nat \<Rightarrow> pqToken list \<Rightarrow> LabelMatcher list pq" where
  "matcherLoop 0 ts = Inl OutOfFuel"
| "matcherLoop (Suc n) ts =
     bindQ (curTok ts) (\<lambda>t us.
       if tkKind t \<noteq> tIdentifier then errf (ExpectedLabel (tkVal t)) us
       else bindQ (pqAdvance us) (\<lambda>name vs.
         bindQ (curTok vs) (\<lambda>o1 ws.
           case matchTypeOf (tkKind o1) of
             None \<Rightarrow> errf (ExpectedMatchOp (tkVal o1)) ws
           | Some mt \<Rightarrow>
               bindQ (pqAdvance ws) (\<lambda>_ xs.
                 bindQ (curTok xs) (\<lambda>v ys.
                   if tkKind v \<noteq> tString then errf (ExpectedMatchValue (tkVal v)) ys
                   else bindQ (pqAdvance ys) (\<lambda>val zs.
                     let m = \<lparr>lmName = tkVal name, lmType = mt, lmValue = tkVal val\<rparr> in
                     bindQ (curTok zs) (\<lambda>c as.
                       if tkKind c = tComma then
                         bindQ (pqAdvance as) (\<lambda>_ bs.
                           bindQ (curTok bs) (\<lambda>b cs.
                             if tkKind b = tRBrace then Inr ([m], cs)
                             else bindQ (matcherLoop n cs) (\<lambda>ms ds. Inr (m # ms, ds))))
                       else Inr ([m], as))))))))"

definition parseLabelMatchers :: "pqToken list \<Rightarrow> LabelMatcher list pq" where
  "parseLabelMatchers ts =
     bindQ (expect tLBrace ts) (\<lambda>_ us.
       bindQ (curTok us) (\<lambda>c vs.
         if tkKind c = tRBrace then bindQ (pqAdvance vs) (\<lambda>_ ws. Inr ([], ws))
         else bindQ (matcherLoop (length vs) vs) (\<lambda>ms ws. bindQ (expect tRBrace ws) (\<lambda>_ xs. Inr (ms, xs)))))"

text \<open>The loop of \<open>selectorFromMatchers\<close>: the name and the matchers kept, or the value of a second name.\<close>

fun hoistName :: "string \<Rightarrow> LabelMatcher list \<Rightarrow> (string \<times> string) + (string \<times> LabelMatcher list)" where
  "hoistName name [] = Inr (name, [])"
| "hoistName name (m # ms) =
     (if lmName m = ''__name__'' \<and> lmType m = MatchEqual then
        (if name \<noteq> [] then Inl (name, lmValue m) else hoistName (lmValue m) ms)
      else case hoistName name ms of Inl e \<Rightarrow> Inl e | Inr (n, kept) \<Rightarrow> Inr (n, m # kept))"

definition selectorFromMatchers :: "string \<Rightarrow> LabelMatcher list \<Rightarrow> pqToken list \<Rightarrow> 'v promExpr pq" where
  "selectorFromMatchers name ms ts =
     (case hoistName name ms of
        Inl (n, v) \<Rightarrow> errf (NameTwice n v) ts
      | Inr (n, kept) \<Rightarrow>
          Inr (VectorSelector \<lparr>vsName = n, vsMatchers = kept, vsOffset = 0, vsAt = None, vsAtStart = False, vsAtEnd = False\<rparr>, ts))"

section \<open>Vector matching\<close>

text \<open>The group modifier, with the labels that it may carry.\<close>

definition parseGroup :: "VectorMatching \<Rightarrow> pqToken list \<Rightarrow> VectorMatching option pq" where
  "parseGroup vm ts =
     bindQ (pqAdvance ts) (\<lambda>g us.
       let vm' = vm\<lparr>vmCard := (if tkVal g = ''group_left'' then CardManyToOne else CardOneToMany)\<rparr> in
       bindQ (curTok us) (\<lambda>c vs.
         if tkKind c = tLParen then bindQ (parseLabelList vs) (\<lambda>inc ws. Inr (Some (vm'\<lparr>vmInclude := inc\<rparr>), ws))
         else Inr (Some vm', vs)))"

definition parseVectorMatching :: "bool \<Rightarrow> pqToken list \<Rightarrow> VectorMatching option pq" where
  "parseVectorMatching allowGroup ts =
     bindQ (curTok ts) (\<lambda>t us.
       if \<not> isKeyword ''on'' t \<and> \<not> isKeyword ''ignoring'' t then Inr (None, us)
       else bindQ (pqAdvance us) (\<lambda>_ vs.
         bindQ (parseLabelList vs) (\<lambda>labels ws.
           bindQ (curTok ws) (\<lambda>g xs.
             let vm = \<lparr>vmCard = CardOneToOne, vmLabels = labels, vmOn = (tkVal t = ''on''), vmInclude = []\<rparr> in
             if allowGroup \<and> (isKeyword ''group_left'' g \<or> isKeyword ''group_right'' g) then parseGroup vm xs
             else Inr (Some vm, xs)))))"

section \<open>Postfix modifiers\<close>

definition applyOffset :: "'v promExpr \<Rightarrow> int \<Rightarrow> 'v promExpr option" where
  "applyOffset e d =
     (case e of
        VectorSelector v \<Rightarrow> Some (VectorSelector (v\<lparr>vsOffset := d\<rparr>))
      | MatrixSelector v r \<Rightarrow> Some (MatrixSelector (v\<lparr>vsOffset := d\<rparr>) r)
      | SubqueryExpr x r s ao \<Rightarrow> Some (SubqueryExpr x r s (ao\<lparr>aoOffset := d\<rparr>))
      | _ \<Rightarrow> None)"

definition setAt :: "'v option \<Rightarrow> bool \<Rightarrow> bool \<Rightarrow> 'v vectorSelector \<Rightarrow> 'v vectorSelector" where
  "setAt at atStart atEnd v = v\<lparr>vsAt := at, vsAtStart := atStart, vsAtEnd := atEnd\<rparr>"

definition applyAt :: "'v promExpr \<Rightarrow> 'v option \<times> bool \<times> bool \<Rightarrow> 'v promExpr option" where
  "applyAt e a =
     (case a of (at, atStart, atEnd) \<Rightarrow>
      case e of
        VectorSelector v \<Rightarrow> Some (VectorSelector (setAt at atStart atEnd v))
      | MatrixSelector v r \<Rightarrow> Some (MatrixSelector (setAt at atStart atEnd v) r)
      | SubqueryExpr x r s ao \<Rightarrow> Some (SubqueryExpr x r s (ao\<lparr>aoAt := at, aoAtStart := atStart, aoAtEnd := atEnd\<rparr>))
      | _ \<Rightarrow> None)"

definition parseAtValue :: "'v floats \<Rightarrow> pqToken list \<Rightarrow> ('v option \<times> bool \<times> bool) pq" where
  "parseAtValue F ts =
     bindQ (curTok ts) (\<lambda>t us.
       if isKeyword ''start'' t \<or> isKeyword ''end'' t then
         bindQ (pqAdvance us) (\<lambda>_ vs. bindQ (expect tLParen vs) (\<lambda>_ ws. bindQ (expect tRParen ws) (\<lambda>_ xs.
           Inr ((None, isKeyword ''start'' t, \<not> isKeyword ''start'' t), xs))))
       else if tkKind t \<in> {tNumber, tSub, tAdd} then
         bindQ (if tkKind t = tNumber then Inr (t, us) else pqAdvance us) (\<lambda>_ vs.
           bindQ (curTok vs) (\<lambda>n ws.
             if tkKind n \<noteq> tNumber then errf (AtTimestamp (tkVal n)) ws
             else bindQ (pqAdvance ws) (\<lambda>_ xs.
               bindQ (liftValue (parseNumber F (tkVal n)) xs) (\<lambda>f ys.
                 Inr ((Some (if tkKind t = tSub then fNeg F f else f), False, False), ys)))))
       else errf (AtOperand (tkVal t)) us)"

definition parseAt :: "'v floats \<Rightarrow> 'v promExpr \<Rightarrow> pqToken list \<Rightarrow> 'v promExpr pq" where
  "parseAt F e ts =
     bindQ (parseAtValue F ts) (\<lambda>a us. case applyAt e a of None \<Rightarrow> errf AtTarget us | Some e' \<Rightarrow> Inr (e', us))"

definition parseRangeOrSubquery :: "'v promExpr \<Rightarrow> pqToken list \<Rightarrow> 'v promExpr pq" where
  "parseRangeOrSubquery e ts =
     bindQ (pqAdvance ts) (\<lambda>_ us.
       bindQ (expectDuration us) (\<lambda>rng vs.
         bindQ (curTok vs) (\<lambda>c ws.
           if tkKind c = tColon then
             bindQ (pqAdvance ws) (\<lambda>_ xs.
               bindQ (curTok xs) (\<lambda>d ys.
                 bindQ (if tkKind d = tDuration then expectDuration ys else Inr (0, ys)) (\<lambda>step zs.
                   bindQ (expect tRBracket zs) (\<lambda>_ as. Inr (SubqueryExpr e rng step noAtOffset, as)))))
           else bindQ (expect tRBracket ws) (\<lambda>_ xs.
             case e of VectorSelector v \<Rightarrow> Inr (MatrixSelector v rng, xs) | _ \<Rightarrow> errf (RangeOnSelector rng) xs))))"

definition parseOffset :: "'v promExpr \<Rightarrow> pqToken list \<Rightarrow> 'v promExpr pq" where
  "parseOffset e ts =
     bindQ (pqAdvance ts) (\<lambda>_ us.
       bindQ (curTok us) (\<lambda>t vs.
         bindQ (if tkKind t = tSub then pqAdvance vs else Inr (t, vs)) (\<lambda>_ ws.
           bindQ (expectDuration ws) (\<lambda>d xs.
             case applyOffset e (if tkKind t = tSub then wrap64 (- d) else d) of
               None \<Rightarrow> errf OffsetTarget xs
             | Some e' \<Rightarrow> Inr (e', xs)))))"

primrec postfixLoop :: "nat \<Rightarrow> 'v floats \<Rightarrow> 'v promExpr \<Rightarrow> pqToken list \<Rightarrow> 'v promExpr pq" where
  "postfixLoop 0 F e ts = Inl OutOfFuel"
| "postfixLoop (Suc n) F e ts =
     bindQ (curTok ts) (\<lambda>t us.
       if tkKind t = tLBracket then bindQ (parseRangeOrSubquery e us) (\<lambda>e' vs. postfixLoop n F e' vs)
       else if isKeyword ''offset'' t then bindQ (parseOffset e us) (\<lambda>e' vs. postfixLoop n F e' vs)
       else if tkKind t = tAt then bindQ (pqAdvance us) (\<lambda>_ vs. bindQ (parseAt F e vs) (\<lambda>e' ws. postfixLoop n F e' ws))
       else Inr (e, us))"

section \<open>Primary expressions\<close>

text \<open>\<open>sub\<close> is \<open>parseExpr\<close> at the depth of the caller.\<close>

primrec argLoop :: "nat \<Rightarrow> (pqToken list \<Rightarrow> 'v promExpr pq) \<Rightarrow> pqToken list \<Rightarrow> 'v promExpr list pq" where
  "argLoop 0 sub ts = Inl OutOfFuel"
| "argLoop (Suc n) sub ts =
     bindQ (sub ts) (\<lambda>a us.
       bindQ (curTok us) (\<lambda>c vs.
         if tkKind c = tComma then bindQ (pqAdvance vs) (\<lambda>_ ws. bindQ (argLoop n sub ws) (\<lambda>as xs. Inr (a # as, xs)))
         else Inr ([a], vs)))"

definition parseCallArgs :: "(pqToken list \<Rightarrow> 'v promExpr pq) \<Rightarrow> pqToken list \<Rightarrow> 'v promExpr list pq" where
  "parseCallArgs sub ts =
     bindQ (expect tLParen ts) (\<lambda>_ us.
       bindQ (curTok us) (\<lambda>c vs.
         if tkKind c = tRParen then bindQ (pqAdvance vs) (\<lambda>_ ws. Inr ([], ws))
         else bindQ (argLoop (length vs) sub vs) (\<lambda>as ws. bindQ (expect tRParen ws) (\<lambda>_ xs. Inr (as, xs)))))"

definition isGrouping :: "pqToken \<Rightarrow> bool" where
  "isGrouping t \<longleftrightarrow> isKeyword ''by'' t \<or> isKeyword ''without'' t"

text \<open>The closure \<open>parseGrouping\<close>: the labels and whether they are left out.\<close>

definition parseGrouping :: "pqToken list \<Rightarrow> (string list \<times> bool) pq" where
  "parseGrouping ts =
     bindQ (curTok ts) (\<lambda>t us. bindQ (pqAdvance us) (\<lambda>_ vs. bindQ (parseLabelList vs) (\<lambda>ls ws. Inr ((ls, tkVal t = ''without''), ws))))"

definition parseAggBody :: "(pqToken list \<Rightarrow> 'v promExpr pq) \<Rightarrow> string \<Rightarrow> pqToken list \<Rightarrow> ('v promExpr \<times> 'v promExpr option) pq" where
  "parseAggBody sub op1 ts =
     bindQ (expect tLParen ts) (\<lambda>_ us.
       bindQ (sub us) (\<lambda>first vs.
         bindQ (curTok vs) (\<lambda>c ws.
           bindQ (if op1 \<in> set aggregatorsWithParam \<and> tkKind c = tComma then
                    bindQ (pqAdvance ws) (\<lambda>_ xs. bindQ (sub xs) (\<lambda>e ys. Inr ((e, Some first), ys)))
                  else Inr ((first, None), ws)) (\<lambda>r zs.
             bindQ (expect tRParen zs) (\<lambda>_ as. Inr (r, as))))))"

definition parseAggregate :: "(pqToken list \<Rightarrow> 'v promExpr pq) \<Rightarrow> pqToken list \<Rightarrow> 'v promExpr pq" where
  "parseAggregate sub ts =
     bindQ (pqAdvance ts) (\<lambda>o1 us.
       bindQ (curTok us) (\<lambda>g vs.
         bindQ (if isGrouping g then parseGrouping vs else Inr (([], False), vs)) (\<lambda>g1 ws.
           bindQ (parseAggBody sub (tkVal o1) ws) (\<lambda>b xs.
             bindQ (curTok xs) (\<lambda>g' ys.
               bindQ (if isGrouping g' \<and> g1 = ([], False) then parseGrouping ys else Inr (g1, ys)) (\<lambda>g2 zs.
                 Inr (AggregateExpr (tkVal o1) (fst b) (snd b) (fst g2) (snd g2), zs)))))))"

definition parseIdentifierExpr :: "(pqToken list \<Rightarrow> 'v promExpr pq) \<Rightarrow> pqToken list \<Rightarrow> 'v promExpr pq" where
  "parseIdentifierExpr sub ts =
     bindQ (curTok ts) (\<lambda>t us.
       bindQ (peekTok us) (\<lambda>next vs.
         if tkVal t \<in> set aggregators \<and> (tkKind next = tLParen \<or> isGrouping next) then parseAggregate sub vs
         else if tkKind next = tLParen then
           bindQ (pqAdvance vs) (\<lambda>_ ws. bindQ (parseCallArgs sub ws) (\<lambda>as xs. Inr (Call (tkVal t) as, xs)))
         else bindQ (pqAdvance vs) (\<lambda>_ ws.
           bindQ (curTok ws) (\<lambda>c xs.
             bindQ (if tkKind c = tLBrace then parseLabelMatchers xs else Inr ([], xs)) (\<lambda>ms ys.
               selectorFromMatchers (tkVal t) ms ys)))))"

definition pqParsePrimary :: "'v floats \<Rightarrow> (pqToken list \<Rightarrow> 'v promExpr pq) \<Rightarrow> pqToken list \<Rightarrow> 'v promExpr pq" where
  "pqParsePrimary F sub ts =
     bindQ (curTok ts) (\<lambda>t us.
       if tkKind t = tNumber then
         bindQ (pqAdvance us) (\<lambda>_ vs. bindQ (liftValue (parseNumber F (tkVal t)) vs) (\<lambda>f ws. Inr (NumberLiteral f, ws)))
       else if tkKind t = tString then bindQ (pqAdvance us) (\<lambda>_ vs. Inr (StringLiteral (tkVal t), vs))
       else if tkKind t = tLParen then
         bindQ (pqAdvance us) (\<lambda>_ vs. bindQ (sub vs) (\<lambda>e ws. bindQ (expect tRParen ws) (\<lambda>_ xs. Inr (ParenExpr e, xs))))
       else if tkKind t = tLBrace then bindQ (parseLabelMatchers us) (\<lambda>ms vs. selectorFromMatchers [] ms vs)
       else if tkKind t = tIdentifier then parseIdentifierExpr sub us
       else errf (UnexpectedTok (tkVal t)) us)"

definition parsePostfix :: "'v floats \<Rightarrow> (pqToken list \<Rightarrow> 'v promExpr pq) \<Rightarrow> pqToken list \<Rightarrow> 'v promExpr pq" where
  "parsePostfix F sub ts = bindQ (pqParsePrimary F sub ts) (\<lambda>e us. postfixLoop (length us) F e us)"

section \<open>Precedence levels\<close>

text \<open>\<open>enter\<close> at depth \<open>d\<close>: the error, or the depth below.\<close>

definition enter :: "nat \<Rightarrow> pqToken list \<Rightarrow> nat pq" where
  "enter d ts = (if maxParseDepth < d + 1 then errf TooDeep ts else Inr (d + 1, ts))"

definition foldSign :: "'v floats \<Rightarrow> string \<Rightarrow> 'v promExpr \<Rightarrow> 'v promExpr" where
  "foldSign F op1 e =
     (if op1 = ''+'' then e else case e of NumberLiteral v \<Rightarrow> NumberLiteral (fNeg F v) | _ \<Rightarrow> UnaryExpr ''-'' e)"

text \<open>\<open>parseUnary\<close> with \<open>parsePow\<close>, whose right operand is again \<open>parseUnary\<close>, at the same depth.\<close>

primrec parseUnary :: "nat \<Rightarrow> 'v floats \<Rightarrow> (nat \<Rightarrow> pqToken list \<Rightarrow> 'v promExpr pq) \<Rightarrow> nat \<Rightarrow> pqToken list \<Rightarrow> 'v promExpr pq" where
  "parseUnary 0 F sub d ts = Inl OutOfFuel"
| "parseUnary (Suc n) F sub d ts =
     bindQ (curTok ts) (\<lambda>t us.
       if tkKind t = tSub \<or> tkKind t = tAdd then
         bindQ (enter d us) (\<lambda>d' vs. bindQ (pqAdvance vs) (\<lambda>o1 ws.
           bindQ (parseUnary n F sub d' ws) (\<lambda>e xs. Inr (foldSign F (tkVal o1) e, xs))))
       else
         bindQ (parsePostfix F (sub d) us) (\<lambda>lhs vs.
           bindQ (curTok vs) (\<lambda>p ws.
             if tkKind p = tPow then
               bindQ (pqAdvance ws) (\<lambda>_ xs. bindQ (parseVectorMatching True xs) (\<lambda>vm ys.
                 bindQ (parseUnary n F sub d ys) (\<lambda>rhs zs. Inr (BinaryExpr [CHR 94] lhs rhs vm False, zs))))
             else Inr (lhs, ws))))"

text \<open>The loop of a left-associative level: which token is an operator, whether \<open>bool\<close> and group modifiers may follow it, and the level below.\<close>

primrec levelLoop ::
  "nat \<Rightarrow> (pqToken \<Rightarrow> string option) \<Rightarrow> bool \<Rightarrow> bool \<Rightarrow> (pqToken list \<Rightarrow> 'v promExpr pq) \<Rightarrow> 'v promExpr \<Rightarrow> pqToken list \<Rightarrow> 'v promExpr pq" where
  "levelLoop 0 opOf allowBool allowGroup sub lhs ts = Inl OutOfFuel"
| "levelLoop (Suc n) opOf allowBool allowGroup sub lhs ts =
     bindQ (curTok ts) (\<lambda>t us.
       case opOf t of
         None \<Rightarrow> Inr (lhs, us)
       | Some o1 \<Rightarrow>
           bindQ (pqAdvance us) (\<lambda>_ vs. bindQ (curTok vs) (\<lambda>b ws.
             bindQ (if allowBool \<and> isKeyword ''bool'' b then pqAdvance ws else Inr (b, ws)) (\<lambda>_ xs.
               bindQ (parseVectorMatching allowGroup xs) (\<lambda>vm ys.
                 bindQ (sub ys) (\<lambda>rhs zs.
                   levelLoop n opOf allowBool allowGroup sub
                     (BinaryExpr o1 lhs rhs vm (allowBool \<and> isKeyword ''bool'' b)) zs))))))"

definition parseLevel ::
  "(pqToken \<Rightarrow> string option) \<Rightarrow> bool \<Rightarrow> bool \<Rightarrow> (pqToken list \<Rightarrow> 'v promExpr pq) \<Rightarrow> pqToken list \<Rightarrow> 'v promExpr pq" where
  "parseLevel opOf allowBool allowGroup sub ts =
     bindQ (sub ts) (\<lambda>lhs us. levelLoop (length us) opOf allowBool allowGroup sub lhs us)"

definition mulDivOp :: "pqToken \<Rightarrow> string option" where
  "mulDivOp t =
     (case map_of [(tMul, ''*''), (tDiv, ''/''), (tMod, ''%'')] (tkKind t) of
        Some o1 \<Rightarrow> Some o1
      | None \<Rightarrow> if isKeyword ''atan2'' t then Some ''atan2'' else None)"

definition addSubOp :: "pqToken \<Rightarrow> string option" where
  "addSubOp t = map_of [(tAdd, ''+''), (tSub, ''-'')] (tkKind t)"

definition compareOp :: "pqToken \<Rightarrow> string option" where
  "compareOp t = map_of [(tEQL, ''==''), (tNEQ, ''!=''), (tLSS, ''<''), (tLTE, ''<=''), (tGTR, ''>''), (tGTE, ''>='')] (tkKind t)"

definition andOp :: "pqToken \<Rightarrow> string option" where
  "andOp t = (if isKeyword ''and'' t \<or> isKeyword ''unless'' t then Some (tkVal t) else None)"

definition orOp :: "pqToken \<Rightarrow> string option" where
  "orOp t = (if isKeyword ''or'' t then Some ''or'' else None)"

definition parseMulDiv :: "'v floats \<Rightarrow> (nat \<Rightarrow> pqToken list \<Rightarrow> 'v promExpr pq) \<Rightarrow> nat \<Rightarrow> pqToken list \<Rightarrow> 'v promExpr pq" where
  "parseMulDiv F sub d = parseLevel mulDivOp False True (\<lambda>ts. parseUnary (length ts) F sub d ts)"

definition parseAddSub :: "'v floats \<Rightarrow> (nat \<Rightarrow> pqToken list \<Rightarrow> 'v promExpr pq) \<Rightarrow> nat \<Rightarrow> pqToken list \<Rightarrow> 'v promExpr pq" where
  "parseAddSub F sub d = parseLevel addSubOp False True (parseMulDiv F sub d)"

definition parseCompare :: "'v floats \<Rightarrow> (nat \<Rightarrow> pqToken list \<Rightarrow> 'v promExpr pq) \<Rightarrow> nat \<Rightarrow> pqToken list \<Rightarrow> 'v promExpr pq" where
  "parseCompare F sub d = parseLevel compareOp True True (parseAddSub F sub d)"

definition pqParseAnd :: "'v floats \<Rightarrow> (nat \<Rightarrow> pqToken list \<Rightarrow> 'v promExpr pq) \<Rightarrow> nat \<Rightarrow> pqToken list \<Rightarrow> 'v promExpr pq" where
  "pqParseAnd F sub d = parseLevel andOp False False (parseCompare F sub d)"

definition pqParseOr :: "'v floats \<Rightarrow> (nat \<Rightarrow> pqToken list \<Rightarrow> 'v promExpr pq) \<Rightarrow> nat \<Rightarrow> pqToken list \<Rightarrow> 'v promExpr pq" where
  "pqParseOr F sub d = parseLevel orOp False False (pqParseAnd F sub d)"

primrec parseExpr :: "nat \<Rightarrow> 'v floats \<Rightarrow> nat \<Rightarrow> pqToken list \<Rightarrow> 'v promExpr pq" where
  "parseExpr 0 F d ts = Inl OutOfFuel"
| "parseExpr (Suc n) F d ts = bindQ (enter d ts) (\<lambda>d' us. pqParseOr F (parseExpr n F) d' us)"

definition promParse :: "'v floats \<Rightarrow> string \<Rightarrow> pqFail + 'v promExpr" where
  "promParse F input =
     (case promLex input of
        (_, Some e) \<Rightarrow> Inl (Lexical e)
      | (toks, None) \<Rightarrow>
          (case bindQ (parseExpr (maxParseDepth + 1) F 0 toks) (\<lambda>e ts.
             bindQ (curTok ts) (\<lambda>t us. if tkKind t \<noteq> tEOF then errf (UnexpectedAfter (tkVal t)) us else Inr (e, us))) of
             Inl e \<Rightarrow> Inl e
           | Inr (e, _) \<Rightarrow> Inr e))"

section \<open>Parsing returns\<close>

text \<open>
  What a method leaves: tokens that still end in \<open>tEOF\<close>, fewer than a bound. No method panics or runs out of fuel, whatever the
  tokens are, as long as the last one is \<open>tEOF\<close>.
\<close>

definition okToks :: "pqToken list \<Rightarrow> bool" where
  "okToks ts \<longleftrightarrow> ts \<noteq> [] \<and> tkKind (last ts) = tEOF"

definition withinQ :: "nat \<Rightarrow> 'a pq \<Rightarrow> bool" where
  "withinQ m r \<longleftrightarrow> (case r of Inl e \<Rightarrow> e \<noteq> Panic \<and> e \<noteq> OutOfFuel | Inr (a, us) \<Rightarrow> okToks us \<and> length us < m)"

definition consumes :: "(pqToken list \<Rightarrow> 'a pq) \<Rightarrow> bool" where
  "consumes f \<longleftrightarrow> (\<forall>ts. okToks ts \<longrightarrow> withinQ (length ts) (f ts))"

lemma okToks_tl: "okToks ts \<Longrightarrow> tkKind (hd ts) \<noteq> tEOF \<Longrightarrow> okToks (tl ts) \<and> length (tl ts) < length ts"
  by (cases ts) (auto simp: okToks_def split: if_splits)

lemma curTok_step: "okToks ts \<Longrightarrow> bindQ (curTok ts) f = f (hd ts) ts"
  by (cases ts) (simp_all add: okToks_def curTok_def bindQ_def)

lemma peekTok_step: "okToks ts \<Longrightarrow> bindQ (peekTok ts) f = f (if tl ts = [] then hd ts else hd (tl ts)) ts"
  by (cases ts) (simp_all add: okToks_def peekTok_def bindQ_def)

lemma advance_step: "okToks ts \<Longrightarrow> tkKind (hd ts) \<noteq> tEOF \<Longrightarrow> bindQ (pqAdvance ts) f = f (hd ts) (tl ts)"
  by (cases ts) (simp_all add: okToks_def pqAdvance_def bindQ_def)

lemma bindQ_Inr [simp]: "bindQ (Inr (a, ts)) f = f a ts"
  by (simp add: bindQ_def)

lemma within_Inr [simp]: "withinQ m (Inr (a, us)) \<longleftrightarrow> okToks us \<and> length us < m"
  by (simp add: withinQ_def)

lemma within_errf [simp]: "okToks ts \<Longrightarrow> withinQ m (errf msg ts)"
  by (simp add: errf_def curTok_step withinQ_def)

lemma within_mono: "withinQ k r \<Longrightarrow> k \<le> m \<Longrightarrow> withinQ m r"
  by (auto simp: withinQ_def split: sum.splits)

lemma within_bind:
  assumes "withinQ k m" "\<And>a us. okToks us \<Longrightarrow> length us < k \<Longrightarrow> withinQ n (f a us)"
  shows "withinQ n (bindQ m f)"
proof (cases m)
  case (Inr p)
  then show ?thesis using assms by (cases p) (simp add: bindQ_def)
qed (use assms in \<open>simp add: withinQ_def bindQ_def\<close>)

lemma within_expect: "okToks ts \<Longrightarrow> k \<noteq> tEOF \<Longrightarrow> withinQ (length ts) (expect k ts)"
  using okToks_tl [of ts] by (cases ts) (auto simp: expect_def curTok_step pqAdvance_def okToks_def)

lemma within_lift [simp]: "withinQ m (liftValue r ts) \<longleftrightarrow> (\<forall>a. r = Inr a \<longrightarrow> okToks ts \<and> length ts < m)"
  by (cases r) (auto simp: liftValue_def withinQ_def)

lemma within_duration: "okToks ts \<Longrightarrow> withinQ (length ts) (expectDuration ts)"
  using okToks_tl [of ts] by (auto simp: expectDuration_def curTok_step advance_step)

lemma within_advance: "okToks ts \<Longrightarrow> tkKind (hd ts) \<noteq> tEOF \<Longrightarrow> withinQ (length ts) (pqAdvance ts)"
  using okToks_tl [of ts] by (cases ts) (auto simp: pqAdvance_def)

lemmas tok_steps = curTok_step peekTok_step advance_step okToks_tl

lemma within_labelLoop: "okToks ts \<Longrightarrow> length ts \<le> n \<Longrightarrow> withinQ (length ts) (labelLoop n ts)"
proof (induction n arbitrary: ts)
  case (Suc n)
  show ?case
  proof (cases "tkKind (hd ts) = tIdentifier")
    case True
    then have a: "okToks (tl ts)" "length (tl ts) < length ts" using okToks_tl [OF Suc.prems(1)] by auto
    have "withinQ (length ts) (bindQ (labelLoop n (tl (tl ts))) (\<lambda>ls ys. Inr (tkVal (hd ts) # ls, ys)))" if "tkKind (hd (tl ts)) = tComma"
    proof (rule within_bind)
      have "okToks (tl (tl ts))" "length (tl (tl ts)) < length (tl ts)" using okToks_tl [OF a(1)] that by auto
      then show "withinQ (length (tl (tl ts))) (labelLoop n (tl (tl ts)))" using Suc.prems(2) a(2) by (intro Suc.IH) linarith+
    qed (use a in auto)
    then show ?thesis using True Suc.prems a by (simp add: tok_steps)
  qed (use Suc.prems in \<open>simp add: curTok_step\<close>)
qed (simp add: okToks_def)

lemma within_labelList: "okToks ts \<Longrightarrow> withinQ (length ts) (parseLabelList ts)"
  unfolding parseLabelList_def
proof (rule within_bind [OF within_expect], simp_all, goal_cases)
  case (1 us)
  have "withinQ (length us) (bindQ (labelLoop (length us) us) (\<lambda>ls ws. bindQ (expect tRParen ws) (\<lambda>_ xs. Inr (ls, xs))))"
    by (rule within_bind [OF within_labelLoop [OF 1(2) order.refl]], rule within_bind [OF within_expect]) auto
  then show ?case using 1 okToks_tl [OF 1(2)] by (auto simp: curTok_step advance_step intro: within_mono)
qed

lemma within_matcherLoop: "okToks ts \<Longrightarrow> length ts \<le> n \<Longrightarrow> withinQ (length ts) (matcherLoop n ts)"
proof (induction n arbitrary: ts)
  case (Suc n)
  show ?case
  proof (cases "tkKind (hd ts) = tIdentifier")
    case True
    let ?a = "tl ts" let ?b = "tl ?a" let ?c = "tl ?b" let ?d = "tl ?c"
    have a: "okToks ?a" "length ?a < length ts" using okToks_tl [OF Suc.prems(1)] True by auto
    show ?thesis
    proof (cases "matchTypeOf (tkKind (hd ?a))")
      case (Some mt)
      then have "tkKind (hd ?a) \<noteq> tEOF" by (auto simp: matchTypeOf_def)
      then have b: "okToks ?b" "length ?b < length ?a" "tkKind (hd ?a) \<noteq> tEOF" using okToks_tl [OF a(1)] by auto
      show ?thesis
      proof (cases "tkKind (hd ?b) = tString")
        case True': True
        then have c: "okToks ?c" "length ?c < length ?b" using okToks_tl [OF b(1)] by auto
        let ?m = "\<lparr>lmName = tkVal (hd ts), lmType = mt, lmValue = tkVal (hd ?b)\<rparr>"
        have "withinQ (length ts) (bindQ (matcherLoop n ?d) (\<lambda>ms ds. Inr (?m # ms, ds)))" if "okToks ?d" "length ?d < length ?c"
        proof (rule within_bind)
          show "withinQ (length ?d) (matcherLoop n ?d)" using Suc.prems(2) that a(2) b(2) c(2) by (intro Suc.IH) linarith+
        qed (use that a b c in auto)
        then show ?thesis using True True' Some Suc.prems a b c okToks_tl [OF c(1)] by (auto simp: curTok_step advance_step Let_def)
      qed (use True Some Suc.prems a b in \<open>simp add: curTok_step advance_step\<close>)
    qed (use True Suc.prems a in \<open>simp add: curTok_step advance_step\<close>)
  qed (use Suc.prems in \<open>simp add: curTok_step\<close>)
qed (simp add: okToks_def)

lemma within_labelMatchers: "okToks ts \<Longrightarrow> withinQ (length ts) (parseLabelMatchers ts)"
  unfolding parseLabelMatchers_def
proof (rule within_bind [OF within_expect], simp_all, goal_cases)
  case (1 us)
  have "withinQ (length us) (bindQ (matcherLoop (length us) us) (\<lambda>ms ws. bindQ (expect tRBrace ws) (\<lambda>_ xs. Inr (ms, xs))))"
    by (rule within_bind [OF within_matcherLoop [OF 1(2) order.refl]], rule within_bind [OF within_expect]) auto
  then show ?case using 1 okToks_tl [OF 1(2)] by (auto simp: curTok_step advance_step intro: within_mono)
qed

lemma within_selector: "okToks ts \<Longrightarrow> length ts < m \<Longrightarrow> withinQ m (selectorFromMatchers name ms ts)"
  by (auto simp: selectorFromMatchers_def split: sum.splits)

lemma within_group: "okToks ts \<Longrightarrow> tkKind (hd ts) \<noteq> tEOF \<Longrightarrow> withinQ (length ts) (parseGroup vm ts)"
proof -
  assume a: "okToks ts" "tkKind (hd ts) \<noteq> tEOF"
  note b = okToks_tl [OF a]
  have "withinQ (length ts) (bindQ (parseLabelList (tl ts)) (\<lambda>inc ws. Inr (Some (v\<lparr>vmInclude := inc\<rparr>), ws)))" for v :: VectorMatching
    by (rule within_bind [OF within_labelList]) (use b in auto)
  then show ?thesis using a b by (simp add: parseGroup_def advance_step curTok_step Let_def)
qed

lemma within_vectorMatching: "okToks ts \<Longrightarrow> withinQ (Suc (length ts)) (parseVectorMatching g ts)"
proof (cases "isKeyword ''on'' (hd ts) \<or> isKeyword ''ignoring'' (hd ts)")
  case True
  assume ok: "okToks ts"
  have a: "okToks (tl ts)" "length (tl ts) < length ts" "tkKind (hd ts) \<noteq> tEOF"
    using True okToks_tl [OF ok] by (auto simp: isKeyword_def)
  have "withinQ (Suc (length ts)) (bindQ (curTok us) (\<lambda>t xs.
      if g \<and> (isKeyword ''group_left'' t \<or> isKeyword ''group_right'' t) then parseGroup vm xs else Inr (Some vm, xs)))"
    if "okToks us" "length us < length ts" for us and vm :: VectorMatching
    using that within_mono [OF within_group [OF that(1)], of "Suc (length ts)"] by (auto simp: curTok_step isKeyword_def)
  then show ?thesis
    unfolding parseVectorMatching_def using True ok a
    by (auto simp: curTok_step advance_step Let_def simp del: length_tl intro!: within_bind [OF within_labelList [OF a(1)]])
qed (auto simp: parseVectorMatching_def curTok_step)


lemma within_atValue: "okToks ts \<Longrightarrow> withinQ (length ts) (parseAtValue F ts)"
proof -
  assume ok: "okToks ts"
  have call: "withinQ (length ts) (bindQ (expect tLParen (tl ts)) (\<lambda>_ ws. bindQ (expect tRParen ws) (\<lambda>_ xs. Inr (r, xs))))"
    if "okToks (tl ts)" "length (tl ts) < length ts" for r :: "'a option \<times> bool \<times> bool"
    by (rule within_bind [OF within_expect], use that in simp_all, rule within_bind [OF within_expect], use that in simp_all)
  have num: "withinQ (length ts) (bindQ (curTok us) (\<lambda>n ws.
      if tkKind n \<noteq> tNumber then errf (AtTimestamp (tkVal n)) ws
      else bindQ (pqAdvance ws) (\<lambda>_ xs. bindQ (liftValue (parseNumber F (tkVal n)) xs) (\<lambda>f ys. Inr ((Some (g f), False, False), ys)))))"
    if "okToks us" "length us \<le> length ts" for us g
    using that okToks_tl [OF that(1)]
    by (auto simp: curTok_step advance_step intro!: within_bind [where k = "length us"])
  show ?thesis
  proof (cases "isKeyword ''start'' (hd ts) \<or> isKeyword ''end'' (hd ts)")
    case True
    then have "tkKind (hd ts) \<noteq> tEOF" by (auto simp: isKeyword_def)
    then show ?thesis using True ok okToks_tl [OF ok] call by (simp add: parseAtValue_def curTok_step advance_step)
  next
    case False
    then show ?thesis
      using ok okToks_tl [OF ok] num [of ts] num [of "tl ts"] by (auto simp: parseAtValue_def curTok_step advance_step)
  qed
qed

lemma within_parseAt: "okToks ts \<Longrightarrow> withinQ (length ts) (parseAt F e ts)"
  unfolding parseAt_def by (rule within_bind [OF within_atValue]) (auto split: option.splits)

lemma within_range: "okToks ts \<Longrightarrow> tkKind (hd ts) \<noteq> tEOF \<Longrightarrow> withinQ (length ts) (parseRangeOrSubquery e ts)"
proof -
  assume ok: "okToks ts" "tkKind (hd ts) \<noteq> tEOF"
  note a = okToks_tl [OF ok]
  have close: "withinQ (length ts) (bindQ (expect tRBracket us) (\<lambda>_ xs. f xs))"
    if "okToks us" "length us < length ts" "\<And>xs. okToks xs \<Longrightarrow> length xs < length ts \<Longrightarrow> withinQ (length ts) (f xs)" for us and f :: "pqToken list \<Rightarrow> 'a promExpr pq"
    by (rule within_bind [OF within_expect]) (use that in auto)
  have step: "withinQ (Suc (length us)) (if tkKind t = tDuration then expectDuration us else Inr (0, us))" if "okToks us" for us t
    using within_duration [OF that] that by (auto intro: within_mono)
  have sub: "withinQ (length ts) (bindQ (pqAdvance us) (\<lambda>_ xs. bindQ (curTok xs) (\<lambda>d ys.
       bindQ (if tkKind d = tDuration then expectDuration ys else Inr (0, ys)) (\<lambda>step zs.
         bindQ (expect tRBracket zs) (\<lambda>_ as. Inr (SubqueryExpr e rng step noAtOffset, as))))))"
    if "okToks us" "length us < length ts" "tkKind (hd us) \<noteq> tEOF" for us rng
    using that okToks_tl [OF that(1,3)]
    by (simp add: advance_step curTok_step split del: if_split) (rule within_bind [OF step], simp, rule close, auto)
  show ?thesis
    unfolding parseRangeOrSubquery_def using ok a
    by (simp add: advance_step) (rule within_bind [OF within_duration], use sub close in \<open>auto simp: curTok_step split: promExpr.splits\<close>)
qed

lemma within_offset: "okToks ts \<Longrightarrow> tkKind (hd ts) \<noteq> tEOF \<Longrightarrow> withinQ (length ts) (parseOffset e ts)"
proof -
  assume ok: "okToks ts" "tkKind (hd ts) \<noteq> tEOF"
  note a = okToks_tl [OF ok]
  have sign: "withinQ (Suc (length (tl ts))) (if tkKind t = tSub then pqAdvance (tl ts) else Inr (t, tl ts))" if "t = hd (tl ts)" for t
    using that a within_mono [OF within_advance, of "tl ts" "Suc (length (tl ts))"] by auto
  show ?thesis
    unfolding parseOffset_def using ok a
    by (simp add: advance_step curTok_step del: length_tl split del: if_split)
      (rule within_bind [OF sign], simp, rule within_bind [OF within_duration], auto split: option.splits)
qed

lemma within_postfixLoop: "okToks ts \<Longrightarrow> length ts \<le> n \<Longrightarrow> withinQ (Suc (length ts)) (postfixLoop n F e ts)"
proof (induction n arbitrary: e ts)
  case (Suc n)
  have more: "withinQ (Suc (length ts)) (bindQ m (\<lambda>e' vs. postfixLoop n F e' vs))" if "withinQ (length ts) m" for m
    by (rule within_bind [OF that]) (use Suc in \<open>auto intro: within_mono [OF Suc.IH]\<close>)
  have at: "withinQ (length ts) (parseAt F e (tl ts))" if "tkKind (hd ts) \<noteq> tEOF"
    using okToks_tl [OF Suc.prems(1) that] by (auto intro: within_mono [OF within_parseAt])
  show ?case
    using Suc.prems(1) more [OF within_range [OF Suc.prems(1)]] more [OF within_offset [OF Suc.prems(1)]] more [OF at]
    by (simp add: curTok_step advance_step isKeyword_def)
qed (simp add: okToks_def)

lemma within_argLoop:
  assumes "consumes sub"
  shows "okToks ts \<Longrightarrow> length ts \<le> n \<Longrightarrow> withinQ (length ts) (argLoop n sub ts)"
proof (induction n arbitrary: ts)
  case (Suc n)
  have sub: "withinQ (length ts) (sub ts)" using assms Suc.prems by (simp add: consumes_def)
  have more: "withinQ (length ts) (bindQ (argLoop n sub (tl us)) (\<lambda>as xs. Inr (a # as, xs)))"
    if "okToks us" "length us < length ts" "tkKind (hd us) \<noteq> tEOF" for us a
    using okToks_tl [OF that(1,3)] that(2) Suc.prems(2) by (intro within_bind [OF Suc.IH]) auto
  show ?case
    by (simp, rule within_bind [OF sub]) (use more in \<open>auto simp: curTok_step advance_step\<close>)
qed (simp add: okToks_def)

lemma within_callArgs: "consumes sub \<Longrightarrow> okToks ts \<Longrightarrow> withinQ (length ts) (parseCallArgs sub ts)"
  unfolding parseCallArgs_def
proof (rule within_bind [OF within_expect], simp_all, goal_cases)
  case (1 us)
  have "withinQ (length us) (bindQ (argLoop (length us) sub us) (\<lambda>as ws. bindQ (expect tRParen ws) (\<lambda>_ xs. Inr (as, xs))))"
    by (rule within_bind [OF within_argLoop [OF 1(1) 1(3) order.refl]], rule within_bind [OF within_expect]) auto
  then show ?case using 1 okToks_tl [OF 1(3)] by (auto simp: curTok_step advance_step intro: within_mono)
qed

lemma within_grouping: "okToks ts \<Longrightarrow> tkKind (hd ts) \<noteq> tEOF \<Longrightarrow> withinQ (length ts) (parseGrouping ts)"
  using okToks_tl [of ts] unfolding parseGrouping_def
  by (simp add: curTok_step advance_step) (rule within_bind [OF within_labelList], auto)

lemma within_aggBody: "consumes sub \<Longrightarrow> okToks ts \<Longrightarrow> withinQ (length ts) (parseAggBody sub op1 ts)"
proof -
  assume sub: "consumes sub" and ok: "okToks ts"
  have more: "withinQ (Suc (length us)) (if op1 \<in> set aggregatorsWithParam \<and> tkKind (hd us) = tComma then
      bindQ (pqAdvance us) (\<lambda>_ xs. bindQ (sub xs) (\<lambda>e ys. Inr ((e, Some first), ys))) else Inr ((first, None), us))" if "okToks us" for us first
  proof (cases "op1 \<in> set aggregatorsWithParam \<and> tkKind (hd us) = tComma")
    case True
    then have a: "okToks (tl us)" "length (tl us) < length us" using okToks_tl [OF that] by auto
    have "withinQ (Suc (length us)) (bindQ (sub (tl us)) (\<lambda>e ys. Inr ((e, Some first), ys)))"
      by (rule within_bind [where k = "length (tl us)"]) (use a sub in \<open>auto simp: consumes_def\<close>)
    then show ?thesis using True that by (simp add: advance_step)
  qed (use that in auto)
  have "withinQ (length ts) (bindQ (sub us) (\<lambda>first vs. bindQ (curTok vs) (\<lambda>c ws.
      bindQ (if op1 \<in> set aggregatorsWithParam \<and> tkKind c = tComma then
          bindQ (pqAdvance ws) (\<lambda>_ xs. bindQ (sub xs) (\<lambda>e ys. Inr ((e, Some first), ys))) else Inr ((first, None), ws)) (\<lambda>r zs.
        bindQ (expect tRParen zs) (\<lambda>_ as. Inr (r, as))))))" if "okToks us" "length us < length ts" for us
  proof (rule within_bind [where k = "length us"], goal_cases)
    case (2 first vs)
    then show ?case using that
      by (simp add: curTok_step split del: if_split) (rule within_bind [OF more], simp, rule within_bind [OF within_expect], auto)
  qed (use sub that in \<open>simp add: consumes_def\<close>)
  then show ?thesis unfolding parseAggBody_def by (intro within_bind [OF within_expect [OF ok]]) auto
qed

lemma within_aggregate: "consumes sub \<Longrightarrow> okToks ts \<Longrightarrow> tkKind (hd ts) \<noteq> tEOF \<Longrightarrow> withinQ (length ts) (parseAggregate sub ts)"
proof -
  assume sub: "consumes sub" and ok: "okToks ts" "tkKind (hd ts) \<noteq> tEOF"
  note a = okToks_tl [OF ok]
  have group: "withinQ (Suc (length us)) (if isGrouping (hd us) \<and> P then parseGrouping us else Inr (g, us))" if "okToks us" for us P g
    using that within_mono [OF within_grouping [OF that], of "Suc (length us)"] by (auto simp: isGrouping_def isKeyword_def)
  have tail: "withinQ (length ts) (bindQ (curTok xs) (\<lambda>g' ys.
      bindQ (if isGrouping g' \<and> g1 = ([], False) then parseGrouping ys else Inr (g1, ys)) (\<lambda>g2 zs. Inr (k g2, zs))))"
    if "okToks xs" "length xs < length ts" for xs g1 and k :: "string list \<times> bool \<Rightarrow> 'a promExpr"
    using that by (simp add: curTok_step split del: if_split) (rule within_bind [OF group], auto)
  have "withinQ (length ts) (bindQ (if isGrouping (hd (tl ts)) then parseGrouping (tl ts) else Inr (([], False), tl ts)) (\<lambda>g1 ws.
      bindQ (parseAggBody sub (tkVal (hd ts)) ws) (\<lambda>b xs. bindQ (curTok xs) (\<lambda>g' ys.
        bindQ (if isGrouping g' \<and> g1 = ([], False) then parseGrouping ys else Inr (g1, ys)) (\<lambda>g2 zs.
          Inr (AggregateExpr (tkVal (hd ts)) (fst b) (snd b) (fst g2) (snd g2), zs))))))"
  proof (rule within_bind [OF group [where P = True, simplified]], goal_cases)
    case (2 g1 ws)
    then have ws: "length ws < length ts" using a by simp
    show ?case
      by (rule within_bind [OF within_aggBody [OF sub 2(1)]], rule tail) (use ws in auto)
  qed (use a in simp)
  then show ?thesis using ok a by (simp add: parseAggregate_def advance_step curTok_step split del: if_split)
qed


lemma bindQ_Inl [simp]: "bindQ (Inl e) f = Inl e"
  by (simp add: bindQ_def)

lemma errf_eq: "okToks ts \<Longrightarrow> errf m ts = Inl (Fail m (tkPos (hd ts)))"
  by (simp add: errf_def curTok_step)

lemma within_identifierExpr:
  "consumes sub \<Longrightarrow> okToks ts \<Longrightarrow> tkKind (hd ts) \<noteq> tEOF \<Longrightarrow> withinQ (length ts) (parseIdentifierExpr sub ts)"
proof -
  assume sub: "consumes sub" and ok: "okToks ts" "tkKind (hd ts) \<noteq> tEOF"
  note a = okToks_tl [OF ok]
  have call: "withinQ (length ts) (bindQ (parseCallArgs sub (tl ts)) (\<lambda>as xs. Inr (Call f as, xs)))" for f
    by (rule within_bind [OF within_callArgs [OF sub]]) (use a in auto)
  have ms: "withinQ (Suc (length (tl ts))) (if tkKind c = tLBrace then parseLabelMatchers (tl ts) else Inr ([], tl ts))" for c
    using a within_mono [OF within_labelMatchers, of "tl ts"] by auto
  have sel: "withinQ (length ts) (bindQ (if tkKind (hd (tl ts)) = tLBrace then parseLabelMatchers (tl ts) else Inr ([], tl ts))
      (\<lambda>ms ys. selectorFromMatchers (tkVal (hd ts)) ms ys))"
    by (rule within_bind [OF ms], rule within_selector) (use a in auto)
  show ?thesis
    unfolding parseIdentifierExpr_def curTok_step [OF ok(1)] peekTok_step [OF ok(1)] advance_step [OF ok] curTok_step [OF a [THEN conjunct1]]
    using call sel within_aggregate [OF sub ok] by auto
qed

lemma consumes_primary: "consumes sub \<Longrightarrow> consumes (pqParsePrimary F sub)"
  unfolding consumes_def
proof (intro allI impI)
  fix ts assume sub: "\<forall>ts. okToks ts \<longrightarrow> withinQ (length ts) (sub ts)" and ok: "okToks ts"
  have paren: "withinQ (length ts) (bindQ (sub (tl ts)) (\<lambda>e ws. bindQ (expect tRParen ws) (\<lambda>_ xs. Inr (ParenExpr e, xs))))"
    if "okToks (tl ts)" "length (tl ts) < length ts"
    by (rule within_bind [where k = "length (tl ts)"], use sub that in \<open>simp del: length_tl\<close>, rule within_bind [OF within_expect], use that in auto)
  have num: "withinQ (length ts) (bindQ (liftValue (parseNumber F v) (tl ts)) (\<lambda>f ws. Inr (NumberLiteral f, ws)))"
    if "okToks (tl ts)" "length (tl ts) < length ts" for v
    by (rule within_bind [where k = "length ts"]) (use that in auto)
  have brace: "withinQ (length ts) (bindQ (parseLabelMatchers ts) (\<lambda>ms vs. selectorFromMatchers [] ms vs))"
    by (rule within_bind [OF within_labelMatchers [OF ok]], rule within_selector) auto
  show "withinQ (length ts) (pqParsePrimary F sub ts)"
    using okToks_tl [OF ok] ok paren num brace within_identifierExpr [of sub ts] sub
    by (auto simp: pqParsePrimary_def curTok_step advance_step consumes_def simp del: length_tl)
qed

lemma consumes_postfix: "consumes sub \<Longrightarrow> consumes (parsePostfix F sub)"
  using consumes_primary [of sub F] unfolding consumes_def parsePostfix_def
  by (auto intro!: within_bind intro: within_mono [OF within_postfixLoop])

definition consumesBelow :: "nat \<Rightarrow> (nat \<Rightarrow> pqToken list \<Rightarrow> 'a pq) \<Rightarrow> bool" where
  "consumesBelow d sub \<longleftrightarrow> (\<forall>d'. d \<le> d' \<longrightarrow> d' \<le> maxParseDepth \<longrightarrow> consumes (sub d'))"

lemma within_unary:
  "consumesBelow d sub \<Longrightarrow> d \<le> maxParseDepth \<Longrightarrow> okToks ts \<Longrightarrow> length ts \<le> n \<Longrightarrow> withinQ (length ts) (parseUnary n F sub d ts)"
proof (induction n arbitrary: d ts)
  case (Suc n)
  note ok = Suc.prems(3)
  have rec: "withinQ (length us) (parseUnary n F sub d' us)" if "okToks us" "length us < length ts" "d \<le> d'" "d' \<le> maxParseDepth" for us d'
    using that Suc.prems by (intro Suc.IH) (auto simp: consumesBelow_def)
  have post: "withinQ (length ts) (parsePostfix F (sub d) ts)"
    using consumes_postfix [of "sub d" F] Suc.prems by (auto simp: consumesBelow_def consumes_def)
  have vm: "withinQ (length ts) (bindQ (parseVectorMatching True us) (\<lambda>vm ys.
      bindQ (parseUnary n F sub d ys) (\<lambda>rhs zs. Inr (BinaryExpr [CHR 94] lhs rhs vm False, zs))))"
    if "okToks us" "length us < length ts" for us lhs
  proof (rule within_bind [OF within_vectorMatching [OF that(1)]])
    fix vm ys assume "okToks ys" "length ys < Suc (length us)"
    then show "withinQ (length ts) (bindQ (parseUnary n F sub d ys) (\<lambda>rhs zs. Inr (BinaryExpr [CHR 94] lhs rhs vm False, zs)))"
      using that Suc.prems(2) by (intro within_bind [OF rec]) auto
  qed
  have pow: "withinQ (length ts) (bindQ (parsePostfix F (sub d) ts) (\<lambda>lhs vs. bindQ (curTok vs) (\<lambda>p ws.
      if tkKind p = tPow then bindQ (pqAdvance ws) (\<lambda>_ xs. bindQ (parseVectorMatching True xs) (\<lambda>vm ys.
        bindQ (parseUnary n F sub d ys) (\<lambda>rhs zs. Inr (BinaryExpr [CHR 94] lhs rhs vm False, zs)))) else Inr (lhs, ws))))"
  proof (rule within_bind [OF post])
    fix lhs us assume us: "okToks us" "length us < length ts"
    then show "withinQ (length ts) (bindQ (curTok us) (\<lambda>p ws.
      if tkKind p = tPow then bindQ (pqAdvance ws) (\<lambda>_ xs. bindQ (parseVectorMatching True xs) (\<lambda>vm ys.
        bindQ (parseUnary n F sub d ys) (\<lambda>rhs zs. Inr (BinaryExpr [CHR 94] lhs rhs vm False, zs)))) else Inr (lhs, ws)))"
      using okToks_tl [OF us(1)] vm [of "tl us" lhs] by (auto simp: curTok_step advance_step)
  qed
  have sign: "withinQ (length ts) (bindQ (enter d ts) (\<lambda>d' vs. bindQ (pqAdvance vs) (\<lambda>o1 ws.
      bindQ (parseUnary n F sub d' ws) (\<lambda>e xs. Inr (foldSign F (tkVal o1) e, xs)))))" if "tkKind (hd ts) \<noteq> tEOF"
  proof (cases "maxParseDepth < d + 1")
    case False
    have "withinQ (length ts) (bindQ (parseUnary n F sub (d + 1) (tl ts)) (\<lambda>e xs. Inr (foldSign F (tkVal (hd ts)) e, xs)))"
      using okToks_tl [OF ok that] False by (intro within_bind [OF rec]) auto
    then show ?thesis using False ok that by (simp add: enter_def advance_step)
  next
    case True
    then show ?thesis using ok by (simp add: enter_def errf_eq withinQ_def)
  qed
  show ?case using pow sign ok by (auto simp: curTok_step)
qed (simp add: okToks_def)

lemma within_levelLoop:
  assumes "consumes sub" "\<And>t o1. opOf t = Some o1 \<Longrightarrow> tkKind t \<noteq> tEOF"
  shows "okToks ts \<Longrightarrow> length ts \<le> n \<Longrightarrow> withinQ (Suc (length ts)) (levelLoop n opOf ab ag sub lhs ts)"
proof (induction n arbitrary: lhs ts)
  case (Suc n)
  show ?case
  proof (cases "opOf (hd ts)")
    case (Some o1)
    have a: "okToks (tl ts)" "length (tl ts) < length ts" "tkKind (hd ts) \<noteq> tEOF" using assms(2) [OF Some] okToks_tl [OF Suc.prems(1)] by auto
    have sub: "withinQ (length us) (sub us)" if "okToks us" for us using that assms(1) by (simp add: consumes_def)
    have bool: "withinQ (Suc (length (tl ts))) (if ab \<and> isKeyword ''bool'' (hd (tl ts)) then pqAdvance (tl ts) else Inr (hd (tl ts), tl ts))"
      using a within_mono [OF within_advance, of "tl ts" "Suc (length (tl ts))"] by (auto simp: isKeyword_def)
    have rest: "withinQ (Suc (length ts)) (bindQ (parseVectorMatching ag xs) (\<lambda>vm ys. bindQ (sub ys) (\<lambda>rhs zs.
        levelLoop n opOf ab ag sub (BinaryExpr o1 lhs rhs vm rb) zs)))" if "okToks xs" "length xs < length ts" for xs rb
    proof (rule within_bind [OF within_vectorMatching [OF that(1)]], rule within_bind [OF sub], goal_cases)
      case (2 vm ys rhs zs)
      then show ?case using that Suc.prems(2) by (intro within_mono [OF Suc.IH]) auto
    qed simp
    show ?thesis
      unfolding levelLoop.simps curTok_step [OF Suc.prems(1)] Some option.case advance_step [OF Suc.prems(1) a(3)] curTok_step [OF a(1)]
      by (rule within_bind [OF bool], rule rest) (use a in auto)
  qed (use Suc.prems in \<open>simp add: curTok_step\<close>)
qed (simp add: okToks_def)

lemma consumes_level:
  assumes "consumes sub" "\<And>t o1. opOf t = Some o1 \<Longrightarrow> tkKind t \<noteq> tEOF"
  shows "consumes (parseLevel opOf ab ag sub)"
  unfolding consumes_def parseLevel_def
proof (intro allI impI)
  fix ts assume ok: "okToks ts"
  show "withinQ (length ts) (bindQ (sub ts) (\<lambda>lhs us. levelLoop (length us) opOf ab ag sub lhs us))"
    by (rule within_bind [where k = "length ts"])
      (use ok assms in \<open>auto simp: consumes_def intro!: within_mono [OF within_levelLoop]\<close>)
qed

lemma op_not_EOF:
  "mulDivOp t = Some o1 \<Longrightarrow> tkKind t \<noteq> tEOF" "addSubOp t = Some o1 \<Longrightarrow> tkKind t \<noteq> tEOF" "compareOp t = Some o1 \<Longrightarrow> tkKind t \<noteq> tEOF"
  "andOp t = Some o1 \<Longrightarrow> tkKind t \<noteq> tEOF" "orOp t = Some o1 \<Longrightarrow> tkKind t \<noteq> tEOF"
  by (auto simp: mulDivOp_def addSubOp_def compareOp_def andOp_def orOp_def isKeyword_def split: if_splits)

lemma consumes_levels:
  assumes "consumesBelow d sub" "d \<le> maxParseDepth"
  shows "consumes (parseMulDiv F sub d)" "consumes (parseAddSub F sub d)" "consumes (parseCompare F sub d)"
    "consumes (pqParseAnd F sub d)" "consumes (pqParseOr F sub d)"
proof -
  have "consumes (\<lambda>ts. parseUnary (length ts) F sub d ts)" using within_unary [OF assms] by (simp add: consumes_def)
  then show 1: "consumes (parseMulDiv F sub d)" unfolding parseMulDiv_def by (rule consumes_level) (rule op_not_EOF)
  then show 2: "consumes (parseAddSub F sub d)" unfolding parseAddSub_def by (rule consumes_level) (rule op_not_EOF)
  then show 3: "consumes (parseCompare F sub d)" unfolding parseCompare_def by (rule consumes_level) (rule op_not_EOF)
  then show 4: "consumes (pqParseAnd F sub d)" unfolding pqParseAnd_def by (rule consumes_level) (rule op_not_EOF)
  then show "consumes (pqParseOr F sub d)" unfolding pqParseOr_def by (rule consumes_level) (rule op_not_EOF)
qed

lemma consumes_expr: "maxParseDepth < n + d \<Longrightarrow> d \<le> maxParseDepth \<Longrightarrow> consumes (parseExpr n F d)"
proof (induction n arbitrary: d)
  case (Suc n)
  show ?case
    unfolding consumes_def
  proof (intro allI impI)
    fix ts assume ok: "okToks ts"
    show "withinQ (length ts) (parseExpr (Suc n) F d ts)"
    proof (cases "maxParseDepth < d + 1")
      case False
      then have "consumesBelow (d + 1) (parseExpr n F)" using Suc by (auto simp: consumesBelow_def)
      then show ?thesis using consumes_levels(5) [of "d + 1" "parseExpr n F" F] False ok by (simp add: enter_def consumes_def)
    next
      case True
      then show ?thesis using ok by (simp add: enter_def errf_eq withinQ_def)
    qed
  qed
qed simp

lemma lexLoop_ok: "lexLoop p s = (ts, None) \<Longrightarrow> okToks ts"
proof (induction p s arbitrary: ts rule: lexLoop.induct)
  case (1 p s)
  show ?case
  proof (cases "s = [] \<or> pqIsBlank (hd s) \<or> hd s = CHR ''#''")
    case True
    then show ?thesis using 1 by (subst (asm) (3) lexLoop.simps) (auto simp: okToks_def pqTok_def Let_def split: if_splits)
  next
    case False
    then obtain k v r where r: "lexToken p s = Inr (k, v, r)" using 1(4) by (subst (asm) lexLoop.simps) (auto split: sum.splits)
    obtain us e where us: "lexLoop (p + (length s - length r)) r = (us, e)" by fastforce
    have ts: "ts = pqTok k v p # us" "e = None" using 1(4) r us False by (subst (asm) lexLoop.simps, simp)+
    have "okToks us" using 1(3) [OF _ _ _ r refl refl] us ts(2) False by simp
    then show ?thesis using ts(1) by (simp add: okToks_def)
  qed
qed

text \<open>
  C23. Parsing a query always returns: a syntax tree or an error. No query makes the parser index past its tokens, and none uses
  up the fuel of the model, so the depth guard and the tokens bound every recursion and every loop of the code.
\<close>

theorem promParse_returns: "promParse F q \<noteq> Inl Panic \<and> promParse F q \<noteq> Inl OutOfFuel"
proof -
  obtain toks e where lex: "promLex q = (toks, e)" by fastforce
  show ?thesis
  proof (cases e)
    case None
    let ?last = "\<lambda>e ts. bindQ (curTok ts) (\<lambda>t us. if tkKind t \<noteq> tEOF then errf (UnexpectedAfter (tkVal t)) us else Inr (e, us))"
    have "okToks toks" using lexLoop_ok lex None by (simp add: promLex_def)
    then have "withinQ (length toks) (parseExpr (maxParseDepth + 1) F 0 toks)"
      using consumes_expr [of "maxParseDepth + 1" 0 F] by (simp add: consumes_def)
    then have "withinQ (length toks) (bindQ (parseExpr (maxParseDepth + 1) F 0 toks) ?last)"
      by (rule within_bind) (auto simp: curTok_step)
    then show ?thesis using lex None by (auto simp: promParse_def withinQ_def split: sum.splits)
  qed (use lex in \<open>simp add: promParse_def\<close>)
qed


section \<open>Examples\<close>

definition textFloats :: "string floats" where
  "textFloats = \<lparr>fParse = Some, fOfInt = itoa, fInf = (\<lambda>pos. if pos then ''Inf'' else ''-Inf''), fNaN = ''NaN'', fNeg = Cons (CHR ''-'')\<rparr>"

text \<open>The sign binds looser than the power, the power to the right, and a sign before a number becomes part of it.\<close>

lemma sign_and_power:
  "promParse textFloats ''-2^-3^x'' =
     Inr (UnaryExpr ''-'' (BinaryExpr [CHR 94] (NumberLiteral ''2'')
       (UnaryExpr ''-'' (BinaryExpr [CHR 94] (NumberLiteral ''3'')
          (VectorSelector \<lparr>vsName = ''x'', vsMatchers = [], vsOffset = 0, vsAt = None, vsAtStart = False, vsAtEnd = False\<rparr>) None False)) None False))"
  by code_simp

text \<open>The sum of a duration wraps: 300 years are a negative range.\<close>

lemma duration_wraps: "\<exists>d < 0. ParseDuration ''300y'' = Inr d"
proof -
  have "case ParseDuration ''300y'' of Inr d \<Rightarrow> d < 0 | Inl _ \<Rightarrow> False" by code_simp
  then show ?thesis by (auto split: sum.splits)
qed

end
