(* ===== verification/Leader.thy ===== *)
theory Leader
  imports GoInt
begin

text \<open>
  Leader election (\<open>internal/cache/leader.go\<close>) over the Redis lock (\<open>redisLock\<close> with its two Lua
  scripts in \<open>internal/cache/redis.go\<close>), the no-op lock of \<open>cache.go\<close> and the hot swap of
  \<open>switchable.go\<close>. One worker key is modelled; keys do not interact. The fleet is a transition system
  on a shared clock (nanoseconds): pods try to acquire, send heartbeats, are stopped, and are
  swapped from the no-op lock to Redis. A call may fail with or without having taken effect on the
  server, and its answer may arrive up to \<open>delay\<close> later than the server acted; its effect on the
  pod is counted from the instant the server acted. Tokens are numbers; that
  the 128 random bits of two acquisitions differ is the freshness condition of the steps.
\<close>

section \<open>Lease times\<close>

definition sec :: int where "sec = 1000000000"

definition LeaderTTL :: "int \<Rightarrow> int" where
  "LeaderTTL interval =
     (let ttl = wrap64 (3 * interval); ttl = (if ttl < 30 * sec then 30 * sec else ttl) in
      if ttl > 600 * sec then 600 * sec else ttl)"

definition refreshOutlivedLease :: "int \<Rightarrow> int \<Rightarrow> bool" where
  "refreshOutlivedLease sinceLastOK ttl \<longleftrightarrow> sinceLastOK \<ge> ttl"

definition acquireRetryInterval :: "int \<Rightarrow> int" where
  "acquireRetryInterval refresh = (if refresh > 10 * sec then 10 * sec else refresh)"

section \<open>The lease in Redis\<close>

text \<open>The key's value and expiry; an expired key is absent.\<close>

type_synonym leaseToken = nat

type_synonym redis = "(leaseToken \<times> int) option"

definition redisGET :: "int \<Rightarrow> redis \<Rightarrow> leaseToken option" where
  "redisGET now r = (case r of None \<Rightarrow> None | Some (tok, e) \<Rightarrow> if now < e then Some tok else None)"

definition redisSetNX :: "leaseToken \<Rightarrow> int \<Rightarrow> int \<Rightarrow> redis \<Rightarrow> bool \<times> redis" where
  "redisSetNX tok ttl now r = (if redisGET now r = None then (True, Some (tok, now + ttl)) else (False, r))"

definition refreshScript :: "leaseToken \<Rightarrow> int \<Rightarrow> int \<Rightarrow> redis \<Rightarrow> bool \<times> redis" where
  "refreshScript tok ttl now r = (if redisGET now r = Some tok then (True, Some (tok, now + ttl)) else (False, r))"

definition releaseScript :: "leaseToken \<Rightarrow> int \<Rightarrow> redis \<Rightarrow> redis" where
  "releaseScript tok now r = (if redisGET now r = Some tok then None else r)"

section \<open>Locks\<close>

text \<open>Both calls send the lease time in whole milliseconds.\<close>

definition msFloor :: "int \<Rightarrow> int" where
  "msFloor t = t div 1000000 * 1000000"

text \<open>The fate of a call: answered, failed before or failed after the server acted.\<close>

datatype net = NetOK | NetErr bool

definition executed :: "net \<Rightarrow> bool" where
  "executed n = (case n of NetOK \<Rightarrow> True | NetErr b \<Rightarrow> b)"

text \<open>A pod's lock: the no-op lock, or Redis with the token registered for the key.\<close>

datatype lockImpl = NoopLock | RedisLock "leaseToken option"

text \<open>Results are \<open>None\<close> for an error; the new lock and the new state of Redis follow.\<close>

definition TryAcquire :: "leaseToken \<Rightarrow> int \<Rightarrow> int \<Rightarrow> net \<Rightarrow> lockImpl \<Rightarrow> redis \<Rightarrow> bool option \<times> lockImpl \<times> redis" where
  "TryAcquire tok ttl now n l r =
     (case l of
        NoopLock \<Rightarrow> (Some True, l, r)
      | RedisLock reg \<Rightarrow>
          (let (ok, r') = (if executed n then redisSetNX tok (msFloor ttl) now r else (False, r)) in
           if n \<noteq> NetOK then (None, l, r')
           else if \<not> ok then (Some False, l, r')
           else (Some True, RedisLock (Some tok), r')))"

definition RefreshLock :: "int \<Rightarrow> int \<Rightarrow> net \<Rightarrow> lockImpl \<Rightarrow> redis \<Rightarrow> bool option \<times> lockImpl \<times> redis" where
  "RefreshLock ttl now n l r =
     (case l of
        NoopLock \<Rightarrow> (Some True, l, r)
      | RedisLock None \<Rightarrow> (Some False, l, r)
      | RedisLock (Some tok) \<Rightarrow>
          (let (ok, r') = (if executed n then refreshScript tok (msFloor ttl) now r else (False, r)) in
           if n \<noteq> NetOK then (None, l, r')
           else if ok then (Some True, l, r')
           else (Some False, RedisLock None, r')))"

definition Release :: "int \<Rightarrow> net \<Rightarrow> lockImpl \<Rightarrow> redis \<Rightarrow> lockImpl \<times> redis" where
  "Release now n l r =
     (case l of
        NoopLock \<Rightarrow> (l, r)
      | RedisLock None \<Rightarrow> (l, r)
      | RedisLock (Some tok) \<Rightarrow> (RedisLock None, if executed n then releaseScript tok now r else r))"

text \<open>\<open>SwitchableLock.Swap\<close>: a freshly connected lock has no token; \<open>nil\<close> is ignored.\<close>

definition SwapLock :: "lockImpl option \<Rightarrow> lockImpl \<Rightarrow> lockImpl" where
  "SwapLock l cur = (case l of None \<Rightarrow> cur | Some l' \<Rightarrow> l')"

section \<open>The holder\<close>

text \<open>Where the goroutine is: in the acquire loop, in the hold loop with \<open>lastOK\<close>, or returned.\<close>

datatype phase = Acquiring | Holding int | Stopped

record LeaderHolder =
  lock :: lockImpl
  ttl :: int
  refresh :: int
  held :: bool
  phase :: phase

definition NewLeaderHolder :: "lockImpl \<Rightarrow> int \<Rightarrow> LeaderHolder" where
  "NewLeaderHolder l ttl0 =
     (let t = (if ttl0 < 3 * sec then 30 * sec else ttl0) in
      \<lparr>lock = l, ttl = t, refresh = t div 3, held = False, phase = Acquiring\<rparr>)"

definition IsLeader :: "LeaderHolder \<Rightarrow> bool" where
  "IsLeader h = held h"

text \<open>One turn of each loop of \<open>run\<close>; \<open>at\<close> is the time at which the answer is processed.\<close>

definition acquireTurn :: "bool option \<Rightarrow> int \<Rightarrow> LeaderHolder \<Rightarrow> LeaderHolder" where
  "acquireTurn res at h = (if res = Some True then h\<lparr>held := True, phase := Holding at\<rparr> else h)"

definition holdTurn :: "bool option \<Rightarrow> int \<Rightarrow> int \<Rightarrow> LeaderHolder \<Rightarrow> LeaderHolder" where
  "holdTurn res at lastOK h =
     (case res of
        Some True \<Rightarrow> h\<lparr>phase := Holding at\<rparr>
      | None \<Rightarrow>
          if refreshOutlivedLease (at - lastOK) (ttl h) then h\<lparr>held := False, phase := Acquiring\<rparr> else h
      | Some False \<Rightarrow> h\<lparr>held := False, phase := Acquiring\<rparr>)"

definition runExit :: "LeaderHolder \<Rightarrow> LeaderHolder" where
  "runExit h = h\<lparr>held := False, phase := Stopped\<rparr>"

section \<open>The fleet\<close>

record fleet =
  now :: int
  server :: redis
  used :: "leaseToken set"
  pods :: "nat \<Rightarrow> LeaderHolder"

definition podAcquire :: "nat \<Rightarrow> leaseToken \<Rightarrow> net \<Rightarrow> int \<Rightarrow> fleet \<Rightarrow> fleet" where
  "podAcquire p tok n d s =
     (let h = pods s p; (res, l, r) = TryAcquire tok (ttl h) (now s) n (lock h) (server s) in
      s\<lparr>server := r, used := insert tok (used s), pods := (pods s)(p := acquireTurn res (now s + d) (h\<lparr>lock := l\<rparr>))\<rparr>)"

definition podHeartbeat :: "nat \<Rightarrow> int \<Rightarrow> net \<Rightarrow> int \<Rightarrow> fleet \<Rightarrow> fleet" where
  "podHeartbeat p lastOK n d s =
     (let h = pods s p; (res, l, r) = RefreshLock (ttl h) (now s) n (lock h) (server s) in
      s\<lparr>server := r, pods := (pods s)(p := holdTurn res (now s + d) lastOK (h\<lparr>lock := l\<rparr>))\<rparr>)"

definition podStop :: "nat \<Rightarrow> net \<Rightarrow> fleet \<Rightarrow> fleet" where
  "podStop p n s =
     (let h = pods s p; (l, r) = (if held h then Release (now s) n (lock h) (server s) else (lock h, server s)) in
      s\<lparr>server := r, pods := (pods s)(p := runExit (h\<lparr>lock := l\<rparr>))\<rparr>)"

definition podSwap :: "nat \<Rightarrow> fleet \<Rightarrow> fleet" where
  "podSwap p s = s\<lparr>pods := (pods s)(p := (pods s p)\<lparr>lock := SwapLock (Some (RedisLock None)) (lock (pods s p))\<rparr>)\<rparr>"

inductive step :: "int \<Rightarrow> fleet \<Rightarrow> fleet \<Rightarrow> bool" for delay where
  tick: "now s \<le> t \<Longrightarrow> step delay s (s\<lparr>now := t\<rparr>)"
| acquire: "phase (pods s p) = Acquiring \<Longrightarrow> tok \<notin> used s \<Longrightarrow> 0 \<le> d \<Longrightarrow> d \<le> delay \<Longrightarrow>
    step delay s (podAcquire p tok n d s)"
| heartbeat: "phase (pods s p) = Holding lastOK \<Longrightarrow> lastOK \<le> now s \<Longrightarrow> 0 \<le> d \<Longrightarrow> d \<le> delay \<Longrightarrow>
    step delay s (podHeartbeat p lastOK n d s)"
| stop: "phase (pods s p) \<noteq> Stopped \<Longrightarrow> step delay s (podStop p n s)"
| swap: "lock (pods s p) = NoopLock \<Longrightarrow> step delay s (podSwap p s)"

inductive_cases stepE: "step delay s s'"

text \<open>Boot: every pod starts in the acquire loop, on the no-op lock or on Redis.\<close>

definition boot :: "fleet \<Rightarrow> bool" where
  "boot s \<longleftrightarrow>
     (\<forall>p. \<exists>l \<in> {NoopLock, RedisLock None}. \<exists>t. pods s p = NewLeaderHolder l t) \<and>
     (\<forall>tok e. server s = Some (tok, e) \<longrightarrow> tok \<in> used s)"

inductive reachable :: "int \<Rightarrow> fleet \<Rightarrow> bool" for delay where
  start: "boot s \<Longrightarrow> reachable delay s"
| move: "reachable delay s \<Longrightarrow> step delay s s' \<Longrightarrow> reachable delay s'"

section \<open>The contract of a lease store\<close>

text \<open>
  \<open>guards st tok t e\<close>: seen from time \<open>t\<close>, nobody but \<open>tok\<close> can own the lease before \<open>e\<close>. The laws are what
  holders rely on: foreign operations keep a guard, a successful one of one's own gives it.
\<close>

locale lease_store =
  fixes guards :: "'st \<Rightarrow> 'tok \<Rightarrow> int \<Rightarrow> int \<Rightarrow> bool"
    and grab :: "'tok \<Rightarrow> int \<Rightarrow> int \<Rightarrow> 'st \<Rightarrow> bool \<times> 'st"
    and extend :: "'tok \<Rightarrow> int \<Rightarrow> int \<Rightarrow> 'st \<Rightarrow> bool \<times> 'st"
    and drop_lease :: "'tok \<Rightarrow> int \<Rightarrow> 'st \<Rightarrow> 'st"
  assumes later: "guards st tok t e \<Longrightarrow> t \<le> t' \<Longrightarrow> guards st tok t' e"
    and exclusive: "guards st tok t e \<Longrightarrow> guards st tok' t e' \<Longrightarrow> t < e \<Longrightarrow> t < e' \<Longrightarrow> tok = tok'"
    and grab_keeps: "guards st tok t e \<Longrightarrow> guards (snd (grab tok' l t st)) tok t e"
    and grab_gives: "fst (grab tok l t st) \<Longrightarrow> e \<le> t + l \<Longrightarrow> guards (snd (grab tok l t st)) tok t e"
    and extend_keeps: "guards st tok t e \<Longrightarrow> tok' \<noteq> tok \<or> e \<le> t + l \<Longrightarrow> guards (snd (extend tok' l t st)) tok t e"
    and extend_gives: "fst (extend tok l t st) \<Longrightarrow> e \<le> t + l \<Longrightarrow> guards (snd (extend tok l t st)) tok t e"
    and drop_keeps: "guards st tok t e \<Longrightarrow> tok' \<noteq> tok \<Longrightarrow> guards (drop_lease tok' t st) tok t e"
begin

lemma maybe_grab_keeps:
  "guards st tok t e \<Longrightarrow> guards (snd (if b then grab tok' l t st else (False, st))) tok t e"
  by (simp add: grab_keeps)

lemma maybe_extend_keeps:
  "guards st tok t e \<Longrightarrow> tok' \<noteq> tok \<or> e \<le> t + l \<Longrightarrow>
   guards (snd (if b then extend tok' l t st else (False, st))) tok t e"
  by (simp add: extend_keeps)

lemma maybe_drop_keeps:
  "guards st tok t e \<Longrightarrow> tok' \<noteq> tok \<Longrightarrow> guards (if b then drop_lease tok' t st else st) tok t e"
  by (simp add: drop_keeps)

end

definition redisGuards :: "redis \<Rightarrow> leaseToken \<Rightarrow> int \<Rightarrow> int \<Rightarrow> bool" where
  "redisGuards r tok t e \<longleftrightarrow> (t < e \<longrightarrow> (\<exists>e'. r = Some (tok, e') \<and> e \<le> e'))"

interpretation lease: lease_store redisGuards redisSetNX refreshScript releaseScript
  by unfold_locales
    (auto simp: redisGuards_def redisSetNX_def refreshScript_def releaseScript_def redisGET_def
      split: if_splits option.splits)

section \<open>The invariant of the fleet\<close>

definition registered :: "fleet \<Rightarrow> nat \<Rightarrow> leaseToken \<Rightarrow> bool" where
  "registered s p tok \<longleftrightarrow> lock (pods s p) = RedisLock (Some tok)"

text \<open>The instant up to which a holder may rely on its lease.\<close>

definition safeUntil :: "int \<Rightarrow> LeaderHolder \<Rightarrow> int \<Rightarrow> int" where
  "safeUntil delay h lastOK = lastOK - delay + msFloor (ttl h)"

definition fleet_inv :: "int \<Rightarrow> fleet \<Rightarrow> bool" where
  "fleet_inv delay s \<longleftrightarrow>
     (\<forall>p tok. registered s p tok \<longrightarrow> tok \<in> used s) \<and>
     (\<forall>p q tok. registered s p tok \<longrightarrow> registered s q tok \<longrightarrow> p = q) \<and>
     (\<forall>tok e. server s = Some (tok, e) \<longrightarrow> tok \<in> used s) \<and>
     (\<forall>p. held (pods s p) = (\<exists>k. phase (pods s p) = Holding k)) \<and>
     (\<forall>p tok k. registered s p tok \<longrightarrow> phase (pods s p) = Holding k \<longrightarrow>
        redisGuards (server s) tok (now s) (safeUntil delay (pods s p) k))"

lemma fleet_inv_update:
  assumes "fleet_inv delay s" and "used s \<subseteq> U"
    and "\<And>tok e. r = Some (tok, e) \<Longrightarrow> tok \<in> U"
    and "\<And>q tok e. q \<noteq> p \<Longrightarrow> registered s q tok \<Longrightarrow> redisGuards (server s) tok (now s) e \<Longrightarrow> redisGuards r tok (now s) e"
    and "\<And>tok. lock h = RedisLock (Some tok) \<Longrightarrow> tok \<in> U \<and> (registered s p tok \<or> tok \<notin> used s)"
    and "held h = (\<exists>k. phase h = Holding k)"
    and "\<And>tok k. lock h = RedisLock (Some tok) \<Longrightarrow> phase h = Holding k \<Longrightarrow> redisGuards r tok (now s) (safeUntil delay h k)"
  shows "fleet_inv delay (s\<lparr>server := r, used := U, pods := (pods s)(p := h)\<rparr>)"
proof -
  let ?s = "s\<lparr>server := r, used := U, pods := (pods s)(p := h)\<rparr>"
  have reg: "registered ?s q tok \<longleftrightarrow> (if q = p then lock h = RedisLock (Some tok) else registered s q tok)" for q tok
    by (simp add: registered_def)
  have *: "\<And>q tok. registered s q tok \<Longrightarrow> tok \<in> used s" "\<And>q q' tok. registered s q tok \<Longrightarrow> registered s q' tok \<Longrightarrow> q = q'"
    "\<And>q. held (pods s q) = (\<exists>k. phase (pods s q) = Holding k)"
    "\<And>q tok k. registered s q tok \<Longrightarrow> phase (pods s q) = Holding k \<Longrightarrow>
      redisGuards (server s) tok (now s) (safeUntil delay (pods s q) k)"
    using assms(1) by (auto simp: fleet_inv_def)
  show ?thesis
    unfolding fleet_inv_def reg
    using *(1) assms(2,3,5,6,7) *(2,3) assms(4) [OF _ _ *(4)]
    by (auto split: if_splits; blast)
qed

lemma fleet_inv_server:
  assumes "fleet_inv delay s"
  shows "server s = Some (tok, e) \<Longrightarrow> tok \<in> used s" "Some (tok, e) = server s \<Longrightarrow> tok \<in> used s"
  using assms unfolding fleet_inv_def by metis+

lemma executed_NetOK [simp]: "executed NetOK"
  by (simp add: executed_def)

lemma acquire_inv:
  assumes inv: "fleet_inv delay s" and ph: "phase (pods s p) = Acquiring" and tok: "tok \<notin> used s"
    and d: "d \<le> delay"
  shows "fleet_inv delay (podAcquire p tok n d s)"
proof -
  let ?h = "pods s p"
  obtain res l r where t: "TryAcquire tok (ttl ?h) (now s) n (lock ?h) (server s) = (res, l, r)"
    by (cases "TryAcquire tok (ttl ?h) (now s) n (lock ?h) (server s)") auto
  have r: "r = server s \<or> r = snd (redisSetNX tok (msFloor (ttl ?h)) (now s) (server s))"
    using t by (auto simp: TryAcquire_def split: lockImpl.splits prod.splits if_splits)
  have fresh: "r = Some (t', e) \<Longrightarrow> t' \<in> insert tok (used s)" for t' e
    using r fleet_inv_server [OF inv] by (auto simp: redisSetNX_def split: if_splits)
  have lk: "l = lock ?h \<or> l = RedisLock (Some tok) \<and> res = Some True \<and> r = snd (redisSetNX tok (msFloor (ttl ?h)) (now s) (server s)) \<and>
      fst (redisSetNX tok (msFloor (ttl ?h)) (now s) (server s))"
    using t by (auto simp: TryAcquire_def split: lockImpl.splits prod.splits if_splits)
  have new: "redisGuards r tok' (now s) (safeUntil delay ?h (now s + d))"
    if "res = Some True" "l = RedisLock (Some tok')" for tok'
  proof -
    have "r = snd (redisSetNX tok (msFloor (ttl ?h)) (now s) (server s))" "fst (redisSetNX tok (msFloor (ttl ?h)) (now s) (server s))" "tok' = tok"
      using t that by (auto simp: TryAcquire_def split: lockImpl.splits prod.splits if_splits)
    then show ?thesis using lease.grab_gives d by (simp add: safeUntil_def)
  qed
  have others: "redisGuards r tok' (now s) e" if "redisGuards (server s) tok' (now s) e" for tok' e
    using r lease.grab_keeps [OF that] that by auto
  have "\<not> held ?h" using inv ph by (auto simp: fleet_inv_def)
  moreover have "lock ?h = RedisLock (Some tok') \<Longrightarrow> tok' \<in> used s" for tok'
    using inv by (auto simp: fleet_inv_def registered_def)
  ultimately show ?thesis
    unfolding podAcquire_def Let_def t prod.case
    using inv tok fresh lk ph new others
    by (intro fleet_inv_update) (auto simp: acquireTurn_def registered_def safeUntil_def split: if_splits)
qed

lemma heartbeat_inv:
  assumes inv: "fleet_inv delay s" and ph: "phase (pods s p) = Holding k" and k: "k \<le> now s" and d: "d \<le> delay"
    and delay: "0 \<le> delay"
  shows "fleet_inv delay (podHeartbeat p k n d s)"
proof -
  let ?h = "pods s p"
  obtain res l r where t: "RefreshLock (ttl ?h) (now s) n (lock ?h) (server s) = (res, l, r)"
    by (cases "RefreshLock (ttl ?h) (now s) n (lock ?h) (server s)") auto
  have r: "r = server s \<or> (\<exists>tok. lock ?h = RedisLock (Some tok) \<and> r = snd (refreshScript tok (msFloor (ttl ?h)) (now s) (server s)))"
    using t by (auto simp: RefreshLock_def split: lockImpl.splits option.splits prod.splits if_splits)
  have l: "l = RedisLock (Some tok) \<Longrightarrow> lock ?h = RedisLock (Some tok)" for tok
    using t by (auto simp: RefreshLock_def split: lockImpl.splits option.splits prod.splits if_splits)
  have ok: "res = Some True \<Longrightarrow> lock ?h = RedisLock (Some tok) \<Longrightarrow> r = snd (refreshScript tok (msFloor (ttl ?h)) (now s) (server s)) \<and>
      fst (refreshScript tok (msFloor (ttl ?h)) (now s) (server s))" for tok
    using t by (auto simp: RefreshLock_def split: prod.splits if_splits)
  have fresh: "r = Some (t', e) \<Longrightarrow> t' \<in> used s" for t' e
  proof -
    have "lock ?h = RedisLock (Some tok) \<Longrightarrow> tok \<in> used s" for tok
      using inv by (auto simp: fleet_inv_def registered_def)
    then show "r = Some (t', e) \<Longrightarrow> t' \<in> used s"
      using r fleet_inv_server [OF inv] by (auto simp: refreshScript_def split: if_splits)
  qed
  have others: "redisGuards r tok (now s) e" if "q \<noteq> p" "registered s q tok" "redisGuards (server s) tok (now s) e" for q tok e
  proof -
    from that(1,2) inv have "lock ?h \<noteq> RedisLock (Some tok)" by (auto simp: fleet_inv_def registered_def)
    with r that(3) lease.extend_keeps show ?thesis by metis
  qed
  have self: "redisGuards r tok (now s) (safeUntil delay ?h k)" if "lock ?h = RedisLock (Some tok)" for tok
  proof -
    have "redisGuards (server s) tok (now s) (safeUntil delay ?h k)"
      using inv that ph by (auto simp: fleet_inv_def registered_def)
    moreover have "safeUntil delay ?h k \<le> now s + msFloor (ttl ?h)" using k delay by (simp add: safeUntil_def)
    ultimately show ?thesis using r that lease.extend_keeps by auto
  qed
  have new: "redisGuards r tok (now s) (safeUntil delay ?h (now s + d))"
    if "res = Some True" "lock ?h = RedisLock (Some tok)" for tok
    using ok [OF that] lease.extend_gives d by (simp add: safeUntil_def)
  have "held ?h" using inv ph by (auto simp: fleet_inv_def)
  moreover have "registered s p tok \<Longrightarrow> tok \<in> used s" for tok using inv by (auto simp: fleet_inv_def)
  ultimately have "fleet_inv delay (s\<lparr>server := r, used := used s,
      pods := (pods s)(p := holdTurn res (now s + d) k (?h\<lparr>lock := l\<rparr>))\<rparr>)"
    using inv fresh others l ph self new
    by (intro fleet_inv_update)
      (auto simp: holdTurn_def registered_def safeUntil_def split: option.splits bool.splits if_splits)
  then show ?thesis by (simp add: podHeartbeat_def t)
qed

lemma stop_inv:
  assumes inv: "fleet_inv delay s"
  shows "fleet_inv delay (podStop p n s)"
proof -
  let ?h = "pods s p"
  obtain l r where t: "(if held ?h then Release (now s) n (lock ?h) (server s) else (lock ?h, server s)) = (l, r)"
    by (cases "if held ?h then Release (now s) n (lock ?h) (server s) else (lock ?h, server s)") auto
  have r: "r = server s \<or> (\<exists>tok. lock ?h = RedisLock (Some tok) \<and> r = releaseScript tok (now s) (server s))"
    and l: "l = RedisLock (Some tok) \<Longrightarrow> lock ?h = RedisLock (Some tok)" for tok
    using t by (auto simp: Release_def split: if_splits lockImpl.splits option.splits)
  have others: "redisGuards r tok (now s) e" if "q \<noteq> p" "registered s q tok" "redisGuards (server s) tok (now s) e" for q tok e
  proof -
    from that(1,2) inv have "lock ?h \<noteq> RedisLock (Some tok)" by (auto simp: fleet_inv_def registered_def)
    with r that(3) lease.drop_keeps show ?thesis by metis
  qed
  have fresh: "r = Some (t', e) \<Longrightarrow> t' \<in> used s" for t' e
    using r fleet_inv_server [OF inv] by (auto simp: releaseScript_def split: if_splits)
  have "lock ?h = RedisLock (Some tok) \<Longrightarrow> tok \<in> used s" for tok
    using inv by (auto simp: fleet_inv_def registered_def)
  then have "fleet_inv delay (s\<lparr>server := r, used := used s, pods := (pods s)(p := runExit (?h\<lparr>lock := l\<rparr>))\<rparr>)"
    using inv fresh others l
    by (intro fleet_inv_update) (auto simp: runExit_def registered_def)
  then show ?thesis unfolding podStop_def Let_def t by simp
qed

lemma swap_inv:
  assumes inv: "fleet_inv delay s"
  shows "fleet_inv delay (podSwap p s)"
proof -
  have "fleet_inv delay (s\<lparr>server := server s, used := used s,
      pods := (pods s)(p := (pods s p)\<lparr>lock := SwapLock (Some (RedisLock None)) (lock (pods s p))\<rparr>)\<rparr>)"
    using inv fleet_inv_server [OF inv]
    by (intro fleet_inv_update) (auto simp: SwapLock_def fleet_inv_def)
  then show ?thesis by (simp add: podSwap_def)
qed

lemma tick_inv: "fleet_inv delay s \<Longrightarrow> now s \<le> t \<Longrightarrow> fleet_inv delay (s\<lparr>now := t\<rparr>)"
  unfolding fleet_inv_def registered_def by simp (blast intro: lease.later)

lemma step_inv: "step delay s s' \<Longrightarrow> fleet_inv delay s \<Longrightarrow> 0 \<le> delay \<Longrightarrow> fleet_inv delay s'"
  by (elim stepE) (auto intro: tick_inv acquire_inv heartbeat_inv stop_inv swap_inv)

lemma boot_inv: "boot s \<Longrightarrow> fleet_inv delay s"
proof -
  assume b: "boot s"
  have "lock (pods s p) \<noteq> RedisLock (Some tok) \<and> phase (pods s p) = Acquiring \<and> \<not> held (pods s p)" for p tok
  proof -
    from b obtain l t where "l \<in> {NoopLock, RedisLock None}" "pods s p = NewLeaderHolder l t"
      unfolding boot_def by blast
    then show ?thesis by (auto simp: NewLeaderHolder_def Let_def)
  qed
  with b show ?thesis by (auto simp: fleet_inv_def registered_def boot_def)
qed

lemma reachable_inv: "reachable delay s \<Longrightarrow> 0 \<le> delay \<Longrightarrow> fleet_inv delay s"
  by (induction rule: reachable.induct) (auto intro: boot_inv step_inv)

section \<open>Properties\<close>

text \<open>A pod that believes to lead on a lease of Redis whose time has not run out.\<close>

definition leads :: "int \<Rightarrow> fleet \<Rightarrow> nat \<Rightarrow> bool" where
  "leads delay s p \<longleftrightarrow>
     IsLeader (pods s p) \<and> (\<exists>tok. registered s p tok) \<and>
     (\<exists>k. phase (pods s p) = Holding k \<and> now s < safeUntil delay (pods s p) k)"

text \<open>
  C1. No split brain within a lease. In every reachable state of the fleet, whatever pods crash, stop,
  are swapped in, or have calls fail with or without effect, at most one pod leads on a lease that has
  not run out (a lease counts from the last confirmed refresh, less the bound on answer delays).
\<close>

theorem at_most_one_leader:
  assumes "reachable delay s" and "0 \<le> delay" and "leads delay s p" and "leads delay s q"
  shows "p = q"
proof -
  note inv = reachable_inv [OF assms(1,2)]
  from assms(3,4) obtain a b i j where r: "registered s p a" "registered s q b"
      and ph: "phase (pods s p) = Holding i" "phase (pods s q) = Holding j"
      and n: "now s < safeUntil delay (pods s p) i" "now s < safeUntil delay (pods s q) j"
    by (auto simp: leads_def)
  with inv have "redisGuards (server s) a (now s) (safeUntil delay (pods s p) i)"
    "redisGuards (server s) b (now s) (safeUntil delay (pods s q) j)"
    by (auto simp: fleet_inv_def)
  from lease.exclusive [OF this n] r inv show ?thesis by (auto simp: fleet_inv_def)
qed

definition bootFleet :: fleet where
  "bootFleet = \<lparr>now = 0, server = None, used = {}, pods = (\<lambda>p. NewLeaderHolder (RedisLock None) (60 * sec))\<rparr>"

theorem at_most_one_leader_witness: "leads sec (podAcquire 3 7 NetOK 0 bootFleet) 3"
proof -
  let ?s = "podAcquire 3 7 NetOK 0 bootFleet"
  have "reachable sec bootFleet" by (rule reachable.start) (auto simp: boot_def bootFleet_def)
  then have "reachable sec ?s"
    by (rule reachable.move)
      (rule step.acquire, auto simp: bootFleet_def NewLeaderHolder_def sec_def)
  moreover have l: "leads sec ?s 3"
    by (simp add: leads_def podAcquire_def bootFleet_def NewLeaderHolder_def TryAcquire_def redisSetNX_def redisGET_def
        acquireTurn_def IsLeader_def registered_def safeUntil_def msFloor_def sec_def Let_def)
  ultimately have "3 = (3 :: nat)" using at_most_one_leader [of sec ?s 3 3] by (simp add: sec_def)
  then show ?thesis using l by simp
qed

text \<open>
  Leadership ends with the lease. After a heartbeat that is answered no earlier than one lease
  after the last confirmed one, a pod on Redis still leads only if Redis has just confirmed that its
  token owns the key; an error, a lost key and a missing registration all end the leadership.
\<close>

theorem stale_heartbeat_demotes:
  assumes "lock h = RedisLock reg" and "at - lastOK \<ge> ttl h"
    and "RefreshLock (ttl h) t n (lock h) r = (res, l, r')"
  shows "IsLeader (holdTurn res at lastOK (h\<lparr>lock := l\<rparr>)) = (IsLeader h \<and> res = Some True) \<and>
    (res = Some True \<longrightarrow> (\<exists>tok. reg = Some tok \<and> redisGET t r = Some tok \<and> r' = Some (tok, t + msFloor (ttl h))))"
  using assms
  by (auto simp: holdTurn_def IsLeader_def refreshOutlivedLease_def RefreshLock_def refreshScript_def
      split: option.splits bool.splits if_splits prod.splits)

theorem stale_heartbeat_demotes_witness:
  "\<not> IsLeader (holdTurn None (60 * sec) 0 ((NewLeaderHolder (RedisLock (Some 1)) (60 * sec))\<lparr>held := True, lock := RedisLock (Some 1)\<rparr>))"
  using stale_heartbeat_demotes [of "(NewLeaderHolder (RedisLock (Some 1)) (60 * sec))\<lparr>held := True\<rparr>" "Some 1" "60 * sec" 0
      "60 * sec" "NetErr False" None None "RedisLock (Some 1)" None]
  by (simp add: NewLeaderHolder_def RefreshLock_def executed_def Let_def sec_def)

text \<open>
  The end of a degraded start: once the no-op lock has been swapped for Redis, the next heartbeat
  of a pod that led without a lease ends its leadership, without touching Redis.
\<close>

theorem swap_converges:
  assumes "phase (pods s p) = Holding k"
  shows "\<not> IsLeader (pods (podHeartbeat p k n d (podSwap p s)) p) \<and>
    server (podHeartbeat p k n d (podSwap p s)) = server s"
  by (simp add: podHeartbeat_def podSwap_def SwapLock_def RefreshLock_def holdTurn_def IsLeader_def Let_def)

theorem swap_converges_witness:
  "\<not> IsLeader (pods (podHeartbeat 0 0 NetOK 0 (podSwap 0 (podAcquire 0 1 NetOK 0
      (bootFleet\<lparr>pods := (\<lambda>_. NewLeaderHolder NoopLock 0)\<rparr>)))) 0)"
  by (rule swap_converges [THEN conjunct1])
    (simp add: podAcquire_def bootFleet_def NewLeaderHolder_def TryAcquire_def acquireTurn_def Let_def)

text \<open>
  A release never takes the lease away from another pod: unless the key holds the pod's own token,
  the server is unchanged, and the pod forgets its token in any case.
\<close>

theorem Release_own_only:
  "case Release t n l r of (l', r') \<Rightarrow>
     (r' = r \<or> (\<exists>tok. l = RedisLock (Some tok) \<and> redisGET t r = Some tok \<and> r' = None)) \<and>
     (l' = NoopLock \<or> l' = RedisLock None)"
  by (auto simp: Release_def releaseScript_def split: lockImpl.split option.split)

text \<open>
  Lease times stay in their bounds for every tick interval, overflow of the multiplication
  included, and a holder sends at least two heartbeats within a lease.
\<close>

theorem LeaderTTL_bounds:
  "30 * sec \<le> LeaderTTL i \<and> LeaderTTL i \<le> 600 * sec \<and>
   3 * refresh (NewLeaderHolder l t) \<le> ttl (NewLeaderHolder l t) \<and> sec \<le> refresh (NewLeaderHolder l t) \<and>
   acquireRetryInterval (refresh (NewLeaderHolder l t)) \<le> 10 * sec"
  by (auto simp: LeaderTTL_def NewLeaderHolder_def acquireRetryInterval_def sec_def Let_def)

end
