(* ===== verification/SourceState.thy ===== *)
theory SourceState
  imports UTF8
begin

text \<open>
  The outcome contract of data source reads (\<open>internal/sourcestate/sourcestate.go\<close>): ten states ordered by
  how much they restrict what a result proves, the status of a successful and of a failed read, the
  classification of errors and the notes added later. A Go error is represented by what the code
  asks of it: which sentinels it wraps, whether it is a network error that timed out, whether it
  wraps a \<open>net.OpError\<close>, and its text. Instants are given already formatted (\<open>None\<close> is the zero time).
\<close>

section \<open>States\<close>

datatype State = SOK | SEmpty | SUnreachable | SUnauthorized | STimeout | SPartial | SDelayed
  | STruncated | SNotConfigured | SError

definition statePriority :: "State \<Rightarrow> nat" where
  "statePriority s =
     (case s of
        SUnauthorized \<Rightarrow> 0 | SUnreachable \<Rightarrow> 1 | STimeout \<Rightarrow> 2 | SNotConfigured \<Rightarrow> 3 | SError \<Rightarrow> 4
      | SPartial \<Rightarrow> 5 | STruncated \<Rightarrow> 6 | SDelayed \<Rightarrow> 7 | SEmpty \<Rightarrow> 8 | SOK \<Rightarrow> 9)"

lemma statePriority_inj: "statePriority a = statePriority b \<longleftrightarrow> a = b"
  by (cases a; cases b) (simp_all add: statePriority_def)

text \<open>States in the order of restriction, the most restrictive first.\<close>

instantiation State :: linorder
begin

definition less_eq_State :: "State \<Rightarrow> State \<Rightarrow> bool" where
  "less_eq_State a b \<longleftrightarrow> statePriority a \<le> statePriority b"

definition less_State :: "State \<Rightarrow> State \<Rightarrow> bool" where
  "less_State a b \<longleftrightarrow> statePriority a < statePriority b"

instance
  by standard (auto simp: less_eq_State_def less_State_def statePriority_inj dest: le_antisym)

end

fun primary_loop :: "State list \<Rightarrow> State \<Rightarrow> nat \<Rightarrow> State" where
  "primary_loop [] best bestP = best"
| "primary_loop (f # flags) best bestP =
     (if statePriority f < bestP then primary_loop flags f (statePriority f) else primary_loop flags best bestP)"

definition primary :: "State list \<Rightarrow> State \<Rightarrow> State" where
  "primary flags fallback = primary_loop flags fallback (statePriority fallback)"

fun hasFlag :: "State list \<Rightarrow> State \<Rightarrow> bool" where
  "hasFlag [] f = False"
| "hasFlag (x # flags) f = (if x = f then True else hasFlag flags f)"

section \<open>Statuses\<close>

record Status =
  Source :: string
  Backend :: string
  StState :: State
  Flags :: "State list"
  Returned :: int
  StLimit :: int
  FromISO :: string
  ToISO :: string
  Detail :: string
  Notes :: "string list"

record Outcome =
  ORet :: int
  OLimit :: int
  OPartial :: bool
  OTruncated :: bool
  ODelayed :: bool

definition outcomeFlags :: "Outcome \<Rightarrow> State list" where
  "outcomeFlags o' =
     (if OPartial o' then [SPartial] else []) @ (if OTruncated o' then [STruncated] else []) @
     (if ODelayed o' then [SDelayed] else []) @ (if ORet o' = 0 then [SEmpty] else [])"

definition status0 :: "string \<Rightarrow> string \<Rightarrow> State \<Rightarrow> Status" where
  "status0 source backend st =
     \<lparr>Source = source, Backend = backend, StState = st, Flags = [], Returned = 0, StLimit = 0,
      FromISO = [], ToISO = [], Detail = [], Notes = []\<rparr>"

definition Result :: "string \<Rightarrow> string \<Rightarrow> Outcome \<Rightarrow> Status" where
  "Result source backend o' =
     (let flags = outcomeFlags o' in
      (status0 source backend (primary flags SOK))
        \<lparr>Returned := ORet o', StLimit := OLimit o', Flags := (if length flags > 1 then flags else [])\<rparr>)"

section \<open>Errors\<close>

record goError =
  isUnauthorized :: bool
  isNotConfigured :: bool
  isDeadline :: bool
  isCanceled :: bool
  netTimeout :: bool
  isOpError :: bool
  errText :: string

definition unauthorizedSignals :: "string list" where
  "unauthorizedSignals =
     [''status 401'', ''status 403'', ''http 401'', ''http 403'', ''status: 401'', ''status: 403'',
      ''401 unauthorized'', ''403 forbidden'', ''security_exception'',
      ''authentication_exception'', ''source unauthorized'']"

definition timeoutSignals :: "string list" where
  "timeoutSignals =
     [''deadline exceeded'', ''context deadline'', ''timeout exceeded'', ''timeout_exceeded'',
      ''code: 159'', ''max_execution_time'', ''client.timeout exceeded'', ''i/o timeout'',
      ''gateway timeout'', ''http 504'', ''status 504'']"

definition notConfiguredSignals :: "string list" where
  "notConfiguredSignals =
     [''not configured'',
      ''yap'' @ [CHR 0xC4, CHR 0xB1] @ ''land'' @ [CHR 0xC4, CHR 0xB1] @ ''r'' @ [CHR 0xC4, CHR 0xB1] @ ''lmam'' @ [CHR 0xC4, CHR 0xB1, CHR 0xC5, CHR 0x9F]]"

definition unreachableSignals :: "string list" where
  "unreachableSignals =
     [''connection refused'', ''connection reset'', ''no such host'', ''no route to host'',
      ''network is unreachable'', ''dial tcp'', ''broken pipe'', ''unexpected eof'',
      ''slow/unreachable'', ''service unavailable'', ''bad gateway'', ''http 502'', ''http 503'',
      ''status 502'', ''status 503'']"

definition IsUnauthorizedText :: "string \<Rightarrow> bool" where
  "IsUnauthorizedText s = list_ex (Contains s) unauthorizedSignals"

definition IsCancelled :: "goError option \<Rightarrow> bool" where
  "IsCancelled err = (case err of None \<Rightarrow> False | Some e \<Rightarrow> isCanceled e)"

definition classifyText :: "goError \<Rightarrow> string \<Rightarrow> State" where
  "classifyText e s =
     (if IsUnauthorizedText s then SUnauthorized
      else if list_ex (Contains s) timeoutSignals then STimeout
      else if isOpError e then SUnreachable
      else if list_ex (Contains s) notConfiguredSignals then SNotConfigured
      else if list_ex (Contains s) unreachableSignals then SUnreachable
      else SError)"

text \<open>\<open>strings.ToLower\<close> is applied to the error text and is an argument.\<close>

definition ClassifyError :: "(string \<Rightarrow> string) \<Rightarrow> goError option \<Rightarrow> State" where
  "ClassifyError lower err =
     (case err of
        None \<Rightarrow> SOK
      | Some e \<Rightarrow>
          if isUnauthorized e then SUnauthorized
          else if isNotConfigured e then SNotConfigured
          else if isDeadline e then STimeout
          else if isCanceled e then SError
          else if netTimeout e then STimeout
          else classifyText e (lower (errText e)))"

text \<open>The byte index of the rune after \<open>n\<close> runes, if there is one.\<close>

function runeIndex :: "nat \<Rightarrow> string \<Rightarrow> nat option" where
  "runeIndex n s =
     (if s = [] then None
      else if n = 0 then Some 0
      else map_option ((+) (snd (decodeRune s))) (runeIndex (n - 1) (drop (snd (decodeRune s)) s)))"
  by pat_completeness auto
termination by (relation "measure fst") auto

declare runeIndex.simps [simp del]

definition capRunes :: "string \<Rightarrow> nat \<Rightarrow> string" where
  "capRunes s maxR = (case runeIndex maxR s of Some i \<Rightarrow> take i s @ [CHR 0xE2, CHR 0x80, CHR 0xA6] | None \<Rightarrow> s)"

definition FromError :: "(string \<Rightarrow> string) \<Rightarrow> string \<Rightarrow> string \<Rightarrow> goError option \<Rightarrow> Status" where
  "FromError lower source backend err =
     (let st = status0 source backend (ClassifyError lower err) in
      case err of None \<Rightarrow> st | Some e \<Rightarrow> st\<lparr>Detail := capRunes (errText e) 200\<rparr>)"

section \<open>Refinements of a status\<close>

definition WithWindow :: "string option \<Rightarrow> string option \<Rightarrow> Status \<Rightarrow> Status" where
  "WithWindow fromT toT s =
     (let s = (case fromT of None \<Rightarrow> s | Some t \<Rightarrow> s\<lparr>FromISO := t\<rparr>) in
      case toT of None \<Rightarrow> s | Some t \<Rightarrow> s\<lparr>ToISO := t\<rparr>)"

definition WithNote :: "string \<Rightarrow> bool \<Rightarrow> Status \<Rightarrow> Status" where
  "WithNote note partial s0 =
     (let s = (if note \<noteq> [] then s0\<lparr>Notes := Notes s0 @ [note]\<rparr> else s0) in
      if partial \<and> StState s \<noteq> SPartial \<and> \<not> hasFlag (Flags s) SPartial
      then (let flags = (if Flags s = [] then [StState s] else Flags s) @ [SPartial] in
            s\<lparr>StState := primary flags (StState s), Flags := flags\<rparr>)
      else s)"

definition Usable :: "Status \<Rightarrow> bool" where
  "Usable s \<longleftrightarrow> StState s \<in> {SOK, SEmpty, SPartial, STruncated, SDelayed}"

definition summaryMsg :: "State \<Rightarrow> string" where
  "summaryMsg st =
     (case st of
        SOK \<Rightarrow> ''ba'' @ [CHR 0xC5, CHR 0x9F] @ ''ar'' @ [CHR 0xC4, CHR 0xB1] @ ''l'' @ [CHR 0xC4, CHR 0xB1]
      | SEmpty \<Rightarrow> ''sorgu ba'' @ [CHR 0xC5, CHR 0x9F] @ ''ar'' @ [CHR 0xC4, CHR 0xB1] @ ''l'' @ [CHR 0xC4, CHR 0xB1] @ '', e'' @ [CHR 0xC5, CHR 0x9F] @ ''le'' @ [CHR 0xC5, CHR 0x9F] @ ''en kay'' @ [CHR 0xC4, CHR 0xB1] @ ''t yok (bu '' @ [CHR 0x27] @ ''hata yok'' @ [CHR 0x27] @ '' ya da '' @ [CHR 0x27] @ ''sorun yok'' @ [CHR 0x27] @ '' demek DE'' @ [CHR 0xC4, CHR 0x9E, CHR 0xC4, CHR 0xB0] @ ''L)''
      | SUnreachable \<Rightarrow> ''kayna'' @ [CHR 0xC4, CHR 0x9F] @ ''a eri'' @ [CHR 0xC5, CHR 0x9F] @ ''ilemedi '' @ [CHR 0xE2, CHR 0x80, CHR 0x94] @ '' bu kaynaktan kan'' @ [CHR 0xC4, CHR 0xB1] @ ''t YOK, kapsam eksik''
      | SUnauthorized \<Rightarrow> ''kaynak yetki reddi verdi (401/403) '' @ [CHR 0xE2, CHR 0x80, CHR 0x94] @ '' bu kaynaktan kan'' @ [CHR 0xC4, CHR 0xB1] @ ''t YOK, kapsam eksik''
      | STimeout \<Rightarrow> ''sorgu zaman a'' @ [CHR 0xC5, CHR 0x9F, CHR 0xC4, CHR 0xB1] @ ''m'' @ [CHR 0xC4, CHR 0xB1] @ ''na u'' @ [CHR 0xC4, CHR 0x9F] @ ''rad'' @ [CHR 0xC4, CHR 0xB1] @ '' '' @ [CHR 0xE2, CHR 0x80, CHR 0x94] @ '' bu kaynaktan kan'' @ [CHR 0xC4, CHR 0xB1] @ ''t YOK ya da eksik''
      | SPartial \<Rightarrow> ''sonu'' @ [CHR 0xC3, CHR 0xA7] @ '' k'' @ [CHR 0xC4, CHR 0xB1] @ ''smi '' @ [CHR 0xE2, CHR 0x80, CHR 0x94] @ '' kapsam eksik''
      | SDelayed \<Rightarrow> ''veri gecikmi'' @ [CHR 0xC5, CHR 0x9F] @ '' '' @ [CHR 0xE2, CHR 0x80, CHR 0x94] @ '' pencerenin sonu hen'' @ [CHR 0xC3, CHR 0xBC] @ ''z kaynakta yok''
      | STruncated \<Rightarrow> ''sonu'' @ [CHR 0xC3, CHR 0xA7] @ '' limite tak'' @ [CHR 0xC4, CHR 0xB1] @ ''ld'' @ [CHR 0xC4, CHR 0xB1] @ '' '' @ [CHR 0xE2, CHR 0x80, CHR 0x94] @ '' tamam'' @ [CHR 0xC4, CHR 0xB1] @ '' de'' @ [CHR 0xC4, CHR 0x9F] @ ''il''
      | SNotConfigured \<Rightarrow> ''kaynak yap'' @ [CHR 0xC4, CHR 0xB1] @ ''land'' @ [CHR 0xC4, CHR 0xB1] @ ''r'' @ [CHR 0xC4, CHR 0xB1] @ ''lmam'' @ [CHR 0xC4, CHR 0xB1, CHR 0xC5, CHR 0x9F] @ '' '' @ [CHR 0xE2, CHR 0x80, CHR 0x94] @ '' bu kaynaktan kan'' @ [CHR 0xC4, CHR 0xB1] @ ''t YOK''
      | SError \<Rightarrow> ''s'' @ [CHR 0xC4, CHR 0xB1] @ ''n'' @ [CHR 0xC4, CHR 0xB1] @ ''fland'' @ [CHR 0xC4, CHR 0xB1] @ ''r'' @ [CHR 0xC4, CHR 0xB1] @ ''lamayan hata '' @ [CHR 0xE2, CHR 0x80, CHR 0x94] @ '' bu kaynaktan kan'' @ [CHR 0xC4, CHR 0xB1] @ ''t YOK'')"

definition SummaryTR :: "Status \<Rightarrow> string" where
  "SummaryTR s =
     (let src = Source s @ (if Backend s \<noteq> [] then ''/'' @ Backend s else []);
          out = src @ '': '' @ summaryMsg (StState s) in
      if Notes s \<noteq> [] then out @ '' ('' @ Join (Notes s) ''; '' @ '')'' else out)"

section \<open>Lemmas\<close>

lemma primary_loop_min: "primary_loop flags best (statePriority best) = Min (insert best (set flags))"
proof (induction flags arbitrary: best)
  case (Cons f flags)
  have "(if f < best then Min (insert f (set flags)) else Min (insert best (set flags))) =
      Min (insert best (insert f (set flags)))"
    by (cases "set flags = {}") (auto simp: min_def not_less insert_commute)
  with Cons show ?case by (simp add: less_State_def [symmetric] split: if_splits)
qed simp

lemma primary_min: "primary flags fb = Min (insert fb (set flags))"
  by (simp add: primary_def primary_loop_min)

lemma hasFlag_iff: "hasFlag fs f \<longleftrightarrow> f \<in> set fs"
  by (induction fs) auto

lemma Usable_iff: "Usable s \<longleftrightarrow> SPartial \<le> StState s"
  by (cases "StState s") (auto simp: Usable_def less_eq_State_def statePriority_def)

text \<open>The primary state is the most restrictive flag; without flags there is only the state.\<close>

definition status_inv :: "Status \<Rightarrow> bool" where
  "status_inv s \<longleftrightarrow> Flags s = [] \<or> StState s = Min (set (Flags s))"

lemma WithNote_state:
  "status_inv s \<Longrightarrow> StState (WithNote note partial s) = (if partial then min SPartial (StState s) else StState s)"
proof -
  assume inv: "status_inv s"
  have "SPartial \<in> set (Flags s) \<Longrightarrow> StState s \<le> SPartial"
    using inv by (auto simp: status_inv_def)
  moreover have "Flags s \<noteq> [] \<Longrightarrow> Min (insert SPartial (set (Flags s))) = min SPartial (StState s)"
    using inv by (auto simp: status_inv_def)
  ultimately show ?thesis
    using inv by (auto simp: WithNote_def Let_def hasFlag_iff primary_min min_def status_inv_def insert_commute intro!: Min_eqI)
qed

lemma WithNote_inv: "status_inv s \<Longrightarrow> status_inv (WithNote note partial s)"
proof -
  assume "status_inv s"
  then show ?thesis
    by (cases "Flags s = []")
      (auto simp: status_inv_def WithNote_def Let_def hasFlag_iff primary_min insert_commute)
qed

lemma Result_inv: "status_inv (Result source backend o')"
proof -
  let ?fs = "outcomeFlags o'"
  have "x \<le> SOK" for x by (cases x) (simp_all add: less_eq_State_def statePriority_def)
  then have "?fs \<noteq> [] \<Longrightarrow> Min (insert SOK (set ?fs)) = Min (set ?fs)" by (simp add: min_absorb2)
  then show ?thesis
    by (cases "?fs = []") (simp_all add: status_inv_def Result_def Let_def primary_min status0_def del: Min_insert)
qed

lemma Result_state:
  "StState (Result source backend o') =
     (if OPartial o' then SPartial else if OTruncated o' then STruncated else if ODelayed o' then SDelayed
      else if ORet o' = 0 then SEmpty else SOK)"
  by (cases "OPartial o'"; cases "OTruncated o'"; cases "ODelayed o'"; cases "ORet o' = 0")
    (simp_all add: Result_def status0_def outcomeFlags_def primary_def statePriority_def Let_def)

definition withNotes :: "(string \<times> bool) list \<Rightarrow> Status \<Rightarrow> Status" where
  "withNotes ns s = fold (\<lambda>(n, p). WithNote n p) ns s"

lemma withNotes_state:
  "status_inv s \<Longrightarrow> StState (withNotes ns s) = (if \<exists>n. (n, True) \<in> set ns then min SPartial (StState s) else StState s)"
proof (induction ns arbitrary: s)
  case (Cons a ns)
  obtain n p where a: "a = (n, p)" by force
  from Cons.prems have "status_inv (WithNote n p s)" "StState (WithNote n p s) = (if p then min SPartial (StState s) else StState s)"
    by (simp_all add: WithNote_inv WithNote_state)
  with Cons.IH [of "WithNote n p s"] a show ?case by (auto simp: withNotes_def)
qed (simp add: withNotes_def)

lemma ClassifyError_restrictive: "ClassifyError lower (Some e) < SPartial"
  by (simp add: ClassifyError_def classifyText_def less_State_def statePriority_def)

section \<open>Properties\<close>

text \<open>
  A failed read never looks like an answer, and an answer never like a failure: whatever the error
  and whatever notes are added later, the status of a failed read is not usable as evidence, and
  that of a successful read is.
\<close>

theorem failure_never_usable:
  "\<not> Usable (withNotes ns (FromError lower source backend (Some e))) \<and> Usable (withNotes ns (Result source backend o'))"
proof
  have "status_inv (FromError lower source backend (Some e))"
    by (simp add: status_inv_def FromError_def status0_def)
  then have "StState (withNotes ns (FromError lower source backend (Some e))) < SPartial"
    using ClassifyError_restrictive [of lower e]
    by (auto simp: withNotes_state FromError_def status0_def min_def)
  then show "\<not> Usable (withNotes ns (FromError lower source backend (Some e)))" by (simp add: Usable_iff)
  have "SPartial \<le> StState (Result source backend o')"
    by (simp add: Result_state less_eq_State_def statePriority_def)
  then show "Usable (withNotes ns (Result source backend o'))"
    by (auto simp: Usable_iff withNotes_state [OF Result_inv] min_def)
qed

text \<open>
  The primary state is the most restrictive one that holds: \<open>ok\<close> is reported exactly for a complete,
  current read that returned records, and every flag that holds is at most as restrictive as the
  reported state.
\<close>

theorem Result_primary:
  "StState (Result source backend o') = Min (insert SOK (set (outcomeFlags o'))) \<and>
   (StState (Result source backend o') = SOK \<longleftrightarrow>
      \<not> OPartial o' \<and> \<not> OTruncated o' \<and> \<not> ODelayed o' \<and> ORet o' \<noteq> 0)"
proof
  show "StState (Result source backend o') = Min (insert SOK (set (outcomeFlags o')))"
    by (simp add: Result_def primary_min status0_def Let_def)
qed (simp add: Result_state)

end
