(* ===== verification/Drain.thy ===== *)
theory Drain
  imports GoInt Complex_Main "HOL-Library.AList" "HOL-Library.Multiset"
begin

text \<open>
  The online log template miner (\<open>internal/templater/drain.go\<close>) and the family predicate on stored
  templates (\<open>internal/templater/family.go\<close>). The tree of nodes is a value that \<open>Add\<close> returns
  rebuilt; children maps are association lists. Similarities are exact fractions: with fewer than
  \<open>2 ^ 50\<close> tokens the correctly rounded quotients of the source compare in the same way. The tokens of
  a line (masking by regular expressions in \<open>masker.go\<close>) and the hexadecimal SHA-1 are arguments; the
  mutex is left out, each call being one step.
\<close>

section \<open>Clusters and nodes\<close>

definition wildcard :: string where "wildcard = ''<*>''"

record Cluster =
  ID :: string
  Template :: "string list"
  Count :: nat
  FirstSeen :: int
  LastSeen :: int
  Services :: "string list"
  Sample :: string

datatype node = Node (children: "(string \<times> node) list") (clusters: "Cluster list")

record DrainT =
  Depth :: int
  MaxChildren :: int
  SimThreshold :: rat
  root :: node
  overflowHits :: nat
  resetCount :: nat

definition emptyNode :: node where "emptyNode = Node [] []"

definition NewDrain :: DrainT where
  "NewDrain = \<lparr>Depth = 4, MaxChildren = 100, SimThreshold = 2 / 5, root = emptyNode, overflowHits = 0, resetCount = 0\<rparr>"

section \<open>Helpers\<close>

function dec_loop :: "int \<Rightarrow> string \<Rightarrow> string" where
  "dec_loop n out = (if n > 0 then dec_loop (n div 10) (digit (nat (n mod 10)) # out) else out)"
  by pat_completeness auto
termination by (relation "measure (\<lambda>(n, out). nat n)") auto

declare dec_loop.simps [simp del]

definition drainItoa :: "int \<Rightarrow> string" where
  "drainItoa n = (if n = 0 then ''0'' else dec_loop n [])"

definition tokenCountKey :: "int \<Rightarrow> string" where
  "tokenCountKey n = (if n > 50 then ''50+'' else drainItoa n)"

definition similarity :: "string list \<Rightarrow> string list \<Rightarrow> rat" where
  "similarity template tokens =
     (if template = [] then 0
      else if length tokens \<noteq> length template then 0
      else rat_of_nat (length (filter (\<lambda>(t, x). t = wildcard \<or> t = x) (zip template tokens))) / rat_of_nat (length template))"

definition clusterID :: "(string \<Rightarrow> string) \<Rightarrow> string list \<Rightarrow> string" where
  "clusterID sha template = take 16 (sha (Join template '' ''))"

definition addService :: "string \<Rightarrow> Cluster \<Rightarrow> Cluster" where
  "addService service c =
     (if service = [] then c
      else if service \<in> set (Services c) then c
      else if length (Services c) \<ge> 5 then c
      else c\<lparr>Services := Services c @ [service]\<rparr>)"

definition TemplateString :: "Cluster \<Rightarrow> string" where
  "TemplateString c = Join (Template c) '' ''"

definition routePrefixLen :: "int \<Rightarrow> int \<Rightarrow> int" where
  "routePrefixLen depth n = (let r = depth - 1; r = (if r > n then n else r) in if r < 0 then 0 else r)"

section \<open>Walking the tree\<close>

lemma size_child_list: "p \<in> set ch \<Longrightarrow> size (snd p) < Suc (size_list (size_prod (\<lambda>_. 0) size) ch)"
proof (induction ch)
  case (Cons q ch)
  then show ?case by (cases p; cases q) auto
qed simp

lemma child_smaller: "p \<in> set (children n) \<Longrightarrow> size (snd p) < size n"
  using size_child_list [of p "children n"] by (cases n) auto

text \<open>The key that is followed, the children with it present, and the overflow count to add.\<close>

definition childOrCreate :: "int \<Rightarrow> (string \<times> node) list \<Rightarrow> string \<Rightarrow> string \<times> (string \<times> node) list \<times> nat" where
  "childOrCreate maxChildren ch key =
     (if map_of ch key \<noteq> None then (key, ch, 0)
      else
        (let over = (int (length ch) \<ge> maxChildren); key' = (if over then ''*'' else key) in
         if map_of ch key' \<noteq> None then (key', ch, of_bool over)
         else (key', AList.update key' emptyNode ch, of_bool over)))"

fun bestMatch :: "string list \<Rightarrow> Cluster list \<Rightarrow> nat \<Rightarrow> rat \<Rightarrow> nat option \<Rightarrow> rat \<times> nat option" where
  "bestMatch tokens [] i bestSim bestIdx = (bestSim, bestIdx)"
| "bestMatch tokens (c # cs) i bestSim bestIdx =
     (let sim = similarity (Template c) tokens in
      if sim > bestSim then bestMatch tokens cs (i + 1) sim (Some i) else bestMatch tokens cs (i + 1) bestSim bestIdx)"

fun refineT :: "string list \<Rightarrow> string list \<Rightarrow> string list" where
  "refineT (t # ts) (x # xs) = (if t \<noteq> x then wildcard else t) # refineT ts xs"
| "refineT ts _ = ts"

definition refineCluster :: "(string \<Rightarrow> string) \<Rightarrow> string list \<Rightarrow> string \<Rightarrow> string \<Rightarrow> int \<Rightarrow> Cluster \<Rightarrow> Cluster" where
  "refineCluster sha tokens line service ts c =
     (let template = refineT (Template c) tokens;
          c1 = addService service (c\<lparr>Template := template, ID := clusterID sha template, Count := Count c + 1, LastSeen := ts\<rparr>) in
      if Sample c1 = [] then c1\<lparr>Sample := line\<rparr> else c1)"

definition newCluster :: "(string \<Rightarrow> string) \<Rightarrow> string list \<Rightarrow> string \<Rightarrow> string \<Rightarrow> int \<Rightarrow> Cluster" where
  "newCluster sha tokens line service ts =
     \<lparr>ID = clusterID sha tokens, Template = tokens, Count = 1, FirstSeen = ts, LastSeen = ts,
      Services = (if service \<noteq> [] then [service] else []), Sample = line\<rparr>"

text \<open>The leaf: the clusters after the line and the cluster it went to.\<close>

definition leafAdd ::
  "(string \<Rightarrow> string) \<Rightarrow> rat \<Rightarrow> string list \<Rightarrow> string \<Rightarrow> string \<Rightarrow> int \<Rightarrow> Cluster list \<Rightarrow> Cluster list \<times> Cluster" where
  "leafAdd sha thr tokens line service ts cs =
     (let (bestSim, bestIdx) = bestMatch tokens cs 0 0 None; new = newCluster sha tokens line service ts in
      case bestIdx of
        Some i \<Rightarrow>
          if bestSim \<ge> thr
          then (let c = refineCluster sha tokens line service ts (cs ! i) in (cs[i := c], c))
          else (cs @ [new], new)
      | None \<Rightarrow> (cs @ [new], new))"

fun walkAdd ::
  "int \<Rightarrow> (Cluster list \<Rightarrow> Cluster list \<times> Cluster) \<Rightarrow> string list \<Rightarrow> node \<Rightarrow> node \<times> Cluster \<times> nat" where
  "walkAdd maxC leaf [] n = (let (cs, c) = leaf (clusters n) in (Node (children n) cs, c, 0))"
| "walkAdd maxC leaf (k # ks) n =
     (let (k', ch, o1) = childOrCreate maxC (children n) k;
          (child, c, o2) = walkAdd maxC leaf ks (the (map_of ch k')) in
      (Node (AList.update k' child ch) (clusters n), c, o1 + o2))"

definition routeKeys :: "int \<Rightarrow> string list \<Rightarrow> string list" where
  "routeKeys depth tokens =
     tokenCountKey (int (length tokens)) #
     map (\<lambda>t. if t = wildcard then ''*'' else t) (take (nat (routePrefixLen depth (int (length tokens)))) tokens)"

text \<open>\<open>Add\<close> on the tokens of the line; \<open>None\<close> is the nil cluster of an empty line.\<close>

definition Add ::
  "(string \<Rightarrow> string list) \<Rightarrow> (string \<Rightarrow> string) \<Rightarrow> string \<Rightarrow> string \<Rightarrow> int \<Rightarrow> DrainT \<Rightarrow> DrainT \<times> Cluster option" where
  "Add Tokenize sha line service ts d =
     (let tokens = Tokenize line in
      if tokens = [] then (d, None)
      else
        (let (r, c, over) = walkAdd (MaxChildren d) (leafAdd sha (SimThreshold d) tokens line service ts)
               (routeKeys (Depth d) tokens) (root d) in
         (d\<lparr>root := r, overflowHits := overflowHits d + over\<rparr>, Some c)))"

definition Reset :: "DrainT \<Rightarrow> DrainT" where
  "Reset d = d\<lparr>root := emptyNode, resetCount := resetCount d + 1\<rparr>"

text \<open>\<open>walkClusters\<close> and \<open>walkCount\<close>.\<close>

function walkClusters :: "node \<Rightarrow> Cluster list" where
  "walkClusters n = clusters n @ concat (map (\<lambda>p. walkClusters (snd p)) (children n))"
  by pat_completeness auto
termination by (relation "measure size") (auto simp: child_smaller)

declare walkClusters.simps [simp del]

function walkCount :: "node \<Rightarrow> nat" where
  "walkCount n = 1 + sum_list (map (\<lambda>p. walkCount (snd p)) (children n))"
  by pat_completeness auto
termination by (relation "measure size") (auto simp: child_smaller)

declare walkCount.simps [simp del]

definition Snapshot :: "DrainT \<Rightarrow> Cluster list" where
  "Snapshot d = walkClusters (root d)"

record DrainStats =
  NodeCount :: nat
  ClusterCount :: nat
  SOverflowHits :: nat
  SResetCount :: nat

definition Stats :: "DrainT \<Rightarrow> DrainStats" where
  "Stats d = \<lparr>NodeCount = walkCount (root d), ClusterCount = length (walkClusters (root d)),
     SOverflowHits = overflowHits d, SResetCount = resetCount d\<rparr>"

section \<open>Templates and lines\<close>

text \<open>A template covers a token list of the same length that agrees with it but for wildcards.\<close>

definition covers :: "string list \<Rightarrow> string list \<Rightarrow> bool" where
  "covers t x \<longleftrightarrow> list_all2 (\<lambda>a b. a = wildcard \<or> a = b) t x"

lemma covers_refl: "covers t t"
  by (simp add: covers_def list_all2_refl)

lemma refineT_length: "length (refineT t x) = length t"
  by (induction t x rule: refineT.induct) auto

lemma refineT_covers: "length t = length x \<Longrightarrow> covers (refineT t x) x"
  by (induction t x rule: refineT.induct) (auto simp: covers_def)

lemma refineT_mono: "covers t y \<Longrightarrow> covers (refineT t x) y"
proof (induction t x arbitrary: y rule: refineT.induct)
  case (1 t ts x xs)
  then show ?case by (cases y) (auto simp: covers_def)
qed (auto simp: covers_def)

lemma similarity_nonzero: "similarity t x \<noteq> 0 \<Longrightarrow> length t = length x \<and> t \<noteq> []"
  by (auto simp: similarity_def split: if_splits)

lemma bestMatch_result:
  "bestMatch tokens cs i bs bi = (s, Some j) \<Longrightarrow>
     (s, Some j) = (bs, bi) \<or> (i \<le> j \<and> j < i + length cs \<and> s > bs \<and> similarity (Template (cs ! (j - i))) tokens = s)"
proof (induction tokens cs i bs bi rule: bestMatch.induct)
  case (2 tokens c cs i bs bi)
  let ?sim = "similarity (Template c) tokens"
  show ?case
  proof (cases "?sim > bs")
    case True
    with 2 have "(s, Some j) = (?sim, Some i) \<or> (i + 1 \<le> j \<and> j < i + 1 + length cs \<and> s > ?sim \<and>
        similarity (Template (cs ! (j - (i + 1)))) tokens = s)" by (simp add: Let_def)
    with True show ?thesis by (auto simp: nth_Cons')
  next
    case False
    with 2 have "(s, Some j) = (bs, bi) \<or> (i + 1 \<le> j \<and> j < i + 1 + length cs \<and> s > bs \<and>
        similarity (Template (cs ! (j - (i + 1)))) tokens = s)" by (simp add: Let_def)
    then show ?thesis by (auto simp: nth_Cons')
  qed
qed simp

section \<open>The leaf\<close>

text \<open>Either a cluster of the same length is refined in place, or a new one is appended.\<close>

lemma leafAdd_cases:
  assumes "leafAdd sha thr tokens line service ts cs = (cs', c)"
  obtains (hit) j where "j < length cs" "length (Template (cs ! j)) = length tokens"
      "c = refineCluster sha tokens line service ts (cs ! j)" "cs' = cs[j := c]"
  | (fresh) "c = newCluster sha tokens line service ts" "cs' = cs @ [c]"
proof -
  obtain s bi where b: "bestMatch tokens cs 0 0 None = (s, bi)" by force
  show ?thesis
  proof (cases "\<exists>j. bi = Some j \<and> s \<ge> thr")
    case True
    then obtain j where j: "bi = Some j" "s \<ge> thr" by blast
    with bestMatch_result [of tokens cs 0 0 None s j] b
    have "j < length cs" "similarity (Template (cs ! j)) tokens \<noteq> 0" by auto
    with similarity_nonzero j b assms show ?thesis
      by (intro hit [of j]) (auto simp: leafAdd_def Let_def)
  next
    case False
    with b assms show ?thesis by (intro fresh) (auto simp: leafAdd_def Let_def split: option.splits if_splits)
  qed
qed

lemma addService_fields [simp]:
  "Template (addService s c) = Template c" "Count (addService s c) = Count c" "ID (addService s c) = ID c"
  by (simp_all add: addService_def)

lemma refineCluster_fields [simp]:
  "Template (refineCluster sha tokens line service ts c) = refineT (Template c) tokens"
  "Count (refineCluster sha tokens line service ts c) = Count c + 1"
  "ID (refineCluster sha tokens line service ts c) = clusterID sha (refineT (Template c) tokens)"
  by (simp_all add: refineCluster_def Let_def)

lemma newCluster_fields [simp]:
  "Template (newCluster sha tokens line service ts) = tokens" "Count (newCluster sha tokens line service ts) = 1"
  "ID (newCluster sha tokens line service ts) = clusterID sha tokens"
  by (simp_all add: newCluster_def)

definition cluster_ok :: "(string \<Rightarrow> string) \<Rightarrow> Cluster \<Rightarrow> bool" where
  "cluster_ok sha c \<longleftrightarrow>
     ID c = clusterID sha (Template c) \<and> Template c \<noteq> [] \<and> 0 < Count c \<and>
     length (Services c) \<le> 5 \<and> distinct (Services c) \<and> [] \<notin> set (Services c)"

lemma refineCluster_ok: "cluster_ok sha c \<Longrightarrow> cluster_ok sha (refineCluster sha tokens line service ts c)"
  using refineT_length [of "Template c" tokens]
  by (auto simp: cluster_ok_def refineCluster_def addService_def Let_def)

lemma newCluster_ok: "tokens \<noteq> [] \<Longrightarrow> cluster_ok sha (newCluster sha tokens line service ts)"
  by (simp add: cluster_ok_def newCluster_def)

definition lines :: "Cluster list \<Rightarrow> nat" where
  "lines cs = sum_list (map Count cs)"

definition covered :: "Cluster list \<Rightarrow> string list \<Rightarrow> bool" where
  "covered cs x \<longleftrightarrow> (\<exists>c \<in> set cs. covers (Template c) x)"

lemma leafAdd_spec:
  assumes "leafAdd sha thr tokens line service ts cs = (cs', c)" and "tokens \<noteq> []"
  shows "covers (Template c) tokens" and "c \<in> set cs'" and "lines cs' = lines cs + 1"
    and "covered cs x \<Longrightarrow> covered cs' x" and "list_all (cluster_ok sha) cs \<Longrightarrow> list_all (cluster_ok sha) cs'"
proof -
  have hitcount: "lines (cs[j := d]) + Count (cs ! j) = lines cs + Count d" if "j < length cs" for j d
    unfolding lines_def using that by (induction cs arbitrary: j) (auto split: nat.splits simp: nth_Cons')
  have cov: "covered (cs[j := d]) x" if "covered cs x" "j < length cs" "covers (Template (cs ! j)) x \<Longrightarrow> covers (Template d) x" for j d
  proof -
    from that(1) obtain i where "i < length cs" "covers (Template (cs ! i)) x" by (auto simp: covered_def in_set_conv_nth)
    then have "cs[j := d] ! i \<in> set (cs[j := d])" by (intro nth_mem) simp
    moreover have "covers (Template (cs[j := d] ! i)) x"
      using that(2,3) \<open>covers (Template (cs ! i)) x\<close> by (auto simp: nth_list_update)
    ultimately show ?thesis unfolding covered_def by blast
  qed
  from assms(1) have "covers (Template c) tokens \<and> c \<in> set cs' \<and> lines cs' = lines cs + 1 \<and>
      (covered cs x \<longrightarrow> covered cs' x) \<and> (list_all (cluster_ok sha) cs \<longrightarrow> list_all (cluster_ok sha) cs')"
  proof (cases rule: leafAdd_cases)
    case (hit j)
    have "lines cs' = lines cs + 1" using \<open>j < length cs\<close> hit hitcount [of j c] by simp
    moreover have "covered cs x \<Longrightarrow> covered cs' x" using hit cov [of j c] refineT_mono by simp
    moreover have "list_all (cluster_ok sha) cs'" if "list_all (cluster_ok sha) cs"
      using that hit refineCluster_ok set_update_subset_insert [of cs j c] by (auto simp: list_all_iff)
    moreover have "c \<in> set cs'" using hit by (simp add: set_update_memI)
    ultimately show ?thesis using hit refineT_covers by simp
  next
    case fresh
    then show ?thesis using assms(2) newCluster_ok [of tokens sha]
      by (auto simp: covers_refl lines_def covered_def)
  qed
  then show "covers (Template c) tokens" "c \<in> set cs'" "lines cs' = lines cs + 1"
    "covered cs x \<Longrightarrow> covered cs' x" "list_all (cluster_ok sha) cs \<Longrightarrow> list_all (cluster_ok sha) cs'"
    by auto
qed

section \<open>The tree\<close>

definition subtreeClusters :: "(string \<times> node) list \<Rightarrow> Cluster list" where
  "subtreeClusters ch = concat (map (\<lambda>p. walkClusters (snd p)) ch)"

lemma walkClusters_Node: "walkClusters (Node ch cs) = cs @ subtreeClusters ch"
  by (subst walkClusters.simps) (simp add: subtreeClusters_def)

lemma subtreeClusters_update:
  "mset (subtreeClusters (AList.update k m' ch)) + mset (case map_of ch k of None \<Rightarrow> [] | Some m \<Rightarrow> walkClusters m) =
   mset (subtreeClusters ch) + mset (walkClusters m')"
  by (induction ch) (auto simp: subtreeClusters_def)

lemma walkClusters_emptyNode [simp]: "walkClusters emptyNode = []"
  by (simp add: emptyNode_def walkClusters_Node subtreeClusters_def)

lemma childOrCreate_spec:
  assumes "childOrCreate maxC ch k = (k', ch', o1)"
  shows "map_of ch' k' \<noteq> None" and "mset (subtreeClusters ch') = mset (subtreeClusters ch)"
    and "ch' = ch \<or> map_of ch k' = None \<and> ch' = AList.update k' emptyNode ch"
  using assms subtreeClusters_update [of k' emptyNode ch]
  by (auto simp: childOrCreate_def Let_def update_conv' split: if_splits)

text \<open>A line changes the clusters of exactly one leaf.\<close>

lemma walkAdd_leaf:
  assumes "walkAdd maxC leaf ks n = (n', c, o1)"
  shows "\<exists>old new rest. leaf old = (new, c) \<and>
     mset (walkClusters n) = mset old + rest \<and> mset (walkClusters n') = mset new + rest"
  using assms
proof (induction ks arbitrary: n n' o1)
  case Nil
  obtain ch cs where n: "n = Node ch cs" by (cases n)
  with Nil obtain new where "leaf cs = (new, c)" "n' = Node ch new" by (auto simp: Let_def split: prod.splits)
  with n show ?case
    by (intro exI [of _ cs] exI [of _ new] exI [of _ "mset (subtreeClusters ch)"]) (simp add: walkClusters_Node)
next
  case (Cons k ks)
  obtain ch cs where n: "n = Node ch cs" by (cases n)
  obtain k' ch' o1 where c1: "childOrCreate maxC ch k = (k', ch', o1)" by (cases "childOrCreate maxC ch k") auto
  note spec = childOrCreate_spec [OF c1]
  then obtain m where m: "map_of ch' k' = Some m" by auto
  obtain m' o2 where w: "walkAdd maxC leaf ks m = (m', c, o2)" and n': "n' = Node (AList.update k' m' ch') cs"
    using Cons.prems n c1 m by (auto simp: Let_def split: prod.splits)
  from Cons.IH [OF w] obtain old new rest where h: "leaf old = (new, c)"
    "mset (walkClusters m) = mset old + rest" "mset (walkClusters m') = mset new + rest" by blast
  let ?R = "mset cs + (mset (subtreeClusters ch') - mset (walkClusters m)) + rest"
  have sub: "mset (walkClusters m) \<subseteq># mset (subtreeClusters ch')"
    using m by (induction ch') (auto simp: subtreeClusters_def split: if_splits intro: subset_mset.add_increasing)
  from subtreeClusters_update [of k' m' ch'] m
  have "mset (subtreeClusters (AList.update k' m' ch')) + mset (walkClusters m) = mset (subtreeClusters ch') + mset (walkClusters m')"
    by simp
  with sub have "mset (subtreeClusters (AList.update k' m' ch')) = (mset (subtreeClusters ch') - mset (walkClusters m)) + mset (walkClusters m')"
    by (metis add_diff_cancel_right' subset_mset.add_diff_assoc2)
  with h have "mset (walkClusters n') = mset new + ?R" by (simp add: n' walkClusters_Node)
  moreover have "mset (subtreeClusters ch') = (mset (subtreeClusters ch') - mset (walkClusters m)) + mset (walkClusters m)"
    using subset_mset.diff_add [OF sub] by simp
  with h(2) spec(2) have "mset (subtreeClusters ch) = (mset (subtreeClusters ch') - mset (walkClusters m)) + (mset old + rest)"
    by simp
  then have "mset (walkClusters n) = mset old + ?R" by (simp add: n walkClusters_Node)
  ultimately show ?case using h(1) by blast
qed

section \<open>Width of the tree\<close>

definition width_ok :: "int \<Rightarrow> (string \<times> node) list \<Rightarrow> bool" where
  "width_ok maxC ch \<longleftrightarrow> distinct (map fst ch) \<and>
     (int (length ch) \<le> maxC \<or> int (length ch) = maxC + 1 \<and> map_of ch ''*'' \<noteq> None)"

function node_ok :: "int \<Rightarrow> node \<Rightarrow> bool" where
  "node_ok maxC n \<longleftrightarrow> width_ok maxC (children n) \<and> (\<forall>p \<in> set (children n). node_ok maxC (snd p))"
  by pat_completeness auto
termination by (relation "measure (size \<circ> snd)") (auto simp: child_smaller)

declare node_ok.simps [simp del]

lemma emptyNode_ok: "0 \<le> maxC \<Longrightarrow> node_ok maxC emptyNode"
  unfolding emptyNode_def by (subst node_ok.simps) (simp add: width_ok_def)

lemma length_alist_update: "length (AList.update k v m) = (if map_of m k = None then Suc (length m) else length m)"
  by (induction m) auto

lemma width_ok_update: "width_ok maxC ch \<Longrightarrow> map_of ch k \<noteq> None \<Longrightarrow> width_ok maxC (AList.update k m ch)"
  by (auto simp: width_ok_def distinct_update length_alist_update update_conv')

lemma childOrCreate_width:
  assumes "childOrCreate maxC ch k = (k', ch', o1)" and "width_ok maxC ch"
  shows "width_ok maxC ch'"
  using assms
  by (auto simp: childOrCreate_def Let_def width_ok_def distinct_update length_alist_update update_conv' split: if_splits)

lemma set_update_subset: "set (AList.update k v m) \<subseteq> insert (k, v) (set m)"
  by (induction m) auto

lemma walkAdd_node_ok:
  "walkAdd maxC leaf ks n = (n', c, o1) \<Longrightarrow> node_ok maxC n \<Longrightarrow> 0 \<le> maxC \<Longrightarrow> node_ok maxC n'"
proof (induction ks arbitrary: n n' o1)
  case Nil
  then show ?case by (auto simp: Let_def node_ok.simps [of maxC n] node_ok.simps [of maxC n'] split: prod.splits)
next
  case (Cons k ks)
  obtain k' ch' o1 where c1: "childOrCreate maxC (children n) k = (k', ch', o1)"
    by (cases "childOrCreate maxC (children n) k") auto
  note spec = childOrCreate_spec [OF c1]
  then obtain m where m: "map_of ch' k' = Some m" by auto
  obtain m' o2 where w: "walkAdd maxC leaf ks m = (m', c, o2)" and n': "n' = Node (AList.update k' m' ch') (clusters n)"
    using Cons.prems(1) c1 m by (auto simp: Let_def split: prod.splits)
  have kids: "node_ok maxC (snd p)" if "p \<in> set ch'" for p
    using that spec(3) Cons.prems(2,3) set_update_subset [of k' emptyNode "children n"] emptyNode_ok
    by (auto simp: node_ok.simps [of maxC n])
  with m have "node_ok maxC m" by (metis map_of_SomeD snd_conv)
  from Cons.IH [OF w this Cons.prems(3)] have "node_ok maxC m'" .
  moreover have "width_ok maxC (AList.update k' m' ch')"
    using childOrCreate_width [OF c1] Cons.prems(2) m by (simp add: node_ok.simps [of maxC n] width_ok_update)
  ultimately show ?case using kids set_update_subset [of k' m' ch']
    by (auto simp: n' node_ok.simps [of maxC "Node _ _"])
qed

lemma lines_mset: "lines cs = sum_mset (image_mset Count (mset cs))"
  by (simp add: lines_def sum_mset_sum_list flip: mset_map)

lemma covered_mset: "covered cs x \<longleftrightarrow> (\<exists>c \<in># mset cs. covers (Template c) x)"
  by (simp add: covered_def)

lemma Add_spec:
  assumes "Tokenize line \<noteq> []" and "Add Tokenize sha line service ts d = (d', oc)"
  obtains c where "oc = Some c" "covers (Template c) (Tokenize line)" "c \<in> set (Snapshot d')"
    "lines (Snapshot d') = lines (Snapshot d) + 1" "\<And>x. covered (Snapshot d) x \<Longrightarrow> covered (Snapshot d') x"
    "list_all (cluster_ok sha) (Snapshot d) \<Longrightarrow> list_all (cluster_ok sha) (Snapshot d')"
    "MaxChildren d' = MaxChildren d" "node_ok (MaxChildren d) (root d) \<Longrightarrow> 0 \<le> MaxChildren d \<Longrightarrow> node_ok (MaxChildren d) (root d')"
proof -
  let ?leaf = "leafAdd sha (SimThreshold d) (Tokenize line) line service ts"
  obtain r c ov where w: "walkAdd (MaxChildren d) ?leaf (routeKeys (Depth d) (Tokenize line)) (root d) = (r, c, ov)"
    by (cases "walkAdd (MaxChildren d) ?leaf (routeKeys (Depth d) (Tokenize line)) (root d)") auto
  with assms have d': "d' = d\<lparr>root := r, overflowHits := overflowHits d + ov\<rparr>" "oc = Some c" by (auto simp: Add_def Let_def)
  from walkAdd_leaf [OF w] obtain old new rest where l: "?leaf old = (new, c)"
    and m: "mset (walkClusters (root d)) = mset old + rest" "mset (walkClusters r) = mset new + rest" by blast
  note spec = leafAdd_spec [OF l assms(1)]
  have m': "mset (Snapshot d) = mset old + rest" "mset (Snapshot d') = mset new + rest"
    using m d' by (simp_all add: Snapshot_def)
  have "lines (Snapshot d') = lines (Snapshot d) + 1"
    using spec(3) unfolding lines_mset m' by simp
  moreover have "covered (Snapshot d') x" if "covered (Snapshot d) x" for x
  proof -
    from that have "covered old x \<or> (\<exists>c \<in># rest. covers (Template c) x)" unfolding covered_mset m' by auto
    with spec(4) [of x] show ?thesis unfolding covered_mset m' by auto
  qed
  moreover have "list_all (cluster_ok sha) (Snapshot d')" if "list_all (cluster_ok sha) (Snapshot d)"
  proof -
    have iff: "list_all P cs \<longleftrightarrow> (\<forall>c \<in># mset cs. P c)" for P and cs :: "Cluster list" by (simp add: list_all_iff)
    from that have "list_all (cluster_ok sha) old" "\<forall>c \<in># rest. cluster_ok sha c" unfolding iff m' by auto
    with spec(5) show ?thesis unfolding iff m' by auto
  qed
  moreover have "c \<in> set (Snapshot d')" using spec(2) m'(2) by (metis set_mset_mset union_iff)
  ultimately show ?thesis
    using that d' spec(1) walkAdd_node_ok [OF w] by auto
qed

definition addAll ::
  "(string \<Rightarrow> string list) \<Rightarrow> (string \<Rightarrow> string) \<Rightarrow> (string \<times> string \<times> int) list \<Rightarrow> DrainT \<Rightarrow> DrainT" where
  "addAll Tokenize sha ls d = fold (\<lambda>(line, service, ts) d. fst (Add Tokenize sha line service ts d)) ls d"

lemma addAll_spec:
  assumes "list_all (cluster_ok sha) (Snapshot d)" and "node_ok (MaxChildren d) (root d)" and "0 \<le> MaxChildren d"
  shows "list_all (cluster_ok sha) (Snapshot (addAll Tokenize sha ls d)) \<and>
    node_ok (MaxChildren d) (root (addAll Tokenize sha ls d)) \<and>
    lines (Snapshot (addAll Tokenize sha ls d)) = lines (Snapshot d) + length (filter (\<lambda>(l, _). Tokenize l \<noteq> []) ls) \<and>
    (\<forall>x. covered (Snapshot d) x \<or> (\<exists>(l, _) \<in> set ls. x = Tokenize l \<and> x \<noteq> []) \<longrightarrow> covered (Snapshot (addAll Tokenize sha ls d)) x)"
  using assms
proof (induction ls arbitrary: d)
  case Nil
  then show ?case by (simp add: addAll_def)
next
  case (Cons a ls)
  obtain l sv ts where a: "a = (l, sv, ts)" by (cases a) auto
  obtain d' oc where add: "Add Tokenize sha l sv ts d = (d', oc)" by force
  have unf: "addAll Tokenize sha (a # ls) d = addAll Tokenize sha ls d'" using a add by (simp add: addAll_def)
  show ?case
  proof (cases "Tokenize l = []")
    case True
    with add have "d' = d" by (simp add: Add_def)
    with Cons.IH [OF Cons.prems] a True show ?thesis unfolding unf by auto
  next
    case False
    from Add_spec [OF False add] obtain c where c: "covers (Template c) (Tokenize l)" "c \<in> set (Snapshot d')"
      "lines (Snapshot d') = lines (Snapshot d) + 1" "\<And>x. covered (Snapshot d) x \<Longrightarrow> covered (Snapshot d') x"
      "list_all (cluster_ok sha) (Snapshot d')" "MaxChildren d' = MaxChildren d" "node_ok (MaxChildren d) (root d')"
      using Cons.prems by metis
    from c(1,2) have "covered (Snapshot d') (Tokenize l)" by (auto simp: covered_def)
    with Cons.IH [of d'] Cons.prems(3) c a False show ?thesis unfolding unf by auto
  qed
qed

section \<open>Families of stored templates\<close>

definition isTemplateSep :: "char \<Rightarrow> bool" where
  "isTemplateSep c \<longleftrightarrow> c = CHR '' '' \<or> c = CHR 0x09"

text \<open>\<open>strings.FieldsFunc\<close> with this separator; \<open>cur\<close> is the field being read.\<close>

fun fieldsFunc :: "(char \<Rightarrow> bool) \<Rightarrow> string \<Rightarrow> string \<Rightarrow> string list" where
  "fieldsFunc sep cur [] = (if cur = [] then [] else [cur])"
| "fieldsFunc sep cur (c # s) =
     (if sep c then (if cur = [] then [] else [cur]) @ fieldsFunc sep [] s else fieldsFunc sep (cur @ [c]) s)"

definition splitTemplate :: "string \<Rightarrow> string list" where
  "splitTemplate s = fieldsFunc isTemplateSep [] s"

fun countTokens_loop :: "string \<Rightarrow> nat \<Rightarrow> bool \<Rightarrow> nat" where
  "countTokens_loop [] n inTok = n"
| "countTokens_loop (c # s) n inTok =
     (if isTemplateSep c then countTokens_loop s n False
      else if \<not> inTok then countTokens_loop s (n + 1) True else countTokens_loop s n inTok)"

definition countTemplateTokens :: "string \<Rightarrow> nat" where
  "countTemplateTokens s = countTokens_loop s 0 False"

fun routing_loop :: "(string \<times> string) list \<Rightarrow> bool \<Rightarrow> bool \<Rightarrow> bool" where
  "routing_loop [] mixed sharedLiteral = (\<not> mixed \<or> sharedLiteral)"
| "routing_loop ((a, b) # ps) mixed sharedLiteral =
     (if a = b then routing_loop ps mixed (sharedLiteral \<or> a \<noteq> wildcard)
      else if a = wildcard \<or> b = wildcard then routing_loop ps True sharedLiteral
      else False)"

definition routingCompatible :: "string list \<Rightarrow> string list \<Rightarrow> nat \<Rightarrow> bool" where
  "routingCompatible ta tb r = routing_loop (take r (zip ta tb)) False False"

definition mergeTemplates :: "string list \<Rightarrow> string list \<Rightarrow> string list" where
  "mergeTemplates ta tb = map (\<lambda>(a, b). if a = wildcard \<or> b = wildcard then wildcard else a) (zip ta tb)"

definition sameFamilyTokens :: "string list \<Rightarrow> string list \<Rightarrow> int \<Rightarrow> rat \<Rightarrow> bool" where
  "sameFamilyTokens ta tb depth thr \<longleftrightarrow>
     (let n = length ta in
      n \<noteq> 0 \<and> n = length tb \<and> routingCompatible ta tb (nat (routePrefixLen depth (int n))) \<and>
      similarity (mergeTemplates ta tb) tb \<ge> thr)"

text \<open>\<open>Remask\<close> (regular expressions in \<open>masker.go\<close>) is an argument.\<close>

definition SameTemplateFamily :: "(string \<Rightarrow> string) \<Rightarrow> string \<Rightarrow> string \<Rightarrow> bool" where
  "SameTemplateFamily Remask a b \<longleftrightarrow>
     (let n = countTemplateTokens a in
      if n = 0 \<or> n \<noteq> countTemplateTokens b then False
      else sameFamilyTokens (splitTemplate (Remask a)) (splitTemplate (Remask b)) 4 (2 / 5))"

definition SameFamily :: "string list \<Rightarrow> string list \<Rightarrow> bool" where
  "SameFamily p q = sameFamilyTokens p q 4 (2 / 5)"

lemma countTokens_fields:
  "countTokens_loop s n (cur \<noteq> []) = n + length (fieldsFunc isTemplateSep cur s) - (if cur = [] then 0 else 1)"
proof (induction s arbitrary: n cur)
  case (Cons c s)
  have pos: "cur \<noteq> [] \<Longrightarrow> 0 < length (fieldsFunc isTemplateSep cur s)" for cur
    by (induction s arbitrary: cur) auto
  show ?case
  proof (cases "isTemplateSep c")
    case True
    with Cons [of n "[]"] show ?thesis by simp
  next
    case False
    with Cons [of _ "cur @ [c]"] pos [of "cur @ [c]"] show ?thesis by auto
  qed
qed auto

lemma routing_loop_sym: "routing_loop (map prod.swap ps) m sh = routing_loop ps m sh"
  by (induction ps m sh rule: routing_loop.induct) auto

lemma zip_swap: "zip ys xs = map prod.swap (zip xs ys)"
  by (induction xs ys rule: list_induct2') auto

lemma merge_matches:
  "length (filter (\<lambda>(t, x). t = wildcard \<or> t = x) (zip (mergeTemplates ta tb) tb)) =
   length (filter (\<lambda>(a, b). a = wildcard \<or> b = wildcard \<or> a = b) (zip ta tb))"
  by (induction ta tb rule: list_induct2') (auto simp: mergeTemplates_def)

lemma sameFamilyTokens_sym: "sameFamilyTokens ta tb d thr \<Longrightarrow> sameFamilyTokens tb ta d thr"
proof -
  assume s: "sameFamilyTokens ta tb d thr"
  then have l: "length ta = length tb" "ta \<noteq> []" by (auto simp: sameFamilyTokens_def Let_def)
  let ?m = "\<lambda>(a, b). a = wildcard \<or> b = wildcard \<or> a = b"
  have "filter ?m (zip tb ta) = map prod.swap (filter ?m (zip ta tb))"
    unfolding zip_swap [of tb ta] by (simp add: filter_map comp_def case_prod_unfold) (metis (lifting))
  then have "similarity (mergeTemplates tb ta) ta = similarity (mergeTemplates ta tb) tb"
    using l by (simp add: similarity_def merge_matches) (simp add: mergeTemplates_def)
  moreover have "routingCompatible tb ta r = routingCompatible ta tb r" for r
    unfolding routingCompatible_def zip_swap [of tb ta] by (simp add: take_map routing_loop_sym)
  ultimately show ?thesis using s l by (auto simp: sameFamilyTokens_def Let_def)
qed

lemma fieldsFunc_token:
  "list_all (\<lambda>c. \<not> sep c) t \<Longrightarrow> fieldsFunc sep cur (t @ s) = fieldsFunc sep (cur @ t) s"
  by (induction t arbitrary: cur) auto

lemma fieldsFunc_Join:
  assumes "sep (CHR '' '')" and "list_all (\<lambda>t. t \<noteq> [] \<and> list_all (\<lambda>c. \<not> sep c) t) ts"
  shows "fieldsFunc sep [] (Join ts '' '') = ts"
  using assms(2)
proof (induction ts "'' ''" rule: Join.induct)
  case (2 x)
  then show ?case using fieldsFunc_token [of sep x "[]" "[]"] by simp
next
  case (3 x y xs)
  then show ?case using assms(1) by (simp add: fieldsFunc_token)
qed simp

section \<open>Properties\<close>

text \<open>
  C34. Mining loses no line. After any sequence of lines from a fresh tree, the counts of all clusters
  add up to the number of lines that had tokens, and every such line is covered by some template:
  refinement only turns positions into wildcards.
\<close>

theorem Drain_conserves:
  "let d = addAll Tokenize sha ls NewDrain in
   lines (Snapshot d) = length (filter (\<lambda>(l, _). Tokenize l \<noteq> []) ls) \<and>
   list_all (\<lambda>(l, _). Tokenize l = [] \<or> covered (Snapshot d) (Tokenize l)) ls"
proof -
  have "node_ok 100 emptyNode" by (rule emptyNode_ok) simp
  then have *: "list_all (cluster_ok sha) (Snapshot NewDrain)" "node_ok (MaxChildren NewDrain) (root NewDrain)"
      "0 \<le> MaxChildren NewDrain" "lines (Snapshot NewDrain) = 0"
    by (simp_all add: NewDrain_def Snapshot_def lines_def)
  from addAll_spec [OF *(1,2,3), of Tokenize ls] *(4) show ?thesis
    by (fastforce simp: Let_def list_all_iff)
qed

text \<open>
  The tree and its clusters stay well formed: every cluster's identifier is the hash of its current
  template, no template is empty, at most five distinct non-empty services are recorded, and no node
  has more than \<open>MaxChildren\<close> children plus one wildcard child.
\<close>

theorem Drain_invariant:
  "list_all (cluster_ok sha) (Snapshot (addAll Tokenize sha ls NewDrain)) \<and>
   node_ok 100 (root (addAll Tokenize sha ls NewDrain))"
proof -
  have "node_ok 100 emptyNode" by (rule emptyNode_ok) simp
  then have *: "list_all (cluster_ok sha) (Snapshot NewDrain)" "node_ok (MaxChildren NewDrain) (root NewDrain)"
      "0 \<le> MaxChildren NewDrain" "MaxChildren NewDrain = 100"
    by (simp_all add: NewDrain_def Snapshot_def)
  from addAll_spec [OF *(1,2,3), of Tokenize ls] *(4) show ?thesis by simp
qed

text \<open>
  The family predicate on stored templates is symmetric, as its comment promises, and false when
  either text has no token; its allocation-free pre-check counts exactly the tokens that the split
  produces.
\<close>

theorem SameTemplateFamily_sym:
  "SameTemplateFamily Remask a b = SameTemplateFamily Remask b a \<and>
   countTemplateTokens a = length (splitTemplate a) \<and>
   SameTemplateFamily Remask a b = (splitTemplate a \<noteq> [] \<and> splitTemplate b \<noteq> [] \<and> SameTemplateFamily Remask a b)"
proof -
  have c: "countTemplateTokens s = length (splitTemplate s)" for s
    using countTokens_fields [of s 0 "[]"] by (simp add: countTemplateTokens_def splitTemplate_def)
  show ?thesis
    using sameFamilyTokens_sym by (auto simp: SameTemplateFamily_def Let_def c)
qed

text \<open>
  A stored template splits back into its tokens: joining the tokens of a cluster by single spaces and
  splitting the text gives the same tokens, for tokens that are non-empty and free of separators.
\<close>

theorem splitTemplate_TemplateString:
  assumes "list_all (\<lambda>t. t \<noteq> [] \<and> list_all (\<lambda>c. \<not> isTemplateSep c) t) (Template c)"
  shows "splitTemplate (TemplateString c) = Template c"
  using assms by (simp add: splitTemplate_def TemplateString_def fieldsFunc_Join isTemplateSep_def)

theorem splitTemplate_TemplateString_witness:
  "splitTemplate (TemplateString (newCluster id [''GET'', ''<*>''] [] [] 0)) = [''GET'', ''<*>'']"
  using splitTemplate_TemplateString [of "newCluster id [''GET'', ''<*>''] [] [] 0"]
  by (simp add: newCluster_def isTemplateSep_def)

text \<open>
  A comment in \<open>similarity\<close> says that token counts cannot differ at a leaf. They can above 50 tokens:
  one key serves all longer lines, and with equal first tokens they reach the same leaf.
\<close>

theorem leaf_mixes_lengths:
  "routeKeys 4 (replicate 51 ''a'') = routeKeys 4 (replicate 52 ''a'') \<and>
   length (replicate 51 ''a'') \<noteq> length (replicate 52 ''a'')"
  by (simp add: routeKeys_def tokenCountKey_def routePrefixLen_def wildcard_def numeral_eq_Suc Let_def)

end
