(* ===== verification/UIStream.thy ===== *)
theory UIStream
  imports UTF8 GoInt "HOL-Library.AList" "HOL-Library.List_Lexorder" "HOL-Library.Char_ord"
begin

text \<open>
  The chat stream (\<open>internal/cosre/uistream\<close>): the translator from chat events to the parts of the UI
  message stream (\<open>translator.go\<close>), the structured tool results with their size cap
  (\<open>tool_result.go\<close>), the error classes (\<open>errors.go\<close>) and the emitter that writes frames
  (\<open>emitter.go\<close>). A payload is the JSON value it marshals to; numbers keep their text, as under
  \<open>UseNumber\<close>. Maps are association lists. Emitter operations are atomic, as they are under its mutex,
  and the ticker is an operation that may come between any two others; response headers and flushing
  are left out.
\<close>

section \<open>JSON\<close>

datatype json = JNull | JBool bool | JNum string | JStr string | JArr "json list" | JObj "(string \<times> json) list"

type_synonym jmap = "(string \<times> json) list"

abbreviation put :: "string \<Rightarrow> json \<Rightarrow> jmap \<Rightarrow> jmap" where
  "put k v m \<equiv> AList.update k v m"

definition strAt :: "jmap \<Rightarrow> string \<Rightarrow> string" where
  "strAt m k = (case map_of m k of Some (JStr s) \<Rightarrow> s | _ \<Rightarrow> [])"

definition boolAt :: "jmap \<Rightarrow> string \<Rightarrow> bool" where
  "boolAt m k = (case map_of m k of Some (JBool b) \<Rightarrow> b | _ \<Rightarrow> False)"

definition asInt :: "json option \<Rightarrow> int option" where
  "asInt v = (case v of Some (JNum s) \<Rightarrow> Atoi s | _ \<Rightarrow> None)"

definition asSlice :: "json option \<Rightarrow> json list" where
  "asSlice v = (case v of Some (JArr xs) \<Rightarrow> xs | _ \<Rightarrow> [])"

definition without :: "jmap \<Rightarrow> string list \<Rightarrow> jmap" where
  "without m ks = filter (\<lambda>(k, v). k \<notin> set ks) m"

definition toMap :: "json \<Rightarrow> jmap" where
  "toMap payload = (case payload of JObj m \<Rightarrow> m | _ \<Rightarrow> [])"

definition jint :: "int \<Rightarrow> json" where
  "jint n = JNum (itoa n)"

text \<open>\<open>json.Marshal\<close>: HTML-safe escapes, sorted keys.\<close>

definition hexDigit :: "nat \<Rightarrow> char" where
  "hexDigit d = (if d < 10 then char_of (48 + d) else char_of (87 + d))"

definition escRune :: "string \<Rightarrow> string" where
  "escRune r =
     (let bs = [CHR 0x5C] in
      if r = [CHR 0x5C] \<or> r = [CHR 0x22] then bs @ r
      else if r = [CHR 0x08] then bs @ ''b''
      else if r = [CHR 0x0C] then bs @ ''f''
      else if r = [CHR 0x0A] then bs @ ''n''
      else if r = [CHR 0x0D] then bs @ ''r''
      else if r = [CHR 0x09] then bs @ ''t''
      else if length r = 1 \<and> (byte (hd r) < 32 \<or> hd r \<in> set ''<>&'')
      then bs @ ''u00'' @ [hexDigit (byte (hd r) div 16), hexDigit (byte (hd r) mod 16)]
      else if r = [CHR 0xE2, CHR 0x80, CHR 0xA8] then bs @ ''u2028''
      else if r = [CHR 0xE2, CHR 0x80, CHR 0xA9] then bs @ ''u2029''
      else r)"

text \<open>A byte that starts no valid sequence is written as an escape of U+FFFD.\<close>

function escString :: "string \<Rightarrow> string" where
  "escString s =
     (if s = [] then []
      else (case runeWidth s of
              None \<Rightarrow> [CHR 0x5C] @ ''ufffd''
            | Some n \<Rightarrow> escRune (take n s)) @ escString (drop (snd (decodeRune s)) s))"
  by pat_completeness auto
termination using decodeRune_pos by (relation "measure length") auto

declare escString.simps [simp del]

definition quoteJSON :: "string \<Rightarrow> string" where
  "quoteJSON s = [CHR 0x22] @ escString s @ [CHR 0x22]"

fun marshal :: "json \<Rightarrow> string" where
  "marshal JNull = ''null''"
| "marshal (JBool b) = (if b then ''true'' else ''false'')"
| "marshal (JNum s) = s"
| "marshal (JStr s) = quoteJSON s"
| "marshal (JArr xs) = ''['' @ Join (map marshal xs) '','' @ '']''"
| "marshal (JObj m) =
     ''{'' @ Join (map snd (sort_key fst (map (\<lambda>(k, v). (k, quoteJSON k @ '':'' @ marshal v)) m))) '','' @ ''}''"

section \<open>Tool results\<close>

definition ToolResultMaxBytes :: nat where "ToolResultMaxBytes = 2048"
definition evidenceQueryMax :: nat where "evidenceQueryMax = 512"

definition runeStart :: "char \<Rightarrow> bool" where
  "runeStart c \<longleftrightarrow> \<not> (0x80 \<le> byte c \<and> byte c < 0xC0)"

fun clip_loop :: "string \<Rightarrow> nat \<Rightarrow> nat" where
  "clip_loop s 0 = 0"
| "clip_loop s (Suc n) = (if runeStart (s ! Suc n) then Suc n else clip_loop s n)"

definition clipBytes :: "string \<Rightarrow> nat \<Rightarrow> string" where
  "clipBytes s n = (if length s \<le> n then s else take (clip_loop s n) s)"

definition rootRelative :: "string \<Rightarrow> bool" where
  "rootRelative h \<longleftrightarrow> HasPrefix h ''/'' \<and> \<not> HasPrefix h ''//'' \<and> \<not> HasPrefix h [CHR ''/'', CHR 0x5C]"

definition snake :: "string \<Rightarrow> string" where
  "snake k = concat (map (\<lambda>r. if length r = 1 \<and> byte (hd r) \<in> {65..90}
     then [CHR ''_'', char_of (byte (hd r) + 32)] else r) (runes k))"

text \<open>One round of the cut; \<open>None\<close> leaves the loop.\<close>

definition fitRound :: "string \<Rightarrow> jmap \<Rightarrow> jmap option" where
  "fitRound textKey d =
     (let over = int (length (marshal (JObj d))) - int ToolResultMaxBytes; s = strAt d textKey in
      if s = [] then None
      else
        (let keep = min (int (length s) - over - 8) (int (length s) * 3 div 4);
             d' = (if keep \<le> 0 then AList.delete textKey d else put textKey (JStr (clipBytes s (nat keep))) d) in
         Some (put ''truncated'' (JBool True) d')))"

fun fitLoop :: "nat \<Rightarrow> string \<Rightarrow> jmap \<Rightarrow> jmap" where
  "fitLoop 0 textKey d = d"
| "fitLoop (Suc i) textKey d =
     (if length (marshal (JObj d)) \<le> ToolResultMaxBytes then d
      else case fitRound textKey d of None \<Rightarrow> d | Some d' \<Rightarrow> fitLoop i textKey d')"

definition coreResult :: "jmap \<Rightarrow> jmap" where
  "coreResult d =
     (let core = [(''kind'', the (map_of d ''kind'')), (''ok'', the (map_of d ''ok'')), (''truncated'', JBool True)] in
      case map_of d ''page_url'' of
        Some (JStr u) \<Rightarrow> if length u \<le> 1024 then put ''page_url'' (JStr u) core else core
      | _ \<Rightarrow> core)"

definition fitToolResult :: "jmap \<Rightarrow> string \<Rightarrow> jmap" where
  "fitToolResult d0 textKey =
     (let d = fitLoop 32 textKey d0 in
      if length (marshal (JObj d)) > ToolResultMaxBytes then coreResult d else d)"

definition putIf :: "bool \<Rightarrow> string \<Rightarrow> json \<Rightarrow> jmap \<Rightarrow> jmap" where
  "putIf b k v m = (if b then put k v m else m)"

definition baseResult :: "jmap \<Rightarrow> jmap" where
  "baseResult m =
     (let d = [(''kind'', JStr ''text'')];
          d = putIf (strAt m ''tool'' \<noteq> []) ''tool'' (JStr (strAt m ''tool'')) d;
          d = put ''ok'' (JBool (boolAt m ''ok'')) d;
          d = putIf (rootRelative (strAt m ''href'')) ''page_url'' (JStr (strAt m ''href'')) d;
          d = (case asInt (map_of m ''durationMs'') of Some n \<Rightarrow> put ''duration_ms'' (jint n) d | None \<Rightarrow> d) in
      case asInt (map_of m ''bytes'') of Some n \<Rightarrow> put ''bytes'' (jint n) d | None \<Rightarrow> d)"

definition evidenceKeys :: "string list" where
  "evidenceKeys = [''source'', ''queryKind'', ''window'', ''rows'', ''series'', ''hop'', ''env'', ''cluster'']"

definition evidenceResult :: "jmap \<Rightarrow> jmap \<Rightarrow> jmap \<Rightarrow> jmap" where
  "evidenceResult m ev d0 =
     (let d = put ''kind'' (JStr ''evidence'') d0;
          d = fold (\<lambda>k d. case map_of ev k of
                None \<Rightarrow> d | Some v \<Rightarrow> putIf (v \<noteq> JNull \<and> v \<noteq> JStr []) (snake k) v d) evidenceKeys d;
          d = putIf (strAt ev ''query'' \<noteq> []) ''query'' (JStr (strAt ev ''query'')) d;
          d = putIf (map_of d ''page_url'' = None \<and> rootRelative (strAt ev ''href'')) ''page_url'' (JStr (strAt ev ''href'')) d;
          n = length (asSlice (map_of m ''evidenceList'')) in
      putIf (n > 1) ''evidence_count'' (jint (int n)) d)"

text \<open>The result before it is fitted, its text key, its text, and whether it was cut.\<close>

definition shapeResult :: "jmap \<Rightarrow> jmap \<times> string \<times> string \<times> bool" where
  "shapeResult m =
     (let d = baseResult m; preview = strAt m ''preview''; cut = boolAt m ''truncated'' in
      if boolAt m ''skipped''
      then (putIf (strAt m ''reason'' \<noteq> []) ''reason'' (JStr (strAt m ''reason'')) (put ''kind'' (JStr ''skipped'') d),
            ''text'', preview, cut)
      else if \<not> boolAt m ''ok'' then (put ''kind'' (JStr ''error'') d, ''text'', preview, cut)
      else case map_of m ''evidence'' of
        Some (JObj ev) \<Rightarrow>
          (let q = strAt ev ''query''; textKey = (if q \<noteq> [] then ''query'' else ''text'');
               txt = (if q \<noteq> [] then q else preview) in
           (evidenceResult m ev d, textKey,
            (if length txt > evidenceQueryMax then clipBytes txt evidenceQueryMax else txt),
            cut \<or> length txt > evidenceQueryMax))
      | _ \<Rightarrow> (d, ''text'', preview, cut))"

definition ToolResultData :: "jmap \<Rightarrow> jmap" where
  "ToolResultData m =
     (let (d, textKey, preview, cut) = shapeResult m;
          d = putIf (preview \<noteq> []) textKey (JStr preview) d;
          d = putIf cut ''truncated'' (JBool True) d in
      fitToolResult d textKey)"

section \<open>Error classes\<close>

definition closedErrorText :: string where "closedErrorText = ''stream closed before completion''"

definition quotaWords :: "string list" where
  "quotaWords = ['' 429'', ''429:'', ''quota'', ''rate limit'', ''rate_limit'', ''resource_exhausted'', ''too many requests'']"

text \<open>The pattern of provider errors: a word that is 5 and two digits, before a colon.\<close>

definition provider5xxAt :: "string \<Rightarrow> nat \<Rightarrow> bool" where
  "provider5xxAt s i \<longleftrightarrow>
     i + 4 \<le> length s \<and> (i = 0 \<or> s ! (i - 1) \<in> {CHR '' '', CHR 0x09, CHR 0x0A, CHR 0x0C, CHR 0x0D}) \<and>
     s ! i = CHR ''5'' \<and> isDigit (s ! (i + 1)) \<and> isDigit (s ! (i + 2)) \<and> s ! (i + 3) = CHR '':''"

definition reProvider5xx :: "string \<Rightarrow> bool" where
  "reProvider5xx s = list_ex (provider5xxAt s) [0..<length s]"

definition streamErrorClass :: "(string \<Rightarrow> string) \<Rightarrow> string \<Rightarrow> string" where
  "streamErrorClass lower raw =
     (let low = lower raw in
      if raw = [] then ''unknown''
      else if Contains raw closedErrorText then ''closed''
      else if Contains raw (''tavan'' @ [CHR 0xC4, CHR 0xB1] @ ''na dayand'' @ [CHR 0xC4, CHR 0xB1]) then ''deadline''
      else if Contains raw (''ba'' @ [CHR 0xC4, CHR 0x9F] @ ''lam penceresine s'' @ [CHR 0xC4, CHR 0xB1, CHR 0xC4, CHR 0x9F] @ ''mad'' @ [CHR 0xC4, CHR 0xB1]) then ''overflow''
      else if Contains raw ([CHR 0xC4, CHR 0xB0] @ ''stek iptal edildi'') then ''cancelled''
      else if Contains low ''model returned no answer'' \<or> Contains low ''model returned empty content'' then ''max_tokens''
      else if list_ex (Contains low) quotaWords then ''quota''
      else if reProvider5xx raw \<or> Contains low ''connection refused'' \<or> Contains low ''no such host'' then ''provider_down''
      else ''unknown'')"

section \<open>The translator\<close>

type_synonym Part = jmap

abbreviation part :: "string \<Rightarrow> jmap \<Rightarrow> Part" where
  "part t fs \<equiv> (''type'', JStr t) # fs"

record Translator =
  textSeq :: nat
  openText :: string
  started :: bool
  sawAnswerOrError :: bool
  sawDone :: bool
  messageID :: string
  awaitingApproval :: bool

definition NewTranslator :: Translator where
  "NewTranslator = \<lparr>textSeq = 0, openText = [], started = False, sawAnswerOrError = False, sawDone = False,
     messageID = [], awaitingApproval = False\<rparr>"

type_synonym trans = "Translator \<Rightarrow> Part list \<times> Translator"

definition textId :: "nat \<Rightarrow> string" where
  "textId n = ''t'' @ itoa (int n)"

definition closeText :: trans where
  "closeText t =
     (if openText t = [] then ([], t) else ([part ''text-end'' [(''id'', JStr (openText t))]], t\<lparr>openText := []\<rparr>))"

definition retract :: trans where
  "retract t =
     (if openText t = [] then ([], t)
      else ([part ''text-end'' [(''id'', JStr (openText t))],
             part ''data-reset'' [(''data'', JObj [(''textId'', JStr (openText t))]), (''transient'', JBool True)]],
            t\<lparr>openText := []\<rparr>))"

definition unknownPart :: "string \<Rightarrow> json \<Rightarrow> Part" where
  "unknownPart kind payload = part ''data-unknown'' [(''data'', JObj [(''kind'', JStr kind), (''payload'', payload)])]"

definition stepParts :: "jmap \<Rightarrow> Part list" where
  "stepParts m =
     (let i = (case asInt (map_of m ''i'') of Some i \<Rightarrow> if i > 0 then Some i else None | None \<Rightarrow> None); tool = strAt m ''tool'' in
      (case i of
         Some n \<Rightarrow>
           (let id = ''s'' @ itoa n in
            if tool \<noteq> [] then
              (let input = [(''argsText'', case map_of m ''args'' of Some v \<Rightarrow> v | None \<Rightarrow> JStr [])];
                   input = (case map_of m ''argsJson'' of Some v \<Rightarrow> put ''args'' v input | None \<Rightarrow> input);
                   fs = [(''toolCallId'', JStr id), (''toolName'', JStr tool), (''dynamic'', JBool True)] in
               [part ''tool-input-start'' fs, part ''tool-input-available'' (fs @ [(''input'', JObj input)])])
            else [part ''data-step'' [(''data'', JObj (without m [''budget''])), (''id'', JStr id)]])
       | None \<Rightarrow> [part ''data-step'' [(''data'', JObj (without m [''budget'']))]]) @
      (case map_of m ''budget'' of Some b \<Rightarrow> [part ''data-budget'' [(''id'', JStr ''budget''), (''data'', b)]] | None \<Rightarrow> []))"

definition stepResult :: "json \<Rightarrow> jmap \<Rightarrow> trans" where
  "stepResult payload m t =
     (case asInt (map_of m ''i'') of
        None \<Rightarrow> ([unknownPart ''step-result'' payload], t)
      | Some i \<Rightarrow>
          if i \<le> 0 then ([unknownPart ''step-result'' payload], t)
          else
            (let id = ''s'' @ itoa i;
                 plain = ([part ''tool-output-available'' [(''toolCallId'', JStr id), (''dynamic'', JBool True),
                             (''output'', JObj (without m [''i'', ''tool'']))],
                           part ''data-tool-result'' [(''id'', JStr id), (''data'', JObj (ToolResultData m))]], t) in
             if strAt m ''reason'' = ''approval_required'' then
               (case map_of m ''approval'' of
                  Some (JObj ap) \<Rightarrow>
                    ([part ''data-approval'' [(''id'', JStr (''a'' @ itoa i)),
                        (''data'', JObj (fold (\<lambda>(k, v). put k v) ap
                           [(''toolCallId'', JStr id), (''tool'', case map_of m ''tool'' of Some v \<Rightarrow> v | None \<Rightarrow> JNull)]))]],
                     t\<lparr>awaitingApproval := True\<rparr>)
                | _ \<Rightarrow> plain)
             else plain))"

definition deltaText :: "string \<Rightarrow> trans" where
  "deltaText txt t =
     (let (out, t) =
        (if openText t = [] then
           (let id = textId (textSeq t + 1) in
            ([part ''text-start'' [(''id'', JStr id)]], t\<lparr>textSeq := textSeq t + 1, openText := id\<rparr>))
         else ([], t)) in
      (out @ (if txt \<noteq> [] then [part ''text-delta'' [(''id'', JStr (openText t)), (''delta'', JStr txt)]] else []), t))"

definition delta :: "jmap \<Rightarrow> trans" where
  "delta m t =
     (let (out, t) = (if boolAt m ''reset'' then retract t else ([], t)) in
      if boolAt m ''reset'' \<and> map_of m ''text'' = None then (out, t)
      else (let (out', t) = deltaText (strAt m ''text'') t in (out @ out', t)))"

definition sourcePart :: "json \<Rightarrow> Part" where
  "sourcePart v =
     (let s = toMap v; chunk = (case asInt (map_of s ''chunk'') of Some n \<Rightarrow> itoa n | None \<Rightarrow> []);
          label = strAt s ''label''; ref = strAt s ''ref''; id = strAt s ''doc'' @ ''#'' @ chunk in
      if strAt s ''kind'' \<noteq> ''upload'' \<and> ref \<noteq> []
      then part ''source-url'' [(''sourceId'', JStr id), (''url'', JStr ref), (''title'', JStr label)]
      else part ''source-document'' [(''sourceId'', JStr id), (''mediaType'', JStr ''text/plain''), (''title'', JStr label)])"

definition answerChannelKeys :: "string list" where
  "answerChannelKeys = [''text'', ''sources'', ''links'', ''followups'', ''suggestions'', ''evidence'']"

definition answerTail :: "jmap \<Rightarrow> Part list" where
  "answerTail m =
     (let get = (\<lambda>k. case map_of m k of Some v \<Rightarrow> v | None \<Rightarrow> JNull);
          fu = concat (map (\<lambda>k. if asSlice (map_of m k) \<noteq> [] then [(k, get k)] else []) [''followups'', ''suggestions'']);
          meta = without m answerChannelKeys in
      map sourcePart (asSlice (map_of m ''sources'')) @
      (if asSlice (map_of m ''links'') \<noteq> []
       then [part ''data-links'' [(''id'', JStr ''links''), (''data'', JObj [(''links'', get ''links'')])]] else []) @
      (if fu \<noteq> [] then [part ''data-followups'' [(''id'', JStr ''followups''), (''data'', JObj fu)]] else []) @
      (if asSlice (map_of m ''evidence'') \<noteq> []
       then [part ''data-evidence-summary'' [(''id'', JStr ''evidence''), (''data'', JObj [(''evidence'', get ''evidence'')])]] else []) @
      (if meta \<noteq> [] then [part ''message-metadata'' [(''messageMetadata'', JObj meta)]] else []))"

definition answer :: "jmap \<Rightarrow> trans" where
  "answer m t0 =
     (let (out, t) = retract (t0\<lparr>sawAnswerOrError := True\<rparr>); txt = strAt m ''text''; id = textId (textSeq t + 1) in
      (out @ [part ''text-start'' [(''id'', JStr id)]] @
       (if txt \<noteq> [] then [part ''text-delta'' [(''id'', JStr id), (''delta'', JStr txt)]] else []) @
       [part ''text-end'' [(''id'', JStr id)]] @ answerTail m,
       t\<lparr>textSeq := textSeq t + 1\<rparr>))"

definition blockPart :: "jmap \<Rightarrow> Part" where
  "blockPart m =
     part (''data-block-'' @ strAt m ''type'') ((''data'', JObj (without m [''id'', ''type''])) #
       (if strAt m ''id'' \<noteq> [] then [(''id'', JStr (strAt m ''id''))] else []))"

definition errorParts :: "string \<Rightarrow> string \<Rightarrow> Part list" where
  "errorParts cls raw =
     [part ''data-error'' [(''id'', JStr ''error''), (''data'', JObj [(''class'', JStr cls), (''raw'', JStr raw)])],
      part ''error'' [(''errorText'', JStr raw)]]"

definition finishParts :: "string \<Rightarrow> Part list" where
  "finishParts reason = [part ''finish-step'' [], part ''finish'' [(''finishReason'', JStr reason)]]"

definition doneEvent :: "jmap \<Rightarrow> trans" where
  "doneEvent m t =
     (let reason = (if boolAt m ''ok'' \<and> awaitingApproval t then ''tool-calls'' else if boolAt m ''ok'' then ''stop'' else ''error'');
          (out, t) = closeText t in
      (out @ finishParts reason, t\<lparr>sawDone := True\<rparr>))"

definition singleKinds :: "string list" where
  "singleKinds = [''stop'', ''scope'', ''pick'', ''code-lock'']"

definition eventParts :: "(string \<Rightarrow> string) \<Rightarrow> string \<Rightarrow> json \<Rightarrow> trans" where
  "eventParts lower kind payload t =
     (let m = toMap payload in
      if kind = ''step'' then (stepParts m, t)
      else if kind = ''step-result'' then stepResult payload m t
      else if kind = ''delta'' then delta m t
      else if kind = ''answer'' then answer m t
      else if kind = ''block'' then ([blockPart m], t)
      else if kind \<in> set singleKinds then ([part (''data-'' @ kind) [(''id'', JStr kind), (''data'', JObj m)]], t)
      else if kind = ''error''
      then (errorParts (streamErrorClass lower (strAt m ''error'')) (strAt m ''error''), t\<lparr>sawAnswerOrError := True\<rparr>)
      else if kind = ''done'' then doneEvent m t
      else ([unknownPart kind payload], t))"

definition startParts :: "string \<Rightarrow> Part list" where
  "startParts mid =
     [part ''start'' (if mid \<noteq> [] then [(''messageId'', JStr mid)] else []), part ''start-step'' []]"

definition Translate :: "(string \<Rightarrow> string) \<Rightarrow> string \<Rightarrow> json \<Rightarrow> trans" where
  "Translate lower kind payload t =
     (if sawDone t then ([], t)
      else
        (let out = (if \<not> started t then startParts (messageID t) else []);
             (out', t) = eventParts lower kind payload (t\<lparr>started := True\<rparr>) in
         (out @ out', t)))"

definition Finish :: trans where
  "Finish t =
     (if \<not> started t \<or> sawDone t then ([], t)
      else
        (let (out, t) = closeText t in
         (out @ (if sawAnswerOrError t then [] else errorParts ''closed'' closedErrorText) @ finishParts ''error'',
          t\<lparr>sawDone := True\<rparr>)))"

section \<open>The emitter\<close>

datatype frame = Data Part | Ping | DoneMarker

record Emitter =
  tr :: Translator
  doneWritten :: bool
  wire :: "frame list"

definition NewEmitter :: "string \<Rightarrow> Emitter" where
  "NewEmitter mid = \<lparr>tr = NewTranslator\<lparr>messageID := mid\<rparr>, doneWritten = False, wire = []\<rparr>"

definition writeLocked :: "Part list \<Rightarrow> Emitter \<Rightarrow> Emitter" where
  "writeLocked ps e = (if doneWritten e then e else e\<lparr>wire := wire e @ map Data ps\<rparr>)"

definition writeDoneLocked :: "Emitter \<Rightarrow> Emitter" where
  "writeDoneLocked e = (if doneWritten e then e else e\<lparr>wire := wire e @ [DoneMarker], doneWritten := True\<rparr>)"

definition Emit :: "(string \<Rightarrow> string) \<Rightarrow> string \<Rightarrow> json \<Rightarrow> Emitter \<Rightarrow> Emitter" where
  "Emit lower kind payload e =
     (let (ps, t) = Translate lower kind payload (tr e); e = writeLocked ps (e\<lparr>tr := t\<rparr>) in
      if sawDone t then writeDoneLocked e else e)"

definition Close :: "Emitter \<Rightarrow> Emitter" where
  "Close e =
     (if started (tr e) then (let (ps, t) = Finish (tr e) in writeDoneLocked (writeLocked ps (e\<lparr>tr := t\<rparr>))) else e)"

definition heartbeat :: "Emitter \<Rightarrow> Emitter" where
  "heartbeat e = (if doneWritten e then e else e\<lparr>wire := wire e @ [Ping]\<rparr>)"

datatype eop = OpEmit string json | OpPing | OpClose

fun runOp :: "(string \<Rightarrow> string) \<Rightarrow> eop \<Rightarrow> Emitter \<Rightarrow> Emitter" where
  "runOp lower (OpEmit k p) e = Emit lower k p e"
| "runOp lower OpPing e = heartbeat e"
| "runOp lower OpClose e = Close e"

section \<open>The protocol\<close>

text \<open>
  The reference automaton of a message stream: one start, one step, text segments that are opened with
  a fresh identifier, filled and closed one at a time, one end of the step and one finish.
\<close>

datatype pstate = PInit | PStart | PBody "string option" "string set" | PFinStep | PEnd

definition reserved :: "string list" where
  "reserved = [''start'', ''start-step'', ''text-start'', ''text-delta'', ''text-end'', ''finish-step'', ''finish'']"

definition bodyStep :: "string \<Rightarrow> string \<Rightarrow> string option \<Rightarrow> string set \<Rightarrow> pstate option" where
  "bodyStep ty i op used =
     (if ty \<notin> set reserved then Some (PBody op used)
      else if ty = ''text-start'' then (if op = None \<and> i \<notin> used then Some (PBody (Some i) (insert i used)) else None)
      else if ty = ''text-delta'' then (if op = Some i then Some (PBody op used) else None)
      else if ty = ''text-end'' then (if op = Some i then Some (PBody None used) else None)
      else if ty = ''finish-step'' then (if op = None then Some PFinStep else None)
      else None)"

definition protoStep :: "pstate \<Rightarrow> Part \<Rightarrow> pstate option" where
  "protoStep st p =
     (case st of
        PInit \<Rightarrow> if strAt p ''type'' = ''start'' then Some PStart else None
      | PStart \<Rightarrow> if strAt p ''type'' = ''start-step'' then Some (PBody None {}) else None
      | PBody op used \<Rightarrow> bodyStep (strAt p ''type'') (strAt p ''id'') op used
      | PFinStep \<Rightarrow> if strAt p ''type'' = ''finish'' then Some PEnd else None
      | PEnd \<Rightarrow> None)"

fun runP :: "pstate \<Rightarrow> Part list \<Rightarrow> pstate option" where
  "runP st [] = Some st"
| "runP st (p # ps) = (case protoStep st p of None \<Rightarrow> None | Some st' \<Rightarrow> runP st' ps)"

lemma runP_append: "runP st (ps @ qs) = Option.bind (runP st ps) (\<lambda>st'. runP st' qs)"
  by (induction ps arbitrary: st) (auto split: option.splits)

lemma strAt_part: "strAt ((''type'', JStr t) # fs) ''type'' = t" "strAt ((''type'', JStr t) # fs) ''id'' = strAt fs ''id''"
  by (simp_all add: strAt_def)

lemma strAt_id: "strAt ((''id'', JStr i) # fs) ''id'' = i"
  by (simp add: strAt_def)

text \<open>Parts that carry no protocol meaning.\<close>

definition neutral :: "Part \<Rightarrow> bool" where
  "neutral p \<longleftrightarrow> strAt p ''type'' \<notin> set reserved"

lemma runP_neutral: "list_all neutral ps \<Longrightarrow> runP (PBody op used) ps = Some (PBody op used)"
  by (induction ps) (auto simp: protoStep_def bodyStep_def neutral_def)

lemma neutral_types:
  "neutral (part ''tool-input-start'' fs)" "neutral (part ''tool-input-available'' fs)"
  "neutral (part ''tool-output-available'' fs)" "neutral (part ''source-url'' fs)"
  "neutral (part ''source-document'' fs)" "neutral (part ''message-metadata'' fs)" "neutral (part ''error'' fs)"
  "neutral (part (CHR ''d'' # CHR ''a'' # CHR ''t'' # CHR ''a'' # CHR ''-'' # x) fs)"
  by (simp_all add: neutral_def strAt_part reserved_def)

lemma neutral_data:
  "neutral (part ''data-step'' fs)" "neutral (part ''data-budget'' fs)" "neutral (part ''data-unknown'' fs)"
  "neutral (part ''data-tool-result'' fs)" "neutral (part ''data-approval'' fs)" "neutral (part ''data-links'' fs)"
  "neutral (part ''data-followups'' fs)" "neutral (part ''data-evidence-summary'' fs)" "neutral (part ''data-error'' fs)"
  "neutral (part ''data-reset'' fs)" "neutral (part (''data-block-'' @ x) fs)"
  by (simp_all add: neutral_def strAt_part reserved_def)

lemma reserved_mem:
  "''start'' \<in> set reserved" "''start-step'' \<in> set reserved" "''text-start'' \<in> set reserved"
  "''text-delta'' \<in> set reserved" "''text-end'' \<in> set reserved" "''finish-step'' \<in> set reserved" "''finish'' \<in> set reserved"
  by (simp_all add: reserved_def)

lemma body_text:
  "bodyStep ''text-start'' i None used = (if i \<notin> used then Some (PBody (Some i) (insert i used)) else None)"
  "bodyStep ''text-delta'' i (Some i) used = Some (PBody (Some i) used)"
  "bodyStep ''text-end'' i (Some i) used = Some (PBody None used)"
  "bodyStep ''finish-step'' i None used = Some PFinStep"
  by (simp_all add: bodyStep_def reserved_mem)

section \<open>Translator and automaton\<close>

definition ids :: "nat \<Rightarrow> string set" where
  "ids n = textId ` {1..n}"

definition mopen :: "Translator \<Rightarrow> string option" where
  "mopen t = (if openText t = [] then None else Some (openText t))"

definition rel :: "Translator \<Rightarrow> pstate \<Rightarrow> bool" where
  "rel t st \<longleftrightarrow>
     (if \<not> started t then st = PInit \<and> openText t = [] \<and> textSeq t = 0 \<and> \<not> sawDone t
      else if sawDone t then st = PEnd
      else (\<exists>used. st = PBody (mopen t) used \<and> used \<subseteq> ids (textSeq t)))"

text \<open>A translation in the body moves the automaton along.\<close>

definition moves :: "Part list \<times> Translator \<Rightarrow> Translator \<Rightarrow> bool" where
  "moves r t \<longleftrightarrow>
     (\<forall>st. rel t st \<longrightarrow> started t \<longrightarrow> \<not> sawDone t \<longrightarrow> started (snd r) \<and> (\<exists>st'. runP st (fst r) = Some st' \<and> rel (snd r) st'))"

lemma textId_inj: "textId m = textId n \<longleftrightarrow> m = n"
  by (simp add: textId_def itoa_nat_inj)

lemma textId_fresh: "textId (Suc n) \<notin> ids n"
  by (auto simp: ids_def textId_inj)

lemma ids_Suc: "ids (Suc n) = insert (textId (Suc n)) (ids n)"
  by (simp add: ids_def atLeastAtMostSuc_conv)

lemma textId_nonempty [simp]: "textId n \<noteq> []"
  by (simp add: textId_def)

lemma moves_neutral:
  assumes "list_all neutral ps" and "openText t' = openText t" "textSeq t' = textSeq t" "started t' = started t" "sawDone t' = sawDone t"
  shows "moves (ps, t') t"
  using assms by (auto simp: moves_def rel_def mopen_def runP_neutral)

lemma moves_then:
  assumes "moves (ps, t') t" and "moves (qs, t'') t'" and "sawDone t' = sawDone t"
  shows "moves (ps @ qs, t'') t"
  unfolding moves_def
proof (intro allI impI)
  fix st assume s: "rel t st" "started t" "\<not> sawDone t"
  from assms(1) s obtain st' where 1: "started t'" "runP st ps = Some st'" "rel t' st'" by (auto simp: moves_def)
  with assms(2,3) s(3) obtain st'' where "started t''" "runP st' qs = Some st''" "rel t'' st''" by (auto simp: moves_def)
  with 1 show "started (snd (ps @ qs, t'')) \<and> (\<exists>st'. runP st (fst (ps @ qs, t'')) = Some st' \<and> rel (snd (ps @ qs, t'')) st')"
    by (simp add: runP_append)
qed

lemma moves_close: "moves ([part ''text-end'' [(''id'', JStr (openText t))]], t\<lparr>openText := []\<rparr>) t" if "openText t \<noteq> []"
  using that by (auto simp: moves_def rel_def mopen_def protoStep_def strAt_part strAt_id body_text)

lemma moves_open:
  assumes "openText t = []"
  shows "moves ([part ''text-start'' [(''id'', JStr (textId (textSeq t + 1)))]],
    t\<lparr>textSeq := textSeq t + 1, openText := textId (textSeq t + 1)\<rparr>) t"
  using assms textId_fresh [of "textSeq t"]
  by (auto simp: moves_def rel_def mopen_def protoStep_def strAt_part strAt_id body_text ids_Suc)

lemma moves_delta: "moves ([part ''text-delta'' [(''id'', JStr (openText t)), (''delta'', JStr x)]], t) t" if "openText t \<noteq> []"
  using that by (auto simp: moves_def rel_def mopen_def protoStep_def strAt_part strAt_id body_text)

lemma moves_refl: "moves ([], t) t"
  by (simp add: moves_def)

lemma moves_retract: "moves (retract t) t"
proof (cases "openText t = []")
  case False
  have "moves ([part ''data-reset'' [(''data'', JObj [(''textId'', JStr (openText t))]), (''transient'', JBool True)]],
      t\<lparr>openText := []\<rparr>) (t\<lparr>openText := []\<rparr>)"
    by (rule moves_neutral) (simp_all add: neutral_data)
  from moves_then [OF moves_close [OF False] this] False show ?thesis by (simp add: retract_def)
qed (simp add: retract_def moves_refl)

lemma moves_closeText: "moves (closeText t) t"
  by (simp add: closeText_def moves_refl moves_close)

lemma moves_deltaText: "moves (deltaText x t) t"
proof -
  define r where "r = (if openText t = [] then
      ([part ''text-start'' [(''id'', JStr (textId (textSeq t + 1)))]], t\<lparr>textSeq := textSeq t + 1, openText := textId (textSeq t + 1)\<rparr>)
      else ([], t))"
  have r: "moves r t" "sawDone (snd r) = sawDone t" "openText (snd r) \<noteq> []"
    using moves_open [of t] moves_refl by (simp_all add: r_def)
  have "moves ((if x \<noteq> [] then [part ''text-delta'' [(''id'', JStr (openText (snd r))), (''delta'', JStr x)]] else []), snd r) (snd r)"
    using moves_delta [OF r(3)] moves_refl by simp
  from moves_then [of "fst r" "snd r" t, OF _ this r(2)] r(1) show ?thesis
    by (simp add: deltaText_def Let_def r_def split: if_splits)
qed

lemma frame_facts:
  "sawDone (snd (retract t)) = sawDone t" "sawDone (snd (closeText t)) = sawDone t" "openText (snd (retract t)) = []"
  "textSeq (snd (retract t)) = textSeq t" "started (snd (retract t)) = started t"
  "openText (snd (closeText t)) = []" "textSeq (snd (closeText t)) = textSeq t" "started (snd (closeText t)) = started t"
  by (simp_all add: retract_def closeText_def)

lemma moves_deltaEvent: "moves (delta m t) t"
proof -
  define r where "r = (if boolAt m ''reset'' then retract t else ([], t))"
  have r: "moves r t" "sawDone (snd r) = sawDone t" by (simp_all add: r_def moves_retract moves_refl frame_facts)
  have "moves (fst (deltaText x (snd r)), snd (deltaText x (snd r))) (snd r)" for x using moves_deltaText by simp
  from moves_then [of "fst r" "snd r" t, OF _ this r(2)] r(1) show ?thesis
    by (auto simp: delta_def r_def [symmetric] case_prod_unfold Let_def)
qed

lemma answerTail_neutral: "list_all neutral (answerTail m)"
proof -
  have "neutral (sourcePart v)" for v
    unfolding sourcePart_def Let_def by (auto simp: neutral_types)
  then show ?thesis unfolding answerTail_def Let_def by (auto simp: neutral_types neutral_data list_all_iff)
qed

lemma moves_answer: "moves (answer m t) t"
proof -
  let ?t0 = "t\<lparr>sawAnswerOrError := True\<rparr>"
  define r where "r = retract ?t0"
  let ?t1 = "snd r" and ?id = "textId (textSeq (snd r) + 1)" and ?x = "strAt m ''text''"
  let ?t2 = "?t1\<lparr>textSeq := textSeq ?t1 + 1, openText := ?id\<rparr>" and ?t3 = "?t1\<lparr>textSeq := textSeq ?t1 + 1\<rparr>"
  have o: "openText ?t1 = []" by (simp add: r_def frame_facts)
  have 0: "moves ([], ?t0) t" by (rule moves_neutral) simp_all
  have 1: "moves (fst r, ?t1) ?t0" using moves_retract [of ?t0] by (simp add: r_def)
  have 2: "moves ([part ''text-start'' [(''id'', JStr ?id)]], ?t2) ?t1" by (rule moves_open [OF o])
  have 3: "moves ((if ?x \<noteq> [] then [part ''text-delta'' [(''id'', JStr ?id), (''delta'', JStr ?x)]] else []), ?t2) ?t2"
    using moves_delta [of ?t2] moves_refl by simp
  have 4: "moves ([part ''text-end'' [(''id'', JStr ?id)]], ?t3) ?t2"
  proof -
    have "?t2\<lparr>openText := []\<rparr> = ?t3" using o by (cases "snd r") simp
    with moves_close [of ?t2] show ?thesis by simp
  qed
  have 5: "moves (answerTail m, ?t3) ?t3" by (rule moves_neutral) (simp_all add: answerTail_neutral)
  have "moves ([] @ fst r @ [part ''text-start'' [(''id'', JStr ?id)]] @
      (if ?x \<noteq> [] then [part ''text-delta'' [(''id'', JStr ?id), (''delta'', JStr ?x)]] else []) @
      [part ''text-end'' [(''id'', JStr ?id)]] @ answerTail m, ?t3) t"
    by (rule moves_then [OF 0 moves_then [OF 1 moves_then [OF 2 moves_then [OF 3 moves_then [OF 4 5]]]]])
      (simp_all add: r_def frame_facts)
  then show ?thesis unfolding answer_def r_def by (cases "?x = []") (simp_all add: case_prod_unfold Let_def)
qed

lemma moves_finish:
  assumes "openText t = []" and "t' = t\<lparr>sawDone := True\<rparr>"
  shows "moves (finishParts reason, t') t"
  using assms
  by (auto simp: moves_def rel_def mopen_def finishParts_def protoStep_def strAt_part strAt_def body_text)

lemma moves_done: "moves (doneEvent m t) t"
  using moves_then [of "fst (closeText t)" "snd (closeText t)" t, OF _ moves_finish]
    moves_closeText [of t]
  by (auto simp: doneEvent_def case_prod_unfold Let_def frame_facts)

lemma moves_stepResult: "moves (stepResult p m t) t"
  by (auto simp: stepResult_def unknownPart_def Let_def neutral_types neutral_data intro!: moves_neutral
      split: option.splits json.splits)

lemma stepParts_neutral: "list_all neutral (stepParts m)"
  by (auto simp: stepParts_def Let_def neutral_types neutral_data split: option.splits)

lemma moves_event: "moves (eventParts lower kind payload t) t"
proof -
  have "moves (stepParts m, t) t" "moves ([blockPart m], t) t" "moves ([unknownPart kind payload], t) t"
    "moves ([part (''data-'' @ kind) fs], t) t" "moves (errorParts c r, t\<lparr>sawAnswerOrError := True\<rparr>) t" for m fs c r
    by (auto intro!: moves_neutral simp: stepParts_neutral blockPart_def unknownPart_def errorParts_def neutral_types neutral_data)
  then show ?thesis
    unfolding eventParts_def Let_def by (simp add: moves_stepResult moves_deltaEvent moves_answer moves_done)
qed

lemma startParts_run: "runP PInit (startParts mid) = Some (PBody None {})"
  by (simp add: startParts_def protoStep_def strAt_def)

text \<open>The relation across a whole call.\<close>

definition follows :: "Part list \<times> Translator \<Rightarrow> Translator \<Rightarrow> bool" where
  "follows r t \<longleftrightarrow> (\<forall>st. rel t st \<longrightarrow> (\<exists>st'. runP st (fst r) = Some st' \<and> rel (snd r) st'))"

lemma follows_Translate: "follows (Translate lower kind payload t) t"
  unfolding follows_def
proof (intro allI impI)
  fix st assume st: "rel t st"
  let ?t = "t\<lparr>started := True\<rparr>" and ?r = "eventParts lower kind payload (t\<lparr>started := True\<rparr>)"
  show "\<exists>st'. runP st (fst (Translate lower kind payload t)) = Some st' \<and> rel (snd (Translate lower kind payload t)) st'"
  proof (cases "sawDone t")
    case True
    with st show ?thesis by (simp add: Translate_def)
  next
    case False
    obtain st1 where 1: "runP st (if \<not> started t then startParts (messageID t) else []) = Some st1" "rel ?t st1"
    proof (cases "started t")
      case True
      then have "?t = t" by (cases t) simp
      with True st that show ?thesis by simp
    next
      case F: False
      with st False have "st = PInit" "openText t = []" by (auto simp: rel_def)
      with F False that [of "PBody None {}"] show ?thesis by (simp add: startParts_run rel_def mopen_def)
    qed
    from moves_event [of lower kind payload ?t] 1(2) False
    obtain st2 where "runP st1 (fst ?r) = Some st2" "rel (snd ?r) st2" by (auto simp: moves_def)
    with 1(1) False show ?thesis by (simp add: Translate_def Let_def case_prod_unfold runP_append)
  qed
qed

lemma follows_Finish: "follows (Finish t) t"
  unfolding follows_def
proof (intro allI impI)
  fix st assume st: "rel t st"
  show "\<exists>st'. runP st (fst (Finish t)) = Some st' \<and> rel (snd (Finish t)) st'"
  proof (cases "\<not> started t \<or> sawDone t")
    case True
    with st show ?thesis by (auto simp: Finish_def)
  next
    case False
    let ?c = "closeText t" and ?e = "if sawAnswerOrError (snd (closeText t)) then [] else errorParts ''closed'' closedErrorText"
    have e: "moves (?e, snd ?c) (snd ?c)"
      by (rule moves_neutral) (simp_all add: errorParts_def neutral_types neutral_data)
    have f: "moves (finishParts ''error'', snd ?c\<lparr>sawDone := True\<rparr>) (snd ?c)"
      by (rule moves_finish) (simp_all add: frame_facts)
    have "moves (fst ?c @ ?e @ finishParts ''error'', snd ?c\<lparr>sawDone := True\<rparr>) t"
      using moves_then [OF _ moves_then [OF e f]] moves_closeText [of t] by (simp add: frame_facts)
    with st False show ?thesis by (auto simp: moves_def Finish_def Let_def case_prod_unfold)
  qed
qed

lemma Finish_done: "started t \<Longrightarrow> sawDone (snd (Finish t))"
  by (auto simp: Finish_def Let_def case_prod_unfold)

section \<open>The emitter's invariant\<close>

fun dataParts :: "frame list \<Rightarrow> Part list" where
  "dataParts [] = []"
| "dataParts (Data p # fs) = p # dataParts fs"
| "dataParts (f # fs) = dataParts fs"

lemma dataParts_simps [simp]: "dataParts (fs @ gs) = dataParts fs @ dataParts gs" "dataParts (map Data ps) = ps"
  by (induction fs rule: dataParts.induct) (simp_all, induction ps, simp_all)

definition emitterInv :: "Emitter \<Rightarrow> bool" where
  "emitterInv e \<longleftrightarrow>
     (\<exists>st. runP PInit (dataParts (wire e)) = Some st \<and> rel (tr e) st) \<and>
     doneWritten e = sawDone (tr e) \<and>
     (if doneWritten e then \<exists>fs. wire e = fs @ [DoneMarker] \<and> DoneMarker \<notin> set fs else DoneMarker \<notin> set (wire e))"

lemma NewEmitter_inv: "emitterInv (NewEmitter mid)"
  by (simp add: emitterInv_def NewEmitter_def NewTranslator_def rel_def)

lemma written_inv:
  assumes e: "emitterInv e" and f: "follows r (tr e)" and d: "sawDone (tr e) \<Longrightarrow> sawDone (snd r) \<and> fst r = []"
  shows "emitterInv (let e' = writeLocked (fst r) (e\<lparr>tr := snd r\<rparr>) in if sawDone (snd r) then writeDoneLocked e' else e')"
proof -
  from e obtain st where st: "runP PInit (dataParts (wire e)) = Some st" "rel (tr e) st" and dw: "doneWritten e = sawDone (tr e)"
    by (auto simp: emitterInv_def)
  from f st(2) obtain st' where st': "runP st (fst r) = Some st'" "rel (snd r) st'" by (auto simp: follows_def)
  show ?thesis
  proof (cases "doneWritten e")
    case True
    with d dw st st' e show ?thesis by (auto simp: emitterInv_def writeLocked_def writeDoneLocked_def Let_def)
  next
    case False
    with e st st' dw show ?thesis
      by (auto simp: emitterInv_def writeLocked_def writeDoneLocked_def Let_def runP_append)
  qed
qed

lemma after_done:
  "sawDone t \<Longrightarrow> sawDone (snd (Translate lower k p t)) \<and> fst (Translate lower k p t) = []"
  "sawDone t \<Longrightarrow> sawDone (snd (Finish t)) \<and> fst (Finish t) = []"
  by (simp_all add: Translate_def Finish_def)

lemma Emit_inv: "emitterInv e \<Longrightarrow> emitterInv (Emit lower k p e)"
  using written_inv [OF _ follows_Translate after_done(1)] by (simp add: Emit_def Let_def case_prod_unfold)

lemma Close_inv: "emitterInv e \<Longrightarrow> emitterInv (Close e)"
  using written_inv [of e, OF _ follows_Finish after_done(2)] Finish_done [of "tr e"]
  by (auto simp: Close_def Let_def case_prod_unfold)

lemma ping_inv: "emitterInv e \<Longrightarrow> emitterInv (heartbeat e)"
  by (auto simp: emitterInv_def heartbeat_def)

lemma runOp_inv: "emitterInv e \<Longrightarrow> emitterInv (runOp lower x e)"
  by (cases x) (simp_all add: Emit_inv Close_inv ping_inv)

lemma stream_inv: "emitterInv (fold (runOp lower) ops (NewEmitter mid))"
  by (rule fold_invariant [where Q = "\<lambda>_. True"]) (simp_all add: NewEmitter_inv runOp_inv)

text \<open>Closing a started stream ends it.\<close>

lemma Close_done: "emitterInv e \<Longrightarrow> started (tr e) \<Longrightarrow> doneWritten (Close e)"
  using Finish_done [of "tr e"] by (simp add: Close_def Let_def case_prod_unfold writeDoneLocked_def)

lemma trans_started:
  "started (snd (deltaText x t)) = started t" "started (snd (delta m t)) = started t" "started (snd (answer m t)) = started t"
  "started (snd (doneEvent m t)) = started t" "started (snd (stepResult p m t)) = started t"
  by (auto simp: deltaText_def delta_def answer_def doneEvent_def stepResult_def Let_def case_prod_unfold frame_facts
      split: option.splits json.splits)

lemma Translate_started: "started (snd (Translate lower k p t)) \<longleftrightarrow> started t \<or> \<not> sawDone t"
  by (simp add: Translate_def eventParts_def Let_def case_prod_unfold trans_started)

lemma Finish_started: "started (snd (Finish t)) = started t"
  by (simp add: Finish_def Let_def case_prod_unfold frame_facts)

lemma write_tr [simp]: "tr (writeLocked ps e) = tr e" "tr (writeDoneLocked e) = tr e"
  by (simp_all add: writeLocked_def writeDoneLocked_def)

lemma Emit_started: "emitterInv e \<Longrightarrow> started (tr (Emit lower k p e))"
  by (auto simp: Emit_def Let_def case_prod_unfold Translate_started emitterInv_def rel_def split: if_splits)

lemma runOp_started: "started (tr e) \<Longrightarrow> started (tr (runOp lower x e))"
  by (cases x) (auto simp: Emit_def Close_def heartbeat_def Let_def case_prod_unfold Translate_started Finish_started)

lemma ops_started: "started (tr e) \<Longrightarrow> started (tr (fold (runOp lower) ops e))"
  by (induction ops arbitrary: e) (simp_all add: runOp_started)

lemma runOp_frozen: "doneWritten e \<Longrightarrow> wire (runOp lower x e) = wire e \<and> doneWritten (runOp lower x e)"
  by (cases x) (auto simp: Emit_def Close_def heartbeat_def Let_def case_prod_unfold writeLocked_def writeDoneLocked_def)

lemma done_frozen: "doneWritten e \<Longrightarrow> wire (fold (runOp lower) ops e) = wire e"
  by (induction ops arbitrary: e) (simp_all add: runOp_frozen)

definition wellFormed :: "Emitter \<Rightarrow> bool" where
  "wellFormed e \<longleftrightarrow>
     (case runP PInit (dataParts (wire e)) of
        None \<Rightarrow> False
      | Some st \<Rightarrow> (st = PEnd \<longleftrightarrow> DoneMarker \<in> set (wire e)) \<and>
          DoneMarker \<notin> set (butlast (wire e)))"

lemma inv_wellFormed: "emitterInv e \<Longrightarrow> wellFormed e"
  by (auto simp: emitterInv_def wellFormed_def rel_def butlast_append dest: in_set_butlastD split: if_splits)

section \<open>The size of a tool result\<close>

lemma escString_ascii:
  "byte c < 128 \<Longrightarrow> escString (c # s) = escRune [c] @ escString s"
  by (subst escString.simps) (simp add: runeWidth_def decodeRune_def)

lemma escString_lt: "length (escString (replicate n (CHR ''<''))) = 6 * n"
  by (induction n) (simp_all add: escString_ascii escRune_def escString.simps [of "[]"])

lemma Join_length: "x \<in> set xs \<Longrightarrow> length x \<le> length (Join xs sep)"
  by (induction xs sep rule: Join.induct) auto

lemma marshal_member:
  assumes "(k, v) \<in> set m"
  shows "length (marshal v) \<le> length (marshal (JObj m))"
proof -
  from assms have "quoteJSON k @ '':'' @ marshal v \<in> set (map snd (sort_key fst (map (\<lambda>(k, v). (k, quoteJSON k @ '':'' @ marshal v)) m)))"
    by force
  from Join_length [OF this, of "'',''"] show ?thesis by simp
qed

text \<open>
  The size cap is measured on the marshalled value, but the fallback keeps a page address of up to 1024
  unescaped bytes: an address full of angle brackets grows sixfold and the result is over the cap.
\<close>
theorem ToolResultData_over_cap:
  "ToolResultMaxBytes < length (marshal (JObj (ToolResultData
     [(''ok'', JBool True), (''href'', JStr (CHR ''/'' # replicate 1000 (CHR ''<'')))])))"
proof -
  let ?u = "CHR ''/'' # replicate 1000 (CHR ''<'')"
  let ?d = "[(''kind'', JStr ''text''), (''ok'', JBool True), (''page_url'', JStr ?u)]"
  have r: "rootRelative ?u" by (simp add: rootRelative_def HasPrefix_def numeral_eq_Suc)
  have big: "ToolResultMaxBytes < length (marshal (JStr ?u))"
    by (simp add: quoteJSON_def escString_ascii escString_lt escRune_def ToolResultMaxBytes_def)
  have d: "ToolResultMaxBytes < length (marshal (JObj ?d))"
    using less_le_trans [OF big marshal_member [of "''page_url''" "JStr ?u" ?d]] by (simp del: marshal.simps)
  have s: "shapeResult [(''ok'', JBool True), (''href'', JStr ?u)] = (?d, ''text'', [], False)"
    using r by (simp add: shapeResult_def baseResult_def putIf_def strAt_def boolAt_def asInt_def)
  have f: "fitLoop 32 ''text'' ?d = ?d"
    using d by (simp add: numeral_eq_Suc fitRound_def strAt_def del: marshal.simps)
  have "ToolResultData [(''ok'', JBool True), (''href'', JStr ?u)] = coreResult ?d"
    using d by (simp add: ToolResultData_def s putIf_def fitToolResult_def f del: marshal.simps)
  moreover have "(''page_url'', JStr ?u) \<in> set (coreResult ?d)" by (simp add: coreResult_def)
  ultimately show ?thesis using less_le_trans [OF big marshal_member] by metis
qed

section \<open>Properties\<close>

text \<open>
  C15. Whatever events, heartbeat ticks and closes reach an emitter, in whatever order, the frames on the wire
  are a run of the message protocol: one \<open>start\<close> and one \<open>start-step\<close> come first, every text segment has a
  fresh identifier, is opened before it is filled and closed before the next or the end, and the closing
  \<open>finish-step\<close>, \<open>finish\<close> come once. The done marker is written exactly when the stream is finished, and
  is its last frame: no part and no heartbeat follows it.
\<close>
theorem stream_wellFormed: "wellFormed (fold (runOp lower) ops (NewEmitter mid))"
  by (rule inv_wellFormed [OF stream_inv])

text \<open>
  Closing always completes a stream on which an event was emitted: after any operations with at least one
  event, \<open>Close\<close> leaves the protocol in its final state and the done marker on the wire, and every later
  operation leaves the wire as it is.
\<close>
theorem Close_completes:
  "case fold (runOp lower) (ops @ [OpEmit k p] @ ops' @ [OpClose]) (NewEmitter mid) of
     e \<Rightarrow> runP PInit (dataParts (wire e)) = Some PEnd \<and> last (wire e) = DoneMarker \<and>
         wire (fold (runOp lower) later e) = wire e"
proof -
  define e where "e = fold (runOp lower) (ops @ [OpEmit k p] @ ops') (NewEmitter mid)"
  have i: "emitterInv e" by (simp only: e_def stream_inv)
  have "started (tr e)" unfolding e_def by (simp add: ops_started Emit_started stream_inv)
  with i have d: "doneWritten (Close e)" by (rule Close_done)
  have "fold (runOp lower) (ops @ [OpEmit k p] @ ops' @ [OpClose]) (NewEmitter mid) = Close e" by (simp add: e_def)
  with Close_inv [OF i] d done_frozen [OF d] show ?thesis by (auto simp: emitterInv_def rel_def split: if_splits)
qed

end
