(* ===== verification/Cron.thy ===== *)
theory Cron
  imports UTF8 GoInt "HOL-Library.While_Combinator"
begin

text \<open>
  Calendar schedules of imported watches (\<open>internal/watcher/cron.go\<close>, and the schedule part of
  \<open>watcher.go\<close>): the parser of Quartz expressions, the search for the next fire time, and the choice
  between an interval and a calendar schedule. A time is a UTC civil date with the fields Go's accessors
  return; \<open>Date\<close> is \<open>time.Date\<close> for arguments at most one past their range, which is how the
  code calls it. Error values keep what the messages print.
\<close>

section \<open>Fields\<close>

datatype cronField = CAny | CSet "int list"

fun fieldMatch :: "cronField \<Rightarrow> int \<Rightarrow> bool" where
  "fieldMatch CAny v = True"
| "fieldMatch (CSet s) v = (v \<in> set s)"

definition isAny :: "cronField \<Rightarrow> bool" where
  "isAny f \<longleftrightarrow> f = CAny"

record CronSchedule =
  cSec :: cronField
  cMin :: cronField
  cHour :: cronField
  cDom :: cronField
  cMon :: cronField
  cDow :: cronField
  cYear :: cronField

datatype cronErr =
  CronFieldCount nat | CronSpecialDom string | CronSpecialDow string | CronBothDays | CronNoQuestion string | CronBadStep string |
  CronBadElement string | CronReversed string | CronEmpty string | CronBadValue string | CronRange int int int | CronNoFire | CronDiverges

definition monthNames :: "(string \<times> int) list" where
  "monthNames = [(''JAN'', 1), (''FEB'', 2), (''MAR'', 3), (''APR'', 4), (''MAY'', 5), (''JUN'', 6),
     (''JUL'', 7), (''AUG'', 8), (''SEP'', 9), (''OCT'', 10), (''NOV'', 11), (''DEC'', 12)]"

definition dowNames :: "(string \<times> int) list" where
  "dowNames = [(''SUN'', 1), (''MON'', 2), (''TUE'', 3), (''WED'', 4), (''THU'', 5), (''FRI'', 6), (''SAT'', 7)]"

text \<open>
  \<open>strings.ToUpper\<close> as far as a comparison with an ASCII name depends on it: two letters outside ASCII,
  the dotless i and the long s, have an ASCII upper case.
\<close>

definition upperRune :: "string \<Rightarrow> string" where
  "upperRune r = (if r = [CHR 0xC4, CHR 0xB1] then ''I'' else if r = [CHR 0xC5, CHR 0xBF] then ''S'' else map ascii_upper r)"

definition upperName :: "string \<Rightarrow> string" where
  "upperName s = concat (map upperRune (runes s))"

definition Cut :: "string \<Rightarrow> char \<Rightarrow> string \<times> string \<times> bool" where
  "Cut s c = (case IndexByte s c of Some i \<Rightarrow> (take i s, drop (Suc i) s, True) | None \<Rightarrow> (s, [], False))"

definition cronValue :: "string \<Rightarrow> int \<Rightarrow> int \<Rightarrow> (string \<times> int) list \<Rightarrow> cronErr + int" where
  "cronValue s lo hi names =
     (case map_of names (upperName s) of
        Some v \<Rightarrow> Inr v
      | None \<Rightarrow>
          (case Atoi s of
             None \<Rightarrow> Inl (CronBadValue s)
           | Some v \<Rightarrow> if v < lo \<or> v > hi then Inl (CronRange v lo hi) else Inr v))"

text \<open>The loop that fills a stepped range; the addition is that of \<open>int\<close> and wraps.\<close>

definition stepLoop :: "int \<Rightarrow> int \<Rightarrow> int \<Rightarrow> int list option" where
  "stepLoop from to step =
     map_option snd (while_option (\<lambda>(v, acc). v \<le> to) (\<lambda>(v, acc). (wrap64 (v + step), v # acc)) (from, []))"

definition cronRange :: "string \<Rightarrow> string \<Rightarrow> int \<Rightarrow> int \<Rightarrow> (string \<times> int) list \<Rightarrow> bool \<Rightarrow> cronErr + (int \<times> int \<times> bool)" where
  "cronRange part rangePart lo hi names hasStep =
     (if rangePart = ''*'' then (if \<not> hasStep then Inl (CronBadElement part) else Inr (lo, hi, True))
      else if Contains rangePart ''-'' then
        (let (a, b, _) = Cut rangePart (CHR ''-'') in
         case cronValue a lo hi names of
           Inl e \<Rightarrow> Inl e
         | Inr av \<Rightarrow>
             (case cronValue b lo hi names of
                Inl e \<Rightarrow> Inl e
              | Inr bv \<Rightarrow> if av > bv then Inl (CronReversed part) else Inr (av, bv, True)))
      else
        (case cronValue rangePart lo hi names of
           Inl e \<Rightarrow> Inl e
         | Inr v \<Rightarrow> Inr (v, hi, hasStep)))"

text \<open>One element of a comma list; without a step a single value stands for itself.\<close>

definition cronElement :: "string \<Rightarrow> int \<Rightarrow> int \<Rightarrow> (string \<times> int) list \<Rightarrow> cronErr + int list" where
  "cronElement part lo hi names =
     (let (rangePart, stepPart, hasStep) = Cut part (CHR ''/'') in
      case (if hasStep then Atoi stepPart else Some 1) of
        None \<Rightarrow> Inl (CronBadStep part)
      | Some step \<Rightarrow>
          if step \<le> 0 then Inl (CronBadStep part)
          else
            (case cronRange part rangePart lo hi names hasStep of
               Inl e \<Rightarrow> Inl e
             | Inr (from, to, loops) \<Rightarrow>
                 if \<not> loops then Inr [from]
                 else (case stepLoop from to step of None \<Rightarrow> Inl CronDiverges | Some vs \<Rightarrow> Inr vs)))"

fun cronElements :: "string list \<Rightarrow> int \<Rightarrow> int \<Rightarrow> (string \<times> int) list \<Rightarrow> cronErr + int list" where
  "cronElements [] lo hi names = Inr []"
| "cronElements (p # ps) lo hi names =
     (case cronElement p lo hi names of
        Inl e \<Rightarrow> Inl e
      | Inr vs \<Rightarrow> (case cronElements ps lo hi names of Inl e \<Rightarrow> Inl e | Inr ws \<Rightarrow> Inr (vs @ ws)))"

definition parseCronField :: "string \<Rightarrow> int \<Rightarrow> int \<Rightarrow> (string \<times> int) list \<Rightarrow> bool \<Rightarrow> cronErr + cronField" where
  "parseCronField s lo hi names allowQ =
     (if s = ''*'' then Inr CAny
      else if s = ''?'' then (if allowQ then Inr CAny else Inl (CronNoQuestion s))
      else
        (case cronElements (SplitByte [] (CHR '','') s) lo hi names of
           Inl e \<Rightarrow> Inl e
         | Inr [] \<Rightarrow> Inl (CronEmpty s)
         | Inr vs \<Rightarrow> Inr (CSet vs)))"

definition containsAny :: "string \<Rightarrow> string \<Rightarrow> bool" where
  "containsAny s cs \<longleftrightarrow> list_ex (\<lambda>c. c \<in> set cs) s"

definition bindE :: "'e + 'a \<Rightarrow> ('a \<Rightarrow> 'e + 'b) \<Rightarrow> 'e + 'b" where
  "bindE r f = (case r of Inl e \<Rightarrow> Inl e | Inr x \<Rightarrow> f x)"

lemma bindE_simps [simp]: "bindE (Inl e) f = Inl e" "bindE (Inr x) f = f x"
  by (simp_all add: bindE_def)

definition ParseCron :: "string \<Rightarrow> cronErr + CronSchedule" where
  "ParseCron expr =
     (let fs = Fields (TrimSpace expr) in
      if length fs \<noteq> 6 \<and> length fs \<noteq> 7 then Inl (CronFieldCount (length fs))
      else if containsAny (fs ! 3) ''LW'' then Inl (CronSpecialDom (fs ! 3))
      else if containsAny (fs ! 5) ''L#'' then Inl (CronSpecialDow (fs ! 5))
      else
        bindE (parseCronField (fs ! 0) 0 59 [] False) (\<lambda>s.
        bindE (parseCronField (fs ! 1) 0 59 [] False) (\<lambda>mi.
        bindE (parseCronField (fs ! 2) 0 23 [] False) (\<lambda>h.
        bindE (parseCronField (fs ! 3) 1 31 [] True) (\<lambda>d.
        bindE (parseCronField (fs ! 4) 1 12 monthNames False) (\<lambda>mo.
        bindE (parseCronField (fs ! 5) 1 7 dowNames True) (\<lambda>w.
        bindE (if length fs = 7 then parseCronField (fs ! 6) 1970 2199 [] True else Inr CAny) (\<lambda>y.
          if \<not> isAny d \<and> \<not> isAny w then Inl CronBothDays
          else Inr \<lparr>cSec = s, cMin = mi, cHour = h, cDom = d, cMon = mo, cDow = w, cYear = y\<rparr>))))))))"

section \<open>Civil time\<close>

record civil =
  year :: int
  month :: int
  day :: int
  hour :: int
  minute :: int
  second :: int

definition leap :: "int \<Rightarrow> bool" where
  "leap y \<longleftrightarrow> y mod 4 = 0 \<and> (y mod 100 \<noteq> 0 \<or> y mod 400 = 0)"

definition daysIn :: "int \<Rightarrow> int \<Rightarrow> int" where
  "daysIn y m = (if m = 2 then (if leap y then 29 else 28) else if m \<in> {4, 6, 9, 11} then 30 else 31)"

definition validTime :: "civil \<Rightarrow> bool" where
  "validTime t \<longleftrightarrow> 1 \<le> month t \<and> month t \<le> 12 \<and> 1 \<le> day t \<and> day t \<le> daysIn (year t) (month t) \<and>
     0 \<le> hour t \<and> hour t < 24 \<and> 0 \<le> minute t \<and> minute t < 60 \<and> 0 \<le> second t \<and> second t < 60"

definition normMonth :: "int \<Rightarrow> int \<Rightarrow> int \<times> int" where
  "normMonth y m = (if m > 12 then (y + 1, 1) else (y, m))"

definition normDay :: "int \<Rightarrow> int \<Rightarrow> int \<Rightarrow> int \<times> int \<times> int" where
  "normDay y m d =
     (let (y, m) = normMonth y m in
      if d > daysIn y m then (let (y, m) = normMonth y (m + 1) in (y, m, 1)) else (y, m, d))"

definition Date :: "int \<Rightarrow> int \<Rightarrow> int \<Rightarrow> int \<Rightarrow> int \<Rightarrow> int \<Rightarrow> civil" where
  "Date y m d h mi s =
     (let (mi, s) = (if s > 59 then (mi + 1, 0) else (mi, s));
          (h, mi) = (if mi > 59 then (h + 1, 0) else (h, mi));
          (d, h) = (if h > 23 then (d + 1, 0) else (d, h));
          (y, m, d) = normDay y m d in
      \<lparr>year = y, month = m, day = d, hour = h, minute = mi, second = s\<rparr>)"

text \<open>Days since 1 March of the year 0 of the proleptic calendar; \<open>Weekday\<close> counts from Sunday as 0.\<close>

definition yearDays :: "int \<Rightarrow> int" where
  "yearDays y = 365 * y + y div 4 - y div 100 + y div 400"

definition dayNumber :: "civil \<Rightarrow> int" where
  "dayNumber t =
     (let y = (if month t \<le> 2 then year t - 1 else year t); m = (if month t \<le> 2 then month t + 9 else month t - 3) in
      yearDays y + (153 * m + 2) div 5 + day t - 1)"

definition Weekday :: "civil \<Rightarrow> int" where
  "Weekday t = (dayNumber t + 3) mod 7"

text \<open>The chronological order of valid times.\<close>

definition enc :: "civil \<Rightarrow> int" where
  "enc t = ((((year t * 12 + (month t - 1)) * 31 + (day t - 1)) * 24 + hour t) * 60 + minute t) * 60 + second t"

definition Before :: "civil \<Rightarrow> civil \<Rightarrow> bool" where
  "Before a b \<longleftrightarrow> enc a < enc b"

section \<open>The next fire time\<close>

definition dayMatch :: "CronSchedule \<Rightarrow> civil \<Rightarrow> bool" where
  "dayMatch c t =
     (if \<not> isAny (cDom c) \<and> \<not> fieldMatch (cDom c) (day t) then False
      else if \<not> isAny (cDow c) \<and> \<not> fieldMatch (cDow c) (Weekday t + 1) then False
      else True)"

definition nextFireSearchYears :: int where "nextFireSearchYears = 5"

text \<open>One pass through the loop body; \<open>None\<close> returns the current time.\<close>

definition advance :: "CronSchedule \<Rightarrow> civil \<Rightarrow> civil option" where
  "advance c t =
     (if \<not> fieldMatch (cYear c) (year t) then Some (Date (year t + 1) 1 1 0 0 0)
      else if \<not> fieldMatch (cMon c) (month t) then Some (Date (year t) (month t + 1) 1 0 0 0)
      else if \<not> dayMatch c t then Some (Date (year t) (month t) (day t + 1) 0 0 0)
      else if \<not> fieldMatch (cHour c) (hour t) then Some (Date (year t) (month t) (day t) (hour t + 1) 0 0)
      else if \<not> fieldMatch (cMin c) (minute t) then Some (Date (year t) (month t) (day t) (hour t) (minute t + 1) 0)
      else if \<not> fieldMatch (cSec c) (second t) then Some (Date (year t) (month t) (day t) (hour t) (minute t) (second t + 1))
      else None)"

partial_function (option) next_loop :: "CronSchedule \<Rightarrow> civil \<Rightarrow> civil \<Rightarrow> civil option option" where
  "next_loop c limit t =
     (if \<not> Before t limit then Some None
      else case advance c t of None \<Rightarrow> Some (Some t) | Some t' \<Rightarrow> next_loop c limit t')"

declare next_loop.simps [code]

text \<open>The argument is already cut to whole seconds; the inner \<open>None\<close> is Go's zero time.\<close>

definition firstSecond :: "civil \<Rightarrow> civil" where
  "firstSecond t = Date (year t) (month t) (day t) (hour t) (minute t) (second t + 1)"

definition horizon :: "civil \<Rightarrow> civil" where
  "horizon t = Date (year t + nextFireSearchYears) (month t) (day t) (hour t) (minute t) (second t)"

definition CronNext :: "CronSchedule \<Rightarrow> civil \<Rightarrow> civil option option" where
  "CronNext c t = (let s = firstSecond t in next_loop c (horizon s) s)"

definition NextFire :: "string \<Rightarrow> civil \<Rightarrow> cronErr + civil" where
  "NextFire expr t =
     bindE (ParseCron expr) (\<lambda>c.
       case CronNext c t of None \<Rightarrow> Inl CronDiverges | Some None \<Rightarrow> Inl CronNoFire | Some (Some r) \<Rightarrow> Inr r)"

section \<open>Choosing the schedule\<close>

record Schedule =
  SInterval :: string
  SCron :: "string list"
  SOther :: "string list"

definition HasTimezone :: "Schedule \<Rightarrow> bool" where
  "HasTimezone s \<longleftrightarrow> list_ex (\<lambda>k. EqualFold k ''timezone'') (SOther s)"

definition anyOf :: "string \<Rightarrow> bool" where
  "anyOf s \<longleftrightarrow> s = ''*'' \<or> s = ''?''"

definition everyN :: "string \<Rightarrow> int option" where
  "everyN s =
     (let (base, step, ok) = Cut s (CHR ''/'') in
      if \<not> ok \<or> (base \<noteq> ''0'' \<and> base \<noteq> ''*'') then None
      else case Atoi step of None \<Rightarrow> None | Some n \<Rightarrow> if n \<le> 0 then None else Some n)"

definition cronIntervalSec :: "string list \<Rightarrow> 32 word" where
  "cronIntervalSec exprs =
     (case exprs of
        [e] \<Rightarrow>
          (let f = Fields (TrimSpace e) in
           if length f \<noteq> 6 \<and> length f \<noteq> 7 then 0
           else if length f = 7 \<and> f ! 6 \<noteq> ''*'' \<and> f ! 6 \<noteq> ''?'' then 0
           else if f ! 0 \<noteq> ''0'' \<or> f ! 4 \<noteq> ''*'' \<or> \<not> anyOf (f ! 3) \<or> \<not> anyOf (f ! 5) then 0
           else if anyOf (f ! 2) then
             (case everyN (f ! 1) of
                Some n \<Rightarrow> word_of_int n * 60
              | None \<Rightarrow> if f ! 1 = ''0'' then 3600 else 0)
           else if f ! 1 = ''0'' then (case everyN (f ! 2) of Some n \<Rightarrow> word_of_int n * 3600 | None \<Rightarrow> 0)
           else 0)
      | _ \<Rightarrow> 0)"

definition parseableCrons :: "string list \<Rightarrow> bool" where
  "parseableCrons exprs \<longleftrightarrow> exprs \<noteq> [] \<and> list_all (\<lambda>e. case ParseCron e of Inr _ \<Rightarrow> True | Inl _ \<Rightarrow> False) exprs"

definition secondsZero :: "string \<Rightarrow> bool" where
  "secondsZero e = (case Fields (TrimSpace e) of [] \<Rightarrow> False | f # _ \<Rightarrow> f = ''0'' \<or> f = ''00'')"

definition cronSecondsZero :: "string list \<Rightarrow> bool" where
  "cronSecondsZero exprs = list_all secondsZero exprs"

text \<open>\<open>None\<close> is Go's nil; a watch without a schedule has none either.\<close>

fun calendarLoop :: "string list \<Rightarrow> bool" where
  "calendarLoop [] = True"
| "calendarLoop (e # es) =
     (case ParseCron e of
        Inl _ \<Rightarrow> False
      | Inr _ \<Rightarrow> (case Fields (TrimSpace e) of [] \<Rightarrow> True | f # _ \<Rightarrow> f = ''0'' \<or> f = ''00'') \<and> calendarLoop es)"

definition CalendarCron :: "Schedule option \<Rightarrow> string list option" where
  "CalendarCron w =
     (case w of
        None \<Rightarrow> None
      | Some s \<Rightarrow>
          if SInterval s \<noteq> [] \<or> SCron s = [] then None
          else if HasTimezone s then None
          else if cronIntervalSec (SCron s) > 0 then None
          else if calendarLoop (SCron s) then Some (SCron s)
          else None)"

section \<open>Civil time\<close>

lemma daysIn_bounds: "28 \<le> daysIn y m" "daysIn y m \<le> 31"
  by (simp_all add: daysIn_def)

lemma daysIn_pos [simp]: "\<not> daysIn y m < 1" "1 \<le> daysIn y m"
  using daysIn_bounds(1) [of y m] by simp_all

lemma div_digit: "0 \<le> d \<Longrightarrow> d < 31 \<Longrightarrow> (a * 31 + d) div 31 = (a :: int)"
  by simp

text \<open>On valid times the fields are digits of the encoding.\<close>

definition encDay :: "civil \<Rightarrow> int" where
  "encDay t = (year t * 12 + (month t - 1)) * 31 + (day t - 1)"

lemma enc_day: "enc t = encDay t * 86400 + hour t * 3600 + minute t * 60 + second t"
  by (simp add: enc_def encDay_def algebra_simps)

lemma encDay_month: "validTime t \<Longrightarrow> encDay t div 31 = year t * 12 + (month t - 1)"
  using daysIn_bounds(2) [of "year t" "month t"] unfolding encDay_def by (intro div_digit) (auto simp: validTime_def)

lemma month_digits:
  "1 \<le> m \<Longrightarrow> m \<le> 12 \<Longrightarrow> 1 \<le> m' \<Longrightarrow> m' \<le> 12 \<Longrightarrow> y * 12 + (m - 1) = y' * 12 + (m' - 1) \<Longrightarrow> y' = y \<and> m' = (m :: int)"
  by (cases y y' rule: linorder_cases) linarith+

lemma enc_day_bounds: "validTime t \<Longrightarrow> encDay t * 86400 \<le> enc t \<and> enc t < (encDay t + 1) * 86400"
  by (auto simp: enc_day validTime_def)

lemma same_month:
  assumes "validTime t" and "validTime u" and "encDay t div 31 = encDay u div 31"
  shows "year u = year t \<and> month u = month t"
proof -
  from assms have "year t * 12 + (month t - 1) = year u * 12 + (month u - 1)" by (simp add: encDay_month)
  from month_digits [OF _ _ _ _ this] assms(1,2) show ?thesis by (simp add: validTime_def)
qed

lemma enc_le_day:
  assumes "validTime t" and "validTime u" and "enc t \<le> enc u"
  shows "encDay t \<le> encDay u"
  using assms by (auto simp: enc_day validTime_def)

lemma enc_less_day:
  assumes "validTime u" and "enc u < n * 86400"
  shows "encDay u < n"
  using assms by (auto simp: enc_day validTime_def)

text \<open>Between a time and the start of its next day, month or year the date fields do not change.\<close>

definition between :: "civil \<Rightarrow> civil \<Rightarrow> civil \<Rightarrow> bool" where
  "between a u b \<longleftrightarrow> validTime u \<and> enc a \<le> enc u \<and> enc u < enc b"

lemma next_year:
  assumes "validTime t"
  shows "validTime (Date (year t + 1) 1 1 0 0 0) \<and> enc t < enc (Date (year t + 1) 1 1 0 0 0)"
    and "between t u (Date (year t + 1) 1 1 0 0 0) \<Longrightarrow> year u = year t"
proof -
  let ?n = "Date (year t + 1) 1 1 0 0 0"
  have n: "?n = \<lparr>year = year t + 1, month = 1, day = 1, hour = 0, minute = 0, second = 0\<rparr>"
    using daysIn_bounds(1) [of "year t + 1" 1] by (simp add: Date_def normDay_def normMonth_def)
  then have e: "enc ?n = (year t + 1) * 12 * 31 * 86400" by (simp add: enc_def)
  show "validTime ?n \<and> enc t < enc ?n"
    using assms daysIn_bounds [of "year t" "month t"] by (auto simp: n validTime_def enc_def daysIn_def)
  assume b: "between t u ?n"
  then have "encDay u < (year t + 1) * 12 * 31" using enc_less_day [of u "(year t + 1) * 12 * 31"] e by (auto simp: between_def)
  moreover have "encDay t \<le> encDay u" using b assms enc_le_day by (auto simp: between_def)
  ultimately show "year u = year t"
    using assms b daysIn_bounds(2) [of "year u" "month u"] by (auto simp: encDay_def between_def validTime_def)
qed

lemma next_month:
  assumes "validTime t"
  shows "validTime (Date (year t) (month t + 1) 1 0 0 0) \<and> enc t < enc (Date (year t) (month t + 1) 1 0 0 0)"
    and "between t u (Date (year t) (month t + 1) 1 0 0 0) \<Longrightarrow> year u = year t \<and> month u = month t"
proof -
  let ?n = "Date (year t) (month t + 1) 1 0 0 0"
  define q where "q = encDay t div 31"
  have e: "enc ?n = (q + 1) * 31 * 86400" and v: "validTime ?n"
    using assms daysIn_bounds
    by (auto simp: q_def Date_def normDay_def normMonth_def enc_def validTime_def encDay_month Let_def)
  have "encDay t + 1 \<le> (q + 1) * 31" unfolding q_def by presburger
  then have "(encDay t + 1) * 86400 \<le> enc ?n" unfolding e by simp
  with enc_day_bounds [OF assms] have "enc t < enc ?n" by linarith
  with v show "validTime ?n \<and> enc t < enc ?n" by simp
  assume b: "between t u ?n"
  then have "encDay u < (q + 1) * 31" using enc_less_day [of u "(q + 1) * 31"] e by (auto simp: between_def)
  moreover have "encDay t \<le> encDay u" using b assms enc_le_day by (auto simp: between_def)
  ultimately have "encDay t div 31 \<le> encDay u div 31" "encDay u div 31 \<le> (q * 31 + 30) div 31"
    by (auto intro!: zdiv_mono1)
  then have "encDay t div 31 = encDay u div 31" using div_digit [of 30 q] by (simp add: q_def)
  with same_month [OF assms] b show "year u = year t \<and> month u = month t" by (auto simp: between_def)
qed

lemma next_day:
  assumes "validTime t"
  shows "validTime (Date (year t) (month t) (day t + 1) 0 0 0) \<and> enc t < enc (Date (year t) (month t) (day t + 1) 0 0 0)"
    and "between t u (Date (year t) (month t) (day t + 1) 0 0 0) \<Longrightarrow> year u = year t \<and> month u = month t \<and> day u = day t"
proof -
  let ?n = "Date (year t) (month t) (day t + 1) 0 0 0"
  have A: "(validTime ?n \<and> enc t < enc ?n) \<and> (between t u ?n \<longrightarrow> year u = year t \<and> month u = month t \<and> day u = day t)"
  proof (cases "day t < daysIn (year t) (month t)")
    case True
    then have n: "?n = \<lparr>year = year t, month = month t, day = day t + 1, hour = 0, minute = 0, second = 0\<rparr>"
      using assms by (simp add: Date_def normDay_def normMonth_def validTime_def)
    then have e: "enc ?n = (encDay t + 1) * 86400" by (simp add: enc_def encDay_def)
    have "day u = day t \<and> year u = year t \<and> month u = month t" if b: "between t u ?n"
    proof -
      have "encDay u = encDay t" using b enc_less_day [of u "encDay t + 1"] enc_le_day [of t u] assms e by (auto simp: between_def)
      moreover from this same_month [OF assms] b have "year u = year t \<and> month u = month t" by (auto simp: between_def)
      ultimately show ?thesis by (simp add: encDay_def)
    qed
    moreover have "enc t < enc ?n" using assms unfolding e enc_day [of t] by (auto simp: validTime_def)
    moreover have "validTime ?n" using True assms by (auto simp: n validTime_def)
    ultimately show ?thesis by blast
  next
    case False
    then have d: "day t = daysIn (year t) (month t)" using assms by (simp add: validTime_def)
    then have n: "?n = Date (year t) (month t + 1) 1 0 0 0"
      using assms daysIn_bounds(1) by (auto simp: Date_def normDay_def normMonth_def validTime_def Let_def)
    have "day u = day t" if b: "between t u ?n"
    proof -
      have ym: "year u = year t \<and> month u = month t" using next_month(2) [OF assms] b unfolding n by blast
      moreover have "encDay t \<le> encDay u" using b assms enc_le_day by (auto simp: between_def)
      ultimately show ?thesis using b d by (auto simp: between_def encDay_def validTime_def)
    qed
    then show ?thesis using next_month [OF assms] unfolding n by blast
  qed
  then show "validTime ?n \<and> enc t < enc ?n" "between t u ?n \<Longrightarrow> year u = year t \<and> month u = month t \<and> day u = day t" by blast+
qed

text \<open>Lower bounds for the starts of the following units.\<close>

lemma next_day_enc:
  assumes "validTime t"
  shows "(encDay t + 1) * 86400 \<le> enc (Date (year t) (month t) (day t + 1) 0 0 0)"
proof -
  let ?n = "Date (year t) (month t) (day t + 1) 0 0 0"
  have v: "validTime ?n" and l: "enc t < enc ?n" and z: "hour ?n = 0" "minute ?n = 0" "second ?n = 0"
    using next_day(1) [OF assms] by (auto simp: Date_def Let_def case_prod_unfold)
  then have e: "enc ?n = encDay ?n * 86400" by (simp add: enc_day)
  with l enc_day_bounds [OF assms] have "encDay t < encDay ?n" by linarith
  then show ?thesis unfolding e by simp
qed

lemma next_hour:
  assumes "validTime t"
  shows "validTime (Date (year t) (month t) (day t) (hour t + 1) 0 0) \<and> enc t < enc (Date (year t) (month t) (day t) (hour t + 1) 0 0)"
    and "between t u (Date (year t) (month t) (day t) (hour t + 1) 0 0) \<Longrightarrow>
      year u = year t \<and> month u = month t \<and> day u = day t \<and> hour u = hour t"
proof -
  let ?n = "Date (year t) (month t) (day t) (hour t + 1) 0 0"
  have same: "year u = year t \<and> month u = month t \<and> day u = day t \<and> hour u = hour t"
    if "year u = year t \<and> month u = month t \<and> day u = day t" "hour u \<le> hour t" "between t u x" for x
    using that assms by (auto simp: between_def enc_def validTime_def)
  have A: "(validTime ?n \<and> enc t < enc ?n) \<and>
      (between t u ?n \<longrightarrow> year u = year t \<and> month u = month t \<and> day u = day t \<and> hour u = hour t)"
  proof (cases "hour t < 23")
    case True
    then have n: "?n = \<lparr>year = year t, month = month t, day = day t, hour = hour t + 1, minute = 0, second = 0\<rparr>"
      using assms by (auto simp: Date_def normDay_def normMonth_def validTime_def)
    have "enc ?n \<le> (encDay t + 1) * 86400" using True by (simp add: n enc_day encDay_def)
    then have le: "between t u ?n \<Longrightarrow> between t u (Date (year t) (month t) (day t + 1) 0 0 0)"
      using next_day_enc [OF assms] by (auto simp: between_def)
    have "hour u \<le> hour t" if "between t u ?n" "year u = year t \<and> month u = month t \<and> day u = day t"
      using that by (auto simp: between_def n enc_def validTime_def)
    moreover have "validTime ?n \<and> enc t < enc ?n" using True assms by (auto simp: n validTime_def enc_def)
    ultimately show ?thesis using next_day(2) [OF assms le] same by blast
  next
    case False
    then have n: "?n = Date (year t) (month t) (day t + 1) 0 0 0" using assms by (simp add: Date_def validTime_def)
    have "hour u \<le> hour t" if "between t u ?n" using that False by (auto simp: between_def validTime_def)
    then show ?thesis using next_day [OF assms] same unfolding n by blast
  qed
  then show "validTime ?n \<and> enc t < enc ?n"
    "between t u ?n \<Longrightarrow> year u = year t \<and> month u = month t \<and> day u = day t \<and> hour u = hour t" by blast+
qed

lemma next_hour_enc:
  assumes "validTime t"
  shows "encDay t * 86400 + (hour t + 1) * 3600 \<le> enc (Date (year t) (month t) (day t) (hour t + 1) 0 0)"
proof (cases "hour t < 23")
  case True
  then have "Date (year t) (month t) (day t) (hour t + 1) 0 0 =
      \<lparr>year = year t, month = month t, day = day t, hour = hour t + 1, minute = 0, second = 0\<rparr>"
    using assms by (auto simp: Date_def normDay_def normMonth_def validTime_def)
  then show ?thesis by (simp add: enc_day encDay_def)
next
  case False
  then have "Date (year t) (month t) (day t) (hour t + 1) 0 0 = Date (year t) (month t) (day t + 1) 0 0 0" "hour t = 23"
    using assms by (auto simp: Date_def validTime_def)
  with next_day_enc [OF assms] show ?thesis by simp
qed

lemma next_minute:
  assumes "validTime t"
  shows "validTime (Date (year t) (month t) (day t) (hour t) (minute t + 1) 0) \<and>
      enc t < enc (Date (year t) (month t) (day t) (hour t) (minute t + 1) 0)"
    and "between t u (Date (year t) (month t) (day t) (hour t) (minute t + 1) 0) \<Longrightarrow>
      year u = year t \<and> month u = month t \<and> day u = day t \<and> hour u = hour t \<and> minute u = minute t"
proof -
  let ?n = "Date (year t) (month t) (day t) (hour t) (minute t + 1) 0" and ?h = "Date (year t) (month t) (day t) (hour t + 1) 0 0"
  have same: "minute u = minute t"
    if "year u = year t \<and> month u = month t \<and> day u = day t \<and> hour u = hour t" "minute u \<le> minute t" "between t u x" for x
    using that assms by (auto simp: between_def enc_def validTime_def)
  have A: "(validTime ?n \<and> enc t < enc ?n) \<and>
      (between t u ?n \<longrightarrow> year u = year t \<and> month u = month t \<and> day u = day t \<and> hour u = hour t \<and> minute u = minute t)"
  proof (cases "minute t < 59")
    case True
    then have n: "?n = \<lparr>year = year t, month = month t, day = day t, hour = hour t, minute = minute t + 1, second = 0\<rparr>"
      using assms by (auto simp: Date_def normDay_def normMonth_def validTime_def)
    have "enc ?n \<le> encDay t * 86400 + (hour t + 1) * 3600" using True by (simp add: n enc_day encDay_def)
    then have le: "between t u ?n \<Longrightarrow> between t u ?h"
      using next_hour_enc [OF assms] by (auto simp: between_def)
    have "minute u \<le> minute t" if "between t u ?n" "year u = year t \<and> month u = month t \<and> day u = day t \<and> hour u = hour t"
      using that by (auto simp: between_def n enc_def validTime_def)
    moreover have "validTime ?n \<and> enc t < enc ?n" using True assms by (auto simp: n validTime_def enc_def)
    ultimately show ?thesis using next_hour(2) [OF assms le] same by blast
  next
    case False
    then have n: "?n = ?h" using assms by (simp add: Date_def validTime_def)
    have "minute u \<le> minute t" if "between t u ?n" using that False by (auto simp: between_def validTime_def)
    then show ?thesis using next_hour [OF assms] same unfolding n by blast
  qed
  then show "validTime ?n \<and> enc t < enc ?n"
    "between t u ?n \<Longrightarrow> year u = year t \<and> month u = month t \<and> day u = day t \<and> hour u = hour t \<and> minute u = minute t" by blast+
qed

lemma next_minute_enc:
  assumes "validTime t"
  shows "encDay t * 86400 + hour t * 3600 + (minute t + 1) * 60 \<le> enc (Date (year t) (month t) (day t) (hour t) (minute t + 1) 0)"
proof (cases "minute t < 59")
  case True
  then have "Date (year t) (month t) (day t) (hour t) (minute t + 1) 0 =
      \<lparr>year = year t, month = month t, day = day t, hour = hour t, minute = minute t + 1, second = 0\<rparr>"
    using assms by (auto simp: Date_def normDay_def normMonth_def validTime_def)
  then show ?thesis by (simp add: enc_day encDay_def)
next
  case False
  then have "Date (year t) (month t) (day t) (hour t) (minute t + 1) 0 = Date (year t) (month t) (day t) (hour t + 1) 0 0" "minute t = 59"
    using assms by (auto simp: Date_def validTime_def)
  with next_hour_enc [OF assms] show ?thesis by simp
qed

lemma next_second:
  assumes "validTime t"
  shows "validTime (firstSecond t) \<and> enc t < enc (firstSecond t)"
    and "between t u (firstSecond t) \<Longrightarrow> u = t"
proof -
  let ?n = "firstSecond t" and ?m = "Date (year t) (month t) (day t) (hour t) (minute t + 1) 0"
  have eq: "u = t"
    if "year u = year t \<and> month u = month t \<and> day u = day t \<and> hour u = hour t \<and> minute u = minute t" "second u \<le> second t" "between t u x" for x
    using that by (cases t; cases u) (auto simp: between_def enc_def)
  have A: "(validTime ?n \<and> enc t < enc ?n) \<and> (between t u ?n \<longrightarrow> u = t)"
  proof (cases "second t < 59")
    case True
    then have n: "?n = \<lparr>year = year t, month = month t, day = day t, hour = hour t, minute = minute t, second = second t + 1\<rparr>"
      using assms by (auto simp: firstSecond_def Date_def normDay_def normMonth_def validTime_def)
    then have e: "enc ?n = enc t + 1" by (simp add: enc_def)
    have "enc ?n \<le> encDay t * 86400 + hour t * 3600 + (minute t + 1) * 60" using True by (simp add: n enc_day encDay_def)
    then have le: "between t u ?n \<Longrightarrow> between t u ?m" using next_minute_enc [OF assms] by (auto simp: between_def)
    have "second u \<le> second t" if "between t u ?n"
      "year u = year t \<and> month u = month t \<and> day u = day t \<and> hour u = hour t \<and> minute u = minute t"
      using that e by (auto simp: between_def enc_def)
    moreover have "validTime ?n \<and> enc t < enc ?n" using True assms by (auto simp: n validTime_def enc_def)
    ultimately show ?thesis using next_minute(2) [OF assms le] eq by blast
  next
    case False
    then have n: "?n = ?m" using assms by (simp add: firstSecond_def Date_def validTime_def)
    have "second u \<le> second t" if "between t u ?n" using that False by (auto simp: between_def validTime_def)
    then show ?thesis using next_minute [OF assms] eq unfolding n by blast
  qed
  then show "validTime ?n \<and> enc t < enc ?n" "between t u ?n \<Longrightarrow> u = t" by blast+
qed

text \<open>The day number counts days: consecutive dates have consecutive numbers.\<close>

lemma dayNumber_step:
  assumes "validTime t"
  shows "dayNumber (Date (year t) (month t) (day t + 1) 0 0 0) = dayNumber t + 1"
proof -
  have m: "month t = 1 \<or> month t = 2 \<or> month t = 3 \<or> month t = 4 \<or> month t = 5 \<or> month t = 6 \<or> month t = 7 \<or>
      month t = 8 \<or> month t = 9 \<or> month t = 10 \<or> month t = 11 \<or> month t = 12"
    using assms by (simp add: validTime_def) presburger
  have d: "day t \<le> daysIn (year t) (month t)" using assms by (simp add: validTime_def)
  have k: "(y - 1) div k = (if y mod k = 0 then y div k - 1 else y div k)" if "0 < k" for y k :: int
  proof (cases "y mod k = 0")
    case True
    then have "y - 1 = k * (y div k - 1) + (k - 1)" by (simp add: algebra_simps) (metis add.right_neutral mult_div_mod_eq)
    from int_div_pos_eq [OF this] that True show ?thesis by simp
  next
    case False
    have "y - 1 = k * (y div k) + (y mod k - 1)" by (simp add: mult_div_mod_eq)
    moreover have "0 \<le> y mod k - 1" "y mod k - 1 < k"
      using that False pos_mod_sign [OF that, of y] pos_mod_bound [OF that, of y] by linarith+
    ultimately have "(y - 1) div k = y div k" by (rule int_div_pos_eq)
    with False show ?thesis by simp
  qed
  have a: "y mod 400 = 0 \<Longrightarrow> y mod 100 = 0" "y mod 100 = 0 \<Longrightarrow> y mod 4 = 0" for y :: int
    using dvd_trans [of 100 400 y] dvd_trans [of 4 100 y] by (simp_all add: dvd_eq_mod_eq_0)
  have leap: "yearDays y = yearDays (y - 1) + 365 + (if leap y then 1 else 0)" for y
  proof -
    define f where "f = (\<lambda>k. if y mod k = 0 then 1 else 0 :: int)"
    have f: "y div 4 = (y - 1) div 4 + f 4" "y div 100 = (y - 1) div 100 + f 100" "y div 400 = (y - 1) div 400 + f 400"
      unfolding f_def by (simp_all only: k zero_less_numeral) (simp_all split: if_split)
    have "f 4 - f 100 + f 400 = (if leap y then 1 else 0)"
      using a [of y] by (cases "y mod 4 = 0"; cases "y mod 100 = 0"; cases "y mod 400 = 0") (simp_all add: f_def leap_def)
    then show ?thesis unfolding yearDays_def f by simp
  qed
  show ?thesis
  proof (cases "day t < daysIn (year t) (month t)")
    case True
    then have "Date (year t) (month t) (day t + 1) 0 0 0 =
        \<lparr>year = year t, month = month t, day = day t + 1, hour = 0, minute = 0, second = 0\<rparr>"
      using assms by (simp add: Date_def normDay_def normMonth_def validTime_def)
    then show ?thesis by (simp add: dayNumber_def Let_def)
  next
    case False
    with d have d: "day t = daysIn (year t) (month t)" by simp
    then have n: "Date (year t) (month t) (day t + 1) 0 0 0 =
        (if month t = 12 then \<lparr>year = year t + 1, month = 1, day = 1, hour = 0, minute = 0, second = 0\<rparr>
         else \<lparr>year = year t, month = month t + 1, day = 1, hour = 0, minute = 0, second = 0\<rparr>)"
      using assms by (auto simp: Date_def normDay_def normMonth_def validTime_def Let_def)
    show ?thesis unfolding n using m d leap [of "year t"] by (elim disjE) (simp_all add: dayNumber_def daysIn_def)
  qed
qed

section \<open>The search\<close>

text \<open>The reference: a time fires if every field matches.\<close>

definition fires :: "CronSchedule \<Rightarrow> civil \<Rightarrow> bool" where
  "fires c t \<longleftrightarrow> fieldMatch (cYear c) (year t) \<and> fieldMatch (cMon c) (month t) \<and> dayMatch c t \<and>
     fieldMatch (cHour c) (hour t) \<and> fieldMatch (cMin c) (minute t) \<and> fieldMatch (cSec c) (second t)"

lemma dayMatch_date: "year u = year t \<Longrightarrow> month u = month t \<Longrightarrow> day u = day t \<Longrightarrow> dayMatch c u = dayMatch c t"
  by (simp only: dayMatch_def Weekday_def dayNumber_def)

lemma advance_None: "advance c t = None \<longleftrightarrow> fires c t"
  by (simp add: advance_def fires_def)

lemma advance_skips:
  assumes "validTime t" and "advance c t = Some t'"
  shows "validTime t' \<and> enc t < enc t' \<and> (\<forall>u. between t u t' \<longrightarrow> \<not> fires c u)"
proof -
  consider (y) "\<not> fieldMatch (cYear c) (year t)" "t' = Date (year t + 1) 1 1 0 0 0"
    | (m) "\<not> fieldMatch (cMon c) (month t)" "t' = Date (year t) (month t + 1) 1 0 0 0"
    | (d) "\<not> dayMatch c t" "t' = Date (year t) (month t) (day t + 1) 0 0 0"
    | (h) "\<not> fieldMatch (cHour c) (hour t)" "t' = Date (year t) (month t) (day t) (hour t + 1) 0 0"
    | (i) "\<not> fieldMatch (cMin c) (minute t)" "t' = Date (year t) (month t) (day t) (hour t) (minute t + 1) 0"
    | (s) "\<not> fieldMatch (cSec c) (second t)" "t' = firstSecond t"
    using assms(2) unfolding advance_def firstSecond_def by (simp split: if_splits)
  then show ?thesis
  proof cases
    case y
    have "\<not> fires c u" if "between t u t'" for u using next_year(2) [OF assms(1), of u] that y by (simp add: fires_def)
    with next_year(1) [OF assms(1)] y(2) show ?thesis by simp
  next
    case m
    have "\<not> fires c u" if "between t u t'" for u using next_month(2) [OF assms(1), of u] that m by (simp add: fires_def)
    with next_month(1) [OF assms(1)] m(2) show ?thesis by simp
  next
    case d
    have "\<not> fires c u" if "between t u t'" for u
      using next_day(2) [OF assms(1), of u] that d dayMatch_date [of u t c] by (simp add: fires_def)
    with next_day(1) [OF assms(1)] d(2) show ?thesis by simp
  next
    case h
    have "\<not> fires c u" if "between t u t'" for u using next_hour(2) [OF assms(1), of u] that h by (simp add: fires_def)
    with next_hour(1) [OF assms(1)] h(2) show ?thesis by simp
  next
    case i
    have "\<not> fires c u" if "between t u t'" for u using next_minute(2) [OF assms(1), of u] that i by (simp add: fires_def)
    with next_minute(1) [OF assms(1)] i(2) show ?thesis by simp
  next
    case s
    have "\<not> fires c u" if "between t u t'" for u using next_second(2) [OF assms(1), of u] that s by (auto simp: fires_def)
    with next_second(1) [OF assms(1)] s(2) show ?thesis by simp
  qed
qed

lemma next_loop_correct:
  assumes "validTime t"
  shows "\<exists>r. next_loop c limit t = Some r \<and>
    (case r of
       Some t' \<Rightarrow> validTime t' \<and> enc t \<le> enc t' \<and> enc t' < enc limit \<and> fires c t' \<and> (\<forall>u. between t u t' \<longrightarrow> \<not> fires c u)
     | None \<Rightarrow> \<forall>u. between t u limit \<longrightarrow> \<not> fires c u)"
  using assms
proof (induction "nat (enc limit - enc t)" arbitrary: t rule: less_induct)
  case less
  show ?case
  proof (cases "Before t limit")
    case False
    then have "\<not> between t u limit" for u by (simp add: Before_def between_def)
    with False show ?thesis by (simp add: next_loop.simps [of c limit t])
  next
    case True
    show ?thesis
    proof (cases "advance c t")
      case None
      then have "fires c t" "next_loop c limit t = Some (Some t)"
        using True None by (simp add: advance_None [symmetric], simp add: next_loop.simps [of c limit t])
      moreover have "\<not> between t u t" for u by (simp add: between_def)
      ultimately show ?thesis using True less.prems by (simp add: Before_def)
    next
      case (Some t1)
      note a = advance_skips [OF less.prems Some]
      have "nat (enc limit - enc t1) < nat (enc limit - enc t)" using a True by (simp add: Before_def)
      from less.hyps [OF this] a obtain r where r: "next_loop c limit t1 = Some r" and
        p: "case r of
          Some t' \<Rightarrow> validTime t' \<and> enc t1 \<le> enc t' \<and> enc t' < enc limit \<and> fires c t' \<and> (\<forall>u. between t1 u t' \<longrightarrow> \<not> fires c u)
        | None \<Rightarrow> \<forall>u. between t1 u limit \<longrightarrow> \<not> fires c u" by blast
      have split: "between t u x \<Longrightarrow> between t u t1 \<or> between t1 u x" for u x by (auto simp: between_def)
      have "next_loop c limit t = Some r" using True Some r by (simp add: next_loop.simps [of c limit t])
      then show ?thesis using p a split by (cases r) (simp, blast, fastforce)
    qed
  qed
qed

section \<open>Stepped ranges\<close>

lemma wrap64_small: "- (2 ^ 63) \<le> x \<Longrightarrow> x < 2 ^ 63 \<Longrightarrow> wrap64 x = x"
  by (rule wrap64_id) (simp add: in64_def)

lemma wrap64_over: "2 ^ 63 \<le> x \<Longrightarrow> x < 2 ^ 64 + 2 ^ 63 \<Longrightarrow> wrap64 x = x - 2 ^ 64"
proof -
  assume x: "2 ^ 63 \<le> x" "x < 2 ^ 64 + 2 ^ 63"
  have "word_of_int x = (word_of_int (x - 2 ^ 64) :: 64 word)" by (simp add: word_of_int_eq_iff take_bit_eq_mod)
  from arg_cong [OF this, of sint] have "wrap64 x = wrap64 (x - 2 ^ 64)" unfolding wrap64_def .
  also have "\<dots> = x - 2 ^ 64" using x by (intro wrap64_small) simp_all
  finally show ?thesis .
qed

text \<open>The stepped loop returns for every step, although large steps make the counter wrap around.\<close>

lemma stepLoop_small:
  assumes "0 \<le> from" and "1 \<le> step" and "to + step < 2 ^ 63"
  shows "\<exists>vs. stepLoop from to step = Some vs \<and> set vs = {x. from \<le> x \<and> x \<le> to \<and> step dvd (x - from)}"
proof -
  let ?b = "\<lambda>(v, acc :: int list). v \<le> to" and ?c = "\<lambda>(v, acc). (wrap64 (v + step), v # acc)"
  let ?P = "\<lambda>(v, acc). from \<le> v \<and> step dvd (v - from) \<and> set acc = {x. from \<le> x \<and> x < v \<and> x \<le> to \<and> step dvd (x - from)}"
  have step: "?P (?c s)" if "?P s" "?b s" for s
  proof (cases s)
    case (Pair v acc)
    with that have v: "from \<le> v" "step dvd (v - from)" "v \<le> to" and a: "set acc = {x. from \<le> x \<and> x < v \<and> x \<le> to \<and> step dvd (x - from)}" by auto
    have w: "wrap64 (v + step) = v + step" using assms v by (intro wrap64_small) linarith+
    have "x = v" if "v \<le> x" "x < v + step" "step dvd (x - from)" for x
    proof -
      have "step dvd (x - v)" using dvd_diff [OF that(3) v(2)] by simp
      with that show ?thesis using zdvd_not_zless [of "x - v" step] by force
    qed
    then have "{x. from \<le> x \<and> x < v + step \<and> x \<le> to \<and> step dvd (x - from)} = insert v (set acc)"
      using v a assms(2) by (auto simp: not_less)
    moreover have "step dvd (v + step - from)" using v(2) dvd_add [OF v(2) dvd_refl] by (simp add: algebra_simps)
    ultimately show ?thesis using v assms(2) by (simp add: Pair w)
  qed
  have init: "?P (from, [])" by auto
  obtain t where t: "while_option ?b ?c (from, []) = Some t"
  proof -
    have "\<exists>t. while_option ?b ?c (from, []) = Some t"
    proof (rule measure_while_option_Some [where P = ?P and f = "\<lambda>(v, acc). nat (to + 1 - v)"])
      fix s assume s: "?P s" "?b s"
      obtain v acc where "s = (v, acc)" by (cases s)
      moreover from this s assms have "wrap64 (v + step) = v + step" by (intro wrap64_small) auto
      ultimately show "?P (?c s) \<and> (\<lambda>(v, acc). nat (to + 1 - v)) (?c s) < (\<lambda>(v, acc). nat (to + 1 - v)) s"
        using step [OF s] s assms(2) by auto
    qed (rule init)
    then show ?thesis using that by blast
  qed
  have "?P t" by (rule while_option_rule [where P = ?P, OF step t init])
  moreover have "\<not> ?b t" by (rule while_option_stop [OF t])
  moreover obtain v acc where p: "t = (v, acc)" by (cases t)
  ultimately have v: "to < v" and a: "set acc = {x. from \<le> x \<and> x < v \<and> x \<le> to \<and> step dvd (x - from)}" by simp_all
  have "{x. from \<le> x \<and> x < v \<and> x \<le> to \<and> step dvd (x - from)} = {x. from \<le> x \<and> x \<le> to \<and> step dvd (x - from)}"
    using v by (intro Collect_cong) linarith
  moreover have "stepLoop from to step = Some acc" using t by (simp only: stepLoop_def p option.map snd_conv)
  ultimately show ?thesis using a by simp
qed

lemma stepLoop_big:
  assumes "0 \<le> from" and "from \<le> 2199" and "to \<le> 2199" and "step < 2 ^ 63" and "2 ^ 63 \<le> to + step"
  shows "\<exists>vs. stepLoop from to step = Some vs"
proof -
  let ?b = "\<lambda>(v, acc :: int list). v \<le> to" and ?c = "\<lambda>(v, acc). (wrap64 (v + step), v # acc)"
  let ?P = "\<lambda>(v, acc). (- 4400 \<le> v \<and> v < 2 ^ 63) \<or> (- (2 ^ 63) \<le> v \<and> v < - 4400 \<and> - 4400 \<le> v + step \<and> v + step \<le> to)"
  let ?f = "\<lambda>(v, acc). if v > to then 0 else if - 4400 \<le> v then 2 * nat (v + 5000) + 1 else 2 * nat (v + step + 5000) + 2"
  have "\<exists>t. while_option ?b ?c (from, []) = Some t"
  proof (rule measure_while_option_Some [where P = ?P and f = ?f])
    fix s assume s: "?P s" "?b s"
    obtain v acc where p: "s = (v, acc)" by (cases s)
    consider "- 4400 \<le> v" "v + step < 2 ^ 63" | "- 4400 \<le> v" "2 ^ 63 \<le> v + step" | "v < - 4400" by linarith
    then show "?P (?c s) \<and> ?f (?c s) < ?f s"
    proof cases
      case 1
      then have "wrap64 (v + step) = v + step" using assms by (intro wrap64_small) simp_all
      then show ?thesis using 1 s assms by (simp add: p)
    next
      case 2
      then have "wrap64 (v + step) = v + step - 2 ^ 64" using s assms by (intro wrap64_over) (auto simp: p)
      then show ?thesis using 2 s assms by (simp add: p)
    next
      case 3
      then have "wrap64 (v + step) = v + step" using s assms by (intro wrap64_small) (auto simp: p)
      then show ?thesis using 3 s assms by (simp add: p)
    qed
  qed (use assms in simp)
  then show ?thesis by (auto simp: stepLoop_def)
qed

lemma stepLoop_returns:
  assumes "0 \<le> from" and "from \<le> 2199" and "to \<le> 2199" and "1 \<le> step" and "in64 step"
  shows "stepLoop from to step \<noteq> None"
  using stepLoop_small [OF assms(1,4), of to] stepLoop_big [OF assms(1-3), of step] assms(5)
  by (cases "to + step < 2 ^ 63") (auto simp: in64_def)

section \<open>Parsing returns\<close>

lemma cronValue_range:
  assumes "cronValue s lo hi names = Inr v" and "list_all (\<lambda>(_, n). lo \<le> n \<and> n \<le> hi) names"
  shows "lo \<le> v \<and> v \<le> hi"
  using assms by (auto simp: cronValue_def list_all_iff dest: map_of_SomeD split: option.splits if_splits)

lemma cronValue_no_diverge: "cronValue s lo hi names \<noteq> Inl CronDiverges"
  by (auto simp: cronValue_def split: option.splits if_splits)

definition fieldBounds :: "int \<Rightarrow> int \<Rightarrow> (string \<times> int) list \<Rightarrow> bool" where
  "fieldBounds lo hi names \<longleftrightarrow> 0 \<le> lo \<and> lo \<le> hi \<and> hi \<le> 2199 \<and> list_all (\<lambda>(_, n). lo \<le> n \<and> n \<le> hi) names"

lemma cronRange_bounds:
  assumes "cronRange part rp lo hi names b = Inr (from, to, l)" and "fieldBounds lo hi names"
  shows "lo \<le> from \<and> from \<le> hi \<and> to \<le> hi"
  using assms cronValue_range [of _ lo hi names]
  by (fastforce simp: cronRange_def fieldBounds_def Let_def split: if_splits sum.splits prod.splits)

lemma cronRange_no_diverge: "cronRange part rp lo hi names b \<noteq> Inl CronDiverges"
  using cronValue_no_diverge by (auto simp: cronRange_def Let_def split: if_splits sum.splits prod.splits)

lemma cronElement_no_diverge:
  assumes "fieldBounds lo hi names"
  shows "cronElement part lo hi names \<noteq> Inl CronDiverges"
proof -
  have "stepLoop v w step \<noteq> None"
    if "cronRange part rp lo hi names b = Inr (v, w, l)" "1 \<le> step" "step = 1 \<or> Atoi sp = Some step" for rp b v w l step sp
    using cronRange_bounds [OF that(1) assms] that(2,3) assms
    by (intro stepLoop_returns) (auto simp: fieldBounds_def in64_def dest: Atoi_in64)
  note returns = this
  obtain rp sp hs where c: "Cut part (CHR ''/'') = (rp, sp, hs)" by (cases "Cut part (CHR ''/'')") auto
  show ?thesis
  proof (cases "if hs then Atoi sp else Some 1")
    case None
    then show ?thesis by (simp add: cronElement_def c)
  next
    case (Some step)
    show ?thesis
    proof (cases "cronRange part rp lo hi names hs")
      case (Inl e)
      with Some c cronRange_no_diverge [of part rp lo hi names hs] show ?thesis by (simp add: cronElement_def)
    next
      case (Inr r)
      obtain v w l where r: "r = (v, w, l)" by (cases r) auto
      from Some have "step = 1 \<or> Atoi sp = Some step" by (auto split: if_splits)
      with returns [OF Inr [unfolded r], of step sp] Some c Inr show ?thesis
        by (cases "step \<le> 0"; cases "stepLoop v w step") (auto simp: cronElement_def r)
    qed
  qed
qed

lemma parseCronField_no_diverge:
  assumes "fieldBounds lo hi names"
  shows "parseCronField s lo hi names q \<noteq> Inl CronDiverges"
proof -
  have "cronElements ps lo hi names \<noteq> Inl CronDiverges" for ps
    using cronElement_no_diverge [OF assms] by (induction ps) (auto split: sum.splits)
  then show ?thesis by (auto simp: parseCronField_def split: sum.splits list.splits)
qed

lemma bindE_Inl: "bindE r f = Inl e \<longleftrightarrow> r = Inl e \<or> (\<exists>x. r = Inr x \<and> f x = Inl e)"
  by (cases r) auto

lemma ParseCron_no_diverge: "ParseCron expr \<noteq> Inl CronDiverges"
proof -
  have b: "fieldBounds 0 59 []" "fieldBounds 0 23 []" "fieldBounds 1 31 []" "fieldBounds 1 12 monthNames" "fieldBounds 1 7 dowNames"
    "fieldBounds 1970 2199 []"
    by (simp_all add: fieldBounds_def monthNames_def dowNames_def)
  show ?thesis
    unfolding ParseCron_def Let_def
    using parseCronField_no_diverge [OF b(1)] parseCronField_no_diverge [OF b(2)] parseCronField_no_diverge [OF b(3)]
      parseCronField_no_diverge [OF b(4)] parseCronField_no_diverge [OF b(5)] parseCronField_no_diverge [OF b(6)]
    by (simp add: bindE_Inl split: if_splits)
qed

section \<open>Schedule choice\<close>

lemma ParseCron_fields: "ParseCron e = Inr c \<Longrightarrow> Fields (TrimSpace e) \<noteq> []"
  by (auto simp: ParseCron_def Let_def split: if_splits)

lemma calendarLoop_iff: "calendarLoop es \<longleftrightarrow> list_all (\<lambda>e. case ParseCron e of Inr _ \<Rightarrow> True | Inl _ \<Rightarrow> False) es \<and> cronSecondsZero es"
proof (induction es)
  case (Cons e es)
  then show ?case using ParseCron_fields [of e]
    by (auto simp: cronSecondsZero_def secondsZero_def split: sum.splits list.splits)
qed (simp add: cronSecondsZero_def)

lemma CronNext_returns: "validTime t \<Longrightarrow> CronNext c t \<noteq> None"
  using next_loop_correct [OF next_second(1) [THEN conjunct1], of t c "horizon (firstSecond t)"] by (auto simp: CronNext_def)

section \<open>Properties\<close>

text \<open>
  C26. The next fire time is the least one. For every schedule and every instant the search returns; what it
  returns lies before the five-year horizon and is the first second strictly after the instant at which every field of
  the schedule matches, and there is no answer exactly if no such second lies before the horizon. The field-by-field jumps over years, months,
  days, hours and minutes skip no match, in leap years and at the ends of months included.
\<close>

theorem CronNext_correct:
  assumes "validTime t"
  shows "\<exists>r. CronNext c t = Some r \<and>
    (r = None \<longleftrightarrow> \<not> (\<exists>u. validTime u \<and> Before t u \<and> Before u (horizon (firstSecond t)) \<and> fires c u)) \<and>
    (\<forall>t'. r = Some t' \<longrightarrow> validTime t' \<and> Before t t' \<and> Before t' (horizon (firstSecond t)) \<and> fires c t' \<and>
       (\<forall>u. validTime u \<and> Before t u \<and> Before u t' \<longrightarrow> \<not> fires c u))"
proof -
  let ?s = "firstSecond t"
  note s = next_second(1) [OF assms]
  have b: "between ?s u x" if "validTime u" "Before t u" "Before u x" for u x
  proof -
    have "\<not> between t u ?s" using next_second(2) [OF assms, of u] that by (auto simp: Before_def)
    with that show ?thesis by (auto simp: between_def Before_def)
  qed
  from next_loop_correct [of ?s c "horizon ?s"] s obtain r where r: "next_loop c (horizon ?s) ?s = Some r" and
    p: "case r of
       Some t' \<Rightarrow> validTime t' \<and> enc ?s \<le> enc t' \<and> enc t' < enc (horizon ?s) \<and> fires c t' \<and> (\<forall>u. between ?s u t' \<longrightarrow> \<not> fires c u)
     | None \<Rightarrow> \<forall>u. between ?s u (horizon ?s) \<longrightarrow> \<not> fires c u" by blast
  have "CronNext c t = Some r" using r by (simp add: CronNext_def)
  moreover have "Before t t'" if "enc ?s \<le> enc t'" for t' using s that by (simp add: Before_def)
  moreover have "Before t' (horizon ?s)" if "enc t' < enc (horizon ?s)" for t' using that by (simp add: Before_def)
  ultimately show ?thesis using p b by (intro exI [of _ r]) (cases r; auto)
qed

definition sampleTime :: civil where
  "sampleTime = \<lparr>year = 2028, month = 2, day = 28, hour = 23, minute = 59, second = 59\<rparr>"

theorem CronNext_correct_witness:
  "\<exists>c t'. ParseCron ''0 0 0 29 2 ?'' = Inr c \<and> CronNext c sampleTime = Some (Some t') \<and> day t' = 29 \<and> fires c t'"
proof -
  have "case ParseCron ''0 0 0 29 2 ?'' of Inl _ \<Rightarrow> False
      | Inr c \<Rightarrow> (case CronNext c sampleTime of Some (Some t') \<Rightarrow> day t' = 29 | _ \<Rightarrow> False)"
    by code_simp
  then obtain c t' where c: "ParseCron ''0 0 0 29 2 ?'' = Inr c" "CronNext c sampleTime = Some (Some t')" "day t' = 29"
    by (auto split: sum.splits option.splits)
  have "validTime sampleTime" by code_simp
  from CronNext_correct [OF this, of c] c show ?thesis by auto
qed

text \<open>
  Neither the parser of schedules nor the search can hang: for every expression and every instant
  \<open>NextFire\<close> gives a time or an error, even for steps whose addition overflows.
\<close>

theorem NextFire_terminates:
  assumes "validTime t"
  shows "NextFire expr t \<noteq> Inl CronDiverges"
  using ParseCron_no_diverge [of expr] CronNext_returns [OF assms]
  by (cases "ParseCron expr") (simp_all add: NextFire_def split: option.splits)

theorem NextFire_terminates_witness: "NextFire ''5/9223372036854775807 0 0 * * ?'' sampleTime \<noteq> Inl CronDiverges"
proof (rule NextFire_terminates)
  show "validTime sampleTime" by code_simp
qed

text \<open>
  A watch is paced by its calendar exactly under the conditions that the import report checks: no
  interval, at least one expression, no time zone, no fixed rate, every expression parseable, and the
  seconds of every expression fixed at zero.
\<close>

theorem CalendarCron_gates:
  "CalendarCron (Some s) =
     (if SInterval s = [] \<and> \<not> HasTimezone s \<and> cronIntervalSec (SCron s) = 0 \<and> parseableCrons (SCron s) \<and> cronSecondsZero (SCron s)
      then Some (SCron s) else None)"
proof -
  have "(w > 0) = (w \<noteq> 0)" for w :: "32 word" by (simp add: word_gt_0)
  then show ?thesis by (auto simp: CalendarCron_def calendarLoop_iff parseableCrons_def)
qed

text \<open>
  A step close to the largest integer wraps the loop counter, so the element below, which should stand for
  the value 5 alone, also admits 3 and 1.
\<close>

theorem cronElement_wraps:
  "\<exists>vs. cronElement ''5/9223372036854775807'' 0 59 [] = Inr vs \<and> {1, 3, 5} \<subseteq> set vs"
proof -
  have "stepLoop 5 59 (2 ^ 63 - 1) = Some [- 1, - (2 ^ 63), 1, 2 - 2 ^ 63, 3, 4 - 2 ^ 63, 5]"
    by (simp add: stepLoop_def while_option_unfold [where s = "(_, _)"] wrap64_small wrap64_over)
  moreover have "Atoi ''9223372036854775807'' = Some (2 ^ 63 - 1)"
    by (simp add: Atoi_def Let_def HasPrefix_def decVal_def isDigit_def in64_def)
  moreover have "cronRange p ''5'' 0 59 [] True = Inr (5, 59, True)" for p by code_simp
  ultimately show ?thesis by (simp add: cronElement_def Cut_def)
qed

text \<open>
  A step that does not divide the hour is not a fixed rate: the schedule below fires at the full hour, 15
  minutes after a fire at minute 45, and is still mapped to an interval of 45 minutes. A large step wraps in
  32 bits.
\<close>

theorem cronIntervalSec_not_fixed:
  "cronIntervalSec [''0 0/45 * * * ?''] = 2700 \<and>
   NextFire ''0 0/45 * * * ?'' (sampleTime\<lparr>hour := 10, minute := 45, second := 0\<rparr>) = Inr (sampleTime\<lparr>hour := 11, minute := 0, second := 0\<rparr>)"
  by (rule conjI; code_simp)

end
