(* ===== verification/Rows.thy ===== *)
theory Rows
  imports GoInt
begin

text \<open>
  The normalised rows of the ingest path (\<open>internal/chstore/model.go\<close>): spans, logs, metric points, exemplars
  and span links. Instants are nanoseconds since the epoch. A \<open>float64\<close> is its bit pattern, since the code
  mostly copies it; arithmetic on it is an argument where it is used. The four parallel arrays that all
  signals share come first, so that code which only touches these works on every row.
\<close>

type_synonym float64 = "64 word"

record carrier =
  attrKeys :: "string list"
  attrValues :: "string list"
  resKeys :: "string list"
  resValues :: "string list"

text \<open>The events column holds a JSON array; here it is the list of events that is encoded.\<close>

record spanEvent =
  evName :: string
  evTimeNano :: "64 word"
  evAttributes :: "string \<Rightarrow> string option"

record SpanRec = carrier +
  spTraceID :: string
  spSpanID :: string
  spParentID :: string
  spName :: string
  spOpGroup :: string
  spKind :: string
  spService :: string
  spHost :: string
  spDeployEnv :: string
  spStatus :: string
  spStatusMsg :: string
  spTime :: int
  spDuration :: int
  spDBSystem :: string
  spDBStatement :: string
  spHTTPMethod :: string
  spRoute :: string
  spHTTPStatus :: "16 word"
  spRPCSystem :: string
  spRPCMethod :: string
  spPeerService :: string
  spMsgSystem :: string
  spEvents :: "spanEvent list"
  spScope :: string

record LogRec = carrier +
  lgTraceID :: string
  lgSpanID :: string
  lgTime :: int
  lgSeverityNum :: "8 word"
  lgSeverityText :: string
  lgBody :: string
  lgService :: string
  lgHost :: string
  lgScope :: string

record MetricRec = carrier +
  mtMetric :: string
  mtInstrument :: string
  mtDescription :: string
  mtUnit :: string
  mtService :: string
  mtHost :: string
  mtTime :: int
  mtStart :: int
  mtValue :: float64
  mtCount :: "64 word"
  mtSum :: float64
  mtMin :: float64
  mtMax :: float64
  mtBounds :: "float64 list"
  mtCounts :: "64 word list"
  mtTemporality :: string
  mtFingerprint :: "64 word"
  mtMonotonic :: "8 word"

record ExemplarRow =
  exFingerprint :: "64 word"
  exMetric :: string
  exService :: string
  exTime :: int
  exValue :: float64
  exTraceID :: string
  exSpanID :: string
  exFilteredAttrs :: "string \<Rightarrow> string option"

record SpanLinkRow =
  lnTraceID :: string
  lnSpanID :: string
  lnLinkedTraceID :: string
  lnLinkedSpanID :: string
  lnTime :: int
  lnService :: string
  lnAttrKeys :: "string list"
  lnAttrVals :: "string list"

end
