(* ===== verification/OpNorm.thy ===== *)
theory OpNorm
  imports Prelude
begin

text \<open>
  The operation-shape normalizer (\<open>internal/templater/opnorm.go\<close>) and the predicate for opaque
  identifiers it uses (\<open>LooksLikeOpaqueID\<close> and its helpers in \<open>sensitive.go\<close>). Each of the five regular
  expressions of the SQL shaping is written out as the scanner it denotes under the leftmost, greedy
  semantics of Go's package \<open>regexp\<close>. The comparison of the digit ratio with \<open>0.60\<close> is one of integers;
  below \<open>2 ^ 50\<close> characters the rounded quotient compares in the same way.
\<close>

section \<open>Opaque identifiers\<close>

definition inRange :: "char \<Rightarrow> char \<Rightarrow> char \<Rightarrow> bool" where
  "inRange lo hi c \<longleftrightarrow> byte lo \<le> byte c \<and> byte c \<le> byte hi"

definition isDig :: "char \<Rightarrow> bool" where
  "isDig c = inRange (CHR ''0'') (CHR ''9'') c"

definition isLetter :: "char \<Rightarrow> bool" where
  "isLetter c \<longleftrightarrow> inRange (CHR ''a'') (CHR ''z'') c \<or> inRange (CHR ''A'') (CHR ''Z'') c"

definition isHex :: "char \<Rightarrow> bool" where
  "isHex c \<longleftrightarrow> isDig c \<or> inRange (CHR ''a'') (CHR ''f'') c \<or> inRange (CHR ''A'') (CHR ''F'') c"

definition isAllDigits :: "string \<Rightarrow> bool" where
  "isAllDigits t = list_all isDig t"

definition isUUID :: "string \<Rightarrow> bool" where
  "isUUID t \<longleftrightarrow> length t = 36 \<and> list_all (\<lambda>i. if i \<in> {8, 13, 18, 23} then t ! i = CHR ''-'' else isHex (t ! i)) [0..<36]"

definition isHexish :: "string \<Rightarrow> bool" where
  "isHexish t \<longleftrightarrow> list_all (\<lambda>c. isHex c \<or> c = CHR ''-'') t \<and> 14 \<le> length (filter isHex t)"

definition digitRatioHigh :: "string \<Rightarrow> bool" where
  "digitRatioHigh t \<longleftrightarrow> t \<noteq> [] \<and> 3 * length t \<le> 5 * length (filter isDig t)"

definition hasVowel :: "string \<Rightarrow> bool" where
  "hasVowel t = list_ex (\<lambda>c. c \<in> set ''aeiouAEIOU'') t"

definition isBase64URLish :: "string \<Rightarrow> bool" where
  "isBase64URLish t = list_all (\<lambda>c. isLetter c \<or> isDig c \<or> c \<in> set ''-_.+/='') t"

fun letterRun :: "nat \<Rightarrow> nat \<Rightarrow> string \<Rightarrow> bool" where
  "letterRun n run [] = False"
| "letterRun n run (c # t) = (if isLetter c then n \<le> run + 1 \<or> letterRun n (run + 1) t else letterRun n 0 t)"

definition hasLetterRun :: "string \<Rightarrow> nat \<Rightarrow> bool" where
  "hasLetterRun t n = letterRun n 0 t"

definition LooksLikeOpaqueID :: "string \<Rightarrow> bool" where
  "LooksLikeOpaqueID tok =
     (let n = length tok in
      if 4 \<le> n \<and> isAllDigits tok then True
      else if n < 10 then False
      else if 16 \<le> n \<and> HasPrefix tok ''eyJ'' \<and> isBase64URLish tok then True
      else if n = 36 \<and> isUUID tok then True
      else if 16 \<le> n \<and> isHexish tok then True
      else if 10 \<le> n \<and> digitRatioHigh tok then True
      else if 24 \<le> n \<and> isBase64URLish tok \<and> \<not> hasLetterRun tok 5 then True
      else 10 \<le> n \<and> \<not> hasVowel tok \<and> hasLetterRun tok 6)"

section \<open>Paths and names\<close>

definition opGroupMaxLen :: nat where "opGroupMaxLen = 200"

definition cap200 :: "string \<Rightarrow> string" where
  "cap200 s = (if opGroupMaxLen < length s then take opGroupMaxLen s else s)"

definition httpMethods :: "string list" where
  "httpMethods = [''GET'', ''POST'', ''PUT'', ''DELETE'', ''PATCH'', ''HEAD'', ''OPTIONS'', ''TRACE'', ''CONNECT'']"

definition splitMethodPath :: "string \<Rightarrow> (string \<times> string) option" where
  "splitMethodPath name =
     (case IndexByte name (CHR '' '') of
        None \<Rightarrow> None
      | Some sp \<Rightarrow>
          if sp = 0 then None
          else if take sp name \<notin> set httpMethods then None
          else Some (take sp name, drop (sp + 1) name))"

definition pathSegment :: "string \<Rightarrow> string" where
  "pathSegment seg =
     (if seg = [] then seg else if isAllDigits seg \<or> LooksLikeOpaqueID seg then '':id'' else seg)"

definition dropQuery :: "string \<Rightarrow> string" where
  "dropQuery path = (case IndexByte path (CHR ''?'') of Some q \<Rightarrow> take q path | None \<Rightarrow> path)"

definition normalizePath :: "string \<Rightarrow> string" where
  "normalizePath path = Join (map pathSegment (SplitByte [] (CHR ''/'') (dropQuery path))) ''/''"

definition NormalizePathTemplate :: "string \<Rightarrow> string" where
  "NormalizePathTemplate path = cap200 (normalizePath path)"

definition isSep :: "char \<Rightarrow> bool" where
  "isSep c \<longleftrightarrow> c = CHR ''/'' \<or> c = CHR '' '' \<or> c = CHR 0x09"

function normalizeGenericName :: "string \<Rightarrow> string" where
  "normalizeGenericName s =
     (case s of
        [] \<Rightarrow> []
      | c # s' \<Rightarrow>
          if isSep c then c # normalizeGenericName s'
          else
            (let tok = takeWhile (\<lambda>x. \<not> isSep x) s in
             (if isAllDigits tok \<or> LooksLikeOpaqueID tok then '':id'' else tok) @
             normalizeGenericName (dropWhile (\<lambda>x. \<not> isSep x) s)))"
  by pat_completeness auto
termination
  by (relation "measure length") (auto simp: le_imp_less_Suc length_dropWhile_le)

declare normalizeGenericName.simps [simp del]

section \<open>SQL shapes\<close>

text \<open>The rest of the text after a quoted literal whose opening quote was just read: a doubled quote belongs to it.\<close>

fun quoteRest :: "char \<Rightarrow> string \<Rightarrow> string option" where
  "quoteRest q [] = None"
| "quoteRest q (c # s) =
     (if c \<noteq> q then quoteRest q s
      else case s of
        [] \<Rightarrow> Some []
      | d # s' \<Rightarrow> if d = q then (case quoteRest q s' of Some r \<Rightarrow> Some r | None \<Rightarrow> Some s) else Some s)"

lemma quoteRest_shorter: "quoteRest q s = Some r \<Longrightarrow> length r < length s"
proof (induction q s arbitrary: r rule: quoteRest.induct)
  case (2 q c s)
  then show ?case by (cases s) (fastforce split: if_splits option.splits)+
qed simp

function maskQuoted :: "char \<Rightarrow> string \<Rightarrow> string" where
  "maskQuoted q [] = []"
| "maskQuoted q (c # s) =
     (if c = q then (case quoteRest q s of Some r \<Rightarrow> CHR ''?'' # maskQuoted q r | None \<Rightarrow> c # maskQuoted q s)
      else c # maskQuoted q s)"
  by pat_completeness auto
termination
  by (relation "measure (\<lambda>(q, s). length s)") (auto dest: quoteRest_shorter)

definition isWord :: "char \<Rightarrow> bool" where
  "isWord c \<longleftrightarrow> isLetter c \<or> isDig c \<or> c = CHR ''_''"

definition atBoundary :: "string \<Rightarrow> bool" where
  "atBoundary s = (case s of [] \<Rightarrow> True | c # _ \<Rightarrow> \<not> isWord c)"

text \<open>The rest after a numeric literal at the start of the text; the character before it is not a word character.\<close>

definition numberRest :: "string \<Rightarrow> string option" where
  "numberRest s =
     (let r = dropWhile isDig s in
      if takeWhile isDig s = [] then None
      else
        (let frac = (case r of c # t \<Rightarrow> if c = CHR ''.'' \<and> takeWhile isDig t \<noteq> [] then Some (dropWhile isDig t) else None | [] \<Rightarrow> None) in
         case frac of
           Some t \<Rightarrow> if atBoundary t then Some t else Some r
         | None \<Rightarrow> if atBoundary r then Some r else None))"

lemma numberRest_cases:
  assumes "numberRest s = Some r"
  shows "takeWhile isDig s \<noteq> [] \<and> (r = dropWhile isDig s \<or> r = dropWhile isDig (tl (dropWhile isDig s)))"
  using assms by (cases "dropWhile isDig s") (auto simp: numberRest_def Let_def simp del: dropWhile_eq_Nil_conv split: if_splits)

lemma numberRest_shorter:
  assumes "numberRest s = Some r"
  shows "length r < length s"
proof -
  have "length (dropWhile isDig s) < length s"
    using numberRest_cases [OF assms] by (metis length_append length_greater_0_conv less_add_same_cancel2 takeWhile_dropWhile_id)
  with numberRest_cases [OF assms] length_dropWhile_le [of isDig "tl (dropWhile isDig s)"] show ?thesis by auto
qed

text \<open>\<open>word\<close> says whether the character before is a word character.\<close>

function maskNumbers :: "bool \<Rightarrow> string \<Rightarrow> string" where
  "maskNumbers word [] = []"
| "maskNumbers word (c # s) =
     (case (if word then None else numberRest (c # s)) of
        Some r \<Rightarrow> CHR ''?'' # maskNumbers True r
      | None \<Rightarrow> c # maskNumbers (isWord c) s)"
  by pat_completeness auto
termination
  by (relation "measure (\<lambda>(w, s). length s)") (auto dest: numberRest_shorter split: if_splits)

definition isBlank :: "char \<Rightarrow> bool" where
  "isBlank c \<longleftrightarrow> c \<in> {CHR 0x20, CHR 0x09, CHR 0x0A, CHR 0x0C, CHR 0x0D}"

text \<open>The rest after blanks and one given character.\<close>

definition afterBlanks :: "char \<Rightarrow> string \<Rightarrow> string option" where
  "afterBlanks c s = (case dropWhile isBlank s of [] \<Rightarrow> None | d # t \<Rightarrow> if d = c then Some t else None)"

lemma afterBlanks_shorter: "afterBlanks c s = Some t \<Longrightarrow> length t < length s"
  using length_dropWhile_le [of isBlank s] by (auto simp: afterBlanks_def split: list.splits if_splits)

function listRest :: "string \<Rightarrow> string option" where
  "listRest s =
     (case afterBlanks (CHR '')'') s of
        Some t \<Rightarrow> Some t
      | None \<Rightarrow>
          (case afterBlanks (CHR '','') s of
             None \<Rightarrow> None
           | Some t \<Rightarrow> (case afterBlanks (CHR ''?'') t of None \<Rightarrow> None | Some u \<Rightarrow> listRest u)))"
  by pat_completeness auto
termination
  by (relation "measure length") (auto dest!: afterBlanks_shorter)

declare listRest.simps [simp del]

lemma listRest_shorter: "listRest s = Some r \<Longrightarrow> length r < length s"
proof (induction s rule: listRest.induct)
  case (1 s)
  from 1(2) show ?case
    by (subst (asm) listRest.simps) (fastforce split: option.splits dest: afterBlanks_shorter 1(1))
qed

definition isIN :: "string \<Rightarrow> bool" where
  "isIN s \<longleftrightarrow> ToUpper (take 2 s) = ''IN''"

definition inListRest :: "string \<Rightarrow> string option" where
  "inListRest s =
     (if isIN s then Option.bind (afterBlanks (CHR ''('') (drop 2 s)) (\<lambda>u. Option.bind (afterBlanks (CHR ''?'') u) listRest) else None)"

lemma inListRest_shorter:
  assumes "inListRest s = Some r"
  shows "length r < length s"
proof -
  from assms obtain u v where "afterBlanks (CHR ''('') (drop 2 s) = Some u" "afterBlanks (CHR ''?'') u = Some v" "listRest v = Some r"
    by (auto simp: inListRest_def bind_eq_Some_conv split: if_splits)
  from this(1,2) [THEN afterBlanks_shorter] listRest_shorter [OF this(3)] show ?thesis by simp
qed

function maskInLists :: "bool \<Rightarrow> string \<Rightarrow> string" where
  "maskInLists word [] = []"
| "maskInLists word (c # s) =
     (case (if word then None else inListRest (c # s)) of
        Some r \<Rightarrow> ''IN (?)'' @ maskInLists False r
      | None \<Rightarrow> c # maskInLists (isWord c) s)"
  by pat_completeness auto
termination
  by (relation "measure (\<lambda>(w, s). length s)") (auto dest: inListRest_shorter split: if_splits)

function squeezeBlanks :: "string \<Rightarrow> string" where
  "squeezeBlanks [] = []"
| "squeezeBlanks (c # s) = (if isBlank c then CHR '' '' # squeezeBlanks (dropWhile isBlank s) else c # squeezeBlanks s)"
  by pat_completeness auto
termination
  by (relation "measure length") (auto simp: le_imp_less_Suc length_dropWhile_le)

definition normalizeDBStatement :: "string \<Rightarrow> string \<Rightarrow> string" where
  "normalizeDBStatement dbSystem stmt =
     (let s = TrimSpace (squeezeBlanks (maskInLists False (maskNumbers False (maskQuoted (CHR 0x22) (maskQuoted (CHR 0x27) stmt))))) in
      if s = [] then dbSystem else dbSystem @ '': '' @ s)"

definition NormalizeOperation :: "string \<Rightarrow> string \<Rightarrow> string \<Rightarrow> string \<Rightarrow> string \<Rightarrow> string" where
  "NormalizeOperation name httpMethod httpRoute dbSystem dbStatement =
     (if httpRoute \<noteq> [] then cap200 (TrimSpace (httpMethod @ '' '' @ httpRoute))
      else case splitMethodPath name of
        Some (m, rest) \<Rightarrow> cap200 (m @ '' '' @ normalizePath rest)
      | None \<Rightarrow>
          if dbSystem \<noteq> [] \<and> dbStatement \<noteq> [] then cap200 (normalizeDBStatement dbSystem dbStatement)
          else if name \<noteq> [] then cap200 (normalizeGenericName name)
          else [])"

section \<open>Bounded shapes\<close>

lemma cap200_length: "length (cap200 s) \<le> 200"
  by (simp add: cap200_def opGroupMaxLen_def)

lemma SplitByte_not_Nil: "SplitByte cur c s \<noteq> []"
  by (induction cur c s rule: SplitByte.induct) auto

lemma Join_SplitByte: "Join (SplitByte cur c s) [c] = cur @ s"
proof (induction cur c s rule: SplitByte.induct)
  case (2 cur c x s)
  show ?case
  proof (cases "x = c")
    case True
    then show ?thesis using 2 SplitByte_not_Nil [of "[]" c s] by (cases "SplitByte [] c s") auto
  qed (use 2 in simp)
qed simp

lemma SplitByte_append: "c \<notin> set p \<Longrightarrow> SplitByte cur c (p @ s) = SplitByte (cur @ p) c s"
  by (induction p arbitrary: cur) auto

lemma SplitByte_Join: "list_all (\<lambda>p. c \<notin> set p) ps \<Longrightarrow> ps \<noteq> [] \<Longrightarrow> SplitByte [] c (Join ps [c]) = ps"
proof (induction ps "[c]" rule: Join.induct)
  case (2 x)
  then show ?case using SplitByte_append [of c x "[]" "[]"] by simp
next
  case (3 x y xs)
  then show ?case using SplitByte_append [of c x "[]" "c # Join (y # xs) [c]"] by simp
qed simp

lemma SplitByte_free: "c \<notin> set cur \<Longrightarrow> list_all (\<lambda>p. c \<notin> set p) (SplitByte cur c s)"
  by (induction cur c s rule: SplitByte.induct) auto

lemma SplitByte_subset: "p \<in> set (SplitByte cur c s) \<Longrightarrow> set p \<subseteq> set cur \<union> set s"
  by (induction cur c s rule: SplitByte.induct) (auto split: if_splits)

text \<open>An identifier placeholder is not an identifier, so a segment is fixed after one pass.\<close>

lemma pathSegment_id: "pathSegment '':id'' = '':id''"
  by code_simp

lemma pathSegment_idem: "pathSegment (pathSegment seg) = pathSegment seg"
proof (cases "seg = [] \<or> \<not> (isAllDigits seg \<or> LooksLikeOpaqueID seg)")
  case False
  then have "pathSegment seg = '':id''" by (simp add: pathSegment_def)
  then show ?thesis using pathSegment_id by simp
qed (auto simp: pathSegment_def)

lemma pathSegment_free: "c \<notin> set '':id'' \<Longrightarrow> c \<notin> set seg \<Longrightarrow> c \<notin> set (pathSegment seg)"
  unfolding pathSegment_def by (simp only: if_split split: if_split) auto

lemma IndexByte_None: "IndexByte s b = None \<longleftrightarrow> b \<notin> set s"
  by (induction s) auto

lemma IndexByte_take: "IndexByte s b = Some i \<Longrightarrow> b \<notin> set (take i s)"
  by (induction s arbitrary: i) (auto split: if_splits)

lemma dropQuery_free: "CHR ''?'' \<notin> set (dropQuery p)"
  by (auto simp: dropQuery_def IndexByte_None IndexByte_take split: option.splits)

lemma set_Join: "set (Join ps sep) \<subseteq> \<Union> (set ` set ps) \<union> set sep"
  by (induction ps sep rule: Join.induct) auto

definition segments :: "string \<Rightarrow> string list" where
  "segments p = SplitByte [] (CHR ''/'') p"

lemma segments_normalizePath: "segments (normalizePath p) = map pathSegment (segments (dropQuery p))"
proof -
  have "list_all (\<lambda>q. CHR ''/'' \<notin> set q) (map pathSegment (SplitByte [] (CHR ''/'') (dropQuery p)))"
    using SplitByte_free [of "CHR ''/''" "[]" "dropQuery p"] by (auto simp: list_all_iff dest!: pathSegment_free [rotated])
  from SplitByte_Join [OF this] show ?thesis by (simp add: segments_def normalizePath_def SplitByte_not_Nil)
qed

lemma normalizePath_no_query: "dropQuery (normalizePath p) = normalizePath p"
proof -
  have "CHR ''?'' \<notin> set seg" if "seg \<in> set (SplitByte [] (CHR ''/'') (dropQuery p))" for seg
    using SplitByte_subset [OF that] dropQuery_free [of p] by auto
  then have "CHR ''?'' \<notin> set (pathSegment seg)" if "seg \<in> set (SplitByte [] (CHR ''/'') (dropQuery p))" for seg
    using that pathSegment_free [of "CHR ''?''" seg] by simp
  then have "CHR ''?'' \<notin> set (normalizePath p)"
    using set_Join [of "map pathSegment (SplitByte [] (CHR ''/'') (dropQuery p))" "''/''"] by (fastforce simp: normalizePath_def)
  then show ?thesis by (simp add: dropQuery_def IndexByte_None [THEN iffD2])
qed

text \<open>
  A normalized path keeps the number of segments of the path without its query, contains no query and no
  segment that is a number or an opaque identifier, and normalizing it again changes nothing.
\<close>

theorem normalizePath_stable:
  "segments (normalizePath p) = map pathSegment (segments (dropQuery p)) \<and>
   list_all (\<lambda>seg. seg = [] \<or> \<not> isAllDigits seg \<and> \<not> LooksLikeOpaqueID seg) (segments (normalizePath p)) \<and>
   CHR ''?'' \<notin> set (normalizePath p) \<and> normalizePath (normalizePath p) = normalizePath p"
proof -
  let ?n = "normalizePath p"
  have id: "\<not> isAllDigits '':id'' \<and> \<not> LooksLikeOpaqueID '':id''" by code_simp
  have "pathSegment seg = [] \<or> \<not> isAllDigits (pathSegment seg) \<and> \<not> LooksLikeOpaqueID (pathSegment seg)" for seg
    using id unfolding pathSegment_def by (simp only: if_split split: if_split) auto
  then have "list_all (\<lambda>seg. seg = [] \<or> \<not> isAllDigits seg \<and> \<not> LooksLikeOpaqueID seg) (segments ?n)"
    by (simp add: segments_normalizePath list_all_iff)
  moreover have "CHR ''?'' \<notin> set ?n" using dropQuery_free [of ?n] by (simp add: normalizePath_no_query)
  moreover have "normalizePath ?n = ?n"
  proof -
    have "normalizePath ?n = Join (map pathSegment (segments ?n)) ''/''" by (simp add: normalizePath_def [of ?n] normalizePath_no_query segments_def)
    also have "\<dots> = Join (segments ?n) ''/''" by (simp add: segments_normalizePath pathSegment_idem o_def)
    also have "\<dots> = ?n" using Join_SplitByte [of "[]" "CHR ''/''" ?n] by (simp add: segments_def)
    finally show ?thesis .
  qed
  ultimately show ?thesis by (simp add: segments_normalizePath)
qed

text \<open>Every group and route template fits the column.\<close>

lemma NormalizeOperation_length: "length (NormalizeOperation name m r d st) \<le> 200"
  using cap200_length by (auto simp: NormalizeOperation_def split: option.splits)

section \<open>Literals\<close>

lemma quoteRest_None: "quoteRest q s = None \<longleftrightarrow> q \<notin> set s"
proof (induction q s rule: quoteRest.induct)
  case (2 q c s)
  then show ?case by (cases s) (auto split: option.splits)
qed simp

lemma maskQuoted_count: "q \<noteq> CHR ''?'' \<Longrightarrow> count_list (maskQuoted q s) q \<le> 1"
proof (induction q s rule: maskQuoted.induct)
  case (2 q c s)
  show ?case
  proof (cases "c = q \<and> quoteRest q s = None")
    case True
    then have "q \<notin> set s" by (simp add: quoteRest_None)
    then have "maskQuoted q s = s" by (induction s) auto
    with True \<open>q \<notin> set s\<close> show ?thesis by (simp add: count_list_0_iff)
  qed (use 2 in \<open>auto split: option.splits\<close>)
qed simp

lemma count_drop: "count_list (drop n s) q \<le> count_list s q"
  by (metis append_take_drop_id count_list_append le_add2)

lemma count_dropWhile: "count_list (dropWhile P s) q \<le> count_list s q"
  by (metis count_list_append le_add2 takeWhile_dropWhile_id)

lemma quoteRest_suffix: "quoteRest q s = Some r \<Longrightarrow> \<exists>p. s = p @ r"
proof (induction q s arbitrary: r rule: quoteRest.induct)
  case (2 q c s)
  show ?case
  proof (cases "\<exists>s'. c = q \<and> s = q # s' \<and> quoteRest q s' \<noteq> None")
    case True
    then obtain s' where s': "c = q" "s = q # s'" "quoteRest q s' = Some r" using 2(3) by auto
    with 2(2) [of q s'] obtain p where "s' = p @ r" by auto
    with s' show ?thesis by (intro exI [of _ "c # q # p"]) simp
  next
    case False
    show ?thesis
    proof (cases "c = q")
      case True
      with False 2(3) have "r = s" by (cases s) (auto split: if_splits option.splits)
      then show ?thesis by (intro exI [of _ "[c]"]) simp
    next
      case False
      with 2(1) [OF False] 2(3) obtain p where "s = p @ r" by auto
      then show ?thesis by (intro exI [of _ "c # p"]) simp
    qed
  qed
qed simp

lemma numberRest_count:
  assumes "numberRest s = Some r"
  shows "count_list r q \<le> count_list s q"
proof -
  have "count_list (tl t) q \<le> count_list t q" for t by (cases t) auto
  with numberRest_cases [OF assms] count_dropWhile [of isDig _ q] show ?thesis by (meson le_trans)
qed

lemma afterBlanks_count: "afterBlanks c s = Some t \<Longrightarrow> count_list t q \<le> count_list s q"
  using count_dropWhile [of isBlank s q] by (auto simp: afterBlanks_def split: list.splits if_splits)

lemma listRest_count: "listRest s = Some r \<Longrightarrow> count_list r q \<le> count_list s q"
proof (induction s rule: listRest.induct)
  case (1 s)
  from 1(2) show ?case
    by (subst (asm) listRest.simps) (fastforce split: option.splits dest: afterBlanks_count [where q = q] 1(1))
qed

lemma inListRest_count: "inListRest s = Some r \<Longrightarrow> count_list r q \<le> count_list s q"
  using count_drop [of 2 s q]
  by (fastforce simp: inListRest_def bind_eq_Some_conv split: if_splits dest: afterBlanks_count [where q = q] listRest_count [where q = q])

lemma pass_counts:
  assumes "q = CHR 0x22 \<or> q = CHR 0x27"
  shows "count_list (maskQuoted q' s) q \<le> count_list s q" and "count_list (maskNumbers w s) q \<le> count_list s q"
    and "count_list (maskInLists w s) q \<le> count_list s q" and "count_list (squeezeBlanks s) q \<le> count_list s q"
proof -
  show "count_list (maskQuoted q' s) q \<le> count_list s q"
  proof (induction q' s rule: maskQuoted.induct)
    case (2 q' c s)
    show ?case
    proof (cases "quoteRest q' s")
      case (Some r)
      then obtain p where "s = p @ r" using quoteRest_suffix by blast
      with 2 Some assms show ?thesis by auto
    qed (use 2 in auto)
  qed simp
  show "count_list (maskNumbers w s) q \<le> count_list s q"
  proof (induction w s rule: maskNumbers.induct)
    case (2 w c s)
    then show ?case using assms by (fastforce split: option.splits if_splits dest: numberRest_count [where q = q])
  qed simp
  show "count_list (maskInLists w s) q \<le> count_list s q"
  proof (induction w s rule: maskInLists.induct)
    case (2 w c s)
    then show ?case using assms by (fastforce split: option.splits if_splits dest: inListRest_count [where q = q])
  qed simp
  show "count_list (squeezeBlanks s) q \<le> count_list s q"
  proof (induction s rule: squeezeBlanks.induct)
    case (2 c s)
    have "CHR '' '' \<noteq> q" using assms by auto
    with 2 count_dropWhile [of isBlank s q] show ?case by auto
  qed simp
qed

lemma trim_left_count: "count_list (trim_left ps s) q \<le> count_list s q"
proof (induction ps s rule: trim_left.induct)
  case (1 ps s)
  show ?case
  proof (cases "head_space ps s")
    case (Some p)
    with 1 [OF Some] count_drop [of "length p" s q] show ?thesis by (simp add: trim_left.simps [of ps s])
  qed (simp add: trim_left.simps [of ps s])
qed

lemma TrimSpace_count: "count_list (TrimSpace s) q \<le> count_list s q"
  using trim_left_count [of "map rev go_spaces" "rev (trim_left go_spaces s)" q] trim_left_count [of go_spaces s q]
  by (simp add: TrimSpace_def)

text \<open>
  No closed string literal survives the shaping of a statement: whatever the statement, what is written
  after the name of the database system has at most one single and at most one double quote.
\<close>

theorem normalizeDBStatement_quotes:
  "\<exists>s. normalizeDBStatement d stmt \<in> {d, d @ '': '' @ s} \<and> count_list s (CHR 0x27) \<le> 1 \<and> count_list s (CHR 0x22) \<le> 1"
proof -
  let ?a = "maskQuoted (CHR 0x27) stmt"
  let ?b = "maskQuoted (CHR 0x22) ?a"
  let ?s = "TrimSpace (squeezeBlanks (maskInLists False (maskNumbers False ?b)))"
  have later: "count_list ?s q \<le> count_list ?b q" if "q = CHR 0x22 \<or> q = CHR 0x27" for q
    using TrimSpace_count pass_counts(2-4) [OF that] by (meson le_trans)
  have "count_list ?b (CHR 0x27) \<le> 1" using pass_counts(1) [of "CHR 0x27" "CHR 0x22" ?a] maskQuoted_count [of "CHR 0x27" stmt] by simp
  moreover have "count_list ?b (CHR 0x22) \<le> 1" by (rule maskQuoted_count) simp
  ultimately have "count_list ?s (CHR 0x27) \<le> 1 \<and> count_list ?s (CHR 0x22) \<le> 1"
    using later [of "CHR 0x27"] later [of "CHR 0x22"] by simp
  moreover have "normalizeDBStatement d stmt \<in> {d, d @ '': '' @ ?s}" by (simp add: normalizeDBStatement_def Let_def)
  ultimately show ?thesis by blast
qed

text \<open>
  A literal that the statement does not close, as after truncation, does reach the group, although the
  opening comment says that a literal value never does.
\<close>

theorem open_literal_kept:
  "NormalizeOperation ''q'' [] [] ''pg'' (''select a = '' @ [CHR 0x27] @ ''bob'') = ''pg: select a = '' @ [CHR 0x27] @ ''bob''"
  by code_simp

end
