(* ===== verification/OTLP.thy ===== *)
theory OTLP
  imports Rows OpNorm "HOL-Library.Multiset" "HOL-Library.List_Lexorder" "HOL-Library.Char_ord" "HOL-Library.Product_Lexorder"
begin

text \<open>
  The conversion of OTLP requests to rows (\<open>internal/otlp/convert.go\<close>, \<open>semconv.go\<close>, \<open>exp_histogram.go\<close>,
  \<open>convert_counters.go\<close>) and the identity of a metric series (\<open>fingerprint.go\<close>). The messages are the
  generated protobuf types, given here by the fields the code reads; an array or map value is given by its
  JSON text. Floating-point arithmetic and formatting and the hash of the package \<open>xxhash\<close> are the fields of
  \<open>golib\<close>. The rows of one resource share one slice of resource values, so such a slice is an address into a
  list of arrays and a row is paired with the address it refers to, or with none once it has a slice of its
  own. The counter of unknown value types is left out: how often it ticks depends on how often the code
  formats the same value.
\<close>

section \<open>Messages\<close>

record golib =
  FormatFloat :: "float64 \<Rightarrow> string"
  ofInt :: "int \<Rightarrow> float64"
  ofUint :: "64 word \<Rightarrow> float64"
  toInt :: "float64 \<Rightarrow> int"
  fneg :: "float64 \<Rightarrow> float64"
  fdiv :: "float64 \<Rightarrow> float64 \<Rightarrow> float64"
  fmul :: "float64 \<Rightarrow> float64 \<Rightarrow> float64"
  Exp2 :: "float64 \<Rightarrow> float64"
  xxhash :: "string \<Rightarrow> 64 word"

datatype AnyValue = AVString string | AVInt int | AVDouble float64 | AVBool bool | AVArray string | AVKvlist string | AVUnset | AVOther

type_synonym KeyValue = "string \<times> AnyValue option"

record pbEvent =
  peName :: string
  peTime :: "64 word"
  peAttrs :: "KeyValue list"

record pbLink =
  plTraceId :: string
  plSpanId :: string
  plAttrs :: "KeyValue list"

record pbSpan =
  psTraceId :: string
  psSpanId :: string
  psParentId :: string
  psName :: string
  psKind :: int
  psStart :: "64 word"
  psEnd :: "64 word"
  psAttrs :: "KeyValue list"
  psEvents :: "pbEvent list"
  psLinks :: "pbLink list"
  psStatus :: "(int \<times> string) option"

text \<open>A resource is its attributes and a scope its name; both may be absent.\<close>

record 'a pbScope =
  pcScope :: "string option"
  pcItems :: "'a list"

record 'a pbResource =
  prResource :: "KeyValue list option"
  prScopes :: "'a pbScope list"

record pbLog =
  poTime :: "64 word"
  poObserved :: "64 word"
  poBody :: "AnyValue option"
  poAttrs :: "KeyValue list"
  poTraceId :: string
  poSpanId :: string
  poSeverity :: int
  poSeverityText :: string

datatype pbNumber = NDouble float64 | NInt int | NUnset

record pbExemplar =
  pxTime :: "64 word"
  pxAttrs :: "KeyValue list"
  pxTraceId :: string
  pxSpanId :: string
  pxNum :: pbNumber

record pbPoint =
  pdAttrs :: "KeyValue list"
  pdStart :: "64 word"
  pdTime :: "64 word"

record pbNumberPoint = pbPoint +
  pnNum :: pbNumber
  pnExemplars :: "pbExemplar list"

record pbHistPoint = pbPoint +
  phCount :: "64 word"
  phSum :: "float64 option"
  phMin :: "float64 option"
  phMax :: "float64 option"
  phBounds :: "float64 list"
  phCounts :: "64 word list"
  phExemplars :: "pbExemplar list"

record pbExpPoint = pbPoint +
  pqCount :: "64 word"
  pqSum :: "float64 option"
  pqMin :: "float64 option"
  pqMax :: "float64 option"
  pqScale :: int
  pqZero :: "64 word"
  pqPositive :: "(int \<times> 64 word list) option"
  pqNegative :: "64 word list option"
  pqExemplars :: "pbExemplar list"

record pbSummaryPoint = pbPoint +
  pyCount :: "64 word"
  pySum :: float64
  pyQuantiles :: "(float64 \<times> float64) option list"

datatype metricData =
    Gauge "pbNumberPoint list"
  | Sum "pbNumberPoint list" int bool
  | Histogram "pbHistPoint list" int
  | ExponentialHistogram "pbExpPoint list" int
  | Summary "pbSummaryPoint list"
  | NoData

record pbMetric =
  pmName :: string
  pmDescription :: string
  pmUnit :: string
  pmData :: metricData

section \<open>Values and attributes\<close>

definition anyValStr :: "golib \<Rightarrow> AnyValue option \<Rightarrow> string" where
  "anyValStr lib v =
     (case v of
        None \<Rightarrow> []
      | Some (AVString s) \<Rightarrow> s
      | Some (AVInt i) \<Rightarrow> itoa i
      | Some (AVDouble d) \<Rightarrow> FormatFloat lib d
      | Some (AVBool b) \<Rightarrow> if b then ''true'' else ''false''
      | Some (AVArray s) \<Rightarrow> s
      | Some (AVKvlist s) \<Rightarrow> s
      | Some AVUnset \<Rightarrow> []
      | Some AVOther \<Rightarrow> [])"

definition attrsToArrays :: "golib \<Rightarrow> KeyValue list \<Rightarrow> string list \<times> string list" where
  "attrsToArrays lib attrs = (map fst attrs, map (anyValStr lib \<circ> snd) attrs)"

definition attrStr :: "golib \<Rightarrow> KeyValue list \<Rightarrow> string \<Rightarrow> string \<Rightarrow> string" where
  "attrStr lib attrs key def = (case find (\<lambda>kv. fst kv = key) attrs of Some kv \<Rightarrow> anyValStr lib (snd kv) | None \<Rightarrow> def)"

fun attrInt :: "golib \<Rightarrow> KeyValue list \<Rightarrow> string \<Rightarrow> int \<Rightarrow> int" where
  "attrInt lib [] key def = def"
| "attrInt lib ((k, v) # attrs) key def =
     (if k \<noteq> key then attrInt lib attrs key def
      else case v of
        Some (AVInt i) \<Rightarrow> i
      | Some (AVDouble d) \<Rightarrow> toInt lib d
      | Some (AVString s) \<Rightarrow> (case Atoi (TrimSpace s) of Some n \<Rightarrow> n | None \<Rightarrow> attrInt lib attrs key def)
      | _ \<Rightarrow> attrInt lib attrs key def)"

fun attrFirst :: "golib \<Rightarrow> KeyValue list \<Rightarrow> string list \<Rightarrow> string" where
  "attrFirst lib attrs [] = []"
| "attrFirst lib attrs (k # ks) = (let v = attrStr lib attrs k [] in if v \<noteq> [] then v else attrFirst lib attrs ks)"

fun attrIntFirst :: "golib \<Rightarrow> KeyValue list \<Rightarrow> string list \<Rightarrow> int" where
  "attrIntFirst lib attrs [] = 0"
| "attrIntFirst lib attrs (k # ks) = (let v = attrInt lib attrs k 0 in if v \<noteq> 0 then v else attrIntFirst lib attrs ks)"

definition httpMethodKeys :: "string list" where "httpMethodKeys = [''http.request.method'', ''http.method'']"
definition httpStatusKeys :: "string list" where "httpStatusKeys = [''http.response.status_code'', ''http.status_code'']"
definition dbSystemKeys :: "string list" where "dbSystemKeys = [''db.system.name'', ''db.system'']"
definition dbStatementKeys :: "string list" where "dbStatementKeys = [''db.query.text'', ''db.statement'']"

definition hexByte :: "char \<Rightarrow> string" where
  "hexByte c = [''0123456789abcdef'' ! (byte c div 16), ''0123456789abcdef'' ! (byte c mod 16)]"

definition hexID :: "string \<Rightarrow> string" where
  "hexID b = concat (map hexByte b)"

definition parentID :: "string \<Rightarrow> string" where
  "parentID b = (if list_all (\<lambda>c. byte c = 0) b then [] else hexID b)"

definition kindStr :: "int \<Rightarrow> string" where
  "kindStr k =
     (if k = 2 then ''server'' else if k = 3 then ''client'' else if k = 4 then ''producer'' else if k = 5 then ''consumer'' else ''internal'')"

definition unixNano :: "64 word \<Rightarrow> int" where
  "unixNano ns = sint ns"

section \<open>Spans\<close>

definition convertEvents :: "golib \<Rightarrow> pbEvent list \<Rightarrow> spanEvent list" where
  "convertEvents lib evs =
     map (\<lambda>e. (let (ks, vs) = attrsToArrays lib (peAttrs e) in
          \<lparr>evName = peName e, evTimeNano = peTime e, evAttributes = foldl (\<lambda>m (k, v). m(k \<mapsto> v)) (\<lambda>_. None) (zip ks vs)\<rparr>)) evs"

text \<open>The route column: the templated route, else the target, else the path, the latter two reduced to a template.\<close>

definition spanRoute :: "golib \<Rightarrow> KeyValue list \<Rightarrow> string" where
  "spanRoute lib attrs =
     (let r = attrStr lib attrs ''http.route'' [];
          r = (if r = [] then (let t = attrStr lib attrs ''http.target'' [] in if t \<noteq> [] then NormalizePathTemplate t else r) else r) in
      if r = [] then (let p = attrStr lib attrs ''url.path'' [] in if p \<noteq> [] then NormalizePathTemplate p else r) else r)"

definition spanStatus :: "(int \<times> string) option \<Rightarrow> string \<times> string" where
  "spanStatus st =
     (case st of None \<Rightarrow> (''unset'', [])
      | Some (code, msg) \<Rightarrow> (if code = 1 then ''ok'' else if code = 2 then ''error'' else ''unset'', msg))"

definition convertSpan :: "golib \<Rightarrow> pbSpan \<Rightarrow> string \<Rightarrow> string \<Rightarrow> string \<Rightarrow> string \<Rightarrow> string list \<Rightarrow> string list \<Rightarrow> SpanRec" where
  "convertSpan lib sp svcName hostName deployEnv scopeName resK resV =
     (let (statusCode, statusMsg) = spanStatus (psStatus sp);
          attrs = psAttrs sp;
          (attrK, attrV) = attrsToArrays lib attrs;
          dbSystem = attrFirst lib attrs dbSystemKeys;
          dbStmt = attrFirst lib attrs dbStatementKeys;
          httpMethod = attrFirst lib attrs httpMethodKeys;
          httpRoute = spanRoute lib attrs;
          dur = sint (psEnd sp - psStart sp) in
      \<lparr>attrKeys = attrK, attrValues = attrV, resKeys = resK, resValues = resV,
       spTraceID = hexID (psTraceId sp), spSpanID = hexID (psSpanId sp), spParentID = parentID (psParentId sp),
       spName = psName sp, spOpGroup = NormalizeOperation (psName sp) httpMethod httpRoute dbSystem dbStmt, spKind = kindStr (psKind sp),
       spService = svcName, spHost = hostName, spDeployEnv = deployEnv, spStatus = statusCode, spStatusMsg = statusMsg,
       spTime = unixNano (psStart sp), spDuration = (if dur < 0 then 0 else dur),
       spDBSystem = dbSystem, spDBStatement = dbStmt, spHTTPMethod = httpMethod, spRoute = httpRoute,
       spHTTPStatus = word_of_int (attrIntFirst lib attrs httpStatusKeys),
       spRPCSystem = attrStr lib attrs ''rpc.system'' [], spRPCMethod = attrStr lib attrs ''rpc.method'' [],
       spPeerService = attrStr lib attrs ''peer.service'' [], spMsgSystem = attrStr lib attrs ''messaging.system'' [],
       spEvents = convertEvents lib (psEvents sp), spScope = scopeName\<rparr>)"

definition appendSpanLinks :: "golib \<Rightarrow> pbLink list \<Rightarrow> SpanRec \<Rightarrow> SpanLinkRow list" where
  "appendSpanLinks lib links sp =
     map (\<lambda>ln. (let (ks, vs) = attrsToArrays lib (plAttrs ln) in
          \<lparr>lnTraceID = spTraceID sp, lnSpanID = spSpanID sp, lnLinkedTraceID = parentID (plTraceId ln), lnLinkedSpanID = parentID (plSpanId ln),
           lnTime = spTime sp, lnService = spService sp, lnAttrKeys = ks, lnAttrVals = vs\<rparr>)) links"

text \<open>Counters of rejected requests and of stored but doubtful spans.\<close>

record ingestRejects =
  httpDecode :: nat
  httpOversize :: nat
  spanEmptyID :: nat
  spanInvalidTs :: nat

definition hourNs :: int where "hourNs = 3600000000000"

definition validSpanStart :: "64 word \<Rightarrow> int \<Rightarrow> bool" where
  "validSpanStart startNs now \<longleftrightarrow> startNs \<noteq> 0 \<and> unixNano startNs \<le> now + hourNs \<and> now - 31 * 24 * hourNs \<le> unixNano startNs"

definition countSpanQuality :: "int \<Rightarrow> pbSpan \<Rightarrow> ingestRejects \<Rightarrow> ingestRejects" where
  "countSpanQuality now sp rj =
     (let rj = (if psTraceId sp = [] \<or> psSpanId sp = [] then rj\<lparr>spanEmptyID := spanEmptyID rj + 1\<rparr> else rj) in
      if \<not> validSpanStart (psStart sp) now then rj\<lparr>spanInvalidTs := spanInvalidTs rj + 1\<rparr> else rj)"

text \<open>A row with the address of its resource values; \<open>None\<close> is a slice of its own.\<close>

type_synonym 'r held = "'r \<times> nat option"
type_synonym arrays = "string list list"

definition resourceSpans :: "golib \<Rightarrow> nat \<Rightarrow> pbSpan pbResource \<Rightarrow> SpanRec held list \<times> SpanLinkRow list \<times> string list" where
  "resourceSpans lib addr rs =
     (let (svcName, hostName, deployEnv, resK, resV) =
            (case prResource rs of
               None \<Rightarrow> (''unknown'', [], [], [], [])
             | Some attrs \<Rightarrow>
                 (attrStr lib attrs ''service.name'' ''unknown'', attrStr lib attrs ''host.name'' [],
                  attrStr lib attrs ''deployment.environment.name'' (attrStr lib attrs ''deployment.environment'' []),
                  fst (attrsToArrays lib attrs), snd (attrsToArrays lib attrs)));
          rows = concat (map (\<lambda>ss. map (\<lambda>sp. (sp, convertSpan lib sp svcName hostName deployEnv (case pcScope ss of None \<Rightarrow> [] | Some n \<Rightarrow> n) resK resV))
                   (pcItems ss)) (prScopes rs)) in
      (map (\<lambda>(_, row). (row, Some addr)) rows, concat (map (\<lambda>(sp, row). appendSpanLinks lib (psLinks sp) row) rows), resV))"

fun ConvertTraces :: "golib \<Rightarrow> pbSpan pbResource list \<Rightarrow> arrays \<Rightarrow> SpanRec held list \<times> SpanLinkRow list \<times> arrays" where
  "ConvertTraces lib [] h = ([], [], h)"
| "ConvertTraces lib (rs # rss) h =
     (let (rows, links, resV) = resourceSpans lib (length h) rs;
          (rows', links', h') = ConvertTraces lib rss (h @ [resV]) in
      (rows @ rows', links @ links', h'))"

definition traceSpans :: "pbSpan pbResource list \<Rightarrow> pbSpan list" where
  "traceSpans req = concat (map (\<lambda>rs. concat (map pcItems (prScopes rs))) req)"

definition countTraces :: "int \<Rightarrow> pbSpan pbResource list \<Rightarrow> ingestRejects \<Rightarrow> ingestRejects" where
  "countTraces now req rj = fold (countSpanQuality now) (traceSpans req) rj"

section \<open>Logs\<close>

definition convertLog :: "golib \<Rightarrow> string \<Rightarrow> string \<Rightarrow> string list \<Rightarrow> string list \<Rightarrow> string \<Rightarrow> pbLog \<Rightarrow> LogRec" where
  "convertLog lib svcName hostName resK resV scopeName lr =
     (let ts = (if poTime lr = 0 then poObserved lr else poTime lr);
          (attrK, attrV) = attrsToArrays lib (poAttrs lr) in
      \<lparr>attrKeys = attrK, attrValues = attrV, resKeys = resK, resValues = resV,
       lgTraceID = hexID (poTraceId lr), lgSpanID = hexID (poSpanId lr), lgTime = unixNano ts, lgSeverityNum = word_of_int (poSeverity lr),
       lgSeverityText = poSeverityText lr, lgBody = anyValStr lib (poBody lr), lgService = svcName, lgHost = hostName, lgScope = scopeName\<rparr>)"

definition resourceLogs :: "golib \<Rightarrow> nat \<Rightarrow> pbLog pbResource \<Rightarrow> LogRec held list \<times> string list" where
  "resourceLogs lib addr rl =
     (let (svcName, hostName, resK, resV) =
            (case prResource rl of
               None \<Rightarrow> (''unknown'', [], [], [])
             | Some attrs \<Rightarrow>
                 (attrStr lib attrs ''service.name'' ''unknown'', attrStr lib attrs ''host.name'' [],
                  fst (attrsToArrays lib attrs), snd (attrsToArrays lib attrs))) in
      (concat (map (\<lambda>sl. map (\<lambda>lr. (convertLog lib svcName hostName resK resV (case pcScope sl of None \<Rightarrow> [] | Some n \<Rightarrow> n) lr, Some addr))
         (pcItems sl)) (prScopes rl)), resV))"

fun ConvertLogs :: "golib \<Rightarrow> pbLog pbResource list \<Rightarrow> arrays \<Rightarrow> LogRec held list \<times> arrays" where
  "ConvertLogs lib [] h = ([], h)"
| "ConvertLogs lib (rl # rls) h =
     (let (rows, resV) = resourceLogs lib (length h) rl; (rows', h') = ConvertLogs lib rls (h @ [resV]) in (rows @ rows', h'))"

end
