(* ===== verification/OTLP_Metrics.thy ===== *)
theory OTLP_Metrics
  imports OTLP
begin

text \<open>
  Metrics: the identity of a series (\<open>internal/otlp/fingerprint.go\<close>), the explicit layout of exponential
  histograms (\<open>exp_histogram.go\<close>), the conversion of the five kinds of data points with their exemplars
  (\<open>convert.go\<close>), and the counters of degraded points (\<open>convert_counters.go\<close>).
\<close>

section \<open>Identity of a series\<close>

definition fpSectionSep :: string where "fpSectionSep = [CHR 0x00]"
definition fpPairSep :: string where "fpPairSep = [CHR 0x1F]"

definition attrPair :: "golib \<Rightarrow> KeyValue \<Rightarrow> string \<times> string" where
  "attrPair lib kv = (fst kv, anyValStr lib (snd kv))"

definition pairText :: "string \<times> string \<Rightarrow> string" where
  "pairText p = fst p @ ''='' @ snd p"

text \<open>The bytes that are hashed.\<close>

definition resourceIdentity :: "string \<Rightarrow> string \<Rightarrow> string" where
  "resourceIdentity serviceName serviceInstanceID =
     (if serviceInstanceID \<noteq> [] then ''service.instance.id='' @ serviceInstanceID else []) @
     (if serviceName \<noteq> [] then (if serviceInstanceID \<noteq> [] then fpPairSep else []) @ ''service.name='' @ serviceName else [])"

definition canonicalSeries :: "golib \<Rightarrow> string \<Rightarrow> KeyValue list \<Rightarrow> string \<Rightarrow> string \<Rightarrow> string" where
  "canonicalSeries lib metricName dpAttrs serviceName serviceInstanceID =
     metricName @ fpSectionSep @
     Join (map (pairText \<circ> attrPair lib) (sort_key (attrPair lib) dpAttrs)) fpPairSep @
     fpSectionSep @ resourceIdentity serviceName serviceInstanceID"

definition SeriesFingerprint :: "golib \<Rightarrow> string \<Rightarrow> KeyValue list \<Rightarrow> string \<Rightarrow> string \<Rightarrow> 64 word" where
  "SeriesFingerprint lib metricName dpAttrs serviceName serviceInstanceID =
     xxhash lib (canonicalSeries lib metricName dpAttrs serviceName serviceInstanceID)"

section \<open>Numbers\<close>

definition isZeroF :: "float64 \<Rightarrow> bool" where
  "isZeroF x \<longleftrightarrow> x = 0 \<or> x = 2 ^ 63"

definition GetAsDouble :: "pbNumber \<Rightarrow> float64" where
  "GetAsDouble n = (case n of NDouble d \<Rightarrow> d | _ \<Rightarrow> 0)"

definition GetAsInt :: "pbNumber \<Rightarrow> int" where
  "GetAsInt n = (case n of NInt i \<Rightarrow> i | _ \<Rightarrow> 0)"

definition numberVal :: "golib \<Rightarrow> pbNumber \<Rightarrow> float64" where
  "numberVal lib n = (if \<not> isZeroF (GetAsDouble n) then GetAsDouble n else ofInt lib (GetAsInt n))"

definition derefF64 :: "float64 option \<Rightarrow> float64" where
  "derefF64 p = (case p of None \<Rightarrow> 0 | Some x \<Rightarrow> x)"

definition temporalityStr :: "int \<Rightarrow> string" where
  "temporalityStr t = (if t = 1 then ''delta'' else if t = 2 then ''cumulative'' else [])"

definition average :: "golib \<Rightarrow> float64 \<Rightarrow> 64 word \<Rightarrow> float64" where
  "average lib tot cnt = (if cnt > 0 then fdiv lib tot (ofUint lib cnt) else 0)"

section \<open>Exponential histograms\<close>

record convertDegrades =
  expHistEmpty :: nat
  expHistNegative :: nat
  expHistScale :: nat
  expHistCap :: nat
  deltaTemporality :: nat

datatype degrade = DEmpty | DNegative | DScale | DCap

definition maxExpBuckets :: nat where "maxExpBuckets = 320"

definition expBucketsToExplicit :: "golib \<Rightarrow> pbExpPoint \<Rightarrow> degrade + float64 list \<times> 64 word list" where
  "expBucketsToExplicit lib dp =
     (case pqPositive dp of
        None \<Rightarrow> Inl DEmpty
      | Some (off, cs) \<Rightarrow>
          if cs = [] then Inl DEmpty
          else if (case pqNegative dp of Some ns \<Rightarrow> ns \<noteq> [] | None \<Rightarrow> False) then Inl DNegative
          else if pqScale dp < -10 \<or> pqScale dp > 20 then Inl DScale
          else if length cs > maxExpBuckets then Inl DCap
          else
            (let inv = Exp2 lib (fneg lib (ofInt lib (pqScale dp))) in
             Inr (map (\<lambda>i. Exp2 lib (fmul lib inv (ofInt lib (off + int i)))) [0..<length cs + 1], pqZero dp # cs @ [0])))"

definition countDegrade :: "degrade \<Rightarrow> convertDegrades \<Rightarrow> convertDegrades" where
  "countDegrade d dg =
     (case d of
        DEmpty \<Rightarrow> dg\<lparr>expHistEmpty := expHistEmpty dg + 1\<rparr>
      | DNegative \<Rightarrow> dg\<lparr>expHistNegative := expHistNegative dg + 1\<rparr>
      | DScale \<Rightarrow> dg\<lparr>expHistScale := expHistScale dg + 1\<rparr>
      | DCap \<Rightarrow> dg\<lparr>expHistCap := expHistCap dg + 1\<rparr>)"

definition countDeltaTemporality :: "string \<Rightarrow> convertDegrades \<Rightarrow> convertDegrades" where
  "countDeltaTemporality t dg = (if t = ''delta'' then dg\<lparr>deltaTemporality := deltaTemporality dg + 1\<rparr> else dg)"

section \<open>Data points\<close>

text \<open>The identity that all points of one resource share.\<close>

record pointEnv =
  peService :: string
  peInstance :: string
  peHost :: string
  peResK :: "string list"
  peResV :: "string list"

definition basePoint :: "golib \<Rightarrow> pointEnv \<Rightarrow> pbMetric \<Rightarrow> string \<Rightarrow> 'a pbPoint_scheme \<Rightarrow> float64 \<Rightarrow> 64 word \<Rightarrow> float64 \<Rightarrow> float64 \<Rightarrow> float64 \<Rightarrow> MetricRec" where
  "basePoint lib env m instrument dp val cnt tot mn mx =
     (let (attrK, attrV) = attrsToArrays lib (pdAttrs dp) in
      \<lparr>attrKeys = attrK, attrValues = attrV, resKeys = peResK env, resValues = peResV env,
       mtMetric = pmName m, mtInstrument = instrument, mtDescription = pmDescription m, mtUnit = pmUnit m,
       mtService = peService env, mtHost = peHost env, mtTime = unixNano (pdTime dp), mtStart = unixNano (pdStart dp),
       mtValue = val, mtCount = cnt, mtSum = tot, mtMin = mn, mtMax = mx, mtBounds = [], mtCounts = [], mtTemporality = [],
       mtFingerprint = SeriesFingerprint lib (pmName m) (pdAttrs dp) (peService env) (peInstance env), mtMonotonic = 1\<rparr>)"

definition appendExemplars :: "golib \<Rightarrow> pbExemplar list \<Rightarrow> MetricRec \<Rightarrow> 64 word \<Rightarrow> ExemplarRow list" where
  "appendExemplars lib exemplars p dpTimeNs =
     map (\<lambda>ex.
       \<lparr>exFingerprint = mtFingerprint p, exMetric = mtMetric p, exService = mtService p,
        exTime = unixNano (if pxTime ex = 0 then dpTimeNs else pxTime ex), exValue = numberVal lib (pxNum ex),
        exTraceID = parentID (pxTraceId ex), exSpanID = parentID (pxSpanId ex),
        exFilteredAttrs = foldl (\<lambda>m kv. m(fst kv \<mapsto> anyValStr lib (snd kv))) (\<lambda>_. None) (pxAttrs ex)\<rparr>) exemplars"

definition gaugePoint :: "golib \<Rightarrow> pointEnv \<Rightarrow> pbMetric \<Rightarrow> pbNumberPoint \<Rightarrow> MetricRec" where
  "gaugePoint lib env m dp = basePoint lib env m ''gauge'' dp (numberVal lib (pnNum dp)) 0 0 0 0"

definition sumPoint :: "golib \<Rightarrow> pointEnv \<Rightarrow> pbMetric \<Rightarrow> int \<Rightarrow> bool \<Rightarrow> pbNumberPoint \<Rightarrow> MetricRec" where
  "sumPoint lib env m t isMono dp =
     (let p = (basePoint lib env m ''sum'' dp (numberVal lib (pnNum dp)) 0 0 0 0)\<lparr>mtTemporality := temporalityStr t\<rparr> in
      if \<not> isMono then p\<lparr>mtMonotonic := 0\<rparr> else p)"

definition histPoint :: "golib \<Rightarrow> pointEnv \<Rightarrow> pbMetric \<Rightarrow> int \<Rightarrow> pbHistPoint \<Rightarrow> MetricRec" where
  "histPoint lib env m t dp =
     (let tot = derefF64 (phSum dp);
          p = (basePoint lib env m ''histogram'' dp (average lib tot (phCount dp)) (phCount dp) tot (derefF64 (phMin dp)) (derefF64 (phMax dp)))
                \<lparr>mtTemporality := temporalityStr t\<rparr> in
      if phBounds dp \<noteq> [] \<and> phCounts dp \<noteq> [] then p\<lparr>mtBounds := phBounds dp, mtCounts := phCounts dp\<rparr> else p)"

definition expPoint :: "golib \<Rightarrow> pointEnv \<Rightarrow> pbMetric \<Rightarrow> int \<Rightarrow> pbExpPoint \<Rightarrow> MetricRec" where
  "expPoint lib env m t dp =
     (let tot = derefF64 (pqSum dp);
          p = (basePoint lib env m ''exp_histogram'' dp (average lib tot (pqCount dp)) (pqCount dp) tot (derefF64 (pqMin dp)) (derefF64 (pqMax dp)))
                \<lparr>mtTemporality := temporalityStr t\<rparr> in
      case expBucketsToExplicit lib dp of Inr (bounds, counts) \<Rightarrow> p\<lparr>mtBounds := bounds, mtCounts := counts\<rparr> | Inl _ \<Rightarrow> p)"

definition expCount :: "golib \<Rightarrow> int \<Rightarrow> pbExpPoint \<Rightarrow> convertDegrades \<Rightarrow> convertDegrades" where
  "expCount lib t dp dg =
     (let dg = countDeltaTemporality (temporalityStr t) dg in
      case expBucketsToExplicit lib dp of Inr _ \<Rightarrow> dg | Inl d \<Rightarrow> countDegrade d dg)"

definition summaryPoint :: "golib \<Rightarrow> pointEnv \<Rightarrow> pbMetric \<Rightarrow> pbSummaryPoint \<Rightarrow> MetricRec" where
  "summaryPoint lib env m dp =
     (let p = basePoint lib env m ''summary'' dp (average lib (pySum dp) (pyCount dp)) (pyCount dp) (pySum dp) 0 0;
          qs = List.map_filter (\<lambda>q. q) (pyQuantiles dp) in
      p\<lparr>attrKeys := attrKeys p @ map (\<lambda>q. ''summary.quantile.'' @ FormatFloat lib (fst q)) qs,
        attrValues := attrValues p @ map (\<lambda>q. FormatFloat lib (snd q)) qs\<rparr>)"

definition withExemplars :: "golib \<Rightarrow> ('d \<Rightarrow> MetricRec) \<Rightarrow> ('d \<Rightarrow> pbExemplar list) \<Rightarrow> ('d \<Rightarrow> 64 word) \<Rightarrow> 'd list \<Rightarrow> MetricRec list \<times> ExemplarRow list" where
  "withExemplars lib pt exs tm dps = (map pt dps, concat (map (\<lambda>dp. appendExemplars lib (exs dp) (pt dp) (tm dp)) dps))"

definition convertMetric :: "golib \<Rightarrow> pointEnv \<Rightarrow> pbMetric \<Rightarrow> MetricRec list \<times> ExemplarRow list" where
  "convertMetric lib env m =
     (case pmData m of
        Gauge dps \<Rightarrow> withExemplars lib (gaugePoint lib env m) pnExemplars pdTime dps
      | Sum dps t isMono \<Rightarrow> withExemplars lib (sumPoint lib env m t isMono) pnExemplars pdTime dps
      | Histogram dps t \<Rightarrow> withExemplars lib (histPoint lib env m t) phExemplars pdTime dps
      | ExponentialHistogram dps t \<Rightarrow> withExemplars lib (expPoint lib env m t) pqExemplars pdTime dps
      | Summary dps \<Rightarrow> (map (summaryPoint lib env m) dps, [])
      | NoData \<Rightarrow> ([], []))"

definition countMetric :: "golib \<Rightarrow> pbMetric \<Rightarrow> convertDegrades \<Rightarrow> convertDegrades" where
  "countMetric lib m dg =
     (case pmData m of
        Sum dps t isMono \<Rightarrow> fold (\<lambda>_. countDeltaTemporality (temporalityStr t)) dps dg
      | Histogram dps t \<Rightarrow> fold (\<lambda>_. countDeltaTemporality (temporalityStr t)) dps dg
      | ExponentialHistogram dps t \<Rightarrow> fold (expCount lib t) dps dg
      | _ \<Rightarrow> dg)"

definition resourceEnv :: "golib \<Rightarrow> 'a pbResource \<Rightarrow> pointEnv" where
  "resourceEnv lib rm =
     (case prResource rm of
        None \<Rightarrow> \<lparr>peService = ''unknown'', peInstance = [], peHost = [], peResK = [], peResV = []\<rparr>
      | Some attrs \<Rightarrow>
          (let hostName = attrStr lib attrs ''host.name'' [];
               inst = attrStr lib attrs ''service.instance.id'' [];
               inst = (if inst = [] then attrStr lib attrs ''k8s.pod.name'' [] else inst);
               inst = (if inst = [] then hostName else inst) in
           \<lparr>peService = attrStr lib attrs ''service.name'' ''unknown'', peInstance = inst, peHost = hostName,
            peResK = fst (attrsToArrays lib attrs), peResV = snd (attrsToArrays lib attrs)\<rparr>))"

definition resourceMetrics :: "'a pbResource \<Rightarrow> 'a list" where
  "resourceMetrics rm = concat (map pcItems (prScopes rm))"

fun ConvertMetrics :: "golib \<Rightarrow> pbMetric pbResource list \<Rightarrow> arrays \<Rightarrow> MetricRec held list \<times> ExemplarRow list \<times> arrays" where
  "ConvertMetrics lib [] h = ([], [], h)"
| "ConvertMetrics lib (rm # rms) h =
     (let env = resourceEnv lib rm;
          converted = map (convertMetric lib env) (resourceMetrics rm);
          (pts, exs, h') = ConvertMetrics lib rms (h @ [peResV env]) in
      (map (\<lambda>p. (p, Some (length h))) (concat (map fst converted)) @ pts, concat (map snd converted) @ exs, h'))"

definition countMetrics :: "golib \<Rightarrow> pbMetric pbResource list \<Rightarrow> convertDegrades \<Rightarrow> convertDegrades" where
  "countMetrics lib req dg = fold (countMetric lib) (concat (map resourceMetrics req)) dg"

section \<open>The identity determines the series\<close>

lemma map_sort_key: "map f (sort_key f xs) = sort (map f xs)"
  by (rule properties_for_sort [symmetric]) (simp_all add: sorted_sort_key)

lemma canonicalSeries_sorted:
  "canonicalSeries lib n attrs svc inst =
     n @ fpSectionSep @ Join (map pairText (sort (map (attrPair lib) attrs))) fpPairSep @ fpSectionSep @ resourceIdentity svc inst"
  by (simp add: canonicalSeries_def flip: map_sort_key)

text \<open>
  The fingerprint of a series does not depend on the order in which the attributes arrive: two attribute
  lists with the same pairs of key and formatted value have the same fingerprint.
\<close>

theorem SeriesFingerprint_order:
  assumes "mset (map (attrPair lib) attrs) = mset (map (attrPair lib) attrs')"
  shows "SeriesFingerprint lib n attrs svc inst = SeriesFingerprint lib n attrs' svc inst"
proof -
  have "sort (map (attrPair lib) attrs) = sort (map (attrPair lib) attrs')" using assms by (metis sorted_list_of_multiset_mset)
  then show ?thesis by (simp add: SeriesFingerprint_def canonicalSeries_sorted)
qed

text \<open>Splitting at the separators reads the parts back.\<close>

lemma split_at: "c \<notin> set p \<Longrightarrow> c \<notin> set q \<Longrightarrow> p @ c # s = q @ c # t \<Longrightarrow> p = q \<and> s = t"
proof (induction p arbitrary: q)
  case Nil
  then show ?case by (cases q) auto
next
  case (Cons x p)
  then show ?case by (cases q) auto
qed

lemma pairText_inj: "CHR ''='' \<notin> set (fst p) \<Longrightarrow> CHR ''='' \<notin> set (fst q) \<Longrightarrow> pairText p = pairText q \<Longrightarrow> p = q"
  using split_at [of "CHR ''=''" "fst p" "fst q" "snd p" "snd q"] by (simp add: pairText_def prod_eq_iff)

lemma Join_eq_Nil: "list_all (\<lambda>p. p \<noteq> []) ps \<Longrightarrow> Join ps sep = [] \<longleftrightarrow> ps = []"
  by (induction ps sep rule: Join.induct) auto

lemma Join_inj:
  assumes "list_all (\<lambda>p. p \<noteq> [] \<and> c \<notin> set p) ps" and "list_all (\<lambda>p. p \<noteq> [] \<and> c \<notin> set p) qs" and "Join ps [c] = Join qs [c]"
  shows "ps = qs"
proof (cases "ps = [] \<or> qs = []")
  case True
  then show ?thesis using assms Join_eq_Nil [of ps "[c]"] Join_eq_Nil [of qs "[c]"] by (auto simp: list_all_iff)
next
  case False
  have "SplitByte [] c (Join ps [c]) = ps" "SplitByte [] c (Join qs [c]) = qs"
    using assms(1,2) False by (auto intro!: SplitByte_Join simp: list_all_iff)
  with assms(3) show ?thesis by metis
qed

lemma map_inj_list:
  assumes "map f xs = map f ys" and "\<And>x y. x \<in> set xs \<Longrightarrow> y \<in> set ys \<Longrightarrow> f x = f y \<Longrightarrow> x = y"
  shows "xs = ys"
  using assms by (induction xs arbitrary: ys) (auto simp: Cons_eq_map_conv)

definition cleanText :: "string \<Rightarrow> bool" where
  "cleanText s \<longleftrightarrow> CHR 0x00 \<notin> set s \<and> CHR 0x1F \<notin> set s"

definition cleanPair :: "string \<times> string \<Rightarrow> bool" where
  "cleanPair p \<longleftrightarrow> cleanText (fst p) \<and> cleanText (snd p) \<and> CHR ''='' \<notin> set (fst p)"

definition cleanSeries :: "golib \<Rightarrow> string \<Rightarrow> KeyValue list \<Rightarrow> string \<Rightarrow> string \<Rightarrow> bool" where
  "cleanSeries lib n attrs svc inst \<longleftrightarrow> cleanText n \<and> list_all (cleanPair \<circ> attrPair lib) attrs \<and> cleanText svc \<and> cleanText inst"

lemma pairs_text:
  assumes "list_all (cleanPair \<circ> attrPair lib) attrs"
  defines "ps \<equiv> sort (map (attrPair lib) attrs)"
  shows "list_all (\<lambda>p. p \<noteq> [] \<and> CHR 0x1F \<notin> set p) (map pairText ps)" and "CHR 0x00 \<notin> set (Join (map pairText ps) fpPairSep)"
    and "list_all (\<lambda>p. CHR ''='' \<notin> set (fst p)) ps"
proof -
  have c: "cleanPair p" if "p \<in> set ps" for p using assms that by (auto simp: list_all_iff)
  have eq: "CHR ''='' \<noteq> CHR 0x1F" "CHR ''='' \<noteq> CHR 0x00" "CHR 0x1F \<noteq> CHR 0x00" by simp_all
  have t: "pairText p \<noteq> [] \<and> CHR 0x1F \<notin> set (pairText p) \<and> CHR 0x00 \<notin> set (pairText p)" if "p \<in> set ps" for p
    using c [OF that] by (auto simp: pairText_def cleanPair_def cleanText_def)
  then show "list_all (\<lambda>p. p \<noteq> [] \<and> CHR 0x1F \<notin> set p) (map pairText ps)" by (simp add: list_all_iff)
  have "CHR 0x00 \<notin> \<Union> (set ` set (map pairText ps)) \<union> set fpPairSep" using t by (auto simp: fpPairSep_def)
  with set_Join [of "map pairText ps" fpPairSep] show "CHR 0x00 \<notin> set (Join (map pairText ps) fpPairSep)" by blast
  show "list_all (\<lambda>p. CHR ''='' \<notin> set (fst p)) ps" using c by (simp add: list_all_iff cleanPair_def)
qed

lemma resourceIdentity_inj:
  assumes "cleanText svc" "cleanText inst" "cleanText svc'" "cleanText inst'" and "resourceIdentity svc inst = resourceIdentity svc' inst'"
  shows "svc = svc' \<and> inst = inst'"
proof -
  have cut: "p = q \<and> s = t" if "CHR 0x1F \<notin> set p" "CHR 0x1F \<notin> set q" "p @ CHR 0x1F # s = q @ CHR 0x1F # t" for p q s t :: string
    using split_at [OF that] .
  have id: "CHR 0x1F \<notin> set (''service.instance.id='' @ x)" "CHR 0x1F \<notin> set (''service.name='' @ x)" if "cleanText x" for x
    using that by (auto simp: cleanText_def)
  have mem: "CHR 0x1F \<in> set (resourceIdentity s i) \<longleftrightarrow> s \<noteq> [] \<and> i \<noteq> []" if "cleanText s" "cleanText i" for s i
    using that id by (auto simp: resourceIdentity_def fpPairSep_def)
  have both: "(svc \<noteq> [] \<and> inst \<noteq> []) = (svc' \<noteq> [] \<and> inst' \<noteq> [])" using mem assms by metis
  show ?thesis
  proof (cases "svc \<noteq> [] \<and> inst \<noteq> []")
    case True
    with both assms(5) have "(''service.instance.id='' @ inst) @ CHR 0x1F # (''service.name='' @ svc) = (''service.instance.id='' @ inst') @ CHR 0x1F # (''service.name='' @ svc')"
      by (simp add: resourceIdentity_def fpPairSep_def)
    from cut [OF id(1) id(1) this] assms show ?thesis by simp
  next
    case False
    with both assms(5) show ?thesis by (cases "svc = []"; cases "inst = []"; cases "svc' = []"; cases "inst' = []") (simp_all add: resourceIdentity_def)
  qed
qed

text \<open>
  C37. The hashed text identifies the series: where names, values and resource identity carry no NUL and no
  unit separator and attribute keys carry no equals sign, two series with the same text have the same metric
  name, service and instance and the same attribute pairs.
\<close>

theorem canonicalSeries_identifies:
  assumes "cleanSeries lib n attrs svc inst" and "cleanSeries lib n' attrs' svc' inst'"
    and "canonicalSeries lib n attrs svc inst = canonicalSeries lib n' attrs' svc' inst'"
  shows "n = n' \<and> svc = svc' \<and> inst = inst' \<and> mset (map (attrPair lib) attrs) = mset (map (attrPair lib) attrs')"
proof -
  let ?ps = "sort (map (attrPair lib) attrs)" and ?qs = "sort (map (attrPair lib) attrs')"
  note p = pairs_text [of lib attrs] and q = pairs_text [of lib attrs']
  have c: "list_all (cleanPair \<circ> attrPair lib) attrs" "list_all (cleanPair \<circ> attrPair lib) attrs'" using assms by (auto simp: cleanSeries_def)
  have z: "CHR 0x00 \<notin> set n" "CHR 0x00 \<notin> set n'" using assms by (auto simp: cleanSeries_def cleanText_def)
  have eq: "n @ CHR 0x00 # (Join (map pairText ?ps) fpPairSep @ CHR 0x00 # resourceIdentity svc inst) =
      n' @ CHR 0x00 # (Join (map pairText ?qs) fpPairSep @ CHR 0x00 # resourceIdentity svc' inst')"
    using assms(3) by (simp add: canonicalSeries_sorted fpSectionSep_def)
  from split_at [OF z eq] have n: "n = n'"
    and rest: "Join (map pairText ?ps) fpPairSep @ CHR 0x00 # resourceIdentity svc inst = Join (map pairText ?qs) fpPairSep @ CHR 0x00 # resourceIdentity svc' inst'"
    by auto
  from split_at [OF p(2) [OF c(1)] q(2) [OF c(2)] rest] have j: "Join (map pairText ?ps) [CHR 0x1F] = Join (map pairText ?qs) [CHR 0x1F]"
    and r: "resourceIdentity svc inst = resourceIdentity svc' inst'" by (auto simp: fpPairSep_def)
  have "map pairText ?ps = map pairText ?qs" by (rule Join_inj [OF p(1) [OF c(1)] q(1) [OF c(2)] j])
  then have "?ps = ?qs"
  proof (rule map_inj_list)
    fix x y
    assume "x \<in> set ?ps" "y \<in> set ?qs" "pairText x = pairText y"
    moreover have "\<forall>x\<in>set ?ps. CHR ''='' \<notin> set (fst x)" "\<forall>y\<in>set ?qs. CHR ''='' \<notin> set (fst y)"
      using p(3) [OF c(1)] q(3) [OF c(2)] by (simp_all only: list_all_iff)
    ultimately show "x = y" using pairText_inj by blast
  qed
  then have "mset (map (attrPair lib) attrs) = mset (map (attrPair lib) attrs')" by (metis mset_sort)
  moreover have "svc = svc' \<and> inst = inst'" using resourceIdentity_inj [OF _ _ _ _ r] assms by (auto simp: cleanSeries_def)
  ultimately show ?thesis using n by blast
qed

definition plainLib :: golib where
  "plainLib = \<lparr>FormatFloat = (\<lambda>_. ''0''), ofInt = word_of_int, ofUint = (\<lambda>x. x), toInt = sint, fneg = uminus, fdiv = (\<lambda>x y. x div y),
     fmul = (\<lambda>x y. x * y), Exp2 = (\<lambda>x. x), xxhash = (\<lambda>s. word_of_nat (length s))\<rparr>"

theorem SeriesFingerprint_order_witness:
  "SeriesFingerprint plainLib ''m'' [(''a'', Some (AVInt 1)), (''b'', None)] ''cart'' [] =
   SeriesFingerprint plainLib ''m'' [(''b'', None), (''a'', Some (AVString ''1''))] ''cart'' []"
proof (rule SeriesFingerprint_order)
  have "itoa 1 = ''1''" by code_simp
  then show "mset (map (attrPair plainLib) [(''a'', Some (AVInt 1)), (''b'', None)]) =
      mset (map (attrPair plainLib) [(''b'', None), (''a'', Some (AVString ''1''))])"
    by (simp add: attrPair_def anyValStr_def)
qed

theorem canonicalSeries_identifies_witness:
  "let attrs = [(''b'', Some (AVInt 1)), (''a'', None)]; attrs' = [(''a'', None), (''b'', Some (AVString ''1''))] in
   canonicalSeries plainLib ''m'' attrs ''cart'' [] = canonicalSeries plainLib ''m'' attrs' ''cart'' [] \<and>
   mset (map (attrPair plainLib) attrs) = mset (map (attrPair plainLib) attrs')"
proof -
  let ?a = "[(''b'', Some (AVInt 1)), (''a'', None)]" and ?b = "[(''a'', None), (''b'', Some (AVString ''1''))]"
  have c: "cleanSeries plainLib ''m'' ?a ''cart'' []" "cleanSeries plainLib ''m'' ?b ''cart'' []" by code_simp+
  have e: "canonicalSeries plainLib ''m'' ?a ''cart'' [] = canonicalSeries plainLib ''m'' ?b ''cart'' []" by code_simp
  from canonicalSeries_identifies [OF c e] e show ?thesis by (simp add: Let_def)
qed

text \<open>
  An equals sign in a key is enough for a collision, without any control character: the key \<open>a=b\<close> with the
  value \<open>c\<close> and the key \<open>a\<close> with the value \<open>b=c\<close> are different series with one fingerprint, whatever the
  hash.
\<close>

theorem SeriesFingerprint_collides:
  "SeriesFingerprint lib n [(''a=b'', Some (AVString ''c''))] svc inst = SeriesFingerprint lib n [(''a'', Some (AVString ''b=c''))] svc inst"
  by (simp add: SeriesFingerprint_def canonicalSeries_def attrPair_def pairText_def anyValStr_def)

section \<open>Layout of the buckets\<close>

lemma expBuckets_layout:
  assumes "expBucketsToExplicit lib dp = Inr (bounds, counts)"
  shows "length counts = length bounds + 1 \<and> length bounds \<le> maxExpBuckets + 1 \<and> hd counts = pqZero dp \<and> last counts = 0"
  using assms by (auto simp: expBucketsToExplicit_def Let_def split: option.splits if_splits)

end
