(* ===== verification/Pipeline.thy ===== *)
theory Pipeline
  imports Complex_Main Rows UTF8 "HOL-Library.Multiset" "HOL-Library.List_Lexorder" "HOL-Library.Char_ord"
begin

text \<open>
  The ingest-time policy engine (\<open>internal/pipeline\<close>): the rule catalogue with its validation and
  persistence, the accept path of the three signals, the enrichment of resource attributes, the verdict the
  metric forwarder asks for, and the read-side hiding of dropped metric names. Arguments: \<open>re\<close> is the
  compilation of a regular expression (\<open>None\<close> for an invalid one), \<open>dice i\<close> the random number drawn
  for rule \<open>i\<close>. Rates are rationals. The persisted blob is the rule list it decodes to. A Go map is an
  association list in the order of the iteration. The lock makes the change of the rules one step; the write to the store comes after
  the lock is released, and the section on restarts treats it as a step of its own.
\<close>

section \<open>Rules\<close>

datatype RuleKind = KindDrop | KindEnrich | KindSample | KindOther string
datatype Signal = SignalSpans | SignalLogs | SignalMetrics | SignalOther string
datatype pipeOp = OpEq | OpNeq | OpContains | OpStartsWith | OpEndsWith | OpMatches | OpOther string

record Condition =
  CKey :: string
  COp :: pipeOp
  CValue :: string

record Rule =
  RID :: string
  RName :: string
  RKind :: RuleKind
  RSignal :: Signal
  REnabled :: bool
  RWhen :: Condition
  RAnd :: "Condition list"
  RSet :: "(string \<times> string) list"
  RRate :: rat

record Engine =
  rules :: "Rule list"

type_synonym regex = "string \<Rightarrow> (string \<Rightarrow> bool) option"

definition NewEngine :: Engine where
  "NewEngine = \<lparr>rules = []\<rparr>"

text \<open>The sort of \<open>normalise\<close>: each rule in turn sinks to its place from the right; the prefix is kept reversed.\<close>

fun sink :: "Rule \<Rightarrow> Rule list \<Rightarrow> Rule list" where
  "sink r [] = [r]"
| "sink r (q # qs) = (if RName r < RName q then q # sink r qs else r # q # qs)"

definition normalise :: "Rule list \<Rightarrow> Rule list" where
  "normalise rs = rev (fold sink rs [])"

definition LoadPersisted :: "string + Rule list option \<Rightarrow> Engine \<Rightarrow> string option \<times> Engine" where
  "LoadPersisted got e =
     (case got of
        Inl err \<Rightarrow> (Some err, e)
      | Inr None \<Rightarrow> (None, e\<lparr>rules := normalise []\<rparr>)
      | Inr (Some rs) \<Rightarrow> (None, e\<lparr>rules := normalise rs\<rparr>))"

definition uniqHash :: "string \<Rightarrow> 32 word" where
  "uniqHash s = foldl (\<lambda>h c. (Bit_Operations.xor h (word_of_nat (byte c))) * 16777619) 2166136261 s"

fun hexNat :: "nat \<Rightarrow> string" where
  "hexNat n = (if n < 16 then [''0123456789abcdef'' ! n] else hexNat (n div 16) @ [''0123456789abcdef'' ! (n mod 16)])"

declare hexNat.simps [simp del]

datatype pipeErr = PNoName | PBadKind RuleKind | PBadRate rat | PNoAttributes | PBadSignal Signal | PNoKey | PNoPattern | PBadPattern string |
  PAnd nat pipeErr | PStore string

definition validateCondition :: "regex \<Rightarrow> Condition \<Rightarrow> pipeErr option" where
  "validateCondition re c =
     (if COp c \<noteq> OpMatches then None
      else if CValue c = [] then Some PNoPattern
      else if re (CValue c) = None then Some (PBadPattern (CValue c))
      else None)"

definition trimCond :: "Condition \<Rightarrow> Condition" where
  "trimCond c = c\<lparr>CKey := TrimSpace (CKey c), CValue := TrimSpace (CValue c)\<rparr>"

fun checkAnd :: "regex \<Rightarrow> nat \<Rightarrow> Condition list \<Rightarrow> pipeErr option" where
  "checkAnd re i [] = None"
| "checkAnd re i (c # cs) =
     (if CKey (trimCond c) = [] then Some (PAnd i PNoKey)
      else case validateCondition re (trimCond c) of
        Some e \<Rightarrow> Some (PAnd i e)
      | None \<Rightarrow> checkAnd re (i + 1) cs)"

text \<open>The rule with its trimmed fields and its identifier.\<close>

definition canonRule :: "Rule \<Rightarrow> Rule" where
  "canonRule r =
     (let n = TrimSpace (RName r) in
      r\<lparr>RName := n, RID := (if RID r = [] then ''rule-'' @ hexNat (unat (uniqHash n)) else RID r),
        RWhen := trimCond (RWhen r), RAnd := map trimCond (RAnd r)\<rparr>)"

definition checkRule :: "regex \<Rightarrow> Rule \<Rightarrow> pipeErr option" where
  "checkRule re r =
     (if TrimSpace (RName r) = [] then Some PNoName
      else if RKind r \<notin> {KindDrop, KindEnrich, KindSample} then Some (PBadKind (RKind r))
      else if RKind r = KindSample \<and> (RRate r < 0 \<or> RRate r > 1) then Some (PBadRate (RRate r))
      else if RKind r = KindEnrich \<and> RSet r = [] then Some PNoAttributes
      else if RSignal r \<notin> {SignalSpans, SignalLogs, SignalMetrics} then Some (PBadSignal (RSignal r))
      else if CKey (trimCond (RWhen r)) = [] then Some PNoKey
      else case validateCondition re (trimCond (RWhen r)) of
        Some e \<Rightarrow> Some e
      | None \<Rightarrow> checkAnd re 0 (RAnd r))"

fun replaceFirst :: "Rule \<Rightarrow> Rule list \<Rightarrow> Rule list" where
  "replaceFirst r [] = [r]"
| "replaceFirst r (q # qs) = (if RID q = RID r then r # qs else q # replaceFirst r qs)"

text \<open>The part of \<open>Upsert\<close> up to the end of the lock: the error, or the rule, the snapshot to be written and the engine.\<close>

definition upsertRules :: "regex \<Rightarrow> Rule \<Rightarrow> Engine \<Rightarrow> pipeErr + Rule \<times> Rule list \<times> Engine" where
  "upsertRules re r e =
     (case checkRule re r of
        Some err \<Rightarrow> Inl err
      | None \<Rightarrow> (let r = canonRule r; snapshot = replaceFirst r (rules e) in Inr (r, snapshot, e\<lparr>rules := normalise snapshot\<rparr>)))"

definition deleteRules :: "string \<Rightarrow> Engine \<Rightarrow> Rule list \<times> Engine" where
  "deleteRules rid e = (let next = filter (\<lambda>r. RID r \<noteq> rid) (rules e) in (next, e\<lparr>rules := next\<rparr>))"

text \<open>What the blob of a snapshot decodes to: the texts as JSON keeps them; numbers and flags are kept exactly.\<close>

definition jsonCond :: "Condition \<Rightarrow> Condition" where
  "jsonCond c = c\<lparr>CKey := jsonText (CKey c), COp := (case COp c of OpOther s \<Rightarrow> OpOther (jsonText s) | x \<Rightarrow> x), CValue := jsonText (CValue c)\<rparr>"

definition jsonRule :: "Rule \<Rightarrow> Rule" where
  "jsonRule r =
     r\<lparr>RID := jsonText (RID r), RName := jsonText (RName r), RKind := (case RKind r of KindOther s \<Rightarrow> KindOther (jsonText s) | x \<Rightarrow> x),
       RSignal := (case RSignal r of SignalOther s \<Rightarrow> SignalOther (jsonText s) | x \<Rightarrow> x), RWhen := jsonCond (RWhen r), RAnd := map jsonCond (RAnd r),
       RSet := map (\<lambda>(k, v). (jsonText k, jsonText v)) (RSet r)\<rparr>"

definition putRules :: "Rule list \<Rightarrow> Rule list option" where
  "putRules snapshot = Some (map jsonRule snapshot)"

text \<open>
  The calls as one step, with a store configured and when no other call comes between the lock and the write: \<open>put\<close> is the store's answer. The result is the
  error or the rule, the engine, and what the store then holds.
\<close>

definition Upsert :: "regex \<Rightarrow> string option \<Rightarrow> Rule \<Rightarrow> Engine \<times> Rule list option \<Rightarrow> (pipeErr + Rule) \<times> Engine \<times> Rule list option" where
  "Upsert re put r es =
     (case upsertRules re r (fst es) of
        Inl err \<Rightarrow> (Inl err, es)
      | Inr (r, snapshot, e) \<Rightarrow>
          (case put of Some err \<Rightarrow> (Inl (PStore err), e, snd es) | None \<Rightarrow> (Inr r, e, putRules snapshot)))"

definition DeleteRule :: "string option \<Rightarrow> string \<Rightarrow> Engine \<times> Rule list option \<Rightarrow> string option \<times> Engine \<times> Rule list option" where
  "DeleteRule put rid es =
     (let (next, e) = deleteRules rid (fst es) in
      case put of Some err \<Rightarrow> (Some err, e, snd es) | None \<Rightarrow> (None, e, putRules next))"

section \<open>Records and conditions\<close>

fun lookupAttr :: "string list \<Rightarrow> string list \<Rightarrow> string \<Rightarrow> string" where
  "lookupAttr (k # ks) (v # vs) want = (if k = want then v else lookupAttr ks vs want)"
| "lookupAttr _ _ want = []"

definition matchOp :: "regex \<Rightarrow> pipeOp \<Rightarrow> string \<Rightarrow> string \<Rightarrow> bool" where
  "matchOp re op got want =
     (case op of
        OpEq \<Rightarrow> got = want
      | OpNeq \<Rightarrow> got \<noteq> want
      | OpContains \<Rightarrow> Contains got want
      | OpStartsWith \<Rightarrow> HasPrefix got want
      | OpEndsWith \<Rightarrow> HasSuffix got want
      | OpMatches \<Rightarrow> (case re want of None \<Rightarrow> False | Some m \<Rightarrow> m got)
      | OpOther _ \<Rightarrow> False)"

text \<open>The default branch of the three matchers.\<close>

definition attrField :: "string \<Rightarrow> 'a carrier_scheme \<Rightarrow> string" where
  "attrField k x =
     (if HasPrefix k ''attr.'' then lookupAttr (attrKeys x) (attrValues x) (TrimPrefix k ''attr.'')
      else if HasPrefix k ''resource.'' then lookupAttr (resKeys x) (resValues x) (TrimPrefix k ''resource.'')
      else lookupAttr (attrKeys x) (attrValues x) k)"

definition spanField :: "string \<Rightarrow> SpanRec \<Rightarrow> string" where
  "spanField k x =
     (if k = ''service.name'' then spService x
      else if k = ''name'' then spName x
      else if k = ''kind'' then spKind x
      else if k = ''status_code'' then spStatus x
      else if k = ''http.route'' then spRoute x
      else attrField k x)"

definition logField :: "string \<Rightarrow> LogRec \<Rightarrow> string" where
  "logField k x =
     (if k = ''service.name'' then lgService x
      else if k = ''severity_text'' then lgSeverityText x
      else if k = ''severity_number'' then itoa (uint (lgSeverityNum x))
      else if k = ''body'' then lgBody x
      else if k = ''host.name'' then lgHost x
      else if k = ''trace_id'' then lgTraceID x
      else if k = ''span_id'' then lgSpanID x
      else if k = ''scope.name'' then lgScope x
      else attrField k x)"

definition isMetricNameKey :: "string \<Rightarrow> bool" where
  "isMetricNameKey k \<longleftrightarrow> k = ''metric'' \<or> k = ''name'' \<or> k = ''metric.name''"

definition metricField :: "string \<Rightarrow> MetricRec \<Rightarrow> string" where
  "metricField k x =
     (if k \<in> {''metric'', ''name'', ''metric.name''} then mtMetric x
      else if k \<in> {''instrument'', ''type''} then mtInstrument x
      else if k = ''unit'' then mtUnit x
      else if k = ''service.name'' then mtService x
      else if k = ''host.name'' then mtHost x
      else attrField k x)"

definition matchSpan :: "regex \<Rightarrow> Condition \<Rightarrow> SpanRec \<Rightarrow> bool" where
  "matchSpan re c x = matchOp re (COp c) (spanField (CKey c) x) (CValue c)"

definition matchLog :: "regex \<Rightarrow> Condition \<Rightarrow> LogRec \<Rightarrow> bool" where
  "matchLog re c x = matchOp re (COp c) (logField (CKey c) x) (CValue c)"

definition matchMetric :: "regex \<Rightarrow> Condition \<Rightarrow> MetricRec \<Rightarrow> bool" where
  "matchMetric re c x = matchOp re (COp c) (metricField (CKey c) x) (CValue c)"

definition matchAll :: "Condition list \<Rightarrow> (Condition \<Rightarrow> bool) \<Rightarrow> bool" where
  "matchAll cs ok = list_all ok cs"

section \<open>Enrichment\<close>

fun setAttr :: "string \<times> string \<Rightarrow> string list \<times> string list \<Rightarrow> string list \<times> string list" where
  "setAttr (k, v) (ks, vs) =
     (case find (\<lambda>i. ks ! i = k) [0..<length ks] of
        Some i \<Rightarrow> (ks, if i < length vs then vs[i := v] else vs)
      | None \<Rightarrow> (ks @ [k], vs @ [v]))"

definition applyEnrichAttrs :: "(string \<times> string) list \<Rightarrow> string list \<times> string list \<Rightarrow> string list \<times> string list" where
  "applyEnrichAttrs sets kvs = fold setAttr sets kvs"

definition applyEnrich :: "(string \<times> string) list \<Rightarrow> 'a carrier_scheme \<Rightarrow> 'a carrier_scheme" where
  "applyEnrich sets x =
     (let (ks, vs) = applyEnrichAttrs sets (resKeys x, resValues x) in x\<lparr>resKeys := ks, resValues := vs\<rparr>)"

section \<open>The accept path\<close>

definition applies :: "(Condition \<Rightarrow> 'r \<Rightarrow> bool) \<Rightarrow> Signal \<Rightarrow> Rule \<Rightarrow> 'r \<Rightarrow> bool" where
  "applies m sg r x \<longleftrightarrow> REnabled r \<and> RSignal r = sg \<and> m (RWhen r) x \<and> matchAll (RAnd r) (\<lambda>c. m c x)"

text \<open>The loop that the three hot paths share, with the record as the enrichments left it.\<close>

fun acceptLoop :: "(Condition \<Rightarrow> 'r \<Rightarrow> bool) \<Rightarrow> ((string \<times> string) list \<Rightarrow> 'r \<Rightarrow> 'r) \<Rightarrow> Signal \<Rightarrow> (nat \<Rightarrow> rat) \<Rightarrow> nat \<Rightarrow> Rule list \<Rightarrow> 'r \<Rightarrow> bool \<times> 'r" where
  "acceptLoop m en sg dice i [] x = (True, x)"
| "acceptLoop m en sg dice i (r # rs) x =
     (if \<not> applies m sg r x then acceptLoop m en sg dice (i + 1) rs x
      else case RKind r of
        KindDrop \<Rightarrow> (False, x)
      | KindSample \<Rightarrow> if RRate r \<le> 0 \<or> dice i \<ge> RRate r then (False, x) else acceptLoop m en sg dice (i + 1) rs x
      | KindEnrich \<Rightarrow> acceptLoop m en sg dice (i + 1) rs (en (RSet r) x)
      | KindOther _ \<Rightarrow> acceptLoop m en sg dice (i + 1) rs x)"

definition AcceptSpan :: "regex \<Rightarrow> (nat \<Rightarrow> rat) \<Rightarrow> Engine \<Rightarrow> SpanRec \<Rightarrow> bool \<times> SpanRec" where
  "AcceptSpan re dice e x = acceptLoop (matchSpan re) applyEnrich SignalSpans dice 0 (rules e) x"

definition AcceptLog :: "regex \<Rightarrow> (nat \<Rightarrow> rat) \<Rightarrow> Engine \<Rightarrow> LogRec \<Rightarrow> bool \<times> LogRec" where
  "AcceptLog re dice e x = acceptLoop (matchLog re) applyEnrich SignalLogs dice 0 (rules e) x"

definition AcceptMetric :: "regex \<Rightarrow> (nat \<Rightarrow> rat) \<Rightarrow> Engine \<Rightarrow> MetricRec \<Rightarrow> bool \<times> MetricRec" where
  "AcceptMetric re dice e x = acceptLoop (matchMetric re) applyEnrich SignalMetrics dice 0 (rules e) x"

definition HasMetricDropRules :: "Engine \<Rightarrow> bool" where
  "HasMetricDropRules e = list_ex (\<lambda>r. REnabled r \<and> RSignal r = SignalMetrics \<and> RKind r = KindDrop) (rules e)"

definition DropsMetric :: "regex \<Rightarrow> Engine \<Rightarrow> MetricRec \<Rightarrow> bool" where
  "DropsMetric re e x = list_ex (\<lambda>r. RKind r = KindDrop \<and> applies (matchMetric re) SignalMetrics r x) (rules e)"

section \<open>Hiding dropped names\<close>

definition nameOnlyRules :: "Engine \<Rightarrow> Condition list list" where
  "nameOnlyRules e =
     map (\<lambda>r. RWhen r # RAnd r)
       (filter (\<lambda>r. REnabled r \<and> RSignal r = SignalMetrics \<and> RKind r = KindDrop \<and>
          list_all (\<lambda>c. isMetricNameKey (CKey c)) (RWhen r # RAnd r)) (rules e))"

definition opString :: "pipeOp \<Rightarrow> string" where
  "opString op =
     (case op of
        OpEq \<Rightarrow> ''=''
      | OpNeq \<Rightarrow> ''!=''
      | OpContains \<Rightarrow> ''contains''
      | OpStartsWith \<Rightarrow> ''startsWith''
      | OpEndsWith \<Rightarrow> ''endsWith''
      | OpMatches \<Rightarrow> ''=~''
      | OpOther s \<Rightarrow> s)"

definition canonConds :: "Condition list \<Rightarrow> string" where
  "canonConds cs =
     Join (sort (map (\<lambda>c. CKey c @ [char_of (31 :: nat)] @ opString (COp c) @ [char_of (31 :: nat)] @ CValue c) cs)) [char_of (30 :: nat)]"

definition fnv64a :: "string \<Rightarrow> 64 word" where
  "fnv64a s = foldl (\<lambda>h c. (Bit_Operations.xor h (word_of_nat (byte c))) * 1099511628211) 14695981039346656037 s"

definition dropperDigest :: "Condition list list \<Rightarrow> string" where
  "dropperDigest css = hexNat (unat (fnv64a (concat (map (\<lambda>c. c @ [char_of (0 :: nat)]) (sort (map canonConds css))))))"

text \<open>The predicate and the cache-key digest of \<open>MetricNameDropper\<close>; \<open>None\<close> is Go's nil function.\<close>

definition MetricNameDropper :: "regex \<Rightarrow> Engine \<Rightarrow> (string \<Rightarrow> bool) option \<times> string" where
  "MetricNameDropper re e =
     (if nameOnlyRules e = [] then (None, [])
      else (Some (\<lambda>name. list_ex (list_all (\<lambda>c. matchOp re (COp c) name (CValue c))) (nameOnlyRules e)),
            dropperDigest (nameOnlyRules e)))"

section \<open>The sort\<close>

definition descending :: "Rule list \<Rightarrow> bool" where
  "descending rs \<longleftrightarrow> sorted_wrt (\<lambda>q r. RName r \<le> RName q) rs"

lemma mset_sink: "mset (sink r qs) = add_mset r (mset qs)"
  by (induction qs) auto

lemma sink_descending: "descending qs \<Longrightarrow> descending (sink r qs)"
proof (induction qs)
  case (Cons q qs)
  have "set (sink r qs) = insert r (set qs)" using mset_sink [of r qs] by (metis set_mset_add_mset_insert set_mset_mset)
  with Cons show ?case by (auto simp: descending_def)
qed (simp add: descending_def)

lemma sink_same: "descending qs \<Longrightarrow> filter (\<lambda>x. RName x = k) (sink r qs) = (if RName r = k then r # filter (\<lambda>x. RName x = k) qs else filter (\<lambda>x. RName x = k) qs)"
proof (induction qs)
  case (Cons q qs)
  then show ?case by (auto simp: descending_def)
qed simp

lemma fold_sink:
  assumes "descending acc"
  shows "descending (fold sink rs acc)" "mset (fold sink rs acc) = mset rs + mset acc"
    "filter (\<lambda>x. RName x = k) (fold sink rs acc) = rev (filter (\<lambda>x. RName x = k) rs) @ filter (\<lambda>x. RName x = k) acc"
  using assms
proof (induction rs arbitrary: acc)
  case (Cons r rs)
  {
    case 1
    then show ?case using Cons.IH(1) sink_descending by simp
  next
    case 2
    then show ?case using Cons.IH(2) [OF sink_descending] by (simp add: mset_sink)
  next
    case 3
    then show ?case using Cons.IH(3) [OF sink_descending] by (simp add: sink_same)
  }
qed simp_all

lemma normalise_sort: "normalise rs = sort_key RName rs"
proof -
  have d: "descending []" by (simp add: descending_def)
  have "sorted (map RName (normalise rs))"
    using fold_sink(1) [OF d, of rs] by (simp add: normalise_def descending_def sorted_wrt_map sorted_wrt_rev)
  moreover have "mset (normalise rs) = mset rs" using fold_sink(2) [OF d, of rs] by (simp add: normalise_def)
  moreover have "filter (\<lambda>x. RName k = RName x) (normalise rs) = filter (\<lambda>x. RName k = RName x) rs" for k
    using fold_sink(3) [OF d, of "RName k" rs] by (simp add: normalise_def flip: rev_filter) (simp only: eq_commute [of "RName k"] rev_rev_ident)
  ultimately show ?thesis by (intro properties_for_sort_key [symmetric]) simp_all
qed

lemma normalise_sorted: "sorted (map RName rs) \<Longrightarrow> normalise rs = rs"
  by (simp add: normalise_sort sorted_sort_id sort_key_stable)
    (metis properties_for_sort_key)

section \<open>The catalogue\<close>

definition ruleOK :: "regex \<Rightarrow> Rule \<Rightarrow> bool" where
  "ruleOK re r \<longleftrightarrow>
     RID r \<noteq> [] \<and> RName r \<noteq> [] \<and> RKind r \<in> {KindDrop, KindEnrich, KindSample} \<and>
     RSignal r \<in> {SignalSpans, SignalLogs, SignalMetrics} \<and>
     (if RKind r = KindSample then 0 \<le> RRate r \<and> RRate r \<le> 1 else True) \<and>
     (if RKind r = KindEnrich then RSet r \<noteq> [] else True) \<and>
     list_all (\<lambda>c. CKey c \<noteq> [] \<and> validateCondition re c = None) (RWhen r # RAnd r)"

definition catalogue :: "regex \<Rightarrow> Engine \<Rightarrow> bool" where
  "catalogue re e \<longleftrightarrow> distinct (map RID (rules e)) \<and> sorted (map RName (rules e)) \<and> list_all (ruleOK re) (rules e)"

lemma checkAnd_None: "checkAnd re i cs = None \<longleftrightarrow> list_all (\<lambda>c. CKey c \<noteq> [] \<and> validateCondition re c = None) (map trimCond cs)"
  by (induction cs arbitrary: i) (auto split: option.splits)

lemma canon_ok: "checkRule re r = None \<Longrightarrow> ruleOK re (canonRule r)"
  by (auto simp: checkRule_def ruleOK_def canonRule_def checkAnd_None Let_def split: if_splits option.splits)

lemma replaceFirst_ids: "set (map RID (replaceFirst r rs)) = insert (RID r) (set (map RID rs))"
  by (induction rs) auto

lemma replaceFirst_distinct: "distinct (map RID rs) \<Longrightarrow> distinct (map RID (replaceFirst r rs))"
proof (induction rs)
  case (Cons q qs)
  then show ?case using replaceFirst_ids [of r qs] by auto
qed simp

lemma replaceFirst_set: "set (replaceFirst r rs) \<subseteq> insert r (set rs)"
  by (induction rs) auto

lemma replaceFirst_mset:
  "distinct (map RID rs) \<Longrightarrow> mset (replaceFirst r rs) = add_mset r (mset (filter (\<lambda>q. RID q \<noteq> RID r) rs))"
proof (induction rs)
  case (Cons q qs)
  have "filter (\<lambda>x. RID x \<noteq> RID r) qs = qs" if "RID q = RID r"
    using Cons.prems that by (simp add: filter_id_conv) (metis image_eqI)
  with Cons show ?case by auto
qed simp

lemma catalogue_normalise:
  assumes "distinct (map RID rs)" and "list_all (ruleOK re) rs"
  shows "catalogue re (e\<lparr>rules := normalise rs\<rparr>)"
proof -
  have "mset (map RID (sort_key RName rs)) = mset (map RID rs)" by simp
  then have "distinct (map RID (sort_key RName rs))" using assms(1) by (metis mset_eq_imp_distinct_iff)
  with assms show ?thesis by (simp add: catalogue_def normalise_sort list_all_iff)
qed

text \<open>What an edit takes as its snapshot, and leaves in memory.\<close>

definition snapshotOK :: "regex \<Rightarrow> Rule list \<Rightarrow> bool" where
  "snapshotOK re rs \<longleftrightarrow> distinct (map RID rs) \<and> list_all (\<lambda>r. ruleOK re r \<and> jsonRule r = r) rs"

lemma snapshotOK_normalise: "snapshotOK re (normalise rs) \<longleftrightarrow> snapshotOK re rs"
proof -
  have "mset (map RID (sort_key RName rs)) = mset (map RID rs)" by simp
  then have "distinct (map RID (sort_key RName rs)) = distinct (map RID rs)" by (metis mset_eq_imp_distinct_iff)
  then show ?thesis by (simp add: snapshotOK_def normalise_sort list_all_iff)
qed

lemma snapshotOK_catalogue: "snapshotOK re rs \<Longrightarrow> catalogue re (e\<lparr>rules := normalise rs\<rparr>)"
  by (rule catalogue_normalise) (auto simp: snapshotOK_def list_all_iff)

lemma upsertRules_snapshot:
  assumes "snapshotOK re (rules e)" "jsonRule (canonRule r) = canonRule r" "upsertRules re r e = Inr (r', sn, e')"
  shows "snapshotOK re sn \<and> rules e' = normalise sn"
proof -
  have c: "checkRule re r = None" and sn: "sn = replaceFirst (canonRule r) (rules e)" "rules e' = normalise sn"
    using assms(3) by (auto simp: upsertRules_def Let_def split: option.splits)
  have "list_all (\<lambda>r. ruleOK re r \<and> jsonRule r = r) sn"
    using assms(1,2) canon_ok [OF c] replaceFirst_set [of "canonRule r" "rules e"] by (auto simp: sn(1) snapshotOK_def list_all_iff)
  then show ?thesis using assms(1) sn by (simp add: snapshotOK_def replaceFirst_distinct)
qed

lemma deleteRules_snapshot:
  assumes "snapshotOK re (rules e)" "sorted (map RName (rules e))" "deleteRules rid e = (sn, e')"
  shows "snapshotOK re sn \<and> rules e' = normalise sn"
proof -
  have sn: "sn = filter (\<lambda>r. RID r \<noteq> rid) (rules e)" "rules e' = sn" using assms(3) by (auto simp: deleteRules_def Let_def)
  have "sorted (map RName sn)" using assms(2) by (simp add: sn(1) sorted_filter)
  then show ?thesis using assms(1) sn by (auto simp: snapshotOK_def list_all_iff distinct_map_filter normalise_sorted)
qed

section \<open>Enrichment\<close>

lemma find_index_Some:
  assumes "find (\<lambda>i. ks ! i = k) [0..<length ks] = Some i"
  shows "i < length ks \<and> ks ! i = k \<and> k \<notin> set (take i ks)"
proof -
  from assms obtain j where j: "j < length ks" "ks ! j = k" "i = j" "\<forall>l<j. ks ! l \<noteq> k"
    by (auto simp: find_Some_iff)
  then show ?thesis by (auto simp: in_set_conv_nth)
qed

lemma find_index_None: "find (\<lambda>i. ks ! i = k) [0..<length ks] = None \<longleftrightarrow> k \<notin> set ks"
  by (auto simp: find_None_iff in_set_conv_nth)

lemma lookup_update:
  "length ks = length vs \<Longrightarrow> i < length ks \<Longrightarrow> ks ! i = k \<Longrightarrow> k \<notin> set (take i ks) \<Longrightarrow>
     lookupAttr ks (vs[i := v]) want = (if want = k then v else lookupAttr ks vs want)"
  by (induction ks vs want arbitrary: i rule: lookupAttr.induct) (auto simp: nth_Cons split: nat.splits if_splits)

lemma lookup_append:
  "length ks = length vs \<Longrightarrow> k \<notin> set ks \<Longrightarrow> lookupAttr (ks @ [k]) (vs @ [v]) want = (if want = k then v else lookupAttr ks vs want)"
  by (induction ks vs want rule: lookupAttr.induct) auto

lemma setAttr_lookup:
  assumes "length ks = length vs" and "setAttr (k, v) (ks, vs) = (ks', vs')"
  shows "length ks' = length vs' \<and> lookupAttr ks' vs' want = (if want = k then v else lookupAttr ks vs want)"
proof (cases "find (\<lambda>i. ks ! i = k) [0..<length ks]")
  case None
  then have "k \<notin> set ks" by (simp add: find_index_None)
  with None assms lookup_append [OF assms(1), of k] show ?thesis by auto
next
  case (Some i)
  from find_index_Some [OF this] Some assms lookup_update [OF assms(1)] show ?thesis by auto
qed

lemma enrich_lookup:
  assumes "length ks = length vs" and "distinct (map fst sets)" and "applyEnrichAttrs sets (ks, vs) = (ks', vs')"
  shows "length ks' = length vs' \<and>
    lookupAttr ks' vs' want = (case map_of sets want of Some v \<Rightarrow> v | None \<Rightarrow> lookupAttr ks vs want)"
  using assms
proof (induction sets arbitrary: ks vs)
  case (Cons kv sets)
  obtain k v where kv: "kv = (k, v)" by (cases kv)
  obtain ks1 vs1 where s: "setAttr (k, v) (ks, vs) = (ks1, vs1)" by (cases "setAttr (k, v) (ks, vs)")
  note a = setAttr_lookup [OF Cons.prems(1) s]
  have "applyEnrichAttrs sets (ks1, vs1) = (ks', vs')" using Cons.prems(3) s by (simp add: applyEnrichAttrs_def kv)
  from Cons.IH [OF _ _ this] a Cons.prems(2) show ?case
    by (force simp: kv split: option.splits dest: map_of_SomeD)
qed (simp add: applyEnrichAttrs_def)

lemma applyEnrich_fields:
  "attrKeys (applyEnrich sets x) = attrKeys x" "attrValues (applyEnrich sets x) = attrValues x"
  by (simp_all add: applyEnrich_def split: prod.splits)

lemma applyEnrich_more: "carrier.more (applyEnrich sets x) = carrier.more x"
  by (simp add: applyEnrich_def split: prod.splits)

definition balanced :: "'a carrier_scheme \<Rightarrow> bool" where
  "balanced x \<longleftrightarrow> length (resKeys x) = length (resValues x)"

definition untouched :: "(string \<times> string) list \<Rightarrow> Condition \<Rightarrow> bool" where
  "untouched sets c \<longleftrightarrow> list_all (\<lambda>kv. CKey c \<noteq> ''resource.'' @ fst kv) sets"

lemma applyEnrich_res:
  assumes "balanced x" and "distinct (map fst sets)"
  shows "balanced (applyEnrich sets x)"
    and "lookupAttr (resKeys (applyEnrich sets x)) (resValues (applyEnrich sets x)) want =
      (case map_of sets want of Some v \<Rightarrow> v | None \<Rightarrow> lookupAttr (resKeys x) (resValues x) want)"
proof -
  obtain ks vs where kv: "applyEnrichAttrs sets (resKeys x, resValues x) = (ks, vs)" by fastforce
  note l = enrich_lookup [OF assms(1) [unfolded balanced_def] assms(2) kv]
  show "balanced (applyEnrich sets x)" using l by (simp add: applyEnrich_def kv balanced_def)
  show "lookupAttr (resKeys (applyEnrich sets x)) (resValues (applyEnrich sets x)) want =
      (case map_of sets want of Some v \<Rightarrow> v | None \<Rightarrow> lookupAttr (resKeys x) (resValues x) want)"
    using l by (simp add: applyEnrich_def kv)
qed

lemma HasPrefix_split: "HasPrefix s p \<Longrightarrow> s = p @ TrimPrefix s p"
  by (simp add: HasPrefix_def TrimPrefix_def) (metis append_take_drop_id)

lemma attrField_enrich:
  assumes "balanced x" and "distinct (map fst sets)" and "untouched sets c"
  shows "attrField (CKey c) (applyEnrich sets x) = attrField (CKey c) x"
proof (cases "HasPrefix (CKey c) ''resource.''")
  case True
  from assms(3) HasPrefix_split [OF True] have "TrimPrefix (CKey c) ''resource.'' \<notin> fst ` set sets"
    by (auto simp: untouched_def list_all_iff)
  then have "map_of sets (TrimPrefix (CKey c) ''resource.'') = None" by (simp add: map_of_eq_None_iff)
  then show ?thesis using assms(1,2) by (simp add: attrField_def applyEnrich_fields applyEnrich_res)
qed (simp add: attrField_def applyEnrich_fields)

section \<open>The drop verdict\<close>

text \<open>
  What the accept loop needs from a matcher: enrichment changes a condition's outcome only through the
  resource key the condition names.
\<close>

locale carrier_match =
  fixes m :: "Condition \<Rightarrow> 'a carrier_scheme \<Rightarrow> bool"
  assumes match_enrich: "\<lbrakk>balanced x; distinct (map fst sets); untouched sets c\<rbrakk> \<Longrightarrow> m c (applyEnrich sets x) = m c x"
begin

definition isolated :: "Signal \<Rightarrow> Rule list \<Rightarrow> Rule list \<Rightarrow> bool" where
  "isolated sg es rs \<longleftrightarrow>
     (\<forall>e\<in>set es. REnabled e \<and> RSignal e = sg \<and> RKind e = KindEnrich \<longrightarrow>
        distinct (map fst (RSet e)) \<and>
        (\<forall>r\<in>set rs. REnabled r \<and> RSignal r = sg \<and> RKind r = KindDrop \<longrightarrow> list_all (untouched (RSet e)) (RWhen r # RAnd r)))"

definition dropped :: "Signal \<Rightarrow> Rule list \<Rightarrow> 'a carrier_scheme \<Rightarrow> bool" where
  "dropped sg rs x \<longleftrightarrow> list_ex (\<lambda>r. RKind r = KindDrop \<and> applies m sg r x) rs"

lemma applies_enrich:
  assumes "balanced x" and "distinct (map fst sets)" and "list_all (untouched sets) (RWhen r # RAnd r)"
  shows "applies m sg r (applyEnrich sets x) = applies m sg r x"
  using assms by (auto simp: applies_def matchAll_def list_all_iff match_enrich)

lemma dropped_enrich:
  assumes "balanced x" and "isolated sg (e # es) rs" and "REnabled e" "RSignal e = sg" "RKind e = KindEnrich"
  shows "dropped sg rs (applyEnrich (RSet e) x) = dropped sg rs x"
proof -
  have "(RKind r = KindDrop \<and> applies m sg r (applyEnrich (RSet e) x)) = (RKind r = KindDrop \<and> applies m sg r x)"
    if "r \<in> set rs" for r
    using assms that applies_enrich [OF assms(1), of "RSet e" r sg]
    by (cases "REnabled r \<and> RSignal r = sg \<and> RKind r = KindDrop") (auto simp: isolated_def applies_def)
  then show ?thesis by (auto simp: dropped_def list_ex_iff)
qed

lemma isolated_tl: "isolated sg (e # es) (r # rs) \<Longrightarrow> isolated sg es rs"
  by (auto simp: isolated_def)

lemma isolated_rs: "isolated sg es (r # rs) \<Longrightarrow> isolated sg es rs"
  by (auto simp: isolated_def)

lemma acceptLoop_dropped:
  assumes "balanced x" and "isolated sg rs rs" and "dropped sg rs x"
  shows "\<not> fst (acceptLoop m applyEnrich sg dice i rs x)"
  using assms
proof (induction rs arbitrary: x i)
  case (Cons r rs)
  have iso: "isolated sg rs rs" using Cons.prems(2) isolated_tl by blast
  show ?case
  proof (cases "applies m sg r x \<and> RKind r \<noteq> KindDrop")
    case True
    then have d: "dropped sg rs x" and a: "REnabled r" "RSignal r = sg" using Cons.prems(3) by (auto simp: dropped_def applies_def)
    note IH = Cons.IH [OF _ iso]
    show ?thesis
    proof (cases "RKind r = KindEnrich")
      case e: True
      have "dropped sg rs (applyEnrich (RSet r) x)"
        using dropped_enrich [OF Cons.prems(1) isolated_rs [OF Cons.prems(2)] a e] d by simp
      moreover have "balanced (applyEnrich (RSet r) x)"
        using Cons.prems(1,2) a e by (intro applyEnrich_res) (auto simp: isolated_def)
      ultimately show ?thesis using IH True e by simp
    qed (use IH [OF Cons.prems(1) d] True in \<open>auto split: RuleKind.splits\<close>)
  next
    case False
    with Cons.prems(3) have "applies m sg r x \<and> RKind r = KindDrop \<or> \<not> applies m sg r x \<and> dropped sg rs x" by (auto simp: dropped_def)
    then show ?thesis using Cons.IH [OF Cons.prems(1) iso] by auto
  qed
qed (simp add: dropped_def)

lemma acceptLoop_kept:
  assumes "balanced x" and "isolated sg rs rs" and "\<not> dropped sg rs x"
    and "\<And>j. j < length rs \<Longrightarrow> RKind (rs ! j) = KindSample \<Longrightarrow> 0 < RRate (rs ! j) \<and> dice (i + j) < RRate (rs ! j)"
  shows "fst (acceptLoop m applyEnrich sg dice i rs x)"
  using assms
proof (induction rs arbitrary: x i)
  case (Cons r rs)
  have iso: "isolated sg rs rs" using Cons.prems(2) isolated_tl by blast
  have sample: "RKind r = KindSample \<Longrightarrow> 0 < RRate r \<and> dice i < RRate r" using Cons.prems(4) [of 0] by simp
  have rest: "0 < RRate (rs ! j) \<and> dice ((i + 1) + j) < RRate (rs ! j)" if "j < length rs" "RKind (rs ! j) = KindSample" for j
    using Cons.prems(4) [of "Suc j"] that by simp
  note IH = Cons.IH [OF _ iso _ rest]
  have nd: "\<not> dropped sg rs x" using Cons.prems(3) by (simp add: dropped_def)
  show ?case
  proof (cases "applies m sg r x \<and> RKind r = KindEnrich")
    case True
    then have a: "REnabled r" "RSignal r = sg" "RKind r = KindEnrich" by (auto simp: applies_def)
    have "\<not> dropped sg rs (applyEnrich (RSet r) x)"
      using dropped_enrich [OF Cons.prems(1) isolated_rs [OF Cons.prems(2)] a] nd by simp
    moreover have "balanced (applyEnrich (RSet r) x)"
      using Cons.prems(1,2) a by (intro applyEnrich_res) (auto simp: isolated_def)
    ultimately show ?thesis using IH True by simp
  next
    case False
    with Cons.prems(3) IH [OF Cons.prems(1) nd] sample show ?thesis by (auto simp: dropped_def split: RuleKind.splits)
  qed
qed simp

lemma name_only_dropped:
  assumes "r \<in> set rs" and "RKind r = KindDrop" and "REnabled r" "RSignal r = sg"
    and "\<And>c y. c \<in> set (RWhen r # RAnd r) \<Longrightarrow> P y \<Longrightarrow> m c y" and "\<And>sets y. P y \<Longrightarrow> P (applyEnrich sets y)" and "P x"
  shows "\<not> fst (acceptLoop m applyEnrich sg dice i rs x)"
  using assms(1,7)
proof (induction rs arbitrary: x i)
  case (Cons q qs)
  show ?case
  proof (cases "q = r")
    case True
    have "applies m sg r x" using assms(3,4,5) Cons.prems(2) by (auto simp: applies_def matchAll_def list_all_iff)
    with True assms(2) show ?thesis by simp
  next
    case False
    with Cons.prems(1) have "r \<in> set qs" by simp
    with Cons.IH Cons.prems(2) assms(6) show ?thesis by (auto split: RuleKind.splits)
  qed
qed simp

end

interpretation span_match: carrier_match "matchSpan re :: Condition \<Rightarrow> SpanRec \<Rightarrow> bool" for re
proof
  fix x :: SpanRec and sets c
  assume "balanced x" "distinct (map fst sets)" "untouched sets c"
  from attrField_enrich [OF this] show "matchSpan re c (applyEnrich sets x) = matchSpan re c x"
    by (simp add: matchSpan_def spanField_def applyEnrich_def split: prod.splits)
qed

interpretation log_match: carrier_match "matchLog re :: Condition \<Rightarrow> LogRec \<Rightarrow> bool" for re
proof
  fix x :: LogRec and sets c
  assume "balanced x" "distinct (map fst sets)" "untouched sets c"
  from attrField_enrich [OF this] show "matchLog re c (applyEnrich sets x) = matchLog re c x"
    by (simp add: matchLog_def logField_def applyEnrich_def split: prod.splits)
qed

interpretation metric_match: carrier_match "matchMetric re :: Condition \<Rightarrow> MetricRec \<Rightarrow> bool" for re
proof
  fix x :: MetricRec and sets c
  assume "balanced x" "distinct (map fst sets)" "untouched sets c"
  from attrField_enrich [OF this] show "matchMetric re c (applyEnrich sets x) = matchMetric re c x"
    by (simp add: matchMetric_def metricField_def applyEnrich_def split: prod.splits)
qed

lemma HasMetricDropRules_off: "\<not> HasMetricDropRules e \<Longrightarrow> \<not> DropsMetric re e x"
  by (auto simp: HasMetricDropRules_def DropsMetric_def applies_def list_ex_iff)

definition enrichIsolated :: "Engine \<Rightarrow> bool" where
  "enrichIsolated e \<longleftrightarrow>
     list_all (\<lambda>q. REnabled q \<and> RSignal q = SignalMetrics \<and> RKind q = KindEnrich \<longrightarrow>
        distinct (map fst (RSet q)) \<and>
        list_all (\<lambda>r. REnabled r \<and> RSignal r = SignalMetrics \<and> RKind r = KindDrop \<longrightarrow> list_all (untouched (RSet q)) (RWhen r # RAnd r)) (rules e)) (rules e)"

text \<open>
  C31. The drop verdict and the accept path on one and the same record: when no enabled metrics enrich rule writes a resource key that a
  drop rule tests, a point that \<open>DropsMetric\<close> names is refused by \<open>AcceptMetric\<close> whatever the dice say, and a point it does not name
  is refused only by a sample rule: if every sample roll keeps, the two verdicts are complementary. (The forwarder builds its record from the
  wire by a conversion of its own; where that differs from the record that is stored, the verdicts differ, see \<open>Ingest\<close>.)
\<close>

theorem DropsMetric_agrees:
  assumes "balanced x" and "enrichIsolated e"
  shows "(DropsMetric re e x \<longrightarrow> \<not> fst (AcceptMetric re dice e x)) \<and>
    ((\<forall>j<length (rules e). RKind (rules e ! j) = KindSample \<longrightarrow> 0 < RRate (rules e ! j) \<and> dice j < RRate (rules e ! j)) \<longrightarrow>
      fst (AcceptMetric re dice e x) = (\<not> DropsMetric re e x))"
proof -
  have iso: "metric_match.isolated SignalMetrics (rules e) (rules e)"
    using assms(2) by (auto simp: enrichIsolated_def metric_match.isolated_def list_all_iff)
  have d: "DropsMetric re e x = metric_match.dropped re SignalMetrics (rules e) x"
    by (simp add: DropsMetric_def metric_match.dropped_def)
  have refused: "DropsMetric re e x \<Longrightarrow> \<not> fst (AcceptMetric re dice e x)"
    using metric_match.acceptLoop_dropped [OF assms(1) iso] by (simp add: AcceptMetric_def d)
  then show ?thesis
    using metric_match.acceptLoop_kept [OF assms(1) iso, of re dice 0] by (auto simp: AcceptMetric_def d)
qed

definition metricPoint :: "string \<Rightarrow> MetricRec" where
  "metricPoint n = \<lparr>attrKeys = [], attrValues = [], resKeys = [''team''], resValues = [''core''],
     mtMetric = n, mtInstrument = ''gauge'', mtDescription = [], mtUnit = [], mtService = ''cart'', mtHost = [], mtTime = 0, mtStart = 0,
     mtValue = 0, mtCount = 0, mtSum = 0, mtMin = 0, mtMax = 0, mtBounds = [], mtCounts = [], mtTemporality = [], mtFingerprint = 0, mtMonotonic = 1\<rparr>"

definition metricRule :: "string \<Rightarrow> RuleKind \<Rightarrow> Condition \<Rightarrow> (string \<times> string) list \<Rightarrow> Rule" where
  "metricRule n k c sets = \<lparr>RID = n, RName = n, RKind = k, RSignal = SignalMetrics, REnabled = True, RWhen = c, RAnd = [], RSet = sets, RRate = 1\<rparr>"

lemmas metric_eval = AcceptMetric_def DropsMetric_def metricPoint_def metricRule_def applies_def matchMetric_def metricField_def attrField_def
  matchOp_def matchAll_def applyEnrich_def applyEnrichAttrs_def HasPrefix_def TrimPrefix_def

theorem DropsMetric_agrees_witness:
  "\<not> fst (AcceptMetric (\<lambda>_. None) (\<lambda>_. 0)
       \<lparr>rules = [metricRule ''a'' KindEnrich \<lparr>CKey = ''unit'', COp = OpEq, CValue = []\<rparr> [(''zone'', ''eu'')],
                 metricRule ''b'' KindDrop \<lparr>CKey = ''resource.team'', COp = OpEq, CValue = ''core''\<rparr> []]\<rparr> (metricPoint ''up''))"
  by (rule DropsMetric_agrees [THEN conjunct1, rule_format])
    (simp_all add: balanced_def enrichIsolated_def untouched_def metric_eval)

text \<open>
  Without that condition they differ: an enrich rule that writes a key the drop rule tests makes the
  ClickHouse path refuse a point that the forwarder still sends on.
\<close>

theorem DropsMetric_misses_enriched:
  "let e = \<lparr>rules = [metricRule ''a'' KindEnrich \<lparr>CKey = ''unit'', COp = OpEq, CValue = []\<rparr> [(''zone'', ''eu'')],
                     metricRule ''b'' KindDrop \<lparr>CKey = ''resource.zone'', COp = OpEq, CValue = ''eu''\<rparr> []]\<rparr>
   in HasMetricDropRules e \<and> \<not> fst (AcceptMetric re dice e (metricPoint ''up'')) \<and> \<not> DropsMetric re e (metricPoint ''up'')"
  by (simp add: metric_eval HasMetricDropRules_def)

section \<open>Hidden names\<close>

lemma nameOnly_match: "isMetricNameKey (CKey c) \<Longrightarrow> matchMetric re c x = matchOp re (COp c) (mtMetric x) (CValue c)"
  by (auto simp: isMetricNameKey_def matchMetric_def metricField_def)

text \<open>
  The catalogue never hides a metric that still arrives: a name the predicate of
  \<open>MetricNameDropper\<close> hides has every point of that name refused at ingest, whatever its attributes, the
  enrichments and the dice.
\<close>

theorem MetricNameDropper_sound:
  assumes "MetricNameDropper re e = (Some hide, digest)" and "hide (mtMetric x)"
  shows "\<not> fst (AcceptMetric re dice e x)"
proof -
  from assms obtain r where r: "r \<in> set (rules e)" "REnabled r" "RSignal r = SignalMetrics" "RKind r = KindDrop"
    and names: "\<forall>c\<in>set (RWhen r # RAnd r). isMetricNameKey (CKey c)"
    and hit: "\<forall>c\<in>set (RWhen r # RAnd r). matchOp re (COp c) (mtMetric x) (CValue c)"
    by (auto simp: MetricNameDropper_def nameOnlyRules_def list_ex_iff list_all_iff split: if_splits)
  have "matchMetric re c y" if "c \<in> set (RWhen r # RAnd r)" "mtMetric y = mtMetric x" for c y
    using names hit that nameOnly_match [of c re y] by auto
  moreover have "mtMetric (applyEnrich sets y) = mtMetric y" for sets and y :: MetricRec
    by (simp add: applyEnrich_def split: prod.splits)
  ultimately show ?thesis unfolding AcceptMetric_def
    by (intro metric_match.name_only_dropped [OF r(1,4,2,3), of "\<lambda>y. mtMetric y = mtMetric x"]) simp_all
qed

theorem MetricNameDropper_sound_witness:
  "\<not> fst (AcceptMetric (\<lambda>_. None) (\<lambda>_. 0) \<lparr>rules = [metricRule ''a'' KindDrop \<lparr>CKey = ''name'', COp = OpStartsWith, CValue = ''go_''\<rparr> []]\<rparr> (metricPoint ''go_gc''))"
proof -
  let ?e = "\<lparr>rules = [metricRule ''a'' KindDrop \<lparr>CKey = ''name'', COp = OpStartsWith, CValue = ''go_''\<rparr> []]\<rparr>"
  show ?thesis
    by (rule MetricNameDropper_sound [of _ ?e "the (fst (MetricNameDropper (\<lambda>_. None) ?e))" "snd (MetricNameDropper (\<lambda>_. None) ?e)"])
      (simp_all add: MetricNameDropper_def nameOnlyRules_def isMetricNameKey_def metric_eval)
qed

text \<open>The digest does not depend on the order of the rules, nor on the order of a rule's conditions.\<close>

lemma sort_map_mset:
  fixes f :: "'a \<Rightarrow> string"
  assumes "mset xs = mset ys"
  shows "sort (map f xs) = sort (map f ys)"
proof -
  have "mset (map f xs) = mset (map f ys)" using assms by simp
  then show ?thesis by (metis sorted_list_of_multiset_mset)
qed

lemma canonConds_order: "mset cs = mset ds \<Longrightarrow> canonConds cs = canonConds ds"
  unfolding canonConds_def by (intro arg_cong [where f = "\<lambda>ps. Join ps _"] sort_map_mset)

lemma dropperDigest_order: "mset css = mset dss \<Longrightarrow> dropperDigest css = dropperDigest dss"
  unfolding dropperDigest_def by (drule sort_map_mset [of _ _ canonConds]) simp

section \<open>The catalogue across restarts\<close>

text \<open>
  Calls that run at the same time. An edit changes the rules under the lock and leaves a snapshot whose write is under way; the writes end in any
  order, each with or without success; the background refresh loads the stored rules into memory. Edits are numbered: \<open>csMem\<close> is the
  number of the edit that the memory shows, \<open>csLanded\<close> that of the edit whose snapshot is stored, and 0 stands for the empty catalogue.
\<close>

datatype pipeEdit = EUpsert Rule | EDelete string
datatype pipeAct = Edit pipeEdit | Land nat bool | Refresh

record catState =
  csEngine :: Engine
  csStore :: "Rule list option"
  csFlight :: "(nat \<times> Rule list) list"
  csEdits :: nat
  csLanded :: nat
  csMem :: nat

definition startState :: catState where
  "startState = \<lparr>csEngine = NewEngine, csStore = None, csFlight = [], csEdits = 0, csLanded = 0, csMem = 0\<rparr>"

fun editStep :: "regex \<Rightarrow> pipeEdit \<Rightarrow> Engine \<Rightarrow> (Rule list \<times> Engine) option" where
  "editStep re (EUpsert r) e = (case upsertRules re r e of Inl _ \<Rightarrow> None | Inr (_, sn, e') \<Rightarrow> Some (sn, e'))"
| "editStep re (EDelete rid) e = Some (deleteRules rid e)"

fun runAct :: "regex \<Rightarrow> pipeAct \<Rightarrow> catState \<Rightarrow> catState" where
  "runAct re (Edit ed) s =
     (case editStep re ed (csEngine s) of
        None \<Rightarrow> s
      | Some (sn, e) \<Rightarrow>
          s\<lparr>csEngine := e, csFlight := csFlight s @ [(csEdits s + 1, sn)], csEdits := csEdits s + 1, csMem := csEdits s + 1\<rparr>)"
| "runAct re (Land i ok) s =
     (if i < length (csFlight s)
      then (let (n, sn) = csFlight s ! i; s' = s\<lparr>csFlight := take i (csFlight s) @ drop (Suc i) (csFlight s)\<rparr> in
            if ok then s'\<lparr>csStore := putRules sn, csLanded := n\<rparr> else s')
      else s)"
| "runAct re Refresh s = s\<lparr>csEngine := snd (LoadPersisted (Inr (csStore s)) (csEngine s)), csMem := csLanded s\<rparr>"

text \<open>The texts of a rule are valid UTF-8, as they are when the rule came in as JSON.\<close>

fun cleanAct :: "pipeAct \<Rightarrow> bool" where
  "cleanAct (Edit (EUpsert r)) = (jsonRule (canonRule r) = canonRule r)"
| "cleanAct _ = True"

definition traced :: "regex \<Rightarrow> (nat \<Rightarrow> Rule list) \<Rightarrow> catState \<Rightarrow> bool" where
  "traced re H s \<longleftrightarrow>
     (\<forall>n. snapshotOK re (H n)) \<and> rules (csEngine s) = normalise (H (csMem s)) \<and> (case csStore s of None \<Rightarrow> [] | Some rs \<Rightarrow> rs) = H (csLanded s) \<and>
     (\<forall>(n, sn)\<in>set (csFlight s). sn = H n \<and> n \<le> csEdits s) \<and> csMem s \<le> csEdits s \<and> csLanded s \<le> csEdits s"

lemma traced_edit:
  assumes "traced re H s" "cleanAct (Edit ed)" "editStep re ed (csEngine s) = Some (sn, e)"
  shows "snapshotOK re sn \<and> rules e = normalise sn"
proof -
  have h: "snapshotOK re (H (csMem s))" "rules (csEngine s) = normalise (H (csMem s))" using assms(1) by (auto simp: traced_def)
  then have ok: "snapshotOK re (rules (csEngine s))" by (simp add: snapshotOK_normalise)
  have "sorted (map RName (rules (csEngine s)))" using h(2) by (simp add: normalise_sort)
  with assms(2,3) show ?thesis
    using upsertRules_snapshot [OF ok] deleteRules_snapshot [OF ok] by (cases ed) (auto split: sum.splits)
qed

lemma traced_step:
  assumes "traced re H s" "cleanAct a"
  shows "\<exists>H. traced re H (runAct re a s)"
proof (cases a)
  case (Edit ed)
  show ?thesis
  proof (cases "editStep re ed (csEngine s)")
    case (Some p)
    obtain sn e where p: "p = (sn, e)" by fastforce
    have "snapshotOK re sn \<and> rules e = normalise sn" using traced_edit [OF assms(1)] assms(2) Edit Some p by blast
    then have "traced re (H(csEdits s + 1 := sn)) (runAct re a s)" using assms(1) Edit Some p by (auto simp: traced_def)
    then show ?thesis by blast
  qed (use Edit assms in auto)
next
  case (Land i ok)
  show ?thesis
  proof (cases "i < length (csFlight s)")
    case True
    obtain n sn where nth: "csFlight s ! i = (n, sn)" by fastforce
    have mem: "(n, sn) \<in> set (csFlight s)" using True nth by (metis nth_mem)
    have sub: "set (take i (csFlight s) @ drop (Suc i) (csFlight s)) \<subseteq> set (csFlight s)" using set_take_subset set_drop_subset by fastforce
    have "map jsonRule sn = sn" "sn = H n" "n \<le> csEdits s"
      using assms(1) mem by (force simp: traced_def snapshotOK_def list_all_iff map_idI)+
    then have "traced re H (runAct re a s)" using assms(1) Land True nth sub by (auto simp: traced_def putRules_def Let_def)
    then show ?thesis by blast
  qed (use Land assms in auto)
next
  case Refresh
  then have "traced re H (runAct re a s)" using assms(1) by (auto simp: traced_def LoadPersisted_def split: option.splits)
  then show ?thesis by blast
qed

lemma traced_run: "traced re H s \<Longrightarrow> list_all cleanAct acts \<Longrightarrow> \<exists>H. traced re H (fold (runAct re) acts s)"
  by (induction acts arbitrary: s H) (auto dest: traced_step)

text \<open>
  C39. The catalogue through any interleaving of edits, of the ends of their writes (in any order, successful or not) and of refreshes, from the
  empty engine and for rules of valid UTF-8: rule identifiers stay unique, the rules stay sorted by name and each rule is a valid one (a known kind
  and signal, a rate in range, attributes to set, keys, patterns that compile); and whenever the write that landed last is the one of the edit that
  the memory shows, hydrating a fresh engine from the stored blob gives exactly the rules in memory. When edits come one after the other and every
  write succeeds this is the case after each (\<open>serial_current\<close>); two edits at once may leave another state (\<open>late_write_wins\<close>).
\<close>

theorem catalogue_restart:
  assumes "list_all cleanAct acts" "fold (runAct re) acts startState = s"
  shows "catalogue re (csEngine s) \<and> (csLanded s = csMem s \<longrightarrow> LoadPersisted (Inr (csStore s)) NewEngine = (None, csEngine s))"
proof -
  have "traced re (\<lambda>_. []) startState" by (simp add: traced_def startState_def NewEngine_def snapshotOK_def normalise_def)
  from traced_run [OF this assms(1)] obtain H where t: "traced re H s" using assms(2) by blast
  then have e: "csEngine s = NewEngine\<lparr>rules := normalise (H (csMem s))\<rparr>" by (cases "csEngine s") (simp add: traced_def NewEngine_def)
  have "catalogue re (csEngine s)" unfolding e using t by (intro snapshotOK_catalogue) (simp add: traced_def)
  moreover have "LoadPersisted (Inr (csStore s)) NewEngine = (None, csEngine s)" if "csLanded s = csMem s"
    using t e that by (auto simp: traced_def LoadPersisted_def split: option.splits)
  ultimately show ?thesis by blast
qed

text \<open>One call alone is an edit and the end of its write.\<close>

lemma Upsert_steps:
  assumes "csFlight s = []" "Upsert re put r (csEngine s, csStore s) = (res, e, st)"
  shows "let s' = fold (runAct re) [Edit (EUpsert r), Land 0 (put = None)] s in csEngine s' = e \<and> csStore s' = st \<and> csFlight s' = []"
  using assms by (auto simp: Upsert_def Let_def split: sum.splits option.splits)

lemma Delete_steps:
  assumes "csFlight s = []" "DeleteRule put rid (csEngine s, csStore s) = (res, e, st)"
  shows "let s' = fold (runAct re) [Edit (EDelete rid), Land 0 (put = None)] s in csEngine s' = e \<and> csStore s' = st \<and> csFlight s' = []"
  using assms by (auto simp: DeleteRule_def Let_def split: prod.splits option.splits)

lemma serial_current:
  assumes "csFlight s = []" "csLanded s = csMem s"
  shows "let s' = fold (runAct re) (concat (map (\<lambda>ed. [Edit ed, Land 0 True]) eds)) s in csFlight s' = [] \<and> csLanded s' = csMem s'"
  using assms
proof (induction eds arbitrary: s)
  case (Cons ed eds)
  let ?s = "runAct re (Land 0 True) (runAct re (Edit ed) s)"
  have "csFlight ?s = [] \<and> csLanded ?s = csMem ?s" using Cons.prems by (auto split: option.splits)
  then show ?case using Cons.IH [of ?s] by simp
qed simp

definition dropUnit :: Rule where "dropUnit = metricRule ''b'' KindDrop \<lparr>CKey = '' unit '', COp = OpEq, CValue = ''s''\<rparr> []"
definition tagZone :: Rule where "tagZone = metricRule ''a'' KindEnrich \<lparr>CKey = ''unit'', COp = OpEq, CValue = ''s''\<rparr> [(''zone'', ''eu'')]"

theorem catalogue_restart_witness:
  "let s = fold (runAct (\<lambda>_. None)) [Edit (EUpsert dropUnit), Edit (EUpsert tagZone), Land 0 False, Refresh, Land 0 True, Refresh] startState in
   map RName (rules (csEngine s)) = [''a'', ''b''] \<and> catalogue (\<lambda>_. None) (csEngine s) \<and> LoadPersisted (Inr (csStore s)) NewEngine = (None, csEngine s)"
proof -
  let ?acts = "[Edit (EUpsert dropUnit), Edit (EUpsert tagZone), Land 0 False, Refresh, Land 0 True, Refresh]"
  have clean: "list_all cleanAct ?acts" by code_simp
  have "csLanded (fold (runAct (\<lambda>_. None)) ?acts startState) = csMem (fold (runAct (\<lambda>_. None)) ?acts startState)"
    "map RName (rules (csEngine (fold (runAct (\<lambda>_. None)) ?acts startState))) = [''a'', ''b'']" by code_simp+
  with catalogue_restart [OF clean refl, of "\<lambda>_. None"] show ?thesis unfolding Let_def by blast
qed

text \<open>
  Two edits at once, both answered with success: the snapshot of the first is written after that of the second, so that the second rule is in force
  in memory and lost by the next refresh or restart.
\<close>

lemma late_write_wins:
  "let s = fold (runAct (\<lambda>_. None)) [Edit (EUpsert dropUnit), Edit (EUpsert tagZone), Land 1 True, Land 0 True] startState in
   map RName (rules (csEngine s)) = [''a'', ''b''] \<and> csFlight s = [] \<and> map RName (rules (snd (LoadPersisted (Inr (csStore s)) NewEngine))) = [''b'']"
  by code_simp

end
