(* ===== verification/Consumer.thy ===== *)
theory Consumer
  imports Prelude "HOL-Library.Multiset"
begin

text \<open>
  The batch consumer (\<open>internal/consumer/consumer.go\<close>) between the receivers and ClickHouse: producers
  that reserve bytes and send to a bounded channel, one loop that forms batches and hands them to a
  bounded queue, a pool of flushers with retries, and the shutdown drain. Every operation of a goroutine that another
  one can see, a reservation, a send, a receive or the end of a flush, is an action of its own, and actions of different goroutines
  interleave freely; the counters \<open>accepted\<close>, \<open>dropped\<close> and \<open>writeFailed\<close>, which are only reported, change in the action that they
  count, although the code adds to them an instant later. The size of an item is a function of the item: rows whose shared attributes
  change between \<open>Add\<close> and the loop's second look at their size are outside of the model. The answers
  of the flush function are part of the action, so every outcome is covered; durations are left out. Byte
  and item counters are unbounded integers. The history of a run (what was admitted, written, lost) is
  kept beside the program's own variables and never read by it.
\<close>

section \<open>State\<close>

record 'a sizedBatch =
  items :: "'a list"
  bytes :: int

record 'a ConsumerOptions =
  BatchSize :: int
  BufferSize :: nat
  Workers :: int
  ByteBudget :: int
  sizeOf :: "('a \<Rightarrow> int) option"

definition flushAttempts :: nat where "flushAttempts = 3"

definition sizingEnabled :: "'a ConsumerOptions \<Rightarrow> bool" where
  "sizingEnabled c \<longleftrightarrow> sizeOf c \<noteq> None \<and> ByteBudget c > 0"

definition itemSize :: "'a ConsumerOptions \<Rightarrow> 'a \<Rightarrow> int" where
  "itemSize c x = (if sizingEnabled c then the (sizeOf c) x else 0)"

definition workerCount :: "'a ConsumerOptions \<Rightarrow> nat" where
  "workerCount c = (if Workers c < 1 then 1 else nat (Workers c))"

text \<open>Where the loop goes after a dispatch, and where it is; \<open>Sending\<close> records whether it is past the first select.\<close>

datatype after = ToSelect | ToDrain | ToClose

datatype 'a loopState = Select | Drain | Closing | Finished | Sending "'a sizedBatch" bool after

datatype 'a flusherState = WIdle | WGot "'a sizedBatch" | WTry "'a sizedBatch" nat nat | WDone "'a sizedBatch" | WExit

record 'a Consumer =
  ch :: "'a list"
  flushQ :: "'a sizedBatch list"
  qclosed :: bool
  bufBytes :: int
  dropped :: int
  writeFailed :: int
  accepted :: int
  draining :: bool
  ctxDone :: bool
  lpc :: "'a loopState"
  batch :: "'a list"
  batchBytes :: int
  flushers :: "'a flusherState list"
  pend :: "'a list"
  undo :: "int list"
  admitted :: "'a list"
  written :: "'a list"
  failed :: "'a list"
  abandoned :: "'a list"
  refused :: nat

definition Start :: "'a ConsumerOptions \<Rightarrow> 'a Consumer" where
  "Start c = \<lparr>ch = [], flushQ = [], qclosed = False, bufBytes = 0, dropped = 0, writeFailed = 0, accepted = 0,
     draining = False, ctxDone = False, lpc = Select, batch = [], batchBytes = 0,
     flushers = replicate (workerCount c) WIdle, pend = [], undo = [],
     admitted = [], written = [], failed = [], abandoned = [], refused = 0\<rparr>"

section \<open>Producers\<close>

text \<open>The reservation, its withdrawal when it exceeds the budget, and the send that either succeeds or drops.\<close>

definition addReserve :: "'a ConsumerOptions \<Rightarrow> 'a \<Rightarrow> 'a Consumer \<Rightarrow> 'a Consumer" where
  "addReserve c x s =
     (if sizingEnabled c then
        (let sz = itemSize c x; s = s\<lparr>bufBytes := bufBytes s + sz\<rparr> in
         if bufBytes s > ByteBudget c then s\<lparr>undo := sz # undo s\<rparr> else s\<lparr>pend := x # pend s\<rparr>)
      else s\<lparr>pend := x # pend s\<rparr>)"

definition addUndo :: "int \<Rightarrow> 'a Consumer \<Rightarrow> 'a Consumer" where
  "addUndo sz s = s\<lparr>undo := remove1 sz (undo s), bufBytes := bufBytes s - sz, dropped := dropped s + 1, refused := refused s + 1\<rparr>"

definition addSend :: "'a ConsumerOptions \<Rightarrow> 'a \<Rightarrow> 'a Consumer \<Rightarrow> 'a Consumer" where
  "addSend c x s =
     (let s = s\<lparr>pend := remove1 x (pend s)\<rparr> in
      if length (ch s) < BufferSize c then s\<lparr>ch := ch s @ [x], accepted := accepted s + 1, admitted := x # admitted s\<rparr>
      else s\<lparr>bufBytes := bufBytes s - itemSize c x, dropped := dropped s + 1, refused := refused s + 1\<rparr>)"

text \<open>\<open>Add\<close> as one undisturbed call.\<close>

definition ConsumerAdd :: "'a ConsumerOptions \<Rightarrow> 'a \<Rightarrow> 'a Consumer \<Rightarrow> bool \<times> 'a Consumer" where
  "ConsumerAdd c x s =
     (let sz = itemSize c x in
      if sizingEnabled c \<and> bufBytes s + sz > ByteBudget c
      then (False, s\<lparr>dropped := dropped s + 1, refused := refused s + 1\<rparr>)
      else if length (ch s) < BufferSize c
      then (True, s\<lparr>ch := ch s @ [x], accepted := accepted s + 1, bufBytes := bufBytes s + sz, admitted := x # admitted s\<rparr>)
      else (False, s\<lparr>dropped := dropped s + 1, refused := refused s + 1\<rparr>))"

section \<open>The loop\<close>

fun goto :: "after \<Rightarrow> 'a loopState" where
  "goto ToSelect = Select"
| "goto ToDrain = Drain"
| "goto ToClose = Closing"

definition dispatch :: "after \<Rightarrow> 'a Consumer \<Rightarrow> 'a Consumer" where
  "dispatch k s =
     (if batch s = [] then s\<lparr>lpc := goto k\<rparr>
      else s\<lparr>lpc := Sending \<lparr>items = batch s, bytes = batchBytes s\<rparr> False k, batch := [], batchBytes := 0\<rparr>)"

definition accumulate :: "'a ConsumerOptions \<Rightarrow> 'a \<Rightarrow> 'a Consumer \<Rightarrow> 'a Consumer" where
  "accumulate c x s = s\<lparr>batch := batch s @ [x], batchBytes := batchBytes s + itemSize c x\<rparr>"

definition receive :: "'a ConsumerOptions \<Rightarrow> after \<Rightarrow> 'a Consumer \<Rightarrow> 'a Consumer option" where
  "receive c k s =
     (case ch s of
        [] \<Rightarrow> None
      | x # xs \<Rightarrow>
          (let s = accumulate c x (s\<lparr>ch := xs\<rparr>) in
           Some (if BatchSize c \<le> int (length (batch s)) then dispatch k s else s)))"

definition sendOK :: "'a ConsumerOptions \<Rightarrow> 'a Consumer \<Rightarrow> 'a Consumer option" where
  "sendOK c s =
     (case lpc s of
        Sending b _ k \<Rightarrow> if length (flushQ s) < 2 * workerCount c then Some (s\<lparr>flushQ := flushQ s @ [b], lpc := goto k\<rparr>) else None
      | _ \<Rightarrow> None)"

definition sendTimeout :: "'a Consumer \<Rightarrow> 'a Consumer option" where
  "sendTimeout s =
     (case lpc s of
        Sending b True k \<Rightarrow>
          Some (s\<lparr>dropped := dropped s + int (length (items b)), bufBytes := bufBytes s - bytes b,
                  abandoned := items b @ abandoned s, lpc := goto k\<rparr>)
      | _ \<Rightarrow> None)"

definition loopDone :: "'a Consumer \<Rightarrow> 'a Consumer option" where
  "loopDone s =
     (if \<not> ctxDone s then None
      else case lpc s of
        Select \<Rightarrow> Some (s\<lparr>draining := True, lpc := Drain\<rparr>)
      | Sending b False k \<Rightarrow> Some (s\<lparr>lpc := Sending b True k\<rparr>)
      | _ \<Rightarrow> None)"

definition loopClose :: "'a Consumer \<Rightarrow> 'a Consumer option" where
  "loopClose s = (case lpc s of Closing \<Rightarrow> Some (s\<lparr>qclosed := True, lpc := Finished\<rparr>) | _ \<Rightarrow> None)"

section \<open>The flushers\<close>

definition setFlusher :: "nat \<Rightarrow> 'a flusherState \<Rightarrow> 'a Consumer \<Rightarrow> 'a Consumer" where
  "setFlusher i w s = s\<lparr>flushers := (flushers s)[i := w]\<rparr>"

definition flusherTake :: "nat \<Rightarrow> 'a Consumer \<Rightarrow> 'a Consumer option" where
  "flusherTake i s =
     (case flushQ s of
        b # q \<Rightarrow> Some (setFlusher i (WGot b) (s\<lparr>flushQ := q\<rparr>))
      | [] \<Rightarrow> if qclosed s then Some (setFlusher i WExit s) else None)"

text \<open>One turn of flusher \<open>i\<close>; \<open>ok\<close> is the answer of the flush function, where the turn calls it.\<close>

definition flusherTurn :: "nat \<Rightarrow> bool \<Rightarrow> 'a Consumer \<Rightarrow> 'a Consumer option" where
  "flusherTurn i ok s =
     (if length (flushers s) \<le> i then None
      else case flushers s ! i of
        WIdle \<Rightarrow> flusherTake i s
      | WGot b \<Rightarrow> Some (setFlusher i (WTry b 1 (if draining s then 1 else flushAttempts)) s)
      | WTry b n k \<Rightarrow>
          if ok then Some (setFlusher i (WDone b) (s\<lparr>written := items b @ written s\<rparr>))
          else if n < k then Some (setFlusher i (WTry b (n + 1) k) s)
          else Some (setFlusher i (WDone b)
                 (s\<lparr>writeFailed := writeFailed s + int (length (items b)), failed := items b @ failed s\<rparr>))
      | WDone b \<Rightarrow> Some (setFlusher i WIdle (s\<lparr>bufBytes := bufBytes s - bytes b\<rparr>))
      | WExit \<Rightarrow> None)"

section \<open>Runs\<close>

datatype 'a act =
  AReserve 'a | AUndo int | ASend 'a | ARecv | ATick | ALoopDone | ADrainEnd | ASendOK | ASendTimeout | AClose | AFlusher nat bool | ACancel

fun exec :: "'a ConsumerOptions \<Rightarrow> 'a act \<Rightarrow> 'a Consumer \<Rightarrow> 'a Consumer option" where
  "exec c (AReserve x) s = Some (addReserve c x s)"
| "exec c (AUndo sz) s = (if sz \<in> set (undo s) then Some (addUndo sz s) else None)"
| "exec c (ASend x) s = (if x \<in> set (pend s) then Some (addSend c x s) else None)"
| "exec c ARecv s = (case lpc s of Select \<Rightarrow> receive c ToSelect s | Drain \<Rightarrow> receive c ToDrain s | _ \<Rightarrow> None)"
| "exec c ATick s = (case lpc s of Select \<Rightarrow> Some (dispatch ToSelect s) | _ \<Rightarrow> None)"
| "exec c ALoopDone s = loopDone s"
| "exec c ADrainEnd s = (case lpc s of Drain \<Rightarrow> if ch s = [] then Some (dispatch ToClose s) else None | _ \<Rightarrow> None)"
| "exec c ASendOK s = sendOK c s"
| "exec c ASendTimeout s = sendTimeout s"
| "exec c AClose s = loopClose s"
| "exec c (AFlusher i ok) s = flusherTurn i ok s"
| "exec c ACancel s = Some (s\<lparr>ctxDone := True\<rparr>)"

inductive reach :: "'a ConsumerOptions \<Rightarrow> 'a Consumer \<Rightarrow> bool" for c where
  start: "reach c (Start c)"
| move: "reach c s \<Longrightarrow> exec c a s = Some s' \<Longrightarrow> reach c s'"

definition stopped :: "'a Consumer \<Rightarrow> bool" where
  "stopped s \<longleftrightarrow> lpc s = Finished \<and> list_all (\<lambda>w. w = WExit) (flushers s)"

section \<open>What is in the pipeline\<close>

fun loopBatch :: "'a loopState \<Rightarrow> 'a sizedBatch list" where
  "loopBatch (Sending b _ _) = [b]"
| "loopBatch _ = []"

fun flusherBatch :: "'a flusherState \<Rightarrow> 'a sizedBatch list" where
  "flusherBatch (WGot b) = [b]"
| "flusherBatch (WTry b _ _) = [b]"
| "flusherBatch _ = []"

text \<open>A finished batch still occupies its bytes until they are released.\<close>

fun flusherAll :: "'a flusherState \<Rightarrow> 'a sizedBatch list" where
  "flusherAll (WDone b) = [b]"
| "flusherAll w = flusherBatch w"

definition flusherBytes :: "'a flusherState \<Rightarrow> int" where
  "flusherBytes w = sum_list (map bytes (flusherAll w))"

definition inFlight :: "'a Consumer \<Rightarrow> 'a list" where
  "inFlight s = concat (map (\<lambda>w. concat (map items (flusherBatch w))) (flushers s))"

definition held :: "'a Consumer \<Rightarrow> 'a multiset" where
  "held s = mset (ch s) + mset (batch s) + mset (concat (map items (loopBatch (lpc s)))) +
     mset (concat (map items (flushQ s))) + mset (inFlight s)"

definition heldBytes :: "'a ConsumerOptions \<Rightarrow> 'a Consumer \<Rightarrow> int" where
  "heldBytes c s = sum_list (map (itemSize c) (ch s)) + batchBytes s + sum_list (map bytes (loopBatch (lpc s))) +
     sum_list (map bytes (flushQ s)) + sum_list (map flusherBytes (flushers s))"

section \<open>Invariant\<close>

definition batch_ok :: "'a ConsumerOptions \<Rightarrow> 'a sizedBatch \<Rightarrow> bool" where
  "batch_ok c b \<longleftrightarrow> items b \<noteq> [] \<and> int (length (items b)) \<le> max 1 (BatchSize c) \<and> bytes b = sum_list (map (itemSize c) (items b))"

definition batches :: "'a Consumer \<Rightarrow> 'a sizedBatch list" where
  "batches s = loopBatch (lpc s) @ flushQ s @ concat (map flusherAll (flushers s))"

definition conserved :: "'a Consumer \<Rightarrow> bool" where
  "conserved s \<longleftrightarrow>
     mset (admitted s) = held s + mset (written s) + mset (failed s) + mset (abandoned s) \<and>
     accepted s = int (length (admitted s)) \<and> writeFailed s = int (length (failed s)) \<and>
     dropped s = int (refused s) + int (length (abandoned s))"

definition shape :: "'a ConsumerOptions \<Rightarrow> 'a Consumer \<Rightarrow> bool" where
  "shape c s \<longleftrightarrow>
     length (ch s) \<le> BufferSize c \<and> length (flushQ s) \<le> 2 * workerCount c \<and> length (flushers s) = workerCount c \<and>
     list_all (batch_ok c) (batches s) \<and> batchBytes s = sum_list (map (itemSize c) (batch s)) \<and>
     int (length (batch s)) < max 1 (BatchSize c) \<and>
     (if lpc s \<in> {Closing, Finished} \<or> loopBatch (lpc s) \<noteq> [] then batch s = [] else True) \<and>
     qclosed s = (lpc s = Finished) \<and>
     (if WExit \<in> set (flushers s) then qclosed s \<and> flushQ s = [] else True)"

definition budgeted :: "'a ConsumerOptions \<Rightarrow> 'a Consumer \<Rightarrow> bool" where
  "budgeted c s \<longleftrightarrow>
     bufBytes s = heldBytes c s + sum_list (map (itemSize c) (pend s)) + sum_list (undo s) \<and>
     list_all (\<lambda>z. 0 \<le> z) (undo s) \<and>
     (if sizingEnabled c then heldBytes c s + sum_list (map (itemSize c) (pend s)) \<le> ByteBudget c else True)"

lemmas pipeline_defs = held_def heldBytes_def inFlight_def

lemma mset_concat_update:
  assumes "i < length xs"
  shows "mset (concat (map f (xs[i := w]))) + mset (f (xs ! i)) = mset (concat (map f xs)) + mset (f w)"
  using assms by (induction xs arbitrary: i) (auto simp: nth_Cons split: nat.splits)

lemma sum_update:
  fixes f :: "'b \<Rightarrow> int"
  assumes "i < length xs"
  shows "sum_list (map f (xs[i := w])) = sum_list (map f xs) + f w - f (xs ! i)"
  using assms by (induction xs arbitrary: i) (auto simp: nth_Cons split: nat.splits)

text \<open>Replacing the state of one flusher.\<close>

lemma setFlusher_held:
  assumes "i < length (flushers s)"
  shows "held (setFlusher i w s) + mset (concat (map items (flusherBatch (flushers s ! i)))) =
      held s + mset (concat (map items (flusherBatch w)))"
    "heldBytes c (setFlusher i w s) = heldBytes c s + flusherBytes w - flusherBytes (flushers s ! i)"
proof -
  let ?f = "\<lambda>w. concat (map items (flusherBatch w))"
  from mset_concat_update [OF assms, of ?f w]
  show "held (setFlusher i w s) + mset (?f (flushers s ! i)) = held s + mset (?f w)"
    by (simp add: held_def inFlight_def setFlusher_def union_assoc)
  show "heldBytes c (setFlusher i w s) = heldBytes c s + flusherBytes w - flusherBytes (flushers s ! i)"
    using assms by (simp add: heldBytes_def setFlusher_def sum_update)
qed

lemma setFlusher_frame [simp]:
  "admitted (setFlusher i w s) = admitted s" "written (setFlusher i w s) = written s" "failed (setFlusher i w s) = failed s"
  "abandoned (setFlusher i w s) = abandoned s" "accepted (setFlusher i w s) = accepted s" "writeFailed (setFlusher i w s) = writeFailed s"
  "dropped (setFlusher i w s) = dropped s" "refused (setFlusher i w s) = refused s" "bufBytes (setFlusher i w s) = bufBytes s"
  "pend (setFlusher i w s) = pend s" "undo (setFlusher i w s) = undo s" "ctxDone (setFlusher i w s) = ctxDone s"
  "lpc (setFlusher i w s) = lpc s" "ch (setFlusher i w s) = ch s" "batch (setFlusher i w s) = batch s" "flushQ (setFlusher i w s) = flushQ s"
  "qclosed (setFlusher i w s) = qclosed s" "batchBytes (setFlusher i w s) = batchBytes s"
  by (simp_all add: setFlusher_def)

lemma goto_simps [simp]:
  "loopBatch (goto k) = []" "goto k \<noteq> Finished" "Finished \<noteq> goto k" "goto k \<noteq> Sending b f k'" "goto k = Closing \<longleftrightarrow> k = ToClose"
  by (cases k; simp)+

lemma conserved_dispatch: "conserved s \<Longrightarrow> loopBatch (lpc s) = [] \<Longrightarrow> conserved (dispatch k s)"
  by (cases k) (auto simp: conserved_def dispatch_def pipeline_defs)

lemma conserved_receive: "conserved s \<Longrightarrow> loopBatch (lpc s) = [] \<Longrightarrow> receive c k s = Some s' \<Longrightarrow> conserved s'"
  by (cases k)
    (auto simp: conserved_def receive_def accumulate_def dispatch_def pipeline_defs Let_def split: list.splits if_splits)

lemma held_frame [simp]:
  "held (setFlusher i w (s\<lparr>written := a\<rparr>)) = held (setFlusher i w s)"
  "held (setFlusher i w (s\<lparr>writeFailed := n, failed := a\<rparr>)) = held (setFlusher i w s)"
  "held (setFlusher i w (s\<lparr>bufBytes := n\<rparr>)) = held (setFlusher i w s)"
  by (simp_all add: pipeline_defs setFlusher_def)

lemma flusher_conserved:
  assumes "conserved s" and "flusherTurn i ok s = Some s'"
  shows "conserved s'"
proof -
  from assms(2) have i: "i < length (flushers s)" by (auto simp: flusherTurn_def split: if_splits)
  note u = setFlusher_held(1) [OF i]
  show ?thesis
  proof (cases "flushers s ! i")
    case WIdle
    have "held (setFlusher i (WGot b) (s\<lparr>flushQ := q\<rparr>)) = held s" if "flushQ s = b # q" for b q
      using setFlusher_held(1) [of i "s\<lparr>flushQ := q\<rparr>" "WGot b"] that i WIdle by (simp add: pipeline_defs)
    with WIdle assms u [of WExit] show ?thesis
      by (auto simp: flusherTurn_def flusherTake_def conserved_def split: if_splits list.splits)
  next
    case (WGot b)
    with assms u [of "WTry b 1 _"] show ?thesis by (auto simp: flusherTurn_def conserved_def split: if_splits)
  next
    case (WTry b n k)
    with assms u [of "WTry b (Suc n) k"] u [of "WDone b"] show ?thesis
      by (auto simp: flusherTurn_def conserved_def ac_simps split: if_splits)
  next
    case (WDone b)
    with assms u [of WIdle] show ?thesis by (auto simp: flusherTurn_def conserved_def split: if_splits)
  next
    case WExit
    with assms show ?thesis by (auto simp: flusherTurn_def split: if_splits)
  qed
qed

lemma exec_conserved:
  assumes "conserved s" and "exec c a s = Some s'"
  shows "conserved s'"
proof (cases a)
  case (AFlusher i ok)
  with assms show ?thesis using flusher_conserved by auto
next
  case (AReserve x)
  with assms show ?thesis by (auto simp: addReserve_def conserved_def pipeline_defs Let_def)
next
  case (AUndo z)
  with assms show ?thesis by (auto simp: addUndo_def conserved_def pipeline_defs split: if_splits)
next
  case (ASend x)
  with assms show ?thesis by (auto simp: addSend_def conserved_def pipeline_defs Let_def split: if_splits)
next
  case ARecv
  with assms show ?thesis by (auto dest: conserved_receive split: loopState.splits)
next
  case ATick
  with assms show ?thesis by (auto intro: conserved_dispatch split: loopState.splits)
next
  case ADrainEnd
  with assms show ?thesis by (auto intro: conserved_dispatch split: loopState.splits if_splits)
next
  case ASendTimeout
  with assms show ?thesis
    by (auto simp: sendTimeout_def conserved_def pipeline_defs ac_simps split: loopState.splits bool.splits)
next
  case ASendOK
  with assms show ?thesis
    by (auto simp: sendOK_def conserved_def pipeline_defs split: loopState.splits if_splits)
qed (use assms in \<open>auto simp: loopDone_def loopClose_def conserved_def pipeline_defs
   split: loopState.splits if_splits bool.splits\<close>)

lemma shape_no_exit: "shape c s \<Longrightarrow> lpc s \<noteq> Finished \<Longrightarrow> WExit \<notin> set (flushers s)"
  by (auto simp: shape_def split: if_splits)

lemma shape_dispatch:
  assumes "shape c s" and "lpc s = Select \<or> lpc s = Drain"
  shows "shape c (dispatch k s)"
proof -
  have "WExit \<notin> set (flushers s)" "loopBatch (lpc s) = []" using assms shape_no_exit [OF assms(1)] by auto
  with assms show ?thesis by (auto simp: shape_def dispatch_def batches_def batch_ok_def)
qed

lemma set_update_cases: "x \<in> set (xs[i := w]) \<Longrightarrow> x = w \<or> x \<in> set xs"
  using set_update_subset_insert by fast

lemma shape_setFlusher:
  assumes "shape c s" and "i < length (flushers s)" and "list_all (batch_ok c) (flusherAll w)" and "w \<noteq> WExit"
  shows "shape c (setFlusher i w s)"
  using assms by (auto simp: shape_def setFlusher_def batches_def list_all_iff dest!: set_update_cases)

lemma shape_frame [simp]:
  "shape c (s\<lparr>written := a\<rparr>) = shape c s" "shape c (s\<lparr>writeFailed := n\<rparr>) = shape c s" "shape c (s\<lparr>failed := a\<rparr>) = shape c s"
  "shape c (s\<lparr>bufBytes := n\<rparr>) = shape c s" "shape c (s\<lparr>dropped := n\<rparr>) = shape c s" "shape c (s\<lparr>refused := m\<rparr>) = shape c s"
  "shape c (s\<lparr>accepted := n\<rparr>) = shape c s" "shape c (s\<lparr>admitted := a\<rparr>) = shape c s" "shape c (s\<lparr>pend := a\<rparr>) = shape c s"
  "shape c (s\<lparr>undo := is\<rparr>) = shape c s" "shape c (s\<lparr>abandoned := a\<rparr>) = shape c s" "shape c (s\<lparr>draining := d\<rparr>) = shape c s"
  "shape c (s\<lparr>ctxDone := d\<rparr>) = shape c s"
  by (simp_all add: shape_def batches_def)

lemma flusher_batch_ok:
  assumes "shape c s" and "i < length (flushers s)"
  shows "list_all (batch_ok c) (flusherAll (flushers s ! i))"
  using assms nth_mem [OF assms(2)] by (auto simp: shape_def batches_def list_all_iff)

lemma flusher_shape:
  assumes "shape c s" and "flusherTurn i ok s = Some s'"
  shows "shape c s'"
proof -
  from assms(2) have i: "i < length (flushers s)" by (auto simp: flusherTurn_def split: if_splits)
  note b = flusher_batch_ok [OF assms(1) i] and u = shape_setFlusher [where i = i]
  show ?thesis
  proof (cases "flushers s ! i")
    case WIdle
    have "shape c (setFlusher i (WGot b) (s\<lparr>flushQ := q\<rparr>))" if "flushQ s = b # q" for b q
      using that i assms(1) by (intro u) (auto simp: shape_def batches_def split: if_splits)
    moreover have "shape c (setFlusher i WExit s)" if "qclosed s" "flushQ s = []"
      using that i assms(1) by (auto simp: shape_def setFlusher_def batches_def list_all_iff dest!: set_update_cases)
    ultimately show ?thesis
      using WIdle assms(2) i by (auto simp: flusherTurn_def flusherTake_def split: if_splits list.splits)
  qed (use assms i b in \<open>auto simp: flusherTurn_def intro!: u split: if_splits\<close>)
qed

lemma budgeted_dispatch:
  assumes "budgeted c s" and "loopBatch (lpc s) = []"
  shows "budgeted c (dispatch k s)"
  using assms by (auto simp: budgeted_def dispatch_def pipeline_defs)

lemma budgeted_receive:
  assumes "budgeted c s" and "loopBatch (lpc s) = []" and "receive c k s = Some s'"
  shows "budgeted c s'"
proof -
  from assms(3) obtain x xs where x: "ch s = x # xs" by (auto simp: receive_def split: list.splits)
  let ?s = "accumulate c x (s\<lparr>ch := xs\<rparr>)"
  have "budgeted c ?s" "loopBatch (lpc ?s) = []" "batch ?s \<noteq> []"
    using assms(1,2) x by (auto simp: budgeted_def accumulate_def pipeline_defs)
  then show ?thesis using assms(3) x budgeted_dispatch by (auto simp: receive_def Let_def)
qed

lemma exec_shape:
  assumes "shape c s" and "exec c a s = Some s'"
  shows "shape c s'"
proof (cases a)
  case (AFlusher i ok)
  with assms show ?thesis using flusher_shape by auto
next
  case (AReserve x)
  with assms show ?thesis by (auto simp: addReserve_def Let_def)
next
  case (AUndo z)
  with assms show ?thesis by (auto simp: addUndo_def split: if_splits)
next
  case (ASend x)
  have "shape c (s\<lparr>pend := p, ch := ch s @ [x]\<rparr>)" if "length (ch s) < BufferSize c" for p
    using assms(1) that by (auto simp: shape_def batches_def split: if_splits)
  with ASend assms show ?thesis by (auto simp: addSend_def Let_def split: if_splits)
next
  case ARecv
  have "shape c s'" if "receive c k s = Some s'" "lpc s = goto k" "k \<noteq> ToClose" for k
  proof -
    from that obtain x xs where x: "ch s = x # xs" by (auto simp: receive_def split: list.splits)
    let ?s = "accumulate c x (s\<lparr>ch := xs\<rparr>)"
    have w: "WExit \<notin> set (flushers s)" using assms(1) that(2) by (auto simp: shape_def split: if_splits)
    show ?thesis
    proof (cases "BatchSize c \<le> int (length (batch ?s))")
      case True
      then have "s' = dispatch k ?s" using that x by (simp add: receive_def Let_def)
      then show ?thesis using assms(1) that w x
        by (auto simp: shape_def dispatch_def accumulate_def batches_def batch_ok_def)
    next
      case False
      then have "s' = ?s" using that x by (simp add: receive_def Let_def)
      then show ?thesis using assms(1) that w x False
        by (auto simp: shape_def accumulate_def batches_def)
    qed
  qed
  from this [of ToSelect] this [of ToDrain] ARecv assms(2) show ?thesis by (auto split: loopState.splits)
next
  case ATick
  then have "lpc s = Select" "s' = dispatch ToSelect s" using assms(2) by (auto split: loopState.splits)
  with shape_dispatch [OF assms(1)] show ?thesis by simp
next
  case ADrainEnd
  then have "lpc s = Drain" "s' = dispatch ToClose s" using assms(2) by (auto split: loopState.splits if_splits)
  with shape_dispatch [OF assms(1)] show ?thesis by simp
next
  case ASendOK
  then obtain b f k where "lpc s = Sending b f k" "s' = s\<lparr>flushQ := flushQ s @ [b], lpc := goto k\<rparr>" "length (flushQ s) < 2 * workerCount c"
    using assms(2) by (auto simp: sendOK_def split: loopState.splits if_splits)
  with assms(1) shape_no_exit [OF assms(1)] show ?thesis by (simp add: shape_def batches_def)
next
  case ASendTimeout
  then obtain b k where "lpc s = Sending b True k" "shape c s' = shape c (s\<lparr>lpc := goto k\<rparr>)"
    using assms(2) by (auto simp: sendTimeout_def shape_def batches_def split: loopState.splits bool.splits)
  moreover from this(1) have "shape c (s\<lparr>lpc := goto k\<rparr>)"
    using assms(1) shape_no_exit [OF assms(1)] by (simp add: shape_def batches_def)
  ultimately show ?thesis by simp
next
  case ALoopDone
  have "shape c (s\<lparr>draining := d, lpc := l\<rparr>)" if "lpc s \<noteq> Finished" "loopBatch l = loopBatch (lpc s)" "l \<notin> {Closing, Finished}" for l d
    using assms(1) shape_no_exit [OF assms(1)] that by (auto simp: shape_def batches_def)
  from this [of Drain True] this [of "Sending _ True _" "draining s"] ALoopDone assms(2) show ?thesis
    by (auto simp: loopDone_def split: loopState.splits bool.splits if_splits)
next
  case AClose
  then have "lpc s = Closing" "s' = s\<lparr>qclosed := True, lpc := Finished\<rparr>"
    using assms(2) by (auto simp: loopClose_def split: loopState.splits)
  with assms(1) show ?thesis by (simp add: shape_def batches_def split: if_splits)
next
  case ACancel
  with assms show ?thesis by auto
qed

lemma batch_bytes_nonneg:
  assumes "\<And>x. 0 \<le> itemSize c x" and "batch_ok c b"
  shows "0 \<le> bytes b"
  using assms by (auto simp: batch_ok_def intro!: sum_list_nonneg)

lemma flusher_bytes_nonneg:
  assumes "\<And>x. 0 \<le> itemSize c x" and "shape c s" and "i < length (flushers s)"
  shows "0 \<le> flusherBytes (flushers s ! i)"
proof -
  have "\<And>b. b \<in> set (flusherAll (flushers s ! i)) \<Longrightarrow> 0 \<le> bytes b"
    using flusher_batch_ok [OF assms(2,3)] batch_bytes_nonneg [OF assms(1)] by (auto simp: list_all_iff)
  then show ?thesis by (auto simp: flusherBytes_def intro!: sum_list_nonneg)
qed

lemma flusher_budgeted:
  assumes "budgeted c s" and "flusherTurn i ok s = Some s'" and z: "\<And>x. 0 \<le> itemSize c x" and "shape c s"
  shows "budgeted c s'"
proof -
  from assms(2) have i: "i < length (flushers s)" by (auto simp: flusherTurn_def split: if_splits)
  have u: "heldBytes c (setFlusher i w s) = heldBytes c s + flusherBytes w - flusherBytes (flushers s ! i)"
    "heldBytes c (setFlusher i w (s\<lparr>written := a\<rparr>)) = heldBytes c (setFlusher i w s)"
    "heldBytes c (setFlusher i w (s\<lparr>writeFailed := n, failed := a\<rparr>)) = heldBytes c (setFlusher i w s)"
    "heldBytes c (setFlusher i w (s\<lparr>bufBytes := n\<rparr>)) = heldBytes c (setFlusher i w s)"
    "flushQ s = b # q \<Longrightarrow> heldBytes c (setFlusher i (WGot b) (s\<lparr>flushQ := q\<rparr>)) = heldBytes c s - flusherBytes (flushers s ! i)" for w a n b q
    using i by (simp_all add: setFlusher_def heldBytes_def sum_update flusherBytes_def)
  have "0 \<le> flusherBytes (flushers s ! i)" by (rule flusher_bytes_nonneg [OF z assms(4) i])
  then show ?thesis
    using assms(1,2) i u
    by (cases "flushers s ! i")
      (auto simp: flusherTurn_def flusherTake_def budgeted_def flusherBytes_def split: if_splits list.splits)
qed

lemma exec_budgeted:
  assumes "budgeted c s" and "exec c a s = Some s'" and z: "\<And>x. 0 \<le> itemSize c x" and sh: "shape c s"
  shows "budgeted c s'"
proof (cases a)
  case (AFlusher i ok)
  with assms(2) have "flusherTurn i ok s = Some s'" by simp
  then show ?thesis by (rule flusher_budgeted [OF assms(1) _ z sh])
next
  case (AReserve x)
  have "0 \<le> sum_list (undo s)" using assms(1) by (auto simp: budgeted_def list_all_iff intro!: sum_list_nonneg)
  with AReserve assms(1,2) z [of x] show ?thesis
    by (auto simp: addReserve_def budgeted_def heldBytes_def Let_def itemSize_def)
next
  case (AUndo y)
  then have y: "y \<in> set (undo s)" "s' = addUndo y s" using assms(2) by (auto split: if_splits)
  then have "sum_list (undo s) = y + sum_list (remove1 y (undo s))" using sum_list_map_remove1 [of y "undo s" "\<lambda>x. x"] by simp
  moreover have "list_all (\<lambda>z. 0 \<le> z) (remove1 y (undo s))"
    using assms(1) set_remove1_subset [of y "undo s"] by (auto simp: budgeted_def list_all_iff)
  ultimately show ?thesis using assms(1) y(2) by (auto simp: addUndo_def budgeted_def heldBytes_def)
next
  case (ASend x)
  with assms(1,2) z [of x] show ?thesis
    by (auto simp: addSend_def budgeted_def heldBytes_def Let_def sum_list_map_remove1 [of x "pend s" "itemSize c"] split: if_splits)
next
  case ARecv
  with assms(1,2) show ?thesis by (auto dest: budgeted_receive split: loopState.splits)
next
  case ATick
  with assms(1,2) show ?thesis by (auto intro!: budgeted_dispatch split: loopState.splits)
next
  case ADrainEnd
  with assms(1,2) show ?thesis by (auto intro!: budgeted_dispatch split: loopState.splits if_splits)
next
  case ASendTimeout
  then obtain b k where l: "lpc s = Sending b True k" using assms(2) by (auto simp: sendTimeout_def split: loopState.splits bool.splits)
  then have "0 \<le> bytes b" using sh batch_bytes_nonneg [OF z] by (auto simp: shape_def batches_def)
  with l ASendTimeout assms(1,2) show ?thesis by (auto simp: sendTimeout_def budgeted_def heldBytes_def)
qed (use assms(1,2) in \<open>auto simp: loopDone_def loopClose_def sendOK_def budgeted_def heldBytes_def
   split: loopState.splits if_splits bool.splits\<close>)

lemma Start_inv: "conserved (Start c)" "shape c (Start c)" "budgeted c (Start c)"
proof -
  have "concat (map f (replicate n WIdle)) = []" if "f WIdle = []" for n and f :: "'a flusherState \<Rightarrow> 'b list"
    using that by (induction n) auto
  then show "conserved (Start c)" "shape c (Start c)" "budgeted c (Start c)"
    by (auto simp: Start_def conserved_def shape_def budgeted_def pipeline_defs batches_def flusherBytes_def
        sum_list_replicate sizingEnabled_def)
qed

lemma reach_conserved: "reach c s \<Longrightarrow> conserved s"
  by (induction rule: reach.induct) (auto intro: Start_inv exec_conserved)

lemma reach_shape: "reach c s \<Longrightarrow> shape c s"
  by (induction rule: reach.induct) (auto intro: Start_inv exec_shape)

lemma reach_budgeted: "reach c s \<Longrightarrow> (\<And>x. 0 \<le> itemSize c x) \<Longrightarrow> budgeted c s"
  by (induction rule: reach.induct) (auto intro: Start_inv exec_budgeted reach_shape)

section \<open>Shutdown\<close>

text \<open>The work that is left after cancellation, as a number that some enabled action always decreases.\<close>

fun loopWork :: "'a loopState \<Rightarrow> nat" where
  "loopWork Select = 4"
| "loopWork Drain = 3"
| "loopWork Closing = 1"
| "loopWork Finished = 0"
| "loopWork (Sending b f k) = (if f then 7 else 8) + (case k of ToSelect \<Rightarrow> 4 | ToDrain \<Rightarrow> 3 | ToClose \<Rightarrow> 1)"

fun flusherWork :: "'a flusherState \<Rightarrow> nat" where
  "flusherWork WIdle = 1"
| "flusherWork (WGot b) = 6"
| "flusherWork (WTry b n k) = 3 + (k - n)"
| "flusherWork (WDone b) = 2"
| "flusherWork WExit = 0"

definition work :: "'a Consumer \<Rightarrow> nat" where
  "work s = 10 * length (ch s) + 9 * length (batch s) + loopWork (lpc s) + 6 * length (flushQ s) + sum_list (map flusherWork (flushers s))"

fun progress :: "'a act \<Rightarrow> bool" where
  "progress (AReserve x) = False"
| "progress (AUndo sz) = False"
| "progress (ASend x) = False"
| "progress ATick = False"
| "progress ACancel = False"
| "progress _ = True"

fun sends :: "'a act \<Rightarrow> bool" where
  "sends (ASend x) = True"
| "sends _ = False"

lemma sum_update_nat:
  fixes f :: "'b \<Rightarrow> nat"
  assumes "i < length xs"
  shows "sum_list (map f (xs[i := w])) + f (xs ! i) = sum_list (map f xs) + f w"
  using assms by (induction xs arbitrary: i) (auto simp: nth_Cons split: nat.splits)

lemma work_setFlusher: "i < length (flushers s) \<Longrightarrow> work (setFlusher i w s) + flusherWork (flushers s ! i) = work s + flusherWork w"
  using sum_update_nat [of i "flushers s" flusherWork w] by (simp add: work_def setFlusher_def)

lemma work_goto: "loopWork (goto k) = (case k of ToSelect \<Rightarrow> 4 | ToDrain \<Rightarrow> 3 | ToClose \<Rightarrow> 1)"
  by (cases k) auto

lemma work_frame [simp]:
  "work (s\<lparr>written := a\<rparr>) = work s" "work (s\<lparr>writeFailed := n, failed := a\<rparr>) = work s" "work (s\<lparr>bufBytes := n\<rparr>) = work s"
  "work (s\<lparr>draining := d\<rparr>) = work s"
  by (simp_all add: work_def)

text \<open>Once the loop is done, a flusher that has not left can move.\<close>

lemma flusher_progress:
  assumes "i < length (flushers s)" and "flushers s ! i \<noteq> WExit" and "qclosed s"
  shows "\<exists>s'. flusherTurn i True s = Some s' \<and> work s' < work s"
proof -
  note w = work_setFlusher [of i]
  show ?thesis
  proof (cases "flushers s ! i")
    case WIdle
    show ?thesis
    proof (cases "flushQ s")
      case Nil
      with WIdle assms w [of s WExit] show ?thesis by (simp add: flusherTurn_def flusherTake_def)
    next
      case (Cons b q)
      have "work (s\<lparr>flushQ := q\<rparr>) + 6 = work s" using Cons by (simp add: work_def)
      with Cons WIdle assms w [of "s\<lparr>flushQ := q\<rparr>" "WGot b"] show ?thesis by (simp add: flusherTurn_def flusherTake_def)
    qed
  next
    case (WGot b)
    with assms w [of s "WTry b 1 (if draining s then 1 else flushAttempts)"] show ?thesis
      by (simp add: flusherTurn_def flushAttempts_def split: if_splits)
  next
    case (WTry b n k)
    with assms w [of "s\<lparr>written := items b @ written s\<rparr>" "WDone b"] show ?thesis by (simp add: flusherTurn_def)
  next
    case (WDone b)
    with assms w [of "s\<lparr>bufBytes := bufBytes s - bytes b\<rparr>" WIdle] show ?thesis by (simp add: flusherTurn_def)
  qed (use assms in simp)
qed

lemma shutdown_progress:
  assumes "shape c s" and "ctxDone s" and "\<not> stopped s"
  shows "\<exists>a s'. exec c a s = Some s' \<and> progress a \<and> work s' < work s \<and> ctxDone s'"
proof (cases "lpc s")
  case Select
  with assms(2) show ?thesis by (intro exI [of _ ALoopDone]) (simp add: loopDone_def work_def)
next
  case Drain
  show ?thesis
  proof (cases "ch s")
    case Nil
    with Drain assms(2) show ?thesis
      by (intro exI [of _ ADrainEnd]) (cases "batch s", auto simp: dispatch_def work_def)
  next
    case (Cons x xs)
    with Drain assms(2) show ?thesis
      by (intro exI [of _ ARecv]) (auto simp: receive_def accumulate_def dispatch_def work_def Let_def)
  qed
next
  case Closing
  with assms(2) show ?thesis by (intro exI [of _ AClose]) (simp add: loopClose_def work_def)
next
  case (Sending b f k)
  show ?thesis
  proof (cases f)
    case True
    with Sending assms(2) show ?thesis
      by (intro exI [of _ ASendTimeout]) (simp add: sendTimeout_def work_def work_goto)
  next
    case False
    with Sending assms(2) show ?thesis by (intro exI [of _ ALoopDone]) (simp add: loopDone_def work_def)
  qed
next
  case Finished
  with assms(3) obtain w where "w \<in> set (flushers s)" "w \<noteq> WExit" by (auto simp: stopped_def list_all_iff)
  then obtain i where i: "i < length (flushers s)" "flushers s ! i \<noteq> WExit" by (auto simp: in_set_conv_nth)
  have "qclosed s" using assms(1) Finished by (simp add: shape_def)
  from flusher_progress [OF i this] obtain s' where s': "flusherTurn i True s = Some s'" "work s' < work s" by blast
  moreover have "ctxDone s'" using s'(1) assms(2)
    by (auto simp: flusherTurn_def flusherTake_def split: if_splits flusherState.splits list.splits)
  ultimately show ?thesis by (intro exI [of _ "AFlusher i True"]) simp
qed

fun runActs :: "'a ConsumerOptions \<Rightarrow> 'a act list \<Rightarrow> 'a Consumer \<Rightarrow> 'a Consumer option" where
  "runActs c [] s = Some s"
| "runActs c (a # as) s = Option.bind (exec c a s) (runActs c as)"

lemma runActs_reach: "reach c s \<Longrightarrow> runActs c as s = Some s' \<Longrightarrow> reach c s'"
  by (induction as arbitrary: s) (auto simp: bind_eq_Some_conv intro: reach.move)

text \<open>Conversely every action of the loop and the flushers decreases the work, and only a producer's send adds to it.\<close>

lemma flusherTurn_work:
  assumes "flusherTurn i ok s = Some s'"
  shows "work s' < work s"
proof -
  have i: "i < length (flushers s)" using assms by (auto simp: flusherTurn_def split: if_splits)
  note w = work_setFlusher [of i]
  show ?thesis
  proof (cases "flushers s ! i")
    case WIdle
    have "work (s\<lparr>flushQ := q\<rparr>) + 6 = work s" if "flushQ s = b # q" for b q using that by (simp add: work_def)
    with WIdle assms i w [of s WExit] w [of "s\<lparr>flushQ := tl (flushQ s)\<rparr>" "WGot (hd (flushQ s))"] show ?thesis
      by (fastforce simp: flusherTurn_def flusherTake_def split: list.splits if_splits)
  next
    case (WGot b)
    with assms i w [of s "WTry b 1 (if draining s then 1 else flushAttempts)"] show ?thesis
      by (auto simp: flusherTurn_def flushAttempts_def split: if_splits)
  next
    case (WTry b n k)
    with assms i w [of "s\<lparr>written := items b @ written s\<rparr>" "WDone b"] w [of s "WTry b (Suc n) k"]
      w [of "s\<lparr>writeFailed := writeFailed s + int (length (items b)), failed := items b @ failed s\<rparr>" "WDone b"] show ?thesis
      by (auto simp: flusherTurn_def split: if_splits)
  next
    case (WDone b)
    with assms i w [of "s\<lparr>bufBytes := bufBytes s - bytes b\<rparr>" WIdle] show ?thesis by (auto simp: flusherTurn_def)
  qed (use assms in \<open>simp add: flusherTurn_def split: if_splits\<close>)
qed

lemma work_dispatch: "lpc s = Select \<Longrightarrow> work (dispatch ToSelect s) \<le> work s"
  by (cases "batch s") (auto simp: dispatch_def work_def)

lemma receive_work:
  assumes "receive c k s = Some s'" and "lpc s = goto k"
  shows "work s' < work s"
  using assms by (cases k; cases "ch s") (auto simp: receive_def accumulate_def dispatch_def work_def Let_def split: if_splits)

lemma exec_work:
  assumes "exec c a s = Some s'"
  shows "work s' + (if progress a then 1 else 0) \<le> work s + (if sends a then 10 else 0)"
proof (cases a)
  case ARecv
  with assms receive_work [of c ToSelect s s'] receive_work [of c ToDrain s s'] show ?thesis by (auto split: loopState.splits)
next
  case ATick
  with assms work_dispatch [of s] show ?thesis by (auto split: loopState.splits)
next
  case ADrainEnd
  with assms show ?thesis by (cases "batch s") (auto simp: dispatch_def work_def split: loopState.splits if_splits)
next
  case (AFlusher i ok)
  with assms flusherTurn_work show ?thesis by fastforce
qed (use assms in \<open>auto simp: addReserve_def addUndo_def addSend_def loopDone_def sendOK_def sendTimeout_def loopClose_def
  work_def work_goto Let_def split: loopState.splits if_splits\<close>)

lemma runActs_work:
  "runActs c as s = Some s' \<Longrightarrow> length (filter progress as) + work s' \<le> work s + 10 * length (filter sends as)"
proof (induction as arbitrary: s)
  case (Cons a as)
  from Cons.prems obtain s1 where s1: "exec c a s = Some s1" "runActs c as s1 = Some s'" by (auto simp: bind_eq_Some_conv)
  from Cons.IH [OF s1(2)] exec_work [OF s1(1)] show ?case by (auto split: if_splits)
qed simp

lemma shutdown_completes:
  assumes "reach c s" and "ctxDone s"
  shows "\<exists>as s'. runActs c as s = Some s' \<and> length as \<le> work s \<and> stopped s'"
  using assms
proof (induction "work s" arbitrary: s rule: less_induct)
  case less
  show ?case
  proof (cases "stopped s")
    case True
    then show ?thesis by (intro exI [of _ "[]"]) simp
  next
    case False
    from shutdown_progress [OF reach_shape [OF less.prems(1)] less.prems(2) False]
    obtain a s1 where s1: "exec c a s = Some s1" "work s1 < work s" "ctxDone s1" by blast
    from less.hyps [OF s1(2) reach.move [OF less.prems(1) s1(1)] s1(3)]
    obtain as s' where "runActs c as s1 = Some s'" "length as \<le> work s1" "stopped s'" by blast
    with s1 show ?thesis by (intro exI [of _ "a # as"] exI [of _ s']) simp
  qed
qed

lemma stopped_held:
  assumes "shape c s" and "stopped s"
  shows "held s = mset (ch s)"
proof -
  have "0 < workerCount c" by (simp add: workerCount_def)
  with assms have "WExit \<in> set (flushers s)" by (cases "flushers s") (auto simp: shape_def stopped_def)
  with assms have "flushQ s = []" "batch s = []" by (auto simp: shape_def stopped_def split: if_splits)
  moreover have "\<And>w. w \<in> set (flushers s) \<Longrightarrow> flusherBatch w = []" using assms(2) by (auto simp: stopped_def list_all_iff)
  then have "inFlight s = []" by (simp add: inFlight_def)
  ultimately show ?thesis using assms(2) by (simp add: held_def stopped_def)
qed

text \<open>An undisturbed call of \<open>Add\<close> is the sequence of its atomic operations.\<close>

lemma remove1_hd: "remove1 x (x # xs) = xs"
  by simp

lemma ConsumerAdd_runs:
  "\<exists>as. runActs c (AReserve x # as) s = Some (snd (ConsumerAdd c x s)) \<and> length as = 1"
proof -
  have s: "s\<lparr>pend := pend s\<rparr> = s" "s\<lparr>undo := undo s\<rparr> = s" "s\<lparr>bufBytes := bufBytes s\<rparr> = s" by simp_all
  show ?thesis
  proof (cases "sizingEnabled c \<and> bufBytes s + itemSize c x > ByteBudget c")
    case True
    then show ?thesis
      by (intro exI [of _ "[AUndo (itemSize c x)]"]) (simp add: addReserve_def addUndo_def ConsumerAdd_def Let_def)
  next
    case False
    then have "addReserve c x s = s\<lparr>bufBytes := bufBytes s + itemSize c x, pend := x # pend s\<rparr>"
      by (auto simp: addReserve_def Let_def itemSize_def)
    with False show ?thesis
      by (intro exI [of _ "[ASend x]"]) (auto simp: addSend_def ConsumerAdd_def Let_def)
  qed
qed

section \<open>A sample run\<close>

text \<open>Two items go through one batch, one is refused for its size, and the consumer is cancelled.\<close>

definition sampleOpts :: "nat ConsumerOptions" where
  "sampleOpts = \<lparr>BatchSize = 2, BufferSize = 2, Workers = 1, ByteBudget = 10, sizeOf = Some int\<rparr>"

definition sampleActs :: "nat act list" where
  "sampleActs = [AReserve 3, ASend 3, AReserve 4, AReserve 9, AUndo 9, ASend 4, ARecv, ARecv, ASendOK, AFlusher 0 True,
     AFlusher 0 True, AFlusher 0 False, ACancel]"

lemma sample_run:
  "\<exists>s. runActs sampleOpts sampleActs (Start sampleOpts) = Some s \<and> ctxDone s \<and> accepted s = 2 \<and> dropped s = 1 \<and> bufBytes s = 7"
proof -
  have "case runActs sampleOpts sampleActs (Start sampleOpts) of
      Some s \<Rightarrow> ctxDone s \<and> accepted s = 2 \<and> dropped s = 1 \<and> bufBytes s = 7 | None \<Rightarrow> False"
    by code_simp
  then show ?thesis by (auto split: option.splits)
qed

section \<open>Properties\<close>

text \<open>
  C2. No telemetry is lost silently. In every reachable state of the consumer, whatever producers, the
  batching loop and the flushers do and whatever the database answers, each admitted item is in the
  pipeline, was written, or is counted: write failures count the items of failed batches, and drops count
  the refused and the abandoned ones. Once the consumer has stopped, only items that raced into the channel
  after the drain are left.
\<close>

theorem Consumer_conserves:
  assumes "reach c s"
  shows "mset (admitted s) = held s + mset (written s) + mset (failed s) + mset (abandoned s) \<and>
    accepted s = int (length (admitted s)) \<and> writeFailed s = int (length (failed s)) \<and>
    dropped s = int (refused s) + int (length (abandoned s)) \<and> (stopped s \<longrightarrow> held s = mset (ch s))"
  using reach_conserved [OF assms] stopped_held [OF reach_shape [OF assms]] by (simp add: conserved_def)

theorem Consumer_conserves_witness:
  "\<exists>s. runActs sampleOpts sampleActs (Start sampleOpts) = Some s \<and>
     mset (admitted s) = held s + mset (written s) + mset (failed s) + mset (abandoned s) \<and> length (admitted s) = 2"
proof -
  from sample_run obtain s where s: "runActs sampleOpts sampleActs (Start sampleOpts) = Some s" "accepted s = 2" by blast
  from Consumer_conserves [OF runActs_reach [OF reach.start s(1)]] s show ?thesis by auto
qed

text \<open>
  C36. For items whose size does not change while they are inside and is never negative, the byte budget bounds what is held: at every moment of
  every interleaving the items inside the pipeline and the reservations that passed the check together stay within \<open>ByteBudget\<close>. The
  counter is the exact sum of these and of the reservations that were refused and are not yet taken back, so nothing leaks; only by those
  can the counter itself, as its comment says, overshoot the budget.
\<close>

theorem Consumer_budget:
  assumes "reach c s" and "\<And>x. 0 \<le> itemSize c x" and "sizingEnabled c"
  shows "heldBytes c s + sum_list (map (itemSize c) (pend s)) \<le> ByteBudget c \<and>
    bufBytes s = heldBytes c s + sum_list (map (itemSize c) (pend s)) + sum_list (undo s)"
  using reach_budgeted [OF assms(1,2)] assms(3) by (auto simp: budgeted_def)

theorem Consumer_budget_witness:
  "\<exists>s. runActs sampleOpts sampleActs (Start sampleOpts) = Some s \<and>
     heldBytes sampleOpts s + sum_list (map (itemSize sampleOpts) (pend s)) \<le> 10"
proof -
  from sample_run obtain s where s: "runActs sampleOpts sampleActs (Start sampleOpts) = Some s" by blast
  have "sizingEnabled sampleOpts" "\<And>x. 0 \<le> itemSize sampleOpts x" "ByteBudget sampleOpts = 10"
    by (simp_all add: sampleOpts_def sizingEnabled_def itemSize_def)
  with Consumer_budget [OF runActs_reach [OF reach.start s]] s show ?thesis by auto
qed

text \<open>
  C35. Shutdown completes: after cancellation every reachable state in which the loop or a flusher has not
  returned has a step of the loop or a flusher, and no run has more such steps than the work that was left and
  ten for each item that a producer still sends. So once producers cease, every run of the consumer is finite
  and ends with the loop and all flushers returned, even when every flush fails.
\<close>

theorem Consumer_stops:
  assumes "reach c s" and "ctxDone s"
  shows "(stopped s \<or> (\<exists>a s'. progress a \<and> exec c a s = Some s')) \<and>
    (\<forall>as s'. runActs c as s = Some s' \<longrightarrow> length (filter progress as) \<le> work s + 10 * length (filter sends as))"
  using shutdown_progress [OF reach_shape [OF assms(1)] assms(2)] runActs_work [of c _ s] by (meson add_leD1)

theorem Consumer_stops_witness:
  "\<exists>s. runActs sampleOpts sampleActs (Start sampleOpts) = Some s \<and> ctxDone s \<and> (stopped s \<or> (\<exists>a s'. progress a \<and> exec sampleOpts a s = Some s'))"
proof -
  from sample_run obtain s where s: "runActs sampleOpts sampleActs (Start sampleOpts) = Some s" "ctxDone s" by blast
  from Consumer_stops [OF runActs_reach [OF reach.start s(1)] s(2)] s show ?thesis by blast
qed

end
