(* ===== verification/Glob.thy ===== *)
theory Glob
  imports UTF8
begin

text \<open>
  The wildcard matcher of the autocomplete cache (\<open>glob\<close>, \<open>matchPattern\<close> and \<open>filterByPattern\<close> in
  \<open>internal/acache/acache.go\<close>). The loop with its single backtracking point is kept on indices, as a
  partial function; the theorems show that it returns and that it decides the declarative matching
  relation on values without a literal \<open>*\<close>.
\<close>

section \<open>The loop\<close>

type_synonym rune = string

definition starR :: rune where "starR = ''*''"
definition questR :: rune where "questR = ''?''"

text \<open>The trailing loop that skips stars.\<close>

definition allStars :: "rune list \<Rightarrow> bool" where
  "allStars p = list_all (\<lambda>c. c = starR) p"

text \<open>\<open>star\<close> is \<open>None\<close> where the source has -1.\<close>

partial_function (option) glob_loop ::
  "rune list \<Rightarrow> rune list \<Rightarrow> nat \<Rightarrow> nat \<Rightarrow> nat option \<Rightarrow> nat \<Rightarrow> bool option" where
  [code]: "glob_loop pr sr pi si star mark =
     (if si < length sr then
        (if pi < length pr \<and> (pr ! pi = questR \<or> pr ! pi = sr ! si)
         then glob_loop pr sr (pi + 1) (si + 1) star mark
         else if pi < length pr \<and> pr ! pi = starR
         then glob_loop pr sr (pi + 1) si (Some pi) si
         else case star of
           Some st \<Rightarrow> glob_loop pr sr (st + 1) (mark + 1) star (mark + 1)
         | None \<Rightarrow> Some False)
      else Some (allStars (drop pi pr)))"

definition glob :: "string \<Rightarrow> string \<Rightarrow> bool option" where
  "glob pattern s = glob_loop (runes pattern) (runes s) 0 0 None 0"

text \<open>\<open>strings.ToLower\<close> is an argument: it is applied to user text.\<close>

definition matchPattern :: "(string \<Rightarrow> string) \<Rightarrow> string \<Rightarrow> string \<Rightarrow> bool option" where
  "matchPattern lower value pattern =
     (let v = lower value; p = lower pattern in
      if CHR ''*'' \<notin> set p \<and> CHR ''?'' \<notin> set p then Some (Contains v p) else glob p v)"

fun filterByPattern :: "(string \<Rightarrow> string) \<Rightarrow> string list \<Rightarrow> string \<Rightarrow> string list option" where
  "filterByPattern lower [] pattern = Some []"
| "filterByPattern lower (v # vs) pattern =
     (case (matchPattern lower v pattern, filterByPattern lower vs pattern) of
        (Some b, Some out) \<Rightarrow> Some (if b then v # out else out)
      | _ \<Rightarrow> None)"

section \<open>The matching relation\<close>

fun gmatch :: "rune list \<Rightarrow> rune list \<Rightarrow> bool" where
  "gmatch [] s \<longleftrightarrow> s = []"
| "gmatch (c # p) s \<longleftrightarrow>
     (if c = starR then gmatch p s \<or> (case s of [] \<Rightarrow> False | _ # s' \<Rightarrow> gmatch (c # p) s')
      else case s of [] \<Rightarrow> False | x # s' \<Rightarrow> (c = questR \<or> c = x) \<and> gmatch p s')"

lemma ex_nat_split: "(\<exists>k. P k) \<longleftrightarrow> P 0 \<or> (\<exists>k. P (Suc k))"
  using not0_implies_Suc by metis

lemma gmatch_star: "gmatch (starR # p) s \<longleftrightarrow> (\<exists>k. gmatch p (drop k s))"
proof (induction s)
  case (Cons x s)
  then show ?case by (subst ex_nat_split) simp
qed simp

lemma gmatch_star_drop: "gmatch (starR # p) (drop k s) \<Longrightarrow> gmatch (starR # p) s"
  unfolding gmatch_star by (auto simp: add.commute)

lemma gmatch_star_tl: "gmatch (starR # p) s \<longleftrightarrow> gmatch p s \<or> (s \<noteq> [] \<and> gmatch (starR # p) (tl s))"
  by (cases s) auto

text \<open>A segment of a pattern without stars, matched rune by rune.\<close>

definition seg :: "rune list \<Rightarrow> rune list \<Rightarrow> bool" where
  "seg q u \<longleftrightarrow> list_all2 (\<lambda>c x. c \<noteq> starR \<and> (c = questR \<or> c = x)) q u"

lemma gmatch_seg_prefix:
  assumes "starR \<notin> set q"
  shows "gmatch (q @ p) s \<longleftrightarrow> length q \<le> length s \<and> seg q (take (length q) s) \<and> gmatch p (drop (length q) s)"
  using assms
proof (induction q arbitrary: s)
  case (Cons c q)
  then show ?case by (cases s) (auto simp: seg_def)
qed (simp add: seg_def)

lemma seg_nostar: "seg q u \<Longrightarrow> starR \<notin> set q" and seg_length: "seg q u \<Longrightarrow> length q = length u"
  by (auto simp: seg_def list_all2_conv_all_nth in_set_conv_nth)

text \<open>Enough runes are needed for the runes of a pattern that are no stars.\<close>

lemma gmatch_length: "gmatch p s \<Longrightarrow> length (filter (\<lambda>c. c \<noteq> starR) p) \<le> length s"
proof (induction p s rule: gmatch.induct)
  case (2 c p s)
  then show ?case by (cases s) (auto split: if_splits)
qed simp

lemma gmatch_end: "gmatch p [] \<longleftrightarrow> allStars p"
  by (induction p) (auto simp: allStars_def)

text \<open>The two facts behind one backtracking point: an older star is never needed again, and at the end
  of the value it cannot help.\<close>

lemma older_star:
  assumes "seg q u" and "gmatch (starR # q @ starR # p) (tl (u @ s))"
  shows "gmatch (starR # p) s"
proof -
  from assms(2) obtain k where k: "gmatch (q @ starR # p) (drop k (tl (u @ s)))"
    unfolding gmatch_star by blast
  have "gmatch (starR # p) (drop (length q) (drop k (tl (u @ s))))"
    using k gmatch_seg_prefix [OF seg_nostar [OF assms(1)]] by blast
  moreover have "drop (length q) (drop k (tl (u @ s))) = drop (Suc k) s"
    using seg_length [OF assms(1)] by (simp add: drop_Suc [symmetric] del: drop_append) (simp add: tl_drop)
  ultimately show ?thesis using gmatch_star_drop by metis
qed

lemma end_no_backtrack:
  assumes "seg q u" and "\<not> allStars p" and "u \<noteq> []"
  shows "\<not> gmatch (starR # q @ p) (tl u)"
proof
  assume "gmatch (starR # q @ p) (tl u)"
  then have "length (filter (\<lambda>c. c \<noteq> starR) (q @ p)) \<le> length (tl u)"
    using gmatch_length by fastforce
  moreover have "filter (\<lambda>c. c \<noteq> starR) q = q"
    using seg_nostar [OF assms(1)] by (auto intro: filter_True)
  moreover have "0 < length (filter (\<lambda>c. c \<noteq> starR) p)"
    using assms(2) by (auto simp: allStars_def list_all_iff filter_empty_conv)
  ultimately show False using seg_length [OF assms(1)] assms(3) by (cases u) auto
qed

section \<open>Correctness of the loop\<close>

text \<open>The state of the loop: since the last star, pattern and value advanced in step.\<close>

definition glob_inv :: "rune list \<Rightarrow> rune list \<Rightarrow> nat \<Rightarrow> nat \<Rightarrow> nat option \<Rightarrow> nat \<Rightarrow> bool" where
  "glob_inv pr sr pi si star mark \<longleftrightarrow>
     pi \<le> length pr \<and> si \<le> length sr \<and>
     (\<forall>st. star = Some st \<longrightarrow>
        st < pi \<and> mark \<le> si \<and> (\<exists>q u. seg q u \<and> drop (st + 1) pr = q @ drop pi pr \<and> drop mark sr = u @ drop si sr))"

text \<open>What the loop answers: the rest matches, or it matches after the last star took one rune more.\<close>

definition glob_spec :: "rune list \<Rightarrow> rune list \<Rightarrow> nat \<Rightarrow> nat \<Rightarrow> nat option \<Rightarrow> nat \<Rightarrow> bool" where
  "glob_spec pr sr pi si star mark \<longleftrightarrow>
     gmatch (drop pi pr) (drop si sr) \<or>
     (\<exists>st. star = Some st \<and> mark < length sr \<and> gmatch (starR # drop (st + 1) pr) (drop (mark + 1) sr))"

lemma glob_spec_Some:
  "glob_spec pr sr pi si (Some st) m \<longleftrightarrow> gmatch (drop pi pr) (drop si sr) \<or>
     m < length sr \<and> gmatch (starR # drop (st + 1) pr) (drop (m + 1) sr)"
  by (simp only: glob_spec_def option.inject ex_simps simp_thms)

definition glob_measure :: "rune list \<Rightarrow> rune list \<Rightarrow> nat \<Rightarrow> nat option \<Rightarrow> nat \<Rightarrow> nat \<times> nat \<times> nat" where
  "glob_measure pr sr si star mark =
     (case star of None \<Rightarrow> length pr + 1 | Some st \<Rightarrow> length pr - st, length sr - mark, length sr - si)"

lemma glob_step_same:
  assumes "glob_inv pr sr pi si star mark" and "pi < length pr" "si < length sr"
    and "pr ! pi \<noteq> starR" and "pr ! pi = questR \<or> pr ! pi = sr ! si"
  shows "glob_inv pr sr (pi + 1) (si + 1) star mark"
    and "glob_spec pr sr (pi + 1) (si + 1) star mark = glob_spec pr sr pi si star mark"
proof -
  note d = Cons_nth_drop_Suc [OF assms(2), symmetric] Cons_nth_drop_Suc [OF assms(3), symmetric]
  have "seg (q @ [pr ! pi]) (u @ [sr ! si])" if "seg q u" for q u
    using that assms(4,5) by (auto simp: seg_def list_all2_appendI)
  then show "glob_inv pr sr (pi + 1) (si + 1) star mark"
    using assms(1-3) d unfolding glob_inv_def
    by (auto simp: Suc_le_eq)
  show "glob_spec pr sr (pi + 1) (si + 1) star mark = glob_spec pr sr pi si star mark"
    using assms(4,5) by (simp add: glob_spec_def d)
qed

lemma glob_step_star:
  assumes "glob_inv pr sr pi si star mark" and "pi < length pr" "si < length sr" and "pr ! pi = starR"
  shows "glob_inv pr sr (pi + 1) si (Some pi) si"
    and "glob_spec pr sr (pi + 1) si (Some pi) si = glob_spec pr sr pi si star mark"
proof -
  note d = Cons_nth_drop_Suc [OF assms(2), symmetric] Cons_nth_drop_Suc [OF assms(3), symmetric]
  show "glob_inv pr sr (pi + 1) si (Some pi) si"
    using assms(2,3) by (auto simp: glob_inv_def seg_def intro!: exI [of _ "[]"])
  have "gmatch (starR # drop (Suc pi) pr) (drop si sr)"
    if st: "star = Some st" and g: "gmatch (starR # drop (st + 1) pr) (drop (mark + 1) sr)" for st
  proof -
    from assms(1) st obtain q u where q: "seg q u" "drop (st + 1) pr = q @ drop pi pr" "drop mark sr = u @ drop si sr"
      by (auto simp: glob_inv_def)
    have "drop (mark + 1) sr = tl (u @ drop si sr)" unfolding q(3) [symmetric] by (simp add: drop_Suc tl_drop)
    with g q d(1) assms(4) have "gmatch (starR # q @ starR # drop (Suc pi) pr) (tl (u @ drop si sr))" by metis
    with q(1) show ?thesis by (rule older_star)
  qed
  then have "glob_spec pr sr pi si star mark = gmatch (starR # drop (Suc pi) pr) (drop si sr)"
    unfolding glob_spec_def d(1) assms(4) by blast
  also have "\<dots> = glob_spec pr sr (pi + 1) si (Some pi) si"
  proof -
    have "drop si sr \<noteq> []" "tl (drop si sr) = drop (si + 1) sr" using assms(3) by (simp_all add: drop_Suc tl_drop)
    with gmatch_star_tl [of "drop (Suc pi) pr" "drop si sr"] assms(3) show ?thesis
      unfolding glob_spec_Some by (simp only: Suc_eq_plus1 simp_thms)
  qed
  finally show "glob_spec pr sr (pi + 1) si (Some pi) si = glob_spec pr sr pi si star mark" by simp
qed

lemma glob_step_back:
  assumes "glob_inv pr sr pi si (Some st) mark" and "si < length sr"
    and "\<not> (pi < length pr \<and> (pr ! pi = questR \<or> pr ! pi = sr ! si))" "\<not> (pi < length pr \<and> pr ! pi = starR)"
  shows "glob_inv pr sr (st + 1) (mark + 1) (Some st) (mark + 1)"
    and "glob_spec pr sr (st + 1) (mark + 1) (Some st) (mark + 1) = glob_spec pr sr pi si (Some st) mark"
proof -
  from assms(1,2) have m: "mark < length sr" "st < pi" "pi \<le> length pr" by (auto simp: glob_inv_def)
  then show "glob_inv pr sr (st + 1) (mark + 1) (Some st) (mark + 1)"
    by (auto simp: glob_inv_def seg_def intro!: exI [of _ "[]"])
  have no: "\<not> gmatch (drop pi pr) (drop si sr)"
    using assms(2-4)
    by (cases "pi < length pr") (auto simp: Cons_nth_drop_Suc [symmetric])
  from gmatch_star_tl [of "drop (Suc st) pr" "drop (Suc mark) sr"]
  show "glob_spec pr sr (st + 1) (mark + 1) (Some st) (mark + 1) = glob_spec pr sr pi si (Some st) mark"
    using no m by (auto simp: glob_spec_def tl_drop [symmetric] drop_Suc [of "Suc mark"] Suc_le_eq)
qed

lemma glob_loop_correct:
  assumes "glob_inv pr sr pi si star mark" and "starR \<notin> set sr"
  shows "glob_loop pr sr pi si star mark = Some (glob_spec pr sr pi si star mark)"
  using assms(1)
proof (induction "glob_measure pr sr si star mark" arbitrary: pi si star mark
    rule: wf_induct_rule [OF wf_lex_prod [OF wf_less_than wf_lex_prod [OF wf_less_than wf_less_than]]])
  case (1 si star mark pi)
  note inv = "1.prems"
  note IH = "1.hyps"
  show ?case
  proof (cases "si < length sr")
    case si: False
    with inv have e: "drop si sr = []" by simp
    have "\<not> gmatch (starR # drop (st + 1) pr) (drop (mark + 1) sr)"
      if st: "star = Some st" and m: "mark < length sr" and na: "\<not> allStars (drop pi pr)" for st
    proof -
      from inv st obtain q u where "seg q u" "drop (st + 1) pr = q @ drop pi pr" "drop mark sr = u @ drop si sr"
        by (auto simp: glob_inv_def)
      moreover from this e m have "u \<noteq> []" "drop (mark + 1) sr = tl u"
        by (auto simp: drop_Suc tl_drop [symmetric])
      ultimately show ?thesis using end_no_backtrack [of q u "drop pi pr"] na by metis
    qed
    then have "glob_spec pr sr pi si star mark = allStars (drop pi pr)"
      unfolding glob_spec_def e gmatch_end by blast
    then show ?thesis using si by (simp add: glob_loop.simps [of pr sr pi si])
  next
    case si: True
    consider (same) "pi < length pr" "pr ! pi = questR \<or> pr ! pi = sr ! si"
      | (star) "pi < length pr" "pr ! pi = starR" "\<not> (pr ! pi = questR \<or> pr ! pi = sr ! si)"
      | (retry) "\<not> (pi < length pr \<and> (pr ! pi = questR \<or> pr ! pi = sr ! si))" "\<not> (pi < length pr \<and> pr ! pi = starR)"
      by blast
    then show ?thesis
    proof cases
      case same
      then have "pr ! pi \<noteq> starR" using assms(2) nth_mem [OF si] by (auto simp: starR_def questR_def)
      note s = glob_step_same [OF inv same(1) si this same(2)]
      have "glob_loop pr sr (pi + 1) (si + 1) star mark = Some (glob_spec pr sr (pi + 1) (si + 1) star mark)"
        using si s(1) by (intro IH) (auto simp: glob_measure_def)
      with s si same show ?thesis by (simp add: glob_loop.simps [of pr sr pi si])
    next
      case star
      note s = glob_step_star [OF inv star(1) si star(2)]
      have "glob_loop pr sr (pi + 1) si (Some pi) si = Some (glob_spec pr sr (pi + 1) si (Some pi) si)"
        using si s(1) star(1) inv
        by (intro IH) (auto simp: glob_measure_def glob_inv_def split: option.splits)
      with s si star show ?thesis by (simp add: glob_loop.simps [of pr sr pi si])
    next
      case retry
      show ?thesis
      proof (cases star)
        case None
        with retry si have "\<not> gmatch (drop pi pr) (drop si sr)"
          by (cases "pi < length pr") (auto simp: Cons_nth_drop_Suc [symmetric])
        with None retry si show ?thesis by (auto simp: glob_loop.simps [of pr sr pi si] glob_spec_def)
      next
        case (Some st)
        note s = glob_step_back [OF inv [unfolded Some] si retry]
        from inv Some si have "mark < length sr" by (auto simp: glob_inv_def)
        then have "glob_loop pr sr (st + 1) (mark + 1) (Some st) (mark + 1) =
            Some (glob_spec pr sr (st + 1) (mark + 1) (Some st) (mark + 1))"
          using s(1) Some by (intro IH) (auto simp: glob_measure_def)
        with s si retry Some show ?thesis by (auto simp: glob_loop.simps [of pr sr pi si])
      qed
    qed
  qed
qed

section \<open>The loop returns\<close>

lemma glob_loop_returns:
  assumes "\<forall>st. star = Some st \<longrightarrow> st < pi \<and> mark \<le> si"
  shows "\<exists>b. glob_loop pr sr pi si star mark = Some b"
  using assms
proof (induction "glob_measure pr sr si star mark" arbitrary: pi si star mark
    rule: wf_induct_rule [OF wf_lex_prod [OF wf_less_than wf_lex_prod [OF wf_less_than wf_less_than]]])
  case (1 si star mark pi)
  note IH = "1.hyps"
  consider (stop) "\<not> si < length sr"
    | (same) "si < length sr" "pi < length pr" "pr ! pi = questR \<or> pr ! pi = sr ! si"
    | (star) "si < length sr" "pi < length pr" "pr ! pi = starR" "\<not> (pr ! pi = questR \<or> pr ! pi = sr ! si)"
    | (retry) "si < length sr" "\<not> (pi < length pr \<and> (pr ! pi = questR \<or> pr ! pi = sr ! si))"
        "\<not> (pi < length pr \<and> pr ! pi = starR)"
    by blast
  then show ?case
  proof cases
    case same
    have "\<exists>b. glob_loop pr sr (pi + 1) (si + 1) star mark = Some b"
      using same "1.prems" by (intro IH) (auto simp: glob_measure_def)
    with same show ?thesis by (simp add: glob_loop.simps [of pr sr pi si])
  next
    case star
    have "\<exists>b. glob_loop pr sr (pi + 1) si (Some pi) si = Some b"
      using star "1.prems" by (intro IH) (auto simp: glob_measure_def split: option.splits)
    with star show ?thesis by (simp add: glob_loop.simps [of pr sr pi si])
  next
    case retry
    show ?thesis
    proof (cases star)
      case (Some st)
      then have "\<exists>b. glob_loop pr sr (st + 1) (mark + 1) (Some st) (mark + 1) = Some b"
        using retry "1.prems" by (intro IH) (auto simp: glob_measure_def)
      with retry Some show ?thesis by (auto simp: glob_loop.simps [of pr sr pi si])
    qed (use retry in \<open>auto simp: glob_loop.simps [of pr sr pi si]\<close>)
  qed (simp add: glob_loop.simps [of pr sr pi si])
qed

lemma glob_returns: "\<exists>b. glob p s = Some b"
  by (simp add: glob_def glob_loop_returns)

lemma matchPattern_returns: "\<exists>b. matchPattern lower v p = Some b"
  by (simp add: matchPattern_def Let_def glob_returns)

lemma filterByPattern_filter:
  "filterByPattern lower vs p = Some (filter (\<lambda>v. matchPattern lower v p = Some True) vs)"
proof (induction vs)
  case (Cons v vs)
  then show ?case using matchPattern_returns [of lower v p] by (auto split: option.splits)
qed simp

section \<open>Runes of a value\<close>

lemma runes_bytes: "starR \<in> set (runes s) \<Longrightarrow> CHR ''*'' \<in> set s"
proof (induction s rule: runes.induct)
  case (1 s)
  show ?case
  proof (cases "starR = fst (decodeRune s)")
    case True
    then show ?thesis
      by (auto simp: decodeRune_def starR_def split: option.splits) (metis in_set_takeD list.set_intros(1))
  next
    case False
    with 1 have "s \<noteq> []" "starR \<in> set (runes (drop (snd (decodeRune s)) s))"
      by (auto simp: runes.simps [of s] split: if_splits)
    with 1 show ?thesis by (meson in_set_dropD)
  qed
qed

section \<open>Properties\<close>

text \<open>
  The wildcard matcher terminates on every pattern and value, although its loop moves backwards.
\<close>

theorem glob_terminates: "\<exists>b. glob pattern s = Some b"
  by (rule glob_returns)

text \<open>
  The linear matcher with one backtracking point decides the matching relation (\<open>*\<close> any run of
  runes, \<open>?\<close> any single rune, the whole value), for every pattern and every value without a \<open>*\<close>.
\<close>

theorem glob_correct:
  assumes "CHR ''*'' \<notin> set s"
  shows "glob p s = Some (gmatch (runes p) (runes s))"
proof -
  from assms have "starR \<notin> set (runes s)" using runes_bytes by blast
  moreover have "glob_inv (runes p) (runes s) 0 0 None 0" by (simp add: glob_inv_def)
  ultimately show ?thesis by (simp add: glob_def glob_loop_correct glob_spec_def)
qed

theorem glob_correct_witness: "glob ''/api/*/o?ders*'' ''/api/v1/x/orders'' = Some True"
proof -
  have "gmatch (runes ''/api/*/o?ders*'') (runes ''/api/v1/x/orders'')" by code_simp
  with glob_correct [of "''/api/v1/x/orders''" "''/api/*/o?ders*''"] show ?thesis by simp
qed

text \<open>
  A value with a literal \<open>*\<close> can be missed: the loop compares runes before it looks for a star in
  the pattern, so a leading star of the pattern is consumed by a star of the value.
\<close>

theorem glob_misses_literal_star:
  "glob ''*b'' ''*ab'' = Some False \<and> gmatch (runes ''*b'') (runes ''*ab'')"
  by (rule conjI; code_simp)

end
