(* ===== verification/ACache.thy ===== *)
theory ACache
  imports Glob GoInt "HOL-Library.AList" "HOL-Library.List_Lexorder" "HOL-Library.Char_ord"
begin

text \<open>
  The autocomplete cache (\<open>internal/acache/acache.go\<close>): the cardinality policy, the options, the
  in-memory delta window that \<open>ObserveSpan\<close> fills, the pipeline of Redis commands that \<open>Flush\<close> and
  \<open>Sweep\<close> issue, and the reads. Redis is not part of the program: a flush is the list of commands it
  sends and a read takes Redis' answers as functions, \<open>None\<close> being an error. Go maps are association
  lists with distinct keys, their order standing for the unspecified iteration order. Counters are
  unbounded; a window would need \<open>2 ^ 63\<close> spans to overflow one. Connecting to Redis, the two
  background tickers and the mutex are left out: operations are atomic steps.
\<close>

section \<open>Keys\<close>

definition keyServices :: string where "keyServices = ''coremetry:services''"
definition keyServicesRank :: string where "keyServicesRank = ''coremetry:services:rank''"
definition keyOpsSetPrefix :: string where "keyOpsSetPrefix = ''coremetry:ops:''"
definition keyOpsRankPrefix :: string where "keyOpsRankPrefix = ''coremetry:ops:rank:''"
definition keyAttrKeys :: string where "keyAttrKeys = ''coremetry:attr:keys''"
definition keyAttrValPrefix :: string where "keyAttrValPrefix = ''coremetry:attr:''"
definition keyAttrCardPrefix :: string where "keyAttrCardPrefix = ''coremetry:attr:card:''"
definition tsSuffix :: string where "tsSuffix = '':ts''"
definition tsRegistry :: string where "tsRegistry = ''coremetry:acache:tsreg''"

lemmas key_defs = keyServices_def keyServicesRank_def keyOpsSetPrefix_def keyOpsRankPrefix_def
  keyAttrKeys_def keyAttrValPrefix_def keyAttrCardPrefix_def tsSuffix_def tsRegistry_def

section \<open>Cardinality policy\<close>

datatype Card = CardTrack | CardHLL | CardSkip

type_synonym Policy = "string \<Rightarrow> Card"

record StaticPolicy =
  low :: "string set"
  high :: "string set"
  Default :: Card

definition policyKeys :: "string list \<Rightarrow> string set" where
  "policyKeys ks = {k \<in> TrimSpace ` set ks. k \<noteq> []}"

definition NewStaticPolicy :: "string list \<Rightarrow> string list \<Rightarrow> Card \<Rightarrow> StaticPolicy" where
  "NewStaticPolicy lowCard highCard def =
     \<lparr>low = policyKeys lowCard, high = policyKeys highCard, Default = def\<rparr>"

definition Classify :: "StaticPolicy \<Rightarrow> Policy" where
  "Classify p k = (if k \<in> low p then CardTrack else if k \<in> high p then CardHLL else Default p)"

definition DefaultPolicy :: StaticPolicy where
  "DefaultPolicy = NewStaticPolicy
     [''http.status_code'', ''http.route'', ''http.method'', ''http.scheme'',
      ''rpc.method'', ''rpc.system'', ''rpc.service'',
      ''db.system'', ''db.operation'', ''db.name'',
      ''messaging.system'', ''messaging.operation'', ''messaging.destination.name'',
      ''cloud.region'', ''cloud.provider'', ''cloud.availability_zone'',
      ''deployment.environment'', ''service.namespace'', ''service.version'',
      ''peer.service'', ''server.address'', ''kind'', ''otel.status_code'']
     [''trace_id'', ''span_id'', ''parent_id'',
      ''banking.account_id'', ''user.id'', ''enduser.id'', ''session.id'',
      ''k8s.pod.name'', ''k8s.pod.uid'', ''host.id'', ''container.id'',
      ''http.url'', ''url.full'', ''http.target'', ''url.path'',
      ''db.statement'', ''db.query.text'', ''exception.stacktrace'',
      ''thread.id'', ''net.peer.port'', ''client.address'']
     CardHLL"

section \<open>Options and store\<close>

text \<open>Durations are nanoseconds.\<close>

definition second :: int where "second = 1000000000"

record Options =
  OPolicy :: "Policy option"
  FlushEvery :: int
  TTL :: int
  TopN :: int
  MaxValLen :: int
  MaxDistinctPerKey :: int
  WindowMode :: bool
  WindowSize :: int
  SweepEvery :: int

definition applyDefaults :: "Options \<Rightarrow> Options" where
  "applyDefaults opt =
     \<lparr>OPolicy = (if OPolicy opt = None then Some (Classify DefaultPolicy) else OPolicy opt),
      FlushEvery = (if FlushEvery opt \<le> 0 then 2 * second else FlushEvery opt),
      TTL = (if TTL opt = 0 then 24 * 3600 * second else TTL opt),
      TopN = (if TopN opt \<le> 0 then 1000 else TopN opt),
      MaxValLen = (if MaxValLen opt \<le> 0 then 256 else MaxValLen opt),
      MaxDistinctPerKey = (if MaxDistinctPerKey opt \<le> 0 then 50000 else MaxDistinctPerKey opt),
      WindowMode = WindowMode opt,
      WindowSize = (if WindowSize opt \<le> 0 then 24 * 3600 * second else WindowSize opt),
      SweepEvery = (if SweepEvery opt \<le> 0 then 300 * second else SweepEvery opt)\<rparr>"

record agg =
  services :: "(string \<times> int) list"
  ops :: "(string \<times> (string \<times> int) list) list"
  attrVals :: "(string \<times> (string \<times> int) list) list"
  attrHLL :: "(string \<times> (string \<times> unit) list) list"
  keys :: "(string \<times> unit) list"

definition newAgg :: agg where
  "newAgg = \<lparr>services = [], ops = [], attrVals = [], attrHLL = [], keys = []\<rparr>"

definition agg_empty :: "agg \<Rightarrow> bool" where
  "agg_empty a \<longleftrightarrow> services a = [] \<and> ops a = [] \<and> attrVals a = [] \<and> attrHLL a = [] \<and> keys a = []"

record Store =
  disabled :: bool
  opt :: Options
  policy :: Policy
  cur :: agg

text \<open>The argument of \<open>NewStore\<close> is whether a client was given.\<close>

definition NewStore :: "bool \<Rightarrow> Options \<Rightarrow> Store" where
  "NewStore cli o0 =
     (let o' = applyDefaults o0 in
      \<lparr>disabled = \<not> cli, opt = o', policy = the (OPolicy o'), cur = newAgg\<rparr>)"

definition Enabled :: "Store option \<Rightarrow> bool" where
  "Enabled s \<longleftrightarrow> (case s of None \<Rightarrow> False | Some st \<Rightarrow> \<not> disabled st)"

definition SetPolicy :: "Store \<Rightarrow> Policy option \<Rightarrow> Store" where
  "SetPolicy s p = (case p of None \<Rightarrow> s | Some p \<Rightarrow> s\<lparr>policy := p\<rparr>)"

section \<open>Ingestion\<close>

text \<open>\<open>m[k]++\<close>, and the entry of a nested map, created when it is absent.\<close>

definition incr :: "string \<Rightarrow> (string \<times> int) list \<Rightarrow> (string \<times> int) list" where
  "incr k m = AList.update k ((case map_of m k of None \<Rightarrow> 0 | Some n \<Rightarrow> n) + 1) m"

definition inner :: "string \<Rightarrow> (string \<times> 'b list) list \<Rightarrow> 'b list" where
  "inner k m = (case map_of m k of None \<Rightarrow> [] | Some x \<Rightarrow> x)"

definition observeAttr :: "int \<Rightarrow> int \<Rightarrow> Policy \<Rightarrow> string \<Rightarrow> string \<Rightarrow> agg \<Rightarrow> agg" where
  "observeAttr maxVal maxDistinct pol key val a =
     (if key = [] \<or> val = [] \<or> int (length val) > maxVal then a
      else
        (let a = a\<lparr>keys := AList.update key () (keys a)\<rparr> in
         case pol key of
           CardTrack \<Rightarrow>
             (let m = inner key (attrVals a);
                  m' = (if map_of m val \<noteq> None \<or> int (length m) < maxDistinct then incr val m else m) in
              a\<lparr>attrVals := AList.update key m' (attrVals a)\<rparr>)
         | CardHLL \<Rightarrow>
             (let m = inner key (attrHLL a);
                  m' = (if int (length m) < maxDistinct then AList.update val () m else m) in
              a\<lparr>attrHLL := AList.update key m' (attrHLL a)\<rparr>)
         | CardSkip \<Rightarrow> a))"

record Span =
  ServiceName :: string
  SpanName :: string
  HTTPMethod :: string
  HTTPRoute :: string
  HTTPStatus :: nat
  DBSystem :: string
  RPCSystem :: string
  RPCMethod :: string
  PeerService :: string
  MsgSystem :: string
  SpanKind :: string
  HostName :: string
  DeployEnv :: string
  AttrKeys :: "string list"
  AttrValues :: "string list"
  ResKeys :: "string list"
  ResValues :: "string list"

definition dedicatedHarvested :: "string list" where
  "dedicatedHarvested =
     [''http.method'', ''http.route'', ''http.status_code'', ''db.system'', ''rpc.system'',
      ''rpc.method'', ''peer.service'', ''messaging.system'', ''kind'', ''host.name'',
      ''deployment.environment'']"

text \<open>The pairs harvested from the typed columns; an absent status or kind contributes nothing.\<close>

definition columnPairs :: "Span \<Rightarrow> (string \<times> string) list" where
  "columnPairs sp =
     [(''http.method'', HTTPMethod sp), (''http.route'', HTTPRoute sp)] @
     (if HTTPStatus sp \<noteq> 0 then [(''http.status_code'', itoa (int (HTTPStatus sp)))] else []) @
     [(''db.system'', DBSystem sp), (''rpc.system'', RPCSystem sp), (''rpc.method'', RPCMethod sp),
      (''peer.service'', PeerService sp), (''messaging.system'', MsgSystem sp)] @
     (if SpanKind sp \<noteq> [] then [(''kind'', SpanKind sp)] else []) @
     [(''host.name'', HostName sp), (''deployment.environment'', DeployEnv sp)]"

text \<open>The free-form pairs: a key without a value at its index and a harvested key are skipped.\<close>

definition arrayPairs :: "string list \<Rightarrow> string list \<Rightarrow> (string \<times> string) list" where
  "arrayPairs ks vs = filter (\<lambda>(k, v). k \<notin> set dedicatedHarvested) (zip ks vs)"

definition observeService :: "Span \<Rightarrow> agg \<Rightarrow> agg" where
  "observeService sp a =
     (if ServiceName sp = [] then a
      else
        (let a = a\<lparr>services := incr (ServiceName sp) (services a)\<rparr> in
         if SpanName sp = [] then a
         else a\<lparr>ops := AList.update (ServiceName sp) (incr (SpanName sp) (inner (ServiceName sp) (ops a))) (ops a)\<rparr>))"

definition observePairs :: "int \<Rightarrow> int \<Rightarrow> Policy \<Rightarrow> (string \<times> string) list \<Rightarrow> agg \<Rightarrow> agg" where
  "observePairs maxVal maxDistinct pol kvs a = fold (\<lambda>(k, v). observeAttr maxVal maxDistinct pol k v) kvs a"

definition observeAgg :: "int \<Rightarrow> int \<Rightarrow> Policy \<Rightarrow> Span \<Rightarrow> agg \<Rightarrow> agg" where
  "observeAgg maxVal maxDistinct pol sp a =
     observePairs maxVal maxDistinct pol
       (columnPairs sp @ arrayPairs (AttrKeys sp) (AttrValues sp) @ arrayPairs (ResKeys sp) (ResValues sp))
       (observeService sp a)"

definition ObserveSpan :: "Store \<Rightarrow> Span option \<Rightarrow> Store" where
  "ObserveSpan s osp =
     (case osp of
        None \<Rightarrow> s
      | Some sp \<Rightarrow>
          if disabled s then s
          else s\<lparr>cur := observeAgg (MaxValLen (opt s)) (MaxDistinctPerKey (opt s)) (policy s) sp (cur s)\<rparr>)"

section \<open>Flush\<close>

datatype rcmd =
    ZIncrBy string int string
  | ZAdd string int string
  | SAdd string "string list"
  | ZRemRangeByRank string int int
  | PFAdd string "string list"
  | HSet string "(string \<times> string) list"
  | Expire string int
  | ZRem string "string list"
  | SRem string "string list"
  | ZRemRangeByScoreBelow string int

definition trimStop :: "int \<Rightarrow> int" where
  "trimStop n = - n - 1"

definition rankCmds :: "bool \<Rightarrow> int \<Rightarrow> string \<Rightarrow> (string \<times> int) list \<Rightarrow> rcmd list" where
  "rankCmds window now rankKey ms =
     concat (map (\<lambda>(m, d). ZIncrBy rankKey d m # (if window then [ZAdd (rankKey @ tsSuffix) now m] else [])) ms)"

definition flushServices :: "bool \<Rightarrow> int \<Rightarrow> agg \<Rightarrow> rcmd list" where
  "flushServices w now a =
     (if services a = [] then []
      else rankCmds w now keyServicesRank (services a) @ [SAdd keyServices (map fst (services a))])"

definition flushOps :: "bool \<Rightarrow> int \<Rightarrow> agg \<Rightarrow> rcmd list" where
  "flushOps w now a =
     concat (map (\<lambda>(svc, os). rankCmds w now (keyOpsRankPrefix @ svc) os @ [SAdd (keyOpsSetPrefix @ svc) (map fst os)]) (ops a))"

definition flushKeys :: "agg \<Rightarrow> rcmd list" where
  "flushKeys a = (if keys a = [] then [] else [SAdd keyAttrKeys (map fst (keys a))])"

definition flushAttrs :: "bool \<Rightarrow> int \<Rightarrow> int \<Rightarrow> agg \<Rightarrow> rcmd list" where
  "flushAttrs w now topN a =
     concat (map (\<lambda>(key, vals). rankCmds w now (keyAttrValPrefix @ key) vals @
       [ZRemRangeByRank (keyAttrValPrefix @ key) 0 (trimStop topN)]) (attrVals a))"

definition flushHLL :: "agg \<Rightarrow> rcmd list" where
  "flushHLL a = map (\<lambda>(key, set). PFAdd (keyAttrCardPrefix @ key) (map fst set)) (attrHLL a)"

text \<open>The calls of \<open>mark\<close>: ranked key and companion set, empty when there is none.\<close>

definition marks :: "agg \<Rightarrow> (string \<times> string) list" where
  "marks a =
     (if services a = [] then [] else [(keyServicesRank, keyServices)]) @
     map (\<lambda>(svc, os). (keyOpsRankPrefix @ svc, keyOpsSetPrefix @ svc)) (ops a) @
     map (\<lambda>(key, vals). (keyAttrValPrefix @ key, [])) (attrVals a)"

definition markTouched :: "bool \<Rightarrow> string \<times> string \<Rightarrow> string list" where
  "markTouched w m =
     fst m # (if snd m \<noteq> [] then [snd m] else []) @ (if w then [fst m @ tsSuffix] else [])"

definition touched :: "bool \<Rightarrow> agg \<Rightarrow> string list" where
  "touched w a =
     remdups (concat (map (markTouched w) (marks a)) @
       (if keys a = [] then [] else [keyAttrKeys]) @
       map (\<lambda>(key, _). keyAttrCardPrefix @ key) (attrHLL a))"

definition tsReg :: "agg \<Rightarrow> (string \<times> string) list" where
  "tsReg a = fold (\<lambda>(r, s). AList.update r s) (marks a) []"

text \<open>The commands of a flush. The increments are the counts themselves; the code sends them as 64-bit floats, which are exact below 2 to the 53rd.\<close>

definition flushCmds :: "Options \<Rightarrow> int \<Rightarrow> agg \<Rightarrow> rcmd list" where
  "flushCmds op now a =
     (let w = WindowMode op; effTTL = (if w then WindowSize op else TTL op) in
      flushServices w now a @ flushOps w now a @ flushKeys a @ flushAttrs w now (TopN op) a @ flushHLL a @
      (if w \<and> tsReg a \<noteq> [] then [HSet tsRegistry (tsReg a)] else []) @
      (if effTTL > 0 then map (\<lambda>k. Expire k effTTL) (touched w a) else []))"

text \<open>\<open>now\<close> is the Unix time; the result is the emptied store and the pipeline that is executed.\<close>

definition Flush :: "int \<Rightarrow> Store \<Rightarrow> Store \<times> rcmd list" where
  "Flush now s =
     (if disabled s then (s, [])
      else (s\<lparr>cur := newAgg\<rparr>, if agg_empty (cur s) then [] else flushCmds (opt s) now (cur s)))"

section \<open>Sweep\<close>

text \<open>
  \<open>reg\<close> is the answer to \<open>HGETALL\<close> on the registry and \<open>stale key cutoff\<close> the members of a time stamp set
  scored below the cut-off; the result is one pipeline for each ranked key that has stale members.
\<close>

definition sweepKey :: "(string \<Rightarrow> int \<Rightarrow> string list option) \<Rightarrow> int \<Rightarrow> string \<times> string \<Rightarrow> rcmd list list" where
  "sweepKey stale cutoff r =
     (let tsKey = fst r @ tsSuffix in
      case stale tsKey cutoff of
        None \<Rightarrow> []
      | Some [] \<Rightarrow> []
      | Some dead \<Rightarrow>
          [ZRem (fst r) dead # (if snd r \<noteq> [] then [SRem (snd r) dead] else []) @
           [ZRemRangeByScoreBelow tsKey cutoff]])"

definition Sweep ::
  "Store \<Rightarrow> (string \<times> string) list option \<Rightarrow> (string \<Rightarrow> int \<Rightarrow> string list option) \<Rightarrow> int \<Rightarrow> rcmd list list" where
  "Sweep s reg stale cutoff =
     (if disabled s \<or> \<not> WindowMode (opt s) then []
      else case reg of None \<Rightarrow> [] | Some rs \<Rightarrow> concat (map (sweepKey stale cutoff) rs))"

section \<open>Reads\<close>

definition clampLimit :: "int \<Rightarrow> int" where
  "clampLimit n = (if n \<le> 0 then 200 else if n > 1000 then 1000 else n)"

text \<open>Redis' answers; \<open>zrevrange key start stop\<close> is in descending order of score.\<close>

record redisRead =
  zcard :: "string \<Rightarrow> int option"
  zrevrange :: "string \<Rightarrow> int \<Rightarrow> int \<Rightarrow> string list option"
  zrevrangeWithScores :: "string \<Rightarrow> (string \<times> int) list option"
  smembers :: "string \<Rightarrow> string list option"
  pfcount :: "string \<Rightarrow> int option"

text \<open>A miss is \<open>None\<close>; the outer option is the partiality of the matcher.\<close>

definition readRank ::
  "(string \<Rightarrow> string) \<Rightarrow> redisRead \<Rightarrow> string \<Rightarrow> string \<Rightarrow> int \<Rightarrow> (string list \<times> int) option option" where
  "readRank lower rd rankKey pre limit0 =
     (let limit = clampLimit limit0 in
      case zcard rd rankKey of
        None \<Rightarrow> Some None
      | Some n \<Rightarrow>
          if n = 0 then Some None
          else if pre = [] then
            (case zrevrange rd rankKey 0 (limit - 1) of
               None \<Rightarrow> Some None
             | Some names \<Rightarrow> Some (Some (names, n)))
          else
            (case zrevrange rd rankKey 0 (- 1) of
               None \<Rightarrow> Some None
             | Some all \<Rightarrow>
                 (case filterByPattern lower all pre of
                    None \<Rightarrow> None
                  | Some matches \<Rightarrow> Some (Some (take (nat limit) matches, int (length matches))))))"

definition GetServices where
  "GetServices lower rd s pre limit =
     (if disabled s then Some None else readRank lower rd keyServicesRank pre limit)"

definition GetOperations where
  "GetOperations lower rd s svc pre limit =
     (if disabled s \<or> svc = [] then Some None else readRank lower rd (keyOpsRankPrefix @ svc) pre limit)"

definition GetAttributeKeys :: "redisRead \<Rightarrow> Store \<Rightarrow> string list option" where
  "GetAttributeKeys rd s =
     (if disabled s then None
      else case smembers rd keyAttrKeys of None \<Rightarrow> None | Some ks \<Rightarrow> if ks = [] then None else Some (sort ks))"

fun valuesLoop :: "(string \<Rightarrow> string) \<Rightarrow> string \<Rightarrow> int \<Rightarrow> (string \<times> int) list \<Rightarrow> (string \<times> int) list \<Rightarrow>
    (string \<times> int) list option" where
  "valuesLoop lower pre limit vals [] = Some vals"
| "valuesLoop lower pre limit vals ((v, n) # zs) =
     (case (if pre = [] then Some True else matchPattern lower v pre) of
        None \<Rightarrow> None
      | Some False \<Rightarrow> valuesLoop lower pre limit vals zs
      | Some True \<Rightarrow>
          (let vals' = vals @ [(v, n)] in
           if int (length vals') \<ge> limit then Some vals' else valuesLoop lower pre limit vals' zs))"

text \<open>Values, approximate count, free text; \<open>None\<close> inside is a miss.\<close>

definition GetAttributeValues ::
  "(string \<Rightarrow> string) \<Rightarrow> redisRead \<Rightarrow> Store \<Rightarrow> string \<Rightarrow> string \<Rightarrow> int \<Rightarrow>
     ((string \<times> int) list \<times> int \<times> bool) option option" where
  "GetAttributeValues lower rd s key pre limit =
     (if disabled s \<or> key = [] then Some None
      else case policy s key of
        CardHLL \<Rightarrow>
          (case pfcount rd (keyAttrCardPrefix @ key) of
             None \<Rightarrow> Some None
           | Some n \<Rightarrow> if n = 0 then Some None else Some (Some ([], n, True)))
      | CardSkip \<Rightarrow> Some None
      | CardTrack \<Rightarrow>
          (case zrevrangeWithScores rd (keyAttrValPrefix @ key) of
             None \<Rightarrow> Some None
           | Some zs \<Rightarrow>
               if zs = [] then Some None
               else map_option (\<lambda>vals. Some (vals, 0, False)) (valuesLoop lower pre (clampLimit limit) [] zs)))"

section \<open>Counting\<close>

definition countOf :: "(string \<times> int) list \<Rightarrow> string \<Rightarrow> int" where
  "countOf m k = (case map_of m k of None \<Rightarrow> 0 | Some n \<Rightarrow> n)"

lemma map_of_incr: "map_of (incr k m) = (map_of m)(k \<mapsto> countOf m k + 1)"
  by (simp add: incr_def update_conv' countOf_def)

lemma countOf_incr: "countOf (incr k m) j = countOf m j + (if j = k then 1 else 0)"
  by (simp add: countOf_def map_of_incr)

lemma distinct_incr: "distinct (map fst m) \<Longrightarrow> distinct (map fst (incr k m))"
  by (simp add: incr_def distinct_update)

lemma inner_update: "inner j (AList.update k x m) = (if j = k then x else inner j m)"
  by (simp add: inner_def update_conv')

text \<open>Only counts that were incremented are in a map.\<close>

definition counts_ok :: "(string \<times> int) list \<Rightarrow> bool" where
  "counts_ok m \<longleftrightarrow> distinct (map fst m) \<and> (\<forall>n \<in> ran (map_of m). 0 < n)"

lemma counts_ok_incr: "counts_ok m \<Longrightarrow> counts_ok (incr k m)"
proof -
  assume m: "counts_ok m"
  then have "0 \<le> countOf m k"
    by (fastforce simp: counts_ok_def countOf_def ran_def split: option.splits)
  with m show ?thesis by (auto simp: counts_ok_def distinct_incr map_of_incr ran_def) blast
qed

lemma counts_ok_Nil [simp]: "counts_ok []"
  by (simp add: counts_ok_def)

section \<open>The window refines the stream of spans\<close>

definition spanCount :: "(Span \<Rightarrow> bool) \<Rightarrow> Span list \<Rightarrow> int" where
  "spanCount P sps = int (length (filter P sps))"

definition bounded_inner :: "nat \<Rightarrow> (string \<times> 'b list) list \<Rightarrow> bool" where
  "bounded_inner n m \<longleftrightarrow> (\<forall>x \<in> ran (map_of m). length x \<le> n)"

definition agg_inv :: "nat \<Rightarrow> agg \<Rightarrow> bool" where
  "agg_inv n a \<longleftrightarrow>
     counts_ok (services a) \<and>
     distinct (map fst (ops a)) \<and> (\<forall>m \<in> ran (map_of (ops a)). counts_ok m) \<and>
     distinct (map fst (attrVals a)) \<and> (\<forall>m \<in> ran (map_of (attrVals a)). counts_ok m) \<and>
     distinct (map fst (attrHLL a)) \<and> (\<forall>m \<in> ran (map_of (attrHLL a)). distinct (map fst m)) \<and>
     bounded_inner n (attrVals a) \<and> bounded_inner n (attrHLL a)"

lemma inner_ran: "(\<And>x. x \<in> ran (map_of m) \<Longrightarrow> P x) \<Longrightarrow> P [] \<Longrightarrow> P (inner k m)"
  by (auto simp: inner_def ran_def split: option.splits)

lemma ran_update: "ran (map_of (AList.update k v m)) \<subseteq> insert v (ran (map_of m))"
  by (auto simp: update_conv' ran_def)

lemma length_update: "length (AList.update k v m) = (if map_of m k = None then Suc (length m) else length m)"
  by (induction m) auto

lemma agg_inv_update:
  assumes "agg_inv n a"
  shows "counts_ok m \<Longrightarrow> length m \<le> n \<Longrightarrow> agg_inv n (a\<lparr>attrVals := AList.update k m (attrVals a)\<rparr>)"
    and "distinct (map fst h) \<Longrightarrow> length h \<le> n \<Longrightarrow> agg_inv n (a\<lparr>attrHLL := AList.update k h (attrHLL a)\<rparr>)"
    and "agg_inv n (a\<lparr>keys := ks\<rparr>)"
  using assms ran_update [of k m "attrVals a"] ran_update [of k h "attrHLL a"]
  by (auto simp: agg_inv_def bounded_inner_def distinct_update)

lemma observeAttr_inv:
  assumes "agg_inv n a" and "maxD = int n"
  shows "agg_inv n (observeAttr maxV maxD pol k v a)"
proof -
  let ?a = "a\<lparr>keys := AList.update k () (keys a)\<rparr>"
  have a: "agg_inv n ?a" by (rule agg_inv_update [OF assms(1)])
  let ?m = "inner k (attrVals a)" and ?h = "inner k (attrHLL a)"
  have m: "counts_ok ?m" "length ?m \<le> n" "distinct (map fst ?h)" "length ?h \<le> n"
    using assms(1) inner_ran [of "attrVals a" counts_ok k] inner_ran [of "attrVals a" "\<lambda>x. length x \<le> n" k]
      inner_ran [of "attrHLL a" "\<lambda>x. distinct (map fst x)" k] inner_ran [of "attrHLL a" "\<lambda>x. length x \<le> n" k]
    by (auto simp: agg_inv_def bounded_inner_def)
  have "length (incr v ?m) \<le> n" if "map_of ?m v \<noteq> None \<or> int (length ?m) < maxD"
    using that m(2) assms(2) by (auto simp: incr_def length_update)
  then have "agg_inv n (?a\<lparr>attrVals := AList.update k (if map_of ?m v \<noteq> None \<or> int (length ?m) < maxD
      then incr v ?m else ?m) (attrVals ?a)\<rparr>)"
    using m counts_ok_incr by (intro agg_inv_update(1) [OF a]) auto
  moreover have "agg_inv n (?a\<lparr>attrHLL := AList.update k (if int (length ?h) < maxD
      then AList.update v () ?h else ?h) (attrHLL ?a)\<rparr>)"
    using m assms(2) by (intro agg_inv_update(2) [OF a]) (auto simp: length_update distinct_update)
  ultimately show ?thesis using a assms(1) by (cases "pol k") (auto simp: observeAttr_def Let_def)
qed

lemma observePairs_inv:
  "agg_inv n a \<Longrightarrow> maxD = int n \<Longrightarrow> agg_inv n (observePairs maxV maxD pol kvs a)"
  unfolding observePairs_def
  by (induction kvs arbitrary: a) (auto simp: observeAttr_inv)

lemma observeService_inv: "agg_inv n a \<Longrightarrow> agg_inv n (observeService sp a)"
  using ran_update [of "ServiceName sp" "incr (SpanName sp) (inner (ServiceName sp) (ops a))" "ops a"]
    counts_ok_incr [OF inner_ran [of "ops a" counts_ok "ServiceName sp"]]
  by (auto simp: agg_inv_def observeService_def Let_def counts_ok_incr distinct_update)

lemma observeAttr_frame:
  "services (observeAttr maxV maxD pol k v a) = services a" "ops (observeAttr maxV maxD pol k v a) = ops a"
  by (simp_all add: observeAttr_def Let_def split: Card.split)

lemma observePairs_frame:
  "services (observePairs maxV maxD pol kvs a) = services a \<and> ops (observePairs maxV maxD pol kvs a) = ops a"
  unfolding observePairs_def by (induction kvs arbitrary: a) (auto simp: observeAttr_frame)

lemma observeService_counts:
  "countOf (services (observeService sp a)) svc =
     countOf (services a) svc + (if ServiceName sp = svc \<and> svc \<noteq> [] then 1 else 0)"
  "countOf (inner svc (ops (observeService sp a))) op =
     countOf (inner svc (ops a)) op + (if ServiceName sp = svc \<and> svc \<noteq> [] \<and> SpanName sp = op \<and> op \<noteq> [] then 1 else 0)"
  by (auto simp: observeService_def Let_def countOf_incr inner_update)

definition observeAll :: "Span list \<Rightarrow> Store \<Rightarrow> Store" where
  "observeAll sps s = fold (\<lambda>sp s. ObserveSpan s (Some sp)) sps s"

lemma observeAll_frame:
  "disabled (observeAll sps s) = disabled s" "opt (observeAll sps s) = opt s" "policy (observeAll sps s) = policy s"
  unfolding observeAll_def by (induction sps arbitrary: s) (auto simp: ObserveSpan_def)

lemma observeAll_counts:
  assumes "\<not> disabled s" and "svc \<noteq> []"
  shows "countOf (services (cur (observeAll sps s))) svc =
      countOf (services (cur s)) svc + spanCount (\<lambda>sp. ServiceName sp = svc) sps"
    and "op \<noteq> [] \<Longrightarrow> countOf (inner svc (ops (cur (observeAll sps s)))) op =
      countOf (inner svc (ops (cur s))) op + spanCount (\<lambda>sp. ServiceName sp = svc \<and> SpanName sp = op) sps"
  using assms unfolding observeAll_def spanCount_def
  by (induction sps arbitrary: s)
    (auto simp: ObserveSpan_def observeAgg_def observePairs_frame observeService_counts)

lemma observeAll_inv:
  assumes "agg_inv n (cur s)" and "MaxDistinctPerKey (opt s) = int n"
  shows "agg_inv n (cur (observeAll sps s))"
  using assms
proof (induction sps arbitrary: s)
  case (Cons sp sps)
  have "agg_inv n (cur (ObserveSpan s (Some sp)))" "MaxDistinctPerKey (opt (ObserveSpan s (Some sp))) = int n"
    using Cons.prems by (auto simp: ObserveSpan_def observeAgg_def intro!: observePairs_inv observeService_inv)
  from Cons.IH [OF this] show ?case by (simp add: observeAll_def)
qed (simp add: observeAll_def)

section \<open>Increments in a pipeline\<close>

fun zdelta :: "string \<Rightarrow> string \<Rightarrow> rcmd \<Rightarrow> int list" where
  "zdelta k m (ZIncrBy k' d m') = (if k = k' \<and> m = m' then [d] else [])"
| "zdelta k m _ = []"

definition deltas :: "string \<Rightarrow> string \<Rightarrow> rcmd list \<Rightarrow> int list" where
  "deltas k m cmds = concat (map (zdelta k m) cmds)"

lemma deltas_simps [simp]:
  "deltas k m [] = []" "deltas k m (c # cs) = zdelta k m c @ deltas k m cs"
  "deltas k m (cs @ ds) = deltas k m cs @ deltas k m ds"
  by (simp_all add: deltas_def)

definition opt_list :: "'a option \<Rightarrow> 'a list" where
  "opt_list x = (case x of None \<Rightarrow> [] | Some y \<Rightarrow> [y])"

lemma deltas_rankCmds:
  "distinct (map fst ms) \<Longrightarrow> deltas k m (rankCmds w now k' ms) = (if k = k' then opt_list (map_of ms m) else [])"
proof (induction ms)
  case (Cons p ms)
  then have "fst p = m \<Longrightarrow> map_of ms m = None" by (auto simp: map_of_eq_None_iff)
  with Cons show ?case by (cases p) (auto simp: rankCmds_def opt_list_def)
qed (simp add: rankCmds_def opt_list_def)

lemma deltas_concat: "deltas k m (concat css) = concat (map (deltas k m) css)"
  by (induction css) auto

lemma deltas_group:
  assumes "distinct (map fst gs)" and "\<And>g. g \<in> set gs \<Longrightarrow> distinct (map fst (snd g))"
    and "\<And>x y. K x = K y \<Longrightarrow> x = y" and "\<And>g k m. deltas k m (C g) = []"
  shows "deltas (K x) m (concat (map (\<lambda>(y, ms). rankCmds w now (K y) ms @ C (y, ms)) gs)) = opt_list (map_of (inner x gs) m)"
  using assms(1,2)
proof (induction gs)
  case (Cons g gs)
  obtain y ms where g: "g = (y, ms)" by force
  with Cons.prems have dm: "distinct (map fst ms)" by force
  from Cons have IH: "deltas (K x) m (concat (map (\<lambda>(y, ms). rankCmds w now (K y) ms @ C (y, ms)) gs)) = opt_list (map_of (inner x gs) m)"
    by auto
  show ?case
  proof (cases "x = y")
    case True
    with Cons.prems g have "inner x gs = []" by (auto simp: inner_def map_of_eq_None_iff [symmetric] split: option.splits)
    with True g IH dm show ?thesis by (auto simp: deltas_rankCmds assms(4) inner_def opt_list_def)
  next
    case False
    then have "K x \<noteq> K y" using assms(3) by blast
    with False g IH dm show ?thesis by (auto simp: deltas_rankCmds assms(4) inner_def)
  qed
qed (simp add: inner_def opt_list_def)

lemma deltas_group_other:
  assumes "\<And>g. g \<in> set gs \<Longrightarrow> distinct (map fst (snd g))"
    and "\<And>y. k \<noteq> K y" and "\<And>g k m. deltas k m (C g) = []"
  shows "deltas k m (concat (map (\<lambda>(y, ms). rankCmds w now (K y) ms @ C (y, ms)) gs)) = []"
  using assms(1)
proof (induction gs)
  case (Cons g gs)
  then have "distinct (map fst (snd g))" by simp
  with Cons show ?case by (cases g) (auto simp: deltas_rankCmds assms(2,3))
qed simp

lemma keys_apart:
  "keyServicesRank \<noteq> keyOpsRankPrefix @ x" "keyServicesRank \<noteq> keyAttrValPrefix @ x"
  "keyOpsRankPrefix @ x \<noteq> keyServicesRank" "keyOpsRankPrefix @ x \<noteq> keyAttrValPrefix @ y"
  by (simp_all add: key_defs)

lemma deltas_other:
  "deltas k m (flushKeys a) = []" "deltas k m (flushHLL a) = []" "deltas k m (map (\<lambda>x. Expire x t) xs) = []"
  "deltas k m [SAdd x ys] = []" "deltas k m [ZRemRangeByRank x u v] = []" "deltas k m [HSet x fs] = []"
  by (auto simp: flushKeys_def flushHLL_def deltas_def)

lemma agg_inv_inner_distinct:
  assumes "agg_inv n a"
  shows "g \<in> set (ops a) \<Longrightarrow> distinct (map fst (snd g))" "g \<in> set (attrVals a) \<Longrightarrow> distinct (map fst (snd g))"
  using assms by (force simp: agg_inv_def counts_ok_def ran_distinct)+

lemma flushCmds_deltas:
  assumes "agg_inv n a"
  shows "deltas keyServicesRank svc (flushCmds o' now a) = opt_list (map_of (services a) svc)"
    and "deltas (keyOpsRankPrefix @ svc) op (flushCmds o' now a) = opt_list (map_of (inner svc (ops a)) op)"
proof -
  note d = agg_inv_inner_distinct [OF assms]
  from assms have i: "distinct (map fst (services a))" "distinct (map fst (ops a))"
    by (simp_all add: agg_inv_def counts_ok_def)
  have at: "deltas k m (flushAttrs w now tn a) = []" if "\<And>y. k \<noteq> keyAttrValPrefix @ y" for k m w tn
    using deltas_group_other [of "attrVals a" k "\<lambda>y. keyAttrValPrefix @ y"
        "\<lambda>(key, _). [ZRemRangeByRank (keyAttrValPrefix @ key) 0 (trimStop tn)]" m w now] d that
    by (auto simp: flushAttrs_def case_prod_unfold)
  have os: "deltas k m (flushOps w now a) = []" if "\<And>y. k \<noteq> keyOpsRankPrefix @ y" for k m w
    using deltas_group_other [of "ops a" k "\<lambda>y. keyOpsRankPrefix @ y"
        "\<lambda>(svc, os). [SAdd (keyOpsSetPrefix @ svc) (map fst os)]" m w now] d that
    by (auto simp: flushOps_def case_prod_unfold)
  have op: "deltas (keyOpsRankPrefix @ svc) op (flushOps w now a) = opt_list (map_of (inner svc (ops a)) op)" for w
    using deltas_group [of "ops a" "\<lambda>y. keyOpsRankPrefix @ y"
        "\<lambda>(svc, os). [SAdd (keyOpsSetPrefix @ svc) (map fst os)]" svc op w now] d i
    by (auto simp: flushOps_def case_prod_unfold)
  have sv: "deltas k m (flushServices w now a) = (if k = keyServicesRank then opt_list (map_of (services a) m) else [])"
    for k m w using i by (auto simp: flushServices_def deltas_rankCmds opt_list_def)
  show "deltas keyServicesRank svc (flushCmds o' now a) = opt_list (map_of (services a) svc)"
    by (simp add: flushCmds_def Let_def sv deltas_other at os keys_apart)
  show "deltas (keyOpsRankPrefix @ svc) op (flushCmds o' now a) = opt_list (map_of (inner svc (ops a)) op)"
    by (simp add: flushCmds_def Let_def sv deltas_other at op keys_apart)
qed

lemma opt_list_count: "counts_ok m \<Longrightarrow> opt_list (map_of m k) = (if countOf m k = 0 then [] else [countOf m k])"
  by (force simp: counts_ok_def opt_list_def countOf_def ran_def split: option.splits)

lemma agg_inv_newAgg: "agg_inv n newAgg"
  by (simp add: agg_inv_def newAgg_def bounded_inner_def)

section \<open>Keys that are written\<close>

fun writes :: "rcmd \<Rightarrow> string" where
  "writes (ZIncrBy k _ _) = k" | "writes (ZAdd k _ _) = k" | "writes (SAdd k _) = k"
| "writes (ZRemRangeByRank k _ _) = k" | "writes (PFAdd k _) = k" | "writes (HSet k _) = k"
| "writes (Expire k _) = k" | "writes (ZRem k _) = k" | "writes (SRem k _) = k"
| "writes (ZRemRangeByScoreBelow k _) = k"

lemma rankCmds_writes: "c \<in> set (rankCmds w now k ms) \<Longrightarrow> writes c = k \<or> w \<and> writes c = k @ tsSuffix"
  by (auto simp: rankCmds_def split: if_splits)

lemma touched_mark:
  "(r, st) \<in> set (marks a) \<Longrightarrow> r \<in> set (touched w a)"
  "(r, st) \<in> set (marks a) \<Longrightarrow> st \<noteq> [] \<Longrightarrow> st \<in> set (touched w a)"
  "(r, st) \<in> set (marks a) \<Longrightarrow> w \<Longrightarrow> r @ tsSuffix \<in> set (touched w a)"
  by (force simp: touched_def markTouched_def)+

lemma flush_group_touched:
  assumes "c \<in> set (rankCmds w now k ms)" and "(k, st) \<in> set (marks a)"
  shows "writes c \<in> set (touched w a)"
  using rankCmds_writes [OF assms(1)] touched_mark [OF assms(2)] by auto

lemma flushServices_touched: "c \<in> set (flushServices w now a) \<Longrightarrow> writes c \<in> set (touched w a)"
proof -
  assume c: "c \<in> set (flushServices w now a)"
  then have m: "(keyServicesRank, keyServices) \<in> set (marks a)"
    by (auto simp: flushServices_def marks_def split: if_splits)
  have "keyServices \<noteq> []" by (simp add: key_defs)
  with c flush_group_touched [OF _ m] touched_mark [OF m] show ?thesis
    by (auto simp: flushServices_def split: if_splits)
qed

lemma flushOps_touched: "c \<in> set (flushOps w now a) \<Longrightarrow> writes c \<in> set (touched w a)"
proof -
  assume "c \<in> set (flushOps w now a)"
  then obtain svc os where g: "(svc, os) \<in> set (ops a)"
      and c: "c \<in> set (rankCmds w now (keyOpsRankPrefix @ svc) os) \<or> c = SAdd (keyOpsSetPrefix @ svc) (map fst os)"
    by (auto simp: flushOps_def)
  have m: "(keyOpsRankPrefix @ svc, keyOpsSetPrefix @ svc) \<in> set (marks a)" using g by (force simp: marks_def)
  have "keyOpsSetPrefix @ svc \<noteq> []" by (simp add: key_defs)
  with c flush_group_touched [OF _ m] touched_mark [OF m] show ?thesis by auto
qed

lemma flushAttrs_touched: "c \<in> set (flushAttrs w now tn a) \<Longrightarrow> writes c \<in> set (touched w a)"
proof -
  assume "c \<in> set (flushAttrs w now tn a)"
  then obtain k vs where g: "(k, vs) \<in> set (attrVals a)"
      and c: "c \<in> set (rankCmds w now (keyAttrValPrefix @ k) vs) \<or> c = ZRemRangeByRank (keyAttrValPrefix @ k) 0 (trimStop tn)"
    by (auto simp: flushAttrs_def)
  have m: "(keyAttrValPrefix @ k, []) \<in> set (marks a)" using g by (force simp: marks_def)
  with c flush_group_touched [OF _ m] touched_mark [OF m] show ?thesis by auto
qed

lemma flushRest_touched:
  "c \<in> set (flushKeys a) \<Longrightarrow> writes c \<in> set (touched w a)" "c \<in> set (flushHLL a) \<Longrightarrow> writes c \<in> set (touched w a)"
  by (auto simp: flushKeys_def flushHLL_def touched_def split: if_splits)

section \<open>Reading values\<close>

definition accepts :: "(string \<Rightarrow> string) \<Rightarrow> string \<Rightarrow> string \<Rightarrow> bool" where
  "accepts lower pre v \<longleftrightarrow> pre = [] \<or> matchPattern lower v pre = Some True"

lemma valuesLoop_take:
  assumes "int (length vals) < limit"
  shows "valuesLoop lower pre limit vals zs =
    Some (vals @ take (nat limit - length vals) (filter (\<lambda>(v, n). accepts lower pre v) zs))"
  using assms
proof (induction zs arbitrary: vals)
  case (Cons z zs)
  obtain v n where z: "z = (v, n)" by force
  show ?case
  proof (cases "accepts lower pre v")
    case True
    then have "(if pre = [] then Some True else matchPattern lower v pre) = Some True" by (auto simp: accepts_def)
    moreover from Cons.prems obtain k where "nat limit - length vals = Suc k" "nat limit - Suc (length vals) = k"
      by (cases "nat limit - length vals") auto
    ultimately show ?thesis using Cons z True by (auto simp: Let_def)
  next
    case False
    then have "(if pre = [] then Some True else matchPattern lower v pre) = Some False"
      using matchPattern_returns [of lower v pre] by (auto simp: accepts_def)
    with Cons z False show ?thesis by simp
  qed
qed simp

lemma clampLimit_range: "1 \<le> clampLimit n \<and> clampLimit n \<le> 1000"
  by (simp add: clampLimit_def)

section \<open>Properties\<close>

text \<open>
  C30. Local pre-aggregation is exact. After any sequence of spans, the flush sends for each service one
  increment of its rank by the number of its spans, and for each of its operations one increment by
  the number of spans with that name; nothing is sent for what was not seen. This is what one
  increment for each span would have summed to.
\<close>

theorem Flush_counts:
  assumes "\<not> disabled s" and "cur s = newAgg" and "MaxDistinctPerKey (opt s) = int d" and "svc \<noteq> []" and "op \<noteq> []"
  shows "deltas keyServicesRank svc (snd (Flush now (observeAll sps s))) =
      (let n = spanCount (\<lambda>sp. ServiceName sp = svc) sps in if n = 0 then [] else [n]) \<and>
    deltas (keyOpsRankPrefix @ svc) op (snd (Flush now (observeAll sps s))) =
      (let n = spanCount (\<lambda>sp. ServiceName sp = svc \<and> SpanName sp = op) sps in if n = 0 then [] else [n])"
proof -
  let ?a = "cur (observeAll sps s)" and ?pipe = "snd (Flush now (observeAll sps s))"
  have inv: "agg_inv d ?a" using assms agg_inv_newAgg by (intro observeAll_inv) simp_all
  then have ok: "counts_ok (services ?a)" "counts_ok (inner svc (ops ?a))"
    using inner_ran [of "ops ?a" counts_ok svc] by (auto simp: agg_inv_def)
  have pipe: "?pipe = (if agg_empty ?a then [] else flushCmds (opt s) now ?a)"
    using assms(1) by (simp add: Flush_def observeAll_frame)
  have zero: "countOf (services (cur s)) svc = 0" "countOf (inner svc (ops (cur s))) op = 0"
    using assms(2) by (simp_all add: newAgg_def countOf_def inner_def)
  have "deltas keyServicesRank svc ?pipe = opt_list (map_of (services ?a) svc)"
    "deltas (keyOpsRankPrefix @ svc) op ?pipe = opt_list (map_of (inner svc (ops ?a)) op)"
    using flushCmds_deltas [OF inv] unfolding pipe by (auto simp: agg_empty_def inner_def opt_list_def)
  then show ?thesis
    using observeAll_counts [OF assms(1,4), where sps = sps] assms(5) zero
    by (simp add: opt_list_count [OF ok(1)] opt_list_count [OF ok(2)] Let_def)
qed

definition sampleSpan :: Span where
  "sampleSpan = \<lparr>ServiceName = ''web'', SpanName = ''GET'', HTTPMethod = ''GET'', HTTPRoute = [], HTTPStatus = 200,
     DBSystem = [], RPCSystem = [], RPCMethod = [], PeerService = [], MsgSystem = [], SpanKind = ''server'',
     HostName = [], DeployEnv = [], AttrKeys = [''http.method'', ''user.id''], AttrValues = [''GET'', ''u1''],
     ResKeys = [], ResValues = []\<rparr>"

definition sampleOptions :: Options where
  "sampleOptions = \<lparr>OPolicy = None, FlushEvery = 0, TTL = 0, TopN = 0, MaxValLen = 0, MaxDistinctPerKey = 0,
     WindowMode = True, WindowSize = 0, SweepEvery = 0\<rparr>"

definition sampleStore :: Store where
  "sampleStore = NewStore True sampleOptions"

theorem Flush_counts_witness:
  "deltas keyServicesRank ''web'' (snd (Flush 7 (observeAll [sampleSpan, sampleSpan] sampleStore))) = [2]"
proof -
  have "\<not> disabled sampleStore" "cur sampleStore = newAgg" "MaxDistinctPerKey (opt sampleStore) = int 50000"
    by (simp_all add: sampleStore_def NewStore_def applyDefaults_def sampleOptions_def Let_def)
  from Flush_counts [OF this, of "''web''" "''GET''" 7 "[sampleSpan, sampleSpan]"] show ?thesis
    by (simp add: spanCount_def sampleSpan_def)
qed

text \<open>
  Memory of a window is bounded: whatever is observed, no attribute key holds more distinct values
  than the configured cap, tracked or counted, and Go's maps never hold a key twice.
\<close>

theorem ObserveSpan_bounded:
  assumes "cur s = newAgg" and "MaxDistinctPerKey (opt s) = int d"
  shows "agg_inv d (cur (observeAll sps s))"
  using assms agg_inv_newAgg by (intro observeAll_inv) simp_all

theorem ObserveSpan_bounded_witness: "agg_inv 50000 (cur (observeAll [sampleSpan] sampleStore))"
  by (rule ObserveSpan_bounded)
    (simp_all add: sampleStore_def NewStore_def applyDefaults_def sampleOptions_def Let_def)

text \<open>
  Nothing persists for ever in Redis: in the pipeline of a flush every key that a command writes is
  given an expiry in the same pipeline, the registry of the window mode excepted.
\<close>

theorem Flush_expires:
  assumes "(if WindowMode op then WindowSize op else TTL op) > 0" and "c \<in> set (flushCmds op now a)"
  shows "writes c = tsRegistry \<or>
    Expire (writes c) (if WindowMode op then WindowSize op else TTL op) \<in> set (flushCmds op now a)"
proof -
  let ?t = "if WindowMode op then WindowSize op else TTL op"
  have ex: "Expire k ?t \<in> set (flushCmds op now a)" if "k \<in> set (touched (WindowMode op) a)" for k
    using that assms(1) unfolding flushCmds_def Let_def by auto
  from assms(2) have "writes c = tsRegistry \<or> writes c \<in> set (touched (WindowMode op) a)"
    unfolding flushCmds_def Let_def
    using flushServices_touched flushOps_touched flushAttrs_touched flushRest_touched
    by (auto split: if_splits)
  with ex show ?thesis by blast
qed

theorem Flush_expires_witness:
  "Expire keyServices (WindowSize (opt sampleStore)) \<in>
     set (flushCmds (opt sampleStore) 7 (cur (observeAll [sampleSpan] sampleStore)))"
proof -
  let ?cs = "flushCmds (opt sampleStore) 7 (cur (observeAll [sampleSpan] sampleStore))"
  have w: "WindowMode (opt sampleStore)" "WindowSize (opt sampleStore) > 0"
    by (simp_all add: sampleStore_def NewStore_def applyDefaults_def sampleOptions_def Let_def second_def)
  have "services (cur (observeAll [sampleSpan] sampleStore)) = [(''web'', 1)]" by code_simp
  then have "SAdd keyServices [''web''] \<in> set ?cs" by (simp add: flushCmds_def flushServices_def Let_def)
  from Flush_expires [OF _ this] w show ?thesis by (auto simp: key_defs)
qed

text \<open>
  What the pickers show: a filtered read returns the matching names in rank order, cut at the
  clamped limit, with the number of all matches; a read of attribute values stops early with the same
  result as filtering all of them. No read returns more than 1000 entries.
\<close>

theorem reads_correct:
  assumes "pre \<noteq> []" and "zcard rd k = Some n" and "n \<noteq> 0" and "zrevrange rd k 0 (- 1) = Some all"
  shows "readRank lower rd k pre limit =
      Some (Some (take (nat (clampLimit limit)) (filter (accepts lower pre) all), int (length (filter (accepts lower pre) all)))) \<and>
    valuesLoop lower pre (clampLimit limit) [] zs =
      Some (take (nat (clampLimit limit)) (filter (\<lambda>(v, n). accepts lower pre v) zs)) \<and>
    clampLimit limit \<le> 1000"
proof -
  have "accepts lower pre = (\<lambda>v. matchPattern lower v pre = Some True)"
    using assms(1) by (simp add: accepts_def fun_eq_iff)
  then have "filterByPattern lower all pre = Some (filter (accepts lower pre) all)"
    by (simp add: filterByPattern_filter)
  moreover have "int (length ([] :: (string \<times> int) list)) < clampLimit limit" using clampLimit_range [of limit] by simp
  ultimately show ?thesis
    using assms valuesLoop_take clampLimit_range [of limit] by (simp add: readRank_def Let_def)
qed

definition sampleRedis :: redisRead where
  "sampleRedis = \<lparr>zcard = (\<lambda>_. Some 3), zrevrange = (\<lambda>_ _ _. Some [''cart'', ''web'', ''card'']),
     zrevrangeWithScores = (\<lambda>_. None), smembers = (\<lambda>_. None), pfcount = (\<lambda>_. None)\<rparr>"

theorem reads_correct_witness:
  "readRank ToLower sampleRedis ''k'' ''CAR'' 1 = Some (Some ([''cart''], 2))"
proof -
  have "filter (accepts ToLower ''CAR'') [''cart'', ''web'', ''card''] = [''cart'', ''card'']" by code_simp
  with reads_correct [of "''CAR''" sampleRedis "''k''" 3 "[''cart'', ''web'', ''card'']" ToLower 1]
  show ?thesis by (simp add: sampleRedis_def clampLimit_def)
qed

text \<open>
  The key layout is not injective: the set of operations of a service named \<open>rank:x\<close> and the
  ranking of the service \<open>x\<close> share one Redis key, although they are of different Redis types; an
  attribute named \<open>card:x\<close> collides with the cardinality estimate of \<open>x\<close> in the same way.
\<close>

theorem key_collision:
  "keyOpsSetPrefix @ ''rank:'' @ svc = keyOpsRankPrefix @ svc \<and>
   keyAttrValPrefix @ ''card:'' @ key = keyAttrCardPrefix @ key \<and> keyAttrValPrefix @ ''keys'' = keyAttrKeys"
  by (simp add: key_defs)

end
