(* ===== verification/Ingest.thy ===== *)
theory Ingest
  imports OTLP_Metrics Pipeline Consumer ACache
begin

text \<open>
  The ingest path (\<open>internal/otlp/http.go\<close>, \<open>grpc.go\<close>, \<open>forward.go\<close>, \<open>forward_filter.go\<close>,
  \<open>exemplar_cap.go\<close>): converted rows go through the policy engine into their consumers, exemplars and links
  through their gates, the metric request is filtered and forwarded, and the answer says how many items the
  buffers refused. The state is the \<open>Ingester\<close> with the consumers it feeds; one request runs undisturbed, and
  each of its calls of \<open>Add\<close> is the run of atomic actions of the consumer that \<open>ConsumerAdd_runs\<close> gives. The
  rows of one resource share the slice of resource values and enrichment writes to it, so the shared slices
  are explicit state (\<open>arrays\<close>). Decompression, the protobuf codec and the clock are arguments.
\<close>

section \<open>Rows that share a slice\<close>

definition derefRow :: "arrays \<Rightarrow> 'a carrier_scheme held \<Rightarrow> 'a carrier_scheme" where
  "derefRow h xr = (case snd xr of Some a \<Rightarrow> (fst xr)\<lparr>resValues := h ! a\<rparr> | None \<Rightarrow> fst xr)"

text \<open>
  One pair of \<open>applyEnrichAttrs\<close> on slices: an existing key is overwritten in the array the slice points to, a
  new key moves the values to an array of the row's own, because the shared one has no spare capacity.
\<close>

fun setAttrHeld :: "string \<times> string \<Rightarrow> string list \<times> string list \<times> nat option \<times> arrays \<Rightarrow> string list \<times> string list \<times> nat option \<times> arrays" where
  "setAttrHeld (k, v) (ks, vs, ref, h) =
     (case find (\<lambda>i. ks ! i = k) [0..<length ks] of
        Some i \<Rightarrow>
          if i < length vs then (ks, vs[i := v], ref, case ref of Some a \<Rightarrow> h[a := vs[i := v]] | None \<Rightarrow> h)
          else (ks, vs, ref, h)
      | None \<Rightarrow> (ks @ [k], vs @ [v], None, h))"

fun enrichHeld :: "(string \<times> string) list \<Rightarrow> 'a carrier_scheme held \<times> arrays \<Rightarrow> 'a carrier_scheme held \<times> arrays" where
  "enrichHeld sets (xr, h) =
     (let (ks, vs, ref, h') = fold setAttrHeld sets (resKeys (fst xr), resValues (derefRow h xr), snd xr, h) in
      (((fst xr)\<lparr>resKeys := ks, resValues := vs\<rparr>, ref), h'))"

definition acceptHeld ::
  "(Condition \<Rightarrow> 'a carrier_scheme \<Rightarrow> bool) \<Rightarrow> Signal \<Rightarrow> (nat \<Rightarrow> rat) \<Rightarrow> Rule list \<Rightarrow> 'a carrier_scheme held \<times> arrays \<Rightarrow> bool \<times> 'a carrier_scheme held \<times> arrays" where
  "acceptHeld m sg dice rs x = acceptLoop (\<lambda>c (xr, h). m c (derefRow h xr)) enrichHeld sg dice 0 rs x"

section \<open>The ingester\<close>

record exemplarRateLimiter =
  limMax :: nat
  limMinute :: int
  limCounts :: "64 word \<Rightarrow> nat"

definition newExemplarRateLimiter :: "nat \<Rightarrow> exemplarRateLimiter" where
  "newExemplarRateLimiter n = \<lparr>limMax = n, limMinute = 0, limCounts = (\<lambda>_. 0)\<rparr>"

text \<open>\<open>unix\<close> is the time in seconds, which Go's division truncates towards zero.\<close>

definition allow :: "64 word \<Rightarrow> int \<Rightarrow> exemplarRateLimiter \<Rightarrow> bool \<times> exemplarRateLimiter" where
  "allow fp unix l =
     (let minute = sgn unix * (\<bar>unix\<bar> div 60);
          l = (if minute \<noteq> limMinute l then l\<lparr>limMinute := minute, limCounts := (\<lambda>_. 0)\<rparr> else l) in
      if limMax l \<le> limCounts l fp then (False, l)
      else (True, l\<lparr>limCounts := (limCounts l)(fp := limCounts l fp + 1)\<rparr>))"

record MetricBody =
  mbBody :: string
  mbGzipped :: bool

text \<open>The options of the six consumers; the sizer of a row reads its slices, so it depends on the arrays.\<close>

record ingestOptions =
  oSpans :: "arrays \<Rightarrow> SpanRec held ConsumerOptions"
  oLogs :: "arrays \<Rightarrow> LogRec held ConsumerOptions"
  oMetrics :: "arrays \<Rightarrow> MetricRec held ConsumerOptions"
  oExemplars :: "ExemplarRow ConsumerOptions"
  oSpanLinks :: "SpanLinkRow ConsumerOptions"
  oForward :: "MetricBody ConsumerOptions"

record Ingester =
  Spans :: "SpanRec held Consumer"
  Logs :: "LogRec held Consumer"
  Metrics :: "MetricRec held Consumer"
  Exemplars :: "ExemplarRow Consumer option"
  SpanLinks :: "SpanLinkRow Consumer option"
  MetricForward :: "MetricBody Consumer option"
  metricFwdEnabled :: bool
  metricFwdDropped :: nat
  metricFwdEnqueued :: nat
  metricFwdFiltered :: nat
  pipeline :: "Engine option"
  spansDropped :: nat
  logsDropped :: nat
  metricsDropped :: nat
  exemplarsNoTraceOK :: bool
  exemplarsIngested :: nat
  exemplarsDroppedNoTrace :: nat
  exemplarLimiter :: "exemplarRateLimiter option"
  exemplarsDroppedCapped :: nat
  spanLinksIngested :: nat
  spanLinksDroppedInvalid :: nat
  autocomplete :: "Store option"
  resArrays :: arrays

text \<open>The policy engine on one row; without an engine the row is accepted as it is.\<close>

definition runPipeline ::
  "(Condition \<Rightarrow> 'a carrier_scheme \<Rightarrow> bool) \<Rightarrow> Signal \<Rightarrow> (nat \<Rightarrow> rat) \<Rightarrow> Ingester \<Rightarrow> 'a carrier_scheme held \<Rightarrow> bool \<times> 'a carrier_scheme held \<times> arrays" where
  "runPipeline m sg dice ing xr =
     (case pipeline ing of None \<Rightarrow> (True, xr, resArrays ing) | Some e \<Rightarrow> acceptHeld m sg dice (rules e) (xr, resArrays ing))"

text \<open>The columns that the facet cache reads of a span.\<close>

definition facetSpan :: "SpanRec \<Rightarrow> Span" where
  "facetSpan sp = \<lparr>ServiceName = spService sp, SpanName = spName sp, HTTPMethod = spHTTPMethod sp, HTTPRoute = spRoute sp,
     HTTPStatus = unat (spHTTPStatus sp), DBSystem = spDBSystem sp, RPCSystem = spRPCSystem sp, RPCMethod = spRPCMethod sp,
     PeerService = spPeerService sp, MsgSystem = spMsgSystem sp, SpanKind = spKind sp, HostName = spHost sp, DeployEnv = spDeployEnv sp,
     AttrKeys = attrKeys sp, AttrValues = attrValues sp, ResKeys = resKeys sp, ResValues = resValues sp\<rparr>"

definition addSpan :: "regex \<Rightarrow> (nat \<Rightarrow> rat) \<Rightarrow> ingestOptions \<Rightarrow> SpanRec held \<Rightarrow> Ingester \<Rightarrow> bool \<times> Ingester" where
  "addSpan re dice o0 xr ing =
     (let (ok, xr', h) = runPipeline (matchSpan re) SignalSpans dice ing xr; ing = ing\<lparr>resArrays := h\<rparr> in
      if \<not> ok then (True, ing\<lparr>spansDropped := spansDropped ing + 1\<rparr>)
      else
        (let ing = ing\<lparr>autocomplete := map_option (\<lambda>s. ObserveSpan s (Some (facetSpan (derefRow h xr')))) (autocomplete ing)\<rparr>;
             (added, c) = ConsumerAdd (oSpans o0 h) xr' (Spans ing) in
         (added, ing\<lparr>Spans := c\<rparr>)))"

definition addLog :: "regex \<Rightarrow> (nat \<Rightarrow> rat) \<Rightarrow> ingestOptions \<Rightarrow> LogRec held \<Rightarrow> Ingester \<Rightarrow> bool \<times> Ingester" where
  "addLog re dice o0 xr ing =
     (let (ok, xr', h) = runPipeline (matchLog re) SignalLogs dice ing xr; ing = ing\<lparr>resArrays := h\<rparr> in
      if \<not> ok then (True, ing\<lparr>logsDropped := logsDropped ing + 1\<rparr>)
      else (let (added, c) = ConsumerAdd (oLogs o0 h) xr' (Logs ing) in (added, ing\<lparr>Logs := c\<rparr>)))"

definition addMetric :: "regex \<Rightarrow> (nat \<Rightarrow> rat) \<Rightarrow> ingestOptions \<Rightarrow> MetricRec held \<Rightarrow> Ingester \<Rightarrow> bool \<times> Ingester" where
  "addMetric re dice o0 xr ing =
     (let (ok, xr', h) = runPipeline (matchMetric re) SignalMetrics dice ing xr; ing = ing\<lparr>resArrays := h\<rparr> in
      if \<not> ok then (True, ing\<lparr>metricsDropped := metricsDropped ing + 1\<rparr>)
      else (let (added, c) = ConsumerAdd (oMetrics o0 h) xr' (Metrics ing) in (added, ing\<lparr>Metrics := c\<rparr>)))"

definition exemplarGate :: "int \<Rightarrow> ExemplarRow \<Rightarrow> Ingester \<Rightarrow> bool \<times> Ingester" where
  "exemplarGate unix ex ing =
     (case exemplarLimiter ing of
        None \<Rightarrow> (True, ing)
      | Some l \<Rightarrow> (let (ok, l') = allow (exFingerprint ex) unix l in (ok, ing\<lparr>exemplarLimiter := Some l'\<rparr>)))"

definition addExemplar :: "int \<Rightarrow> ingestOptions \<Rightarrow> ExemplarRow \<Rightarrow> Ingester \<Rightarrow> bool \<times> Ingester" where
  "addExemplar unix o0 ex ing =
     (if exTraceID ex = [] \<and> \<not> exemplarsNoTraceOK ing then (True, ing\<lparr>exemplarsDroppedNoTrace := exemplarsDroppedNoTrace ing + 1\<rparr>)
      else
        (let (ok, ing) = exemplarGate unix ex ing in
         if \<not> ok then (True, ing\<lparr>exemplarsDroppedCapped := exemplarsDroppedCapped ing + 1\<rparr>)
         else
           (let ing = ing\<lparr>exemplarsIngested := exemplarsIngested ing + 1\<rparr> in
            case Exemplars ing of
              None \<Rightarrow> (True, ing)
            | Some q \<Rightarrow> (let (added, c) = ConsumerAdd (oExemplars o0) ex q in (added, ing\<lparr>Exemplars := Some c\<rparr>)))))"

definition addSpanLink :: "ingestOptions \<Rightarrow> SpanLinkRow \<Rightarrow> Ingester \<Rightarrow> bool \<times> Ingester" where
  "addSpanLink o0 l ing =
     (if lnLinkedTraceID l = [] then (True, ing\<lparr>spanLinksDroppedInvalid := spanLinksDroppedInvalid ing + 1\<rparr>)
      else
        (let ing = ing\<lparr>spanLinksIngested := spanLinksIngested ing + 1\<rparr> in
         case SpanLinks ing of
           None \<Rightarrow> (True, ing)
         | Some q \<Rightarrow> (let (added, c) = ConsumerAdd (oSpanLinks o0) l q in (added, ing\<lparr>SpanLinks := Some c\<rparr>))))"

section \<open>Answers\<close>

text \<open>What a request is told: everything taken, some items rejected, or nothing taken and try again later.\<close>

datatype response = Accepted | PartialSuccess int | Throttled int

definition grpcAnswer :: "nat \<Rightarrow> nat \<Rightarrow> response" where
  "grpcAnswer drops n =
     (if drops = 0 then Accepted else if drops = n then Throttled (int drops) else PartialSuccess (int drops))"

definition httpAnswer :: "nat \<Rightarrow> nat \<Rightarrow> response" where
  "httpAnswer drops n =
     (if drops > 0 then (if drops = n then Throttled (int drops) else PartialSuccess (int drops)) else Accepted)"

text \<open>The loop over the rows of a request: the number of refusals; \<open>i\<close> numbers the rows for the dice.\<close>

fun addEach :: "(nat \<Rightarrow> 'r \<Rightarrow> 's \<Rightarrow> bool \<times> 's) \<Rightarrow> nat \<Rightarrow> 'r list \<Rightarrow> 's \<Rightarrow> nat \<times> 's" where
  "addEach add i [] s = (0, s)"
| "addEach add i (x # xs) s =
     (let (ok, s) = add i x s; (n, s) = addEach add (i + 1) xs s in (if ok then n else n + 1, s))"

type_synonym dices = "nat \<Rightarrow> nat \<Rightarrow> rat"

definition ingestTraces ::
  "golib \<Rightarrow> regex \<Rightarrow> dices \<Rightarrow> ingestOptions \<Rightarrow> pbSpan pbResource list \<Rightarrow> Ingester \<Rightarrow> nat \<times> nat \<times> Ingester" where
  "ingestTraces lib re dice o0 req ing =
     (let (spans, links, h) = ConvertTraces lib req (resArrays ing);
          (drops, ing) = addEach (\<lambda>i. addSpan re (dice i) o0) 0 spans (ing\<lparr>resArrays := h\<rparr>);
          (_, ing) = addEach (\<lambda>_. addSpanLink o0) 0 links ing in
      (drops, length spans, ing))"

definition exportTraces :: "golib \<Rightarrow> regex \<Rightarrow> dices \<Rightarrow> ingestOptions \<Rightarrow> pbSpan pbResource list \<Rightarrow> Ingester \<Rightarrow> response \<times> Ingester" where
  "exportTraces lib re dice o0 req ing = (let (drops, n, ing) = ingestTraces lib re dice o0 req ing in (grpcAnswer drops n, ing))"

definition ingestLogs ::
  "golib \<Rightarrow> regex \<Rightarrow> dices \<Rightarrow> ingestOptions \<Rightarrow> pbLog pbResource list \<Rightarrow> Ingester \<Rightarrow> nat \<times> nat \<times> Ingester" where
  "ingestLogs lib re dice o0 req ing =
     (let (logs, h) = ConvertLogs lib req (resArrays ing);
          (drops, ing) = addEach (\<lambda>i. addLog re (dice i) o0) 0 logs (ing\<lparr>resArrays := h\<rparr>) in
      (drops, length logs, ing))"

definition exportLogs :: "golib \<Rightarrow> regex \<Rightarrow> dices \<Rightarrow> ingestOptions \<Rightarrow> pbLog pbResource list \<Rightarrow> Ingester \<Rightarrow> response \<times> Ingester" where
  "exportLogs lib re dice o0 req ing = (let (drops, n, ing) = ingestLogs lib re dice o0 req ing in (grpcAnswer drops n, ing))"

section \<open>Forwarding\<close>

text \<open>The rows that the filter shows to the drop rules.\<close>

definition forwardView :: "golib \<Rightarrow> pbMetric pbResource \<Rightarrow> pbMetric \<Rightarrow> string \<Rightarrow> KeyValue list \<Rightarrow> MetricRec" where
  "forwardView lib rm m instrument attrs =
     (let (svcName, hostName, resK, resV) =
            (case prResource rm of
               None \<Rightarrow> (''unknown'', [], [], [])
             | Some as \<Rightarrow> (attrStr lib as ''service.name'' ''unknown'', attrStr lib as ''host.name'' [], fst (attrsToArrays lib as), snd (attrsToArrays lib as)));
          (attrK, attrV) = attrsToArrays lib attrs in
      \<lparr>attrKeys = attrK, attrValues = attrV, resKeys = resK, resValues = resV,
       mtMetric = pmName m, mtInstrument = instrument, mtDescription = [], mtUnit = pmUnit m, mtService = svcName, mtHost = hostName,
       mtTime = 0, mtStart = 0, mtValue = 0, mtCount = 0, mtSum = 0, mtMin = 0, mtMax = 0, mtBounds = [], mtCounts = [],
       mtTemporality = [], mtFingerprint = 0, mtMonotonic = 0\<rparr>)"

definition keepPoints :: "(string \<Rightarrow> KeyValue list \<Rightarrow> bool) \<Rightarrow> string \<Rightarrow> 'a pbPoint_scheme list \<Rightarrow> 'a pbPoint_scheme list \<times> nat" where
  "keepPoints refuse instrument dps =
     (filter (\<lambda>dp. \<not> refuse instrument (pdAttrs dp)) dps, length (filter (\<lambda>dp. refuse instrument (pdAttrs dp)) dps))"

definition dropMetricPoints :: "(string \<Rightarrow> KeyValue list \<Rightarrow> bool) \<Rightarrow> pbMetric \<Rightarrow> pbMetric \<times> nat" where
  "dropMetricPoints refuse m =
     (case pmData m of
        Gauge dps \<Rightarrow> (let (ks, n) = keepPoints refuse ''gauge'' dps in (m\<lparr>pmData := Gauge ks\<rparr>, n))
      | Sum dps t isMono \<Rightarrow> (let (ks, n) = keepPoints refuse ''sum'' dps in (m\<lparr>pmData := Sum ks t isMono\<rparr>, n))
      | Histogram dps t \<Rightarrow> (let (ks, n) = keepPoints refuse ''histogram'' dps in (m\<lparr>pmData := Histogram ks t\<rparr>, n))
      | ExponentialHistogram dps t \<Rightarrow>
          (let (ks, n) = keepPoints refuse ''exponential_histogram'' dps in (m\<lparr>pmData := ExponentialHistogram ks t\<rparr>, n))
      | Summary dps \<Rightarrow> (let (ks, n) = keepPoints refuse ''summary'' dps in (m\<lparr>pmData := Summary ks\<rparr>, n))
      | NoData \<Rightarrow> (m, 0))"

definition metricEmpty :: "pbMetric \<Rightarrow> bool" where
  "metricEmpty m =
     (case pmData m of
        Gauge dps \<Rightarrow> dps = []
      | Sum dps _ _ \<Rightarrow> dps = []
      | Histogram dps _ \<Rightarrow> dps = []
      | ExponentialHistogram dps _ \<Rightarrow> dps = []
      | Summary dps \<Rightarrow> dps = []
      | NoData \<Rightarrow> True)"

definition filterScope :: "(pbMetric \<Rightarrow> string \<Rightarrow> KeyValue list \<Rightarrow> bool) \<Rightarrow> pbMetric pbScope \<Rightarrow> pbMetric pbScope \<times> nat" where
  "filterScope refuse sm =
     (let done = map (\<lambda>m. dropMetricPoints (refuse m) m) (pcItems sm) in
      (sm\<lparr>pcItems := filter (\<lambda>m. \<not> metricEmpty m) (map fst done)\<rparr>, sum_list (map snd done)))"

definition filterResource :: "golib \<Rightarrow> (MetricRec \<Rightarrow> bool) \<Rightarrow> pbMetric pbResource \<Rightarrow> pbMetric pbResource \<times> nat" where
  "filterResource lib drops rm =
     (let done = map (filterScope (\<lambda>m instrument attrs. drops (forwardView lib rm m instrument attrs))) (prScopes rm) in
      (rm\<lparr>prScopes := filter (\<lambda>sm. pcItems sm \<noteq> []) (map fst done)\<rparr>, sum_list (map snd done)))"

definition dropForwardPoints :: "golib \<Rightarrow> (MetricRec \<Rightarrow> bool) \<Rightarrow> pbMetric pbResource list \<Rightarrow> pbMetric pbResource list \<times> nat" where
  "dropForwardPoints lib drops req =
     (let done = map (filterResource lib drops) req in
      (filter (\<lambda>rm. prScopes rm \<noteq> []) (map fst done), sum_list (map snd done)))"

definition forwardMetrics :: "ingestOptions \<Rightarrow> MetricBody \<Rightarrow> Ingester \<Rightarrow> Ingester" where
  "forwardMetrics o0 b ing =
     (case MetricForward ing of
        None \<Rightarrow> ing
      | Some q \<Rightarrow>
          if \<not> metricFwdEnabled ing \<or> mbBody b = [] then ing
          else
            (let (added, c) = ConsumerAdd (oForward o0) b q; ing = ing\<lparr>MetricForward := Some c\<rparr> in
             if added then ing\<lparr>metricFwdEnqueued := metricFwdEnqueued ing + 1\<rparr> else ing\<lparr>metricFwdDropped := metricFwdDropped ing + 1\<rparr>))"

text \<open>
  \<open>marshal\<close> is the protobuf encoder, the empty string for a failure. The filter works on the request in
  place, so the request is part of the result.
\<close>

definition sendRaw :: "(pbMetric pbResource list \<Rightarrow> string) \<Rightarrow> ingestOptions \<Rightarrow> pbMetric pbResource list \<Rightarrow> MetricBody \<Rightarrow> Ingester \<Rightarrow> Ingester" where
  "sendRaw marshal o0 req raw ing =
     (if mbBody raw \<noteq> [] then forwardMetrics o0 raw ing else forwardMetrics o0 \<lparr>mbBody = marshal req, mbGzipped = False\<rparr> ing)"

definition forwardWithDrops ::
  "golib \<Rightarrow> regex \<Rightarrow> (pbMetric pbResource list \<Rightarrow> string) \<Rightarrow> ingestOptions \<Rightarrow> pbMetric pbResource list \<Rightarrow> MetricBody \<Rightarrow> Ingester \<Rightarrow>
     pbMetric pbResource list \<times> Ingester" where
  "forwardWithDrops lib re marshal o0 req raw ing =
     (if MetricForward ing = None \<or> \<not> metricFwdEnabled ing then (req, ing)
      else case pipeline ing of
        None \<Rightarrow> (req, sendRaw marshal o0 req raw ing)
      | Some e \<Rightarrow>
          if \<not> HasMetricDropRules e then (req, sendRaw marshal o0 req raw ing)
          else
            (let (req', n) = dropForwardPoints lib (DropsMetric re e) req in
             if n = 0 then (req', sendRaw marshal o0 req' raw ing)
             else
               (let ing = ing\<lparr>metricFwdFiltered := metricFwdFiltered ing + n\<rparr> in
                if req' = [] then (req', ing)
                else (req', forwardMetrics o0 \<lparr>mbBody = marshal req', mbGzipped = False\<rparr> ing))))"

definition ingestMetrics ::
  "golib \<Rightarrow> regex \<Rightarrow> (pbMetric pbResource list \<Rightarrow> string) \<Rightarrow> int \<Rightarrow> dices \<Rightarrow> ingestOptions \<Rightarrow> pbMetric pbResource list \<Rightarrow> MetricBody \<Rightarrow> Ingester \<Rightarrow>
     nat \<times> nat \<times> Ingester" where
  "ingestMetrics lib re marshal unix dice o0 req raw ing =
     (let (req, ing) = forwardWithDrops lib re marshal o0 req raw ing;
          (pts, exs, h) = ConvertMetrics lib req (resArrays ing);
          (drops, ing) = addEach (\<lambda>i. addMetric re (dice i) o0) 0 pts (ing\<lparr>resArrays := h\<rparr>);
          (_, ing) = addEach (\<lambda>_. addExemplar unix o0) 0 exs ing in
      (drops, length pts, ing))"

definition exportMetrics ::
  "golib \<Rightarrow> regex \<Rightarrow> (pbMetric pbResource list \<Rightarrow> string) \<Rightarrow> int \<Rightarrow> dices \<Rightarrow> ingestOptions \<Rightarrow> pbMetric pbResource list \<Rightarrow> Ingester \<Rightarrow> response \<times> Ingester" where
  "exportMetrics lib re marshal unix dice o0 req ing =
     (let (drops, n, ing) = ingestMetrics lib re marshal unix dice o0 req \<lparr>mbBody = [], mbGzipped = False\<rparr> ing in (grpcAnswer drops n, ing))"

section \<open>HTTP bodies\<close>

text \<open>
  A decoder yields the bytes it produces and whether it then ends cleanly; \<open>None\<close> is a stream it refuses to
  open. \<open>readLimited\<close> is \<open>io.ReadAll\<close> on an \<open>io.LimitReader\<close>.
\<close>

type_synonym decoder = "string \<Rightarrow> (string \<times> bool) option"

record 'm codec =
  gunzip :: decoder
  unzstd :: decoder
  inflate :: decoder
  fromJSON :: "string \<Rightarrow> 'm option"
  fromProto :: "string \<Rightarrow> 'm option"

record httpRequest =
  hrEncoding :: string
  hrJSON :: bool
  hrBody :: string

datatype readError = ErrRead | ErrTooLarge | ErrDecode

definition maxBodyBytes :: nat where "maxBodyBytes = 32 * 2 ^ 20"

definition decompressBody :: "'m codec \<Rightarrow> string \<Rightarrow> string \<Rightarrow> (string \<times> bool) option" where
  "decompressBody cd encoding body =
     (let enc = ToLower (TrimSpace encoding) in
      if enc = [] \<or> enc = ''identity'' then Some (body, True)
      else if enc = ''gzip'' then gunzip cd body
      else if enc = ''zstd'' then unzstd cd body
      else if enc = ''deflate'' \<or> enc = ''zlib'' then inflate cd body
      else None)"

definition readLimited :: "nat \<Rightarrow> string \<times> bool \<Rightarrow> string option" where
  "readLimited n st = (if n \<le> length (fst st) then Some (take n (fst st)) else if snd st then Some (fst st) else None)"

definition unmarshal :: "'m codec \<Rightarrow> bool \<Rightarrow> string \<Rightarrow> 'm option" where
  "unmarshal cd json body = (if json then fromJSON cd body else fromProto cd body)"

definition readProto :: "'m codec \<Rightarrow> httpRequest \<Rightarrow> ingestRejects \<Rightarrow> (readError + 'm) \<times> ingestRejects" where
  "readProto cd r rj =
     (case decompressBody cd (hrEncoding r) (hrBody r) of
        None \<Rightarrow> (Inl ErrRead, rj)
      | Some st \<Rightarrow>
          (case readLimited (maxBodyBytes + 1) st of
             None \<Rightarrow> (Inl ErrRead, rj)
           | Some body \<Rightarrow>
               if length body > maxBodyBytes then (Inl ErrTooLarge, rj\<lparr>httpOversize := httpOversize rj + 1\<rparr>)
               else case unmarshal cd (hrJSON r) body of
                 None \<Rightarrow> (Inl ErrDecode, rj\<lparr>httpDecode := httpDecode rj + 1\<rparr>)
               | Some m \<Rightarrow> (Inr m, rj)))"

definition readMetricsBody :: "'m codec \<Rightarrow> ('m \<Rightarrow> string option) \<Rightarrow> httpRequest \<Rightarrow> readError + 'm \<times> MetricBody" where
  "readMetricsBody cd marshal r =
     (let raw = take maxBodyBytes (hrBody r) in
      case decompressBody cd (hrEncoding r) raw of
        None \<Rightarrow> Inl ErrRead
      | Some st \<Rightarrow>
          (case readLimited maxBodyBytes st of
             None \<Rightarrow> Inl ErrRead
           | Some plain \<Rightarrow>
               if hrJSON r then
                 (case fromJSON cd plain of
                    None \<Rightarrow> Inl ErrDecode
                  | Some m \<Rightarrow> (case marshal m of None \<Rightarrow> Inl ErrDecode | Some pb \<Rightarrow> Inr (m, \<lparr>mbBody = pb, mbGzipped = False\<rparr>)))
               else
                 (case fromProto cd plain of
                    None \<Rightarrow> Inl ErrDecode
                  | Some m \<Rightarrow>
                      Inr (m, if ToLower (TrimSpace (hrEncoding r)) = ''gzip'' then \<lparr>mbBody = raw, mbGzipped = True\<rparr>
                              else \<lparr>mbBody = plain, mbGzipped = False\<rparr>))))"

datatype httpReply = Failed nat | Answered response

definition readErrorStatus :: "readError \<Rightarrow> nat" where
  "readErrorStatus e = (if e = ErrTooLarge then 413 else 400)"

definition handleTraces ::
  "golib \<Rightarrow> regex \<Rightarrow> dices \<Rightarrow> ingestOptions \<Rightarrow> pbSpan pbResource list codec \<Rightarrow> int \<Rightarrow> httpRequest \<Rightarrow> Ingester \<times> ingestRejects \<Rightarrow>
     httpReply \<times> Ingester \<times> ingestRejects" where
  "handleTraces lib re dice o0 cd now r s =
     (let (ing, rj) = s in
      case readProto cd r rj of
        (Inl e, rj) \<Rightarrow> (Failed (readErrorStatus e), ing, rj)
      | (Inr req, rj) \<Rightarrow>
          (let (drops, n, ing) = ingestTraces lib re dice o0 req ing in (Answered (httpAnswer drops n), ing, countTraces now req rj)))"

definition handleLogs ::
  "golib \<Rightarrow> regex \<Rightarrow> dices \<Rightarrow> ingestOptions \<Rightarrow> pbLog pbResource list codec \<Rightarrow> httpRequest \<Rightarrow> Ingester \<times> ingestRejects \<Rightarrow>
     httpReply \<times> Ingester \<times> ingestRejects" where
  "handleLogs lib re dice o0 cd r s =
     (let (ing, rj) = s in
      case readProto cd r rj of
        (Inl e, rj) \<Rightarrow> (Failed (readErrorStatus e), ing, rj)
      | (Inr req, rj) \<Rightarrow> (let (drops, n, ing) = ingestLogs lib re dice o0 req ing in (Answered (httpAnswer drops n), ing, rj)))"

definition handleMetrics ::
  "golib \<Rightarrow> regex \<Rightarrow> (pbMetric pbResource list \<Rightarrow> string option) \<Rightarrow> int \<Rightarrow> dices \<Rightarrow> ingestOptions \<Rightarrow> pbMetric pbResource list codec \<Rightarrow> httpRequest \<Rightarrow>
     Ingester \<Rightarrow> httpReply \<times> Ingester" where
  "handleMetrics lib re marshal unix dice o0 cd r ing =
     (case readMetricsBody cd marshal r of
        Inl e \<Rightarrow> (Failed 400, ing)
      | Inr (req, fwd) \<Rightarrow>
          (let (drops, n, ing) = ingestMetrics lib re (\<lambda>m. case marshal m of Some b \<Rightarrow> b | None \<Rightarrow> []) unix dice o0 req fwd ing in
           (Answered (httpAnswer drops n), ing)))"

section \<open>Enrichment on shared slices\<close>

definition heldOK :: "arrays \<Rightarrow> 'a carrier_scheme held \<Rightarrow> bool" where
  "heldOK h xr \<longleftrightarrow> (case snd xr of Some a \<Rightarrow> a < length h | None \<Rightarrow> True)"

definition slicesOK :: "string list \<Rightarrow> nat option \<Rightarrow> arrays \<Rightarrow> bool" where
  "slicesOK vs ref h \<longleftrightarrow> (case ref of Some a \<Rightarrow> a < length h \<and> h ! a = vs | None \<Rightarrow> True)"

text \<open>Only the array of the slice itself changes, and a slice keeps its array or gets one of its own.\<close>

definition othersKept :: "nat option \<Rightarrow> arrays \<Rightarrow> nat option \<Rightarrow> arrays \<Rightarrow> bool" where
  "othersKept ref h ref' h' \<longleftrightarrow>
     length h' = length h \<and> (ref' = None \<or> ref' = ref) \<and> (\<forall>b < length h. ref \<noteq> Some b \<longrightarrow> h' ! b = h ! b)"

lemma othersKept_trans: "othersKept r h r' h' \<Longrightarrow> othersKept r' h' r'' h'' \<Longrightarrow> othersKept r h r'' h''"
  unfolding othersKept_def by (metis option.distinct(1))

lemma setAttrHeld_step:
  assumes "slicesOK vs ref h"
  shows "\<exists>ks' vs' ref' h'. setAttrHeld kv (ks, vs, ref, h) = (ks', vs', ref', h') \<and> setAttr kv (ks, vs) = (ks', vs') \<and>
    slicesOK vs' ref' h' \<and> othersKept ref h ref' h'"
  using assms by (cases kv) (auto simp: slicesOK_def othersKept_def split: option.splits)

lemma setAttrs_held:
  assumes "slicesOK vs ref h"
  shows "\<exists>ks' vs' ref' h'. fold setAttrHeld sets (ks, vs, ref, h) = (ks', vs', ref', h') \<and> applyEnrichAttrs sets (ks, vs) = (ks', vs') \<and>
    slicesOK vs' ref' h' \<and> othersKept ref h ref' h'"
  using assms
proof (induction sets arbitrary: ks vs ref h)
  case Nil
  then show ?case by (auto simp: applyEnrichAttrs_def othersKept_def)
next
  case (Cons kv sets)
  from setAttrHeld_step [OF Cons.prems, of kv ks] obtain ks1 vs1 ref1 h1 where
    1: "setAttrHeld kv (ks, vs, ref, h) = (ks1, vs1, ref1, h1)" "setAttr kv (ks, vs) = (ks1, vs1)" "slicesOK vs1 ref1 h1" "othersKept ref h ref1 h1" by blast
  from Cons.IH [OF 1(3), of ks1] 1 show ?case by (fastforce simp: applyEnrichAttrs_def intro: othersKept_trans)
qed

lemma derefRow_slices: "heldOK h xr \<Longrightarrow> slicesOK (resValues (derefRow h xr)) (snd xr) h"
  by (auto simp: heldOK_def slicesOK_def derefRow_def split: option.splits)

lemma derefRow_resKeys: "resKeys (derefRow h xr) = resKeys (fst xr)"
  by (simp add: derefRow_def split: option.splits)

text \<open>The row a slice-level step stands for, and what the step leaves alone.\<close>

definition standsFor :: "nat option \<Rightarrow> arrays \<Rightarrow> 'a carrier_scheme held \<times> arrays \<Rightarrow> 'a carrier_scheme \<Rightarrow> bool" where
  "standsFor ref h xh y \<longleftrightarrow> heldOK (snd xh) (fst xh) \<and> derefRow (snd xh) (fst xh) = y \<and> othersKept ref h (snd (fst xh)) (snd xh)"

lemma enrichHeld_step:
  assumes "standsFor ref0 h0 xh y"
  shows "standsFor ref0 h0 (enrichHeld sets xh) (applyEnrich sets y)"
proof -
  obtain x ref h where xh: "xh = ((x, ref), h)" by (metis prod.collapse)
  have ok: "heldOK h (x, ref)" and y: "derefRow h (x, ref) = y" and o: "othersKept ref0 h0 ref h" using assms by (auto simp: standsFor_def xh)
  from setAttrs_held [OF derefRow_slices [OF ok], of sets "resKeys x"] obtain ks vs ref' h' where
    f: "fold setAttrHeld sets (resKeys x, resValues y, ref, h) = (ks, vs, ref', h')"
    and a: "applyEnrichAttrs sets (resKeys x, resValues y) = (ks, vs)" and s: "slicesOK vs ref' h'" and k: "othersKept ref h ref' h'"
    by (auto simp: y)
  have "resKeys x = resKeys y" using y derefRow_resKeys [of h "(x, ref)"] by simp
  then have "applyEnrich sets y = y\<lparr>resKeys := ks, resValues := vs\<rparr>" using a by (simp add: applyEnrich_def)
  moreover have "derefRow h' (x\<lparr>resKeys := ks, resValues := vs\<rparr>, ref') = y\<lparr>resKeys := ks, resValues := vs\<rparr>"
    using y s by (auto simp: derefRow_def slicesOK_def split: option.splits)
  moreover have "heldOK h' (x\<lparr>resKeys := ks, resValues := vs\<rparr>, ref')" using s by (auto simp: heldOK_def slicesOK_def split: option.splits)
  ultimately show ?thesis using f y othersKept_trans [OF o k] by (simp add: standsFor_def xh Let_def)
qed

lemma acceptLoop_simulation:
  assumes "R x y" and "\<And>c x y. R x y \<Longrightarrow> m c x = m' c y" and "\<And>sets x y. R x y \<Longrightarrow> R (en sets x) (en' sets y)"
  shows "fst (acceptLoop m en sg dice i rs x) = fst (acceptLoop m' en' sg dice i rs y) \<and>
    R (snd (acceptLoop m en sg dice i rs x)) (snd (acceptLoop m' en' sg dice i rs y))"
  using assms(1)
proof (induction rs arbitrary: i x y)
  case (Cons r rs)
  have "applies m sg r x = applies m' sg r y" using assms(2) [OF Cons.prems] by (simp add: applies_def matchAll_def)
  with Cons assms(3) [OF Cons.prems] show ?case by (auto split: RuleKind.splits)
qed simp

lemma acceptHeld_refines:
  assumes "heldOK h xr" and "acceptHeld m sg dice rs (xr, h) = (ok, xr', h')"
  shows "acceptLoop m applyEnrich sg dice 0 rs (derefRow h xr) = (ok, derefRow h' xr') \<and> heldOK h' xr' \<and> othersKept (snd xr) h (snd xr') h'"
proof -
  have start: "standsFor (snd xr) h (xr, h) (derefRow h xr)" using assms(1) by (simp add: standsFor_def othersKept_def)
  have m: "(\<lambda>(xr, h). m c (derefRow h xr)) xh = m c y" if "standsFor (snd xr) h xh y" for c xh y
    using that by (auto simp: standsFor_def split: prod.splits)
  from acceptLoop_simulation [of "standsFor (snd xr) h" _ _ "\<lambda>c (xr, h). m c (derefRow h xr)" m enrichHeld applyEnrich sg dice 0 rs, OF start m enrichHeld_step]
    assms(2) show ?thesis by (cases "acceptLoop m applyEnrich sg dice 0 rs (derefRow h xr)") (simp add: acceptHeld_def standsFor_def)
qed

text \<open>
  Working on shared slices computes the policy of the row itself: \<open>acceptHeld\<close> is the accept path with the sharing of the resource
  values made explicit, and for a row of a request it gives the verdict of \<open>AcceptSpan\<close> on the row's value, leaves a row that stands for
  the value that \<open>AcceptSpan\<close> leaves, and changes no array but the one that the row itself points to (which other rows of the same
  resource point to as well, see \<open>enrichment_leaks\<close>).
\<close>

theorem AcceptSpan_shared:
  assumes "heldOK h xr" and "acceptHeld (matchSpan re) SignalSpans dice (rules e) (xr, h) = (ok, xr', h')"
  shows "AcceptSpan re dice e (derefRow h xr) = (ok, derefRow h' xr') \<and> heldOK h' xr' \<and> othersKept (snd xr) h (snd xr') h'"
  using acceptHeld_refines [OF assms] by (simp add: AcceptSpan_def)

section \<open>Accounting\<close>

text \<open>
  The contract of the three \<open>add\<close> functions towards the request loop: a call ends in exactly one of three ways,
  taken by the consumer, discarded by policy, or refused by the consumer, and only a refusal is reported.
\<close>

locale accounted =
  fixes add :: "nat \<Rightarrow> 'r \<Rightarrow> 's \<Rightarrow> bool \<times> 's" and took :: "'s \<Rightarrow> int" and discarded :: "'s \<Rightarrow> nat" and refused_by :: "'s \<Rightarrow> nat"
  assumes one_way: "add i x s = (ok, s') \<Longrightarrow>
    (ok \<and> took s' = took s + 1 \<and> discarded s' = discarded s \<and> refused_by s' = refused_by s) \<or>
    (ok \<and> took s' = took s \<and> discarded s' = discarded s + 1 \<and> refused_by s' = refused_by s) \<or>
    (\<not> ok \<and> took s' = took s \<and> discarded s' = discarded s \<and> refused_by s' = refused_by s + 1)"
begin

lemma addAll_counts:
  assumes "addEach add i xs s = (n, s')"
  shows "refused_by s' = refused_by s + n \<and> discarded s \<le> discarded s' \<and> took s \<le> took s' \<and>
    int (length xs) = (took s' - took s) + (int (discarded s') - int (discarded s)) + int n"
  using assms
proof (induction xs arbitrary: i s n)
  case (Cons x xs)
  obtain ok s1 where a: "add i x s = (ok, s1)" by (cases "add i x s")
  obtain n1 where r: "addEach add (i + 1) xs s1 = (n1, s')" "n = (if ok then n1 else n1 + 1)"
    using Cons.prems a by (cases "addEach add (i + 1) xs s1") auto
  from Cons.IH [OF r(1)] one_way [OF a] r(2) show ?case by auto
qed simp

text \<open>Whatever the answer says is what happened; a request told to come again has left nothing behind.\<close>

lemma answer_honest:
  assumes "addEach add i xs s = (n, s')" and "grpcAnswer n (length xs) = resp"
  shows "(case resp of
      Accepted \<Rightarrow> refused_by s' = refused_by s
    | PartialSuccess k \<Rightarrow> 0 < k \<and> k < int (length xs) \<and> int (refused_by s') = int (refused_by s) + k
    | Throttled k \<Rightarrow> k = int (length xs) \<and> xs \<noteq> [] \<and> took s' = took s \<and> discarded s' = discarded s) \<and>
    int (length xs) = (took s' - took s) + (int (discarded s') - int (discarded s)) + int (refused_by s') - int (refused_by s)"
  using addAll_counts [OF assms(1)] assms(2) by (auto simp: grpcAnswer_def split: if_splits)

end

lemma ConsumerAdd_cases:
  assumes "ConsumerAdd c x s = (ok, s')"
  shows "(ok \<and> accepted s' = accepted s + 1 \<and> refused s' = refused s \<and> admitted s' = x # admitted s) \<or>
    (\<not> ok \<and> accepted s' = accepted s \<and> refused s' = refused s + 1 \<and> admitted s' = admitted s)"
  using assms by (auto simp: ConsumerAdd_def Let_def split: if_splits)

interpretation span_add: accounted "\<lambda>i. addSpan re (dice i) o0" "accepted \<circ> Spans" spansDropped "refused \<circ> Spans" for re dice o0
proof
  fix i x s ok s'
  assume "addSpan re (dice i) o0 x s = (ok, s')"
  then show "ok \<and> (accepted \<circ> Spans) s' = (accepted \<circ> Spans) s + 1 \<and> spansDropped s' = spansDropped s \<and> (refused \<circ> Spans) s' = (refused \<circ> Spans) s \<or>
    ok \<and> (accepted \<circ> Spans) s' = (accepted \<circ> Spans) s \<and> spansDropped s' = spansDropped s + 1 \<and> (refused \<circ> Spans) s' = (refused \<circ> Spans) s \<or>
    \<not> ok \<and> (accepted \<circ> Spans) s' = (accepted \<circ> Spans) s \<and> spansDropped s' = spansDropped s \<and> (refused \<circ> Spans) s' = (refused \<circ> Spans) s + 1"
    by (auto simp: addSpan_def Let_def split: prod.splits if_splits dest!: ConsumerAdd_cases)
qed

interpretation log_add: accounted "\<lambda>i. addLog re (dice i) o0" "accepted \<circ> Logs" logsDropped "refused \<circ> Logs" for re dice o0
proof
  fix i x s ok s'
  assume "addLog re (dice i) o0 x s = (ok, s')"
  then show "ok \<and> (accepted \<circ> Logs) s' = (accepted \<circ> Logs) s + 1 \<and> logsDropped s' = logsDropped s \<and> (refused \<circ> Logs) s' = (refused \<circ> Logs) s \<or>
    ok \<and> (accepted \<circ> Logs) s' = (accepted \<circ> Logs) s \<and> logsDropped s' = logsDropped s + 1 \<and> (refused \<circ> Logs) s' = (refused \<circ> Logs) s \<or>
    \<not> ok \<and> (accepted \<circ> Logs) s' = (accepted \<circ> Logs) s \<and> logsDropped s' = logsDropped s \<and> (refused \<circ> Logs) s' = (refused \<circ> Logs) s + 1"
    by (auto simp: addLog_def Let_def split: prod.splits if_splits dest!: ConsumerAdd_cases)
qed

interpretation metric_add: accounted "\<lambda>i. addMetric re (dice i) o0" "accepted \<circ> Metrics" metricsDropped "refused \<circ> Metrics" for re dice o0
proof
  fix i x s ok s'
  assume "addMetric re (dice i) o0 x s = (ok, s')"
  then show "ok \<and> (accepted \<circ> Metrics) s' = (accepted \<circ> Metrics) s + 1 \<and> metricsDropped s' = metricsDropped s \<and> (refused \<circ> Metrics) s' = (refused \<circ> Metrics) s \<or>
    ok \<and> (accepted \<circ> Metrics) s' = (accepted \<circ> Metrics) s \<and> metricsDropped s' = metricsDropped s + 1 \<and> (refused \<circ> Metrics) s' = (refused \<circ> Metrics) s \<or>
    \<not> ok \<and> (accepted \<circ> Metrics) s' = (accepted \<circ> Metrics) s \<and> metricsDropped s' = metricsDropped s \<and> (refused \<circ> Metrics) s' = (refused \<circ> Metrics) s + 1"
    by (auto simp: addMetric_def Let_def split: prod.splits if_splits dest!: ConsumerAdd_cases)
qed

lemma addSpanLink_frame: "addSpanLink o0 l s = (ok, s') \<Longrightarrow> Spans s' = Spans s \<and> spansDropped s' = spansDropped s"
  by (auto simp: addSpanLink_def Let_def split: if_splits option.splits prod.splits)

lemma addExemplar_frame: "addExemplar unix o0 ex s = (ok, s') \<Longrightarrow> Metrics s' = Metrics s \<and> metricsDropped s' = metricsDropped s"
  by (auto simp: addExemplar_def exemplarGate_def Let_def split: if_splits option.splits prod.splits)

lemma addAll_frame:
  assumes "addEach add i xs s = (n, s')" and "\<And>i x s ok s'. add i x s = (ok, s') \<Longrightarrow> f s' = f s"
  shows "f s' = f s"
  using assms(1)
proof (induction xs arbitrary: i s n)
  case (Cons x xs)
  obtain ok s1 where a: "add i x s = (ok, s1)" by (cases "add i x s")
  with Cons.prems obtain n1 where "addEach add (i + 1) xs s1 = (n1, s')" by (cases "addEach add (i + 1) xs s1") auto
  from Cons.IH [OF this] assms(2) [OF a] show ?case by simp
qed simp

lemma answers_agree: "httpAnswer drops n = grpcAnswer drops n"
  by (simp add: httpAnswer_def grpcAnswer_def)

text \<open>The spans of a request and the rows they become are as many.\<close>

lemma resourceSpans_length: "length (fst (resourceSpans lib a rs)) = length (concat (map pcItems (prScopes rs)))"
  by (simp add: resourceSpans_def Let_def length_concat comp_def split: prod.splits)

lemma ConvertTraces_length: "ConvertTraces lib req h = (rows, links, h') \<Longrightarrow> length rows = length (traceSpans req)"
proof (induction req arbitrary: h rows links)
  case (Cons rs req)
  obtain r1 l1 v1 where 1: "resourceSpans lib (length h) rs = (r1, l1, v1)" by (metis prod_cases3)
  obtain r2 l2 where 2: "ConvertTraces lib req (h @ [v1]) = (r2, l2, h')" "rows = r1 @ r2"
    using Cons.prems 1 by (cases "ConvertTraces lib req (h @ [v1])") auto
  from Cons.IH [OF 2(1)] resourceSpans_length [of lib "length h" rs] 1 2(2) show ?case by (simp add: traceSpans_def)
qed (simp add: traceSpans_def)

lemma ingestTraces_honest:
  assumes "ingestTraces lib re dice o0 req ing = (drops, n, ing')"
  shows "(case grpcAnswer drops n of
      Accepted \<Rightarrow> refused (Spans ing') = refused (Spans ing)
    | PartialSuccess k \<Rightarrow> 0 < k \<and> k < int (length (traceSpans req)) \<and> int (refused (Spans ing')) = int (refused (Spans ing)) + k
    | Throttled k \<Rightarrow> k = int (length (traceSpans req)) \<and> accepted (Spans ing') = accepted (Spans ing) \<and> spansDropped ing' = spansDropped ing) \<and>
    int (length (traceSpans req)) = (accepted (Spans ing') - accepted (Spans ing)) + (int (spansDropped ing') - int (spansDropped ing)) +
      int (refused (Spans ing')) - int (refused (Spans ing))"
proof -
  obtain spans links h where c: "ConvertTraces lib req (resArrays ing) = (spans, links, h)" by (metis prod_cases3)
  obtain m ing1 where a: "addEach (\<lambda>i. addSpan re (dice i) o0) 0 spans (ing\<lparr>resArrays := h\<rparr>) = (m, ing1)" by fastforce
  obtain k where l: "addEach (\<lambda>_. addSpanLink o0) 0 links ing1 = (k, ing')" and r: "drops = m" "n = length spans"
    using assms c a by (auto simp: ingestTraces_def split: prod.splits)
  have "Spans ing' = Spans ing1" "spansDropped ing' = spansDropped ing1"
    by (rule addAll_frame [OF l], blast dest: addSpanLink_frame)+
  with span_add.answer_honest [OF a refl] ConvertTraces_length [OF c] show ?thesis
    by (cases "grpcAnswer drops n") (auto simp: comp_def r)
qed

text \<open>
  C3. The answer to a trace export is honest: every span of the request was taken by the consumer, discarded
  by policy or refused, the refusals are exactly those the answer reports, and a throttled request has left no
  span behind, so that sending it again stores no span twice.
\<close>

theorem exportTraces_honest:
  assumes "exportTraces lib re dice o0 req ing = (resp, ing')"
  shows "(case resp of
      Accepted \<Rightarrow> refused (Spans ing') = refused (Spans ing)
    | PartialSuccess k \<Rightarrow> 0 < k \<and> k < int (length (traceSpans req)) \<and> int (refused (Spans ing')) = int (refused (Spans ing)) + k
    | Throttled k \<Rightarrow> k = int (length (traceSpans req)) \<and> accepted (Spans ing') = accepted (Spans ing) \<and> spansDropped ing' = spansDropped ing) \<and>
    int (length (traceSpans req)) = (accepted (Spans ing') - accepted (Spans ing)) + (int (spansDropped ing') - int (spansDropped ing)) +
      int (refused (Spans ing')) - int (refused (Spans ing))"
proof -
  obtain drops n where "ingestTraces lib re dice o0 req ing = (drops, n, ing')" "resp = grpcAnswer drops n"
    using assms by (auto simp: exportTraces_def split: prod.splits)
  then show ?thesis using ingestTraces_honest by blast
qed

text \<open>
  The same for metrics, on the points that the request holds after forwarding: the ones taken, discarded
  and refused add up, the answer reports the refusals, and a throttled request has left no point behind.
\<close>

theorem exportMetrics_honest:
  assumes "exportMetrics lib re marshal unix dice o0 req ing = (resp, ing')"
    and "forwardWithDrops lib re marshal o0 req \<lparr>mbBody = [], mbGzipped = False\<rparr> ing = (req', ing1)"
  defines "pts \<equiv> fst (ConvertMetrics lib req' (resArrays ing1))"
  shows "(case resp of
      Accepted \<Rightarrow> refused (Metrics ing') = refused (Metrics ing)
    | PartialSuccess k \<Rightarrow> 0 < k \<and> k < int (length pts) \<and> int (refused (Metrics ing')) = int (refused (Metrics ing)) + k
    | Throttled k \<Rightarrow> k = int (length pts) \<and> accepted (Metrics ing') = accepted (Metrics ing) \<and> metricsDropped ing' = metricsDropped ing) \<and>
    int (length pts) = (accepted (Metrics ing') - accepted (Metrics ing)) + (int (metricsDropped ing') - int (metricsDropped ing)) +
      int (refused (Metrics ing')) - int (refused (Metrics ing))"
proof -
  have fwd: "Metrics (forwardMetrics o0 b s) = Metrics s \<and> metricsDropped (forwardMetrics o0 b s) = metricsDropped s" for b s
    by (auto simp: forwardMetrics_def Let_def split: option.splits prod.splits)
  have f: "Metrics ing1 = Metrics ing \<and> metricsDropped ing1 = metricsDropped ing"
    using assms(2) by (auto simp: forwardWithDrops_def sendRaw_def Let_def fwd split: if_splits option.splits prod.splits)
  obtain exs h where c: "ConvertMetrics lib req' (resArrays ing1) = (pts, exs, h)" by (metis pts_def prod.collapse)
  obtain n ing2 where a: "addEach (\<lambda>i. addMetric re (dice i) o0) 0 pts (ing1\<lparr>resArrays := h\<rparr>) = (n, ing2)" by fastforce
  obtain k where l: "addEach (\<lambda>_. addExemplar unix o0) 0 exs ing2 = (k, ing')" and r: "resp = grpcAnswer n (length pts)"
    using assms(1,2) c a by (auto simp: exportMetrics_def ingestMetrics_def split: prod.splits)
  have "Metrics ing' = Metrics ing2" "metricsDropped ing' = metricsDropped ing2"
    by (rule addAll_frame [OF l], blast dest: addExemplar_frame)+
  with metric_add.answer_honest [OF a r [symmetric]] f show ?thesis by (cases resp) (auto simp: comp_def)
qed

section \<open>The forward filter\<close>

text \<open>The points of a request as the filter sees them.\<close>

definition metricViews :: "(string \<Rightarrow> KeyValue list \<Rightarrow> 'v) \<Rightarrow> pbMetric \<Rightarrow> 'v list" where
  "metricViews view m =
     (case pmData m of
        Gauge dps \<Rightarrow> map (view ''gauge'' \<circ> pdAttrs) dps
      | Sum dps _ _ \<Rightarrow> map (view ''sum'' \<circ> pdAttrs) dps
      | Histogram dps _ \<Rightarrow> map (view ''histogram'' \<circ> pdAttrs) dps
      | ExponentialHistogram dps _ \<Rightarrow> map (view ''exponential_histogram'' \<circ> pdAttrs) dps
      | Summary dps \<Rightarrow> map (view ''summary'' \<circ> pdAttrs) dps
      | NoData \<Rightarrow> [])"

definition requestViews :: "golib \<Rightarrow> pbMetric pbResource list \<Rightarrow> MetricRec list" where
  "requestViews lib req = concat (map (\<lambda>rm. concat (map (\<lambda>m. metricViews (forwardView lib rm m) m) (resourceMetrics rm))) req)"

lemma metricViews_filter:
  assumes "dropMetricPoints (\<lambda>i a. P (view i a)) m = (m', n)"
  shows "metricViews view m' = filter (\<lambda>v. \<not> P v) (metricViews view m) \<and> n = length (filter P (metricViews view m)) \<and>
    pmName m' = pmName m \<and> pmUnit m' = pmUnit m \<and> pmDescription m' = pmDescription m"
  using assms
  by (auto simp: dropMetricPoints_def keepPoints_def metricViews_def filter_map comp_def split: metricData.splits)

lemma metricEmpty_views: "metricEmpty m \<longleftrightarrow> metricViews view m = []"
  by (auto simp: metricEmpty_def metricViews_def split: metricData.splits)

lemma filter_nonempty_concat: "concat (map f (filter (\<lambda>x. f x \<noteq> []) xs)) = concat (map f xs)"
  by (induction xs) auto

lemma forwardView_cong: "pmName m' = pmName m \<Longrightarrow> pmUnit m' = pmUnit m \<Longrightarrow> forwardView lib rm m' = forwardView lib rm m"
  by (intro ext) (simp add: forwardView_def)

lemma forwardView_resource: "prResource rm' = prResource rm \<Longrightarrow> forwardView lib rm' = forwardView lib rm"
  by (intro ext) (simp add: forwardView_def)

lemma filterScope_views:
  assumes "filterScope (\<lambda>m i a. drops (forwardView lib rm m i a)) sm = (sm', n)"
  defines "vs \<equiv> \<lambda>m. metricViews (forwardView lib rm m) m"
  shows "concat (map vs (pcItems sm')) = filter (\<lambda>v. \<not> drops v) (concat (map vs (pcItems sm))) \<and>
    n = length (filter drops (concat (map vs (pcItems sm))))"
proof -
  let ?d = "\<lambda>m. dropMetricPoints (\<lambda>i a. drops (forwardView lib rm m i a)) m"
  have one: "vs (fst (?d m)) = filter (\<lambda>v. \<not> drops v) (vs m) \<and> snd (?d m) = length (filter drops (vs m))" for m
  proof (cases "?d m")
    case (Pair m' k)
    from metricViews_filter [of drops "forwardView lib rm m", OF this] forwardView_cong [of m' m lib rm] Pair show ?thesis by (simp add: vs_def)
  qed
  have e: "metricEmpty m \<longleftrightarrow> vs m = []" for m by (simp add: vs_def metricEmpty_views)
  have "sm' = sm\<lparr>pcItems := filter (\<lambda>m. vs m \<noteq> []) (map (fst \<circ> ?d) (pcItems sm))\<rparr>" "n = sum_list (map (snd \<circ> ?d) (pcItems sm))"
    using assms(1) by (auto simp: filterScope_def Let_def e)
  then show ?thesis by (simp add: filter_nonempty_concat comp_def one filter_concat length_concat)
qed

lemma concat_concat_map: "concat (concat (map f xs)) = concat (map (\<lambda>x. concat (f x)) xs)"
  by (induction xs) auto

lemma filterResource_views:
  assumes "filterResource lib drops rm = (rm', n)"
  shows "requestViews lib [rm'] = filter (\<lambda>v. \<not> drops v) (requestViews lib [rm]) \<and> n = length (filter drops (requestViews lib [rm])) \<and>
    (prScopes rm' \<noteq> [] \<or> requestViews lib [rm'] = [])"
proof -
  let ?d = "filterScope (\<lambda>m i a. drops (forwardView lib rm m i a))"
  let ?vs = "\<lambda>sm. concat (map (\<lambda>m. metricViews (forwardView lib rm m) m) (pcItems sm))"
  have one: "?vs (fst (?d sm)) = filter (\<lambda>v. \<not> drops v) (?vs sm) \<and> snd (?d sm) = length (filter drops (?vs sm))" for sm
    by (cases "?d sm") (use filterScope_views [where lib = lib and rm = rm] in auto)
  have rm': "rm' = rm\<lparr>prScopes := filter (\<lambda>sm. pcItems sm \<noteq> []) (map (fst \<circ> ?d) (prScopes rm))\<rparr>" and n: "n = sum_list (map (snd \<circ> ?d) (prScopes rm))"
    using assms by (auto simp: filterResource_def Let_def)
  have v: "requestViews lib [r] = concat (map ?vs (prScopes r))" if "prResource r = prResource rm" for r
    using forwardView_resource [OF that] by (simp add: requestViews_def resourceMetrics_def map_concat comp_def concat_concat_map)
  have skip: "concat (map ?vs (filter (\<lambda>sm. pcItems sm \<noteq> []) sms)) = concat (map ?vs sms)" for sms by (induction sms) auto
  have "requestViews lib [rm'] = concat (map (?vs \<circ> fst \<circ> ?d) (prScopes rm))" by (simp add: v rm' skip comp_def)
  also have "\<dots> = filter (\<lambda>v. \<not> drops v) (requestViews lib [rm])" by (simp add: v comp_def one filter_concat)
  finally have "requestViews lib [rm'] = filter (\<lambda>v. \<not> drops v) (requestViews lib [rm])" .
  moreover have "n = length (filter drops (requestViews lib [rm]))" by (simp add: v n comp_def one filter_concat length_concat)
  moreover have "requestViews lib [rm'] = concat (map ?vs (prScopes rm'))" by (rule v) (simp add: rm')
  then have "prScopes rm' \<noteq> [] \<or> requestViews lib [rm'] = []" by auto
  ultimately show ?thesis by blast
qed

text \<open>
  The forward filter removes exactly the points that the drop predicate names, keeps the others in their
  order, and reports the number it removed; the pruning of empty metrics, scopes and resources loses nothing.
\<close>

theorem dropForwardPoints_exact:
  assumes "dropForwardPoints lib drops req = (req', n)"
  shows "requestViews lib req' = filter (\<lambda>v. \<not> drops v) (requestViews lib req) \<and> n = length (filter drops (requestViews lib req))"
proof -
  let ?d = "filterResource lib drops" and ?vs = "\<lambda>rm. requestViews lib [rm]"
  have v: "requestViews lib rs = concat (map ?vs rs)" for rs by (simp add: requestViews_def comp_def)
  have one: "?vs (fst (?d rm)) = filter (\<lambda>v. \<not> drops v) (?vs rm) \<and> snd (?d rm) = length (filter drops (?vs rm)) \<and>
      (prScopes (fst (?d rm)) \<noteq> [] \<or> ?vs (fst (?d rm)) = [])" for rm
    by (cases "?d rm") (use filterResource_views [of lib drops rm] in fastforce)
  have req': "req' = filter (\<lambda>rm. prScopes rm \<noteq> []) (map (fst \<circ> ?d) req)" and n: "n = sum_list (map (snd \<circ> ?d) req)"
    using assms by (auto simp: dropForwardPoints_def Let_def)
  have kept: "concat (map ?vs (filter (\<lambda>rm. prScopes rm \<noteq> []) (map (fst \<circ> ?d) rms))) = concat (map (\<lambda>rm. filter (\<lambda>v. \<not> drops v) (?vs rm)) rms)" for rms
  proof (induction rms)
    case (Cons rm rms)
    have "prScopes (fst (?d rm)) = [] \<Longrightarrow> filter (\<lambda>v. \<not> drops v) (?vs rm) = []" using one [of rm] by metis
    with Cons one [of rm] show ?case by simp
  qed simp
  have "requestViews lib req' = concat (map ?vs req')" by (rule v)
  also have "\<dots> = concat (map (\<lambda>rm. filter (\<lambda>v. \<not> drops v) (?vs rm)) req)" by (simp only: req' kept)
  also have "\<dots> = filter (\<lambda>v. \<not> drops v) (concat (map ?vs req))" by (simp add: filter_concat comp_def)
  also have "\<dots> = filter (\<lambda>v. \<not> drops v) (requestViews lib req)" by (simp only: v [of req])
  finally have "requestViews lib req' = filter (\<lambda>v. \<not> drops v) (requestViews lib req)" .
  moreover have "n = length (filter drops (requestViews lib req))" unfolding v [of req] by (simp add: n comp_def one filter_concat length_concat)
  ultimately show ?thesis by blast
qed

section \<open>What the filter sees\<close>

definition plainKind :: "pbMetric \<Rightarrow> bool" where
  "plainKind m =
     (case pmData m of
        ExponentialHistogram _ _ \<Rightarrow> False
      | Summary dps \<Rightarrow> list_all (\<lambda>dp. List.map_filter (\<lambda>q. q) (pyQuantiles dp) = []) dps
      | _ \<Rightarrow> True)"

lemma DropsMetric_cong:
  assumes "\<And>c. matchMetric re c x = matchMetric re c y"
  shows "DropsMetric re e x = DropsMetric re e y"
  using assms by (simp add: DropsMetric_def applies_def matchAll_def)

lemma matchMetric_fields:
  assumes "mtMetric x = mtMetric y" "mtInstrument x = mtInstrument y" "mtUnit x = mtUnit y" "mtService x = mtService y" "mtHost x = mtHost y"
    and "attrKeys x = attrKeys y" "attrValues x = attrValues y" "resKeys x = resKeys y" "resValues x = resValues y"
  shows "DropsMetric re e x = DropsMetric re e y"
  by (rule DropsMetric_cong) (simp add: matchMetric_def metricField_def attrField_def assms)

lemma basePoint_view:
  "DropsMetric re e (forwardView lib rm m i (pdAttrs dp)) = DropsMetric re e (basePoint lib (resourceEnv lib rm) m i dp v n t lo hi)"
  by (rule matchMetric_fields) (simp_all add: forwardView_def basePoint_def resourceEnv_def attrsToArrays_def Let_def split: option.splits)

lemma point_views:
  "DropsMetric re e (gaugePoint lib env m dp) = DropsMetric re e (basePoint lib env m ''gauge'' dp (numberVal lib (pnNum dp)) 0 0 0 0)"
  "DropsMetric re e (sumPoint lib env m t isMono dp) = DropsMetric re e (basePoint lib env m ''sum'' dp (numberVal lib (pnNum dp)) 0 0 0 0)"
  "DropsMetric re e (histPoint lib env m t hp) = DropsMetric re e (basePoint lib env m ''histogram'' hp 0 0 0 0 0)"
  "List.map_filter (\<lambda>q. q) (pyQuantiles sp) = [] \<Longrightarrow>
     DropsMetric re e (summaryPoint lib env m sp) = DropsMetric re e (basePoint lib env m ''summary'' sp 0 0 0 0 0)"
  by (rule matchMetric_fields; simp add: gaugePoint_def sumPoint_def histPoint_def summaryPoint_def basePoint_def attrsToArrays_def Let_def)+

lemma convertMetric_views:
  assumes "plainKind m"
  shows "map (DropsMetric re e) (metricViews (forwardView lib rm m) m) = map (DropsMetric re e) (fst (convertMetric lib (resourceEnv lib rm) m))"
  using assms
  by (auto simp: plainKind_def metricViews_def convertMetric_def withExemplars_def point_views basePoint_view [symmetric] list_all_iff
      basePoint_view [where rm = rm and i = "''gauge''"] split: metricData.splits)

lemma ConvertMetrics_rows:
  "ConvertMetrics lib req h = (pts, exs, h') \<Longrightarrow>
     map fst pts = concat (map (\<lambda>rm. concat (map (\<lambda>m. fst (convertMetric lib (resourceEnv lib rm) m)) (resourceMetrics rm))) req)"
proof (induction req arbitrary: h pts exs)
  case (Cons rm req)
  obtain p x where 1: "ConvertMetrics lib req (h @ [peResV (resourceEnv lib rm)]) = (p, x, h')"
    using Cons.prems by (cases "ConvertMetrics lib req (h @ [peResV (resourceEnv lib rm)])") (auto simp: Let_def)
  from Cons.IH [OF 1] Cons.prems 1 show ?case by (auto simp: Let_def comp_def)
qed simp

text \<open>
  The forward filter judges a point by the row that ClickHouse would get: for gauges, sums, histograms and
  summaries without quantiles, the drop rules give the view that the filter builds and the converted row the
  same verdict, point by point.
\<close>

theorem forwardView_agrees:
  assumes "\<And>rm m. rm \<in> set req \<Longrightarrow> m \<in> set (resourceMetrics rm) \<Longrightarrow> plainKind m" and "ConvertMetrics lib req h = (pts, exs, h')"
  shows "map (DropsMetric re e) (requestViews lib req) = map (DropsMetric re e \<circ> fst) pts"
proof -
  have inner: "concat (map (\<lambda>m. map (DropsMetric re e) (metricViews (forwardView lib rm m) m)) ms) =
      concat (map (\<lambda>m. map (DropsMetric re e) (fst (convertMetric lib (resourceEnv lib rm) m))) ms)" if "\<forall>m\<in>set ms. plainKind m" for rm ms
    using that by (induction ms) (simp_all add: convertMetric_views)
  have "map (DropsMetric re e) (requestViews lib req) =
      concat (map (\<lambda>rm. concat (map (\<lambda>m. map (DropsMetric re e) (metricViews (forwardView lib rm m) m)) (resourceMetrics rm))) req)"
    by (simp add: requestViews_def map_concat comp_def)
  also have "\<dots> = concat (map (\<lambda>rm. concat (map (\<lambda>m. map (DropsMetric re e) (fst (convertMetric lib (resourceEnv lib rm) m))) (resourceMetrics rm))) req)"
    using assms(1) by (intro arg_cong [where f = concat] map_cong [OF refl] inner) blast
  also have "\<dots> = map (DropsMetric re e) (map fst pts)"
    unfolding ConvertMetrics_rows [OF assms(2)] by (simp add: map_concat comp_def)
  finally show ?thesis by simp
qed

section \<open>The exemplar cap\<close>

fun allowAll :: "(64 word \<times> int) list \<Rightarrow> exemplarRateLimiter \<Rightarrow> bool list \<times> exemplarRateLimiter" where
  "allowAll [] l = ([], l)"
| "allowAll ((fp, t) # qs) l = (let (ok, l) = allow fp t l; (oks, l) = allowAll qs l in (ok # oks, l))"

text \<open>How many exemplars of a series were let through in a given minute.\<close>

definition passed :: "64 word \<Rightarrow> (64 word \<times> int) list \<Rightarrow> bool list \<Rightarrow> nat" where
  "passed fp qs oks = length (filter (\<lambda>((fp', t), ok). fp' = fp \<and> ok) (zip qs oks))"

definition minuteOf :: "int \<Rightarrow> int" where
  "minuteOf t = sgn t * (\<bar>t\<bar> div 60)"

lemma allow_counts:
  assumes "allow fp t l = (ok, l')" and "limMinute l = minuteOf t"
  shows "limMinute l' = limMinute l \<and> limMax l' = limMax l \<and>
    limCounts l' = (if ok then (limCounts l)(fp := limCounts l fp + 1) else limCounts l) \<and> (ok \<longrightarrow> limCounts l fp < limMax l)"
  using assms by (auto simp: allow_def minuteOf_def Let_def split: if_splits)

lemma passed_Cons [simp]: "passed fp ((f, t) # qs) (ok # oks) = (if f = fp \<and> ok then 1 else 0) + passed fp qs oks"
  by (simp add: passed_def)

lemma allowAll_counts:
  assumes "allowAll qs l = (oks, l')" and "\<forall>q\<in>set qs. minuteOf (snd q) = limMinute l"
  shows "length oks = length qs \<and> limMax l' = limMax l \<and> limMinute l' = limMinute l \<and>
    limCounts l' fp = limCounts l fp + passed fp qs oks \<and> (limCounts l fp \<le> limMax l \<longrightarrow> limCounts l' fp \<le> limMax l)"
  using assms
proof (induction qs arbitrary: l oks)
  case (Cons q qs)
  obtain f t where q: "q = (f, t)" by (cases q)
  obtain ok l1 where a: "allow f t l = (ok, l1)" by (cases "allow f t l")
  obtain oks1 where r: "allowAll qs l1 = (oks1, l')" "oks = ok # oks1"
    using Cons.prems(1) by (cases "allowAll qs l1") (auto simp: q a)
  note c = allow_counts [OF a]
  have m: "limMinute l = minuteOf t" using Cons.prems(2) by (simp add: q)
  have "\<forall>q\<in>set qs. minuteOf (snd q) = limMinute l1" using Cons.prems(2) c [OF m] by simp
  from Cons.IH [OF r(1) this] c [OF m] r(2) show ?case by (cases ok; cases "f = fp") (auto simp: q)
qed (simp add: passed_def)

text \<open>
  The exemplar cap holds: of any calls that fall into one minute, at most the cap is let through for each
  series, and a series below the cap is never refused.
\<close>

theorem exemplar_cap:
  assumes "allowAll ((fp0, t0) # qs) l = (oks, l')" and "\<forall>q\<in>set qs. minuteOf (snd q) = minuteOf t0" and "limMinute l \<noteq> minuteOf t0"
  shows "passed fp ((fp0, t0) # qs) oks \<le> limMax l \<and> (passed fp ((fp0, t0) # qs) oks < limMax l \<longrightarrow> fst (allow fp t0 l'))"
proof -
  let ?l = "l\<lparr>limMinute := minuteOf t0, limCounts := (\<lambda>_. 0)\<rparr>"
  have "allow fp0 t0 l = allow fp0 t0 ?l" using assms(3) by (simp add: allow_def minuteOf_def Let_def)
  then have "allowAll ((fp0, t0) # qs) ?l = (oks, l')" using assms(1) by simp
  from allowAll_counts [OF this, of fp] assms(2) show ?thesis by (auto simp: allow_def minuteOf_def Let_def)
qed

section \<open>Bodies\<close>

text \<open>The account of a trace request: what the answer says of the spans, and where each of them is.\<close>

definition honestTraces :: "pbSpan pbResource list \<Rightarrow> Ingester \<Rightarrow> response \<Rightarrow> Ingester \<Rightarrow> bool" where
  "honestTraces req ing resp ing' \<longleftrightarrow>
     (case resp of
        Accepted \<Rightarrow> refused (Spans ing') = refused (Spans ing)
      | PartialSuccess k \<Rightarrow> 0 < k \<and> k < int (length (traceSpans req)) \<and> int (refused (Spans ing')) = int (refused (Spans ing)) + k
      | Throttled k \<Rightarrow> k = int (length (traceSpans req)) \<and> accepted (Spans ing') = accepted (Spans ing) \<and> spansDropped ing' = spansDropped ing) \<and>
     int (length (traceSpans req)) = (accepted (Spans ing') - accepted (Spans ing)) + (int (spansDropped ing') - int (spansDropped ing)) +
       int (refused (Spans ing')) - int (refused (Spans ing))"

lemma readProto_cases:
  "readProto cd r rj =
     (case decompressBody cd (hrEncoding r) (hrBody r) of
        None \<Rightarrow> (Inl ErrRead, rj)
      | Some (plain, clean) \<Rightarrow>
          if maxBodyBytes < length plain then (Inl ErrTooLarge, rj\<lparr>httpOversize := httpOversize rj + 1\<rparr>)
          else if \<not> clean then (Inl ErrRead, rj)
          else case unmarshal cd (hrJSON r) plain of
            None \<Rightarrow> (Inl ErrDecode, rj\<lparr>httpDecode := httpDecode rj + 1\<rparr>)
          | Some m \<Rightarrow> (Inr m, rj))"
  by (auto simp: readProto_def readLimited_def split: option.splits)

text \<open>
  C38. The answer of the HTTP receiver of traces, for every request. A body whose encoding is unknown or cannot be opened, or whose stream breaks
  within 32 MiB, gets 400 and is not counted; a body that is longer than 32 MiB when it is decompressed gets 413 and is counted as oversized; a whole
  body that does not decode gets 400 and is counted as a decoding failure; and none of these leaves a trace in the ingester. Any other request
  was decoded from all bytes of its body, and its answer accounts for every span of it: taken, discarded by a rule or reported as rejected.
\<close>

theorem handleTraces_whole:
  assumes "handleTraces lib re dice o0 cd now r (ing, rj) = (reply, ing', rj')"
  shows "case decompressBody cd (hrEncoding r) (hrBody r) of
      None \<Rightarrow> reply = Failed 400 \<and> ing' = ing \<and> rj' = rj
    | Some (plain, clean) \<Rightarrow>
        if maxBodyBytes < length plain then reply = Failed 413 \<and> ing' = ing \<and> rj' = rj\<lparr>httpOversize := httpOversize rj + 1\<rparr>
        else if \<not> clean then reply = Failed 400 \<and> ing' = ing \<and> rj' = rj
        else case unmarshal cd (hrJSON r) plain of
          None \<Rightarrow> reply = Failed 400 \<and> ing' = ing \<and> rj' = rj\<lparr>httpDecode := httpDecode rj + 1\<rparr>
        | Some req \<Rightarrow> rj' = countTraces now req rj \<and> (\<exists>resp. reply = Answered resp \<and> honestTraces req ing resp ing')"
proof (cases "readProto cd r rj")
  case (Pair res rj1)
  show ?thesis
  proof (cases res)
    case (Inl e)
    then show ?thesis using assms Pair
      by (auto simp: handleTraces_def readErrorStatus_def readProto_cases split: option.splits if_splits)
  next
    case (Inr req)
    have "honestTraces req ing resp ing'" if "ingestTraces lib re dice o0 req ing = (drops, n, ing')" "resp = httpAnswer drops n" for drops n resp
      using ingestTraces_honest [OF that(1)] that(2) by (simp add: honestTraces_def answers_agree)
    then show ?thesis using assms Pair Inr
      by (auto simp: handleTraces_def readProto_cases split: option.splits if_splits prod.splits)
  qed
qed

text \<open>
  The metrics handler reads with the limit itself, not one more: a body beyond it is cut, and if what is left
  decodes it is stored as if it were the whole request, with no refusal and no counter.
\<close>

theorem readMetricsBody_truncates:
  assumes "length p = maxBodyBytes" and "fromProto cd p = Some m"
  shows "readMetricsBody cd marshal \<lparr>hrEncoding = [], hrJSON = False, hrBody = p @ q\<rparr> = Inr (m, \<lparr>mbBody = p, mbGzipped = False\<rparr>)"
proof -
  have "ToLower (TrimSpace []) = []" by code_simp
  then show ?thesis using assms by (simp add: readMetricsBody_def decompressBody_def readLimited_def)
qed

section \<open>Sample requests\<close>

definition roomFor :: "nat \<Rightarrow> 'a ConsumerOptions" where
  "roomFor n = \<lparr>BatchSize = 100, BufferSize = n, Workers = 1, ByteBudget = 0, sizeOf = None\<rparr>"

definition ingestSettings :: "nat \<Rightarrow> ingestOptions" where
  "ingestSettings n = \<lparr>oSpans = (\<lambda>_. roomFor n), oLogs = (\<lambda>_. roomFor n), oMetrics = (\<lambda>_. roomFor n),
     oExemplars = roomFor 8, oSpanLinks = roomFor 8, oForward = roomFor 8\<rparr>"

definition sampleIngester :: "Rule list \<Rightarrow> bool \<Rightarrow> Ingester" where
  "sampleIngester rs fwd = \<lparr>Spans = Start (roomFor 8), Logs = Start (roomFor 8), Metrics = Start (roomFor 8), Exemplars = Some (Start (roomFor 8)),
     SpanLinks = Some (Start (roomFor 8)), MetricForward = Some (Start (roomFor 8)), metricFwdEnabled = fwd, metricFwdDropped = 0,
     metricFwdEnqueued = 0, metricFwdFiltered = 0, pipeline = Some \<lparr>rules = rs\<rparr>, spansDropped = 0, logsDropped = 0, metricsDropped = 0,
     exemplarsNoTraceOK = False, exemplarsIngested = 0, exemplarsDroppedNoTrace = 0, exemplarLimiter = None, exemplarsDroppedCapped = 0,
     spanLinksIngested = 0, spanLinksDroppedInvalid = 0, autocomplete = None, resArrays = []\<rparr>"

definition sampleRule :: "RuleKind \<Rightarrow> Signal \<Rightarrow> string \<Rightarrow> string \<Rightarrow> (string \<times> string) list \<Rightarrow> Rule" where
  "sampleRule k sg key val sets = \<lparr>RID = ''r'', RName = ''r'', RKind = k, RSignal = sg, REnabled = True,
     RWhen = \<lparr>CKey = key, COp = OpEq, CValue = val\<rparr>, RAnd = [], RSet = sets, RRate = 1\<rparr>"

definition sampleLog :: "string \<Rightarrow> pbLog" where
  "sampleLog body = \<lparr>poTime = 1, poObserved = 0, poBody = Some (AVString body), poAttrs = [], poTraceId = [], poSpanId = [], poSeverity = 9, poSeverityText = []\<rparr>"

definition oneSpan :: pbSpan where
  "oneSpan = \<lparr>psTraceId = ''t'', psSpanId = ''s'', psParentId = [], psName = ''op'', psKind = 2, psStart = 1, psEnd = 2, psAttrs = [], psEvents = [],
     psLinks = [\<lparr>plTraceId = ''l'', plSpanId = ''m'', plAttrs = []\<rparr>], psStatus = None\<rparr>"

definition sampleTraces :: "pbSpan pbResource list" where
  "sampleTraces = [\<lparr>prResource = Some [(''service.name'', Some (AVString ''cart''))], prScopes = [\<lparr>pcScope = None, pcItems = [oneSpan]\<rparr>]\<rparr>]"

definition sampleExp :: "pbMetric pbResource list" where
  "sampleExp = [\<lparr>prResource = None, prScopes = [\<lparr>pcScope = None, pcItems = [\<lparr>pmName = ''lat'', pmDescription = [], pmUnit = [],
     pmData = ExponentialHistogram [\<lparr>pdAttrs = [], pdStart = 0, pdTime = 1, pqCount = 0, pqSum = None, pqMin = None, pqMax = None, pqScale = 0,
       pqZero = 0, pqPositive = None, pqNegative = None, pqExemplars = []\<rparr>] 2\<rparr>]\<rparr>]\<rparr>]"

definition sampleGauge :: "KeyValue list \<Rightarrow> pbMetric pbResource list" where
  "sampleGauge res = [\<lparr>prResource = Some res, prScopes = [\<lparr>pcScope = None, pcItems = [\<lparr>pmName = ''up'', pmDescription = [], pmUnit = [],
     pmData = Gauge [\<lparr>pdAttrs = [], pdStart = 0, pdTime = 1, pnNum = NInt 1, pnExemplars = []\<rparr>]\<rparr>]\<rparr>]\<rparr>]"

abbreviation noRegex :: regex where "noRegex \<equiv> \<lambda>_. None"
abbreviation noDice :: dices where "noDice \<equiv> \<lambda>_ _. 0"

theorem exportTraces_honest_witness:
  "\<exists>ing'. exportTraces plainLib noRegex noDice (ingestSettings 1) sampleTraces (sampleIngester [] False) = (Accepted, ing') \<and>
     refused (Spans ing') = 0 \<and> accepted (Spans ing') = 1"
proof -
  let ?r = "exportTraces plainLib noRegex noDice (ingestSettings 1) sampleTraces (sampleIngester [] False)"
  have e: "fst ?r = Accepted" "spansDropped (snd ?r) = 0" "length (traceSpans sampleTraces) = 1"
    "refused (Spans (sampleIngester [] False)) = 0" "accepted (Spans (sampleIngester [] False)) = 0" "spansDropped (sampleIngester [] False) = 0"
    by code_simp+
  have r: "?r = (Accepted, snd ?r)" using e(1) by (metis prod.collapse)
  from exportTraces_honest [OF r] e r show ?thesis by (intro exI [of _ "snd ?r"]) simp
qed

theorem exportMetrics_honest_witness:
  "\<exists>ing'. exportMetrics plainLib noRegex (\<lambda>_. ''x'') 0 noDice (ingestSettings 0) (sampleGauge []) (sampleIngester [] False) = (Throttled 1, ing') \<and>
     accepted (Metrics ing') = 0"
proof -
  let ?s = "sampleIngester [] False"
  let ?r = "exportMetrics plainLib noRegex (\<lambda>_. ''x'') 0 noDice (ingestSettings 0) (sampleGauge []) ?s"
  have f: "forwardWithDrops plainLib noRegex (\<lambda>_. ''x'') (ingestSettings 0) (sampleGauge []) \<lparr>mbBody = [], mbGzipped = False\<rparr> ?s = (sampleGauge [], ?s)"
    by (simp add: forwardWithDrops_def sampleIngester_def)
  have e: "fst ?r = Throttled 1" "accepted (Metrics ?s) = 0" by code_simp+
  have r: "?r = (Throttled 1, snd ?r)" using e(1) by (metis prod.collapse)
  from exportMetrics_honest [OF r f] e r show ?thesis by (intro exI [of _ "snd ?r"]) simp
qed

definition canaryRules :: Engine where
  "canaryRules = \<lparr>rules = [sampleRule KindEnrich SignalSpans ''name'' ''op'' [(''env'', ''canary'')]]\<rparr>"

definition canarySpan :: "SpanRec held" where
  "canarySpan = (convertSpan plainLib oneSpan [] [] [] [] [''env''] [''prod''], Some 0)"

theorem AcceptSpan_shared_witness:
  "\<exists>xr' h'. acceptHeld (matchSpan noRegex) SignalSpans (\<lambda>_. 0) (rules canaryRules) (canarySpan, [[''prod'']]) = (True, xr', h') \<and>
     AcceptSpan noRegex (\<lambda>_. 0) canaryRules (derefRow [[''prod'']] canarySpan) = (True, derefRow h' xr') \<and> h' = [[''canary'']]"
proof -
  let ?r = "acceptHeld (matchSpan noRegex) SignalSpans (\<lambda>_. 0) (rules canaryRules) (canarySpan, [[''prod'']])"
  have e: "fst ?r" "snd (snd ?r) = [[''canary'']]" by code_simp+
  obtain ok xr' h' where r: "?r = (ok, xr', h')" by (rule prod_cases3)
  have "ok" "h' = [[''canary'']]" using e unfolding r by simp_all
  moreover have "heldOK [[''prod'']] canarySpan" by (simp add: heldOK_def canarySpan_def)
  from AcceptSpan_shared [OF this r] have "AcceptSpan noRegex (\<lambda>_. 0) canaryRules (derefRow [[''prod'']] canarySpan) = (ok, derefRow h' xr')" by blast
  ultimately show ?thesis using r by (intro exI [of _ xr'] exI [of _ h']) simp
qed

theorem dropForwardPoints_exact_witness:
  "let (req', n) = dropForwardPoints plainLib (\<lambda>v. mtMetric v = ''up'') (sampleGauge [] @ sampleExp)
   in n = 1 \<and> map mtMetric (requestViews plainLib req') = [''lat'']"
proof -
  let ?r = "dropForwardPoints plainLib (\<lambda>v. mtMetric v = ''up'') (sampleGauge [] @ sampleExp)"
  have v: "map mtMetric (requestViews plainLib (sampleGauge [] @ sampleExp)) = [''up'', ''lat'']" by code_simp
  then obtain a b where ab: "requestViews plainLib (sampleGauge [] @ sampleExp) = [a, b]" "mtMetric a = ''up''" "mtMetric b = ''lat''" by auto
  from dropForwardPoints_exact [of plainLib "\<lambda>v. mtMetric v = ''up''" _ "fst ?r" "snd ?r"] ab show ?thesis by (simp add: split_def)
qed

theorem forwardView_agrees_witness:
  "map (DropsMetric noRegex \<lparr>rules = [sampleRule KindDrop SignalMetrics ''name'' ''up'' []]\<rparr>) (requestViews plainLib (sampleGauge [])) =
   map (DropsMetric noRegex \<lparr>rules = [sampleRule KindDrop SignalMetrics ''name'' ''up'' []]\<rparr> \<circ> fst) (fst (ConvertMetrics plainLib (sampleGauge []) []))"
proof (rule forwardView_agrees)
  show "ConvertMetrics plainLib (sampleGauge []) [] = (fst (ConvertMetrics plainLib (sampleGauge []) []), fst (snd (ConvertMetrics plainLib (sampleGauge []) [])),
      snd (snd (ConvertMetrics plainLib (sampleGauge []) [])))" by simp
qed (auto simp: sampleGauge_def resourceMetrics_def plainKind_def)

theorem exemplar_cap_witness: "fst (allowAll [(7, 60), (7, 61), (7, 62)] (newExemplarRateLimiter 2)) = [True, True, False]"
proof -
  let ?r = "allowAll [(7, 60), (7, 61), (7, 62)] (newExemplarRateLimiter 2)"
  have "passed 7 [(7, 60), (7, 61), (7, 62)] (fst ?r) \<le> limMax (newExemplarRateLimiter 2)"
    by (rule exemplar_cap [of 7 60 "[(7, 61), (7, 62)]" _ "fst ?r" "snd ?r" 7, THEN conjunct1])
      (simp_all add: minuteOf_def newExemplarRateLimiter_def)
  then show ?thesis by (simp add: newExemplarRateLimiter_def allow_def passed_def)
qed

definition noRejects :: ingestRejects where "noRejects = \<lparr>httpDecode = 0, httpOversize = 0, spanEmptyID = 0, spanInvalidTs = 0\<rparr>"

definition bodyCodec :: "pbSpan pbResource list codec" where
  "bodyCodec = \<lparr>gunzip = (\<lambda>s. Some (s, s \<noteq> ''cut'')), unzstd = (\<lambda>_. None), inflate = (\<lambda>_. None), fromJSON = (\<lambda>_. None),
     fromProto = (\<lambda>s. if s = ''abc'' then Some sampleTraces else None)\<rparr>"

theorem handleTraces_whole_witness:
  "\<exists>resp ing'. handleTraces plainLib noRegex noDice (ingestSettings 1) bodyCodec 0 \<lparr>hrEncoding = '' GZIP'', hrJSON = False, hrBody = ''abc''\<rparr>
     (sampleIngester [] False, noRejects) = (Answered resp, ing', countTraces 0 sampleTraces noRejects) \<and>
     honestTraces sampleTraces (sampleIngester [] False) resp ing'"
proof -
  let ?q = "\<lparr>hrEncoding = '' GZIP'', hrJSON = False, hrBody = ''abc''\<rparr>"
  let ?r = "handleTraces plainLib noRegex noDice (ingestSettings 1) bodyCodec 0 ?q (sampleIngester [] False, noRejects)"
  have "ToLower (TrimSpace '' GZIP'') = ''gzip''" by code_simp
  then have d: "decompressBody bodyCodec (hrEncoding ?q) (hrBody ?q) = Some (''abc'', True)" by (simp add: decompressBody_def bodyCodec_def)
  have u: "\<not> maxBodyBytes < length ''abc''" "unmarshal bodyCodec (hrJSON ?q) ''abc'' = Some sampleTraces"
    by (simp_all add: maxBodyBytes_def unmarshal_def bodyCodec_def)
  obtain reply ing' rj' where r: "?r = (reply, ing', rj')" by (metis prod_cases3)
  from handleTraces_whole [OF r, unfolded d] u have "rj' = countTraces 0 sampleTraces noRejects"
    "\<exists>resp. reply = Answered resp \<and> honestTraces sampleTraces (sampleIngester [] False) resp ing'"
    by (simp_all only: option.case prod.case if_False not_True_eq_False)
  then show ?thesis using r by blast
qed

section \<open>Effects of sharing and of the order of the stages\<close>

text \<open>
  An enrich rule that matches one record of a resource also changes the others, even one that was queued
  before: the rule below is for the record \<open>a\<close>, and the record \<open>b\<close> of the same resource is stored with its value.
\<close>

theorem enrichment_leaks:
  "let rs = [sampleRule KindEnrich SignalLogs ''body'' ''a'' [(''env'', ''canary'')]];
       req = [\<lparr>prResource = Some [(''env'', Some (AVString ''prod''))], prScopes = [\<lparr>pcScope = None, pcItems = [sampleLog ''b'', sampleLog ''a'']\<rparr>]\<rparr>];
       ing = snd (exportLogs plainLib noRegex noDice (ingestSettings 8) req (sampleIngester rs False))
   in map (\<lambda>xr. (lgBody (fst xr), resValues (derefRow (resArrays ing) xr))) (ch (Logs ing)) = [(''b'', [''canary'']), (''a'', [''canary''])]"
  by code_simp

text \<open>A throttled trace request has already queued its links, which the retry queues again.\<close>

theorem throttled_keeps_links:
  "let (resp, ing) = exportTraces plainLib noRegex noDice (ingestSettings 0) sampleTraces (sampleIngester [] False)
   in resp = Throttled 1 \<and> map_option accepted (SpanLinks ing) = Some 1"
  by code_simp

text \<open>
  The filter of the forward names an exponential histogram differently from the row, and it removes points
  from the request that is converted afterwards. So a drop rule on the stored name spares the forward, and a
  drop rule on the filter's name costs ClickHouse a point that it accepts while forwarding is off; a point
  whose tested key an enrich rule rewrites is lost in the same way. The policy counter stays at zero.
\<close>

theorem forward_misses_exp_histogram:
  "let ing = snd (exportMetrics plainLib noRegex (\<lambda>_. ''x'') 0 noDice (ingestSettings 8) sampleExp
      (sampleIngester [sampleRule KindDrop SignalMetrics ''instrument'' ''exp_histogram'' []] True))
   in metricsDropped ing = 1 \<and> accepted (Metrics ing) = 0 \<and> metricFwdEnqueued ing = 1 \<and> metricFwdFiltered ing = 0"
  by code_simp

theorem forward_costs_points:
  "let run = (\<lambda>rs req fwd. let ing = snd (exportMetrics plainLib noRegex (\<lambda>_. ''x'') 0 noDice (ingestSettings 8) req (sampleIngester rs fwd))
                in (accepted (Metrics ing), metricsDropped ing));
       exp = [sampleRule KindDrop SignalMetrics ''instrument'' ''exponential_histogram'' []];
       env = [sampleRule KindEnrich SignalMetrics ''metric'' ''up'' [(''env'', ''prod'')], sampleRule KindDrop SignalMetrics ''resource.env'' ''dev'' []]
   in run exp sampleExp False = (1, 0) \<and> run exp sampleExp True = (0, 0) \<and>
      run env (sampleGauge [(''env'', Some (AVString ''dev''))]) False = (1, 0) \<and> run env (sampleGauge [(''env'', Some (AVString ''dev''))]) True = (0, 0)"
  by code_simp

end
