(* ===== verification/Channels.thy ===== *)
theory Channels
  imports GoInt
begin

text \<open>
  Notification channels and team contacts (\<open>internal/chstore/settings.go\<close>): which channels are offered a
  problem, the predicates that a channel puts on it, the quiet hours, and the addresses of a team. A channel is
  given by the fields that routing reads; its delivery configuration is opaque. \<open>strings.ToLower\<close> and
  \<open>strings.EqualFold\<close> on user text are the fields of \<open>gotext\<close>; the wall clock of a time zone is an argument.
\<close>

record gotext =
  goLower :: "string \<Rightarrow> string"
  goFold :: "string \<Rightarrow> string \<Rightarrow> bool"

section \<open>Channels\<close>

record ChannelMatchRules =
  cmServices :: "string list"
  cmSRETeams :: "string list"
  cmOwnerTeams :: "string list"
  cmClusters :: "string list"
  cmQuietHours :: string
  cmQuietHoursTz :: string
  cmMinPriority :: string
  cmKinds :: "string list"

record NotificationChannel =
  chID :: string
  chName :: string
  chType :: string
  chEnabled :: bool
  chMinSeverity :: string
  chMatchRules :: ChannelMatchRules

record ServiceMetadata =
  mdOwnerTeam :: string
  mdSRETeam :: string

record MatchInput =
  miService :: string
  miMetadata :: "ServiceMetadata option"
  miClusters :: "string list"
  miPriority :: string
  miKind :: string

definition storeSeverityRank :: "string \<Rightarrow> nat" where
  "storeSeverityRank s = (if s = ''critical'' then 3 else if s = ''warning'' then 2 else if s = ''info'' then 1 else 2)"

definition EnabledChannelsForSeverity :: "NotificationChannel list \<Rightarrow> string \<Rightarrow> NotificationChannel list" where
  "EnabledChannelsForSeverity chs severity =
     filter (\<lambda>c. chEnabled c \<and> storeSeverityRank (chMinSeverity c) \<le> storeSeverityRank severity) chs"

section \<open>Predicates of a channel\<close>

text \<open>No letter outside ASCII has the upper case \<open>P\<close>, so the comparison is that of the source on every text.\<close>

definition priorityRank :: "string \<Rightarrow> nat" where
  "priorityRank p =
     (let u = ToUpper (TrimSpace p) in if u = ''P1'' then 3 else if u = ''P2'' then 2 else if u = ''P3'' then 1 else 0)"

definition allowsPriority :: "ChannelMatchRules \<Rightarrow> string \<Rightarrow> bool" where
  "allowsPriority m p =
     (let want = priorityRank (cmMinPriority m); got = priorityRank p in want = 0 \<or> got = 0 \<or> want \<le> got)"

definition allowsKind :: "ChannelMatchRules \<Rightarrow> string \<Rightarrow> bool" where
  "allowsKind m kind = (if cmKinds m = [] then kind \<noteq> ''exception'' else kind \<in> set (cmKinds m))"

definition Matches :: "ChannelMatchRules \<Rightarrow> string \<Rightarrow> ServiceMetadata option \<Rightarrow> bool" where
  "Matches m service md \<longleftrightarrow>
     (cmServices m = [] \<or> service \<in> set (cmServices m)) \<and>
     (cmSRETeams m = [] \<or> (case md of None \<Rightarrow> False | Some d \<Rightarrow> mdSRETeam d \<in> set (cmSRETeams m))) \<and>
     (cmOwnerTeams m = [] \<or> (case md of None \<Rightarrow> False | Some d \<Rightarrow> mdOwnerTeam d \<in> set (cmOwnerTeams m)))"

definition parseHHMM :: "string \<Rightarrow> (int \<times> int) option" where
  "parseHHMM s0 =
     (let s = TrimSpace s0 in
      case IndexByte s CHR '':'' of
        None \<Rightarrow> None
      | Some i \<Rightarrow>
          (case Atoi (take i s) of
             None \<Rightarrow> None
           | Some h \<Rightarrow>
               if h < 0 \<or> h > 23 then None
               else
                 (case Atoi (drop (i + 1) s) of
                    None \<Rightarrow> None
                  | Some m \<Rightarrow> if m < 0 \<or> m > 59 then None else Some (h, m))))"

text \<open>\<open>wall tz\<close> is the hour and the minute of the present in that zone, an unknown or empty name meaning UTC.\<close>

definition isInQuietWindow :: "(string \<Rightarrow> int \<times> int) \<Rightarrow> string \<Rightarrow> string \<Rightarrow> bool" where
  "isInQuietWindow wall window tz =
     (let (h, m) = wall tz; nowMin = h * 60 + m in
      case IndexByte window CHR ''-'' of
        None \<Rightarrow> False
      | Some i \<Rightarrow>
          (case (parseHHMM (take i window), parseHHMM (drop (i + 1) window)) of
             (Some (startH, startM), Some (endH, endM)) \<Rightarrow>
               (let startMin = startH * 60 + startM; endMin = endH * 60 + endM in
                if startMin \<le> endMin then startMin \<le> nowMin \<and> nowMin < endMin
                else startMin \<le> nowMin \<or> nowMin < endMin)
           | _ \<Rightarrow> False))"

definition MatchesProblem :: "(string \<Rightarrow> int \<times> int) \<Rightarrow> ChannelMatchRules \<Rightarrow> MatchInput \<Rightarrow> bool" where
  "MatchesProblem wall m inp \<longleftrightarrow>
     Matches m (miService inp) (miMetadata inp) \<and>
     (cmClusters m = [] \<or> (\<exists>c \<in> set (cmClusters m). c \<in> set (miClusters inp))) \<and>
     (cmQuietHours m = [] \<or> \<not> isInQuietWindow wall (cmQuietHours m) (cmQuietHoursTz m)) \<and>
     allowsPriority m (miPriority inp) \<and> allowsKind m (miKind inp)"

section \<open>Team contacts\<close>

record TeamContacts =
  tcEnabled :: bool
  tcMinSeverity :: string
  tcContacts :: "(string \<times> string) list"
  tcKinds :: "string list"

definition KindAllows :: "TeamContacts \<Rightarrow> string \<Rightarrow> bool" where
  "KindAllows tc kind \<longleftrightarrow> tcKinds tc = [] \<or> kind \<in> set (tcKinds tc)"

definition SeverityAllows :: "TeamContacts \<Rightarrow> string \<Rightarrow> bool" where
  "SeverityAllows tc sev \<longleftrightarrow>
     storeSeverityRank (if tcMinSeverity tc = [] then ''warning'' else tcMinSeverity tc) \<le> storeSeverityRank sev"

definition EmailsForTeam :: "gotext \<Rightarrow> TeamContacts \<Rightarrow> string \<Rightarrow> string list" where
  "EmailsForTeam std tc team0 =
     (let team = TrimSpace team0 in
      if team = [] then []
      else
        (let raw = (case find (\<lambda>(k, _). goFold std (TrimSpace k) team) (tcContacts tc) of Some (_, v) \<Rightarrow> v | None \<Rightarrow> []) in
         filter (\<lambda>p. p \<noteq> []) (map TrimSpace (SplitByte raw CHR '','' []))))"

section \<open>Quiet hours\<close>

text \<open>The specification: the minutes from the start to the end, going round the clock.\<close>

definition minutesAfter :: "int \<Rightarrow> int \<Rightarrow> int" where
  "minutesAfter a b = (b - a) mod 1440"

lemma parseHHMM_range:
  assumes "parseHHMM s = Some (h, m)"
  shows "0 \<le> h * 60 + m \<and> h * 60 + m < 1440"
proof -
  have "0 \<le> h" "h \<le> 23" "0 \<le> m" "m \<le> 59"
    using assms by (auto simp: parseHHMM_def Let_def split: option.splits if_splits)
  then show ?thesis by simp
qed

lemma minutesAfter_window:
  assumes "0 \<le> a" "a < 1440" "0 \<le> b" "b < 1440" "0 \<le> t" "t < 1440"
  shows "minutesAfter a t < minutesAfter a b \<longleftrightarrow> (if a \<le> b then a \<le> t \<and> t < b else a \<le> t \<or> t < b)"
proof -
  have step: "minutesAfter a x = (if a \<le> x then x - a else x - a + 1440)" if "0 \<le> x" "x < 1440" for x
  proof (cases "a \<le> x")
    case False
    then have "(x - a) mod 1440 = (x - a + 1440) mod 1440" by simp
    also have "\<dots> = x - a + 1440" using that assms False by (intro mod_pos_pos_trivial) auto
    finally show ?thesis using False by (simp add: minutesAfter_def)
  qed (use that assms in \<open>auto simp: minutesAfter_def\<close>)
  show ?thesis using step [OF assms(3,4)] step [OF assms(5,6)] assms by auto
qed

text \<open>
  Quiet hours are the minutes from the start to the end going round the clock, also across midnight: for a
  well-formed window and a valid wall clock the channel is silent exactly when the present is fewer minutes
  after the start than the end is.
\<close>

theorem isInQuietWindow_cyclic:
  assumes "parseHHMM a = Some (h1, m1)" and "parseHHMM b = Some (h2, m2)" and "CHR ''-'' \<notin> set a"
    and "wall tz = (h, m)" and "0 \<le> h" "h < 24" "0 \<le> m" "m < 60"
  shows "isInQuietWindow wall (a @ ''-'' @ b) tz \<longleftrightarrow>
           minutesAfter (h1 * 60 + m1) (h * 60 + m) < minutesAfter (h1 * 60 + m1) (h2 * 60 + m2)"
proof -
  have "IndexByte (a @ ''-'' @ b) CHR ''-'' = Some (length a)" using assms(3) by (induction a) auto
  moreover have "0 \<le> h * 60 + m" "h * 60 + m < 1440" using assms(5-) by auto
  ultimately show ?thesis
    using assms(1,2,4) parseHHMM_range [OF assms(1)] parseHHMM_range [OF assms(2)]
    by (simp add: isInQuietWindow_def Let_def minutesAfter_window)
qed

theorem isInQuietWindow_cyclic_witness:
  "isInQuietWindow (\<lambda>_. (23, 30)) (''22:00'' @ ''-'' @ ''07:00'') [] \<longleftrightarrow>
     minutesAfter (22 * 60 + 0) (23 * 60 + 30) < minutesAfter (22 * 60 + 0) (7 * 60 + 0)"
  by (rule isInQuietWindow_cyclic) code_simp+

end
