(* ===== verification/Notify.thy ===== *)
theory Notify
  imports Channels "HOL-Library.AList"
begin

text \<open>
  Problem notifications (\<open>internal/notify/problem_dedup.go\<close>, \<open>routing.go\<close> and \<open>SendProblemAlert\<close> of \<open>notify.go\<close>):
  the floor under repeated alerts, the recipients of the team mail, the fan-out over the channels and the record of
  problems that reached nobody. A Go map is an association list with distinct keys. Instants are nanoseconds, the
  zero time is \<open>None\<close>. What the store and the gates before the fan-out answer is an argument; the messages on the
  channels are outputs. Reasons are constructors, one for each text of the source.
\<close>

section \<open>The floor under repeated alerts\<close>

definition notifyDedupWindow :: int where "notifyDedupWindow = 15 * 60 * 10 ^ 9"
definition notifySameStateCooldown :: int where "notifySameStateCooldown = 3600 * 10 ^ 9"
definition notifyDedupMaxKeys :: nat where "notifyDedupMaxKeys = 8192"

definition notifySeverityRank :: "gotext \<Rightarrow> string \<Rightarrow> nat" where
  "notifySeverityRank std sev =
     (let s = goLower std (TrimSpace sev) in
      if s = ''critical'' then 3 else if s = ''warning'' then 2 else if s = ''info'' then 1 else 0)"

record dedupStamp =
  stAt :: "int option"
  stSuppressed :: nat
  stTopRank :: nat

type_synonym dedupMap = "(string \<times> dedupStamp) list"

definition zeroStamp :: dedupStamp where
  "zeroStamp = \<lparr>stAt = None, stSuppressed = 0, stTopRank = 0\<rparr>"

definition stampOf :: "dedupMap \<Rightarrow> string \<Rightarrow> dedupStamp" where
  "stampOf seen k = (case map_of seen k of None \<Rightarrow> zeroStamp | Some s \<Rightarrow> s)"

definition notifyStateKey :: "string \<Rightarrow> string \<Rightarrow> string \<Rightarrow> int \<Rightarrow> string" where
  "notifyStateKey problemID channelID status startedAt =
     problemID @ [CHR 0x00] @ channelID @ [CHR 0x00] @ status @ [CHR 0x00] @ itoa startedAt @ [CHR 0x02]"

definition notifyDedupKey :: "string \<Rightarrow> string \<Rightarrow> string \<Rightarrow> string \<Rightarrow> int \<Rightarrow> string" where
  "notifyDedupKey problemID channelID status severity startedAt =
     notifyStateKey problemID channelID status startedAt @ [CHR 0x00] @ severity @ [CHR 0x01]"

definition within :: "int option \<Rightarrow> int \<Rightarrow> int \<Rightarrow> bool" where
  "within at now w = (case at of None \<Rightarrow> False | Some t \<Rightarrow> now - t < w)"

definition allowNotifySend :: "dedupMap \<Rightarrow> string \<Rightarrow> string \<Rightarrow> nat \<Rightarrow> int \<Rightarrow> int \<Rightarrow> int \<Rightarrow> bool \<times> nat \<times> dedupMap" where
  "allowNotifySend seen exactKey stateKey rank now window cooldown =
     (let exact = stampOf seen exactKey; state = stampOf seen stateKey;
          escalated = stTopRank state < rank;
          exactBlocks = (within (stAt exact) now window \<and> \<not> escalated);
          stateBlocks = within (stAt state) now cooldown in
      if exactBlocks \<or> (stateBlocks \<and> \<not> escalated) then
        (let state' = state\<lparr>stSuppressed := stSuppressed state + 1\<rparr> in
         (False, stSuppressed state', AList.update stateKey state' seen))
      else
        (True, stSuppressed state,
         AList.update stateKey \<lparr>stAt = Some now, stSuppressed = 0, stTopRank = max (stTopRank state) rank\<rparr>
           (AList.update exactKey \<lparr>stAt = Some now, stSuppressed = 0, stTopRank = 0\<rparr> seen)))"

definition forgetProblemNotifications :: "dedupMap \<Rightarrow> string \<Rightarrow> dedupMap" where
  "forgetProblemNotifications seen problemID = filter (\<lambda>(k, _). \<not> HasPrefix k (problemID @ [CHR 0x00])) seen"

text \<open>The distance to the zero time is the largest duration, so a stamp without a time is swept.\<close>

definition sweepNotifyDedup :: "dedupMap \<Rightarrow> int \<Rightarrow> int \<Rightarrow> dedupMap" where
  "sweepNotifyDedup seen now window = filter (\<lambda>(_, s). within (stAt s) now window) seen"

record alert =
  alProblem :: string
  alChannel :: string
  alStatus :: string
  alSeverity :: string
  alStarted :: int

definition stateKeyOf :: "alert \<Rightarrow> string" where
  "stateKeyOf a = notifyStateKey (alProblem a) (alChannel a) (alStatus a) (alStarted a)"

definition exactKeyOf :: "alert \<Rightarrow> string" where
  "exactKeyOf a = notifyDedupKey (alProblem a) (alChannel a) (alStatus a) (alSeverity a) (alStarted a)"

definition sweptMap :: "int \<Rightarrow> dedupMap \<Rightarrow> dedupMap" where
  "sweptMap now seen =
     (if notifyDedupMaxKeys < length seen then sweepNotifyDedup seen now notifySameStateCooldown else seen)"

definition allowChannelSend :: "gotext \<Rightarrow> alert \<Rightarrow> int \<Rightarrow> dedupMap \<Rightarrow> bool \<times> nat \<times> dedupMap" where
  "allowChannelSend std a now seen =
     (if alProblem a = [] then (True, 0, seen)
      else allowNotifySend (sweptMap now seen) (exactKeyOf a) (stateKeyOf a) (notifySeverityRank std (alSeverity a))
             now notifyDedupWindow notifySameStateCooldown)"

definition forgetProblem :: "string \<Rightarrow> dedupMap \<Rightarrow> dedupMap" where
  "forgetProblem problemID seen = (if problemID = [] then seen else forgetProblemNotifications seen problemID)"

section \<open>Team mail\<close>

datatype teamMailOutcome = TeamMailOff | TeamMailNoRecipients | TeamMailAlreadySent | TeamMailSent

record RuleNotify =
  rnTeams :: "string list"
  rnMode :: string

fun addFresh :: "(string \<Rightarrow> string) \<Rightarrow> string list \<Rightarrow> string list \<Rightarrow> string list" where
  "addFresh key [] out = out"
| "addFresh key (e # es) out =
     addFresh key es (if key e \<in> key ` set out then out else out @ [e])"

definition resolveTeamRecipients :: "gotext \<Rightarrow> ServiceMetadata option \<Rightarrow> TeamContacts \<Rightarrow> string list" where
  "resolveTeamRecipients std md tc =
     (case md of
        None \<Rightarrow> []
      | Some d \<Rightarrow> addFresh (goLower std) (EmailsForTeam std tc (mdOwnerTeam d) @ EmailsForTeam std tc (mdSRETeam d)) [])"

definition resolveRuleTeamRecipients :: "gotext \<Rightarrow> RuleNotify \<Rightarrow> ServiceMetadata option \<Rightarrow> TeamContacts \<Rightarrow> string list" where
  "resolveRuleTeamRecipients std rn md tc =
     (let key = (\<lambda>e. goLower std (TrimSpace e));
          offered = (if rnMode rn \<noteq> ''only'' then resolveTeamRecipients std md tc else []) @
                    concat (map (EmailsForTeam std tc) (rnTeams rn)) in
      addFresh key (filter (\<lambda>e. key e \<noteq> []) offered) [])"

definition teamMailReach :: "gotext \<Rightarrow> TeamContacts \<Rightarrow> ServiceMetadata option \<Rightarrow> string \<Rightarrow> string list \<times> teamMailOutcome" where
  "teamMailReach std tc md severity =
     (if \<not> tcEnabled tc \<or> \<not> SeverityAllows tc severity then ([], TeamMailOff)
      else
        (let to = resolveTeamRecipients std md tc in
         if to = [] then ([], TeamMailNoRecipients) else (to, TeamMailSent)))"

definition teamMailReachRule ::
  "gotext \<Rightarrow> TeamContacts \<Rightarrow> ServiceMetadata option \<Rightarrow> string \<Rightarrow> RuleNotify option \<Rightarrow> string list \<times> teamMailOutcome" where
  "teamMailReachRule std tc md severity rn =
     (case rn of
        None \<Rightarrow> teamMailReach std tc md severity
      | Some r \<Rightarrow>
          if rnTeams r = [] then teamMailReach std tc md severity
          else if \<not> tcEnabled tc \<or> goFold std (TrimSpace severity) ''info'' then ([], TeamMailOff)
          else
            (let to = resolveRuleTeamRecipients std r md tc in
             if to = [] then ([], TeamMailNoRecipients) else (to, TeamMailSent)))"

record Problem =
  prID :: string
  prRuleID :: string
  prService :: string
  prSeverity :: string
  prStatus :: string
  prPriority :: string
  prKind :: string
  prMetric :: string
  prAISummary :: string
  prStartedAt :: int
  prClusters :: "string list"

definition isExceptionGroup :: "Problem \<Rightarrow> bool" where
  "isExceptionGroup p = HasPrefix (prRuleID p) ''exception-group:''"

definition problemRelatedKind :: "Problem \<Rightarrow> string" where
  "problemRelatedKind p =
     (if prKind p = ''incident'' then ''incident'' else if isExceptionGroup p then ''exception''
      else if prMetric p = ''watcher'' then ''watcher'' else ''problem'')"

definition claimTeamMail :: "string \<Rightarrow> string list \<Rightarrow> bool \<times> string list" where
  "claimTeamMail problemID awaiting =
     (if problemID = [] then (True, awaiting)
      else if problemID \<in> set awaiting then (False, awaiting)
      else (True, problemID # awaiting))"

definition releaseTeamMail :: "string \<Rightarrow> string list \<Rightarrow> string list" where
  "releaseTeamMail problemID awaiting = (if problemID = [] then awaiting else filter (\<lambda>x. x \<noteq> problemID) awaiting)"

definition shouldAwaitAISummary :: "gotext \<Rightarrow> Problem \<Rightarrow> bool" where
  "shouldAwaitAISummary std p \<longleftrightarrow>
     prStatus p = ''open'' \<and> goFold std (prSeverity p) ''critical'' \<and> TrimSpace (prAISummary p) = []"

text \<open>
  What the store answers during one turn: \<open>None\<close> is a failed read. \<open>mailed k\<close> says whether a team mail of kind \<open>k\<close>
  is on record. The wall clocks of the zones and the instants of the successive calls of the gate come with it.
\<close>

record notifyEnv =
  neMaintenance :: bool
  neIgnored :: "bool option"
  neSilenced :: bool
  neHeld :: bool
  neMetadata :: "ServiceMetadata option"
  neTeamMetadata :: "ServiceMetadata option"
  neRuleNotify :: "RuleNotify option"
  neKind :: string
  neContacts :: "TeamContacts option"
  neMailed :: "string \<Rightarrow> bool option"
  neChannels :: "NotificationChannel list option"
  neWall :: "string \<Rightarrow> int \<times> int"
  neNow :: "nat \<Rightarrow> int"

text \<open>
  The mail that a turn sends or hands to the goroutine that waits for a summary; in the second case the claim stays.
\<close>

definition sendTeamMail :: "gotext \<Rightarrow> notifyEnv \<Rightarrow> Problem \<Rightarrow> string list \<Rightarrow> teamMailOutcome \<times> string list option \<times> string list" where
  "sendTeamMail std env p awaiting =
     (case neContacts env of
        None \<Rightarrow> (TeamMailOff, None, awaiting)
      | Some tc \<Rightarrow>
          if \<not> KindAllows tc (neKind env) then (TeamMailOff, None, awaiting)
          else
            (let (to, reach) = teamMailReachRule std tc (neTeamMetadata env) (prSeverity p) (neRuleNotify env) in
             if to = [] then (reach, None, awaiting)
             else
               (let (claimed, aw) = claimTeamMail (prID p) awaiting in
                if \<not> claimed then (TeamMailAlreadySent, None, aw)
                else if neMailed env (problemRelatedKind p) = Some True \<or>
                        (problemRelatedKind p = ''watcher'' \<and> neMailed env ''problem'' = Some True)
                     then (TeamMailAlreadySent, None, releaseTeamMail (prID p) aw)
                else if \<not> shouldAwaitAISummary std p then (TeamMailSent, Some to, releaseTeamMail (prID p) aw)
                else (TeamMailSent, Some to, aw))))"

section \<open>Routing verdict\<close>

datatype routingVerdict = RoutingDelivered | RoutingSuppressed | RoutingUnconfigured | RoutingUnmatched

record routingFacts =
  rfOffered :: nat
  rfSends :: nat
  rfSuppressed :: nat
  rfTeam :: teamMailOutcome

definition decideRouting :: "routingFacts \<Rightarrow> routingVerdict" where
  "decideRouting f =
     (if rfSends f > 0 \<or> rfTeam f = TeamMailSent then RoutingDelivered
      else if rfSuppressed f > 0 \<or> rfTeam f = TeamMailAlreadySent then RoutingSuppressed
      else if rfOffered f = 0 \<and> rfTeam f = TeamMailOff then RoutingUnconfigured
      else RoutingUnmatched)"

datatype channelPart = NoChannelAccepts | NoneMatched nat
datatype teamPart = TeamNotInUse | TeamWithoutAddress | TeamUnclear

definition routingReason :: "routingFacts \<Rightarrow> channelPart \<times> teamPart" where
  "routingReason f =
     (if rfOffered f = 0 then NoChannelAccepts else NoneMatched (rfOffered f),
      case rfTeam f of TeamMailOff \<Rightarrow> TeamNotInUse | TeamMailNoRecipients \<Rightarrow> TeamWithoutAddress | _ \<Rightarrow> TeamUnclear)"

record routingObs =
  roDelivered :: nat
  roSuppressed :: nat
  roUnconfigured :: nat
  roUnmatched :: nat
  roLast :: "(int \<times> string \<times> string \<times> channelPart \<times> teamPart) option"

definition bumpRouting :: "routingVerdict \<Rightarrow> string \<Rightarrow> string \<Rightarrow> channelPart \<times> teamPart \<Rightarrow> int \<Rightarrow> routingObs \<Rightarrow> routingObs" where
  "bumpRouting v problemID service reason now o0 =
     (case v of
        RoutingDelivered \<Rightarrow> o0\<lparr>roDelivered := roDelivered o0 + 1\<rparr>
      | RoutingSuppressed \<Rightarrow> o0\<lparr>roSuppressed := roSuppressed o0 + 1\<rparr>
      | RoutingUnconfigured \<Rightarrow> o0\<lparr>roUnconfigured := roUnconfigured o0 + 1\<rparr>
      | RoutingUnmatched \<Rightarrow> o0\<lparr>roUnmatched := roUnmatched o0 + 1, roLast := Some (now, problemID, service, reason)\<rparr>)"

section \<open>Fan-out\<close>

record Notifier =
  nDedup :: dedupMap
  nAwaiting :: "string list"
  nRouting :: routingObs

datatype message = Published string | TeamMailed "string list" | SentTo string | LoggedUnmatched "channelPart \<times> teamPart"

definition alertOf :: "Problem \<Rightarrow> string \<Rightarrow> alert" where
  "alertOf p channelID =
     \<lparr>alProblem = prID p, alChannel = channelID, alStatus = prStatus p, alSeverity = prSeverity p, alStarted = prStartedAt p\<rparr>"

definition unmatchedChannelID :: string where "unmatchedChannelID = ''__unmatched__''"

definition recordRouting :: "gotext \<Rightarrow> Problem \<Rightarrow> int \<Rightarrow> routingFacts \<Rightarrow> Notifier \<Rightarrow> message list \<times> Notifier" where
  "recordRouting std p now f n =
     (let v = decideRouting f; n = n\<lparr>nRouting := bumpRouting v (prID p) (prService p) (routingReason f) now (nRouting n)\<rparr> in
      if v \<noteq> RoutingUnmatched then ([], n)
      else
        (let (ok, _, seen) = allowChannelSend std (alertOf p unmatchedChannelID) now (nDedup n);
             n = n\<lparr>nDedup := seen\<rparr> in
         if ok then ([LoggedUnmatched (routingReason f)], n) else ([], n)))"

fun channelLoop ::
  "gotext \<Rightarrow> notifyEnv \<Rightarrow> MatchInput \<Rightarrow> Problem \<Rightarrow> nat \<Rightarrow> NotificationChannel list \<Rightarrow> routingFacts \<Rightarrow> dedupMap \<Rightarrow> message list \<times> routingFacts \<times> dedupMap" where
  "channelLoop std env inp p i [] f seen = ([], f, seen)"
| "channelLoop std env inp p i (c # cs) f seen =
     (if \<not> MatchesProblem (neWall env) (chMatchRules c) inp then channelLoop std env inp p (i + 1) cs f seen
      else
        (let (ok, _, seen') = allowChannelSend std (alertOf p (chID c)) (neNow env i) seen in
         if \<not> ok then channelLoop std env inp p (i + 1) cs (f\<lparr>rfSuppressed := rfSuppressed f + 1\<rparr>) seen'
         else
           (let (out, r) = channelLoop std env inp p (i + 1) cs (f\<lparr>rfSends := rfSends f + 1\<rparr>) seen' in
            (SentTo (chID c) # out, r))))"

definition publishedKind :: "Problem \<Rightarrow> message list" where
  "publishedKind p =
     (if prStatus p = ''open'' then [Published ''problem.open'']
      else if prStatus p = ''resolved'' then [Published ''problem.resolve'']
      else if prStatus p = ''acknowledged'' then [Published ''problem.acknowledge''] else [])"

definition silencedTurn :: "notifyEnv \<Rightarrow> Problem \<Rightarrow> bool" where
  "silencedTurn env p \<longleftrightarrow>
     neMaintenance env \<or> prStatus p = ''acknowledged'' \<or> neIgnored env = Some True \<or> neSilenced env \<or> neHeld env"

definition matchInputOf :: "notifyEnv \<Rightarrow> Problem \<Rightarrow> MatchInput" where
  "matchInputOf env p =
     \<lparr>miService = prService p, miMetadata = neMetadata env, miClusters = prClusters p, miPriority = prPriority p, miKind = neKind env\<rparr>"

definition teamTurn :: "gotext \<Rightarrow> notifyEnv \<Rightarrow> Problem \<Rightarrow> Notifier \<Rightarrow> teamMailOutcome \<times> message list \<times> Notifier" where
  "teamTurn std env p n =
     (if prStatus p = ''open'' \<and> \<not> isExceptionGroup p then
        (let (team, to, aw) = sendTeamMail std env p (nAwaiting n) in
         (team, case to of None \<Rightarrow> [] | Some es \<Rightarrow> [TeamMailed es], n\<lparr>nAwaiting := aw\<rparr>))
      else (TeamMailOff, [], n))"

definition SendProblemAlert :: "gotext \<Rightarrow> notifyEnv \<Rightarrow> Problem \<Rightarrow> Notifier \<Rightarrow> message list \<times> Notifier" where
  "SendProblemAlert std env p n =
     (let pub = publishedKind p in
      if silencedTurn env p then (pub, n)
      else
        (let (team, mails, n) = teamTurn std env p n in
         case neChannels env of
           None \<Rightarrow> (pub @ mails, n)
         | Some all \<Rightarrow>
             (let cs = EnabledChannelsForSeverity all (prSeverity p);
                  f = \<lparr>rfOffered = length cs, rfSends = 0, rfSuppressed = 0, rfTeam = team\<rparr> in
              if cs = [] then (let (out, n) = recordRouting std p (neNow env 0) f n in (pub @ mails @ out, n))
              else
                (let seen = (if prStatus p = ''resolved'' then forgetProblem (prID p) (nDedup n) else nDedup n);
                     (sent, f, seen) = channelLoop std env (matchInputOf env p) p 0 cs f seen;
                     (out, n) = recordRouting std p (neNow env (length cs)) f (n\<lparr>nDedup := seen\<rparr>) in
                 (pub @ mails @ sent @ out, n)))))"

section \<open>Keys\<close>

text \<open>The two layers never share a key, whatever the fields hold.\<close>

lemma exact_not_state: "exactKeyOf a \<noteq> stateKeyOf b"
proof
  assume "exactKeyOf a = stateKeyOf b"
  then have "last (exactKeyOf a) = last (stateKeyOf b)" by simp
  then show False by (simp add: exactKeyOf_def stateKeyOf_def notifyDedupKey_def notifyStateKey_def)
qed

lemma sep_cancel:
  assumes "xs @ c # ys = xs' @ c # ys'" and "c \<notin> set xs" and "c \<notin> set xs'"
  shows "xs = xs' \<and> ys = ys'"
  using assms by (induction xs arbitrary: xs') (case_tac xs'; auto)+

text \<open>The fields as the code finds them: identifiers, statuses and severities carry no NUL byte.\<close>

definition cleanAlert :: "alert \<Rightarrow> bool" where
  "cleanAlert a \<longleftrightarrow> CHR 0x00 \<notin> set (alProblem a) \<and> CHR 0x00 \<notin> set (alChannel a) \<and> CHR 0x00 \<notin> set (alStatus a) \<and>
     CHR 0x00 \<notin> set (alSeverity a) \<and> in64 (alStarted a)"

definition sameState :: "alert \<Rightarrow> alert \<Rightarrow> bool" where
  "sameState a b \<longleftrightarrow> alProblem a = alProblem b \<and> alChannel a = alChannel b \<and> alStatus a = alStatus b \<and> alStarted a = alStarted b"

lemma itoa_chars: "c \<in> set (itoa x) \<Longrightarrow> c = CHR ''-'' \<or> isDigit c"
  using natDec_props by (fastforce simp: itoa_def list_all_iff split: if_splits)

lemma itoa_plain: "CHR 0x00 \<notin> set (itoa x)" "CHR 0x02 \<notin> set (itoa x)"
  using itoa_chars [of "CHR 0x00" x] itoa_chars [of "CHR 0x02" x] by (auto simp: isDigit_def)

lemma stateKey_inj:
  assumes "cleanAlert a" "cleanAlert b" "stateKeyOf a = stateKeyOf b"
  shows "sameState a b"
proof -
  from assms(3) have "alProblem a @ CHR 0x00 # alChannel a @ CHR 0x00 # alStatus a @ CHR 0x00 # itoa (alStarted a) @ [CHR 0x02] =
      alProblem b @ CHR 0x00 # alChannel b @ CHR 0x00 # alStatus b @ CHR 0x00 # itoa (alStarted b) @ [CHR 0x02]"
    by (simp add: stateKeyOf_def notifyStateKey_def)
  with assms(1,2) show ?thesis
    by (auto simp: cleanAlert_def sameState_def dest!: sep_cancel intro: itoa_inj)
qed

lemma exactKey_inj:
  assumes "cleanAlert a" "cleanAlert b" "exactKeyOf a = exactKeyOf b"
  shows "stateKeyOf a = stateKeyOf b"
proof -
  let ?s = "\<lambda>x. itoa (alStarted x) @ [CHR 0x02]"
  from assms(3) have "alProblem a @ CHR 0x00 # alChannel a @ CHR 0x00 # alStatus a @ CHR 0x00 # ?s a @ CHR 0x00 # alSeverity a @ [CHR 0x01] =
      alProblem b @ CHR 0x00 # alChannel b @ CHR 0x00 # alStatus b @ CHR 0x00 # ?s b @ CHR 0x00 # alSeverity b @ [CHR 0x01]"
    by (simp add: exactKeyOf_def notifyDedupKey_def notifyStateKey_def)
  moreover have "CHR 0x00 \<notin> set (?s a)" "CHR 0x00 \<notin> set (?s b)" by (auto simp: itoa_plain)
  ultimately show ?thesis using assms(1,2)
    by (auto simp: cleanAlert_def stateKeyOf_def notifyStateKey_def itoa_plain dest!: sep_cancel)
qed

lemma stateKey_cong: "sameState a b \<Longrightarrow> stateKeyOf a = stateKeyOf b"
  by (simp add: sameState_def stateKeyOf_def)

section \<open>The decision\<close>

lemma stampOf_update: "stampOf (AList.update k s seen) k' = (if k' = k then s else stampOf seen k')"
  by (simp add: stampOf_def update_conv')

definition blocked :: "gotext \<Rightarrow> alert \<Rightarrow> int \<Rightarrow> dedupMap \<Rightarrow> bool" where
  "blocked std a now seen \<longleftrightarrow>
     (within (stAt (stampOf seen (exactKeyOf a))) now notifyDedupWindow \<or>
      within (stAt (stampOf seen (stateKeyOf a))) now notifySameStateCooldown) \<and>
     notifySeverityRank std (alSeverity a) \<le> stTopRank (stampOf seen (stateKeyOf a))"

definition suppressedMap :: "alert \<Rightarrow> dedupMap \<Rightarrow> dedupMap" where
  "suppressedMap a seen =
     (let s = stampOf seen (stateKeyOf a) in AList.update (stateKeyOf a) (s\<lparr>stSuppressed := stSuppressed s + 1\<rparr>) seen)"

definition sentMap :: "gotext \<Rightarrow> alert \<Rightarrow> int \<Rightarrow> dedupMap \<Rightarrow> dedupMap" where
  "sentMap std a now seen =
     AList.update (stateKeyOf a)
       \<lparr>stAt = Some now, stSuppressed = 0, stTopRank = max (stTopRank (stampOf seen (stateKeyOf a))) (notifySeverityRank std (alSeverity a))\<rparr>
       (AList.update (exactKeyOf a) \<lparr>stAt = Some now, stSuppressed = 0, stTopRank = 0\<rparr> seen)"

lemma allowChannelSend_split:
  assumes "alProblem a \<noteq> []"
  shows "allowChannelSend std a now seen =
           (let m = sweptMap now seen; s = stampOf m (stateKeyOf a) in
            if blocked std a now m then (False, stSuppressed s + 1, suppressedMap a m) else (True, stSuppressed s, sentMap std a now m))"
  using assms
  by (auto simp: allowChannelSend_def allowNotifySend_def blocked_def suppressedMap_def sentMap_def Let_def not_less)

lemma stampOf_suppressed:
  "stampOf (suppressedMap a seen) k =
     (if k = stateKeyOf a then (stampOf seen k)\<lparr>stSuppressed := stSuppressed (stampOf seen k) + 1\<rparr> else stampOf seen k)"
  by (simp add: suppressedMap_def Let_def stampOf_update)

lemma suppressed_sel [simp]:
  "stAt (stampOf (suppressedMap a seen) k) = stAt (stampOf seen k)"
  "stTopRank (stampOf (suppressedMap a seen) k) = stTopRank (stampOf seen k)"
  by (simp_all add: stampOf_suppressed)

lemma stampOf_sent:
  "stampOf (sentMap std a now seen) k =
     (if k = stateKeyOf a then
        \<lparr>stAt = Some now, stSuppressed = 0, stTopRank = max (stTopRank (stampOf seen k)) (notifySeverityRank std (alSeverity a))\<rparr>
      else if k = exactKeyOf a then \<lparr>stAt = Some now, stSuppressed = 0, stTopRank = 0\<rparr> else stampOf seen k)"
  by (simp add: sentMap_def stampOf_update)

lemma map_of_filter_key: "map_of (filter (\<lambda>(k, _). P k) xs) k = (if P k then map_of xs k else None)"
  by (induction xs) auto

lemma stampOf_forget:
  "stampOf (forgetProblem pid seen) k =
     (if pid \<noteq> [] \<and> HasPrefix k (pid @ [CHR 0x00]) then zeroStamp else stampOf seen k)"
  by (simp add: forgetProblem_def forgetProblemNotifications_def stampOf_def map_of_filter_key)

lemma map_of_filter_val:
  "distinct (map fst xs) \<Longrightarrow> map_of (filter (\<lambda>(_, v). P v) xs) k = (case map_of xs k of Some v \<Rightarrow> if P v then Some v else None | None \<Rightarrow> None)"
  by (induction xs) (auto split: option.splits simp: map_of_eq_None_iff image_iff dest!: map_of_SomeD)

lemma stampOf_swept:
  assumes "distinct (map fst seen)"
  shows "stampOf (sweptMap now seen) k =
           (if notifyDedupMaxKeys < length seen \<and> \<not> within (stAt (stampOf seen k)) now notifySameStateCooldown then zeroStamp
            else stampOf seen k)"
  using assms
  by (auto simp: sweptMap_def sweepNotifyDedup_def stampOf_def map_of_filter_val zeroStamp_def within_def split: option.splits)

text \<open>A stamp is never ahead of the clock.\<close>

definition stampsBy :: "int \<Rightarrow> dedupMap \<Rightarrow> bool" where
  "stampsBy t seen \<longleftrightarrow> distinct (map fst seen) \<and> (\<forall>k a. stAt (stampOf seen k) = Some a \<longrightarrow> a \<le> t)"

lemma zeroStamp_sel [simp]: "stAt zeroStamp = None" "stTopRank zeroStamp = 0" "stSuppressed zeroStamp = 0"
  by (simp_all add: zeroStamp_def)

lemma stampsBy_mono: "stampsBy t seen \<Longrightarrow> t \<le> t' \<Longrightarrow> stampsBy t' seen"
  by (force simp: stampsBy_def)

lemma distinct_maps:
  assumes "distinct (map fst seen)"
  shows "distinct (map fst (sweptMap now seen))" and "distinct (map fst (forgetProblem pid seen))"
    and "distinct (map fst (suppressedMap a seen))" and "distinct (map fst (sentMap std a now seen))"
  using assms
  by (auto simp: sweptMap_def sweepNotifyDedup_def forgetProblem_def forgetProblemNotifications_def suppressedMap_def
      sentMap_def Let_def distinct_update intro: distinct_map_filter)

lemma stampsBy_maps:
  assumes "stampsBy t seen"
  shows "stampsBy t (sweptMap now seen)" and "stampsBy t (forgetProblem pid seen)"
    and "stampsBy t (suppressedMap a seen)" and "stampsBy t (sentMap std a t seen)"
  using assms
  by (auto simp: stampsBy_def distinct_maps stampOf_swept stampOf_forget stampOf_suppressed stampOf_sent split: if_splits)

lemma stampsBy_allow:
  assumes "stampsBy t seen" "t \<le> now" "allowChannelSend std a now seen = (ok, n, seen')"
  shows "stampsBy now seen'"
proof (cases "alProblem a = []")
  case True
  then show ?thesis using assms by (auto simp: allowChannelSend_def intro: stampsBy_mono)
next
  case False
  then show ?thesis
    using assms stampsBy_mono [OF assms(1,2)]
    by (auto simp: allowChannelSend_split Let_def stampsBy_maps split: if_splits)
qed

section \<open>Runs\<close>

text \<open>A run of the gate: alerts with the instants at which they are asked for, and resolutions that forget a problem.\<close>

datatype dedupOp = Ask alert int | Forget string

fun runDedup :: "gotext \<Rightarrow> dedupOp list \<Rightarrow> dedupMap \<Rightarrow> (alert \<times> int \<times> bool) list" where
  "runDedup std [] seen = []"
| "runDedup std (Ask a now # ops) seen =
     (let (ok, _, seen') = allowChannelSend std a now seen in (a, now, ok) # runDedup std ops seen')"
| "runDedup std (Forget pid # ops) seen = runDedup std ops (forgetProblem pid seen)"

fun askTimes :: "dedupOp list \<Rightarrow> int list" where
  "askTimes [] = []"
| "askTimes (Ask _ now # ops) = now # askTimes ops"
| "askTimes (Forget _ # ops) = askTimes ops"

definition sentInHour :: "string \<Rightarrow> int \<Rightarrow> (alert \<times> int \<times> bool) list \<Rightarrow> nat" where
  "sentInHour k t rs =
     length (filter (\<lambda>(a, now, ok). ok \<and> alProblem a \<noteq> [] \<and> stateKeyOf a = k \<and> t \<le> now \<and> now < t + notifySameStateCooldown) rs)"

lemma sentInHour_Nil [simp]: "sentInHour k t [] = 0"
  by (simp add: sentInHour_def)

lemma sentInHour_Cons [simp]:
  "sentInHour k t ((a, now, ok) # rs) =
     (if ok \<and> alProblem a \<noteq> [] \<and> stateKeyOf a = k \<and> t \<le> now \<and> now < t + notifySameStateCooldown then 1 else 0) + sentInHour k t rs"
  by (simp add: sentInHour_def)

text \<open>What the gate may still let through in the hour from \<open>t\<close>: one alert, then one for each higher severity.\<close>

definition hourBudget :: "string \<Rightarrow> int \<Rightarrow> dedupMap \<Rightarrow> nat" where
  "hourBudget k t seen =
     (case stAt (stampOf seen k) of Some a \<Rightarrow> if t \<le> a then 3 - stTopRank (stampOf seen k) else 4 | None \<Rightarrow> 4)"

lemma rank_le: "notifySeverityRank std sev \<le> 3"
  by (simp add: notifySeverityRank_def Let_def)

lemma sentInHour_late:
  assumes "sorted (now # askTimes ops)" "t + notifySameStateCooldown \<le> now"
  shows "sentInHour k t (runDedup std ops seen) = 0"
  using assms
proof (induction ops arbitrary: seen)
  case (Cons op ops)
  then show ?case by (cases op) (auto split: prod.split)
qed simp

lemma hourBudget_swept:
  assumes "distinct (map fst seen)" "now < t + notifySameStateCooldown"
  shows "hourBudget k t (sweptMap now seen) = hourBudget k t seen"
  using assms by (auto simp: hourBudget_def stampOf_swept within_def split: option.splits)

lemma hourBudget_allow:
  assumes "stampsBy l seen" "l \<le> now" "now < t + notifySameStateCooldown" "alProblem a \<noteq> []"
    and k: "k = stateKeyOf b" and allow: "allowChannelSend std a now seen = (ok, n, seen')"
  shows "(if ok \<and> stateKeyOf a = k \<and> t \<le> now then 1 else 0) + hourBudget k t seen' \<le> hourBudget k t seen"
proof -
  let ?m = "sweptMap now seen"
  have d: "distinct (map fst seen)" using assms(1) by (simp add: stampsBy_def)
  have bound: "stAt (stampOf ?m k) = Some x \<Longrightarrow> x \<le> now" for x
    using stampsBy_maps(1) [OF stampsBy_mono [OF assms(1,2)]] by (auto simp: stampsBy_def)
  have r: "notifySeverityRank std (alSeverity a) \<le> 3" by (rule rank_le)
  have "(if ok \<and> stateKeyOf a = k \<and> t \<le> now then 1 else 0) + hourBudget k t seen' \<le> hourBudget k t ?m"
  proof (cases "blocked std a now ?m")
    case True
    then show ?thesis using allow assms(4)
      by (auto simp: allowChannelSend_split Let_def hourBudget_def split: option.split)
  next
    case False
    then have ok: "ok" "seen' = sentMap std a now ?m" using allow assms(4) by (auto simp: allowChannelSend_split Let_def)
    show ?thesis
    proof (cases "stateKeyOf a = k")
      case other: False
      then show ?thesis using ok k exact_not_state [of a b] by (auto simp: hourBudget_def stampOf_sent split: option.split)
    next
      case True
      with False ok r bound assms(3) show ?thesis
        by (auto simp: hourBudget_def stampOf_sent blocked_def within_def split: option.splits)
    qed
  qed
  then show ?thesis using hourBudget_swept [OF d assms(3)] by simp
qed

lemma hourBudget_forget: "\<not> HasPrefix k (pid @ [CHR 0x00]) \<Longrightarrow> hourBudget k t (forgetProblem pid seen) = hourBudget k t seen"
  by (simp add: hourBudget_def stampOf_forget split: option.split)

lemma sentInHour_budget:
  assumes "stampsBy l seen" "sorted (l # askTimes ops)" "k = stateKeyOf b"
    and "\<forall>pid. Forget pid \<in> set ops \<longrightarrow> \<not> HasPrefix k (pid @ [CHR 0x00])"
  shows "sentInHour k t (runDedup std ops seen) \<le> hourBudget k t seen"
  using assms
proof (induction ops arbitrary: seen l)
  case (Cons op ops)
  show ?case
  proof (cases op)
    case (Forget pid)
    then show ?thesis
      using Cons.IH [of l "forgetProblem pid seen"] Cons.prems hourBudget_forget [of k pid t seen] by (auto simp: stampsBy_maps)
  next
    case (Ask a now)
    obtain ok n seen' where allow: "allowChannelSend std a now seen = (ok, n, seen')" by (cases "allowChannelSend std a now seen") auto
    have le: "l \<le> now" "sorted (now # askTimes ops)" using Cons.prems(2) Ask by auto
    have IH: "sentInHour k t (runDedup std ops seen') \<le> hourBudget k t seen'"
      using Cons.IH [of now seen'] stampsBy_allow [OF Cons.prems(1) le(1) allow] le(2) Cons.prems(3,4) by simp
    show ?thesis
    proof (cases "t + notifySameStateCooldown \<le> now")
      case True
      then show ?thesis using sentInHour_late [OF le(2), of t k std seen'] Ask allow by simp
    next
      case False
      then show ?thesis
      proof (cases "alProblem a = []")
        case True
        then show ?thesis using IH allow Ask by (simp add: allowChannelSend_def)
      next
        case named: False
        then show ?thesis
          using IH hourBudget_allow [OF Cons.prems(1) le(1) _ named Cons.prems(3) allow, of t] False Ask allow
          by (auto split: if_splits)
      qed
    qed
  qed
qed simp

text \<open>
  C9. The storm bound, for one state key of one notifier, that is one problem, one start of its episode, one channel and one status: whatever
  alerts are asked for, with whatever severities and however often the map is swept, at most four of the key's alerts are allowed within any hour
  (one, and one more for each of the three severities that is higher than all before), provided that the problem is not forgotten in between.
  The times of the alerts do not go back. A problem that resolves and opens again has a new start, and so a new key with a bound of its own.
\<close>

theorem alert_storm_bounded:
  assumes "sorted (askTimes ops)" and "\<forall>pid. Forget pid \<in> set ops \<longrightarrow> \<not> HasPrefix (stateKeyOf a) (pid @ [CHR 0x00])"
  shows "sentInHour (stateKeyOf a) t (runDedup std ops []) \<le> 4"
proof -
  define l where "l = (case askTimes ops of [] \<Rightarrow> 0 | x # _ \<Rightarrow> x)"
  have "sorted (l # askTimes ops)" using assms(1) by (auto simp: l_def split: list.splits)
  moreover have "stampsBy l []" by (simp add: stampsBy_def stampOf_def)
  ultimately have "sentInHour (stateKeyOf a) t (runDedup std ops []) \<le> hourBudget (stateKeyOf a) t []"
    using sentInHour_budget assms(2) by blast
  then show ?thesis by (simp add: hourBudget_def stampOf_def)
qed

definition alertFor :: "string \<Rightarrow> alert" where
  "alertFor sev = \<lparr>alProblem = ''p1'', alChannel = ''ops'', alStatus = ''open'', alSeverity = sev, alStarted = 7\<rparr>"

definition asciiText :: gotext where
  "asciiText = \<lparr>goLower = ToLower, goFold = EqualFold\<rparr>"

theorem alert_storm_bounded_witness:
  "sentInHour (stateKeyOf (alertFor ''critical'')) 1 (runDedup asciiText
     [Ask (alertFor ''strange'') 1, Ask (alertFor ''info'') 2, Ask (alertFor ''critical'') 3, Ask (alertFor ''warning'') 4] []) \<le> 4"
  by (rule alert_storm_bounded) simp_all

section \<open>Nothing is lost\<close>

definition sentBefore :: "(alert \<times> int \<times> bool) list \<Rightarrow> (alert \<times> int) set" where
  "sentBefore rs = {(a, now). (a, now, True) \<in> set rs}"

text \<open>Every stamp is the trace of an alert that was sent.\<close>

definition traced :: "gotext \<Rightarrow> (alert \<times> int) set \<Rightarrow> dedupMap \<Rightarrow> bool" where
  "traced std h seen \<longleftrightarrow> distinct (map fst seen) \<and>
     (\<forall>k t. stAt (stampOf seen k) = Some t \<longrightarrow> (\<exists>b. (b, t) \<in> h \<and> (k = stateKeyOf b \<or> k = exactKeyOf b))) \<and>
     (\<forall>k. 0 < stTopRank (stampOf seen k) \<longrightarrow>
        (\<exists>b t. (b, t) \<in> h \<and> k = stateKeyOf b \<and> stTopRank (stampOf seen k) = notifySeverityRank std (alSeverity b)))"

lemma traced_at:
  "traced std h seen \<Longrightarrow> stAt (stampOf seen k) = Some t \<Longrightarrow> \<exists>b. (b, t) \<in> h \<and> (k = stateKeyOf b \<or> k = exactKeyOf b)"
  unfolding traced_def by blast

lemma traced_top:
  "traced std h seen \<Longrightarrow> 0 < stTopRank (stampOf seen k) \<Longrightarrow>
     \<exists>b t. (b, t) \<in> h \<and> k = stateKeyOf b \<and> stTopRank (stampOf seen k) = notifySeverityRank std (alSeverity b)"
  unfolding traced_def by blast

lemma traced_mono: "traced std h seen \<Longrightarrow> h \<subseteq> h' \<Longrightarrow> traced std h' seen"
  unfolding traced_def by (meson subsetD)

lemma traced_maps:
  assumes "traced std h seen"
  shows "traced std h (sweptMap now seen)" and "traced std h (forgetProblem pid seen)" and "traced std h (suppressedMap a seen)"
  using assms by (auto simp: traced_def distinct_maps stampOf_swept stampOf_forget)

lemma traced_sent:
  assumes "traced std h seen"
  shows "traced std (insert (a, now) h) (sentMap std a now seen)"
proof -
  have top: "\<exists>b t. (b, t) \<in> insert (a, now) h \<and> k = stateKeyOf b \<and> stTopRank (stampOf (sentMap std a now seen) k) = notifySeverityRank std (alSeverity b)"
    if pos: "0 < stTopRank (stampOf (sentMap std a now seen) k)" for k
  proof (cases "k = stateKeyOf a \<and> stTopRank (stampOf seen k) \<le> notifySeverityRank std (alSeverity a)")
    case True
    then show ?thesis by (auto simp: stampOf_sent)
  next
    case False
    then have "stTopRank (stampOf (sentMap std a now seen) k) = stTopRank (stampOf seen k)"
      using pos by (auto simp: stampOf_sent split: if_splits)
    then show ?thesis using pos traced_top [OF assms, of k] by auto
  qed
  have "\<exists>b. (b, t) \<in> insert (a, now) h \<and> (k = stateKeyOf b \<or> k = exactKeyOf b)"
    if "stAt (stampOf (sentMap std a now seen) k) = Some t" for k t
    using that traced_at [OF assms, of k t] by (auto simp: stampOf_sent split: if_splits)
  then show ?thesis using assms top by (simp add: traced_def distinct_maps)
qed

definition told :: "gotext \<Rightarrow> (alert \<times> int) set \<Rightarrow> alert \<Rightarrow> int \<Rightarrow> bool" where
  "told std h a now \<longleftrightarrow>
     (\<exists>b t. (b, t) \<in> h \<and> sameState a b \<and> now - t < notifySameStateCooldown) \<and>
     (\<exists>b t. (b, t) \<in> h \<and> sameState a b \<and> notifySeverityRank std (alSeverity a) \<le> notifySeverityRank std (alSeverity b))"

lemma traced_blocked:
  assumes "traced std h seen" "blocked std a now seen" "cleanAlert a" "\<forall>(b, t) \<in> h. cleanAlert b"
  shows "told std h a now"
proof -
  let ?r = "notifySeverityRank std (alSeverity a)"
  have w: "notifyDedupWindow < notifySameStateCooldown" by (simp add: notifyDedupWindow_def notifySameStateCooldown_def)
  obtain k t where k: "k = exactKeyOf a \<or> k = stateKeyOf a" "stAt (stampOf seen k) = Some t" "now - t < notifySameStateCooldown"
    using assms(2) w by (auto simp: blocked_def within_def split: option.splits dest: order.strict_trans)
  then obtain b where b: "(b, t) \<in> h" "k = stateKeyOf b \<or> k = exactKeyOf b" using traced_at [OF assms(1)] by blast
  have "cleanAlert b" using b assms(4) by auto
  have "stateKeyOf a = stateKeyOf b"
    using k(1) b(2) exact_not_state [of a b] exact_not_state [of b a] exactKey_inj [OF assms(3) \<open>cleanAlert b\<close>] by auto
  then have same: "sameState a b" using stateKey_inj assms(3) \<open>cleanAlert b\<close> by blast
  moreover have "\<exists>b t. (b, t) \<in> h \<and> sameState a b \<and> ?r \<le> notifySeverityRank std (alSeverity b)"
  proof (cases "?r = 0")
    case False
    then have "0 < stTopRank (stampOf seen (stateKeyOf a))" "?r \<le> stTopRank (stampOf seen (stateKeyOf a))"
      using assms(2) by (auto simp: blocked_def)
    then obtain b' t' where b': "(b', t') \<in> h" "stateKeyOf a = stateKeyOf b'" "?r \<le> notifySeverityRank std (alSeverity b')"
      using traced_top [OF assms(1), of "stateKeyOf a"] by auto
    then have "sameState a b'" using stateKey_inj assms(3,4) by blast
    with b' show ?thesis by blast
  qed (use b same in auto)
  ultimately show ?thesis using b k(3) unfolding told_def by blast
qed

lemma runDedup_traced:
  assumes "traced std h seen" "\<forall>(b, t) \<in> h. cleanAlert b" "\<forall>b t. Ask b t \<in> set ops \<longrightarrow> cleanAlert b \<and> alProblem b \<noteq> []"
    and "runDedup std ops seen = pre @ (a, now, False) # post"
  shows "told std (h \<union> sentBefore pre) a now"
  using assms
proof (induction ops arbitrary: seen h pre)
  case (Cons op ops)
  show ?case
  proof (cases op)
    case (Forget pid)
    then show ?thesis using Cons.IH [of h "forgetProblem pid seen" pre] Cons.prems traced_maps(2) [OF Cons.prems(1)] by simp
  next
    case (Ask b t)
    have b: "cleanAlert b" "alProblem b \<noteq> []" using Cons.prems(3) Ask by auto
    obtain ok n seen' where allow: "allowChannelSend std b t seen = (ok, n, seen')" by (cases "allowChannelSend std b t seen") auto
    let ?m = "sweptMap t seen"
    have m: "traced std h ?m" by (rule traced_maps(1) [OF Cons.prems(1)])
    show ?thesis
    proof (cases pre)
      case Nil
      then have "a = b" "now = t" "\<not> ok" using Cons.prems(4) Ask allow by auto
      then have "blocked std a now ?m" using allow b by (auto simp: allowChannelSend_split Let_def split: if_splits)
      then show ?thesis using traced_blocked [OF m _ _ Cons.prems(2)] b \<open>a = b\<close> \<open>now = t\<close> Nil by (simp add: sentBefore_def)
    next
      case (Cons r pre')
      then have r: "r = (b, t, ok)" and rest: "runDedup std ops seen' = pre' @ (a, now, False) # post"
        using Cons.prems(4) Ask allow by auto
      let ?h = "if ok then insert (b, t) h else h"
      have "traced std ?h seen'" using allow b m traced_sent [OF m, of b t] traced_maps(3) [OF m, of b]
        by (auto simp: allowChannelSend_split Let_def split: if_splits)
      moreover have "\<forall>(b, t) \<in> ?h. cleanAlert b" using Cons.prems(2) b by auto
      ultimately have *: "told std (?h \<union> sentBefore pre') a now"
        using Cons.IH [of ?h seen' pre'] rest Cons.prems(3) by (meson list.set_intros(2))
      have "?h \<union> sentBefore pre' = h \<union> sentBefore pre" using Cons r by (auto simp: sentBefore_def)
      then show ?thesis using * by simp
    qed
  qed
qed simp

text \<open>
  C16. No news is lost: when an alert is suppressed, the same channel was sent an alert about the same problem, in the
  same status and since the same start, less than an hour before, and at some time before one of at least the
  same severity.
\<close>

theorem suppressed_was_told:
  assumes "\<forall>b t. Ask b t \<in> set ops \<longrightarrow> cleanAlert b \<and> alProblem b \<noteq> []"
    and "runDedup std ops [] = pre @ (a, now, False) # post"
  shows "(\<exists>b t. (b, t, True) \<in> set pre \<and> sameState a b \<and> now - t < notifySameStateCooldown) \<and>
         (\<exists>b t. (b, t, True) \<in> set pre \<and> sameState a b \<and> notifySeverityRank std (alSeverity a) \<le> notifySeverityRank std (alSeverity b))"
proof -
  have "traced std {} []" by (simp add: traced_def stampOf_def)
  from runDedup_traced [OF this _ assms] show ?thesis by (simp add: sentBefore_def told_def)
qed

theorem suppressed_was_told_witness:
  "(\<exists>b t. (b, t, True) \<in> set [(alertFor ''critical'', 1, True)] \<and> sameState (alertFor ''warning'') b \<and> 5 - t < notifySameStateCooldown) \<and>
   (\<exists>b t. (b, t, True) \<in> set [(alertFor ''critical'', 1, True)] \<and> sameState (alertFor ''warning'') b \<and>
      notifySeverityRank asciiText (alSeverity (alertFor ''warning'')) \<le> notifySeverityRank asciiText (alSeverity b))"
proof -
  have "runDedup asciiText [Ask (alertFor ''critical'') 1, Ask (alertFor ''warning'') 5] [] = [(alertFor ''critical'', 1, True)] @ (alertFor ''warning'', 5, False) # []"
    by code_simp
  from suppressed_was_told [OF _ this] show ?thesis by (simp add: alertFor_def cleanAlert_def in64_def)
qed

text \<open>
  The highest severity is remembered across the hours, contrary to the comment on \<open>topRank\<close>: an alert that escalates
  from warning to critical is suppressed when a critical one was sent more than an hour before.
\<close>

lemma escalation_swallowed:
  "runDedup asciiText [Ask (alertFor ''critical'') 0, Ask (alertFor ''warning'') (61 * 60 * 10 ^ 9), Ask (alertFor ''critical'') (62 * 60 * 10 ^ 9)] [] =
     [(alertFor ''critical'', 0, True), (alertFor ''warning'', 61 * 60 * 10 ^ 9, True), (alertFor ''critical'', 62 * 60 * 10 ^ 9, False)]"
  by code_simp

section \<open>The gate as specified\<close>

text \<open>
  The specification has one stamp for each problem, channel, status and start: an alert passes when none was sent in
  the last hour or when its severity is higher than all before.
\<close>

type_synonym gateKey = "string \<times> string \<times> string \<times> int"
type_synonym gate = "gateKey \<rightharpoonup> dedupStamp"

definition gateKeyOf :: "alert \<Rightarrow> gateKey" where
  "gateKeyOf a = (alProblem a, alChannel a, alStatus a, alStarted a)"

definition specAsk :: "gotext \<Rightarrow> alert \<Rightarrow> int \<Rightarrow> gate \<Rightarrow> bool \<times> nat \<times> gate" where
  "specAsk std a now g =
     (let s = (case g (gateKeyOf a) of None \<Rightarrow> zeroStamp | Some s \<Rightarrow> s); r = notifySeverityRank std (alSeverity a) in
      if within (stAt s) now notifySameStateCooldown \<and> r \<le> stTopRank s
      then (False, stSuppressed s + 1, g(gateKeyOf a \<mapsto> s\<lparr>stSuppressed := stSuppressed s + 1\<rparr>))
      else (True, stSuppressed s, g(gateKeyOf a \<mapsto> \<lparr>stAt = Some now, stSuppressed = 0, stTopRank = max (stTopRank s) r\<rparr>)))"

definition specSweep :: "int \<Rightarrow> gate \<Rightarrow> gate" where
  "specSweep now g = (\<lambda>k. case g k of None \<Rightarrow> None | Some s \<Rightarrow> if within (stAt s) now notifySameStateCooldown then Some s else None)"

definition specForget :: "string \<Rightarrow> gate \<Rightarrow> gate" where
  "specForget pid g = (\<lambda>k. if fst k = pid then None else g k)"

definition cleanKey :: "gateKey \<Rightarrow> bool" where
  "cleanKey k = (case k of (p, c, s, t) \<Rightarrow> CHR 0x00 \<notin> set p \<and> CHR 0x00 \<notin> set c \<and> CHR 0x00 \<notin> set s \<and> in64 t)"

definition keyText :: "gateKey \<Rightarrow> string" where
  "keyText k = (case k of (p, c, s, t) \<Rightarrow> notifyStateKey p c s t)"

definition absGate :: "dedupMap \<Rightarrow> gate" where
  "absGate seen = (\<lambda>k. if cleanKey k then map_of seen (keyText k) else None)"

text \<open>An exact stamp is never younger than the stamp of its state, so the exact layer never decides.\<close>

definition dedupOK :: "int \<Rightarrow> dedupMap \<Rightarrow> bool" where
  "dedupOK t seen \<longleftrightarrow> stampsBy t seen \<and>
     (\<forall>a x. cleanAlert a \<longrightarrow> stAt (stampOf seen (exactKeyOf a)) = Some x \<longrightarrow>
        (\<exists>y. stAt (stampOf seen (stateKeyOf a)) = Some y \<and> x \<le> y))"

lemma keyText_eq:
  assumes "cleanKey k" "cleanAlert a"
  shows "keyText k = stateKeyOf a \<longleftrightarrow> k = gateKeyOf a"
proof -
  obtain p c s t where k: "k = (p, c, s, t)" by (cases k) auto
  let ?b = "\<lparr>alProblem = p, alChannel = c, alStatus = s, alSeverity = [], alStarted = t\<rparr>"
  have "cleanAlert ?b" using assms(1) k by (simp add: cleanKey_def cleanAlert_def)
  moreover have "stateKeyOf ?b = keyText k" by (simp add: k keyText_def stateKeyOf_def)
  ultimately show ?thesis using stateKey_inj [of ?b a] assms(2)
    by (auto simp: k gateKeyOf_def sameState_def keyText_def stateKeyOf_def)
qed

lemma dedupOK_mono: "dedupOK t seen \<Longrightarrow> t \<le> t' \<Longrightarrow> dedupOK t' seen"
  by (auto simp: dedupOK_def intro: stampsBy_mono)

lemma dedupOK_suppressed: "dedupOK t seen \<Longrightarrow> dedupOK t (suppressedMap a seen)"
  by (simp add: dedupOK_def stampsBy_maps)

lemma dedupOK_swept:
  assumes "dedupOK t seen"
  shows "dedupOK t (sweptMap now seen)"
proof -
  have "distinct (map fst seen)" using assms by (simp add: dedupOK_def stampsBy_def)
  then show ?thesis using assms unfolding dedupOK_def
    by (auto simp: stampsBy_maps stampOf_swept within_def split: option.splits; fastforce)
qed

lemma dedupOK_sent:
  assumes "dedupOK t seen" "cleanAlert a"
  shows "dedupOK t (sentMap std a t seen)"
proof -
  have "\<exists>y. stAt (stampOf (sentMap std a t seen) (stateKeyOf b)) = Some y \<and> x \<le> y"
    if "cleanAlert b" "stAt (stampOf (sentMap std a t seen) (exactKeyOf b)) = Some x" for b x
  proof (cases "exactKeyOf b = exactKeyOf a")
    case True
    then show ?thesis using that exactKey_inj [OF that(1) assms(2) True] exact_not_state by (simp add: stampOf_sent)
  next
    case False
    then have "stAt (stampOf seen (exactKeyOf b)) = Some x" using that exact_not_state by (simp add: stampOf_sent)
    then show ?thesis using assms(1) that(1) exact_not_state [of a b, symmetric] exact_not_state [of a b]
      by (auto simp: stampOf_sent dedupOK_def stampsBy_def)
  qed
  then show ?thesis using assms(1) by (simp add: dedupOK_def stampsBy_maps)
qed

lemma blocked_state:
  assumes "dedupOK t seen" "cleanAlert a"
  shows "blocked std a now seen \<longleftrightarrow>
           within (stAt (stampOf seen (stateKeyOf a))) now notifySameStateCooldown \<and>
           notifySeverityRank std (alSeverity a) \<le> stTopRank (stampOf seen (stateKeyOf a))"
proof -
  have "within (stAt (stampOf seen (stateKeyOf a))) now notifySameStateCooldown"
    if exact: "within (stAt (stampOf seen (exactKeyOf a))) now notifyDedupWindow"
  proof -
    obtain x where "stAt (stampOf seen (exactKeyOf a)) = Some x" "now - x < notifyDedupWindow"
      using exact by (auto simp: within_def split: option.splits)
    moreover then obtain y where "stAt (stampOf seen (stateKeyOf a)) = Some y" "x \<le> y" using assms by (auto simp: dedupOK_def)
    ultimately show ?thesis by (simp add: within_def notifyDedupWindow_def notifySameStateCooldown_def)
  qed
  then show ?thesis by (auto simp: blocked_def)
qed

lemma absGate_stamp: "cleanAlert a \<Longrightarrow> (case absGate seen (gateKeyOf a) of None \<Rightarrow> zeroStamp | Some s \<Rightarrow> s) = stampOf seen (stateKeyOf a)"
  by (simp add: absGate_def cleanKey_def keyText_def gateKeyOf_def cleanAlert_def stateKeyOf_def stampOf_def)

lemma absGate_update:
  assumes "cleanAlert a"
  shows "absGate (AList.update (stateKeyOf a) s seen) = (absGate seen)(gateKeyOf a \<mapsto> s)"
    and "absGate (AList.update (exactKeyOf a) s seen) = absGate seen"
proof -
  have "cleanKey (gateKeyOf a)" using assms by (simp add: cleanKey_def gateKeyOf_def cleanAlert_def)
  then show "absGate (AList.update (stateKeyOf a) s seen) = (absGate seen)(gateKeyOf a \<mapsto> s)"
    using keyText_eq [OF _ assms] by (intro ext) (simp add: absGate_def update_conv')
  have "keyText k \<noteq> exactKeyOf a" for k
  proof -
    obtain p c s t where "k = (p, c, s, t)" by (cases k) auto
    then have "keyText k = stateKeyOf \<lparr>alProblem = p, alChannel = c, alStatus = s, alSeverity = [], alStarted = t\<rparr>"
      by (simp add: keyText_def stateKeyOf_def)
    then show ?thesis using exact_not_state by metis
  qed
  then show "absGate (AList.update (exactKeyOf a) s seen) = absGate seen" by (auto simp: absGate_def update_conv')
qed

lemma absGate_swept:
  assumes "distinct (map fst seen)"
  shows "absGate (sweptMap now seen) = (if notifyDedupMaxKeys < length seen then specSweep now (absGate seen) else absGate seen)"
  using assms by (auto simp: sweptMap_def sweepNotifyDedup_def absGate_def specSweep_def map_of_filter_val split: option.splits)

text \<open>
  C22. The gate of the program refines the specification with one stamp for each problem, channel, status and start:
  it answers in the same way, reports the same number of suppressed alerts and leaves the same stamps; the layer
  of exact stamps that it keeps beside them never changes an answer.
\<close>

theorem allowChannelSend_refines:
  assumes "dedupOK t seen" "t \<le> now" "cleanAlert a" "alProblem a \<noteq> []"
    and allow: "allowChannelSend std a now seen = (ok, n, seen')"
  shows "(ok, n, absGate seen') =
           specAsk std a now (if notifyDedupMaxKeys < length seen then specSweep now (absGate seen) else absGate seen) \<and>
         dedupOK now seen'"
proof -
  let ?m = "sweptMap now seen"
  have m: "dedupOK now ?m" using assms(1,2) dedupOK_swept dedupOK_mono by blast
  have g: "absGate ?m = (if notifyDedupMaxKeys < length seen then specSweep now (absGate seen) else absGate seen)"
    using assms(1) by (intro absGate_swept) (simp add: dedupOK_def stampsBy_def)
  have "(ok, n, absGate seen') = specAsk std a now (absGate ?m)"
    using allow by (auto simp: allowChannelSend_split [OF assms(4)] blocked_state [OF m assms(3)] specAsk_def Let_def
        absGate_stamp [OF assms(3)] suppressedMap_def sentMap_def absGate_update [OF assms(3)] split: if_splits)
  moreover have "dedupOK now seen'" using allow dedupOK_suppressed [OF m] dedupOK_sent [OF m assms(3)]
    by (auto simp: allowChannelSend_split [OF assms(4)] Let_def split: if_splits)
  ultimately show ?thesis by (simp add: g)
qed

theorem allowChannelSend_refines_witness:
  "(True, 0, absGate (snd (snd (allowChannelSend asciiText (alertFor ''critical'') 5 [])))) = specAsk asciiText (alertFor ''critical'') 5 (absGate []) \<and>
   dedupOK 5 (snd (snd (allowChannelSend asciiText (alertFor ''critical'') 5 [])))"
proof -
  let ?r = "allowChannelSend asciiText (alertFor ''critical'') 5 []"
  have r: "?r = (True, 0, snd (snd ?r))" by code_simp
  have "dedupOK 5 []" by (simp add: dedupOK_def stampsBy_def stampOf_def)
  from allowChannelSend_refines [OF this _ _ _ r] show ?thesis
    by (simp add: alertFor_def cleanAlert_def in64_def notifyDedupMaxKeys_def)
qed

section \<open>Recipients and routing\<close>

lemma addFresh_keys: "key ` set (addFresh key es out) = key ` set out \<union> key ` set es"
  by (induction es arbitrary: out) auto

lemma addFresh_distinct: "distinct (map key out) \<Longrightarrow> distinct (map key (addFresh key es out))"
  by (induction es arbitrary: out) auto

lemma addFresh_Nil: "addFresh key es [] = [] \<longleftrightarrow> es = []"
  using addFresh_keys [of key es "[]"] by (cases es) auto

lemma teamMailReachRule_outcome:
  "fst (teamMailReachRule std tc md sev rn) = [] \<longleftrightarrow> snd (teamMailReachRule std tc md sev rn) \<noteq> TeamMailSent"
  "snd (teamMailReachRule std tc md sev rn) \<noteq> TeamMailAlreadySent"
  by (auto simp: teamMailReachRule_def teamMailReach_def Let_def split: option.split)

lemma sendTeamMail_outcome:
  assumes "sendTeamMail std env p aw = (team, to, aw')"
  shows "team = TeamMailSent \<longleftrightarrow> to \<noteq> None"
proof (cases "neContacts env")
  case (Some tc)
  obtain es reach where r: "teamMailReachRule std tc (neTeamMetadata env) (prSeverity p) (neRuleNotify env) = (es, reach)" by fastforce
  have "es = [] \<longleftrightarrow> reach \<noteq> TeamMailSent"
    using teamMailReachRule_outcome(1) [of std tc "neTeamMetadata env" "prSeverity p" "neRuleNotify env"] by (simp add: r)
  then show ?thesis using assms Some r by (auto simp: sendTeamMail_def Let_def split: if_splits prod.splits)
qed (use assms in \<open>simp add: sendTeamMail_def\<close>)

lemma teamTurn_outcome:
  assumes "teamTurn std env p n = (team, mails, n')"
  shows "(\<exists>es. mails = [TeamMailed es]) \<longleftrightarrow> team = TeamMailSent" and "mails = [] \<or> (\<exists>es. mails = [TeamMailed es])"
    and "nRouting n' = nRouting n" and "nDedup n' = nDedup n"
  using assms sendTeamMail_outcome
  by (auto simp: teamTurn_def Let_def split: if_splits prod.splits option.splits)

lemma channelLoop_facts:
  assumes "channelLoop std env inp p i cs f seen = (out, f', seen')"
  shows "rfSends f' = rfSends f + length out \<and> rfOffered f' = rfOffered f \<and> rfTeam f' = rfTeam f \<and>
         rfSends f' + rfSuppressed f' =
           rfSends f + rfSuppressed f + length (filter (\<lambda>c. MatchesProblem (neWall env) (chMatchRules c) inp) cs) \<and>
         (\<forall>m \<in> set out. \<exists>c \<in> set cs. MatchesProblem (neWall env) (chMatchRules c) inp \<and> m = SentTo (chID c))"
  using assms
proof (induction cs arbitrary: i f seen out)
  case (Cons c cs)
  show ?case
  proof (cases "MatchesProblem (neWall env) (chMatchRules c) inp")
    case False
    then show ?thesis using Cons.IH [of "i + 1" f seen out] Cons.prems by auto
  next
    case True
    obtain ok n1 seen1 where a: "allowChannelSend std (alertOf p (chID c)) (neNow env i) seen = (ok, n1, seen1)"
      by (cases "allowChannelSend std (alertOf p (chID c)) (neNow env i) seen") auto
    show ?thesis
    proof (cases ok)
      case False
      then show ?thesis
        using Cons.IH [of "i + 1" "f\<lparr>rfSuppressed := rfSuppressed f + 1\<rparr>" seen1 out] Cons.prems a True by auto
    next
      case sent: True
      obtain out1 where o: "out = SentTo (chID c) # out1"
        "channelLoop std env inp p (i + 1) cs (f\<lparr>rfSends := rfSends f + 1\<rparr>) seen1 = (out1, f', seen')"
        using Cons.prems a True sent by (auto split: prod.splits)
      then show ?thesis using Cons.IH [OF o(2)] True by auto
    qed
  qed
qed simp

lemma recordRouting_counts:
  assumes "recordRouting std p now f n = (out, n')"
  shows "nRouting n' = bumpRouting (decideRouting f) (prID p) (prService p) (routingReason f) now (nRouting n)"
    and "\<forall>m \<in> set out. \<exists>r. m = LoggedUnmatched r"
  using assms by (auto simp: recordRouting_def Let_def split: if_splits prod.splits)

text \<open>
  C29. Every turn that is not silenced and can read the channels is counted once and truthfully: as delivered exactly
  when a message went to a channel or a team, and as having reached nobody exactly when a channel or the team
  mail was offered the problem, no offered channel matches it, and the team mail is neither sent nor sent before.
\<close>

theorem SendProblemAlert_accounts:
  assumes "\<not> silencedTurn env p" and chs: "neChannels env = Some chs"
    and send: "SendProblemAlert std env p n = (out, n')"
    and cs: "cs = EnabledChannelsForSeverity chs (prSeverity p)" and team: "team = fst (teamTurn std env p n)"
  shows "\<exists>v reason now. nRouting n' = bumpRouting v (prID p) (prService p) reason now (nRouting n) \<and>
           (v = RoutingDelivered \<longleftrightarrow> (\<exists>c. SentTo c \<in> set out) \<or> (\<exists>es. TeamMailed es \<in> set out)) \<and>
           (v = RoutingUnmatched \<longleftrightarrow>
              (cs \<noteq> [] \<or> team \<noteq> TeamMailOff) \<and> team \<noteq> TeamMailSent \<and> team \<noteq> TeamMailAlreadySent \<and>
              (\<forall>c \<in> set cs. \<not> MatchesProblem (neWall env) (chMatchRules c) (matchInputOf env p)))"
proof -
  obtain mails n1 where t: "teamTurn std env p n = (team, mails, n1)" using team by (cases "teamTurn std env p n") auto
  note tt = teamTurn_outcome [OF t]
  let ?f = "\<lparr>rfOffered = length cs, rfSends = 0, rfSuppressed = 0, rfTeam = team\<rparr>"
  let ?seen = "if prStatus p = ''resolved'' then forgetProblem (prID p) (nDedup n1) else nDedup n1"
  obtain sent f seen where loop: "channelLoop std env (matchInputOf env p) p 0 cs ?f ?seen = (sent, f, seen)"
    by (metis prod_cases3)
  note facts = channelLoop_facts [OF loop]
  define now where "now = (if cs = [] then neNow env 0 else neNow env (length cs))"
  obtain r where r: "recordRouting std p now f (if cs = [] then n1 else n1\<lparr>nDedup := seen\<rparr>) = (r, n')" and
    out: "out = publishedKind p @ mails @ sent @ r"
    using send assms(1) chs t loop cs
    by (cases "cs = []") (auto simp: SendProblemAlert_def Let_def now_def split: prod.splits)
  have matched: "length (filter (\<lambda>c. MatchesProblem (neWall env) (chMatchRules c) (matchInputOf env p)) cs) = 0 \<longleftrightarrow>
      (\<forall>c \<in> set cs. \<not> MatchesProblem (neWall env) (chMatchRules c) (matchInputOf env p))"
    by (simp add: filter_empty_conv)
  have sentTo: "(\<exists>c. SentTo c \<in> set out) \<longleftrightarrow> sent \<noteq> []"
  proof -
    have "(\<exists>c. SentTo c \<in> set sent) \<longleftrightarrow> sent \<noteq> []" using facts by (cases sent) auto
    moreover have "SentTo c \<notin> set (publishedKind p @ mails @ r)" for c
      using tt(2) recordRouting_counts(2) [OF r] by (auto simp: publishedKind_def)
    ultimately show ?thesis by (auto simp: out)
  qed
  have mailed: "(\<exists>es. TeamMailed es \<in> set out) \<longleftrightarrow> team = TeamMailSent"
    using tt facts recordRouting_counts(2) [OF r] by (auto simp: out publishedKind_def)
  have "nRouting n' = bumpRouting (decideRouting f) (prID p) (prService p) (routingReason f) now (nRouting n)"
    using recordRouting_counts(1) [OF r] tt(3) by (simp split: if_splits)
  moreover have "decideRouting f = RoutingDelivered \<longleftrightarrow> (\<exists>c. SentTo c \<in> set out) \<or> (\<exists>es. TeamMailed es \<in> set out)"
    using facts by (simp add: sentTo mailed decideRouting_def)
  moreover have "decideRouting f = RoutingUnmatched \<longleftrightarrow>
      (cs \<noteq> [] \<or> team \<noteq> TeamMailOff) \<and> team \<noteq> TeamMailSent \<and> team \<noteq> TeamMailAlreadySent \<and>
      (\<forall>c \<in> set cs. \<not> MatchesProblem (neWall env) (chMatchRules c) (matchInputOf env p))"
    using facts matched by (auto simp: decideRouting_def)
  ultimately show ?thesis by blast
qed

definition webOnly :: NotificationChannel where
  "webOnly = \<lparr>chID = ''ops'', chName = ''ops'', chType = ''slack'', chEnabled = True, chMinSeverity = ''warning'',
     chMatchRules = \<lparr>cmServices = [''web''], cmSRETeams = [], cmOwnerTeams = [], cmClusters = [], cmQuietHours = [],
       cmQuietHoursTz = [], cmMinPriority = [], cmKinds = []\<rparr>\<rparr>"

definition dbProblem :: Problem where
  "dbProblem = \<lparr>prID = ''p1'', prRuleID = ''capacity'', prService = ''db:oracle'', prSeverity = ''critical'', prStatus = ''open'',
     prPriority = ''P1'', prKind = [], prMetric = [], prAISummary = ''full'', prStartedAt = 7, prClusters = []\<rparr>"

definition webOnlyEnv :: notifyEnv where
  "webOnlyEnv = \<lparr>neMaintenance = False, neIgnored = Some False, neSilenced = False, neHeld = False, neMetadata = None,
     neTeamMetadata = None, neRuleNotify = None, neKind = ''problem'', neContacts = None, neMailed = \<lambda>_. Some False,
     neChannels = Some [webOnly], neWall = \<lambda>_. (0, 0), neNow = \<lambda>_. 9\<rparr>"

definition idleNotifier :: Notifier where
  "idleNotifier = \<lparr>nDedup = [], nAwaiting = [],
     nRouting = \<lparr>roDelivered = 0, roSuppressed = 0, roUnconfigured = 0, roUnmatched = 0, roLast = None\<rparr>\<rparr>"

theorem SendProblemAlert_accounts_witness:
  "\<exists>reason now. nRouting (snd (SendProblemAlert asciiText webOnlyEnv dbProblem idleNotifier)) =
     bumpRouting RoutingUnmatched ''p1'' ''db:oracle'' reason now (nRouting idleNotifier)"
proof -
  have "\<exists>v reason now.
      nRouting (snd (SendProblemAlert asciiText webOnlyEnv dbProblem idleNotifier)) =
        bumpRouting v (prID dbProblem) (prService dbProblem) reason now (nRouting idleNotifier) \<and>
      (v = RoutingDelivered \<longleftrightarrow>
         (\<exists>c. SentTo c \<in> set (fst (SendProblemAlert asciiText webOnlyEnv dbProblem idleNotifier))) \<or>
         (\<exists>es. TeamMailed es \<in> set (fst (SendProblemAlert asciiText webOnlyEnv dbProblem idleNotifier)))) \<and>
      (v = RoutingUnmatched \<longleftrightarrow>
         ([webOnly] \<noteq> [] \<or> TeamMailOff \<noteq> TeamMailOff) \<and> TeamMailOff \<noteq> TeamMailSent \<and> TeamMailOff \<noteq> TeamMailAlreadySent \<and>
         (\<forall>c \<in> set [webOnly]. \<not> MatchesProblem (neWall webOnlyEnv) (chMatchRules c) (matchInputOf webOnlyEnv dbProblem)))"
  proof (rule SendProblemAlert_accounts)
    show "neChannels webOnlyEnv = Some [webOnly]" by (simp add: webOnlyEnv_def)
    show "\<not> silencedTurn webOnlyEnv dbProblem" by code_simp
    show "[webOnly] = EnabledChannelsForSeverity [webOnly] (prSeverity dbProblem)"
      by (simp add: EnabledChannelsForSeverity_def webOnly_def dbProblem_def storeSeverityRank_def)
    show "TeamMailOff = fst (teamTurn asciiText webOnlyEnv dbProblem idleNotifier)" by code_simp
  qed simp
  moreover have "\<not> MatchesProblem (neWall webOnlyEnv) (chMatchRules webOnly) (matchInputOf webOnlyEnv dbProblem)"
    by (simp add: MatchesProblem_def Matches_def webOnly_def matchInputOf_def dbProblem_def)
  ultimately show ?thesis by (auto simp: dbProblem_def)
qed

end
