(* ===== verification/NotifyThread.thy ===== *)
theory NotifyThread
  imports Notify UTF8 "HOL-Library.Word"
begin

text \<open>
  The conversation that a notification belongs to (\<open>internal/notify/lifecycle.go\<close> and \<open>chstore/notify_thread.go\<close>, with the signatures of
  \<open>verdict_silence.go\<close>, \<open>exception_notifier.go\<close> and \<open>chstore/problem_verdict.go\<close>): the label of a message, the record of
  the conversation, its row in \<open>saved_views\<close> and the message identifiers. The table is a map from identifiers to rows; every read and write may
  fail, and which ones do is an argument of each call. The book's lock is held over the read, the decision and the write, so that a call is one step;
  there is one notifier. The JSON text of a row is represented by the value that it decodes to. Instants are nanoseconds. The texts of the four
  labels are constructors.
\<close>

unbundle bit_operations_syntax

section \<open>Signatures\<close>

text \<open>The part of a text before the first colon, as \<open>strings.Cut\<close> returns it.\<close>

definition cutColon :: "string \<Rightarrow> string" where
  "cutColon s = takeWhile (\<lambda>c. c \<noteq> CHR '':'') s"

definition exceptionGroupFingerprint :: "string \<Rightarrow> string" where
  "exceptionGroupFingerprint pid =
     (if \<not> HasPrefix pid ''exception-group:'' then []
      else
        (let rest = TrimPrefix pid ''exception-group:'' in
         if HasPrefix rest ''ora-source:'' then []
         else if HasPrefix rest ''ora:'' then ''ora:'' @ cutColon (TrimPrefix rest ''ora:'')
         else cutColon rest))"

definition RuleProblemVerdictSignature :: "string \<Rightarrow> string \<Rightarrow> string" where
  "RuleProblemVerdictSignature ruleID subject = (if ruleID = [] then [] else ''p:'' @ ruleID @ ''|'' @ subject)"

definition verdictSignature :: "Problem \<Rightarrow> string" where
  "verdictSignature p =
     (if prKind p = ''incident'' then []
      else
        (let fp = exceptionGroupFingerprint (prID p) in
         if fp \<noteq> [] then ''e:'' @ fp else RuleProblemVerdictSignature (prRuleID p) (prService p)))"

definition threadKey :: "Problem \<Rightarrow> string" where
  "threadKey p = (let sig = verdictSignature p in if sig \<noteq> [] then sig else ''id:'' @ prID p)"

section \<open>The conversation\<close>

datatype life = LifeOpened | LifeUpdate | LifeReopened | LifeResolved

record NotifyThread =
  thSignature :: string
  thTopic :: string
  thOpenedAt :: int
  thResolvedAt :: int
  thState :: string
  thPriority :: string
  thSeverity :: string
  thUpdatedAt :: int

definition threadReopenWindow :: int where "threadReopenWindow = 24 * 3600 * 10 ^ 9"

definition prioRankTR :: "string \<Rightarrow> nat" where
  "prioRankTR p = (if p = ''P1'' then 3 else if p = ''P2'' then 2 else if p = ''P3'' then 1 else 0)"

definition sevRankTR :: "string \<Rightarrow> nat" where
  "sevRankTR s = (if s = ''critical'' then 3 else if s = ''warning'' then 2 else if s = ''info'' then 1 else 0)"

definition freshThread :: "string \<Rightarrow> string \<Rightarrow> Problem \<Rightarrow> int \<Rightarrow> NotifyThread" where
  "freshThread key topic p nowNs =
     \<lparr>thSignature = key, thTopic = topic, thOpenedAt = nowNs, thResolvedAt = 0, thState = ''open'', thPriority = prPriority p,
      thSeverity = prSeverity p, thUpdatedAt = nowNs\<rparr>"

definition nextResolved :: "NotifyThread option \<Rightarrow> NotifyThread \<Rightarrow> int \<Rightarrow> life \<times> NotifyThread \<times> bool" where
  "nextResolved prev fresh nowNs =
     (case prev of
        None \<Rightarrow> (LifeResolved, fresh\<lparr>thState := ''resolved'', thResolvedAt := nowNs\<rparr>, True)
      | Some t \<Rightarrow>
          if thState t = ''resolved'' then (LifeResolved, t, False)
          else (LifeResolved, t\<lparr>thState := ''resolved'', thResolvedAt := nowNs, thUpdatedAt := nowNs\<rparr>, True))"

definition nextUpdate :: "NotifyThread \<Rightarrow> Problem \<Rightarrow> int \<Rightarrow> life \<times> NotifyThread \<times> bool" where
  "nextUpdate t p nowNs =
     (let up = prioRankTR (thPriority t) < prioRankTR (prPriority p); us = sevRankTR (thSeverity t) < sevRankTR (prSeverity p);
          n1 = (if up then t\<lparr>thPriority := prPriority p\<rparr> else t);
          n2 = (if us then n1\<lparr>thSeverity := prSeverity p\<rparr> else n1);
          n3 = (if up \<or> us then n2\<lparr>thUpdatedAt := nowNs\<rparr> else n2) in
      (LifeUpdate, n3, up \<or> us))"

definition nextLifecycle :: "NotifyThread option \<Rightarrow> string \<Rightarrow> string \<Rightarrow> Problem \<Rightarrow> int \<Rightarrow> life \<times> NotifyThread \<times> bool" where
  "nextLifecycle prev key topic p nowNs =
     (let fresh = freshThread key topic p nowNs in
      if prStatus p = ''resolved'' then nextResolved prev fresh nowNs
      else
        (case prev of
           None \<Rightarrow> (LifeOpened, fresh, True)
         | Some t \<Rightarrow>
             if thState t = ''resolved'' then
               (if 0 < thResolvedAt t \<and> nowNs - thResolvedAt t \<le> threadReopenWindow then
                  (LifeReopened,
                   t\<lparr>thState := ''open'', thResolvedAt := 0, thPriority := prPriority p, thSeverity := prSeverity p, thUpdatedAt := nowNs\<rparr>,
                   True)
                else (LifeOpened, fresh, True))
             else nextUpdate t p nowNs))"

section \<open>The stored record\<close>

definition jsonThread :: "NotifyThread \<Rightarrow> NotifyThread" where
  "jsonThread t =
     t\<lparr>thSignature := jsonText (thSignature t), thTopic := jsonText (thTopic t), thState := jsonText (thState t),
       thPriority := jsonText (thPriority t), thSeverity := jsonText (thSeverity t)\<rparr>"

text \<open>A row of \<open>saved_views\<close>; the query is the decoded JSON, \<open>None\<close> when the text does not decode.\<close>

record SavedView =
  svID :: string
  svOwnerID :: string
  svName :: string
  svPage :: string
  svQuery :: "NotifyThread option"

definition NotifyThreadPage :: string where "NotifyThreadPage = ''notify-thread''"
definition notifyThreadIDPrefix :: string where "notifyThreadIDPrefix = ''nt:''"

definition notifyThreadFromRow :: "SavedView \<Rightarrow> NotifyThread option" where
  "notifyThreadFromRow v =
     (if svPage v \<noteq> NotifyThreadPage \<or> svOwnerID v \<noteq> [] \<or> svName v = [] then None
      else
        (case svQuery v of
           None \<Rightarrow> None
         | Some t \<Rightarrow> if thSignature t = [] \<or> svID v \<noteq> notifyThreadIDPrefix @ thSignature t then None else Some t))"

type_synonym viewTable = "string \<rightharpoonup> SavedView"

definition GetNotifyThread :: "viewTable \<Rightarrow> string \<Rightarrow> NotifyThread option" where
  "GetNotifyThread store sig = Option.bind (store (notifyThreadIDPrefix @ sig)) notifyThreadFromRow"

definition PutNotifyThread :: "int \<Rightarrow> NotifyThread \<Rightarrow> viewTable \<Rightarrow> viewTable" where
  "PutNotifyThread wall t store =
     (let t' = (if thUpdatedAt t = 0 then t\<lparr>thUpdatedAt := wall\<rparr> else t); i = notifyThreadIDPrefix @ thSignature t' in
      store(i \<mapsto> \<lparr>svID = i, svOwnerID = [], svName = thState t', svPage = NotifyThreadPage, svQuery = Some (jsonThread t')\<rparr>))"

section \<open>The book\<close>

type_synonym threadMap = "string \<rightharpoonup> NotifyThread"

text \<open>Whether there is a store, whether it answers the read and takes the write of a call, and the clock at the write.\<close>

record threadIO =
  ioAttached :: bool
  ioReadOK :: bool
  ioWriteOK :: bool
  ioClock :: int

definition threadPrev :: "threadIO \<Rightarrow> string \<Rightarrow> threadMap \<times> viewTable \<Rightarrow> NotifyThread option" where
  "threadPrev io key ms =
     (case fst ms key of
        Some t \<Rightarrow> Some t
      | None \<Rightarrow> if ioAttached io \<and> ioReadOK io then GetNotifyThread (snd ms) key else None)"

definition advanceThread ::
  "threadIO \<Rightarrow> Problem \<Rightarrow> string \<Rightarrow> int \<Rightarrow> threadMap \<times> viewTable \<Rightarrow> (life \<times> NotifyThread) \<times> threadMap \<times> viewTable" where
  "advanceThread io p topic now ms =
     (let key = threadKey p;
          (life, t, persist) = nextLifecycle (threadPrev io key ms) key topic p now;
          store' = (if persist \<and> ioAttached io \<and> ioWriteOK io then PutNotifyThread (ioClock io) t (snd ms) else snd ms) in
      ((life, t), (fst ms)(key \<mapsto> t), store'))"

section \<open>Message identifiers\<close>

text \<open>FNV-1a of Go's package \<open>hash/fnv\<close>.\<close>

definition fnv64a :: "string \<Rightarrow> 64 word" where
  "fnv64a s = foldl (\<lambda>h c. (h XOR of_nat (byte c)) * 1099511628211) 14695981039346656037 s"

fun hexDigits :: "nat \<Rightarrow> nat \<Rightarrow> string" where
  "hexDigits 0 n = []"
| "hexDigits (Suc w) n = hexDigits w (n div 16) @ [''0123456789abcdef'' ! (n mod 16)]"

text \<open>
  Go's division truncates towards zero, as \<open>OpenedAt\<close> is a time after the epoch this is the division of integers.
\<close>

definition threadMessageTail :: "NotifyThread \<Rightarrow> string" where
  "threadMessageTail t =
     ''cm-thread-'' @ hexDigits 16 (unat (fnv64a (thSignature t))) @ ''-'' @ itoa (thOpenedAt t div 10 ^ 9) @ ''@coremetry>''"

definition threadMessageRoot :: "NotifyThread \<Rightarrow> string" where
  "threadMessageRoot t = ''<'' @ threadMessageTail t"

definition threadMessageID :: "NotifyThread \<Rightarrow> life \<Rightarrow> int \<Rightarrow> string" where
  "threadMessageID t life now =
     (if life = LifeOpened then threadMessageRoot t else ''<cm-'' @ itoa now @ ''-'' @ tl (threadMessageRoot t))"

section \<open>Runs\<close>

text \<open>A run of the notifier: messages, each with the fate of its read and write, and restarts of the process, which empty the cache.\<close>

datatype threadOp = Tell threadIO Problem string int | Restart

fun runThread :: "threadOp list \<Rightarrow> threadMap \<times> viewTable \<Rightarrow> (string \<times> life \<times> NotifyThread \<times> int) list" where
  "runThread [] ms = []"
| "runThread (Tell io p topic now # ops) ms =
     (let ((life, t), ms') = advanceThread io p topic now ms in (threadKey p, life, t, now) # runThread ops ms')"
| "runThread (Restart # ops) ms = runThread ops (Map.empty, snd ms)"

abbreviation withoutRestarts :: "threadOp list \<Rightarrow> threadOp list" where
  "withoutRestarts \<equiv> filter (\<lambda>op. op \<noteq> Restart)"

definition messagesOf :: "string \<Rightarrow> (string \<times> life \<times> NotifyThread \<times> int) list \<Rightarrow> (string \<times> life \<times> NotifyThread \<times> int) list" where
  "messagesOf k rs = filter (\<lambda>(k', _). k' = k) rs"

text \<open>The store is there for the messages about a key, and their texts are valid UTF-8; other messages may fail as they like.\<close>

definition steadyOp :: "string \<Rightarrow> threadOp \<Rightarrow> bool" where
  "steadyOp k op \<longleftrightarrow>
     (case op of
        Restart \<Rightarrow> True
      | Tell io p topic now \<Rightarrow>
          threadKey p = k \<longrightarrow>
            ioAttached io \<and> ioReadOK io \<and> ioWriteOK io \<and> 0 < now \<and> jsonText k = k \<and> jsonText topic = topic \<and>
            jsonText (prPriority p) = prPriority p \<and> jsonText (prSeverity p) = prSeverity p)"

definition stateOK :: "NotifyThread \<Rightarrow> bool" where
  "stateOK t \<longleftrightarrow> thState t = ''open'' \<or> thState t = ''resolved''"

text \<open>A record that its row gives back.\<close>

definition cleanThread :: "string \<Rightarrow> NotifyThread \<Rightarrow> bool" where
  "cleanThread k t \<longleftrightarrow> thSignature t = k \<and> stateOK t \<and> 0 < thUpdatedAt t \<and> jsonThread t = t"

lemma threadKey_nonempty: "threadKey p \<noteq> []"
  by (simp add: threadKey_def verdictSignature_def RuleProblemVerdictSignature_def Let_def)

lemma GetNotifyThread_Put:
  assumes "cleanThread k t" "k \<noteq> []"
  shows "GetNotifyThread (PutNotifyThread wall t store) k = Some t"
  using assms by (auto simp: GetNotifyThread_def PutNotifyThread_def notifyThreadFromRow_def cleanThread_def stateOK_def Let_def)

lemma GetNotifyThread_Put_other: "thSignature t \<noteq> k \<Longrightarrow> GetNotifyThread (PutNotifyThread wall t store) k = GetNotifyThread store k"
  by (simp add: GetNotifyThread_def PutNotifyThread_def Let_def)

lemma nextLifecycle_persist:
  assumes "nextLifecycle prev key topic p now = (life, t, False)"
  shows "prev = Some t"
  using assms
  by (auto simp: nextLifecycle_def nextResolved_def nextUpdate_def Let_def split: if_splits option.splits)

lemma jsonText_const [simp]: "jsonText ''open'' = ''open''" "jsonText ''resolved'' = ''resolved''"
  by (simp_all add: jsonText_ascii)

lemma nextLifecycle_signature:
  assumes "nextLifecycle prev key topic p now = (life, t, persist)" "\<And>u. prev = Some u \<Longrightarrow> thSignature u = key"
  shows "thSignature t = key"
  using assms
  by (auto simp: nextLifecycle_def nextResolved_def nextUpdate_def freshThread_def Let_def split: if_splits option.splits)

lemma jsonThread_id:
  "jsonThread t = t \<longleftrightarrow> jsonText (thSignature t) = thSignature t \<and> jsonText (thTopic t) = thTopic t \<and> jsonText (thState t) = thState t \<and>
     jsonText (thPriority t) = thPriority t \<and> jsonText (thSeverity t) = thSeverity t"
  by (cases t) (auto simp: jsonThread_def)

lemma nextLifecycle_clean:
  assumes "nextLifecycle prev key topic p now = (life, t, persist)" "\<And>u. prev = Some u \<Longrightarrow> cleanThread key u"
    and "0 < now" "jsonText key = key" "jsonText topic = topic" "jsonText (prPriority p) = prPriority p" "jsonText (prSeverity p) = prSeverity p"
  shows "cleanThread key t"
  using assms
  by (auto simp: nextLifecycle_def nextResolved_def nextUpdate_def freshThread_def cleanThread_def stateOK_def jsonThread_id Let_def
        split: if_splits option.splits)

section \<open>The conversation of a key\<close>

text \<open>The reference: the messages about one key, each decided from the record before it, with no cache, table or restart.\<close>

fun conversation :: "string \<Rightarrow> NotifyThread option \<Rightarrow> threadOp list \<Rightarrow> (string \<times> life \<times> NotifyThread \<times> int) list" where
  "conversation k prev [] = []"
| "conversation k prev (Restart # ops) = conversation k prev ops"
| "conversation k prev (Tell io p topic now # ops) =
     (if threadKey p = k
      then (let (life, t, _) = nextLifecycle prev k topic p now in (k, life, t, now) # conversation k (Some t) ops)
      else conversation k prev ops)"

lemma conversation_restarts: "conversation k prev (withoutRestarts ops) = conversation k prev ops"
  by (induction k prev ops rule: conversation.induct) (auto simp: Let_def split: prod.splits)

text \<open>
  A way in which the book keeps the record of a key: \<open>tracks ms prev\<close> says that a message that is asked for in the state \<open>ms\<close> sees
  the record \<open>prev\<close>, and \<open>allowed\<close> which operations may come.
\<close>

locale thread_book =
  fixes k :: string and tracks :: "threadMap \<times> viewTable \<Rightarrow> NotifyThread option \<Rightarrow> bool" and allowed :: "threadOp \<Rightarrow> bool"
  assumes tell_prev: "tracks ms prev \<Longrightarrow> allowed (Tell io p topic now) \<Longrightarrow> threadKey p = k \<Longrightarrow> threadPrev io k ms = prev"
    and tell_own: "tracks ms prev \<Longrightarrow> allowed (Tell io p topic now) \<Longrightarrow> threadKey p = k \<Longrightarrow>
      advanceThread io p topic now ms = ((life, t), ms') \<Longrightarrow> tracks ms' (Some t)"
    and tell_other: "tracks ms prev \<Longrightarrow> allowed (Tell io p topic now) \<Longrightarrow> threadKey p \<noteq> k \<Longrightarrow>
      advanceThread io p topic now ms = ((life, t), ms') \<Longrightarrow> tracks ms' prev"
    and restart: "tracks ms prev \<Longrightarrow> allowed Restart \<Longrightarrow> tracks (Map.empty, snd ms) prev"
begin

lemma messages_conversation:
  assumes "tracks ms prev" "list_all allowed ops"
  shows "messagesOf k (runThread ops ms) = conversation k prev ops"
  using assms
proof (induction ops arbitrary: ms prev)
  case (Cons op ops)
  show ?case
  proof (cases op)
    case Restart
    then show ?thesis using Cons.IH [OF restart [OF Cons.prems(1)]] Cons.prems(2) by simp
  next
    case (Tell io p topic now)
    obtain life t ms' where a: "advanceThread io p topic now ms = ((life, t), ms')" by (metis prod.collapse)
    have ok: "allowed (Tell io p topic now)" "list_all allowed ops" using Cons.prems(2) Tell by simp_all
    show ?thesis
    proof (cases "threadKey p = k")
      case True
      have "nextLifecycle prev k topic p now = (life, t, snd (snd (nextLifecycle prev k topic p now)))"
        using a tell_prev [OF Cons.prems(1) ok(1) True] True by (auto simp: advanceThread_def Let_def split: prod.splits)
      then have "conversation k prev (op # ops) = (k, life, t, now) # conversation k (Some t) ops"
        using True Tell by (auto split: prod.splits)
      then show ?thesis using Cons.IH [OF tell_own [OF Cons.prems(1) ok(1) True a] ok(2)] Tell a True by (simp add: messagesOf_def)
    next
      case False
      then show ?thesis using Cons.IH [OF tell_other [OF Cons.prems(1) ok(1) False a] ok(2)] Tell a by (simp add: messagesOf_def)
    qed
  qed
qed (simp add: messagesOf_def)

end

text \<open>Rows are stored under their identifiers, and cached records under their signatures.\<close>

definition filed :: "threadMap \<times> viewTable \<Rightarrow> bool" where
  "filed ms \<longleftrightarrow> (\<forall>i v. snd ms i = Some v \<longrightarrow> svID v = i) \<and> (\<forall>k t. fst ms k = Some t \<longrightarrow> thSignature t = k)"

lemma filed_prev: "filed ms \<Longrightarrow> threadPrev io k ms = Some t \<Longrightarrow> thSignature t = k"
  by (auto simp: filed_def threadPrev_def GetNotifyThread_def notifyThreadFromRow_def bind_eq_Some_conv
      split: option.splits if_splits)

lemma filed_Put: "filed (c, store) \<Longrightarrow> filed (c, PutNotifyThread wall t store)"
  by (auto simp: filed_def PutNotifyThread_def Let_def)

lemma advanceThread_cases:
  assumes "filed ms" "advanceThread io p topic now ms = ((life, t), ms')"
  obtains persist where "nextLifecycle (threadPrev io (threadKey p) ms) (threadKey p) topic p now = (life, t, persist)"
    "thSignature t = threadKey p" "fst ms' = (fst ms)(threadKey p \<mapsto> t)"
    "snd ms' = (if persist \<and> ioAttached io \<and> ioWriteOK io then PutNotifyThread (ioClock io) t (snd ms) else snd ms)" "filed ms'"
proof -
  obtain persist where n: "nextLifecycle (threadPrev io (threadKey p) ms) (threadKey p) topic p now = (life, t, persist)"
    and ms': "ms' = ((fst ms)(threadKey p \<mapsto> t), if persist \<and> ioAttached io \<and> ioWriteOK io then PutNotifyThread (ioClock io) t (snd ms) else snd ms)"
    using assms(2) by (auto simp: advanceThread_def Let_def split: prod.splits)
  have sig: "thSignature t = threadKey p" using nextLifecycle_signature [OF n] filed_prev [OF assms(1)] by blast
  have "filed ((fst ms)(threadKey p \<mapsto> t), snd ms)" using assms(1) sig by (simp add: filed_def)
  then have "filed ms'" unfolding ms' using filed_Put by auto
  then show thesis using that n sig ms' by auto
qed

section \<open>Restarts\<close>

text \<open>What is cached for a key is what the row of the key gives back.\<close>

definition synced :: "string \<Rightarrow> threadMap \<times> viewTable \<Rightarrow> NotifyThread option \<Rightarrow> bool" where
  "synced k ms prev \<longleftrightarrow> filed ms \<and> GetNotifyThread (snd ms) k = prev \<and> (fst ms k = None \<or> fst ms k = prev) \<and> (\<forall>t. prev = Some t \<longrightarrow> cleanThread k t)"

lemma synced_prev: "synced k ms prev \<Longrightarrow> ioAttached io \<Longrightarrow> ioReadOK io \<Longrightarrow> threadPrev io k ms = prev"
  by (auto simp: synced_def threadPrev_def split: option.splits)

lemma synced_own:
  assumes "synced k ms prev" "steadyOp k (Tell io p topic now)" "threadKey p = k" "advanceThread io p topic now ms = ((life, t), ms')"
  shows "synced k ms' (Some t)"
proof -
  have io: "ioAttached io" "ioReadOK io" "ioWriteOK io" using assms(2,3) by (simp_all add: steadyOp_def)
  have f: "filed ms" using assms(1) by (simp add: synced_def)
  obtain persist where n: "nextLifecycle prev k topic p now = (life, t, persist)" and c: "fst ms' = (fst ms)(k \<mapsto> t)"
    and w: "snd ms' = (if persist then PutNotifyThread (ioClock io) t (snd ms) else snd ms)" and f': "filed ms'"
    using advanceThread_cases [OF f assms(4)] synced_prev [OF assms(1) io(1,2)] assms(3) io by metis
  have t: "cleanThread k t" using nextLifecycle_clean [OF n] assms(1,2,3) by (simp add: steadyOp_def synced_def)
  have "k \<noteq> []" using threadKey_nonempty [of p] assms(3) by simp
  then have "GetNotifyThread (snd ms') k = Some t"
    using w n nextLifecycle_persist [of prev k topic p now life t] GetNotifyThread_Put [OF t] assms(1) by (cases persist) (auto simp: synced_def)
  then show ?thesis using t f' c by (simp add: synced_def)
qed

lemma synced_other:
  assumes "synced k ms prev" "threadKey p \<noteq> k" "advanceThread io p topic now ms = ((life, t), ms')"
  shows "synced k ms' prev"
proof -
  have f: "filed ms" using assms(1) by (simp add: synced_def)
  obtain persist where "thSignature t = threadKey p" "fst ms' = (fst ms)(threadKey p \<mapsto> t)" "filed ms'"
    "snd ms' = (if persist \<and> ioAttached io \<and> ioWriteOK io then PutNotifyThread (ioClock io) t (snd ms) else snd ms)"
    by (rule advanceThread_cases [OF f assms(3)])
  then show ?thesis using assms(1,2) GetNotifyThread_Put_other [of t k] by (simp add: synced_def)
qed

interpretation stored: thread_book k "synced k" "steadyOp k" for k
proof
  show "threadPrev io k ms = prev" if "synced k ms prev" "steadyOp k (Tell io p topic now)" "threadKey p = k" for ms prev io p topic now
    using that by (simp add: steadyOp_def synced_prev)
  show "synced k (Map.empty, snd ms) prev" if "synced k ms prev" for ms prev using that by (simp add: synced_def filed_def)
qed (erule (3) synced_own, erule (2) synced_other)

text \<open>
  C27. A conversation survives restarts. For any run of messages and restarts, from any table whose rows stand under their identifiers: if the
  messages about a key find the store answering their reads and taking their writes, come after 1970 and carry valid UTF-8 (other messages may fail
  as they like), and the stored record of the key, if there is one, is one that its JSON gives back, then dropping the cache at any points of the run
  changes no label, no record and no identifier of the messages about the key. A failed read after a restart opens a new conversation instead
  (\<open>failed_read_opens\<close>).
\<close>

theorem runThread_restart:
  assumes "list_all (steadyOp k) ops" "\<forall>i v. store i = Some v \<longrightarrow> svID v = i" "\<forall>t. GetNotifyThread store k = Some t \<longrightarrow> cleanThread k t"
  shows "messagesOf k (runThread ops (Map.empty, store)) = messagesOf k (runThread (withoutRestarts ops) (Map.empty, store))"
proof -
  have s: "synced k (Map.empty, store) (GetNotifyThread store k)" using assms(2,3) by (simp add: synced_def filed_def)
  have "list_all (steadyOp k) (withoutRestarts ops)" using assms(1) by (auto simp: list_all_iff)
  from stored.messages_conversation [OF s this] stored.messages_conversation [OF s assms(1)] show ?thesis by (simp add: conversation_restarts)
qed

definition ioAll :: threadIO where "ioAll = \<lparr>ioAttached = True, ioReadOK = True, ioWriteOK = True, ioClock = 1\<rparr>"
definition ioDown :: threadIO where "ioDown = \<lparr>ioAttached = True, ioReadOK = False, ioWriteOK = False, ioClock = 1\<rparr>"

definition tellAbout :: "string \<Rightarrow> string \<Rightarrow> Problem" where
  "tellAbout i st = \<lparr>prID = i, prRuleID = ''r'', prService = i, prSeverity = ''warning'', prStatus = st, prPriority = ''P2'', prKind = [], prMetric = [], prAISummary = [],
     prStartedAt = 1, prClusters = []\<rparr>"

definition deployRun :: "threadOp list" where
  "deployRun = [Tell ioAll (tellAbout ''web'' ''open'') ''Web'' 5, Tell ioDown (tellAbout ''db'' ''open'') ''DB'' 6, Restart,
     Tell ioAll (tellAbout ''web'' ''open'') ''Web2'' 7, Restart, Tell ioAll (tellAbout ''web'' ''resolved'') ''Web3'' 8]"

theorem runThread_restart_witness:
  "messagesOf ''p:r|web'' (runThread deployRun (Map.empty, Map.empty)) = messagesOf ''p:r|web'' (runThread (withoutRestarts deployRun) (Map.empty, Map.empty))"
proof (rule runThread_restart)
  show "list_all (steadyOp ''p:r|web'') deployRun" by code_simp
qed (simp_all add: GetNotifyThread_def)

text \<open>A restart followed by a failed read opens a second conversation while the first is open; the comment in the code accepts this.\<close>

lemma failed_read_opens:
  "map (\<lambda>(_, life, t, _). (life, thOpenedAt t)) (runThread
     [Tell ioAll (tellAbout ''web'' ''open'') ''Web'' 5, Restart, Tell ioDown (tellAbout ''web'' ''open'') ''Web'' 7] (Map.empty, Map.empty)) =
   [(LifeOpened, 5), (LifeOpened, 7)]"
  by code_simp

section \<open>Conversations\<close>

text \<open>The conversation of a key after a message: its root is the root of the message that opened it.\<close>

fun roots :: "string option \<Rightarrow> (string \<times> life \<times> NotifyThread \<times> int) list \<Rightarrow> bool" where
  "roots r [] = True"
| "roots r ((_, life, t, _) # ms) \<longleftrightarrow>
     (life = LifeOpened \<or> r = None \<or> r = Some (threadMessageRoot t)) \<and> roots (Some (threadMessageRoot t)) ms"

lemma nextLifecycle_root:
  assumes "nextLifecycle (Some t) key topic p now = (life, t', persist)"
  shows "life = LifeOpened \<or> threadMessageRoot t' = threadMessageRoot t"
  using assms
  by (auto simp: nextLifecycle_def nextResolved_def nextUpdate_def Let_def threadMessageRoot_def threadMessageTail_def split: if_splits)

text \<open>The protocol of one conversation, by the state that the last message left.\<close>

fun lifeOK :: "bool option \<Rightarrow> (string \<times> life \<times> NotifyThread \<times> int) list \<Rightarrow> bool" where
  "lifeOK st [] = True"
| "lifeOK st ((_, life, t, _) # ms) \<longleftrightarrow>
     (case life of
        LifeOpened \<Rightarrow> st \<noteq> Some True
      | LifeUpdate \<Rightarrow> st = Some True
      | LifeReopened \<Rightarrow> st = Some False
      | LifeResolved \<Rightarrow> True) \<and>
     (thState t = ''open'' \<longleftrightarrow> life \<noteq> LifeResolved) \<and> lifeOK (Some (life \<noteq> LifeResolved)) ms"

lemma nextLifecycle_label:
  assumes "nextLifecycle prev key topic p now = (life, t', persist)" "\<And>t. prev = Some t \<Longrightarrow> stateOK t"
  shows "stateOK t' \<and> (thState t' = ''open'' \<longleftrightarrow> life \<noteq> LifeResolved) \<and>
         (case life of
            LifeOpened \<Rightarrow> map_option (\<lambda>t. thState t = ''open'') prev \<noteq> Some True
          | LifeUpdate \<Rightarrow> map_option (\<lambda>t. thState t = ''open'') prev = Some True
          | LifeReopened \<Rightarrow> map_option (\<lambda>t. thState t = ''open'') prev = Some False
          | LifeResolved \<Rightarrow> True)"
  using assms
  by (auto simp: nextLifecycle_def nextResolved_def nextUpdate_def freshThread_def stateOK_def Let_def split: if_splits option.splits)

lemma conversation_protocol:
  assumes "\<And>t. prev = Some t \<Longrightarrow> stateOK t"
  shows "lifeOK (map_option (\<lambda>t. thState t = ''open'') prev) (conversation k prev ops) \<and>
         roots (map_option threadMessageRoot prev) (conversation k prev ops)"
  using assms
proof (induction k prev ops rule: conversation.induct)
  case (3 k prev io p topic now ops)
  show ?case
  proof (cases "threadKey p = k")
    case True
    obtain life t persist where n: "nextLifecycle prev k topic p now = (life, t, persist)" by (metis prod_cases3)
    note lab = nextLifecycle_label [OF n 3(3)]
    have rest: "lifeOK (Some (thState t = ''open'')) (conversation k (Some t) ops) \<and> roots (Some (threadMessageRoot t)) (conversation k (Some t) ops)"
      using 3(1) [OF True n [symmetric] refl] lab by auto
    have "life = LifeOpened \<or> map_option threadMessageRoot prev = None \<or> map_option threadMessageRoot prev = Some (threadMessageRoot t)"
    proof (cases prev)
      case (Some u)
      then show ?thesis using n nextLifecycle_root [of u k topic p now life t persist] by auto
    qed simp
    then show ?thesis using True n lab rest by (simp add: Let_def)
  qed (use 3 in simp)
qed simp_all

text \<open>Without a restart the cache alone decides, whatever the store does.\<close>

definition cached :: "string \<Rightarrow> threadMap \<times> viewTable \<Rightarrow> NotifyThread option \<Rightarrow> bool" where
  "cached k ms prev \<longleftrightarrow> filed ms \<and> fst ms k = prev \<and> (prev = None \<longrightarrow> GetNotifyThread (snd ms) k = None)"

lemma cached_prev: "cached k ms prev \<Longrightarrow> threadPrev io k ms = prev"
  by (auto simp: cached_def threadPrev_def split: option.splits)

lemma cached_step:
  assumes "cached k ms prev" "advanceThread io p topic now ms = ((life, t), ms')"
  shows "cached k ms' (if threadKey p = k then Some t else prev)"
proof -
  have f: "filed ms" using assms(1) by (simp add: cached_def)
  obtain persist where "thSignature t = threadKey p" "fst ms' = (fst ms)(threadKey p \<mapsto> t)" "filed ms'"
    "snd ms' = (if persist \<and> ioAttached io \<and> ioWriteOK io then PutNotifyThread (ioClock io) t (snd ms) else snd ms)"
    by (rule advanceThread_cases [OF f assms(2)])
  then show ?thesis using assms(1) GetNotifyThread_Put_other [of t k] by (simp add: cached_def)
qed

interpretation running: thread_book k "cached k" "\<lambda>op. op \<noteq> Restart" for k
proof
  show "threadPrev io k ms = prev" if "cached k ms prev" for ms prev io using that by (rule cached_prev)
  show "cached k ms' (Some t)" if "cached k ms prev" "threadKey p = k" "advanceThread io p topic now ms = ((life, t), ms')"
    for ms prev io p topic now life t ms' using cached_step [OF that(1,3)] that(2) by simp
  show "cached k ms' prev" if "cached k ms prev" "threadKey p \<noteq> k" "advanceThread io p topic now ms = ((life, t), ms')"
    for ms prev io p topic now life t ms' using cached_step [OF that(1,3)] that(2) by simp
qed simp

text \<open>
  C32. The messages about one key form conversations. For a run from an empty table in which either the process is not restarted (then any read and
  write may fail) or the messages about the key find the store working as for the restarts above: an update follows a message that left the
  conversation open, a restart of the problem follows a resolved message, an opening never interrupts an open conversation, and the record is open
  after a message exactly if the message is not a resolved one. A resolved message may come at any time, also first and also twice. All messages
  carry the root identifier of the message before them, except the openings, which start a new one, so that mail programs show one thread.
\<close>

theorem runThread_conversations:
  assumes "Restart \<notin> set ops \<or> list_all (steadyOp k) ops"
  shows "lifeOK None (messagesOf k (runThread ops (Map.empty, Map.empty))) \<and> roots None (messagesOf k (runThread ops (Map.empty, Map.empty)))"
proof -
  have "cached k (Map.empty, Map.empty) None" "synced k (Map.empty, Map.empty) None"
    by (simp_all add: cached_def synced_def filed_def GetNotifyThread_def)
  moreover have "Restart \<notin> set ops \<longleftrightarrow> list_all (\<lambda>op. op \<noteq> Restart) ops" by (induction ops) auto
  ultimately have "messagesOf k (runThread ops (Map.empty, Map.empty)) = conversation k None ops"
    using assms running.messages_conversation stored.messages_conversation by metis
  then show ?thesis using conversation_protocol [of None k ops] by simp
qed

theorem runThread_conversations_witness:
  "lifeOK None (messagesOf ''p:r|web'' (runThread deployRun (Map.empty, Map.empty))) \<and>
   roots None (messagesOf ''p:r|web'' (runThread deployRun (Map.empty, Map.empty)))"
proof (rule runThread_conversations)
  have "list_all (steadyOp ''p:r|web'') deployRun" by code_simp
  then show "Restart \<notin> set deployRun \<or> list_all (steadyOp ''p:r|web'') deployRun" by simp
qed

text \<open>Different instants give different identifiers within a conversation, and none of them is the root.\<close>

lemma threadMessageID_distinct:
  assumes "life \<noteq> LifeOpened" "in64 now"
  shows "threadMessageID t life now \<noteq> threadMessageRoot t"
    and "in64 now' \<Longrightarrow> life' \<noteq> LifeOpened \<Longrightarrow> threadMessageID t life now = threadMessageID t life' now' \<Longrightarrow> now = now'"
proof -
  have "itoa now \<noteq> [] \<and> hd (itoa now) \<noteq> CHR ''t''"
    using itoa_chars [of "hd (itoa now)" now] natDec_props [of "nat now"] by (auto simp: itoa_def isDigit_def)
  then show "threadMessageID t life now \<noteq> threadMessageRoot t"
    using assms(1) by (cases "itoa now") (auto simp: threadMessageID_def threadMessageRoot_def threadMessageTail_def)
  show "in64 now' \<Longrightarrow> life' \<noteq> LifeOpened \<Longrightarrow> threadMessageID t life now = threadMessageID t life' now' \<Longrightarrow> now = now'"
    using assms by (auto simp: threadMessageID_def intro: itoa_inj)
qed

end
