(* ===== verification/TraceTree.thy ===== *)
theory TraceTree
  imports Complex_Main Prelude "HOL-Library.Word" "HOL-Library.AList" "HOL-Library.Multiset"
begin

text \<open>
  The analysis of a trace (\<open>internal/chstore/tracetree.go\<close>): the forest that the parent links of its spans form, its
  depth-first order, the accumulated counts and times, the critical path and the summary by service. Spans are
  given by the fields that the analysis and the readers of its result use. Nodes are indices into the list of
  spans, as in the code. Times are nanoseconds and counts are unbounded (a trace has at most 50000 spans); the
  depth keeps its 16 bits. The percentage of a service is the exact quotient.
\<close>

record SpanRow =
  srSpanID :: string
  srParentSpanID :: string
  srServiceName :: string
  srName :: string
  srKind :: string
  srStatusCode :: string
  srStartTime :: int
  srEndTime :: int
  srHTTPStatus :: int
  srPeerService :: string
  srDBSystem :: string
  srAttributes :: "string \<Rightarrow> string"

definition spanDur :: "SpanRow \<Rightarrow> int" where
  "spanDur s = (if srEndTime s \<le> srStartTime s then 0 else srEndTime s - srStartTime s)"

section \<open>The forest\<close>

definition byID :: "SpanRow list \<Rightarrow> string \<Rightarrow> nat option" where
  "byID spans sid = (if sid = [] then None else find (\<lambda>i. srSpanID (spans ! i) = sid) [0..<length spans])"

definition inTree :: "SpanRow list \<Rightarrow> nat \<Rightarrow> bool" where
  "inTree spans i \<longleftrightarrow> srSpanID (spans ! i) \<noteq> [] \<and> byID spans (srSpanID (spans ! i)) = Some i"

definition parentOf :: "SpanRow list \<Rightarrow> nat \<Rightarrow> nat option" where
  "parentOf spans i =
     (case byID spans (srParentSpanID (spans ! i)) of None \<Rightarrow> None | Some p \<Rightarrow> if p \<noteq> i then Some p else None)"

definition childrenOf :: "SpanRow list \<Rightarrow> nat \<Rightarrow> nat list" where
  "childrenOf spans p = filter (\<lambda>i. inTree spans i \<and> parentOf spans i = Some p) [0..<length spans]"

definition rootsOf :: "SpanRow list \<Rightarrow> nat list" where
  "rootsOf spans =
     sort_key (\<lambda>i. srStartTime (spans ! i)) (filter (\<lambda>i. inTree spans i \<and> parentOf spans i = None) [0..<length spans])"

definition orphanCount :: "SpanRow list \<Rightarrow> nat" where
  "orphanCount spans = length (filter (\<lambda>i. srParentSpanID (spans ! i) \<noteq> []) (rootsOf spans))"

section \<open>Depth-first order\<close>

text \<open>
  The loop over the stack, its top at the head of the list. Children are pushed in reverse, so the first child
  comes off first. The value is the sequence of frames that come off; a loop that never ends is \<open>None\<close>.
\<close>

partial_function (option) dfs :: "SpanRow list \<Rightarrow> (nat \<times> 16 word) list \<Rightarrow> (nat \<times> 16 word) list option" where
  "dfs spans stack =
     (case stack of
        [] \<Rightarrow> Some []
      | f # rest \<Rightarrow>
          Option.bind (dfs spans (map (\<lambda>c. (c, snd f + 1)) (childrenOf spans (fst f)) @ rest)) (\<lambda>r. Some (f # r)))"

declare dfs.simps [code]

section \<open>Accumulation\<close>

record ttNode =
  subCount :: nat
  subErr :: nat
  subMin :: int
  subMax :: int
  selfNs :: int
  chainNs :: int
  chainNext :: "nat option"

definition zeroNode :: ttNode where
  "zeroNode = \<lparr>subCount = 0, subErr = 0, subMin = 0, subMax = 0, selfNs = 0, chainNs = 0, chainNext = None\<rparr>"

definition spanEnd :: "SpanRow \<Rightarrow> int" where
  "spanEnd s = srStartTime s + spanDur s"

definition clipped :: "SpanRow \<Rightarrow> SpanRow \<Rightarrow> int \<times> int" where
  "clipped s cs = (max (srStartTime cs) (srStartTime s), min (spanEnd cs) (spanEnd s))"

definition childIvs :: "SpanRow list \<Rightarrow> nat \<Rightarrow> (int \<times> int) list" where
  "childIvs spans i = filter (\<lambda>(a, b). a < b) (map (\<lambda>c. clipped (spans ! i) (spans ! c)) (childrenOf spans i))"

text \<open>The sweep over the intervals, sorted by their start; \<open>cur\<close> is the block that is being extended.\<close>

fun coverLoop :: "(int \<times> int) option \<Rightarrow> int \<Rightarrow> (int \<times> int) list \<Rightarrow> int" where
  "coverLoop None covered [] = covered"
| "coverLoop (Some (a, b)) covered [] = (if a < b then covered + (b - a) else covered)"
| "coverLoop None covered (iv # ivs) = coverLoop (Some iv) covered ivs"
| "coverLoop (Some (a, b)) covered ((x, y) # ivs) =
     (if b < x then coverLoop (Some (x, y)) (if a < b then covered + (b - a) else covered) ivs
      else if b < y then coverLoop (Some (a, y)) covered ivs
      else coverLoop (Some (a, b)) covered ivs)"

definition coveredNs :: "(int \<times> int) list \<Rightarrow> int" where
  "coveredNs ivs = coverLoop None 0 (sort_key fst ivs)"

text \<open>The best chain below a node: the first child of largest score that does not outlive its parent.\<close>

fun bestChain :: "SpanRow list \<Rightarrow> int \<Rightarrow> (nat \<Rightarrow> ttNode) \<Rightarrow> nat list \<Rightarrow> int \<times> nat option \<Rightarrow> int \<times> nat option" where
  "bestChain spans parentEnd m [] best = best"
| "bestChain spans parentEnd m (c # cs) best =
     bestChain spans parentEnd m cs
       (if spanEnd (spans ! c) \<le> parentEnd \<and> fst best < chainNs (m c) then (chainNs (m c), Some c) else best)"

definition nodeOf :: "SpanRow list \<Rightarrow> (nat \<Rightarrow> ttNode) \<Rightarrow> nat \<Rightarrow> ttNode" where
  "nodeOf spans m i =
     (let s = spans ! i; dur = spanDur s; cs = childrenOf spans i;
          (best, nxt) = bestChain spans (spanEnd s) m cs (-1, None);
          self = dur - coveredNs (childIvs spans i) in
      \<lparr>subCount = 1 + sum_list (map (\<lambda>c. subCount (m c)) cs),
       subErr = (if srStatusCode s = ''error'' then 1 else 0) + sum_list (map (\<lambda>c. subErr (m c)) cs),
       subMin = fold (\<lambda>c a. min (subMin (m c)) a) cs (srStartTime s),
       subMax = fold (\<lambda>c a. max (subMax (m c)) a) cs (spanEnd s),
       selfNs = (if self < 0 then 0 else self),
       chainNs = (if 0 \<le> best then dur + best else dur),
       chainNext = nxt\<rparr>)"

text \<open>The loop runs against the depth-first order.\<close>

definition accumulate :: "SpanRow list \<Rightarrow> nat list \<Rightarrow> nat \<Rightarrow> ttNode" where
  "accumulate spans order = foldr (\<lambda>i m. m(i := nodeOf spans m i)) order (\<lambda>_. zeroNode)"

section \<open>The critical path\<close>

fun longestRoot :: "SpanRow list \<Rightarrow> nat \<Rightarrow> nat list \<Rightarrow> nat" where
  "longestRoot spans best [] = best"
| "longestRoot spans best (r # rs) =
     longestRoot spans (if spanDur (spans ! best) < spanDur (spans ! r) then r else best) rs"

partial_function (option) walkChain :: "(nat \<Rightarrow> ttNode) \<Rightarrow> nat \<Rightarrow> nat list option" where
  "walkChain m cur =
     (case chainNext (m cur) of
        None \<Rightarrow> Some [cur]
      | Some c \<Rightarrow> Option.bind (walkChain m c) (\<lambda>r. Some (cur # r)))"

declare walkChain.simps [code]

section \<open>The result\<close>

record TraceNode =
  tnSpanID :: string
  tnParentSpanID :: string
  tnDepth :: "16 word"
  tnOrder :: nat
  tnChildCount :: nat
  tnSubtreeCount :: nat
  tnSubtreeErrors :: nat
  tnSubtreeNs :: int
  tnSelfNs :: int
  tnCritical :: bool

record TraceServiceSummary =
  tsService :: string
  tsSpanCount :: nat
  tsErrorCount :: nat
  tsSelfNs :: int
  tsSelfPct :: rat
  tsEntryCount :: nat

record TraceAnalysis =
  taNodes :: "TraceNode list"
  taCriticalNs :: int
  taCriticalIDs :: "string list"
  taServices :: "TraceServiceSummary list"
  taRootSpanID :: string
  taOrphanCount :: nat
  taTruncated :: bool

definition nodeRow :: "SpanRow list \<Rightarrow> (nat \<Rightarrow> ttNode) \<Rightarrow> nat list \<Rightarrow> nat \<Rightarrow> nat \<times> 16 word \<Rightarrow> TraceNode" where
  "nodeRow spans m critical k f =
     (let i = fst f; nd = m i in
      \<lparr>tnSpanID = srSpanID (spans ! i), tnParentSpanID = srParentSpanID (spans ! i), tnDepth = snd f, tnOrder = k,
       tnChildCount = length (childrenOf spans i), tnSubtreeCount = subCount nd, tnSubtreeErrors = subErr nd,
       tnSubtreeNs = subMax nd - subMin nd, tnSelfNs = selfNs nd, tnCritical = (i \<in> set critical)\<rparr>)"

definition isEntry :: "SpanRow list \<Rightarrow> nat \<Rightarrow> bool" where
  "isEntry spans i \<longleftrightarrow>
     (case byID spans (srParentSpanID (spans ! i)) of
        None \<Rightarrow> True
      | Some p \<Rightarrow> srServiceName (spans ! p) \<noteq> srServiceName (spans ! i))"

definition emptySummary :: "string \<Rightarrow> TraceServiceSummary" where
  "emptySummary svc = \<lparr>tsService = svc, tsSpanCount = 0, tsErrorCount = 0, tsSelfNs = 0, tsSelfPct = 0, tsEntryCount = 0\<rparr>"

definition addToSummary :: "SpanRow list \<Rightarrow> (nat \<Rightarrow> ttNode) \<Rightarrow> nat \<Rightarrow> TraceServiceSummary \<Rightarrow> TraceServiceSummary" where
  "addToSummary spans m i sv =
     sv\<lparr>tsSpanCount := tsSpanCount sv + 1,
        tsErrorCount := tsErrorCount sv + (if srStatusCode (spans ! i) = ''error'' then 1 else 0),
        tsSelfNs := tsSelfNs sv + selfNs (m i),
        tsEntryCount := tsEntryCount sv + (if isEntry spans i then 1 else 0)\<rparr>"

text \<open>Services in the order of their first span; a service is looked up by its name.\<close>

definition serviceStep ::
  "SpanRow list \<Rightarrow> (nat \<Rightarrow> ttNode) \<Rightarrow> nat \<Rightarrow> (string \<times> TraceServiceSummary) list \<Rightarrow> (string \<times> TraceServiceSummary) list" where
  "serviceStep spans m i svs =
     (let svc = srServiceName (spans ! i); sv = (case map_of svs svc of Some sv \<Rightarrow> sv | None \<Rightarrow> emptySummary svc) in
      AList.update svc (addToSummary spans m i sv) svs)"

definition serviceRows :: "SpanRow list \<Rightarrow> (nat \<Rightarrow> ttNode) \<Rightarrow> nat list \<Rightarrow> TraceServiceSummary list" where
  "serviceRows spans m order =
     (let svs = map snd (fold (serviceStep spans m) order []); totalSelf = sum_list (map (\<lambda>i. selfNs (m i)) order);
          pct = (\<lambda>sv. if 0 < totalSelf then sv\<lparr>tsSelfPct := Fract (tsSelfNs sv) totalSelf * 100\<rparr> else sv) in
      sort_key (\<lambda>sv. - tsSelfNs sv) (map pct svs))"

definition emptyAnalysis :: "bool \<Rightarrow> TraceAnalysis" where
  "emptyAnalysis truncated =
     \<lparr>taNodes = [], taCriticalNs = 0, taCriticalIDs = [], taServices = [], taRootSpanID = [], taOrphanCount = 0, taTruncated = truncated\<rparr>"

definition analysisOf :: "SpanRow list \<Rightarrow> bool \<Rightarrow> (nat \<times> 16 word) list \<Rightarrow> (nat \<Rightarrow> ttNode) \<Rightarrow> nat list \<Rightarrow> TraceAnalysis" where
  "analysisOf spans truncated frames m critical =
     \<lparr>taNodes = map2 (nodeRow spans m critical) [0..<length frames] frames,
      taCriticalNs = (if critical = [] then 0 else spanDur (spans ! hd critical)),
      taCriticalIDs = map (\<lambda>i. srSpanID (spans ! i)) critical,
      taServices = serviceRows spans m (map fst frames),
      taRootSpanID = (if critical = [] then [] else srSpanID (spans ! hd critical)),
      taOrphanCount = orphanCount spans, taTruncated = truncated\<rparr>"

definition BuildTraceAnalysis :: "SpanRow list \<Rightarrow> bool \<Rightarrow> TraceAnalysis option" where
  "BuildTraceAnalysis spans truncated =
     (if spans = [] then Some (emptyAnalysis truncated)
      else
        (let roots = rootsOf spans in
         case dfs spans (map (\<lambda>r. (r, 0)) roots) of
           None \<Rightarrow> None
         | Some frames \<Rightarrow>
             (let m = accumulate spans (map fst frames) in
              case (if roots = [] then Some [] else walkChain m (longestRoot spans (hd roots) (tl roots))) of
                None \<Rightarrow> None
              | Some critical \<Rightarrow> Some (analysisOf spans truncated frames m critical))))"

section \<open>The order\<close>

lemma childrenOf_props:
  "distinct (childrenOf spans i)" "c \<in> set (childrenOf spans i) \<longleftrightarrow> c < length spans \<and> inTree spans c \<and> parentOf spans c = Some i"
  by (auto simp: childrenOf_def)

lemma rootsOf_props:
  "distinct (rootsOf spans)" "r \<in> set (rootsOf spans) \<longleftrightarrow> r < length spans \<and> inTree spans r \<and> parentOf spans r = None"
  by (auto simp: rootsOf_def)

lemma parentOf_irrefl: "parentOf spans i \<noteq> Some i"
  by (auto simp: parentOf_def split: option.splits if_splits)

text \<open>The spans that hang from a root by parent links.\<close>

inductive hangs :: "SpanRow list \<Rightarrow> nat \<Rightarrow> bool" for spans where
  root: "r \<in> set (rootsOf spans) \<Longrightarrow> hangs spans r"
| child: "hangs spans p \<Longrightarrow> c \<in> set (childrenOf spans p) \<Longrightarrow> hangs spans c"

lemma dfs_Nil [simp]: "dfs spans [] = Some []"
  by (subst dfs.simps) simp

lemma dfs_Cons:
  "dfs spans (f # rest) =
     Option.bind (dfs spans (map (\<lambda>c. (c, snd f + 1)) (childrenOf spans (fst f)) @ rest)) (\<lambda>r. Some (f # r))"
  by (subst dfs.simps) simp

lemma dfs_ConsD:
  assumes "dfs spans (f # rest) = Some order"
  obtains r where "order = f # r" "dfs spans (map (\<lambda>c. (c, snd f + 1)) (childrenOf spans (fst f)) @ rest) = Some r"
  using assms by (auto simp: dfs_Cons bind_eq_Some_conv)

text \<open>
  While the loop runs, what came off and what waits are different spans, each of them a root or the child of one
  that came off; a span has one parent, so none is pushed twice.
\<close>

definition frontier :: "SpanRow list \<Rightarrow> nat set \<Rightarrow> nat list \<Rightarrow> bool" where
  "frontier spans V st \<longleftrightarrow> distinct st \<and> V \<inter> set st = {} \<and> V \<union> set st \<subseteq> {..<length spans} \<and>
     (\<forall>x \<in> V \<union> set st. case parentOf spans x of None \<Rightarrow> True | Some p \<Rightarrow> p \<in> V)"

lemma frontier_step:
  assumes "frontier spans V (i # st)"
  shows "frontier spans (insert i V) (childrenOf spans i @ st)"
proof -
  have "c \<notin> V \<union> set (i # st)" if "c \<in> set (childrenOf spans i)" for c
  proof
    assume "c \<in> V \<union> set (i # st)"
    moreover have "parentOf spans c = Some i" using that by (simp add: childrenOf_props)
    moreover have "\<forall>x \<in> V \<union> set (i # st). case parentOf spans x of None \<Rightarrow> True | Some p \<Rightarrow> p \<in> V"
      using assms unfolding frontier_def by blast
    ultimately have "i \<in> V" by force
    then show False using assms by (auto simp: frontier_def)
  qed
  then show ?thesis using assms
    by (auto simp: frontier_def childrenOf_props split: option.splits)
qed

lemma dfs_returns:
  assumes "frontier spans V (map fst st)"
  shows "\<exists>order. dfs spans st = Some order \<and> distinct (map fst order) \<and> fst ` set order \<inter> V = {}"
  using assms
proof (induction "card ({..<length spans} - V)" arbitrary: V st rule: less_induct)
  case less
  show ?case
  proof (cases st)
    case (Cons f rest)
    let ?i = "fst f" and ?st = "map (\<lambda>c. (c, snd f + 1)) (childrenOf spans (fst f)) @ rest"
    have i: "?i \<notin> V" "?i < length spans" using less.prems Cons by (auto simp: frontier_def)
    have fr: "frontier spans (insert ?i V) (map fst ?st)"
      using frontier_step [of spans V ?i "map fst rest"] less.prems Cons by (simp add: o_def)
    have "card ({..<length spans} - insert ?i V) < card ({..<length spans} - V)"
      using i by (intro psubset_card_mono) auto
    from less.hyps [OF this fr] obtain order where
      "dfs spans ?st = Some order" "distinct (map fst order)" "fst ` set order \<inter> insert ?i V = {}" by blast
    then show ?thesis using i Cons by (auto simp: dfs_Cons intro!: exI [of _ "f # order"])
  qed simp
qed

lemma dfs_order_total:
  "\<exists>frames. dfs spans (map (\<lambda>r. (r, 0)) (rootsOf spans)) = Some frames \<and> distinct (map fst frames)"
proof -
  have "frontier spans {} (map fst (map (\<lambda>r. (r, 0 :: 16 word)) (rootsOf spans)))"
    by (auto simp: frontier_def rootsOf_props o_def)
  from dfs_returns [OF this] show ?thesis by auto
qed

lemma dfs_children_later:
  assumes "dfs spans st = Some order"
  shows "set st \<subseteq> set order \<and> (\<forall>xs f ys. order = xs @ f # ys \<longrightarrow> set (childrenOf spans (fst f)) \<subseteq> fst ` set ys)"
  using assms
proof (induction order arbitrary: st)
  case Nil
  then show ?case by (cases st) (auto elim: dfs_ConsD)
next
  case (Cons g order)
  then obtain rest where st: "st = g # rest" "dfs spans (map (\<lambda>c. (c, snd g + 1)) (childrenOf spans (fst g)) @ rest) = Some order"
    by (cases st) (auto elim: dfs_ConsD)
  note IH = Cons.IH [OF st(2)]
  have head: "set (childrenOf spans (fst g)) \<subseteq> fst ` set order"
  proof
    fix c assume "c \<in> set (childrenOf spans (fst g))"
    then have "(c, snd g + 1) \<in> set order" using IH by auto
    then show "c \<in> fst ` set order" by force
  qed
  moreover have "set (childrenOf spans (fst f)) \<subseteq> fst ` set ys" if "g # order = xs @ f # ys" for xs f ys
  proof (cases xs)
    case (Cons a list)
    then have "order = list @ f # ys" using that by simp
    then show ?thesis using IH by blast
  qed (use that head in auto)
  ultimately show ?case using IH st(1) by auto
qed

lemma dfs_hangs:
  assumes "dfs spans st = Some order" "\<forall>f \<in> set st. hangs spans (fst f)"
  shows "\<forall>f \<in> set order. hangs spans (fst f)"
  using assms
proof (induction order arbitrary: st)
  case (Cons g order)
  then obtain rest where "st = g # rest" "dfs spans (map (\<lambda>c. (c, snd g + 1)) (childrenOf spans (fst g)) @ rest) = Some order"
    by (cases st) (auto elim: dfs_ConsD)
  moreover then have "\<forall>f \<in> set (map (\<lambda>c. (c, snd g + 1)) (childrenOf spans (fst g)) @ rest). hangs spans (fst f)"
    using Cons.prems by (auto intro: hangs.child)
  ultimately show ?case using Cons.prems Cons.IH by (metis list.set_intros(1) set_ConsD)
qed simp

lemma dfs_set:
  assumes "dfs spans (map (\<lambda>r. (r, 0)) (rootsOf spans)) = Some frames"
  shows "fst ` set frames = {i. hangs spans i}"
proof -
  note later = dfs_children_later [OF assms]
  have "i \<in> fst ` set frames" if "hangs spans i" for i
    using that
  proof induction
    case (root r)
    then have "(r, 0) \<in> set frames" using conjunct1 [OF later] by auto
    then show ?case by force
  next
    case (child p c)
    then obtain f where f: "f \<in> set frames" "fst f = p" by auto
    then obtain xs ys where "frames = xs @ f # ys" by (meson split_list)
    then have "set (childrenOf spans p) \<subseteq> fst ` set ys" "set ys \<subseteq> set frames" using conjunct2 [OF later] f by (blast, auto)
    then show ?case using child(2) by blast
  qed
  moreover have "\<forall>f \<in> set frames. hangs spans (fst f)" using dfs_hangs [OF assms] by (auto intro: hangs.root)
  ultimately show ?thesis by auto
qed

section \<open>Accumulated values\<close>

text \<open>
  Children come later in the order, so the loop against it has their values when it reaches the parent, and the
  final values satisfy the equations of one step.
\<close>

definition childrenLater :: "SpanRow list \<Rightarrow> nat list \<Rightarrow> bool" where
  "childrenLater spans order \<longleftrightarrow> distinct order \<and> (\<forall>xs i ys. order = xs @ i # ys \<longrightarrow> set (childrenOf spans i) \<subseteq> set ys)"

lemma bestChain_cong: "(\<And>c. c \<in> set cs \<Longrightarrow> m c = m' c) \<Longrightarrow> bestChain spans e m cs best = bestChain spans e m' cs best"
  by (induction cs arbitrary: best) auto

lemma nodeOf_cong:
  assumes "\<And>c. c \<in> set (childrenOf spans i) \<Longrightarrow> m c = m' c"
  shows "nodeOf spans m i = nodeOf spans m' i"
proof -
  let ?cs = "childrenOf spans i"
  have counts: "map (\<lambda>c. f (m c)) ?cs = map (\<lambda>c. f (m' c)) ?cs" for f :: "ttNode \<Rightarrow> nat" using assms by auto
  have lows: "fold (\<lambda>c a. min (subMin (m c)) a) ?cs t = fold (\<lambda>c a. min (subMin (m' c)) a) ?cs t" for t
    using assms by (intro fold_cong) auto
  have highs: "fold (\<lambda>c a. max (subMax (m c)) a) ?cs t = fold (\<lambda>c a. max (subMax (m' c)) a) ?cs t" for t
    using assms by (intro fold_cong) auto
  have best: "bestChain spans e m ?cs b = bestChain spans e m' ?cs b" for e b using assms by (rule bestChain_cong)
  show ?thesis unfolding nodeOf_def Let_def counts lows highs best by (rule refl)
qed

lemma accumulate_eq:
  assumes "childrenLater spans order" "i \<in> set order"
  shows "accumulate spans order i = nodeOf spans (accumulate spans order) i"
  using assms
proof (induction order)
  case (Cons j order)
  have cl: "childrenLater spans order" unfolding childrenLater_def
    using Cons.prems(1) by (metis append_Cons childrenLater_def distinct.simps(2))
  have j: "set (childrenOf spans j) \<subseteq> set order" "j \<notin> set order"
    using Cons.prems(1) by (auto simp: childrenLater_def)
  have acc: "accumulate spans (j # order) = (accumulate spans order)(j := nodeOf spans (accumulate spans order) j)"
    by (simp add: accumulate_def)
  show ?case
  proof (cases "i = j")
    case True
    then show ?thesis using j by (auto simp: acc intro!: nodeOf_cong)
  next
    case False
    then have i: "i \<in> set order" using Cons.prems(2) by simp
    then obtain xs ys where "order = xs @ i # ys" by (meson split_list)
    then have "set (childrenOf spans i) \<subseteq> set ys" "set ys \<subseteq> set order" using cl unfolding childrenLater_def by (blast, auto)
    then have "set (childrenOf spans i) \<subseteq> set order" by blast
    then show ?thesis using False j(2) Cons.IH [OF cl i] by (auto simp: acc intro!: nodeOf_cong)
  qed
qed simp

lemma dfs_childrenLater:
  assumes "dfs spans st = Some frames" "distinct (map fst frames)"
  shows "childrenLater spans (map fst frames)"
proof -
  have "set (childrenOf spans i) \<subseteq> set ys" if o: "map fst frames = xs @ i # ys" for xs i ys
  proof -
    obtain us f vs where "frames = us @ f # vs" "i = fst f" "ys = map fst vs"
      using o by (auto simp: map_eq_append_conv)
    then show ?thesis using dfs_children_later [OF assms(1)] by fastforce
  qed
  then show ?thesis using assms(2) by (simp add: childrenLater_def)
qed

section \<open>Self time\<close>

definition ivSet :: "(int \<times> int) list \<Rightarrow> int set" where
  "ivSet ivs = (\<Union>(x, y) \<in> set ivs. {x..<y})"

lemma ivSet_simps [simp]: "ivSet [] = {}" "ivSet ((x, y) # ivs) = {x..<y} \<union> ivSet ivs"
  by (auto simp: ivSet_def)

lemma finite_ivSet [simp]: "finite (ivSet ivs)"
  by (auto simp: ivSet_def)

lemma ivSet_filter: "ivSet (filter (\<lambda>(a, b). a < b) ivs) = ivSet ivs"
proof (induction ivs)
  case (Cons iv ivs)
  then show ?case by (cases iv) simp
qed simp

lemma ivSet_map: "ivSet (map f cs) = (\<Union>c \<in> set cs. {fst (f c)..<snd (f c)})"
  by (simp add: ivSet_def split_beta)

lemma card_disjoint_block:
  assumes "a < b" "\<forall>t \<in> T. b \<le> t" "finite T"
  shows "int (card ({a..<b} \<union> T)) = (b - a) + int (card T)"
  using assms by (subst card_Un_disjoint) auto

lemma coverLoop_card:
  assumes "a < b" "sorted_wrt (\<lambda>p q. fst p \<le> fst q) ivs" "\<forall>(x, y) \<in> set ivs. a \<le> x \<and> x < y"
  shows "coverLoop (Some (a, b)) covered ivs = covered + int (card ({a..<b} \<union> ivSet ivs))"
  using assms
proof (induction ivs arbitrary: a b covered)
  case (Cons iv ivs)
  obtain x y where iv: "iv = (x, y)" by (cases iv)
  have x: "a \<le> x" "x < y" "\<forall>(u, v) \<in> set ivs. x \<le> u \<and> u < v" using Cons.prems iv by auto
  have s: "sorted_wrt (\<lambda>p q. fst p \<le> fst q) ivs" and a: "\<forall>(u, v) \<in> set ivs. a \<le> u \<and> u < v" using Cons.prems by auto
  consider "b < x" | "x \<le> b" "b < y" | "y \<le> b" by linarith
  then show ?case
  proof cases
    case 1
    have "\<forall>t \<in> ivSet (iv # ivs). b \<le> t" using 1 x by (fastforce simp: ivSet_def iv)
    from card_disjoint_block [OF Cons.prems(1) this] show ?thesis
      using 1 Cons.IH [OF x(2) s x(3)] Cons.prems(1) by (simp add: iv)
  next
    case 2
    have "{a..<b} \<union> ivSet (iv # ivs) = {a..<y} \<union> ivSet ivs" using 2 x by (auto simp: iv)
    then show ?thesis using 2 x Cons.IH [OF _ s a, of y covered] by (simp add: iv)
  next
    case 3
    have "{a..<b} \<union> ivSet (iv # ivs) = {a..<b} \<union> ivSet ivs" using 3 x by (auto simp: iv)
    then show ?thesis using 3 x Cons.IH [OF Cons.prems(1) s a, of covered] by (simp add: iv)
  qed
qed simp

lemma coveredNs_card:
  assumes "\<forall>(x, y) \<in> set ivs. x < y"
  shows "coveredNs ivs = int (card (ivSet ivs))"
proof -
  let ?s = "sort_key fst ivs"
  have same: "ivSet ?s = ivSet ivs" by (simp add: ivSet_def)
  have sorted: "sorted_wrt (\<lambda>p q. fst p \<le> fst q) ?s" by (metis sorted_map sorted_sort_key)
  show ?thesis
  proof (cases ?s)
    case Nil
    then show ?thesis using same by (simp add: coveredNs_def)
  next
    case (Cons iv rest)
    obtain x y where iv: "iv = (x, y)" by (cases iv)
    have el: "\<forall>(u, v) \<in> set (iv # rest). u < v" using assms Cons by (metis set_sort)
    have "coverLoop (Some (x, y)) 0 rest = 0 + int (card ({x..<y} \<union> ivSet rest))"
      using el sorted Cons iv by (intro coverLoop_card) auto
    then show ?thesis using Cons iv same by (simp add: coveredNs_def)
  qed
qed

text \<open>The instants of a span that lie in none of its children.\<close>

definition ownInstants :: "SpanRow list \<Rightarrow> nat \<Rightarrow> int set" where
  "ownInstants spans i =
     {srStartTime (spans ! i)..<spanEnd (spans ! i)} -
     (\<Union>c \<in> set (childrenOf spans i). {srStartTime (spans ! c)..<spanEnd (spans ! c)})"

lemma selfNs_own: "selfNs (nodeOf spans m i) = int (card (ownInstants spans i))"
proof -
  let ?s = "spans ! i" and ?cs = "childrenOf spans i"
  let ?I = "{srStartTime ?s..<spanEnd ?s}" and ?U = "\<Union>c \<in> set ?cs. {srStartTime (spans ! c)..<spanEnd (spans ! c)}"
  have iv: "ivSet (childIvs spans i) = ?I \<inter> ?U"
    by (auto simp: childIvs_def ivSet_filter ivSet_map clipped_def)
  have "\<forall>(x, y) \<in> set (childIvs spans i). x < y" by (auto simp: childIvs_def)
  then have "coveredNs (childIvs spans i) = int (card (?I \<inter> ?U))" by (simp add: coveredNs_card iv)
  moreover have "spanDur ?s = int (card ?I)" by (simp add: spanEnd_def spanDur_def)
  moreover have "card (?I \<inter> ?U) \<le> card ?I" by (intro card_mono) auto
  moreover have "int (card (?I - ?U)) = int (card ?I) - int (card (?I \<inter> ?U))"
    using \<open>card (?I \<inter> ?U) \<le> card ?I\<close> by (simp add: card_Diff_subset_Int of_nat_diff)
  ultimately show ?thesis by (simp add: nodeOf_def Let_def ownInstants_def split: prod.splits)
qed

section \<open>Subtrees\<close>

lemma childrenLater_induct [consumes 2, case_names node]:
  assumes "childrenLater spans order" "i \<in> set order"
    and step: "\<And>i. i \<in> set order \<Longrightarrow> (\<And>c. c \<in> set (childrenOf spans i) \<Longrightarrow> c \<in> set order \<and> P c) \<Longrightarrow> P i"
  shows "P i"
proof -
  have "\<forall>i \<in> set ys. P i" if "order = xs @ ys" for xs ys
    using that
  proof (induction ys arbitrary: xs)
    case (Cons j ys)
    have "\<forall>i \<in> set ys. P i" using Cons.IH [of "xs @ [j]"] Cons.prems by simp
    moreover have "set (childrenOf spans j) \<subseteq> set ys" using assms(1) Cons.prems unfolding childrenLater_def by blast
    ultimately have "P j" using step [of j] Cons.prems by auto
    then show ?case using \<open>\<forall>i \<in> set ys. P i\<close> by simp
  qed simp
  then show ?thesis using assms(2) by blast
qed

abbreviation below :: "SpanRow list \<Rightarrow> nat \<Rightarrow> nat \<Rightarrow> bool" where
  "below spans \<equiv> (\<lambda>a b. b \<in> set (childrenOf spans a))\<^sup>*\<^sup>*"

lemma dfs_append:
  assumes "dfs spans s1 = Some r1" "dfs spans s2 = Some r2"
  shows "dfs spans (s1 @ s2) = Some (r1 @ r2)"
  using assms(1)
proof (induction r1 arbitrary: s1)
  case Nil
  then show ?case using assms(2) by (cases s1) (auto elim: dfs_ConsD)
next
  case (Cons f r1)
  then obtain rest where s1: "s1 = f # rest" "dfs spans (map (\<lambda>c. (c, snd f + 1)) (childrenOf spans (fst f)) @ rest) = Some r1"
    by (cases s1) (auto elim: dfs_ConsD)
  then show ?case using Cons.IH [OF s1(2)] by (simp add: dfs_Cons)
qed

lemma dfs_split:
  assumes "dfs spans (s1 @ s2) = Some r" "dfs spans s1 = Some r1"
  shows "\<exists>r2. r = r1 @ r2 \<and> dfs spans s2 = Some r2"
  using assms
proof (induction r1 arbitrary: s1 r)
  case Nil
  then show ?case by (cases s1) (auto elim: dfs_ConsD)
next
  case (Cons f r1)
  let ?cs = "\<lambda>f. map (\<lambda>c. (c, snd f + 1)) (childrenOf spans (fst f))"
  obtain rest where s1: "s1 = f # rest" "dfs spans (?cs f @ rest) = Some r1"
    using Cons.prems(2) by (cases s1) (auto elim: dfs_ConsD)
  then obtain r' where r': "r = f # r'" "dfs spans ((?cs f @ rest) @ s2) = Some r'"
    using Cons.prems(1) by (auto elim: dfs_ConsD)
  from Cons.IH [OF r'(2) s1(2)] show ?case using r'(1) by auto
qed

lemma dfs_suffix:
  assumes "dfs spans st = Some (xs @ f # ys)"
  shows "\<exists>rest. dfs spans (f # rest) = Some (f # ys)"
  using assms
proof (induction xs arbitrary: st)
  case Nil
  then show ?case by (cases st) (auto elim: dfs_ConsD)
next
  case (Cons g xs)
  then show ?case by (cases st) (auto elim: dfs_ConsD)
qed

lemma dfs_below:
  assumes "dfs spans st = Some r"
  shows "fst ` set r = {j. \<exists>f \<in> set st. below spans (fst f) j}"
proof -
  note later = dfs_children_later [OF assms]
  have closed: "j \<in> fst ` set r" if "below spans i j" "i \<in> fst ` set r" for i j
    using that
  proof (induction rule: rtranclp_induct)
    case (step p c)
    then obtain f where f: "f \<in> set r" "fst f = p" by auto
    then obtain xs ys where "r = xs @ f # ys" by (meson split_list)
    then have "set (childrenOf spans p) \<subseteq> fst ` set ys" "set ys \<subseteq> set r" using conjunct2 [OF later] f by (blast, auto)
    then show ?case using step.hyps(2) by blast
  qed
  have start: "fst ` set st \<subseteq> fst ` set r" using conjunct1 [OF later] by blast
  have origin: "\<exists>g \<in> set st. below spans (fst g) (fst f)" if "f \<in> set r" for f
    using assms that
  proof (induction r arbitrary: st)
    case (Cons h r)
    then obtain rest where st: "st = h # rest" "dfs spans (map (\<lambda>c. (c, snd h + 1)) (childrenOf spans (fst h)) @ rest) = Some r"
      by (cases st) (auto elim: dfs_ConsD)
    show ?case
    proof (cases "f = h")
      case False
      then obtain g where "g \<in> set (map (\<lambda>c. (c, snd h + 1)) (childrenOf spans (fst h)) @ rest)" "below spans (fst g) (fst f)"
        using Cons.IH [OF st(2)] Cons.prems(2) by auto
      then show ?thesis using st(1) by (auto intro: converse_rtranclp_into_rtranclp)
    qed (use st(1) in auto)
  qed simp
  show ?thesis
  proof (intro equalityI subsetI)
    fix j assume "j \<in> fst ` set r"
    then show "j \<in> {j. \<exists>f \<in> set st. below spans (fst f) j}" using origin by auto
  next
    fix j assume "j \<in> {j. \<exists>f \<in> set st. below spans (fst f) j}"
    then obtain f where "f \<in> set st" "below spans (fst f) j" by auto
    then show "j \<in> fst ` set r" using closed [of "fst f" j] start by blast
  qed
qed

definition failed :: "SpanRow list \<Rightarrow> nat \<Rightarrow> bool" where
  "failed spans i \<longleftrightarrow> srStatusCode (spans ! i) = ''error''"

lemma dfs_children:
  assumes "\<And>c. c \<in> set cs \<Longrightarrow> \<exists>r. dfs spans [(c, d)] = Some r \<and> length r = f c \<and> length (filter (\<lambda>x. failed spans (fst x)) r) = g c"
  shows "\<exists>r. dfs spans (map (\<lambda>c. (c, d)) cs) = Some r \<and> length r = sum_list (map f cs) \<and>
             length (filter (\<lambda>x. failed spans (fst x)) r) = sum_list (map g cs)"
  using assms
proof (induction cs)
  case (Cons c cs)
  obtain r1 r2 where "dfs spans [(c, d)] = Some r1" "length r1 = f c" "length (filter (\<lambda>x. failed spans (fst x)) r1) = g c"
    "dfs spans (map (\<lambda>c. (c, d)) cs) = Some r2" "length r2 = sum_list (map f cs)"
    "length (filter (\<lambda>x. failed spans (fst x)) r2) = sum_list (map g cs)"
    using Cons.IH Cons.prems by (metis list.set_intros)
  then show ?case using dfs_append [of spans "[(c, d)]" r1] by auto
qed simp

lemma subtree_block:
  assumes "childrenLater spans order" "i \<in> set order"
  shows "\<exists>r. dfs spans [(i, d)] = Some r \<and> length r = subCount (accumulate spans order i) \<and>
             length (filter (\<lambda>x. failed spans (fst x)) r) = subErr (accumulate spans order i)"
  using assms
proof (induction arbitrary: d rule: childrenLater_induct)
  case (node i)
  let ?m = "accumulate spans order"
  obtain r where r: "dfs spans (map (\<lambda>c. (c, d + 1)) (childrenOf spans i)) = Some r"
    "length r = sum_list (map (\<lambda>c. subCount (?m c)) (childrenOf spans i))"
    "length (filter (\<lambda>x. failed spans (fst x)) r) = sum_list (map (\<lambda>c. subErr (?m c)) (childrenOf spans i))"
    using dfs_children [of "childrenOf spans i" spans "d + 1"] node(2) by metis
  have "dfs spans [(i, d)] = Some ((i, d) # r)" using r(1) by (simp add: dfs_Cons)
  moreover have "subCount (?m i) = 1 + length r" "subErr (?m i) = (if failed spans i then 1 else 0) + length (filter (\<lambda>x. failed spans (fst x)) r)"
    using r accumulate_eq [OF assms(1) node(1)] by (simp_all add: nodeOf_def Let_def failed_def split: prod.splits)
  ultimately show ?case by simp
qed

lemma subtree_counts:
  assumes "dfs spans st = Some frames" "distinct (map fst frames)" "frames = xs @ f # ys"
  shows "subCount (accumulate spans (map fst frames) (fst f)) = card {j. below spans (fst f) j} \<and>
         subErr (accumulate spans (map fst frames) (fst f)) = card {j. below spans (fst f) j \<and> failed spans j} \<and>
         set (take (subCount (accumulate spans (map fst frames) (fst f))) (map fst (f # ys))) = {j. below spans (fst f) j}"
proof -
  let ?m = "accumulate spans (map fst frames)"
  have "fst f \<in> set (map fst frames)" using assms(3) by simp
  from subtree_block [OF dfs_childrenLater [OF assms(1,2)] this, of "snd f"] obtain r where
    r: "dfs spans [f] = Some r" "length r = subCount (?m (fst f))" "length (filter (\<lambda>x. failed spans (fst x)) r) = subErr (?m (fst f))"
    by auto
  obtain rest where "dfs spans ([f] @ rest) = Some (f # ys)" using dfs_suffix assms(1,3) by (metis append_Cons append_Nil)
  from dfs_split [OF this r(1)] obtain r2 where r2: "f # ys = r @ r2" by blast
  have set: "fst ` set r = {j. below spans (fst f) j}" using dfs_below [OF r(1)] by simp
  have "distinct (map fst (f # ys))" using assms(2,3) by simp
  then have dist: "distinct (map fst r)" by (simp only: r2 map_append distinct_append)
  have "card {j. below spans (fst f) j} = length r" using distinct_card [OF dist] set by simp
  moreover have "card {j. below spans (fst f) j \<and> failed spans j} = length (filter (\<lambda>x. failed spans (fst x)) r)"
  proof -
    have "{j. below spans (fst f) j \<and> failed spans j} = set (filter (failed spans) (map fst r))" using set by auto
    moreover have "card (set (filter (failed spans) (map fst r))) = length (filter (failed spans) (map fst r))"
      using dist by (intro distinct_card) simp
    ultimately show ?thesis by (simp add: filter_map o_def)
  qed
  moreover have "set (take (subCount (?m (fst f))) (map fst (f # ys))) = fst ` set r"
    by (simp add: r2 flip: r(2))
  ultimately show ?thesis using r set by simp
qed

section \<open>The critical path\<close>

text \<open>A chain goes from parent to child and never to a child that outlives its parent.\<close>

fun chainFrom :: "SpanRow list \<Rightarrow> nat list \<Rightarrow> bool" where
  "chainFrom spans [] = False"
| "chainFrom spans [i] = True"
| "chainFrom spans (i # c # path) \<longleftrightarrow>
     c \<in> set (childrenOf spans i) \<and> spanEnd (spans ! c) \<le> spanEnd (spans ! i) \<and> chainFrom spans (c # path)"

definition chainSum :: "SpanRow list \<Rightarrow> nat list \<Rightarrow> int" where
  "chainSum spans path = sum_list (map (\<lambda>i. spanDur (spans ! i)) path)"

lemma spanDur_nonneg: "0 \<le> spanDur s"
  by (simp add: spanDur_def)

lemma bestChain_max:
  assumes "bestChain spans e m cs (b0, n0) = (b, nx)"
  shows "b0 \<le> b \<and> (\<forall>c \<in> set cs. spanEnd (spans ! c) \<le> e \<longrightarrow> chainNs (m c) \<le> b) \<and>
         (b = b0 \<and> nx = n0 \<or> b0 < b \<and> (\<exists>c \<in> set cs. spanEnd (spans ! c) \<le> e \<and> nx = Some c \<and> b = chainNs (m c)))"
  using assms
proof (induction cs arbitrary: b0 n0)
  case (Cons c cs)
  show ?case
  proof (cases "spanEnd (spans ! c) \<le> e \<and> b0 < chainNs (m c)")
    case True
    then have "bestChain spans e m cs (chainNs (m c), Some c) = (b, nx)" using Cons.prems by simp
    from Cons.IH [OF this] True show ?thesis by auto
  next
    case False
    then have "bestChain spans e m cs (b0, n0) = (b, nx)" using Cons.prems by auto
    from Cons.IH [OF this] False show ?thesis by auto
  qed
qed simp

lemma nodeOf_chain:
  "(\<forall>c \<in> set (childrenOf spans i). spanEnd (spans ! c) \<le> spanEnd (spans ! i) \<longrightarrow> 0 \<le> chainNs (m c) \<longrightarrow>
      spanDur (spans ! i) + chainNs (m c) \<le> chainNs (nodeOf spans m i)) \<and>
   spanDur (spans ! i) \<le> chainNs (nodeOf spans m i) \<and>
   (case chainNext (nodeOf spans m i) of
      None \<Rightarrow> chainNs (nodeOf spans m i) = spanDur (spans ! i)
    | Some c \<Rightarrow> c \<in> set (childrenOf spans i) \<and> spanEnd (spans ! c) \<le> spanEnd (spans ! i) \<and>
        chainNs (nodeOf spans m i) = spanDur (spans ! i) + chainNs (m c))"
proof -
  obtain b nx where b: "bestChain spans (spanEnd (spans ! i)) m (childrenOf spans i) (-1, None) = (b, nx)" by fastforce
  from bestChain_max [OF b] show ?thesis by (auto simp: nodeOf_def Let_def b)
qed

lemma walkChain_best:
  assumes "childrenLater spans order" "i \<in> set order" and m: "m = accumulate spans order"
  shows "0 \<le> chainNs (m i) \<and>
         (\<exists>path. walkChain m i = Some (i # path) \<and> chainFrom spans (i # path) \<and> chainSum spans (i # path) = chainNs (m i)) \<and>
         (\<forall>path. chainFrom spans (i # path) \<longrightarrow> chainSum spans (i # path) \<le> chainNs (m i))"
  using assms(1,2)
proof (induction rule: childrenLater_induct)
  case (node i)
  have eq: "m i = nodeOf spans m i" using accumulate_eq [OF assms(1) node(1)] m by simp
  note ch = nodeOf_chain [of spans i m, folded eq]
  have nonneg: "0 \<le> chainNs (m i)" using ch spanDur_nonneg [of "spans ! i"] by linarith
  have "\<exists>path. walkChain m i = Some (i # path) \<and> chainFrom spans (i # path) \<and> chainSum spans (i # path) = chainNs (m i)"
  proof (cases "chainNext (m i)")
    case None
    then have "walkChain m i = Some [i]" by (subst walkChain.simps) simp
    then show ?thesis using ch None by (intro exI [of _ "[]"]) (simp add: chainSum_def)
  next
    case (Some c)
    then obtain path where "walkChain m c = Some (c # path)" "chainFrom spans (c # path)" "chainSum spans (c # path) = chainNs (m c)"
      using node(2) [of c] ch by auto
    moreover have "walkChain m i = Option.bind (walkChain m c) (\<lambda>r. Some (i # r))" using Some by (subst walkChain.simps) simp
    ultimately show ?thesis using ch Some by (intro exI [of _ "c # path"]) (simp add: chainSum_def)
  qed
  moreover have "chainSum spans (i # path) \<le> chainNs (m i)" if "chainFrom spans (i # path)" for path
  proof (cases path)
    case Nil
    then show ?thesis using ch by (simp add: chainSum_def)
  next
    case (Cons c rest)
    then have c: "c \<in> set (childrenOf spans i)" "spanEnd (spans ! c) \<le> spanEnd (spans ! i)" "chainFrom spans (c # rest)" using that by auto
    then have "0 \<le> chainNs (m c)" "chainSum spans (c # rest) \<le> chainNs (m c)" using node(2) by auto
    then show ?thesis using ch c Cons by (fastforce simp: chainSum_def)
  qed
  ultimately show ?case using nonneg by blast
qed

lemma longestRoot_max:
  "longestRoot spans best rs \<in> insert best (set rs) \<and>
   (\<forall>r \<in> insert best (set rs). spanDur (spans ! r) \<le> spanDur (spans ! longestRoot spans best rs))"
proof (induction rs arbitrary: best)
  case (Cons r rs)
  show ?case
  proof (cases "spanDur (spans ! best) < spanDur (spans ! r)")
    case True
    then show ?thesis using Cons.IH [of r] by force
  next
    case False
    then show ?thesis using Cons.IH [of best] by force
  qed
qed simp

section \<open>The summary by service\<close>

lemma sum_alist_update:
  fixes g :: "'b \<Rightarrow> int"
  assumes "distinct (map fst al)"
  shows "sum_list (map (\<lambda>p. g (snd p)) (AList.update k v al)) =
         sum_list (map (\<lambda>p. g (snd p)) al) - (case map_of al k of Some w \<Rightarrow> g w | None \<Rightarrow> 0) + g v"
  using assms
proof (induction al)
  case (Cons p al)
  then show ?case by (cases p) (auto simp: map_of_eq_None_iff split: option.splits dest: map_of_SomeD)
qed simp

lemma services_sum:
  fixes g :: "TraceServiceSummary \<Rightarrow> int"
  assumes "\<And>i sv. g (addToSummary spans m i sv) = g sv + h i" "\<And>svc. g (emptySummary svc) = 0"
  shows "distinct (map fst al) \<Longrightarrow>
     sum_list (map (\<lambda>p. g (snd p)) (fold (serviceStep spans m) order al)) = sum_list (map (\<lambda>p. g (snd p)) al) + sum_list (map h order)"
proof (induction order arbitrary: al)
  case (Cons i order)
  have "distinct (map fst (serviceStep spans m i al))" using Cons.prems by (simp add: serviceStep_def Let_def distinct_update)
  from Cons.IH [OF this] show ?case using Cons.prems
    by (auto simp: serviceStep_def Let_def sum_alist_update assms split: option.splits)
qed simp

lemma serviceRows_sum:
  fixes g :: "TraceServiceSummary \<Rightarrow> int"
  assumes "\<And>i sv. g (addToSummary spans m i sv) = g sv + h i" "\<And>svc. g (emptySummary svc) = 0" "\<And>sv q. g (sv\<lparr>tsSelfPct := q\<rparr>) = g sv"
  shows "sum_list (map g (serviceRows spans m order)) = sum_list (map h order)"
proof -
  have sort: "sum_list (map g (sort_key f xs)) = sum_list (map g xs)" for f :: "TraceServiceSummary \<Rightarrow> int" and xs
    by (metis mset_map mset_sort sum_mset_sum_list)
  have pct: "map g (map (\<lambda>sv. if b then sv\<lparr>tsSelfPct := q sv\<rparr> else sv) xs) = map g xs" for b q xs
    by (simp add: assms(3))
  show ?thesis using services_sum [of g spans m h "[]" order, OF assms(1,2)]
    by (simp add: serviceRows_def Let_def sort pct o_def assms(3) if_distrib cong: if_cong)
qed

section \<open>The analysis\<close>

lemma BuildTraceAnalysis_parts:
  assumes "spans \<noteq> []"
  obtains frames critical where
    "dfs spans (map (\<lambda>r. (r, 0)) (rootsOf spans)) = Some frames" "distinct (map fst frames)"
    "if rootsOf spans = [] then critical = []
     else walkChain (accumulate spans (map fst frames)) (longestRoot spans (hd (rootsOf spans)) (tl (rootsOf spans))) = Some critical"
    "BuildTraceAnalysis spans truncated = Some (analysisOf spans truncated frames (accumulate spans (map fst frames)) critical)"
proof -
  obtain frames where f: "dfs spans (map (\<lambda>r. (r, 0)) (rootsOf spans)) = Some frames" "distinct (map fst frames)"
    using dfs_order_total by blast
  let ?m = "accumulate spans (map fst frames)" and ?r = "longestRoot spans (hd (rootsOf spans)) (tl (rootsOf spans))"
  obtain critical where c: "if rootsOf spans = [] then critical = [] else walkChain ?m ?r = Some critical"
  proof (cases "rootsOf spans = []")
    case False
    then have "?r \<in> set (rootsOf spans)" using longestRoot_max [of spans "hd (rootsOf spans)" "tl (rootsOf spans)"] by (cases "rootsOf spans") auto
    then have "?r \<in> set (map fst frames)" using dfs_set [OF f(1)] by (auto intro: hangs.root)
    then show ?thesis using walkChain_best [OF dfs_childrenLater [OF f] _ refl] that False by metis
  qed (use that in simp)
  show ?thesis by (rule that [OF f c]) (use assms f c in \<open>auto simp: BuildTraceAnalysis_def Let_def split: if_splits\<close>)
qed

lemma BuildTraceAnalysis_total: "\<exists>an. BuildTraceAnalysis spans truncated = Some an"
proof (cases "spans = []")
  case True
  then show ?thesis by (simp add: BuildTraceAnalysis_def)
next
  case False
  then show ?thesis by (rule BuildTraceAnalysis_parts) blast
qed

lemma analysisOf_rows:
  assumes "\<And>k f. g (nodeRow spans m critical k f) = h (fst f)"
  shows "map g (taNodes (analysisOf spans truncated frames m critical)) = map h (map fst frames)"
  by (rule nth_equalityI) (auto simp: analysisOf_def assms)

lemma analysisOf_sel:
  "map tnSpanID (taNodes (analysisOf spans truncated frames m critical)) = map (\<lambda>i. srSpanID (spans ! i)) (map fst frames)"
  "map tnSelfNs (taNodes (analysisOf spans truncated frames m critical)) = map (\<lambda>i. selfNs (m i)) (map fst frames)"
  "map tnSubtreeCount (taNodes (analysisOf spans truncated frames m critical)) = map (\<lambda>i. subCount (m i)) (map fst frames)"
  "map tnSubtreeErrors (taNodes (analysisOf spans truncated frames m critical)) = map (\<lambda>i. subErr (m i)) (map fst frames)"
  by (rule analysisOf_rows; simp add: nodeRow_def Let_def)+

text \<open>
  C10. The analysis returns on every list of spans, whatever their identifiers and parent links (duplicates, missing
  parents, cycles). Its rows are the spans that hang from a root, each once. A row's self time is the number of
  instants of the span in none of its children, and its subtree counts are the numbers of spans and of failed
  spans below it.
\<close>

theorem BuildTraceAnalysis_rows:
  "\<exists>an order. BuildTraceAnalysis spans truncated = Some an \<and> distinct order \<and> set order = {i. hangs spans i} \<and>
     map tnSpanID (taNodes an) = map (\<lambda>i. srSpanID (spans ! i)) order \<and>
     map tnSelfNs (taNodes an) = map (\<lambda>i. int (card (ownInstants spans i))) order \<and>
     map tnSubtreeCount (taNodes an) = map (\<lambda>i. card {j. below spans i j}) order \<and>
     map tnSubtreeErrors (taNodes an) = map (\<lambda>i. card {j. below spans i j \<and> failed spans j}) order"
proof (cases "spans = []")
  case True
  have "\<not> hangs spans i" for i
  proof
    assume "hangs spans i"
    then show False by induction (auto simp: True rootsOf_def childrenOf_def)
  qed
  then show ?thesis using True by (simp add: BuildTraceAnalysis_def emptyAnalysis_def)
next
  case False
  then obtain frames critical where f: "dfs spans (map (\<lambda>r. (r, 0)) (rootsOf spans)) = Some frames" "distinct (map fst frames)"
    and an: "BuildTraceAnalysis spans truncated = Some (analysisOf spans truncated frames (accumulate spans (map fst frames)) critical)"
    by (rule BuildTraceAnalysis_parts)
  let ?m = "accumulate spans (map fst frames)"
  have counts: "subCount (?m i) = card {j. below spans i j} \<and> subErr (?m i) = card {j. below spans i j \<and> failed spans j}"
    if i: "i \<in> set (map fst frames)" for i
  proof -
    obtain g where "g \<in> set frames" "i = fst g" using i by auto
    moreover then obtain xs ys where "frames = xs @ g # ys" by (meson split_list)
    ultimately show ?thesis using subtree_counts [OF f] by blast
  qed
  have self: "selfNs (?m i) = int (card (ownInstants spans i))" if "i \<in> set (map fst frames)" for i
    using accumulate_eq [OF dfs_childrenLater [OF f] that] selfNs_own by metis
  have maps: "map (\<lambda>i. selfNs (?m i)) (map fst frames) = map (\<lambda>i. int (card (ownInstants spans i))) (map fst frames)"
    "map (\<lambda>i. subCount (?m i)) (map fst frames) = map (\<lambda>i. card {j. below spans i j}) (map fst frames)"
    "map (\<lambda>i. subErr (?m i)) (map fst frames) = map (\<lambda>i. card {j. below spans i j \<and> failed spans j}) (map fst frames)"
    by (rule map_cong [OF refl], use self counts in blast)+
  have "set (map fst frames) = {i. hangs spans i}" using dfs_set [OF f(1)] by simp
  then show ?thesis unfolding an using f(2)
    by (intro exI [of _ "analysisOf spans truncated frames ?m critical"] exI [of _ "map fst frames"]) (simp only: analysisOf_sel maps simp_thms)
qed

lemma critical_path_chain:
  assumes "BuildTraceAnalysis spans truncated = Some an" and "rootsOf spans \<noteq> []"
  shows "\<exists>r path. r \<in> set (rootsOf spans) \<and> (\<forall>r' \<in> set (rootsOf spans). spanDur (spans ! r') \<le> spanDur (spans ! r)) \<and>
           taCriticalIDs an = map (\<lambda>i. srSpanID (spans ! i)) (r # path) \<and> taRootSpanID an = srSpanID (spans ! r) \<and>
           taCriticalNs an = spanDur (spans ! r) \<and> chainFrom spans (r # path) \<and>
           (\<forall>path'. chainFrom spans (r # path') \<longrightarrow> chainSum spans (r # path') \<le> chainSum spans (r # path))"
proof -
  have "spans \<noteq> []" using assms(2) by (auto simp: rootsOf_def)
  then obtain frames critical where f: "dfs spans (map (\<lambda>r. (r, 0)) (rootsOf spans)) = Some frames" "distinct (map fst frames)"
    and c: "if rootsOf spans = [] then critical = []
     else walkChain (accumulate spans (map fst frames)) (longestRoot spans (hd (rootsOf spans)) (tl (rootsOf spans))) = Some critical"
    and an: "BuildTraceAnalysis spans truncated = Some (analysisOf spans truncated frames (accumulate spans (map fst frames)) critical)"
    by (rule BuildTraceAnalysis_parts)
  let ?r = "longestRoot spans (hd (rootsOf spans)) (tl (rootsOf spans))"
  have ins: "insert (hd (rootsOf spans)) (set (tl (rootsOf spans))) = set (rootsOf spans)"
    using assms(2) by (cases "rootsOf spans") auto
  have r: "?r \<in> set (rootsOf spans)" "\<forall>r' \<in> set (rootsOf spans). spanDur (spans ! r') \<le> spanDur (spans ! ?r)"
    using longestRoot_max [of spans "hd (rootsOf spans)" "tl (rootsOf spans)"] unfolding ins by auto
  then have "?r \<in> set (map fst frames)" using dfs_set [OF f(1)] by (auto intro: hangs.root)
  from walkChain_best [OF dfs_childrenLater [OF f] this refl] c assms(2) obtain path where
    p: "critical = ?r # path" "chainFrom spans (?r # path)"
      "\<forall>path'. chainFrom spans (?r # path') \<longrightarrow> chainSum spans (?r # path') \<le> chainSum spans (?r # path)" by auto
  have "an = analysisOf spans truncated frames (accumulate spans (map fst frames)) (?r # path)" using assms(1) an p(1) by simp
  then show ?thesis using r p by (intro exI [of _ ?r] exI [of _ path]) (simp add: analysisOf_def)
qed

text \<open>
  C17. The critical path starts at a root of longest duration and goes from parent to child without ever entering a
  child that outlives its parent; among all such chains from that root its durations add up to the most. Its time
  is the duration of the root.
\<close>

theorem BuildTraceAnalysis_critical:
  assumes "BuildTraceAnalysis spans truncated = Some an" and "rootsOf spans \<noteq> []"
  shows "\<exists>r path. r \<in> set (rootsOf spans) \<and> (\<forall>r' \<in> set (rootsOf spans). spanDur (spans ! r') \<le> spanDur (spans ! r)) \<and>
           taCriticalIDs an = map (\<lambda>i. srSpanID (spans ! i)) (r # path) \<and> taRootSpanID an = srSpanID (spans ! r) \<and>
           taCriticalNs an = spanDur (spans ! r) \<and> chainFrom spans (r # path) \<and>
           (\<forall>path'. chainFrom spans (r # path') \<longrightarrow> chainSum spans (r # path') \<le> chainSum spans (r # path))"
  by (rule critical_path_chain [OF assms])

text \<open>
  The summary by service loses nothing: its span counts add up to the number of rows, its error counts to the
  failed rows and its self times to the self times of all rows.
\<close>

theorem BuildTraceAnalysis_services:
  assumes "BuildTraceAnalysis spans truncated = Some an"
  shows "sum_list (map (\<lambda>sv. int (tsSpanCount sv)) (taServices an)) = int (length (taNodes an)) \<and>
         sum_list (map tsSelfNs (taServices an)) = sum_list (map tnSelfNs (taNodes an))"
proof (cases "spans = []")
  case True
  then show ?thesis using assms by (auto simp: BuildTraceAnalysis_def emptyAnalysis_def)
next
  case False
  then obtain frames critical where f: "dfs spans (map (\<lambda>r. (r, 0)) (rootsOf spans)) = Some frames" "distinct (map fst frames)"
    and an: "BuildTraceAnalysis spans truncated = Some (analysisOf spans truncated frames (accumulate spans (map fst frames)) critical)"
    by (rule BuildTraceAnalysis_parts)
  let ?m = "accumulate spans (map fst frames)"
  have count: "sum_list (map (\<lambda>sv. int (tsSpanCount sv)) (serviceRows spans ?m (map fst frames))) = sum_list (map (\<lambda>_. 1) (map fst frames))"
    by (rule serviceRows_sum) (simp_all add: addToSummary_def emptySummary_def)
  have self: "sum_list (map tsSelfNs (serviceRows spans ?m (map fst frames))) = sum_list (map (\<lambda>i. selfNs (?m i)) (map fst frames))"
    by (rule serviceRows_sum) (simp_all add: addToSummary_def emptySummary_def)
  have "an = analysisOf spans truncated frames ?m critical" using assms an by simp
  then show ?thesis using count self analysisOf_sel(2) [of spans truncated frames ?m critical]
    by (simp add: analysisOf_def sum_list_triv o_def)
qed

definition sampleRow :: "string \<Rightarrow> string \<Rightarrow> string \<Rightarrow> int \<Rightarrow> int \<Rightarrow> SpanRow" where
  "sampleRow sid parent svc t0 t1 =
     \<lparr>srSpanID = sid, srParentSpanID = parent, srServiceName = svc, srName = ''op'', srKind = ''client'', srStatusCode = ''ok'',
      srStartTime = t0, srEndTime = t1, srHTTPStatus = 0, srPeerService = [], srDBSystem = [], srAttributes = \<lambda>_. []\<rparr>"

definition sampleTrace :: "SpanRow list" where
  "sampleTrace = [sampleRow ''a'' [] ''web'' 0 100, sampleRow ''b'' ''a'' ''web'' 10 40, sampleRow ''c'' ''a'' ''db'' 30 90, sampleRow ''d'' ''c'' ''db'' 80 95]"

theorem BuildTraceAnalysis_critical_witness: "\<exists>an. BuildTraceAnalysis sampleTrace False = Some an \<and> taCriticalNs an = 100"
proof -
  obtain an where an: "BuildTraceAnalysis sampleTrace False = Some an" using BuildTraceAnalysis_total by blast
  have roots: "rootsOf sampleTrace = [0]" by code_simp
  then have "taCriticalNs an = 100"
    using BuildTraceAnalysis_critical [OF an] by (auto simp: sampleTrace_def sampleRow_def spanDur_def)
  then show ?thesis using an by blast
qed

theorem BuildTraceAnalysis_services_witness:
  "sum_list (map (\<lambda>sv. int (tsSpanCount sv)) (taServices (the (BuildTraceAnalysis sampleTrace False)))) =
     int (length (taNodes (the (BuildTraceAnalysis sampleTrace False))))"
proof -
  have "BuildTraceAnalysis sampleTrace False = Some (the (BuildTraceAnalysis sampleTrace False))"
    using BuildTraceAnalysis_total [of sampleTrace False] by auto
  from BuildTraceAnalysis_services [OF this] show ?thesis by blast
qed

end
