(* ===== verification/TraceChain.thy ===== *)
theory TraceChain
  imports TraceTree GoInt "HOL-Library.Product_Lexorder"
begin

text \<open>
  What explanations of a trace are built from (\<open>internal/tracechain\<close>): the critical path with the time that each step
  spends alone, its largest step and the dependency it waits for (\<open>critpath.go\<close>), and the chain from the origin of
  a failure to the root (\<open>tracechain.go\<close>). The texts rendered from both are left out. \<open>lower\<close> is \<open>strings.ToLower\<close>.
  A hop of the chain is the index of its span with its depth; a share is the exact quotient.
\<close>

section \<open>Spans\<close>

definition KindRank :: "(string \<Rightarrow> string) \<Rightarrow> string \<Rightarrow> nat" where
  "KindRank lower kind = (if lower kind = ''client'' \<or> lower kind = ''producer'' then 1 else 0)"

fun attrFirstOf :: "SpanRow \<Rightarrow> string list \<Rightarrow> string \<times> string" where
  "attrFirstOf sp [] = ([], [])"
| "attrFirstOf sp (k # ks) = (let v = TrimSpace (srAttributes sp k) in if v \<noteq> [] then (k, v) else attrFirstOf sp ks)"

definition SpanAttr :: "SpanRow \<Rightarrow> string list \<Rightarrow> string" where
  "SpanAttr sp ks = snd (attrFirstOf sp ks)"

text \<open>The verb \<open>%d\<close> of \<open>fmt.Sscanf\<close> on a text without blanks in front: a sign, then digits; the rest is not read.\<close>

definition sscanD :: "string \<Rightarrow> int option" where
  "sscanD s =
     (let sgn = (s \<noteq> [] \<and> (hd s = CHR ''-'' \<or> hd s = CHR ''+'')); ds = takeWhile isDigit (if sgn then tl s else s) in
      if ds = [] then None else Atoi ((if sgn then [hd s] else []) @ ds))"

definition httpCodeOf :: "SpanRow \<Rightarrow> int" where
  "httpCodeOf sp =
     (if 0 < srHTTPStatus sp then srHTTPStatus sp
      else
        (case sscanD (SpanAttr sp [''http.response.status_code'', ''http.status_code'']) of
           Some c \<Rightarrow> c
         | None \<Rightarrow> 0))"

section \<open>Dependencies\<close>

record Target =
  tgKind :: string
  tgValue :: string
  tgSource :: string
  tgPeer :: string

definition mkTarget :: "string \<Rightarrow> string \<Rightarrow> string \<Rightarrow> Target" where
  "mkTarget kind v src = \<lparr>tgKind = kind, tgValue = v, tgSource = src, tgPeer = []\<rparr>"

definition dbTargetOf :: "SpanRow \<Rightarrow> Target option" where
  "dbTargetOf sp =
     (let col = TrimSpace (srDBSystem sp);
          (sysKey, sys) = (if col \<noteq> [] then (''db.system'', col) else attrFirstOf sp [''db.system.name'', ''db.system'']) in
      if sys = [] then None
      else
        (let (nameKey, name) = attrFirstOf sp [''db.namespace'', ''db.name''];
             (hostKey, host) = attrFirstOf sp [''server.address'', ''net.peer.name''] in
         if name \<noteq> [] \<and> host \<noteq> [] then Some (mkTarget ''db'' (name @ ''@'' @ host) (nameKey @ ''+'' @ hostKey))
         else if name \<noteq> [] then Some (mkTarget ''db'' name nameKey)
         else if host \<noteq> [] then Some (mkTarget ''db'' (sys @ ''@'' @ host) (sysKey @ ''+'' @ hostKey))
         else Some (mkTarget ''db'' sys sysKey)))"

definition withPeer :: "string \<Rightarrow> Target \<Rightarrow> Target" where
  "withPeer peer t = (if peer \<noteq> [] \<and> peer \<noteq> tgValue t then t\<lparr>tgPeer := peer\<rparr> else t)"

definition serverTarget :: "SpanRow \<Rightarrow> string \<Rightarrow> string \<Rightarrow> Target" where
  "serverTarget sp k host =
     (let portKeys = (if k = ''net.peer.name'' then [''net.peer.port'', ''server.port''] else [''server.port'', ''net.peer.port'']);
          (pk, port) = attrFirstOf sp portKeys in
      if port \<noteq> [] \<and> \<not> Contains host '':'' then mkTarget ''server'' (host @ '':'' @ port) (k @ ''+'' @ pk)
      else mkTarget ''server'' host k)"

definition TargetOf :: "SpanRow \<Rightarrow> Target" where
  "TargetOf sp =
     (let col = TrimSpace (srPeerService sp); peer = (if col \<noteq> [] then col else SpanAttr sp [''peer.service'']) in
      case dbTargetOf sp of
        Some t \<Rightarrow> withPeer peer t
      | None \<Rightarrow>
          (let (uk, url) = attrFirstOf sp [''url.full'', ''http.url''];
               (hk, host) = attrFirstOf sp [''server.address'', ''net.peer.name'', ''http.host''];
               ms = SpanAttr sp [''messaging.system''];
               (dk, dest) = attrFirstOf sp [''messaging.destination.name'', ''messaging.destination''] in
           if url \<noteq> [] then withPeer peer (mkTarget ''url'' url uk)
           else if host \<noteq> [] then withPeer peer (serverTarget sp hk host)
           else if peer \<noteq> [] then mkTarget ''peer.service'' peer ''peer.service''
           else if ms \<noteq> [] then
             (if dest \<noteq> [] then mkTarget ''messaging'' (ms @ ''/'' @ dest) (''messaging.system+'' @ dk)
              else mkTarget ''messaging'' ms ''messaging.system'')
           else mkTarget [] [] []))"

section \<open>The critical path\<close>

record PathStep =
  psSpanID :: string
  psParentSpanID :: string
  psService :: string
  psName :: string
  psKind :: string
  psDepth :: nat
  psStartNs :: int
  psDurNs :: int
  psSelfNs :: int
  psSelfOnPathNs :: int
  psShare :: rat
  psError :: bool
  psHTTPCode :: int
  psTarget :: Target
  psHasChildren :: bool
  psChildService :: string

record CriticalPath =
  cpRootSpanID :: string
  cpRootWallNs :: int
  cpSteps :: "PathStep list"
  cpTop :: int
  cpOK :: bool

text \<open>The time of a step without its overlap with the next one.\<close>

definition onPathNs :: "SpanRow \<Rightarrow> SpanRow option \<Rightarrow> int" where
  "onPathNs s nxt =
     (let dur = spanDur s;
          on = (case nxt of
                  None \<Rightarrow> dur
                | Some n \<Rightarrow>
                    (let (a, b) = clipped s n in if a < b then dur - (b - a) else dur)) in
      if on < 0 then 0 else on)"

fun bestChildOf :: "SpanRow list \<Rightarrow> string \<Rightarrow> nat option \<Rightarrow> nat list \<Rightarrow> nat option" where
  "bestChildOf spans p best [] = best"
| "bestChildOf spans p best (i # is) =
     bestChildOf spans p
       (if srParentSpanID (spans ! i) = p \<and> p \<noteq> [] \<and> srSpanID (spans ! i) \<noteq> [] \<and> srSpanID (spans ! i) \<noteq> p \<and>
           byID spans (srSpanID (spans ! i)) = Some i \<and>
           (case best of None \<Rightarrow> True | Some b \<Rightarrow> spanDur (spans ! b) < spanDur (spans ! i))
        then Some i else best) is"

definition nodeByID :: "TraceAnalysis \<Rightarrow> string \<Rightarrow> TraceNode option" where
  "nodeByID an sid = find (\<lambda>n. tnSpanID n = sid) (rev (taNodes an))"

definition pathStep :: "(string \<Rightarrow> string) \<Rightarrow> SpanRow list \<Rightarrow> TraceAnalysis \<Rightarrow> string \<Rightarrow> string option \<Rightarrow> nat \<Rightarrow> PathStep" where
  "pathStep lower spans an sid nxt idx =
     (let s = spans ! idx;
          on = onPathNs s (case nxt of None \<Rightarrow> None | Some nid \<Rightarrow> map_option (\<lambda>j. spans ! j) (byID spans nid));
          kind = lower (TrimSpace (srKind s)); wall = taCriticalNs an;
          child = bestChildOf spans sid None [0..<length spans] in
      \<lparr>psSpanID = srSpanID s, psParentSpanID = srParentSpanID s, psService = srServiceName s, psName = srName s, psKind = kind,
       psDepth = (case nodeByID an sid of Some n \<Rightarrow> unat (tnDepth n) | None \<Rightarrow> 0),
       psStartNs = srStartTime s, psDurNs = spanDur s,
       psSelfNs = (case nodeByID an sid of Some n \<Rightarrow> tnSelfNs n | None \<Rightarrow> 0),
       psSelfOnPathNs = on, psShare = (if 0 < wall then Fract on wall else 0), psError = (srStatusCode s = ''error''),
       psHTTPCode = httpCodeOf s, psTarget = (if KindRank lower kind = 1 then TargetOf s else mkTarget [] [] []),
       psHasChildren = (child \<noteq> None), psChildService = (case child of Some c \<Rightarrow> srServiceName (spans ! c) | None \<Rightarrow> [])\<rparr>)"

fun pathSteps :: "(string \<Rightarrow> string) \<Rightarrow> SpanRow list \<Rightarrow> TraceAnalysis \<Rightarrow> string list \<Rightarrow> PathStep list" where
  "pathSteps lower spans an [] = []"
| "pathSteps lower spans an (sid # ids) =
     (case byID spans sid of
        None \<Rightarrow> pathSteps lower spans an ids
      | Some idx \<Rightarrow>
          pathStep lower spans an sid (case ids of [] \<Rightarrow> None | nid # _ \<Rightarrow> Some nid) idx # pathSteps lower spans an ids)"

definition topBefore :: "(string \<Rightarrow> string) \<Rightarrow> PathStep \<Rightarrow> PathStep \<Rightarrow> bool" where
  "topBefore lower a b =
     (if psSelfOnPathNs a \<noteq> psSelfOnPathNs b then psSelfOnPathNs b < psSelfOnPathNs a
      else if psError a \<noteq> psError b then psError a
      else if KindRank lower (psKind a) \<noteq> KindRank lower (psKind b) then KindRank lower (psKind b) < KindRank lower (psKind a)
      else psStartNs a < psStartNs b)"

fun topIndex :: "(string \<Rightarrow> string) \<Rightarrow> PathStep list \<Rightarrow> nat \<Rightarrow> nat list \<Rightarrow> nat" where
  "topIndex lower steps best [] = best"
| "topIndex lower steps best (i # is) =
     topIndex lower steps (if topBefore lower (steps ! i) (steps ! best) then i else best) is"

definition noPath :: "TraceAnalysis \<Rightarrow> CriticalPath" where
  "noPath an = \<lparr>cpRootSpanID = taRootSpanID an, cpRootWallNs = taCriticalNs an, cpSteps = [], cpTop = -1, cpOK = False\<rparr>"

definition CriticalPathFrom :: "(string \<Rightarrow> string) \<Rightarrow> SpanRow list \<Rightarrow> TraceAnalysis \<Rightarrow> CriticalPath" where
  "CriticalPathFrom lower spans an =
     (if spans = [] \<or> taCriticalIDs an = [] then noPath an
      else
        (let steps = pathSteps lower spans an (taCriticalIDs an) in
         if steps = [] then noPath an
         else (noPath an)\<lparr>cpSteps := steps, cpOK := True, cpTop := int (topIndex lower steps 0 [1..<length steps])\<rparr>))"

definition CriticalPathOf :: "(string \<Rightarrow> string) \<Rightarrow> SpanRow list \<Rightarrow> CriticalPath option" where
  "CriticalPathOf lower spans =
     (if spans = [] then Some \<lparr>cpRootSpanID = [], cpRootWallNs = 0, cpSteps = [], cpTop = -1, cpOK = False\<rparr>
      else map_option (CriticalPathFrom lower spans) (BuildTraceAnalysis spans False))"

definition TopStep :: "CriticalPath \<Rightarrow> PathStep option" where
  "TopStep c = (if \<not> cpOK c \<or> cpTop c < 0 \<or> int (length (cpSteps c)) \<le> cpTop c then None else Some (cpSteps c ! nat (cpTop c)))"

definition TopIsExternalWait :: "(string \<Rightarrow> string) \<Rightarrow> CriticalPath \<Rightarrow> bool" where
  "TopIsExternalWait lower c =
     (case TopStep c of None \<Rightarrow> False | Some t \<Rightarrow> KindRank lower (psKind t) = 1 \<and> \<not> psHasChildren t)"

text \<open>The steps that are shown: root, largest step and leaf always, the others by the time they spend alone.\<close>

fun keepMore :: "nat \<Rightarrow> nat list \<Rightarrow> nat list \<Rightarrow> nat list" where
  "keepMore limit keep [] = keep"
| "keepMore limit keep (i # is) = (if limit \<le> length keep then keep else keepMore limit (keep @ [i]) is)"

definition Shown :: "CriticalPath \<Rightarrow> nat \<Rightarrow> nat list" where
  "Shown c limit0 =
     (let n = length (cpSteps c); limit = (if limit0 < 3 then 3 else limit0) in
      if n \<le> limit then [0..<n]
      else
        (let keep = remdups ([0, n - 1] @ (if 0 \<le> cpTop c then [nat (cpTop c)] else []));
             rest = filter (\<lambda>i. i \<notin> set keep) [1..<n - 1] in
         sort (keepMore limit keep (sort_key (\<lambda>i. - psSelfOnPathNs (cpSteps c ! i)) rest))))"

section \<open>The failure chain\<close>

definition MaxHops :: nat where "MaxHops = 64"
definition OtherIDsMax :: nat where "OtherIDsMax = 2"

record Chain =
  cnHops :: "(nat \<times> nat) list"
  cnOtherLeaf :: nat
  cnOtherIDs :: "string list"
  cnOK :: bool

definition errCands :: "SpanRow list \<Rightarrow> TraceNode list \<Rightarrow> (nat \<times> nat) list" where
  "errCands spans nodes =
     List.map_filter (\<lambda>n. case byID spans (tnSpanID n) of
        None \<Rightarrow> None
      | Some i \<Rightarrow> if srStatusCode (spans ! i) = ''error'' then Some (i, unat (tnDepth n)) else None) nodes"

definition candKey :: "(string \<Rightarrow> string) \<Rightarrow> SpanRow list \<Rightarrow> nat \<times> nat \<Rightarrow> int \<times> int \<times> int" where
  "candKey lower spans x =
     (- int (snd x), - int (KindRank lower (srKind (spans ! fst x))), srStartTime (spans ! fst x))"

fun hopLoop :: "SpanRow list \<Rightarrow> (string \<Rightarrow> nat) \<Rightarrow> nat \<Rightarrow> string list \<Rightarrow> nat \<Rightarrow> (nat \<times> nat) list" where
  "hopLoop spans depth 0 seen cur = []"
| "hopLoop spans depth (Suc budget) seen cur =
     (let sp = spans ! cur; seen' = srSpanID sp # seen in
      (cur, depth (srSpanID sp)) #
      (case byID spans (srParentSpanID sp) of
         None \<Rightarrow> []
       | Some p \<Rightarrow> if srParentSpanID sp \<in> set seen' then [] else hopLoop spans depth budget seen' p))"

definition depthByID :: "TraceNode list \<Rightarrow> string \<Rightarrow> nat" where
  "depthByID nodes sid = (case find (\<lambda>n. tnSpanID n = sid) (rev nodes) of Some n \<Rightarrow> unat (tnDepth n) | None \<Rightarrow> 0)"

definition chainFor :: "(string \<Rightarrow> string) \<Rightarrow> SpanRow list \<Rightarrow> TraceAnalysis \<Rightarrow> Chain" where
  "chainFor lower spans an =
     (let nodes = taNodes an; errs = errCands spans nodes;
          leaves = errCands spans (filter (\<lambda>n. tnSubtreeErrors n = 1) nodes);
          pool = sort_key (candKey lower spans) (if leaves = [] then errs else leaves) in
      if pool = [] then \<lparr>cnHops = [], cnOtherLeaf = 0, cnOtherIDs = [], cnOK = False\<rparr>
      else
        (let others = (if leaves = [] then [] else tl pool) in
         \<lparr>cnHops = hopLoop spans (depthByID nodes) MaxHops [] (fst (hd pool)),
          cnOtherLeaf = length others, cnOtherIDs = map (\<lambda>x. srSpanID (spans ! fst x)) (take OtherIDsMax others), cnOK = True\<rparr>))"

definition chainOf :: "(string \<Rightarrow> string) \<Rightarrow> SpanRow list \<Rightarrow> Chain option" where
  "chainOf lower spans =
     (if spans = [] then Some \<lparr>cnHops = [], cnOtherLeaf = 0, cnOtherIDs = [], cnOK = False\<rparr>
      else map_option (chainFor lower spans) (BuildTraceAnalysis spans False))"

section \<open>Time on the path\<close>

lemma inTree_byID: "inTree spans i \<Longrightarrow> byID spans (srSpanID (spans ! i)) = Some i"
  by (simp add: inTree_def)

lemma chainFrom_inTree:
  assumes "chainFrom spans (i # path)" "inTree spans i"
  shows "\<forall>j \<in> set (i # path). inTree spans j"
  using assms by (induction path arbitrary: i) (auto simp: childrenOf_props)

lemma onPathNs_range: "0 \<le> onPathNs s nxt \<and> onPathNs s nxt \<le> spanDur s"
  by (auto simp: onPathNs_def Let_def spanDur_nonneg split: option.splits prod.splits)

lemma onPathNs_nested:
  assumes "srStartTime s \<le> srStartTime n" "spanEnd n \<le> spanEnd s"
  shows "onPathNs s (Some n) = spanDur s - spanDur n"
  using assms spanDur_nonneg [of n] by (auto simp: onPathNs_def clipped_def spanEnd_def Let_def)

fun pathOn :: "SpanRow list \<Rightarrow> nat list \<Rightarrow> int list" where
  "pathOn spans [] = []"
| "pathOn spans (i # path) = onPathNs (spans ! i) (case path of [] \<Rightarrow> None | c # _ \<Rightarrow> Some (spans ! c)) # pathOn spans path"

lemma pathSteps_chain:
  assumes "\<forall>j \<in> set path. inTree spans j"
  shows "map psSelfOnPathNs (pathSteps lower spans an (map (\<lambda>i. srSpanID (spans ! i)) path)) = pathOn spans path"
    and "map psStartNs (pathSteps lower spans an (map (\<lambda>i. srSpanID (spans ! i)) path)) = map (\<lambda>i. srStartTime (spans ! i)) path"
  using assms by (induction path) (auto simp: pathStep_def Let_def inTree_byID split: list.splits)

lemma chain_telescopes:
  assumes "chainFrom spans (i # path)" "sorted (map (\<lambda>i. srStartTime (spans ! i)) (i # path))"
  shows "sum_list (pathOn spans (i # path)) = spanDur (spans ! i)"
  using assms
proof (induction path arbitrary: i)
  case Nil
  then show ?case by (simp add: onPathNs_def Let_def not_less spanDur_nonneg)
next
  case (Cons c path)
  then show ?case using Cons.IH [of c] onPathNs_nested [of "spans ! i" "spans ! c"] by simp
qed

text \<open>The steps of a trace with roots follow the chain of the analysis.\<close>

lemma CriticalPathOf_chain:
  assumes "CriticalPathOf lower spans = Some cp" "cpOK cp"
  obtains an r path where "BuildTraceAnalysis spans False = Some an" "inTree spans r" "chainFrom spans (r # path)"
    "cpSteps cp = pathSteps lower spans an (map (\<lambda>i. srSpanID (spans ! i)) (r # path))"
    "cpRootWallNs cp = spanDur (spans ! r)" "taCriticalNs an = spanDur (spans ! r)"
    "cpTop cp = int (topIndex lower (cpSteps cp) 0 [1..<length (cpSteps cp)])"
proof -
  have ne: "spans \<noteq> []" using assms by (auto simp: CriticalPathOf_def)
  then obtain an where an: "BuildTraceAnalysis spans False = Some an" "cp = CriticalPathFrom lower spans an"
    using assms(1) by (auto simp: CriticalPathOf_def)
  have "taCriticalIDs an \<noteq> []" using an assms(2) by (auto simp: CriticalPathFrom_def noPath_def)
  then have "rootsOf spans \<noteq> []"
    by (intro notI) (rule BuildTraceAnalysis_parts [OF ne, of False], use an in \<open>auto simp: analysisOf_def\<close>)
  from critical_path_chain [OF an(1) this] obtain r path where r: "r \<in> set (rootsOf spans)"
    "taCriticalIDs an = map (\<lambda>i. srSpanID (spans ! i)) (r # path)" "taCriticalNs an = spanDur (spans ! r)" "chainFrom spans (r # path)" by blast
  show ?thesis
    by (rule that [OF an(1), of r path]) (use r an(2) assms(2) ne in \<open>auto simp: rootsOf_props CriticalPathFrom_def noPath_def Let_def split: if_splits\<close>)
qed

text \<open>
  C33. The times that the steps of the critical path spend alone add up to the duration of the root when no step
  starts before the one above it: nothing is counted twice and nothing is left out.
\<close>

theorem CriticalPathOf_telescopes:
  assumes "CriticalPathOf lower spans = Some cp" "cpOK cp" and "sorted (map psStartNs (cpSteps cp))"
  shows "sum_list (map psSelfOnPathNs (cpSteps cp)) = cpRootWallNs cp"
proof -
  obtain an r path where c: "inTree spans r" "chainFrom spans (r # path)"
    "cpSteps cp = pathSteps lower spans an (map (\<lambda>i. srSpanID (spans ! i)) (r # path))" "cpRootWallNs cp = spanDur (spans ! r)"
    using CriticalPathOf_chain [OF assms(1,2)] by metis
  note steps = pathSteps_chain [OF chainFrom_inTree [OF c(2,1)], of lower an, folded c(3)]
  show ?thesis using chain_telescopes [OF c(2)] steps assms(3) c(4) by simp
qed

definition pairTrace :: "SpanRow list" where
  "pairTrace = [sampleRow ''a'' [] ''web'' 0 100, sampleRow ''b'' ''a'' ''db'' 10 40]"

theorem CriticalPathOf_telescopes_witness:
  "sum_list (map psSelfOnPathNs (cpSteps (the (CriticalPathOf ToLower pairTrace)))) = cpRootWallNs (the (CriticalPathOf ToLower pairTrace))"
proof (rule CriticalPathOf_telescopes)
  let ?cp = "the (CriticalPathOf ToLower pairTrace)"
  obtain an where "BuildTraceAnalysis pairTrace False = Some an" using BuildTraceAnalysis_total by blast
  moreover have "pairTrace \<noteq> []" by (simp add: pairTrace_def)
  ultimately show "CriticalPathOf ToLower pairTrace = Some ?cp" by (simp add: CriticalPathOf_def)
  show "cpOK ?cp" by code_simp
  show "sorted (map psStartNs (cpSteps ?cp))" by code_simp
qed

text \<open>
  A step that starts before the one above it (clock skew) is counted with the time before, so its share of the root
  can exceed one, contrary to the comment on \<open>Share\<close>.
\<close>

lemma share_exceeds_one:
  "map psShare (cpSteps (the (CriticalPathOf ToLower [sampleRow ''a'' [] ''web'' 10 20, sampleRow ''b'' ''a'' ''db'' 0 15]))) = [1 / 2, 3 / 2]"
  by code_simp

section \<open>The largest step\<close>

lemma topBefore_irrefl: "\<not> topBefore lower a a"
  by (simp add: topBefore_def)

lemma topBefore_asym: "topBefore lower a b \<Longrightarrow> \<not> topBefore lower b a"
  by (auto simp: topBefore_def split: if_splits)

lemma topBefore_negtrans: "\<not> topBefore lower a b \<Longrightarrow> \<not> topBefore lower b c \<Longrightarrow> \<not> topBefore lower a c"
  by (auto simp: topBefore_def split: if_splits)

lemma topIndex_max:
  assumes "best < length steps" "\<forall>i \<in> set is. i < length steps"
  shows "topIndex lower steps best is < length steps \<and>
         (\<forall>j \<in> insert best (set is). \<not> topBefore lower (steps ! j) (steps ! topIndex lower steps best is))"
  using assms
proof (induction "is" arbitrary: best)
  case Nil
  then show ?case by (simp add: topBefore_irrefl)
next
  case (Cons i js)
  let ?b = "if topBefore lower (steps ! i) (steps ! best) then i else best"
  let ?t = "steps ! topIndex lower steps ?b js"
  have ih: "topIndex lower steps ?b js < length steps" "\<not> topBefore lower (steps ! ?b) ?t"
    "\<forall>j \<in> set js. \<not> topBefore lower (steps ! j) ?t"
    using Cons.IH [of ?b] Cons.prems by (auto split: if_splits)
  have "\<not> topBefore lower (steps ! i) (steps ! ?b)" "\<not> topBefore lower (steps ! best) (steps ! ?b)"
    by (simp_all add: topBefore_irrefl topBefore_asym)
  from this [THEN topBefore_negtrans, OF ih(2)] show ?case using ih by simp
qed

text \<open>
  A critical path that was found names a largest step: one of its steps, and none spends more time alone; among
  those with as much time a failed step comes first, then one that calls out, then the earliest.
\<close>

theorem CriticalPathOf_top:
  assumes "CriticalPathOf lower spans = Some cp" "cpOK cp"
  shows "\<exists>t. TopStep cp = Some t \<and> t \<in> set (cpSteps cp) \<and>
           (\<forall>s \<in> set (cpSteps cp). psSelfOnPathNs s \<le> psSelfOnPathNs t \<and> \<not> topBefore lower s t)"
proof -
  obtain an r path where c: "inTree spans r"
    "cpSteps cp = pathSteps lower spans an (map (\<lambda>i. srSpanID (spans ! i)) (r # path))"
    "cpTop cp = int (topIndex lower (cpSteps cp) 0 [1..<length (cpSteps cp)])"
    using CriticalPathOf_chain [OF assms] by metis
  let ?n = "length (cpSteps cp)" and ?k = "topIndex lower (cpSteps cp) 0 [1..<length (cpSteps cp)]"
  have n: "0 < ?n" using c(1,2) by (simp add: inTree_byID)
  then have k: "?k < ?n" "\<forall>j < ?n. \<not> topBefore lower (cpSteps cp ! j) (cpSteps cp ! ?k)"
    using topIndex_max [of 0 "cpSteps cp" "[1..<?n]" lower] by (auto simp: Suc_le_eq neq0_conv [symmetric] simp del: neq0_conv)
  then have "TopStep cp = Some (cpSteps cp ! ?k)" using assms(2) c(3) by (simp add: TopStep_def)
  moreover have "psSelfOnPathNs (cpSteps cp ! j) \<le> psSelfOnPathNs (cpSteps cp ! ?k)" if "j < ?n" for j
    using k(2) that by (auto simp: topBefore_def split: if_splits)
  ultimately show ?thesis using k by (auto simp: in_set_conv_nth)
qed

theorem CriticalPathOf_top_witness:
  "\<exists>t. TopStep (the (CriticalPathOf ToLower pairTrace)) = Some t \<and> t \<in> set (cpSteps (the (CriticalPathOf ToLower pairTrace))) \<and>
     (\<forall>s \<in> set (cpSteps (the (CriticalPathOf ToLower pairTrace))). psSelfOnPathNs s \<le> psSelfOnPathNs t \<and> \<not> topBefore ToLower s t)"
proof (rule CriticalPathOf_top)
  obtain an where "BuildTraceAnalysis pairTrace False = Some an" using BuildTraceAnalysis_total by blast
  then show "CriticalPathOf ToLower pairTrace = Some (the (CriticalPathOf ToLower pairTrace))" by (simp add: CriticalPathOf_def)
  show "cpOK (the (CriticalPathOf ToLower pairTrace))" by code_simp
qed

section \<open>The steps shown\<close>

lemma keepMore_take: "length keep \<le> limit \<Longrightarrow> keepMore limit keep xs = keep @ take (limit - length keep) xs"
  by (induction xs arbitrary: keep) (auto simp: Suc_diff_Suc [symmetric] not_le)

lemma sort_key_take_drop:
  assumes "a \<in> set (take k (sort_key f xs))" "b \<in> set xs" "b \<notin> set (take k (sort_key f xs))"
  shows "(f a :: int) \<le> f b"
proof -
  have "b \<in> set (drop k (sort_key f xs))"
    using assms(2,3) set_append [of "take k (sort_key f xs)" "drop k (sort_key f xs)"] by auto
  moreover have "sorted (map f (take k (sort_key f xs) @ drop k (sort_key f xs)))" by simp
  ultimately show ?thesis using assms(1) unfolding map_append sorted_append by auto
qed

text \<open>
  A path cut to a limit (never below three) keeps its order and shows no step twice; the root, the leaf and the
  largest step stay, and every other step that stays spends at least as much time alone as each one that is cut.
\<close>

theorem Shown_covers:
  assumes "cpSteps c \<noteq> []" "0 \<le> cpTop c" "cpTop c < int (length (cpSteps c))"
  shows "sorted (Shown c limit) \<and> distinct (Shown c limit) \<and> length (Shown c limit) = min (length (cpSteps c)) (max 3 limit) \<and>
         {0, length (cpSteps c) - 1, nat (cpTop c)} \<subseteq> set (Shown c limit) \<and> set (Shown c limit) \<subseteq> {0..<length (cpSteps c)} \<and>
         (\<forall>a \<in> set (Shown c limit) - {0, length (cpSteps c) - 1, nat (cpTop c)}. \<forall>b \<in> {0..<length (cpSteps c)} - set (Shown c limit).
            psSelfOnPathNs (cpSteps c ! b) \<le> psSelfOnPathNs (cpSteps c ! a))"
proof (cases "length (cpSteps c) \<le> max 3 limit")
  case True
  then have "Shown c limit = [0..<length (cpSteps c)]" by (auto simp: Shown_def Let_def max_def split: if_splits)
  then show ?thesis using assms True by (auto simp: min_def)
next
  case False
  define n where "n = length (cpSteps c)"
  define lim where "lim = max 3 limit"
  define keep where "keep = remdups [0, n - 1, nat (cpTop c)]"
  define f where "f = (\<lambda>i. - psSelfOnPathNs (cpSteps c ! i))"
  define rest where "rest = filter (\<lambda>i. i \<notin> set keep) [1..<n - 1]"
  define more where "more = take (lim - length keep) (sort_key f rest)"
  have n: "lim < n" "3 \<le> lim" using False by (auto simp: n_def lim_def)
  have keep: "length keep \<le> 3" "distinct keep" "set keep = {0, n - 1, nat (cpTop c)}" "set keep \<subseteq> {0..<n}"
    using n assms by (auto simp: keep_def n_def)
  have lim: "lim = (if limit < 3 then 3 else limit)" by (simp add: lim_def max_def)
  have "length keep \<le> lim" using keep(1) n(2) by linarith
  note kept = keepMore_take [OF this, of "sort_key f rest"]
  have cut: "(length (cpSteps c) \<le> (if limit < 3 then 3 else limit)) = False" "(0 \<le> cpTop c) = True"
    using n(1) assms(2) lim by (simp_all add: n_def)
  have "Shown c limit = sort (keepMore lim keep (sort_key f rest))"
    unfolding Shown_def Let_def cut by (simp only: if_True if_False append.simps lim keep_def rest_def f_def n_def)
  then have shown: "Shown c limit = sort (keep @ more)" using kept by (simp add: more_def)
  have rest: "set rest = {0..<n} - set keep" "distinct rest" using keep(3) by (auto simp: rest_def)
  have "length rest + length keep = n"
    using rest keep(2,4) by (metis card_Diff_subset card_atLeastLessThan card_mono diff_zero distinct_card finite_atLeastLessThan finite_set le_add_diff_inverse2)
  then have len: "length (keep @ more) = lim" using n keep(1) by (simp add: more_def)
  have sub: "set more \<subseteq> set rest" using set_take_subset [of "lim - length keep" "sort_key f rest"] by (simp add: more_def)
  have dist: "distinct (keep @ more)" using rest sub keep(2) by (auto simp: more_def)
  have "f a \<le> f b" if "a \<in> set more" "b \<in> {0..<n} - set (keep @ more)" for a b
    using that rest(1) unfolding more_def by (intro sort_key_take_drop [of a _ f rest b]) auto
  then show ?thesis
    using shown len dist keep(3,4) sub rest(1) n unfolding n_def [symmetric] lim_def [symmetric] by (auto simp: f_def min_def)
qed

theorem Shown_covers_witness:
  "\<exists>c. length (cpSteps c) = 5 \<and> Shown c 4 = [0, 2, 3, 4]"
proof -
  define st where "st = (\<lambda>t. \<lparr>psSpanID = [], psParentSpanID = [], psService = [], psName = [], psKind = [], psDepth = 0, psStartNs = 0, psDurNs = 0,
    psSelfNs = 0, psSelfOnPathNs = t, psShare = 0, psError = False, psHTTPCode = 0, psTarget = mkTarget [] [] [], psHasChildren = False, psChildService = []\<rparr>)"
  define c where "c = \<lparr>cpRootSpanID = [], cpRootWallNs = 40, cpSteps = map st [1, 2, 30, 4, 3], cpTop = 2, cpOK = True\<rparr>"
  have c: "length (cpSteps c) = 5" "cpTop c = 2" "psSelfOnPathNs (cpSteps c ! 1) = 2" "psSelfOnPathNs (cpSteps c ! 3) = 4"
    by (simp_all add: c_def st_def)
  have "cpSteps c \<noteq> []" using c(1) by auto
  then have sh: "sorted (Shown c 4)" "distinct (Shown c 4)" "length (Shown c 4) = 4" "{0, 4, 2} \<subseteq> set (Shown c 4)"
    "set (Shown c 4) \<subseteq> {0..<5}"
    "\<forall>a \<in> set (Shown c 4) - {0, 4, 2}. \<forall>b \<in> {0..<5} - set (Shown c 4). psSelfOnPathNs (cpSteps c ! b) \<le> psSelfOnPathNs (cpSteps c ! a)"
    using Shown_covers [of c 4] c(1,2) by simp_all
  have "\<not> (1 \<in> set (Shown c 4) \<and> 3 \<notin> set (Shown c 4))"
    using bspec [OF sh(6), of 1] c(3,4) by force
  moreover have card: "card (set (Shown c 4)) = 4" using sh(2,3) by (simp add: distinct_card)
  moreover have "set (Shown c 4) = {0, 2, 4} \<union> (set (Shown c 4) \<inter> {1, 3})"
  proof -
    have "x \<in> {0, 2, 4, 1, 3}" if "x < 5" for x :: nat using that by auto
    then show ?thesis using sh(4,5) by force
  qed
  ultimately have "set (Shown c 4) = {0, 2, 3, 4}"
    by (cases "1 \<in> set (Shown c 4)"; cases "3 \<in> set (Shown c 4)") (auto simp: Int_insert_right insert_commute card_insert_if)
  then have "Shown c 4 = sorted_list_of_set {0, 2, 3, 4}" using sh(1,2) by (metis sorted_list_of_set.idem_if_sorted_distinct)
  also have "\<dots> = [0, 2, 3, 4]" by code_simp
  finally show ?thesis using c(1) by blast
qed

section \<open>The origin of a failure\<close>

text \<open>A failed span with no other failed span below it.\<close>

definition failLeaf :: "SpanRow list \<Rightarrow> nat \<Rightarrow> bool" where
  "failLeaf spans i \<longleftrightarrow> hangs spans i \<and> failed spans i \<and> (\<forall>j. below spans i j \<longrightarrow> failed spans j \<longrightarrow> j = i)"

lemma hangs_inTree: "hangs spans i \<Longrightarrow> inTree spans i"
  by (induction rule: hangs.induct) (auto simp: rootsOf_props childrenOf_props)

lemma hangs_below: "below spans i j \<Longrightarrow> hangs spans i \<Longrightarrow> hangs spans j"
  by (induction rule: rtranclp_induct) (auto intro: hangs.child)

lemma hangs_parent: "hangs spans i \<Longrightarrow> parentOf spans i = Some p \<Longrightarrow> hangs spans p \<and> i \<in> set (childrenOf spans p)"
  by (erule hangs.cases) (auto simp: rootsOf_props childrenOf_props)

lemma failLeaf_exists:
  assumes "childrenLater spans order" "i \<in> set order" "set order = {i. hangs spans i}"
  shows "(\<exists>j. below spans i j \<and> failed spans j) \<longrightarrow> (\<exists>l. below spans i l \<and> failLeaf spans l)"
  using assms(1,2)
proof (induction rule: childrenLater_induct)
  case (node i)
  show ?case
  proof (cases "\<exists>c \<in> set (childrenOf spans i). \<exists>j. below spans c j \<and> failed spans j")
    case True
    then show ?thesis using node(2) by (meson converse_rtranclp_into_rtranclp)
  next
    case False
    have "j = i" if "below spans i j" "failed spans j" for j
      using that False by (metis converse_rtranclpE)
    then show ?thesis using node(1) assms(3) by (auto simp: failLeaf_def)
  qed
qed

lemma failLeaf_card:
  "failed spans i \<Longrightarrow> card {j. below spans i j \<and> failed spans j} = 1 \<longleftrightarrow> (\<forall>j. below spans i j \<longrightarrow> failed spans j \<longrightarrow> j = i)"
  by (auto simp: card_1_singleton_iff) (metis (mono_tags, lifting) mem_Collect_eq rtranclp.rtrancl_refl singletonD)+

lemma errCands_rows:
  assumes "\<forall>f \<in> set frames. hangs spans (fst f)"
  shows "errCands spans (filter (\<lambda>n. Q (tnSubtreeErrors n)) (taNodes (analysisOf spans t frames m critical))) =
         map (\<lambda>f. (fst f, unat (snd f))) (filter (\<lambda>f. failed spans (fst f) \<and> Q (subErr (m (fst f)))) frames)"
proof -
  have row: "errCands spans (filter (\<lambda>n. Q (tnSubtreeErrors n)) (map2 (nodeRow spans m critical) ks fs)) =
      map (\<lambda>f. (fst f, unat (snd f))) (filter (\<lambda>f. failed spans (fst f) \<and> Q (subErr (m (fst f)))) fs)"
    if "length ks = length fs" "\<forall>f \<in> set fs. hangs spans (fst f)" for ks fs
    using that
  proof (induction ks fs rule: list_induct2)
    case (Cons k ks f fs)
    then show ?case
      using inTree_byID [OF hangs_inTree, of spans "fst f"] by (auto simp: errCands_def List.map_filter_simps nodeRow_def Let_def failed_def)
  qed (simp add: errCands_def List.map_filter_simps)
  show ?thesis using row [of "[0..<length frames]" frames] assms by (simp add: analysisOf_def)
qed

text \<open>Parents come before their children in the order of the analysis, so the way up from a span never meets it again.\<close>

lemma order_rank:
  assumes "childrenLater spans order" "p \<in> set order" "c \<in> set (childrenOf spans p)"
  shows "length (takeWhile (\<lambda>x. x \<noteq> p) order) < length (takeWhile (\<lambda>x. x \<noteq> c) order)"
proof -
  obtain xs ys where o: "order = xs @ p # ys" using assms(2) by (meson split_list)
  then have "c \<in> set ys" "distinct (xs @ p # ys)" using assms(1,3) unfolding childrenLater_def by (blast, blast)
  then have "\<forall>x \<in> set xs. x \<noteq> p \<and> x \<noteq> c" "p \<noteq> c" by auto
  then show ?thesis using o by (simp add: takeWhile_append2)
qed

fun upwards :: "SpanRow list \<Rightarrow> nat list \<Rightarrow> bool" where
  "upwards spans [] = False"
| "upwards spans [i] = True"
| "upwards spans (i # p # path) \<longleftrightarrow> parentOf spans i = Some p \<and> upwards spans (p # path)"

lemma hopLoop_up:
  assumes rank: "\<And>p c. hangs spans p \<Longrightarrow> c \<in> set (childrenOf spans p) \<Longrightarrow> rank p < (rank c :: nat)"
    and "hangs spans cur" "0 < budget"
    and "\<forall>s \<in> set seen. \<exists>x. hangs spans x \<and> s = srSpanID (spans ! x) \<and> rank cur < rank x"
  shows "length (hopLoop spans depth budget seen cur) \<le> budget \<and>
         (\<exists>path. map fst (hopLoop spans depth budget seen cur) = cur # path \<and> upwards spans (cur # path) \<and>
            (\<forall>x \<in> set path. rank x < rank cur) \<and> distinct (cur # path) \<and>
            (length (cur # path) < budget \<longrightarrow> parentOf spans (last (cur # path)) = None))"
  using assms(2-)
proof (induction budget arbitrary: cur seen)
  case (Suc budget)
  let ?id = "srSpanID (spans ! cur)" and ?par = "srParentSpanID (spans ! cur)"
  have own: "byID spans ?id = Some cur" using Suc.prems(1) by (simp add: hangs_inTree inTree_byID)
  show ?case
  proof (cases "parentOf spans cur")
    case None
    then have "byID spans ?par = None \<or> ?par \<in> set (?id # seen)"
      using own by (auto simp: parentOf_def byID_def find_Some_iff split: option.splits if_splits)
    then have "hopLoop spans depth (Suc budget) seen cur = [(cur, depth ?id)]" by (auto simp: Let_def split: option.splits)
    then show ?thesis using None by simp
  next
    case (Some p)
    then have p: "hangs spans p" "cur \<in> set (childrenOf spans p)" using hangs_parent Suc.prems(1) by blast+
    have bp: "byID spans ?par = Some p" using Some by (auto simp: parentOf_def split: option.splits if_splits)
    have rp: "rank p < rank cur" using rank p by blast
    have "x = p" if "hangs spans x" "?par = srSpanID (spans ! x)" for x
      using inTree_byID [OF hangs_inTree [OF that(1)]] that(2) bp by simp
    then have eq: "\<And>x. hangs spans x \<Longrightarrow> ?par = srSpanID (spans ! x) \<Longrightarrow> x = p" .
    have fresh: "?par \<notin> set (?id # seen)"
    proof
      assume "?par \<in> set (?id # seen)"
      then obtain x where "hangs spans x" "?par = srSpanID (spans ! x)" "rank p < rank x"
        using Suc.prems(1,3) rp by (auto intro: less_trans)
      then show False using eq by blast
    qed
    have seen: "\<forall>s \<in> set (?id # seen). \<exists>x. hangs spans x \<and> s = srSpanID (spans ! x) \<and> rank p < rank x"
      using Suc.prems(1,3) rp by (auto intro: less_trans)
    show ?thesis
    proof (cases "budget = 0")
      case True
      then show ?thesis using bp by (simp add: Let_def)
    next
      case False
      from Suc.IH [OF p(1) _ seen] False obtain path where
        "length (hopLoop spans depth budget (?id # seen) p) \<le> budget" "map fst (hopLoop spans depth budget (?id # seen) p) = p # path"
        "upwards spans (p # path)" "\<forall>x \<in> set path. rank x < rank p" "distinct (p # path)"
        "length (p # path) < budget \<longrightarrow> parentOf spans (last (p # path)) = None" by auto
      then show ?thesis using bp fresh Some rp by (intro conjI exI [of _ "p # path"]) (auto simp: Let_def)
    qed
  qed
qed simp

lemma hopLoop_path:
  assumes "childrenLater spans order" "set order = {i. hangs spans i}" "hangs spans cur"
  obtains path where "map fst (hopLoop spans depth MaxHops [] cur) = cur # path" "upwards spans (cur # path)" "distinct (cur # path)"
    "length (cur # path) \<le> 64" "length (cur # path) < 64 \<longrightarrow> parentOf spans (last (cur # path)) = None"
proof -
  define rank where "rank = (\<lambda>x. length (takeWhile (\<lambda>y. y \<noteq> x) order))"
  have "rank p < rank c" if "hangs spans p" "c \<in> set (childrenOf spans p)" for p c
    unfolding rank_def using order_rank [OF assms(1) _ that(2)] assms(2) that(1) by blast
  from hopLoop_up [of spans rank, OF this assms(3), of MaxHops "[]" depth] obtain path where
    p: "length (hopLoop spans depth MaxHops [] cur) \<le> MaxHops" "map fst (hopLoop spans depth MaxHops [] cur) = cur # path"
    "upwards spans (cur # path)" "distinct (cur # path)"
    "length (cur # path) < MaxHops \<longrightarrow> parentOf spans (last (cur # path)) = None" by (auto simp: MaxHops_def)
  have "length (cur # path) \<le> MaxHops" using p(1,2) by (metis length_map)
  then show thesis using p by (intro that [of path]) (simp_all add: MaxHops_def)
qed

lemma fail_leaves:
  fixes t :: bool and critical :: "nat list"
  assumes f: "dfs spans (map (\<lambda>r. (r, 0)) (rootsOf spans)) = Some frames" "distinct (map fst frames)"
    and m: "m = accumulate spans (map fst frames)"
  defines "leaves \<equiv> errCands spans (filter (\<lambda>n. tnSubtreeErrors n = 1) (taNodes (analysisOf spans t frames m critical)))"
  shows "fst ` set leaves = {l. failLeaf spans l}" "distinct (map fst leaves)"
proof -
  let ?leaf = "\<lambda>f. failed spans (fst f) \<and> subErr (m (fst f)) = 1"
  have set: "set (map fst frames) = {i. hangs spans i}" using dfs_set [OF f(1)] by simp
  have leaves: "leaves = map (\<lambda>f. (fst f, unat (snd f))) (filter ?leaf frames)"
    unfolding leaves_def using set by (intro errCands_rows) auto
  have leaf: "?leaf f \<longleftrightarrow> failLeaf spans (fst f)" if mem: "f \<in> set frames" for f
  proof -
    obtain xs ys where "frames = xs @ f # ys" using mem by (meson split_list)
    moreover have "hangs spans (fst f)" using set mem by auto
    ultimately show ?thesis
      using subtree_counts [OF f(1,2), of xs f ys] failLeaf_card [of spans "fst f"] m by (auto simp: failLeaf_def)
  qed
  have "filter ?leaf frames = filter (\<lambda>f. failLeaf spans (fst f)) frames" using leaf by (rule filter_cong [OF refl])
  then have "fst ` set leaves = {l \<in> set (map fst frames). failLeaf spans l}" by (auto simp: leaves image_image)
  then show "fst ` set leaves = {l. failLeaf spans l}" using set by (auto simp: failLeaf_def)
  show "distinct (map fst leaves)" using f(2) by (simp add: leaves distinct_map_filter o_def)
qed

text \<open>
  C28. A trace in which a span under some root failed has a failure chain. It starts at the origin: a failed span
  with no failed span below it; the other such spans are counted. From there it goes from parent to parent, visits
  no span twice, has at most 64 hops and, unless it was cut there, ends at a root.
\<close>

theorem chainOf_origin:
  assumes "chainOf lower spans = Some ch" "hangs spans i" "failed spans i"
  shows "cnOK ch \<and> cnOtherLeaf ch + 1 = card {l. failLeaf spans l} \<and>
         (\<exists>origin path. map fst (cnHops ch) = origin # path \<and> failLeaf spans origin \<and> upwards spans (origin # path) \<and>
            distinct (origin # path) \<and> length (origin # path) \<le> 64 \<and>
            (length (origin # path) < 64 \<longrightarrow> parentOf spans (last (origin # path)) = None))"
proof -
  have "\<exists>r. r \<in> set (rootsOf spans)" using assms(2) by (induction rule: hangs.induct) auto
  then have ne: "spans \<noteq> []" by (auto simp: rootsOf_def)
  obtain frames critical where f: "dfs spans (map (\<lambda>r. (r, 0)) (rootsOf spans)) = Some frames" "distinct (map fst frames)"
    "BuildTraceAnalysis spans False = Some (analysisOf spans False frames (accumulate spans (map fst frames)) critical)"
    using BuildTraceAnalysis_parts [OF ne, of False] by metis
  let ?m = "accumulate spans (map fst frames)" and ?order = "map fst frames"
  let ?an = "analysisOf spans False frames ?m critical"
  let ?leaves = "errCands spans (filter (\<lambda>n. tnSubtreeErrors n = 1) (taNodes ?an))"
  have set: "set ?order = {i. hangs spans i}" and cl: "childrenLater spans ?order"
    using dfs_set [OF f(1)] dfs_childrenLater [OF f(1,2)] by simp_all
  note leaves = fail_leaves [OF f(1,2) refl, of False critical]
  have "\<exists>l. failLeaf spans l" using failLeaf_exists [OF cl _ set, of i] assms(2,3) set by auto
  then have nl: "?leaves \<noteq> []" using leaves(1) by (metis Collect_empty_eq image_empty list.set(1))
  let ?pool = "sort_key (candKey lower spans) ?leaves"
  have ch: "ch = chainFor lower spans ?an" using assms(1) f(3) ne by (simp add: chainOf_def)
  have "set ?pool = set ?leaves" by (rule set_sort)
  then have pool: "?pool \<noteq> []" "hd ?pool \<in> set ?leaves" using nl hd_in_set [of ?pool] by (metis set_empty2, metis set_empty2)
  then have origin: "failLeaf spans (fst (hd ?pool))" using leaves(1) by blast
  have hops: "cnHops ch = hopLoop spans (depthByID (taNodes ?an)) MaxHops [] (fst (hd ?pool))" "cnOK ch" "cnOtherLeaf ch = length ?leaves - 1"
    using pool(1) nl unfolding ch chainFor_def Let_def by simp_all
  have count: "cnOtherLeaf ch + 1 = card {l. failLeaf spans l}"
    using distinct_card [OF leaves(2)] leaves(1) hops(3) nl by (cases ?leaves) auto
  have "hangs spans (fst (hd ?pool))" using origin by (simp add: failLeaf_def)
  from hopLoop_path [OF cl set this, of "depthByID (taNodes ?an)", folded hops(1)] obtain path where
    path: "map fst (cnHops ch) = fst (hd ?pool) # path" "upwards spans (fst (hd ?pool) # path)" "distinct (fst (hd ?pool) # path)"
    "length (fst (hd ?pool) # path) \<le> 64" "length (fst (hd ?pool) # path) < 64 \<longrightarrow> parentOf spans (last (fst (hd ?pool) # path)) = None" .
  show ?thesis by (intro conjI exI [of _ "fst (hd ?pool)"] exI [of _ path]) (fact hops(2) count origin path)+
qed

theorem chainOf_origin_witness:
  "\<exists>spans ch origin path. chainOf ToLower spans = Some ch \<and> length spans = 2 \<and> cnOK ch \<and>
     map fst (cnHops ch) = origin # path \<and> failLeaf spans origin \<and> upwards spans (origin # path)"
proof -
  define spans where "spans = map (\<lambda>s. s\<lparr>srStatusCode := ''error''\<rparr>) pairTrace"
  have len: "length spans = 2" by (simp add: spans_def pairTrace_def)
  obtain an where "BuildTraceAnalysis spans False = Some an" using BuildTraceAnalysis_total by blast
  moreover have "spans \<noteq> []" using len by auto
  ultimately obtain ch where ch: "chainOf ToLower spans = Some ch" by (simp add: chainOf_def)
  have "rootsOf spans = [0]" unfolding spans_def by code_simp
  then have "hangs spans 0" by (intro hangs.root) simp
  moreover have "failed spans 0" by (simp add: failed_def spans_def pairTrace_def)
  ultimately have "cnOK ch \<and> (\<exists>origin path. map fst (cnHops ch) = origin # path \<and> failLeaf spans origin \<and> upwards spans (origin # path))"
    using chainOf_origin [OF ch, of 0] by metis
  then show ?thesis using ch len by metis
qed

end
