(* ===== verification/AlertEval.thy ===== *)
theory AlertEval
  imports Notify GoInt Complex_Main
begin

text \<open>
  The alert evaluator (\<open>internal/evaluator\<close>): the stamps of the sustain clock and of the cooldown with their mirror in
  Redis (\<open>stamps.go\<close>), one evaluation of a rule for a service (\<open>evaluateOne\<close> of \<open>evaluator.go\<close>) and of a counted rule
  (\<open>settleCountAlert\<close> of \<open>watcher_eval.go\<close>), and the snapshot of open problems they read (\<open>chstore/problem.go\<close>). Instants
  and durations are nanoseconds; the clock stands still during one evaluation. A value is a rational or, for NaN,
  \<open>None\<close>. What the store and Redis answer, fresh identifiers and texts are arguments; opened and resolved problems are
  outputs. Ticks are serial on the leader, so each operation on the maps is atomic.
\<close>

section \<open>Rules and problems\<close>

record AlertRule =
  arID :: string
  arName :: string
  arService :: string
  arMetric :: string
  arComparator :: string
  arThreshold :: rat
  arSeverity :: string
  arEnabled :: bool
  arForSec :: "32 word"
  arMinSamples :: "32 word"
  arCooldownSec :: "32 word"

record StoredProblem = Problem +
  spRuleName :: string
  spValue :: "rat option"
  spComparator :: string
  spThreshold :: rat
  spDescription :: string
  spAssignee :: string
  spResolvedAt :: "int option"
  spUpdatedAt :: int

record ruleMeasurement =
  rmValue :: "rat option"
  rmEvaluate :: bool
  rmBelowFloor :: bool

definition compare :: "rat option \<Rightarrow> string \<Rightarrow> rat \<Rightarrow> bool" where
  "compare v op threshold =
     (case v of
        None \<Rightarrow> False
      | Some x \<Rightarrow>
          if op = ''>'' then threshold < x
          else if op = ''>='' then threshold \<le> x
          else if op = ''<'' then x < threshold
          else if op = ''<='' then x \<le> threshold
          else False)"

definition secondsOf :: "32 word \<Rightarrow> int" where "secondsOf w = int (unat w) * 10 ^ 9"

definition evaluableRules :: "AlertRule list \<Rightarrow> AlertRule list" where
  "evaluableRules rules = filter arEnabled rules"

definition ruleEvalTargets :: "AlertRule \<Rightarrow> string list \<Rightarrow> string list" where
  "ruleEvalTargets r serviceNames = (if arService r \<noteq> [] then [arService r] else serviceNames)"

definition ruleNeedsFreshTargets :: "AlertRule \<Rightarrow> bool" where
  "ruleNeedsFreshTargets r \<longleftrightarrow> arMetric r = ''request_rate'' \<and> (arComparator r = ''<'' \<or> arComparator r = ''<='')"

definition filterFreshTargets :: "string list \<Rightarrow> string list option \<Rightarrow> string list" where
  "filterFreshTargets targets fresh = (case fresh of None \<Rightarrow> targets | Some fs \<Rightarrow> filter (\<lambda>t. t \<in> set fs) targets)"

definition metricNeedsSampleFloor :: "string \<Rightarrow> bool" where
  "metricNeedsSampleFloor metric =
     (if metric = ''request_rate'' \<or> metric = ''error_count'' then False
      else HasSuffix metric ''_rate'' \<or> HasSuffix metric ''_ms'' \<or>
           metric \<in> {''error_rate'', ''avg_ms'', ''p50_ms'', ''p95_ms'', ''p99_ms''})"

section \<open>Open problems\<close>

definition isOpenRow :: "StoredProblem \<Rightarrow> bool" where
  "isOpenRow p \<longleftrightarrow> prStatus p = ''open'' \<or> prStatus p = ''acknowledged''"

definition OpenProblemKey :: "string \<Rightarrow> string \<Rightarrow> string" where
  "OpenProblemKey ruleID service = ruleID @ ''|'' @ service"

text \<open>The map from keys to rows, built over the rows in the order in which the query returns them.\<close>

definition reduceLatestProblem :: "StoredProblem \<Rightarrow> (string \<rightharpoonup> StoredProblem) \<Rightarrow> (string \<rightharpoonup> StoredProblem)" where
  "reduceLatestProblem p m =
     (let k = OpenProblemKey (prRuleID p) (prService p) in
      case m k of
        Some cur \<Rightarrow> if prStartedAt p \<le> prStartedAt cur then m else m(k \<mapsto> p)
      | None \<Rightarrow> m(k \<mapsto> p))"

definition openProblemsSnapshot :: "StoredProblem list \<Rightarrow> StoredProblem list" where
  "openProblemsSnapshot tbl = take 50000 (filter isOpenRow tbl)"

definition ByKey :: "StoredProblem list \<Rightarrow> string \<Rightarrow> string \<Rightarrow> StoredProblem option" where
  "ByKey snap ruleID service = fold reduceLatestProblem snap Map.empty (OpenProblemKey ruleID service)"

text \<open>The point query: the open row of the rule and the service that started last, the first such row on a tie.\<close>

fun latestOf :: "StoredProblem option \<Rightarrow> StoredProblem list \<Rightarrow> StoredProblem option" where
  "latestOf best [] = best"
| "latestOf best (p # ps) =
     latestOf (case best of
                 None \<Rightarrow> Some p
               | Some cur \<Rightarrow> if prStartedAt p \<le> prStartedAt cur then best else Some p) ps"

definition FindOpenProblem :: "StoredProblem list \<Rightarrow> string \<Rightarrow> string \<Rightarrow> StoredProblem option" where
  "FindOpenProblem tbl ruleID service =
     latestOf None (filter (\<lambda>p. isOpenRow p \<and> prRuleID p = ruleID \<and> prService p = service) tbl)"

text \<open>The table keeps the last version of each row; a write sets \<open>updated_at\<close>.\<close>

definition UpsertProblem :: "int \<Rightarrow> StoredProblem \<Rightarrow> StoredProblem list \<Rightarrow> StoredProblem list" where
  "UpsertProblem now p tbl = p\<lparr>spUpdatedAt := now\<rparr> # filter (\<lambda>q. prID q \<noteq> prID p) tbl"

definition MarkResolved :: "StoredProblem \<Rightarrow> int \<Rightarrow> StoredProblem" where
  "MarkResolved p resolvedAtNs = p\<lparr>prStatus := ''resolved'', spResolvedAt := Some resolvedAtNs\<rparr>"

section \<open>Stamps\<close>

type_synonym breachKey = "string \<times> string"
type_synonym mirror = "string \<rightharpoonup> string \<times> int"

datatype stampKind = stampKindBreach | stampKindResolved

definition kindText :: "stampKind \<Rightarrow> string" where
  "kindText k = (case k of stampKindBreach \<Rightarrow> ''breach'' | stampKindResolved \<Rightarrow> ''resolved'')"

definition stampMinTTL :: int where "stampMinTTL = 10 * 60 * 10 ^ 9"

definition stampKey :: "stampKind \<Rightarrow> breachKey \<Rightarrow> string" where
  "stampKey kind k =
     ''coremetry:eval:'' @ kindText kind @ '':'' @ itoa (int (length (fst k))) @ '':'' @ fst k @ '':'' @ snd k"

text \<open>The product is computed in 64 bits.\<close>

definition stampTTL :: "32 word \<Rightarrow> int" where
  "stampTTL windowSec = (let ttl = wrap64 (2 * secondsOf windowSec) in if ttl < stampMinTTL then stampMinTTL else ttl)"

text \<open>\<open>ioCache\<close>: a cache is wired; \<open>ioOK\<close>: the operations on a key succeed.\<close>

record stampIO =
  ioCache :: bool
  ioOK :: "string \<Rightarrow> bool"

definition mirrorGet :: "mirror \<Rightarrow> int \<Rightarrow> string \<Rightarrow> string option" where
  "mirrorGet m now key = (case m key of Some (b, expires) \<Rightarrow> if now < expires then Some b else None | None \<Rightarrow> None)"

definition stampGet :: "stampIO \<Rightarrow> mirror \<Rightarrow> int \<Rightarrow> string \<Rightarrow> int option" where
  "stampGet io m now key =
     (if \<not> ioCache io \<or> \<not> ioOK io key then None
      else
        (case mirrorGet m now key of
           None \<Rightarrow> None
         | Some b \<Rightarrow>
             (case Atoi b of None \<Rightarrow> None | Some ns \<Rightarrow> if ns \<le> 0 then None else Some ns)))"

definition stampSet :: "stampIO \<Rightarrow> mirror \<Rightarrow> int \<Rightarrow> string \<Rightarrow> int \<Rightarrow> int \<Rightarrow> mirror" where
  "stampSet io m now key t ttl = (if ioCache io \<and> ioOK io key then m(key \<mapsto> (itoa t, now + ttl)) else m)"

definition stampDel :: "stampIO \<Rightarrow> mirror \<Rightarrow> string \<Rightarrow> mirror" where
  "stampDel io m key = (if ioCache io \<and> ioOK io key then m(key := None) else m)"

section \<open>The evaluator\<close>

record EvalState =
  esBreachSince :: "breachKey \<rightharpoonup> int"
  esLastResolved :: "breachKey \<rightharpoonup> int"
  esMirror :: mirror
  esProblems :: "StoredProblem list"
  esOpenedN :: nat
  esResolvedN :: nat

definition breachStart :: "stampIO \<Rightarrow> breachKey \<Rightarrow> int \<Rightarrow> 32 word \<Rightarrow> EvalState \<Rightarrow> (int \<times> bool) \<times> EvalState" where
  "breachStart io key now forSec st =
     (case esBreachSince st key of
        Some first \<Rightarrow> ((first, True), st)
      | None \<Rightarrow>
          (case stampGet io (esMirror st) now (stampKey stampKindBreach key) of
             Some ts \<Rightarrow> ((ts, True), st\<lparr>esBreachSince := (esBreachSince st)(key \<mapsto> ts)\<rparr>)
           | None \<Rightarrow>
               ((now, False),
                st\<lparr>esBreachSince := (esBreachSince st)(key \<mapsto> now),
                   esMirror := stampSet io (esMirror st) now (stampKey stampKindBreach key) now (stampTTL forSec)\<rparr>)))"

definition clearBreach :: "stampIO \<Rightarrow> breachKey \<Rightarrow> EvalState \<Rightarrow> EvalState" where
  "clearBreach io key st =
     (let had = esBreachSince st key \<noteq> None; st' = st\<lparr>esBreachSince := (esBreachSince st)(key := None)\<rparr> in
      if had then st'\<lparr>esMirror := stampDel io (esMirror st') (stampKey stampKindBreach key)\<rparr> else st')"

definition resolvedAt :: "stampIO \<Rightarrow> breachKey \<Rightarrow> int \<Rightarrow> EvalState \<Rightarrow> int option \<times> EvalState" where
  "resolvedAt io key now st =
     (case esLastResolved st key of
        Some rt \<Rightarrow> (Some rt, st)
      | None \<Rightarrow>
          (case stampGet io (esMirror st) now (stampKey stampKindResolved key) of
             None \<Rightarrow> (None, st)
           | Some ts \<Rightarrow> (Some ts, st\<lparr>esLastResolved := (esLastResolved st)(key \<mapsto> ts)\<rparr>)))"

definition stampResolved :: "stampIO \<Rightarrow> breachKey \<Rightarrow> int \<Rightarrow> 32 word \<Rightarrow> EvalState \<Rightarrow> EvalState" where
  "stampResolved io key now cooldownSec st =
     st\<lparr>esLastResolved := (esLastResolved st)(key \<mapsto> now),
        esMirror := stampSet io (esMirror st) now (stampKey stampKindResolved key) now (stampTTL cooldownSec)\<rparr>"

definition clearResolved :: "stampIO \<Rightarrow> breachKey \<Rightarrow> EvalState \<Rightarrow> EvalState" where
  "clearResolved io key st =
     st\<lparr>esLastResolved := (esLastResolved st)(key := None),
        esMirror := stampDel io (esMirror st) (stampKey stampKindResolved key)\<rparr>"

text \<open>
  The surroundings of one evaluation: the instant, the mirror, whether writes and point queries of the store succeed,
  the identifier, the description and the assignee of a problem that opens.
\<close>

record evalEnv =
  eeNow :: int
  eeIO :: stampIO
  eeUpsertOK :: bool
  eeFindOK :: bool
  eeNewID :: string
  eeDescription :: string
  eeAssignee :: string

datatype evalEvent = ProblemOpened StoredProblem | ProblemResolved StoredProblem

definition newProblem :: "evalEnv \<Rightarrow> AlertRule \<Rightarrow> string \<Rightarrow> string \<Rightarrow> rat option \<Rightarrow> StoredProblem" where
  "newProblem env r service metric value =
     \<lparr>prID = eeNewID env, prRuleID = arID r, prService = service, prSeverity = arSeverity r, prStatus = ''open'', prPriority = [],
      prKind = [], prMetric = metric, prAISummary = [], prStartedAt = eeNow env, prClusters = [],
      spRuleName = arName r, spValue = value, spComparator = arComparator r, spThreshold = arThreshold r,
      spDescription = eeDescription env, spAssignee = eeAssignee env, spResolvedAt = None, spUpdatedAt = 0\<rparr>"

text \<open>The gate before a breach counts: the sustain clock. The flag says whether the evaluation ends here.\<close>

definition sustainGate :: "evalEnv \<Rightarrow> AlertRule \<Rightarrow> breachKey \<Rightarrow> bool \<Rightarrow> EvalState \<Rightarrow> bool \<times> EvalState" where
  "sustainGate env r key breached st =
     (if breached \<and> arForSec r \<noteq> 0 then
        (let ((first, existing), st') = breachStart (eeIO env) key (eeNow env) (arForSec r) st in
         (\<not> existing \<or> eeNow env - first < secondsOf (arForSec r), st'))
      else if \<not> breached then (False, clearBreach (eeIO env) key st)
      else (False, st))"

definition inCooldown :: "evalEnv \<Rightarrow> AlertRule \<Rightarrow> breachKey \<Rightarrow> EvalState \<Rightarrow> bool \<times> EvalState" where
  "inCooldown env r key st =
     (if arCooldownSec r \<noteq> 0 then
        (let (rt, st') = resolvedAt (eeIO env) key (eeNow env) st in
         ((case rt of None \<Rightarrow> False | Some t \<Rightarrow> eeNow env - t < secondsOf (arCooldownSec r)), st'))
      else (False, st))"

definition openProblem :: "evalEnv \<Rightarrow> StoredProblem \<Rightarrow> EvalState \<Rightarrow> EvalState \<times> evalEvent list" where
  "openProblem env p st =
     (if eeUpsertOK env then
        (st\<lparr>esProblems := UpsertProblem (eeNow env) p (esProblems st), esOpenedN := esOpenedN st + 1\<rparr>, [ProblemOpened p])
      else (st, []))"

definition refreshProblem :: "evalEnv \<Rightarrow> StoredProblem \<Rightarrow> rat option \<Rightarrow> EvalState \<Rightarrow> EvalState" where
  "refreshProblem env p value st =
     (if eeUpsertOK env then st\<lparr>esProblems := UpsertProblem (eeNow env) (p\<lparr>spValue := value\<rparr>) (esProblems st)\<rparr> else st)"

definition resolveProblem :: "evalEnv \<Rightarrow> AlertRule \<Rightarrow> breachKey \<Rightarrow> StoredProblem \<Rightarrow> EvalState \<Rightarrow> EvalState \<times> evalEvent list" where
  "resolveProblem env r key p st =
     (let q = MarkResolved p (eeNow env) in
      if eeUpsertOK env then
        ((stampResolved (eeIO env) key (eeNow env) (arCooldownSec r)
            (st\<lparr>esProblems := UpsertProblem (eeNow env) q (esProblems st)\<rparr>))\<lparr>esResolvedN := esResolvedN st + 1\<rparr>,
         [ProblemResolved q])
      else (st, []))"

text \<open>The transitions, once the gate is passed.\<close>

definition settle ::
  "evalEnv \<Rightarrow> AlertRule \<Rightarrow> string \<Rightarrow> string \<Rightarrow> rat option \<Rightarrow> bool \<Rightarrow> StoredProblem option \<Rightarrow> EvalState \<Rightarrow> EvalState \<times> evalEvent list" where
  "settle env r service metric value breached cur st =
     (let key = (arID r, service); hasOpen = (case cur of None \<Rightarrow> False | Some p \<Rightarrow> prID p \<noteq> []) in
      if breached \<and> \<not> hasOpen then
        (let (cool, st') = inCooldown env r key st in
         if cool then (st', []) else openProblem env (newProblem env r service metric value) st')
      else if breached then (refreshProblem env (the cur) value st, [])
      else if hasOpen then resolveProblem env r key (the cur) st
      else (st, []))"

definition openFor :: "evalEnv \<Rightarrow> StoredProblem list option \<Rightarrow> string \<Rightarrow> string \<Rightarrow> EvalState \<Rightarrow> StoredProblem option" where
  "openFor env snap ruleID service st =
     (case snap of
        Some rows \<Rightarrow> ByKey rows ruleID service
      | None \<Rightarrow> if eeFindOK env then FindOpenProblem (esProblems st) ruleID service else None)"

text \<open>One rule for one service; rules with a saved search or a watch are evaluated as counted rules instead.\<close>

definition evaluateOne ::
  "evalEnv \<Rightarrow> AlertRule \<Rightarrow> string \<Rightarrow> ruleMeasurement \<Rightarrow> StoredProblem list option \<Rightarrow> EvalState \<Rightarrow> EvalState \<times> evalEvent list" where
  "evaluateOne env r service m snap st =
     (let key = (arID r, service) in
      if service = [] then (st, [])
      else if rmBelowFloor m then (clearBreach (eeIO env) key st, [])
      else if \<not> rmEvaluate m then (st, [])
      else
        (let breached = compare (rmValue m) (arComparator r) (arThreshold r);
             (stop, st') = sustainGate env r key breached st in
         if stop then (st', [])
         else settle env r service (arMetric r) (rmValue m) breached (openFor env snap (arID r) service st') st'))"

text \<open>
  A counted rule (a saved log search or an imported watch) has no service, no assignee and is never below a floor. It
  reads the snapshot only; one that fails counts as no open problem.
\<close>

definition findOpenViaSnapshot :: "StoredProblem list option \<Rightarrow> string \<Rightarrow> string \<Rightarrow> StoredProblem option" where
  "findOpenViaSnapshot snap ruleID service = Option.bind snap (\<lambda>rows. ByKey rows ruleID service)"

definition settleCountAlert ::
  "evalEnv \<Rightarrow> AlertRule \<Rightarrow> rat \<Rightarrow> string \<Rightarrow> StoredProblem list option \<Rightarrow> EvalState \<Rightarrow> EvalState \<times> evalEvent list" where
  "settleCountAlert env r value metric snap st =
     (let breached = compare (Some value) (arComparator r) (arThreshold r);
          (stop, st') = sustainGate env r (arID r, []) breached st in
      if stop then (st', [])
      else
        settle (env\<lparr>eeAssignee := []\<rparr>) r [] metric (Some value) breached (findOpenViaSnapshot snap (arID r) []) st')"

section \<open>Keys and lifetimes\<close>

lemma itoa_nat_digits: "list_all isDigit (itoa (int n))"
  using natDec_props by (simp add: itoa_def)

lemma digits_split:
  assumes "list_all isDigit a" "list_all isDigit b" "a @ CHR '':'' # x = b @ CHR '':'' # y"
  shows "a = b \<and> x = y"
  using assms
proof (induction a arbitrary: b)
  case Nil
  then show ?case by (cases b) (auto simp: isDigit_def)
next
  case (Cons c a)
  then show ?case by (cases b) (auto simp: isDigit_def)
qed

lemma stampKey_parts: "stampKey k1 (r1, s1) = stampKey k2 (r2, s2) \<Longrightarrow> k1 = k2 \<and> r1 = r2 \<and> s1 = s2"
proof -
  assume eq: "stampKey k1 (r1, s1) = stampKey k2 (r2, s2)"
  then have kind: "k1 = k2" by (cases k1; cases k2) (auto simp: stampKey_def kindText_def)
  then have "itoa (int (length r1)) @ CHR '':'' # r1 @ CHR '':'' # s1 = itoa (int (length r2)) @ CHR '':'' # r2 @ CHR '':'' # s2"
    using eq by (simp add: stampKey_def)
  from digits_split [OF itoa_nat_digits itoa_nat_digits this]
  have "length r1 = length r2" "r1 @ CHR '':'' # s1 = r2 @ CHR '':'' # s2" by (auto simp: itoa_nat_inj)
  then show ?thesis using kind by simp
qed

text \<open>
  The mirror key of a stamp determines its kind, its rule and its service, whatever colons the identifiers hold:
  stamps never overwrite one another.
\<close>

lemma stampKey_eq [simp]: "stampKey k1 a = stampKey k2 b \<longleftrightarrow> k1 = k2 \<and> a = b"
  using stampKey_parts [of k1 "fst a" "snd a" k2 "fst b" "snd b"] by (cases a; cases b) auto

lemma stampTTL_bounds: "secondsOf w \<le> stampTTL w" "stampTTL w = max stampMinTTL (2 * secondsOf w)" "0 < stampTTL w"
proof -
  have "uint w < 4294967296" "0 \<le> uint w" using unsigned_less [of w, where ?'a = int] by simp_all
  moreover have "in64 (2 * (u * 10 ^ 9)) \<and> 0 \<le> u * 10 ^ 9" if "u < 4294967296" "0 \<le> u" for u :: int
    using that by (auto simp: in64_def)
  ultimately have "in64 (2 * secondsOf w)" "0 \<le> secondsOf w" by (auto simp: secondsOf_def)
  then show "stampTTL w = max stampMinTTL (2 * secondsOf w)" by (simp add: stampTTL_def Let_def wrap64_id max_def)
  then show "secondsOf w \<le> stampTTL w" "0 < stampTTL w" using \<open>0 \<le> secondsOf w\<close> by (auto simp: stampMinTTL_def max_def)
qed

section \<open>Open problems\<close>

definition noBar :: "string \<Rightarrow> bool" where "noBar s \<longleftrightarrow> CHR ''|'' \<notin> set s"

lemma OpenProblemKey_inj:
  assumes "noBar r1" "noBar r2"
  shows "OpenProblemKey r1 s1 = OpenProblemKey r2 s2 \<longleftrightarrow> r1 = r2 \<and> s1 = s2"
proof -
  have cut: "takeWhile (\<lambda>c. c \<noteq> CHR ''|'') (r @ CHR ''|'' # t) = r" if "noBar r" for r t
    using that by (intro takeWhile_append_stop) (auto simp: noBar_def)
  have "r1 = r2" if "r1 @ CHR ''|'' # s1 = r2 @ CHR ''|'' # s2"
    using cut [OF assms(1), of s1] cut [OF assms(2), of s2] that by simp
  then show ?thesis by (auto simp: OpenProblemKey_def)
qed

lemma fold_reduceLatest:
  "fold reduceLatestProblem rows m k = latestOf (m k) (filter (\<lambda>p. OpenProblemKey (prRuleID p) (prService p) = k) rows)"
proof (induction rows arbitrary: m)
  case (Cons p rows)
  then show ?case by (cases "m k") (auto simp: reduceLatestProblem_def Let_def split: option.splits)
qed simp

lemma ByKey_FindOpenProblem:
  assumes "noBar ruleID" "\<forall>p \<in> set tbl. noBar (prRuleID p)" "length (filter isOpenRow tbl) \<le> 50000"
  shows "ByKey (openProblemsSnapshot tbl) ruleID service = FindOpenProblem tbl ruleID service"
proof -
  have "filter (\<lambda>p. OpenProblemKey (prRuleID p) (prService p) = OpenProblemKey ruleID service) (filter isOpenRow tbl) =
        filter (\<lambda>p. isOpenRow p \<and> prRuleID p = ruleID \<and> prService p = service) tbl"
    unfolding filter_filter using assms by (intro filter_cong) (auto simp: OpenProblemKey_inj)
  moreover have "openProblemsSnapshot tbl = filter isOpenRow tbl"
    using assms(3) by (simp add: openProblemsSnapshot_def)
  ultimately show ?thesis by (simp add: ByKey_def FindOpenProblem_def fold_reduceLatest)
qed

text \<open>The key of the snapshot joins rule and service with a bar, so two pairs may share an entry.\<close>

lemma OpenProblemKey_collides: "OpenProblemKey ''a|b'' ''c'' = OpenProblemKey ''a'' ''b|c''"
  by (simp add: OpenProblemKey_def)

lemma latestOf_props:
  "latestOf best ps \<in> insert best (Some ` set ps)" "latestOf best ps = None \<longleftrightarrow> best = None \<and> ps = []"
proof (induction ps arbitrary: best)
  case (Cons p ps)
  { case 1 show ?case using Cons(1) [of "case best of None \<Rightarrow> Some p | Some cur \<Rightarrow> if prStartedAt p \<le> prStartedAt cur then best else Some p"]
      by (auto split: option.splits if_splits) }
  { case 2 show ?case using Cons(2) by (auto split: option.splits) }
qed auto

lemma FindOpenProblem_props:
  "FindOpenProblem tbl r s = Some p \<Longrightarrow> p \<in> set tbl \<and> isOpenRow p \<and> prRuleID p = r \<and> prService p = s"
  "FindOpenProblem tbl r s = None \<longleftrightarrow> (\<forall>p \<in> set tbl. \<not> (isOpenRow p \<and> prRuleID p = r \<and> prService p = s))"
  using latestOf_props [of None "filter (\<lambda>p. isOpenRow p \<and> prRuleID p = r \<and> prService p = s) tbl"]
  by (auto simp: FindOpenProblem_def filter_empty_conv)

section \<open>The table\<close>

definition openRows :: "StoredProblem list \<Rightarrow> breachKey \<Rightarrow> StoredProblem list" where
  "openRows tbl k = filter (\<lambda>p. isOpenRow p \<and> prRuleID p = fst k \<and> prService p = snd k) tbl"

definition keyOf :: "StoredProblem \<Rightarrow> breachKey" where "keyOf p = (prRuleID p, prService p)"

definition wfTable :: "StoredProblem list \<Rightarrow> bool" where
  "wfTable tbl \<longleftrightarrow> distinct (map prID tbl) \<and> (\<forall>p \<in> set tbl. prID p \<noteq> [] \<and> noBar (prRuleID p)) \<and> (\<forall>k. length (openRows tbl k) \<le> 1)"

lemma FindOpenProblem_rows: "FindOpenProblem tbl r s = latestOf None (openRows tbl (r, s))"
  by (simp add: FindOpenProblem_def openRows_def)

lemma FindOpenProblem_unique:
  assumes "wfTable tbl"
  shows "FindOpenProblem tbl r s = (case openRows tbl (r, s) of [] \<Rightarrow> None | p # _ \<Rightarrow> Some p)"
proof -
  have "length (openRows tbl (r, s)) \<le> 1" using assms by (simp add: wfTable_def)
  then show ?thesis by (cases "openRows tbl (r, s)") (auto simp: FindOpenProblem_rows)
qed

lemma openRows_upsert:
  "openRows (UpsertProblem now p tbl) k =
     (if keyOf p = k \<and> isOpenRow p then [p\<lparr>spUpdatedAt := now\<rparr>] else []) @ filter (\<lambda>q. prID q \<noteq> prID p) (openRows tbl k)"
  by (auto simp: openRows_def UpsertProblem_def keyOf_def isOpenRow_def filter_filter conj_commute intro!: filter_cong)

lemma openRows_upsert_other:
  assumes "\<forall>q \<in> set tbl. prID q = prID p \<longrightarrow> keyOf q = keyOf p" "keyOf p \<noteq> k"
  shows "openRows (UpsertProblem now p tbl) k = openRows tbl k"
proof -
  have "prID q \<noteq> prID p" if "q \<in> set (openRows tbl k)" for q
    using that assms by (cases k) (auto simp: openRows_def keyOf_def)
  then show ?thesis using assms(2) by (simp add: openRows_upsert filter_id_conv)
qed

lemma wfTable_upsert:
  assumes "wfTable tbl" "prID p \<noteq> []" "noBar (prRuleID p)" "\<forall>q \<in> set tbl. prID q = prID p \<longrightarrow> keyOf q = keyOf p"
    and "\<forall>q \<in> set (openRows tbl (keyOf p)). isOpenRow p \<longrightarrow> prID q = prID p"
  shows "wfTable (UpsertProblem now p tbl)"
proof -
  have "length (openRows (UpsertProblem now p tbl) k) \<le> 1" for k
  proof (cases "keyOf p = k")
    case True
    have "length (openRows tbl k) \<le> 1" using assms(1) unfolding wfTable_def by blast
    then have "length (filter (\<lambda>q. prID q \<noteq> prID p) (openRows tbl k)) \<le> 1" by (rule le_trans [OF length_filter_le])
    then show ?thesis using assms(5) True by (auto simp: openRows_upsert filter_empty_conv)
  next
    case False
    then show ?thesis using openRows_upsert_other [OF assms(4) False] assms(1) unfolding wfTable_def by metis
  qed
  moreover have "distinct (map prID (UpsertProblem now p tbl))"
    using assms(1) by (auto simp: UpsertProblem_def wfTable_def distinct_map_filter)
  ultimately show ?thesis using assms(1-3) by (auto simp: wfTable_def UpsertProblem_def)
qed

section \<open>One evaluation\<close>

text \<open>What an evaluation of another key leaves alone.\<close>

definition sameFor :: "breachKey \<Rightarrow> EvalState \<Rightarrow> EvalState \<Rightarrow> bool" where
  "sameFor k st st' \<longleftrightarrow>
     esBreachSince st' k = esBreachSince st k \<and> esLastResolved st' k = esLastResolved st k \<and>
     (\<forall>kind. esMirror st' (stampKey kind k) = esMirror st (stampKey kind k)) \<and> openRows (esProblems st') k = openRows (esProblems st) k"

lemma sameFor_refl [simp]: "sameFor k st st"
  by (simp add: sameFor_def)

lemma sameFor_trans: "sameFor k a b \<Longrightarrow> sameFor k b c \<Longrightarrow> sameFor k a c"
  by (simp add: sameFor_def)

lemmas stampOps = stampSet_def stampDel_def

lemma breachStart_frame:
  "esLastResolved (snd (breachStart io k now f st)) = esLastResolved st" "esProblems (snd (breachStart io k now f st)) = esProblems st"
  "k' \<noteq> k \<Longrightarrow> sameFor k' st (snd (breachStart io k now f st))"
  by (auto simp: breachStart_def sameFor_def stampOps split: option.splits)

lemma clearBreach_frame:
  "esLastResolved (clearBreach io k st) = esLastResolved st" "esProblems (clearBreach io k st) = esProblems st"
  "k' \<noteq> k \<Longrightarrow> sameFor k' st (clearBreach io k st)"
  by (auto simp: clearBreach_def sameFor_def stampOps Let_def)

lemma sustainGate_frame:
  "esLastResolved (snd (sustainGate env r k b st)) = esLastResolved st" "esProblems (snd (sustainGate env r k b st)) = esProblems st"
  "k' \<noteq> k \<Longrightarrow> sameFor k' st (snd (sustainGate env r k b st))"
  by (simp_all add: sustainGate_def Let_def split_beta breachStart_frame clearBreach_frame)

lemma inCooldown_frame:
  "esBreachSince (snd (inCooldown env r k st)) = esBreachSince st" "esProblems (snd (inCooldown env r k st)) = esProblems st"
  "esMirror (snd (inCooldown env r k st)) = esMirror st"
  "k' \<noteq> k \<Longrightarrow> esLastResolved (snd (inCooldown env r k st)) k' = esLastResolved st k'"
  by (auto simp: inCooldown_def resolvedAt_def Let_def split: option.splits)

definition freshFor :: "evalEnv \<Rightarrow> StoredProblem list \<Rightarrow> bool" where
  "freshFor env tbl \<longleftrightarrow> eeNewID env \<noteq> [] \<and> eeNewID env \<notin> prID ` set tbl"

lemma newProblem_sel [simp]:
  "prID (newProblem env r s mt v) = eeNewID env" "keyOf (newProblem env r s mt v) = (arID r, s)" "isOpenRow (newProblem env r s mt v)"
  "prRuleID (newProblem env r s mt v) = arID r"
  by (simp_all add: newProblem_def keyOf_def isOpenRow_def)

lemma MarkResolved_sel [simp]:
  "prID (MarkResolved p t) = prID p" "keyOf (MarkResolved p t) = keyOf p" "\<not> isOpenRow (MarkResolved p t)" "prRuleID (MarkResolved p t) = prRuleID p"
  by (simp_all add: MarkResolved_def keyOf_def isOpenRow_def)

lemma refreshed_sel [simp]:
  "prID (p\<lparr>spValue := v\<rparr>) = prID p" "keyOf (p\<lparr>spValue := v\<rparr>) = keyOf p" "isOpenRow (p\<lparr>spValue := v\<rparr>) = isOpenRow p"
  by (simp_all add: keyOf_def isOpenRow_def)

text \<open>Writing a row back over its own version, and writing a fresh one.\<close>

lemma upsert_own:
  assumes "wfTable tbl" "openRows tbl k = [p]" "prID q = prID p" "keyOf q = keyOf p" "prRuleID q = prRuleID p"
  shows "wfTable (UpsertProblem now q tbl)" "k' \<noteq> k \<Longrightarrow> openRows (UpsertProblem now q tbl) k' = openRows tbl k'"
    "openRows (UpsertProblem now q tbl) k = (if isOpenRow q then [q\<lparr>spUpdatedAt := now\<rparr>] else [])"
proof -
  have "p \<in> set (openRows tbl k)" using assms(2) by simp
  then have p: "p \<in> set tbl" "keyOf p = k" "isOpenRow p" by (cases k; auto simp: openRows_def keyOf_def)+
  have same: "\<forall>x \<in> set tbl. prID x = prID q \<longrightarrow> keyOf x = keyOf q"
    using assms(1,3,4) p(1) by (auto simp: wfTable_def distinct_map dest: inj_onD)
  show "k' \<noteq> k \<Longrightarrow> openRows (UpsertProblem now q tbl) k' = openRows tbl k'"
    using openRows_upsert_other [OF same] p(2) assms(4) by simp
  show "wfTable (UpsertProblem now q tbl)"
    by (rule wfTable_upsert) (use assms p same in \<open>auto simp: wfTable_def\<close>)
  show "openRows (UpsertProblem now q tbl) k = (if isOpenRow q then [q\<lparr>spUpdatedAt := now\<rparr>] else [])"
    using assms p by (simp add: openRows_upsert)
qed

lemma upsert_fresh:
  assumes "wfTable tbl" "openRows tbl (keyOf q) = []" "prID q \<noteq> []" "prID q \<notin> prID ` set tbl" "noBar (prRuleID q)"
  shows "wfTable (UpsertProblem now q tbl)" "k' \<noteq> keyOf q \<Longrightarrow> openRows (UpsertProblem now q tbl) k' = openRows tbl k'"
    "openRows (UpsertProblem now q tbl) (keyOf q) = (if isOpenRow q then [q\<lparr>spUpdatedAt := now\<rparr>] else [])"
proof -
  have same: "\<forall>x \<in> set tbl. prID x = prID q \<longrightarrow> keyOf x = keyOf q" using assms(4) by (metis image_eqI)
  show "k' \<noteq> keyOf q \<Longrightarrow> openRows (UpsertProblem now q tbl) k' = openRows tbl k'"
    using openRows_upsert_other [OF same] by simp
  show "wfTable (UpsertProblem now q tbl)"
    by (rule wfTable_upsert) (use assms same in \<open>auto simp: wfTable_def\<close>)
  show "openRows (UpsertProblem now q tbl) (keyOf q) = (if isOpenRow q then [q\<lparr>spUpdatedAt := now\<rparr>] else [])"
    using assms by (simp add: openRows_upsert)
qed

section \<open>The automaton of an alert\<close>

text \<open>
  What a rule promises for one service: a clock that runs while the condition holds, the instant of the last
  resolution and whether a problem is open.
\<close>

record alertSpec =
  asSince :: "int option"
  asResolved :: "int option"
  asOpen :: bool

datatype alertEvent = Quiet | Opens | Closes

definition specStep :: "AlertRule \<Rightarrow> int \<Rightarrow> bool \<Rightarrow> ruleMeasurement \<Rightarrow> alertSpec \<Rightarrow> alertSpec \<times> alertEvent" where
  "specStep r now ok m a =
     (if rmBelowFloor m then (a\<lparr>asSince := None\<rparr>, Quiet)
      else if \<not> rmEvaluate m then (a, Quiet)
      else if compare (rmValue m) (arComparator r) (arThreshold r) then
        (let a' = (if arForSec r \<noteq> 0 \<and> asSince a = None then a\<lparr>asSince := Some now\<rparr> else a);
             waiting = (arForSec r \<noteq> 0 \<and> (case asSince a of None \<Rightarrow> True | Some t \<Rightarrow> now - t < secondsOf (arForSec r)));
             cool = (arCooldownSec r \<noteq> 0 \<and> (case asResolved a of None \<Rightarrow> False | Some t \<Rightarrow> now - t < secondsOf (arCooldownSec r))) in
         if waiting \<or> asOpen a \<or> cool \<or> \<not> ok then (a', Quiet) else (a'\<lparr>asOpen := True\<rparr>, Opens))
      else if asOpen a \<and> ok then (a\<lparr>asSince := None, asResolved := Some now, asOpen := False\<rparr>, Closes)
      else (a\<lparr>asSince := None\<rparr>, Quiet))"

definition absAlert :: "breachKey \<Rightarrow> EvalState \<Rightarrow> alertSpec" where
  "absAlert k st = \<lparr>asSince = esBreachSince st k, asResolved = esLastResolved st k, asOpen = (openRows (esProblems st) k \<noteq> [])\<rparr>"

fun eventOf :: "evalEvent list \<Rightarrow> alertEvent" where
  "eventOf [] = Quiet"
| "eventOf (ProblemOpened _ # _) = Opens"
| "eventOf (ProblemResolved _ # _) = Closes"

text \<open>The mirror holds no stamp of the key that the memory does not hold.\<close>

definition mirrorSync :: "breachKey \<Rightarrow> EvalState \<Rightarrow> bool" where
  "mirrorSync k st \<longleftrightarrow>
     (esBreachSince st k = None \<longrightarrow> esMirror st (stampKey stampKindBreach k) = None) \<and>
     (esLastResolved st k = None \<longrightarrow> esMirror st (stampKey stampKindResolved k) = None)"

definition reachable_mirror :: "stampIO \<Rightarrow> bool" where
  "reachable_mirror io \<longleftrightarrow> ioCache io \<and> (\<forall>k. ioOK io k)"

lemma stampGet_absent: "m key = None \<Longrightarrow> stampGet io m now key = None"
  by (simp add: stampGet_def mirrorGet_def)

lemma sustainGate_refines:
  fixes env r k b st
  assumes "mirrorSync k st" "reachable_mirror (eeIO env)"
  defines "g \<equiv> sustainGate env r k b st"
  shows "mirrorSync k (snd g) \<and>
    esBreachSince (snd g) k = (if b then if arForSec r \<noteq> 0 \<and> esBreachSince st k = None then Some (eeNow env) else esBreachSince st k else None) \<and>
    fst g = (b \<and> arForSec r \<noteq> 0 \<and> (case esBreachSince st k of None \<Rightarrow> True | Some t \<Rightarrow> eeNow env - t < secondsOf (arForSec r)))"
  using assms(1,2) unfolding g_def
  by (cases "esBreachSince st k")
     (auto simp: sustainGate_def breachStart_def clearBreach_def mirrorSync_def reachable_mirror_def stampOps stampGet_absent Let_def)

lemma inCooldown_refines:
  assumes "mirrorSync k st"
  shows "snd (inCooldown env r k st) = st" 
    "fst (inCooldown env r k st) \<longleftrightarrow>
       arCooldownSec r \<noteq> 0 \<and> (case esLastResolved st k of None \<Rightarrow> False | Some t \<Rightarrow> eeNow env - t < secondsOf (arCooldownSec r))"
  using assms by (auto simp: inCooldown_def resolvedAt_def mirrorSync_def stampGet_absent Let_def split: option.splits)

lemma openRows_head:
  assumes "openRows tbl k = p # ps"
  shows "p \<in> set tbl \<and> keyOf p = k \<and> isOpenRow p"
proof -
  have "p \<in> set (openRows tbl k)" using assms by simp
  then show ?thesis by (cases k) (auto simp: openRows_def keyOf_def)
qed

lemma wfTable_one: "wfTable tbl \<Longrightarrow> openRows tbl k = p # ps \<Longrightarrow> ps = []"
  unfolding wfTable_def by (metis One_nat_def Suc_le_mono le_zero_eq length_0_conv length_Cons)

lemma settle_refines:
  fixes env r s mt v b st
  defines "k \<equiv> (arID r, s)" and "tbl \<equiv> esProblems st"
  defines "res \<equiv> settle env r s mt v b (FindOpenProblem tbl (arID r) s) st"
  assumes wf: "wfTable tbl" and fresh: "freshFor env tbl" and bar: "noBar (arID r)" and sync: "mirrorSync k st"
    and cool: "c \<longleftrightarrow> arCooldownSec r \<noteq> 0 \<and> (case esLastResolved st k of None \<Rightarrow> False | Some t \<Rightarrow> eeNow env - t < secondsOf (arCooldownSec r))"
  shows "wfTable (esProblems (fst res)) \<and> mirrorSync k (fst res) \<and> (\<forall>k'. k' \<noteq> k \<longrightarrow> sameFor k' st (fst res)) \<and>
    esBreachSince (fst res) k = esBreachSince st k \<and>
    (absAlert k (fst res), eventOf (snd res)) =
      (if b \<and> openRows tbl k = [] \<and> \<not> c \<and> eeUpsertOK env then ((absAlert k st)\<lparr>asOpen := True\<rparr>, Opens)
       else if \<not> b \<and> openRows tbl k \<noteq> [] \<and> eeUpsertOK env then ((absAlert k st)\<lparr>asResolved := Some (eeNow env), asOpen := False\<rparr>, Closes)
       else (absAlert k st, Quiet))"
proof (cases "openRows tbl k")
  case Nil
  then have find: "FindOpenProblem tbl (arID r) s = None" using FindOpenProblem_unique [OF wf] by (simp add: k_def)
  note cd = inCooldown_refines [OF sync, of env r]
  have up: "wfTable (UpsertProblem (eeNow env) (newProblem env r s mt v) tbl)"
    "k' \<noteq> k \<Longrightarrow> openRows (UpsertProblem (eeNow env) (newProblem env r s mt v) tbl) k' = openRows tbl k'"
    "openRows (UpsertProblem (eeNow env) (newProblem env r s mt v) tbl) k \<noteq> []" for k'
    using upsert_fresh [where tbl = tbl and q = "newProblem env r s mt v" and now = "eeNow env"] wf Nil fresh bar by (auto simp: k_def freshFor_def)
  have "inCooldown env r k st = (c, st)" using cd cool by (metis prod.collapse)
  then have "res = (if b \<and> \<not> c then openProblem env (newProblem env r s mt v) st else (st, []))"
    using find by (simp add: res_def settle_def k_def Let_def)
  then show ?thesis using up wf sync Nil
    by (auto simp: openProblem_def absAlert_def sameFor_def mirrorSync_def tbl_def)
next
  case (Cons p ps)
  then have rows: "openRows tbl k = [p]" using wfTable_one [OF wf] by blast
  have p: "p \<in> set tbl" "keyOf p = k" "isOpenRow p" using openRows_head [OF Cons] by auto
  then have "prID p \<noteq> []" using wf by (auto simp: wfTable_def)
  moreover have "FindOpenProblem tbl (arID r) s = Some p" using FindOpenProblem_unique [OF wf] rows by (simp add: k_def)
  ultimately have res: "res = (if b then (refreshProblem env p v st, []) else resolveProblem env r k p st)"
    by (simp add: res_def settle_def k_def Let_def)
  note own = upsert_own [OF wf rows, where q = "p\<lparr>spValue := v\<rparr>" and now = "eeNow env"]
    upsert_own [OF wf rows, where q = "MarkResolved p (eeNow env)" and now = "eeNow env"]
  show ?thesis using own res rows wf sync p(3)
    by (auto simp: refreshProblem_def resolveProblem_def stampResolved_def absAlert_def sameFor_def mirrorSync_def tbl_def stampOps Let_def)
qed

definition coherent :: "evalEnv \<Rightarrow> StoredProblem list option \<Rightarrow> breachKey \<Rightarrow> StoredProblem list \<Rightarrow> bool" where
  "coherent env snap k tbl \<longleftrightarrow>
     (case snap of Some rows \<Rightarrow> ByKey rows (fst k) (snd k) = FindOpenProblem tbl (fst k) (snd k) | None \<Rightarrow> eeFindOK env)"

lemma openFor_coherent: "coherent env snap (rid, s) (esProblems st) \<Longrightarrow> openFor env snap rid s st = FindOpenProblem (esProblems st) rid s"
  by (auto simp: coherent_def openFor_def split: option.splits)

lemma specStep_breach:
  "rmEvaluate m \<Longrightarrow> \<not> rmBelowFloor m \<Longrightarrow> compare (rmValue m) (arComparator r) (arThreshold r) = b \<Longrightarrow>
   specStep r now ok m a =
     (let since = (if b then if arForSec r \<noteq> 0 \<and> asSince a = None then Some now else asSince a else None);
          waiting = (arForSec r \<noteq> 0 \<and> (case asSince a of None \<Rightarrow> True | Some t \<Rightarrow> now - t < secondsOf (arForSec r)));
          cool = (arCooldownSec r \<noteq> 0 \<and> (case asResolved a of None \<Rightarrow> False | Some t \<Rightarrow> now - t < secondsOf (arCooldownSec r))) in
      if b \<and> \<not> waiting \<and> \<not> asOpen a \<and> \<not> cool \<and> ok then (a\<lparr>asSince := since, asOpen := True\<rparr>, Opens)
      else if \<not> b \<and> asOpen a \<and> ok then (a\<lparr>asSince := since, asResolved := Some now, asOpen := False\<rparr>, Closes)
      else (a\<lparr>asSince := since\<rparr>, Quiet))"
  by (cases a) (auto simp: specStep_def Let_def)

lemma gated_refines:
  fixes env r s mt v b snap st
  defines "k \<equiv> (arID r, s)" and "g \<equiv> sustainGate env r (arID r, s) b st"
  defines "res \<equiv> (if fst g then (snd g, []) else settle env r s mt v b (openFor env snap (arID r) s (snd g)) (snd g))"
  assumes wf: "wfTable (esProblems st)" and fresh: "freshFor env (esProblems st)" and bar: "noBar (arID r)"
    and sync: "mirrorSync k st" and io: "reachable_mirror (eeIO env)" and co: "coherent env snap k (esProblems st)"
    and m: "rmEvaluate m" "\<not> rmBelowFloor m" "compare (rmValue m) (arComparator r) (arThreshold r) = b"
  shows "wfTable (esProblems (fst res)) \<and> mirrorSync k (fst res) \<and> (\<forall>k'. k' \<noteq> k \<longrightarrow> sameFor k' st (fst res)) \<and>
    (absAlert k (fst res), eventOf (snd res)) = specStep r (eeNow env) (eeUpsertOK env) m (absAlert k st)"
proof -
  have g: "mirrorSync k (snd g)"
    "esBreachSince (snd g) k = (if b then if arForSec r \<noteq> 0 \<and> esBreachSince st k = None then Some (eeNow env) else esBreachSince st k else None)"
    "fst g = (b \<and> arForSec r \<noteq> 0 \<and> (case esBreachSince st k of None \<Rightarrow> True | Some t \<Rightarrow> eeNow env - t < secondsOf (arForSec r)))"
    using sustainGate_refines [OF sync io, of r b] by (auto simp: g_def k_def)
  have fr: "esLastResolved (snd g) = esLastResolved st" "esProblems (snd g) = esProblems st" "\<And>k'. k' \<noteq> k \<Longrightarrow> sameFor k' st (snd g)"
    using sustainGate_frame by (auto simp: g_def k_def)
  have abs: "absAlert k (snd g) = (absAlert k st)\<lparr>asSince := esBreachSince (snd g) k\<rparr>" by (simp add: absAlert_def fr)
  have sel: "asSince (absAlert k st) = esBreachSince st k" "asResolved (absAlert k st) = esLastResolved st k"
    "asOpen (absAlert k st) = (openRows (esProblems st) k \<noteq> [])" by (simp_all add: absAlert_def)
  define W where "W = (arForSec r \<noteq> 0 \<and> (case esBreachSince st k of None \<Rightarrow> True | Some t \<Rightarrow> eeNow env - t < secondsOf (arForSec r)))"
  define C where "C = (arCooldownSec r \<noteq> 0 \<and> (case esLastResolved st k of None \<Rightarrow> False | Some t \<Rightarrow> eeNow env - t < secondsOf (arCooldownSec r)))"
  note spec = specStep_breach [OF m, of "eeNow env" "eeUpsertOK env" "absAlert k st", unfolded sel Let_def, folded g(2) W_def C_def]
  show ?thesis
  proof (cases "fst g")
    case True
    then have "b \<and> W" using g(3) by (simp add: W_def)
    moreover have "res = (snd g, [])" using True by (simp add: res_def)
    ultimately show ?thesis using g(1) fr wf abs unfolding spec by simp
  next
    case False
    have "openFor env snap (arID r) s (snd g) = FindOpenProblem (esProblems (snd g)) (arID r) s"
      using co openFor_coherent [of env snap "arID r" s "snd g"] by (simp add: k_def fr)
    then have res: "res = settle env r s mt v b (FindOpenProblem (esProblems (snd g)) (arID r) s) (snd g)"
      using False by (simp add: res_def)
    have C: "C \<longleftrightarrow> arCooldownSec r \<noteq> 0 \<and> (case esLastResolved (snd g) k of None \<Rightarrow> False | Some t \<Rightarrow> eeNow env - t < secondsOf (arCooldownSec r))"
      by (simp add: C_def fr)
    note st = settle_refines [of "snd g" env r s, folded k_def, OF _ _ bar g(1) C, of mt v b, folded res, unfolded fr(1,2), OF wf fresh]
    have "b \<longrightarrow> \<not> W" using False g(3) by (simp add: W_def)
    then have "(absAlert k (fst res), eventOf (snd res)) = specStep r (eeNow env) (eeUpsertOK env) m (absAlert k st)"
      using st unfolding spec abs by (cases b; cases W; simp)
    moreover have "sameFor k' st (fst res)" if "k' \<noteq> k" for k' using st fr(3) [OF that] sameFor_trans that by blast
    ultimately show ?thesis using st by simp
  qed
qed

lemma clearBreach_refines:
  assumes "mirrorSync k st" "reachable_mirror io"
  shows "mirrorSync k (clearBreach io k st)" "absAlert k (clearBreach io k st) = (absAlert k st)\<lparr>asSince := None\<rparr>"
  using assms by (auto simp: mirrorSync_def reachable_mirror_def clearBreach_def absAlert_def stampOps Let_def)

lemma evaluateOne_step:
  fixes env r s m snap st
  defines "k \<equiv> (arID r, s)" and "res \<equiv> evaluateOne env r s m snap st"
  assumes "wfTable (esProblems st)" "freshFor env (esProblems st)" "noBar (arID r)" "s \<noteq> []"
    and "mirrorSync k st" "reachable_mirror (eeIO env)" "coherent env snap k (esProblems st)"
  shows "wfTable (esProblems (fst res)) \<and> mirrorSync k (fst res) \<and> (\<forall>k'. k' \<noteq> k \<longrightarrow> sameFor k' st (fst res)) \<and>
    (absAlert k (fst res), eventOf (snd res)) = specStep r (eeNow env) (eeUpsertOK env) m (absAlert k st)"
proof -
  consider (floor) "rmBelowFloor m" | (skip) "\<not> rmBelowFloor m" "\<not> rmEvaluate m" | (eval) "\<not> rmBelowFloor m" "rmEvaluate m" by blast
  then show ?thesis
  proof cases
    case floor
    then have "res = (clearBreach (eeIO env) k st, [])" using assms(6) by (simp add: res_def evaluateOne_def k_def Let_def)
    then show ?thesis using clearBreach_refines [OF assms(7,8)] clearBreach_frame assms(3) floor by (simp add: specStep_def)
  next
    case skip
    then have "res = (st, [])" using assms(6) by (simp add: res_def evaluateOne_def Let_def)
    then show ?thesis using skip assms by (simp add: specStep_def)
  next
    case eval
    let ?b = "compare (rmValue m) (arComparator r) (arThreshold r)"
    let ?g = "sustainGate env r (arID r, s) ?b st"
    have "res = (if fst ?g then (snd ?g, []) else settle env r s (arMetric r) (rmValue m) ?b (openFor env snap (arID r) s (snd ?g)) (snd ?g))"
      using eval assms(6) by (simp add: res_def evaluateOne_def Let_def split_beta)
    then show ?thesis using gated_refines [OF assms(3,4,5) _ assms(8) _ eval(2,1) refl] assms(7,9) by (simp add: k_def)
  qed
qed

text \<open>A tick evaluates its pairs of rules and services in order, all on the snapshot taken at its start.\<close>

type_synonym evalPair = "evalEnv \<times> AlertRule \<times> string \<times> ruleMeasurement"

fun pairKey :: "evalPair \<Rightarrow> breachKey" where "pairKey (env, r, s, m) = (arID r, s)"
fun pairEnv :: "evalPair \<Rightarrow> evalEnv" where "pairEnv (env, r, s, m) = env"

fun evaluatePairs :: "evalPair list \<Rightarrow> StoredProblem list option \<Rightarrow> EvalState \<Rightarrow> EvalState \<times> (evalPair \<times> evalEvent list) list" where
  "evaluatePairs [] snap st = (st, [])"
| "evaluatePairs ((env, r, s, m) # ps) snap st =
     (let (st1, evs) = evaluateOne env r s m snap st; (st2, rest) = evaluatePairs ps snap st1 in
      (st2, ((env, r, s, m), evs) # rest))"

definition evaluateTick :: "bool \<Rightarrow> evalPair list \<Rightarrow> EvalState \<Rightarrow> EvalState \<times> (evalPair \<times> evalEvent list) list" where
  "evaluateTick snapOK ps st = evaluatePairs ps (if snapOK then Some (openProblemsSnapshot (esProblems st)) else None) st"

fun specRun :: "evalPair list \<Rightarrow> alertSpec \<Rightarrow> alertSpec \<times> alertEvent list" where
  "specRun [] a = (a, [])"
| "specRun ((env, r, s, m) # ps) a =
     (let (a1, e) = specStep r (eeNow env) (eeUpsertOK env) m a; (a2, es) = specRun ps a1 in (a2, e # es))"

definition pairOK :: "evalPair \<Rightarrow> bool" where
  "pairOK p \<longleftrightarrow> (case p of (env, r, s, m) \<Rightarrow> s \<noteq> [] \<and> noBar (arID r) \<and> reachable_mirror (eeIO env) \<and> eeNewID env \<noteq> [])"

definition pairsOK :: "bool \<Rightarrow> evalPair list \<Rightarrow> StoredProblem list \<Rightarrow> bool" where
  "pairsOK snapOK ps tbl \<longleftrightarrow>
     (\<forall>p \<in> set ps. pairOK p \<and> (snapOK \<or> eeFindOK (pairEnv p))) \<and> distinct (map pairKey ps) \<and>
     distinct (map (\<lambda>p. eeNewID (pairEnv p)) ps) \<and> (\<forall>p \<in> set ps. eeNewID (pairEnv p) \<notin> prID ` set tbl) \<and>
     (snapOK \<longrightarrow> length (filter isOpenRow tbl) \<le> 50000)"

lemma settle_ids: "prID ` set (esProblems (fst (settle env r s mt v b (FindOpenProblem (esProblems st) (arID r) s) st))) \<subseteq> insert (eeNewID env) (prID ` set (esProblems st))"
proof -
  have cool: "esProblems (snd (inCooldown env r k st)) = esProblems st" for k by (rule inCooldown_frame)
  show ?thesis using FindOpenProblem_props(1) [of "esProblems st" "arID r" s] cool [of "(arID r, s)"]
    by (auto simp: settle_def openProblem_def refreshProblem_def resolveProblem_def stampResolved_def UpsertProblem_def Let_def split_beta split: option.splits)
qed

lemma evaluateOne_ids:
  assumes "coherent env snap (arID r, s) (esProblems st)"
  shows "prID ` set (esProblems (fst (evaluateOne env r s m snap st))) \<subseteq> insert (eeNewID env) (prID ` set (esProblems st))"
proof -
  let ?b = "compare (rmValue m) (arComparator r) (arThreshold r)"
  let ?g = "snd (sustainGate env r (arID r, s) ?b st)"
  have g: "esProblems ?g = esProblems st" by (rule sustainGate_frame)
  have "openFor env snap (arID r) s ?g = FindOpenProblem (esProblems ?g) (arID r) s"
    using assms openFor_coherent [of env snap "arID r" s ?g] by (simp add: g)
  then show ?thesis using settle_ids [of env r s "arMetric r" "rmValue m" ?b ?g] g
    by (auto simp: evaluateOne_def Let_def split_beta clearBreach_frame)
qed

lemma coherent_same: "sameFor k st st' \<Longrightarrow> coherent env snap k (esProblems st) \<Longrightarrow> coherent env snap k (esProblems st')"
  by (cases k) (auto simp: coherent_def sameFor_def FindOpenProblem_rows split: option.splits)

lemma mirrorSync_same: "sameFor k st st' \<Longrightarrow> mirrorSync k st' = mirrorSync k st"
  by (simp add: sameFor_def mirrorSync_def)

lemma absAlert_same: "sameFor k st st' \<Longrightarrow> absAlert k st' = absAlert k st"
  by (simp add: sameFor_def absAlert_def)

lemma evaluatePairs_step:
  assumes "wfTable (esProblems st)" "\<forall>k. mirrorSync k st" "\<forall>p \<in> set ps. pairOK p \<and> coherent (pairEnv p) snap (pairKey p) (esProblems st)"
    and "distinct (map pairKey ps)" "distinct (map (\<lambda>p. eeNewID (pairEnv p)) ps)"
    and "\<forall>p \<in> set ps. eeNewID (pairEnv p) \<notin> prID ` set (esProblems st)"
  shows "wfTable (esProblems (fst (evaluatePairs ps snap st))) \<and> (\<forall>k. mirrorSync k (fst (evaluatePairs ps snap st))) \<and>
    map fst (snd (evaluatePairs ps snap st)) = ps \<and>
    (\<forall>k. (absAlert k (fst (evaluatePairs ps snap st)), map (\<lambda>x. eventOf (snd x)) (filter (\<lambda>x. pairKey (fst x) = k) (snd (evaluatePairs ps snap st)))) =
         specRun (filter (\<lambda>p. pairKey p = k) ps) (absAlert k st))"
  using assms
proof (induction ps arbitrary: st)
  case (Cons p ps)
  obtain env r s m where p: "p = (env, r, s, m)" by (cases p)
  let ?k = "(arID r, s)" and ?st = "fst (evaluateOne env r s m snap st)"
  have one: "wfTable (esProblems ?st)" "mirrorSync ?k ?st" "\<And>k'. k' \<noteq> ?k \<Longrightarrow> sameFor k' st ?st"
    "(absAlert ?k ?st, eventOf (snd (evaluateOne env r s m snap st))) = specStep r (eeNow env) (eeUpsertOK env) m (absAlert ?k st)"
  proof -
    have "s \<noteq> []" "noBar (arID r)" "reachable_mirror (eeIO env)" "freshFor env (esProblems st)" "coherent env snap ?k (esProblems st)" "mirrorSync ?k st"
      using Cons.prems(2,3,6) p by (simp_all add: pairOK_def freshFor_def)
    note step = evaluateOne_step [OF Cons.prems(1) this(4,2,1,6,3,5), of m]
    show "wfTable (esProblems ?st)" "mirrorSync ?k ?st" "\<And>k'. k' \<noteq> ?k \<Longrightarrow> sameFor k' st ?st"
      "(absAlert ?k ?st, eventOf (snd (evaluateOne env r s m snap st))) = specStep r (eeNow env) (eeUpsertOK env) m (absAlert ?k st)"
      using step by blast+
  qed
  have sync: "\<forall>k. mirrorSync k ?st"
  proof
    fix k show "mirrorSync k ?st" using one(2) mirrorSync_same [OF one(3), of k] Cons.prems(2) by (cases "k = ?k") simp_all
  qed
  have ids: "prID ` set (esProblems ?st) \<subseteq> insert (eeNewID env) (prID ` set (esProblems st))"
    using evaluateOne_ids [of env snap r s st m] Cons.prems(3) p by simp
  have rest: "pairOK q \<and> coherent (pairEnv q) snap (pairKey q) (esProblems ?st)" "eeNewID (pairEnv q) \<notin> prID ` set (esProblems ?st)"
    if "q \<in> set ps" for q
  proof -
    have "pairKey q \<noteq> ?k" "eeNewID (pairEnv q) \<noteq> eeNewID env" using Cons.prems(4,5) p that by force+
    moreover have "eeNewID (pairEnv q) \<notin> prID ` set (esProblems st)" "pairOK q" "coherent (pairEnv q) snap (pairKey q) (esProblems st)"
      using Cons.prems(3,6) that by simp_all
    ultimately show "pairOK q \<and> coherent (pairEnv q) snap (pairKey q) (esProblems ?st)" "eeNewID (pairEnv q) \<notin> prID ` set (esProblems ?st)"
      using coherent_same [OF one(3)] ids by blast+
  qed
  have "distinct (map pairKey ps)" "distinct (map (\<lambda>p. eeNewID (pairEnv p)) ps)" using Cons.prems(4,5) by simp_all
  note IH = Cons.IH [OF one(1) sync _ this, OF ballI ballI, OF rest]
  have "(absAlert k (fst (evaluatePairs (p # ps) snap st)),
      map (\<lambda>x. eventOf (snd x)) (filter (\<lambda>x. pairKey (fst x) = k) (snd (evaluatePairs (p # ps) snap st)))) =
      specRun (filter (\<lambda>q. pairKey q = k) (p # ps)) (absAlert k st)" for k
  proof (cases "k = ?k")
    case True
    obtain a e where a: "specStep r (eeNow env) (eeUpsertOK env) m (absAlert ?k st) = (a, e)" by fastforce
    then have ae: "absAlert ?k ?st = a" "eventOf (snd (evaluateOne env r s m snap st)) = e" using one(4) by simp_all
    let ?R = "evaluatePairs ps snap ?st"
    have "specRun (filter (\<lambda>p. pairKey p = ?k) ps) a =
        (absAlert ?k (fst ?R), map (\<lambda>x. eventOf (snd x)) (filter (\<lambda>x. pairKey (fst x) = ?k) (snd ?R)))"
      using IH ae(1) by metis
    then show ?thesis unfolding True using a ae(2) by (simp add: p split_beta Let_def)
  next
    case False
    let ?R = "evaluatePairs ps snap ?st"
    have "specRun (filter (\<lambda>p. pairKey p = k) ps) (absAlert k st) =
        (absAlert k (fst ?R), map (\<lambda>x. eventOf (snd x)) (filter (\<lambda>x. pairKey (fst x) = k) (snd ?R)))"
      using IH absAlert_same [OF one(3) [OF False]] by metis
    moreover have "pairKey p \<noteq> k" using False p by auto
    ultimately show ?thesis by (simp add: p split_beta Let_def)
  qed
  moreover have "fst (evaluatePairs (p # ps) snap st) = fst (evaluatePairs ps snap ?st)"
    "map fst (snd (evaluatePairs (p # ps) snap st)) = p # map fst (snd (evaluatePairs ps snap ?st))" by (simp_all add: p split_beta Let_def)
  ultimately show ?case using IH by metis
qed simp

lemma snapshot_coherent:
  assumes "wfTable tbl" "noBar (fst k)" "if snapOK then length (filter isOpenRow tbl) \<le> 50000 else eeFindOK env"
  shows "coherent env (if snapOK then Some (openProblemsSnapshot tbl) else None) k tbl"
  using assms ByKey_FindOpenProblem [of "fst k" tbl "snd k"] by (auto simp: coherent_def wfTable_def)

lemma evaluateTick_step:
  assumes "wfTable (esProblems st)" "\<forall>k. mirrorSync k st" "pairsOK snapOK ps (esProblems st)"
  shows "wfTable (esProblems (fst (evaluateTick snapOK ps st))) \<and> (\<forall>k. mirrorSync k (fst (evaluateTick snapOK ps st))) \<and>
    map fst (snd (evaluateTick snapOK ps st)) = ps \<and>
    (\<forall>k. (absAlert k (fst (evaluateTick snapOK ps st)), map (\<lambda>x. eventOf (snd x)) (filter (\<lambda>x. pairKey (fst x) = k) (snd (evaluateTick snapOK ps st)))) =
         specRun (filter (\<lambda>p. pairKey p = k) ps) (absAlert k st))"
  unfolding evaluateTick_def
proof (rule evaluatePairs_step [OF assms(1,2)])
  have bar: "noBar (fst (pairKey p))" if "p \<in> set ps" for p using assms(3) that by (cases p) (auto simp: pairsOK_def pairOK_def)
  show "\<forall>p \<in> set ps. pairOK p \<and>
      coherent (pairEnv p) (if snapOK then Some (openProblemsSnapshot (esProblems st)) else None) (pairKey p) (esProblems st)"
  proof
    fix p assume p: "p \<in> set ps"
    then have "if snapOK then length (filter isOpenRow (esProblems st)) \<le> 50000 else eeFindOK (pairEnv p)"
      using assms(3) by (auto simp: pairsOK_def)
    from snapshot_coherent [OF assms(1) bar [OF p] this] show "pairOK p \<and>
      coherent (pairEnv p) (if snapOK then Some (openProblemsSnapshot (esProblems st)) else None) (pairKey p) (esProblems st)"
      using p assms(3) by (simp add: pairsOK_def)
  qed
qed (use assms(3) in \<open>auto simp: pairsOK_def\<close>)

section \<open>Ticks of one leader\<close>

fun runTicks :: "(bool \<times> evalPair list) list \<Rightarrow> EvalState \<Rightarrow> EvalState \<times> (evalPair \<times> evalEvent list) list" where
  "runTicks [] st = (st, [])"
| "runTicks ((snapOK, ps) # ts) st =
     (let (st1, e1) = evaluateTick snapOK ps st; (st2, e2) = runTicks ts st1 in (st2, e1 @ e2))"

fun ticksOK :: "(bool \<times> evalPair list) list \<Rightarrow> EvalState \<Rightarrow> bool" where
  "ticksOK [] st \<longleftrightarrow> True"
| "ticksOK ((snapOK, ps) # ts) st \<longleftrightarrow> pairsOK snapOK ps (esProblems st) \<and> ticksOK ts (fst (evaluateTick snapOK ps st))"

lemma specRun_append: "specRun (ps @ qs) a = (let (a1, e1) = specRun ps a; (a2, e2) = specRun qs a1 in (a2, e1 @ e2))"
proof (induction ps arbitrary: a)
  case (Cons p ps)
  then show ?case by (cases p) (simp add: Let_def split_beta)
qed simp

lemma runTicks_step:
  assumes "wfTable (esProblems st)" "\<forall>k. mirrorSync k st" "ticksOK ticks st"
  shows "wfTable (esProblems (fst (runTicks ticks st))) \<and>
    (\<forall>k. (absAlert k (fst (runTicks ticks st)), map (\<lambda>x. eventOf (snd x)) (filter (\<lambda>x. pairKey (fst x) = k) (snd (runTicks ticks st)))) =
         specRun (filter (\<lambda>p. pairKey p = k) (map fst (snd (runTicks ticks st)))) (absAlert k st))"
  using assms
proof (induction ticks st rule: runTicks.induct)
  case (2 snapOK ps ts st)
  let ?T = "evaluateTick snapOK ps st"
  have t: "wfTable (esProblems (fst ?T))" "\<forall>k. mirrorSync k (fst ?T)" "map fst (snd ?T) = ps"
    "\<And>k. specRun (filter (\<lambda>p. pairKey p = k) ps) (absAlert k st) =
       (absAlert k (fst ?T), map (\<lambda>x. eventOf (snd x)) (filter (\<lambda>x. pairKey (fst x) = k) (snd ?T)))"
    using evaluateTick_step [OF 2(2,3), of snapOK ps] 2(4) by (simp, simp, simp, metis ticksOK.simps(2))
  have IH: "wfTable (esProblems (fst (runTicks ts (fst ?T))))"
    "\<And>k. specRun (filter (\<lambda>p. pairKey p = k) (map fst (snd (runTicks ts (fst ?T))))) (absAlert k (fst ?T)) =
       (absAlert k (fst (runTicks ts (fst ?T))), map (\<lambda>x. eventOf (snd x)) (filter (\<lambda>x. pairKey (fst x) = k) (snd (runTicks ts (fst ?T)))))"
    using 2(1) [OF refl prod.collapse t(1,2)] 2(4) by (simp, metis ticksOK.simps(2))
  show ?case using IH t(3,4) by (simp add: split_beta Let_def specRun_append)
qed simp

text \<open>
  C4. Under one leader whose mirror answers, any sequence of ticks over any rules and services (with snapshots or,
  where the snapshot fails, point queries) behaves, for each rule and service alone, as the automaton run on
  that rule's evaluations: the same problems open and close at the same evaluations. At most one problem is open for a
  rule and a service.
\<close>

theorem ticks_refine:
  assumes "wfTable (esProblems st)" "\<forall>k. mirrorSync k st" "ticksOK ticks st"
  shows "(\<forall>k. length (openRows (esProblems (fst (runTicks ticks st))) k) \<le> 1) \<and>
    (\<forall>k. (absAlert k (fst (runTicks ticks st)), map (\<lambda>x. eventOf (snd x)) (filter (\<lambda>x. pairKey (fst x) = k) (snd (runTicks ticks st)))) =
         specRun (filter (\<lambda>p. pairKey p = k) (map fst (snd (runTicks ticks st)))) (absAlert k st))"
  using runTicks_step [OF assms] unfolding wfTable_def by blast

text \<open>The condition of a pair, and the pairs during which a clock keeps running.\<close>

fun pairBreached :: "evalPair \<Rightarrow> bool" where
  "pairBreached (env, r, s, m) \<longleftrightarrow>
     \<not> rmBelowFloor m \<and> rmEvaluate m \<and> compare (rmValue m) (arComparator r) (arThreshold r)"

fun pairKeeps :: "evalPair \<Rightarrow> bool" where
  "pairKeeps (env, r, s, m) \<longleftrightarrow>
     \<not> rmBelowFloor m \<and> (rmEvaluate m \<longrightarrow> compare (rmValue m) (arComparator r) (arThreshold r))"

definition sustainedSince :: "evalPair list \<Rightarrow> int \<Rightarrow> bool" where
  "sustainedSince ps t \<longleftrightarrow> (\<exists>us e vs. ps = us @ e # vs \<and> pairBreached e \<and> eeNow (pairEnv e) = t \<and> (\<forall>x \<in> set vs. pairKeeps x))"

lemma sustained_snoc: "sustainedSince ps t \<Longrightarrow> pairKeeps x \<Longrightarrow> sustainedSince (ps @ [x]) t"
proof -
  assume "sustainedSince ps t" "pairKeeps x"
  then obtain us e vs where "ps = us @ e # vs" "pairBreached e" "eeNow (pairEnv e) = t" "\<forall>y \<in> set vs. pairKeeps y"
    by (auto simp: sustainedSince_def)
  then show ?thesis unfolding sustainedSince_def using \<open>pairKeeps x\<close>
    by (intro exI [of _ us] exI [of _ e] exI [of _ "vs @ [x]"]) auto
qed

lemma specRun_since:
  assumes "asSince (fst (specRun ps a)) = Some t" "asSince a = None"
  shows "sustainedSince ps t"
  using assms(1)
proof (induction ps arbitrary: t rule: rev_induct)
  case (snoc x ps)
  obtain env r s m where x: "x = (env, r, s, m)" by (cases x)
  let ?a = "fst (specRun ps a)"
  have now: "asSince (fst (specStep r (eeNow env) (eeUpsertOK env) m ?a)) = Some t"
    using snoc.prems by (simp add: specRun_append x split_beta Let_def)
  have keeps: "pairKeeps x" using now by (auto simp: x specStep_def Let_def split: if_splits)
  show ?case
  proof (cases "asSince ?a")
    case None
    then have "pairBreached x" "t = eeNow env" using now by (auto simp: x specStep_def Let_def split: if_splits)
    then show ?thesis unfolding sustainedSince_def by (intro exI [of _ ps] exI [of _ x] exI [of _ "[]"]) (simp add: x)
  next
    case (Some t')
    then have "t' = t" using now by (auto simp: specStep_def Let_def split: if_splits)
    then show ?thesis using sustained_snoc snoc.IH Some keeps by blast
  qed
qed (use assms(2) in simp)

lemma specRun_length: "length (snd (specRun ps a)) = length ps"
proof (induction ps arbitrary: a)
  case (Cons p ps)
  then show ?case by (cases p) (simp add: Let_def split_beta)
qed simp

lemma runTicks_event:
  assumes "wfTable (esProblems st)" "\<forall>k. mirrorSync k st" "ticksOK ticks st"
    and "snd (runTicks ticks st) = xs @ ((env, r, s, m), evs) # ys"
  shows "eventOf evs = snd (specStep r (eeNow env) (eeUpsertOK env) m
           (fst (specRun (filter (\<lambda>p. pairKey p = (arID r, s)) (map fst xs)) (absAlert (arID r, s) st))))"
proof -
  let ?k = "(arID r, s)"
  let ?L = "filter (\<lambda>p. pairKey p = ?k) (map fst xs)" and ?R = "filter (\<lambda>p. pairKey p = ?k) (map fst ys)"
  let ?es = "\<lambda>zs. map (\<lambda>x. eventOf (snd x)) (filter (\<lambda>x. pairKey (fst x) = ?k) zs)"
  have "?es (xs @ ((env, r, s, m), evs) # ys) = snd (specRun (?L @ (env, r, s, m) # ?R) (absAlert ?k st))"
  proof -
    have "(absAlert ?k (fst (runTicks ticks st)), ?es (snd (runTicks ticks st))) =
        specRun (filter (\<lambda>p. pairKey p = ?k) (map fst (snd (runTicks ticks st)))) (absAlert ?k st)"
      using runTicks_step [OF assms(1-3)] by blast
    then have "?es (snd (runTicks ticks st)) = snd (specRun (filter (\<lambda>p. pairKey p = ?k) (map fst (snd (runTicks ticks st)))) (absAlert ?k st))"
      by (metis snd_conv)
    then show ?thesis unfolding assms(4) by simp
  qed
  then have "?es xs @ eventOf evs # ?es ys = snd (specRun ?L (absAlert ?k st)) @
      snd (specStep r (eeNow env) (eeUpsertOK env) m (fst (specRun ?L (absAlert ?k st)))) #
      snd (specRun ?R (fst (specStep r (eeNow env) (eeUpsertOK env) m (fst (specRun ?L (absAlert ?k st))))))"
    by (simp add: specRun_append split_beta Let_def)
  moreover have "length (?es xs) = length (snd (specRun ?L (absAlert ?k st)))" by (simp add: specRun_length filter_map o_def)
  ultimately show ?thesis by simp
qed

text \<open>
  C19. Under one leader whose mirror answers, a rule with a sustain time opens a problem only when the condition has
  held that long: an earlier evaluation of the same rule and service, at least that long ago, found it breached, and
  no evaluation since found it cleared or below the sample floor.
\<close>

theorem opens_only_sustained:
  assumes "wfTable (esProblems st)" "\<forall>k. mirrorSync k st" "\<forall>k. esBreachSince st k = None" "ticksOK ticks st"
    and "snd (runTicks ticks st) = xs @ ((env, r, s, m), evs) # ys" "eventOf evs = Opens" "arForSec r \<noteq> 0"
  shows "pairBreached (env, r, s, m) \<and>
         (\<exists>t \<le> eeNow env - secondsOf (arForSec r). sustainedSince (filter (\<lambda>p. pairKey p = (arID r, s)) (map fst xs)) t)"
proof -
  let ?a = "fst (specRun (filter (\<lambda>p. pairKey p = (arID r, s)) (map fst xs)) (absAlert (arID r, s) st))"
  have "snd (specStep r (eeNow env) (eeUpsertOK env) m ?a) = Opens" using runTicks_event [OF assms(1,2,4,5)] assms(6) by simp
  then obtain t where t: "pairBreached (env, r, s, m)" "asSince ?a = Some t" "\<not> eeNow env - t < secondsOf (arForSec r)"
    using assms(7) by (auto simp: specStep_def Let_def split: if_splits option.splits)
  moreover have "asSince (absAlert (arID r, s) st) = None" using assms(3) by (simp add: absAlert_def)
  ultimately show ?thesis using specRun_since by (intro conjI exI [of _ t]) (auto simp: not_less)
qed

section \<open>An example\<close>

definition idleState :: EvalState where
  "idleState = \<lparr>esBreachSince = Map.empty, esLastResolved = Map.empty, esMirror = Map.empty, esProblems = [], esOpenedN = 0, esResolvedN = 0\<rparr>"

definition rateRule :: AlertRule where
  "rateRule = \<lparr>arID = ''r'', arName = ''errors'', arService = [], arMetric = ''error_rate'', arComparator = ''>'', arThreshold = 5,
     arSeverity = ''critical'', arEnabled = True, arForSec = 1, arMinSamples = 0, arCooldownSec = 60\<rparr>"

definition envAt :: "int \<Rightarrow> string \<Rightarrow> evalEnv" where
  "envAt now nid = \<lparr>eeNow = now, eeIO = \<lparr>ioCache = True, ioOK = (\<lambda>_. True)\<rparr>, eeUpsertOK = True, eeFindOK = True, eeNewID = nid,
     eeDescription = [], eeAssignee = []\<rparr>"

definition measured :: "rat \<Rightarrow> ruleMeasurement" where
  "measured v = \<lparr>rmValue = Some v, rmEvaluate = True, rmBelowFloor = False\<rparr>"

definition pairAt :: "int \<Rightarrow> string \<Rightarrow> rat \<Rightarrow> evalPair" where
  "pairAt now nid v = (envAt now nid, rateRule, ''web'', measured v)"

definition risingTicks :: "(bool \<times> evalPair list) list" where
  "risingTicks = [(True, [pairAt 5 ''p1'' 7]), (False, [pairAt 1000000005 ''p2'' 9])]"

lemma pairAt_OK [simp]: "pairOK (pairAt now nid v) \<longleftrightarrow> nid \<noteq> []"
  by (auto simp: pairOK_def pairAt_def envAt_def rateRule_def noBar_def reachable_mirror_def)

lemma risingTicks_OK: "ticksOK risingTicks idleState"
proof -
  have "esProblems (fst (evaluateTick True [pairAt 5 ''p1'' 7] idleState)) = []"
    by (simp add: pairAt_def envAt_def rateRule_def measured_def idleState_def evaluateTick_def evaluateOne_def Let_def compare_def
        sustainGate_def breachStart_def stampGet_def mirrorGet_def stampSet_def)
  then show ?thesis by (simp add: risingTicks_def pairsOK_def idleState_def) (simp add: pairAt_def envAt_def)
qed

lemma idleState_props: "wfTable (esProblems idleState)" "\<forall>k. mirrorSync k idleState" "\<forall>k. esBreachSince idleState k = None"
  by (simp_all add: idleState_def wfTable_def mirrorSync_def openRows_def)

lemma risingTicks_pairs: "map fst (snd (runTicks risingTicks idleState)) = [pairAt 5 ''p1'' 7, pairAt 1000000005 ''p2'' 9]"
  by (simp add: risingTicks_def evaluateTick_def pairAt_def split_beta Let_def)

lemma rising_spec:
  "snd (specRun [pairAt 5 ''p1'' 7, pairAt 1000000005 ''p2'' 9] (absAlert (''r'', ''web'') idleState)) = [Quiet, Opens]"
  by (simp add: pairAt_def envAt_def rateRule_def measured_def idleState_def absAlert_def openRows_def specStep_def compare_def secondsOf_def Let_def)

theorem ticks_refine_witness:
  "map (\<lambda>x. eventOf (snd x)) (filter (\<lambda>x. pairKey (fst x) = (''r'', ''web'')) (snd (runTicks risingTicks idleState))) = [Quiet, Opens]"
proof -
  have "(absAlert (''r'', ''web'') (fst (runTicks risingTicks idleState)),
      map (\<lambda>x. eventOf (snd x)) (filter (\<lambda>x. pairKey (fst x) = (''r'', ''web'')) (snd (runTicks risingTicks idleState)))) =
    specRun (filter (\<lambda>p. pairKey p = (''r'', ''web'')) (map fst (snd (runTicks risingTicks idleState)))) (absAlert (''r'', ''web'') idleState)"
    using ticks_refine [OF idleState_props(1,2) risingTicks_OK] by blast
  moreover have "filter (\<lambda>p. pairKey p = (''r'', ''web'')) (map fst (snd (runTicks risingTicks idleState))) =
      [pairAt 5 ''p1'' 7, pairAt 1000000005 ''p2'' 9]"
    unfolding risingTicks_pairs by (simp add: pairAt_def rateRule_def)
  ultimately show ?thesis using rising_spec by (metis snd_conv)
qed

theorem opens_only_sustained_witness: "\<exists>t \<le> 5. sustainedSince [pairAt 5 ''p1'' 7] t"
proof -
  obtain e1 e2 where run: "snd (runTicks risingTicks idleState) =
      [(pairAt 5 ''p1'' 7, e1)] @ ((envAt 1000000005 ''p2'', rateRule, ''web'', measured 9), e2) # []"
    using risingTicks_pairs by (auto simp: map_eq_Cons_conv pairAt_def)
  have key: "filter (\<lambda>p. pairKey p = (arID rateRule, ''web'')) (map fst [(pairAt 5 ''p1'' 7, e1)]) = [pairAt 5 ''p1'' 7]"
    by (simp add: pairAt_def)
  have "eventOf e2 = snd (specStep rateRule 1000000005 True (measured 9) (fst (specRun [pairAt 5 ''p1'' 7] (absAlert (arID rateRule, ''web'') idleState))))"
    using runTicks_event [OF idleState_props(1,2) risingTicks_OK run] unfolding key by (simp add: envAt_def)
  then have "eventOf e2 = Opens"
    by (simp add: pairAt_def envAt_def rateRule_def measured_def idleState_def absAlert_def openRows_def specStep_def compare_def secondsOf_def Let_def)
  then show ?thesis
    using opens_only_sustained [OF idleState_props risingTicks_OK run] unfolding key by (simp add: rateRule_def envAt_def secondsOf_def)
qed

section \<open>A fleet of replicas\<close>

text \<open>
  Every replica has its own maps in memory and keeps them when it loses the lease; the mirror and the table are shared. Whichever
  replica holds the lease evaluates, on any snapshot; a replica that restarts has empty maps.
\<close>

record FleetEval =
  feBreachSince :: "nat \<Rightarrow> breachKey \<rightharpoonup> int"
  feLastResolved :: "nat \<Rightarrow> breachKey \<rightharpoonup> int"
  feShared :: EvalState

datatype replicaAct = EvaluateOn nat evalPair "StoredProblem list option" | RestartReplica nat

definition replicaView :: "nat \<Rightarrow> FleetEval \<Rightarrow> EvalState" where
  "replicaView i fl = (feShared fl)\<lparr>esBreachSince := feBreachSince fl i, esLastResolved := feLastResolved fl i\<rparr>"

definition fleetEvaluate :: "nat \<Rightarrow> evalPair \<Rightarrow> StoredProblem list option \<Rightarrow> FleetEval \<Rightarrow> FleetEval \<times> evalEvent list" where
  "fleetEvaluate i p snap fl =
     (case p of (env, r, s, m) \<Rightarrow>
      let (st, evs) = evaluateOne env r s m snap (replicaView i fl) in
      (\<lparr>feBreachSince = (feBreachSince fl)(i := esBreachSince st), feLastResolved = (feLastResolved fl)(i := esLastResolved st),
        feShared = st\<rparr>, evs))"

definition restartReplica :: "nat \<Rightarrow> FleetEval \<Rightarrow> FleetEval" where
  "restartReplica i fl = fl\<lparr>feBreachSince := (feBreachSince fl)(i := Map.empty), feLastResolved := (feLastResolved fl)(i := Map.empty)\<rparr>"

fun runFleet :: "replicaAct list \<Rightarrow> FleetEval \<Rightarrow> FleetEval \<times> (evalPair \<times> evalEvent list) list" where
  "runFleet [] fl = (fl, [])"
| "runFleet (RestartReplica i # acts) fl = runFleet acts (restartReplica i fl)"
| "runFleet (EvaluateOn i p snap # acts) fl =
     (let (fl1, evs) = fleetEvaluate i p snap fl; (fl2, rest) = runFleet acts fl1 in (fl2, (p, evs) # rest))"

text \<open>
  No stamp in memory is older than the close at \<open>l\<close>, and the mirror has the stamp of a close that is not older, for as long as
  the cooldown lasts.
\<close>

definition mirrorStamp :: "breachKey \<Rightarrow> 32 word \<Rightarrow> int \<Rightarrow> EvalState \<Rightarrow> bool" where
  "mirrorStamp k c l st \<longleftrightarrow>
     (\<exists>t \<ge> l. 0 < t \<and> in64 t \<and> esMirror st (stampKey stampKindResolved k) = Some (itoa t, t + stampTTL c))"

definition coolStamp :: "breachKey \<Rightarrow> 32 word \<Rightarrow> int \<Rightarrow> EvalState \<Rightarrow> bool" where
  "coolStamp k c l st \<longleftrightarrow> (\<forall>t. esLastResolved st k = Some t \<longrightarrow> l \<le> t) \<and> mirrorStamp k c l st"

definition coolFleet :: "breachKey \<Rightarrow> 32 word \<Rightarrow> int \<Rightarrow> FleetEval \<Rightarrow> bool" where
  "coolFleet k c l fl \<longleftrightarrow> (\<forall>i. coolStamp k c l (replicaView i fl))"

lemma gate_resolved:
  "esLastResolved (snd (sustainGate env r k b st)) = esLastResolved st"
  "esMirror (snd (sustainGate env r k b st)) (stampKey stampKindResolved k') = esMirror st (stampKey stampKindResolved k')"
  "esLastResolved (clearBreach io k st) = esLastResolved st"
  "esMirror (clearBreach io k st) (stampKey stampKindResolved k') = esMirror st (stampKey stampKindResolved k')"
  by (auto simp: sustainGate_def breachStart_def clearBreach_def stampOps Let_def split: option.splits)

lemma coolStamp_cong:
  assumes "esLastResolved st k = esLastResolved st' k" "esMirror st (stampKey stampKindResolved k) = esMirror st' (stampKey stampKindResolved k)"
  shows "coolStamp k c l st = coolStamp k c l st'"
  using assms by (simp add: coolStamp_def mirrorStamp_def)

text \<open>What the transitions do to the stamp of a key.\<close>

lemma cooldown_step:
  assumes "coolStamp k c l st" "reachable_mirror (eeIO env)" "arCooldownSec r = c" "l \<le> eeNow env"
  shows "coolStamp k c l (snd (inCooldown env r k st))"
    "fst (inCooldown env r k st) \<or> secondsOf c \<le> eeNow env - l"
proof -
  obtain t where t: "l \<le> t" "0 < t" "in64 t" "esMirror st (stampKey stampKindResolved k) = Some (itoa t, t + stampTTL c)"
    using assms(1) by (auto simp: coolStamp_def mirrorStamp_def)
  have mem: "l \<le> u" if "esLastResolved st k = Some u" for u using that assms(1) by (simp add: coolStamp_def)
  note defs = inCooldown_def resolvedAt_def stampGet_def mirrorGet_def reachable_mirror_def secondsOf_def Let_def
  show "coolStamp k c l (snd (inCooldown env r k st))"
    using t mem assms(2,3) Atoi_itoa [OF t(3)] by (auto simp: coolStamp_def mirrorStamp_def defs split: option.splits if_splits)
  show "fst (inCooldown env r k st) \<or> secondsOf c \<le> eeNow env - l"
  proof (cases "esLastResolved st k")
    case (Some u)
    then show ?thesis using mem [OF Some] assms(3,4) by (auto simp: defs)
  next
    case None
    then show ?thesis using t assms(2-4) Atoi_itoa [OF t(3)] stampTTL_bounds(1) [of c] by (auto simp: defs split: if_splits)
  qed
qed

definition stampedAfter :: "breachKey \<Rightarrow> 32 word \<Rightarrow> int \<Rightarrow> int \<Rightarrow> EvalState \<times> evalEvent list \<Rightarrow> bool" where
  "stampedAfter k c l now res \<longleftrightarrow>
     coolStamp k c l (fst res) \<and> (eventOf (snd res) = Opens \<longrightarrow> secondsOf c \<le> now - l)"

lemma stampResolved_cool:
  "reachable_mirror io \<Longrightarrow> 0 < now \<Longrightarrow> in64 now \<Longrightarrow> l \<le> now \<Longrightarrow> coolStamp k c l (stampResolved io k now c st)"
  by (auto simp: coolStamp_def mirrorStamp_def stampResolved_def stampOps reachable_mirror_def)

lemma settle_cooldown:
  assumes "coolStamp (arID r, s) c l st" "reachable_mirror (eeIO env)" "arCooldownSec r = c" "l \<le> eeNow env" "0 < eeNow env" "in64 (eeNow env)"
  shows "stampedAfter (arID r, s) c l (eeNow env) (settle env r s mt v b cur st)"
proof -
  let ?k = "(arID r, s)"
  note cd = cooldown_step [OF assms(1-4)]
  have opened: "stampedAfter ?k c l (eeNow env) (let (cool, st') = inCooldown env r ?k st in
      if cool then (st', []) else openProblem env (newProblem env r s mt v) st')"
    using cd by (auto simp: stampedAfter_def openProblem_def split_beta Let_def coolStamp_def mirrorStamp_def)
  have "stampedAfter ?k c l (eeNow env) (resolveProblem env r ?k p st)" for p
  proof -
    have "coolStamp ?k c l (stampResolved (eeIO env) ?k (eeNow env) c st'\<lparr>esResolvedN := n\<rparr>)" for st' n
      using stampResolved_cool [OF assms(2,5,6,4), of ?k c st'] by (simp add: coolStamp_def mirrorStamp_def)
    then show ?thesis using assms(1,3) by (simp add: stampedAfter_def resolveProblem_def Let_def)
  qed
  moreover have "stampedAfter ?k c l (eeNow env) (refreshProblem env p v st, [])" for p
    using assms(1) by (auto simp: stampedAfter_def refreshProblem_def coolStamp_def mirrorStamp_def)
  moreover have "stampedAfter ?k c l (eeNow env) (st, [])" using assms(1) by (simp add: stampedAfter_def)
  ultimately show ?thesis using opened unfolding settle_def Let_def by (simp split del: prod.split)
qed

lemma evaluateOne_cooldown:
  assumes "coolStamp (arID r, s) c l st" "reachable_mirror (eeIO env)" "arCooldownSec r = c" "l \<le> eeNow env" "0 < eeNow env" "in64 (eeNow env)"
  shows "stampedAfter (arID r, s) c l (eeNow env) (evaluateOne env r s m snap st)"
proof -
  let ?k = "(arID r, s)" and ?b = "compare (rmValue m) (arComparator r) (arThreshold r)"
  let ?g = "snd (sustainGate env r ?k ?b st)"
  have g: "coolStamp ?k c l ?g" using assms(1) by (simp add: coolStamp_def mirrorStamp_def gate_resolved)
  have b: "coolStamp ?k c l (clearBreach (eeIO env) ?k st)" using assms(1) by (simp add: coolStamp_def mirrorStamp_def gate_resolved)
  note set = settle_cooldown [OF g assms(2-6), of "arMetric r" "rmValue m" ?b]
  have idle: "stampedAfter ?k c l (eeNow env) (x, [])" if "coolStamp ?k c l x" for x using that by (simp add: stampedAfter_def)
  show ?thesis using set idle [OF g] idle [OF b] idle [OF assms(1)] by (cases "s = []") (simp_all add: evaluateOne_def Let_def split_beta)
qed

lemma evaluateOne_other:
  assumes "k \<noteq> (arID r, s)" "coolStamp k c l st"
  shows "coolStamp k c l (fst (evaluateOne env r s m snap st))"
proof -
  let ?k = "(arID r, s)" and ?b = "compare (rmValue m) (arComparator r) (arThreshold r)"
  have "coolStamp k c l (fst (settle env r s mt v b cur st'))" if "coolStamp k c l st'" for mt v b cur st'
    using that assms(1) inCooldown_frame(3) [of env r ?k st'] inCooldown_frame(4) [of k ?k env r st']
    by (auto simp: settle_def openProblem_def refreshProblem_def resolveProblem_def stampResolved_def stampOps coolStamp_def mirrorStamp_def Let_def split_beta)
  moreover have "coolStamp k c l (snd (sustainGate env r ?k ?b st))" "coolStamp k c l (clearBreach (eeIO env) ?k st)"
    using assms(2) by (simp_all add: coolStamp_def mirrorStamp_def gate_resolved)
  ultimately show ?thesis using assms(2) by (simp add: evaluateOne_def Let_def split_beta)
qed

text \<open>An evaluation whose mirror answers, at a positive time, with one cooldown for the rule.\<close>

definition actOK :: "breachKey \<Rightarrow> 32 word \<Rightarrow> int \<Rightarrow> replicaAct \<Rightarrow> bool" where
  "actOK k c l act \<longleftrightarrow>
     (case act of
        RestartReplica _ \<Rightarrow> True
      | EvaluateOn _ (env, r, s, m) _ \<Rightarrow>
          reachable_mirror (eeIO env) \<and> l \<le> eeNow env \<and> 0 < eeNow env \<and> in64 (eeNow env) \<and> ((arID r, s) = k \<longrightarrow> arCooldownSec r = c))"

lemma coolFleet_view:
  assumes "coolFleet k c l fl" "coolStamp k c l st"
  shows "coolFleet k c l \<lparr>feBreachSince = bs, feLastResolved = (feLastResolved fl)(i := esLastResolved st), feShared = st\<rparr>"
  using assms by (auto simp: coolFleet_def coolStamp_def mirrorStamp_def replicaView_def)

lemma fleetEvaluate_cool:
  assumes "coolFleet k c l fl" "actOK k c l (EvaluateOn i p snap)"
  shows "coolFleet k c l (fst (fleetEvaluate i p snap fl))"
    and "pairKey p = k \<Longrightarrow> eventOf (snd (fleetEvaluate i p snap fl)) = Opens \<Longrightarrow> secondsOf c \<le> eeNow (pairEnv p) - l"
proof -
  obtain env r s m where p: "p = (env, r, s, m)" by (cases p)
  let ?R = "evaluateOne env r s m snap (replicaView i fl)"
  have v: "coolStamp k c l (replicaView i fl)" using assms(1) by (simp add: coolFleet_def)
  have ok: "reachable_mirror (eeIO env)" "l \<le> eeNow env" "0 < eeNow env" "in64 (eeNow env)" "(arID r, s) = k \<Longrightarrow> arCooldownSec r = c"
    using assms(2) p by (auto simp: actOK_def)
  have own: "stampedAfter k c l (eeNow env) ?R" if "(arID r, s) = k"
    using evaluateOne_cooldown [of r s c l "replicaView i fl" env m snap] v ok that by simp
  have "coolStamp k c l (fst ?R)"
    using own evaluateOne_other [of k r s c l "replicaView i fl" env m snap] v by (cases "(arID r, s) = k") (auto simp: stampedAfter_def)
  from coolFleet_view [OF assms(1) this] show "coolFleet k c l (fst (fleetEvaluate i p snap fl))"
    by (simp add: fleetEvaluate_def p split_beta Let_def)
  show "secondsOf c \<le> eeNow (pairEnv p) - l" if "pairKey p = k" "eventOf (snd (fleetEvaluate i p snap fl)) = Opens"
    using own that by (simp add: stampedAfter_def fleetEvaluate_def p split_beta Let_def)
qed

lemma cooldown_holds:
  assumes "coolFleet k c l fl" "\<forall>a \<in> set acts. actOK k c l a"
    and "(p, e) \<in> set (snd (runFleet acts fl))" "pairKey p = k" "eventOf e = Opens"
  shows "secondsOf c \<le> eeNow (pairEnv p) - l"
  using assms
proof (induction acts fl rule: runFleet.induct)
  case (2 i acts fl)
  have "coolFleet k c l (restartReplica i fl)"
    using 2(2) by (auto simp: coolFleet_def coolStamp_def mirrorStamp_def replicaView_def restartReplica_def)
  then show ?case using 2 by simp
next
  case (3 i q snap acts fl)
  have ok: "actOK k c l (EvaluateOn i q snap)" "\<forall>a \<in> set acts. actOK k c l a" using 3(3) by auto
  note step = fleetEvaluate_cool [OF 3(2) ok(1)]
  consider "p = q" "e = snd (fleetEvaluate i q snap fl)" | "(p, e) \<in> set (snd (runFleet acts (fst (fleetEvaluate i q snap fl))))"
    using 3(4) by (auto simp: split_beta Let_def)
  then show ?case
  proof cases
    case 1
    then show ?thesis using step(2) 3(5,6) by simp
  next
    case 2
    then show ?thesis using "3"(1) [OF refl prod.collapse step(1) ok(2) _ 3(5,6)] by simp
  qed
qed simp

lemma evaluateOne_closes:
  assumes "eventOf (snd (evaluateOne env r s m snap st)) = Closes" "reachable_mirror (eeIO env)" "0 < eeNow env" "in64 (eeNow env)"
  shows "coolStamp (arID r, s) (arCooldownSec r) (eeNow env) (fst (evaluateOne env r s m snap st))"
proof -
  have "coolStamp (arID r, s) (arCooldownSec r) (eeNow env) (fst (settle env r s mt v b cur st'))"
    if "eventOf (snd (settle env r s mt v b cur st')) = Closes" for mt v b cur st'
    using that assms(2-4)
    by (auto simp: settle_def openProblem_def resolveProblem_def stampResolved_def stampOps coolStamp_def mirrorStamp_def reachable_mirror_def Let_def split_beta split: if_splits)
  then show ?thesis using assms(1) by (auto simp: evaluateOne_def Let_def split_beta split: if_splits)
qed

text \<open>
  C6. When the evaluation of a rule closes a problem of a service, and no other replica has an older close of the same rule and
  service in its memory, then no replica opens a problem for them before the cooldown of the rule is over, whichever replicas
  take the lease afterwards, keep or lose their memory, and close again: as long as the mirror answers the evaluations. Closes by the
  sweep of silent problems and by operators set no cooldown.
\<close>

theorem cooldown_survives_failover:
  assumes "actOK (pairKey p1) c 0 (EvaluateOn i p1 snap)" "eventOf (snd (fleetEvaluate i p1 snap fl)) = Closes"
    and "\<forall>j. j \<noteq> i \<longrightarrow> feLastResolved fl j (pairKey p1) = None"
    and "\<forall>a \<in> set acts. actOK (pairKey p1) c (eeNow (pairEnv p1)) a"
    and "(p2, e2) \<in> set (snd (runFleet acts (fst (fleetEvaluate i p1 snap fl))))" "pairKey p2 = pairKey p1" "eventOf e2 = Opens"
  shows "secondsOf c \<le> eeNow (pairEnv p2) - eeNow (pairEnv p1)"
proof -
  obtain env r s m where p1: "p1 = (env, r, s, m)" by (cases p1)
  let ?R = "evaluateOne env r s m snap (replicaView i fl)"
  have ok: "reachable_mirror (eeIO env)" "0 < eeNow env" "in64 (eeNow env)" "arCooldownSec r = c" using assms(1) p1 by (auto simp: actOK_def)
  have closes: "eventOf (snd ?R) = Closes" using assms(2) by (simp add: fleetEvaluate_def p1 split_beta Let_def)
  have "coolStamp (arID r, s) c (eeNow env) (fst ?R)" using evaluateOne_closes [OF closes ok(1-3)] ok(4) by simp
  then have "coolFleet (arID r, s) c (eeNow env) (fst (fleetEvaluate i p1 snap fl))"
    using assms(3) p1 by (auto simp: coolFleet_def coolStamp_def mirrorStamp_def replicaView_def fleetEvaluate_def split_beta Let_def)
  then show ?thesis using cooldown_holds [of "pairKey p1" c "eeNow env"] assms(4-7) p1 by simp
qed

definition openState :: EvalState where
  "openState = idleState\<lparr>esProblems := [newProblem (envAt 5 ''p1'') rateRule ''web'' ''error_rate'' (Some 7)]\<rparr>"

lemmas evalStep_defs = evaluateOne_def sustainGate_def breachStart_def clearBreach_def settle_def openFor_def inCooldown_def resolvedAt_def
  openProblem_def refreshProblem_def resolveProblem_def stampResolved_def stampGet_def mirrorGet_def stampOps compare_def Let_def

definition freshFleet :: "EvalState \<Rightarrow> FleetEval" where
  "freshFleet st = \<lparr>feBreachSince = (\<lambda>_. Map.empty), feLastResolved = (\<lambda>_. Map.empty), feShared = st\<rparr>"

definition flapActs :: "replicaAct list" where
  "flapActs = [EvaluateOn 1 (pairAt 20000000000 ''p3'' 9) None, RestartReplica 0, EvaluateOn 0 (pairAt 70000000000 ''p4'' 9) None]"

lemmas flap_defs = openState_def idleState_def pairAt_def envAt_def rateRule_def measured_def evalStep_defs FindOpenProblem_def isOpenRow_def newProblem_def
  MarkResolved_def UpsertProblem_def Atoi_itoa in64_def stampTTL_bounds(2) stampMinTTL_def secondsOf_def fleetEvaluate_def replicaView_def
  restartReplica_def freshFleet_def

abbreviation flapClose :: "FleetEval \<times> evalEvent list" where
  "flapClose \<equiv> fleetEvaluate 0 (pairAt 5000000000 ''p2'' 1) None (freshFleet openState)"

lemma flap_close: "eventOf (snd flapClose) = Closes"
  by (simp add: flap_defs)

lemma flap_open: "\<exists>e. (pairAt 70000000000 ''p4'' 9, e) \<in> set (snd (runFleet flapActs (fst flapClose))) \<and> eventOf e = Opens"
  by (simp add: flapActs_def flap_defs)

theorem cooldown_survives_failover_witness:
  "secondsOf 60 \<le> eeNow (pairEnv (pairAt 70000000000 ''p4'' 9)) - eeNow (pairEnv (pairAt 5000000000 ''p2'' 1))"
proof -
  obtain e where e: "(pairAt 70000000000 ''p4'' 9, e) \<in> set (snd (runFleet flapActs (fst flapClose)))" "eventOf e = Opens"
    using flap_open by blast
  have key: "pairKey (pairAt t nid v) = (''r'', ''web'')" for t nid v by (simp add: pairAt_def rateRule_def)
  have "actOK (''r'', ''web'') 60 (eeNow (pairEnv (pairAt 5000000000 ''p2'' 1))) a" if "a \<in> set flapActs" for a
    using that by (auto simp: flapActs_def actOK_def pairAt_def envAt_def rateRule_def reachable_mirror_def in64_def)
  moreover have "actOK (''r'', ''web'') 60 0 (EvaluateOn 0 (pairAt 5000000000 ''p2'' 1) None)"
    by (simp add: actOK_def pairAt_def envAt_def rateRule_def reachable_mirror_def in64_def)
  moreover have "\<forall>j. j \<noteq> 0 \<longrightarrow> feLastResolved (freshFleet openState) j (''r'', ''web'') = None" by (simp add: freshFleet_def)
  ultimately show ?thesis
    using cooldown_survives_failover [of "pairAt 5000000000 ''p2'' 1" 60 0 None "freshFleet openState" flapActs "pairAt 70000000000 ''p4'' 9" e] flap_close e
    unfolding key by blast
qed

section \<open>Where the gates miss\<close>

text \<open>
  The sustain gate stands before the lookup of the open problem, so a breach that a new leader sees for the first time
  (the mirror key of a long breach has expired) leaves an open problem without its refresh until the sustain time
  has passed again. A comment says that open problems do not pass through the gate.
\<close>

lemma open_problem_not_refreshed:
  assumes "esBreachSince st (arID r, s) = None" "stampGet (eeIO env) (esMirror st) (eeNow env) (stampKey stampKindBreach (arID r, s)) = None"
    and "arForSec r \<noteq> 0" "rmEvaluate m" "\<not> rmBelowFloor m" "compare (rmValue m) (arComparator r) (arThreshold r)"
  shows "esProblems (fst (evaluateOne env r s m snap st)) = esProblems st \<and> snd (evaluateOne env r s m snap st) = []"
  using assms by (simp add: evaluateOne_def sustainGate_def breachStart_def Let_def)

text \<open>
  When both reads of the open problem fail, a breach opens a second problem for the same rule and service, and
  a counted rule does so as soon as the snapshot fails.
\<close>

lemma read_error_opens_duplicate:
  "length (openRows (esProblems (fst (evaluateOne ((envAt 9000000000 ''p2'')\<lparr>eeFindOK := False\<rparr>) (rateRule\<lparr>arForSec := 0\<rparr>) ''web'' (measured 9) None openState)))
     (''r'', ''web'')) = 2"
  by (simp add: openState_def idleState_def envAt_def rateRule_def measured_def evalStep_defs openRows_def isOpenRow_def newProblem_def UpsertProblem_def)

text \<open>
  A replica that loses and regains the lease keeps its maps: a stamp that another leader has cleared since is still in
  its memory, and the first breach that it sees opens a problem at once.
\<close>

lemma regained_lease_opens_early:
  "eventOf (snd (evaluateOne (envAt 900000000000 ''p9'') rateRule ''web'' (measured 9) None
     (idleState\<lparr>esBreachSince := [(''r'', ''web'') \<mapsto> 5]\<rparr>))) = Opens"
  by (simp add: idleState_def envAt_def rateRule_def measured_def evalStep_defs FindOpenProblem_def newProblem_def secondsOf_def)

text \<open>
  The same holds for the cooldown: replica 1 remembers a close at 5 s, replica 0 closes the next problem at 70 s, and replica 1,
  which has the lease again, opens one at 75 s although the cooldown of the rule is 60 s.
\<close>

lemma regained_lease_skips_cooldown:
  "\<exists>fl e. fleetEvaluate 0 (pairAt 70000000000 ''p2'' 1) None ((freshFleet openState)\<lparr>feLastResolved := (\<lambda>_. Map.empty)(1 := [(''r'', ''web'') \<mapsto> 5000000000])\<rparr>) = (fl, e) \<and>
     eventOf e = Closes \<and>
     eventOf (snd (evaluateOne (envAt 75000000000 ''p3'') (rateRule\<lparr>arForSec := 0\<rparr>) ''web'' (measured 9) None (replicaView 1 fl))) = Opens"
  by (simp add: flap_defs)

end
