(* ===== verification/Keyed.thy ===== *)
theory Keyed
  imports Prelude
begin

text \<open>
  Tables with one row per key, as a list: writing a row replaces the one with its key. A loop that reads rows first and then
  writes some of them back one by one is the image of the table under the function that it applies.
\<close>

definition upsertRow :: "('a \<Rightarrow> 'k) \<Rightarrow> 'a \<Rightarrow> 'a list \<Rightarrow> 'a list" where
  "upsertRow key x xs = x # filter (\<lambda>y. key y \<noteq> key x) xs"

definition rewriteRows :: "('a \<Rightarrow> 'k) \<Rightarrow> ('a \<Rightarrow> 'a option) \<Rightarrow> 'a list \<Rightarrow> 'a list \<Rightarrow> 'a list" where
  "rewriteRows key f ps tbl = fold (\<lambda>p tbl. case f p of None \<Rightarrow> tbl | Some q \<Rightarrow> upsertRow key q tbl) ps tbl"

definition rewritten :: "('a \<Rightarrow> 'a option) \<Rightarrow> 'a set \<Rightarrow> 'a \<Rightarrow> 'a" where
  "rewritten f P p = (case (if p \<in> P then f p else None) of None \<Rightarrow> p | Some q \<Rightarrow> q)"

lemma rewriteRows_simps [simp]:
  "rewriteRows key f [] tbl = tbl"
  "rewriteRows key f (p # ps) tbl = rewriteRows key f ps (case f p of None \<Rightarrow> tbl | Some q \<Rightarrow> upsertRow key q tbl)"
  by (simp_all add: rewriteRows_def)

lemma upsertRow_keys: "distinct (map key tbl) \<Longrightarrow> distinct (map key (upsertRow key q tbl))"
  by (auto simp: upsertRow_def distinct_map_filter)

lemma set_upsertRow:
  assumes "distinct (map key tbl)" "p \<in> set tbl" "key q = key p"
  shows "set (upsertRow key q tbl) = insert q (set tbl - {p})"
proof -
  have "key y = key p \<longleftrightarrow> y = p" if "y \<in> set tbl" for y
    using that assms(1,2) by (auto simp: distinct_map inj_on_def)
  then show ?thesis using assms(3) by (auto simp: upsertRow_def)
qed

lemma rewriteRows_keys: "distinct (map key tbl) \<Longrightarrow> distinct (map key (rewriteRows key f ps tbl))"
  by (induction ps arbitrary: tbl) (auto simp: upsertRow_keys split: option.splits)

lemma rewriteRows_image:
  assumes "distinct (map key tbl)" "distinct (map key ps)" "set ps \<subseteq> set tbl" "\<And>p q. p \<in> set ps \<Longrightarrow> f p = Some q \<Longrightarrow> key q = key p"
  shows "set (rewriteRows key f ps tbl) = rewritten f (set ps) ` set tbl"
  using assms
proof (induction ps arbitrary: tbl)
  case (Cons p ps)
  have notin: "p \<notin> set ps" "key p \<notin> key ` set ps" using Cons.prems(2) by auto
  have same: "rewritten f (set (p # ps)) x = rewritten f (set ps) x" if "x \<noteq> p" for x
    using that by (simp add: rewritten_def)
  show ?case
  proof (cases "f p")
    case (Some q)
    let ?tbl = "upsertRow key q tbl"
    have q: "key q = key p" using Cons.prems(4) [OF _ Some] by simp
    have tbl: "set ?tbl = insert q (set tbl - {p})"
      using set_upsertRow [OF Cons.prems(1), of p q] Cons.prems(3) q by simp
    have "set ps \<subseteq> set ?tbl" using Cons.prems(3) notin(1) unfolding tbl by auto
    then have "set (rewriteRows key f ps ?tbl) = rewritten f (set ps) ` insert q (set tbl - {p})"
      using Cons.IH [OF upsertRow_keys [OF Cons.prems(1), of q]] Cons.prems(2,4) tbl by simp
    also have "\<dots> = insert (rewritten f (set ps) q) (rewritten f (set ps) ` (set tbl - {p}))" by (rule image_insert)
    also have "rewritten f (set ps) q = rewritten f (set (p # ps)) p"
    proof -
      have "q \<notin> set ps" using notin(2) q by (metis imageI)
      then show ?thesis using Some by (simp add: rewritten_def)
    qed
    also have "rewritten f (set ps) ` (set tbl - {p}) = rewritten f (set (p # ps)) ` (set tbl - {p})"
      using same by (intro image_cong) auto
    also have "insert (rewritten f (set (p # ps)) p) (rewritten f (set (p # ps)) ` (set tbl - {p})) =
      rewritten f (set (p # ps)) ` insert p (set tbl - {p})" by (rule image_insert [symmetric])
    also have "insert p (set tbl - {p}) = set tbl" using Cons.prems(3) by auto
    finally show ?thesis using Some by simp
  next
    case None
    have "rewritten f (set (p # ps)) = rewritten f (set ps)"
      using None notin(1) by (auto simp: fun_eq_iff rewritten_def)
    then show ?thesis using None Cons.IH [OF Cons.prems(1)] Cons.prems(2-4) by simp
  qed
qed (simp add: rewritten_def)

text \<open>
  A table to which rows are written with a stamp, as the sweeps see it: the stamp keeps the key, and a write replaces the row
  of its key. A sweep that reads rows and writes some of them back is then the image of the table.
\<close>

locale keyed_table =
  fixes key :: "'a \<Rightarrow> 'k" and stamp :: "'a \<Rightarrow> 'a" and wr :: "'a \<Rightarrow> 'a list \<Rightarrow> 'a list"
  assumes key_stamp: "key (stamp x) = key x"
    and wr_row: "wr x tbl = upsertRow key (stamp x) tbl"
begin

lemma wr_keys: "distinct (map key tbl) \<Longrightarrow> distinct (map key (wr x tbl))"
  by (simp add: wr_row upsertRow_keys)

lemma set_wr:
  assumes "distinct (map key tbl)" "p \<in> set tbl" "key q = key p"
  shows "set (wr q tbl) = insert (stamp q) (set tbl - {p})"
  using set_upsertRow [OF assms(1,2), of "stamp q"] assms(3) by (simp add: wr_row key_stamp)

lemma wr_loop:
  "fold (\<lambda>p tbl. case f p of None \<Rightarrow> tbl | Some q \<Rightarrow> wr q tbl) ps tbl = rewriteRows key (\<lambda>p. map_option stamp (f p)) ps tbl"
proof -
  have "(\<lambda>p tbl. case f p of None \<Rightarrow> tbl | Some q \<Rightarrow> wr q tbl) =
      (\<lambda>p tbl. case map_option stamp (f p) of None \<Rightarrow> tbl | Some q \<Rightarrow> upsertRow key q tbl)"
    by (auto simp: fun_eq_iff wr_row split: option.splits)
  then show ?thesis by (simp add: rewriteRows_def)
qed

lemma loop_key: "(\<And>p q. f p = Some q \<Longrightarrow> key q = key p) \<Longrightarrow> key (rewritten (\<lambda>p. map_option stamp (f p)) P p) = key p"
  using key_stamp by (auto simp: rewritten_def split: option.splits)

lemma loop_image:
  assumes "distinct (map key tbl)" "distinct (map key ps)" "set ps \<subseteq> set tbl" "\<And>p q. f p = Some q \<Longrightarrow> key q = key p"
  shows "set (rewriteRows key (\<lambda>p. map_option stamp (f p)) ps tbl) = rewritten (\<lambda>p. map_option stamp (f p)) (set ps) ` set tbl"
  using assms key_stamp by (intro rewriteRows_image) auto

end

end
