(* ===== verification/Incidents.thy ===== *)
theory Incidents
  imports AlertEval Keyed
begin

text \<open>
  Incidents (\<open>internal/chstore/incident.go\<close>, \<open>incident_lifecycle.go\<close>, \<open>incident_priority.go\<close>,
  \<open>incident_problem_counts.go\<close>): the table, the binding of problems, grouping by service and by neighbours, the cascade of
  the evaluator that resolves them, and the handlers of operators (\<open>internal/api/api_incidents.go\<close>). A table holds the
  last version of each row. Which calls of the store succeed, the instant, fresh identifiers, the actor and the neighbours of a
  service are arguments. Dashes and arrows in texts are their bytes in UTF-8.
\<close>

section \<open>Tables\<close>

record Incident =
  incID :: string
  incTitle :: string
  incSeverity :: string
  incStatus :: string
  incService :: string
  incSummary :: string
  incAssignee :: string
  incPostmortem :: string
  incStartedAt :: int
  incAckAt :: "int option"
  incResolvedAt :: "int option"
  incUpdatedAt :: int

record IncidentEvent =
  ieIncidentID :: string
  ieTime :: int
  ieKind :: string
  ieActor :: string
  ieBody :: string
  ieRefID :: string

record IncidentStore =
  itIncidents :: "Incident list"
  itBindings :: "string \<rightharpoonup> string"
  itEvents :: "IncidentEvent list"
  itNotified :: "(Incident \<times> IncidentEvent) list"

text \<open>The surroundings of one operation: the instant, an identifier, the main switch, the hook and the calls that succeed.\<close>

record incidentIO =
  iioNow :: int
  iioNewID :: string
  iioEnabled :: bool
  iioHook :: bool
  iioReadBinding :: bool
  iioMatch :: bool
  iioGet :: bool
  iioUpsert :: bool
  iioBind :: bool
  iioEvent :: bool

record IncidentFilter =
  ifID :: string
  ifStatus :: string
  ifServices :: "string list option"
  ifNotStatuses :: "string list"
  ifService :: string
  ifSeverity :: string
  ifLimit :: int

definition keepsIncident :: "IncidentFilter \<Rightarrow> Incident \<Rightarrow> bool" where
  "keepsIncident f i \<longleftrightarrow>
     (ifID f \<noteq> [] \<longrightarrow> incID i = ifID f) \<and> (ifStatus f \<noteq> [] \<longrightarrow> incStatus i = ifStatus f) \<and>
     incStatus i \<notin> set (ifNotStatuses f) \<and>
     (case ifServices f of None \<Rightarrow> True | Some ss \<Rightarrow> incService i \<in> set ss) \<and>
     (ifService f \<noteq> [] \<longrightarrow> incService i = ifService f) \<and> (ifSeverity f \<noteq> [] \<longrightarrow> incSeverity i = ifSeverity f)"

definition incidentLimit :: "int \<Rightarrow> nat" where
  "incidentLimit n = (if n \<le> 0 \<or> 1000 < n then 200 else nat n)"

text \<open>A pointer to a time is set only when the time is positive.\<close>

definition scanned :: "Incident \<Rightarrow> Incident" where
  "scanned i =
     (let pos = (\<lambda>t. case t of None \<Rightarrow> None | Some x \<Rightarrow> if 0 < x then Some x else None) in
      i\<lparr>incAckAt := pos (incAckAt i), incResolvedAt := pos (incResolvedAt i)\<rparr>)"

definition ListIncidents :: "IncidentFilter \<Rightarrow> Incident list \<Rightarrow> Incident list" where
  "ListIncidents f tbl = map scanned (take (incidentLimit (ifLimit f)) (sort_key (\<lambda>i. - incStartedAt i) (filter (keepsIncident f) tbl)))"

definition CountIncidentsByStatus :: "string \<Rightarrow> Incident list \<Rightarrow> string \<Rightarrow> nat" where
  "CountIncidentsByStatus service tbl status = length (filter (\<lambda>i. (service \<noteq> [] \<longrightarrow> incService i = service) \<and> incStatus i = status) tbl)"

definition CountIncidentsNotInStatuses :: "string list \<Rightarrow> string list option \<Rightarrow> Incident list \<Rightarrow> nat" where
  "CountIncidentsNotInStatuses exclude env tbl =
     length (filter (\<lambda>i. incStatus i \<notin> set exclude \<and>
        (case env of None \<Rightarrow> True | Some ss \<Rightarrow> incService i = [] \<or> incService i \<in> set ss)) tbl)"

definition GetIncident :: "string \<Rightarrow> Incident list \<Rightarrow> Incident option" where
  "GetIncident ident tbl =
     (if ident = [] then None
      else (case ListIncidents \<lparr>ifID = ident, ifStatus = [], ifServices = None, ifNotStatuses = [], ifService = [], ifSeverity = [], ifLimit = 1\<rparr> tbl of
              [] \<Rightarrow> None
            | i # _ \<Rightarrow> Some i))"

text \<open>Defaults of a row that is written.\<close>

definition filledIncident :: "incidentIO \<Rightarrow> Incident \<Rightarrow> Incident" where
  "filledIncident io i =
     i\<lparr>incID := (if incID i = [] then iioNewID io else incID i),
       incStatus := (if incStatus i = [] then ''open'' else incStatus i),
       incSeverity := (if incSeverity i = [] then ''warning'' else incSeverity i),
       incStartedAt := (if incStartedAt i = 0 then iioNow io else incStartedAt i),
       incUpdatedAt := iioNow io\<rparr>"

definition UpsertIncident :: "incidentIO \<Rightarrow> Incident \<Rightarrow> IncidentStore \<Rightarrow> Incident \<times> IncidentStore" where
  "UpsertIncident io i st =
     (let j = filledIncident io i in (j, st\<lparr>itIncidents := j # filter (\<lambda>k. incID k \<noteq> incID j) (itIncidents st)\<rparr>))"

definition AppendIncidentEvent :: "incidentIO \<Rightarrow> IncidentEvent \<Rightarrow> IncidentStore \<Rightarrow> IncidentStore" where
  "AppendIncidentEvent io ev st =
     (if iioEvent io then st\<lparr>itEvents := itEvents st @ [if ieTime ev = 0 then ev\<lparr>ieTime := iioNow io\<rparr> else ev]\<rparr> else st)"

definition incidentLifecycleNotifies :: "string \<Rightarrow> bool \<Rightarrow> bool" where
  "incidentLifecycleNotifies kind enabled \<longleftrightarrow> enabled \<and> kind \<in> {''created'', ''resolved'', ''severity_raised''}"

definition AppendIncidentLifecycle :: "incidentIO \<Rightarrow> Incident \<Rightarrow> IncidentEvent \<Rightarrow> IncidentStore \<Rightarrow> IncidentStore" where
  "AppendIncidentLifecycle io inc ev st =
     (let e = (if ieIncidentID ev = [] then ev\<lparr>ieIncidentID := incID inc\<rparr> else ev); st' = AppendIncidentEvent io e st in
      if iioHook io \<and> incidentLifecycleNotifies (ieKind e) (iioEnabled io) then st'\<lparr>itNotified := itNotified st' @ [(inc, e)]\<rparr> else st')"

section \<open>Grouping\<close>

definition incidentGroupingWindow :: int where "incidentGroupingWindow = 30 * 60 * 10 ^ 9"

definition activity :: "Incident \<Rightarrow> int" where "activity i = max (incStartedAt i) (incUpdatedAt i)"

text \<open>The first row of the greatest activity.\<close>

fun newestIncident :: "Incident option \<Rightarrow> Incident list \<Rightarrow> Incident option" where
  "newestIncident best [] = best"
| "newestIncident best (i # is) =
     newestIncident (case best of None \<Rightarrow> Some i | Some b \<Rightarrow> if activity b < activity i then Some i else best) is"

definition matchIncidentAmong :: "incidentIO \<Rightarrow> string list \<Rightarrow> int \<Rightarrow> Incident list \<Rightarrow> string" where
  "matchIncidentAmong io services cutoff tbl =
     (if \<not> iioMatch io then []
      else (case newestIncident None (filter (\<lambda>i. incStatus i \<noteq> ''resolved'' \<and> incService i \<in> set services \<and> cutoff \<le> activity i) tbl) of
              None \<Rightarrow> [] | Some i \<Rightarrow> incID i))"

definition matchIncidentSameService :: "incidentIO \<Rightarrow> string \<Rightarrow> int \<Rightarrow> Incident list \<Rightarrow> string" where
  "matchIncidentSameService io service cutoff tbl = matchIncidentAmong io [service] cutoff tbl"

definition reuseIncidentBinding :: "Incident option \<Rightarrow> bool" where
  "reuseIncidentBinding inc \<longleftrightarrow> (case inc of None \<Rightarrow> False | Some i \<Rightarrow> incStatus i \<noteq> ''resolved'')"

definition isKnownSeverity :: "string \<Rightarrow> bool" where
  "isKnownSeverity s \<longleftrightarrow> s = ''critical'' \<or> s = ''warning'' \<or> s = ''info''"

definition emDash :: string where "emDash = [CHR 0xE2, CHR 0x80, CHR 0x94]"
definition rightArrow :: string where "rightArrow = [CHR 0xE2, CHR 0x86, CHR 0x92]"

definition systemEvent :: "string \<Rightarrow> string \<Rightarrow> string \<Rightarrow> string \<Rightarrow> IncidentEvent" where
  "systemEvent inc kind body ref = \<lparr>ieIncidentID = inc, ieTime = 0, ieKind = kind, ieActor = ''system'', ieBody = body, ieRefID = ref\<rparr>"

text \<open>\<open>Inl\<close> is the error of the write.\<close>

definition raisedIncident :: "Incident \<Rightarrow> StoredProblem \<Rightarrow> Incident" where
  "raisedIncident inc p =
     (if isKnownSeverity (prSeverity p) \<and> storeSeverityRank (incSeverity inc) < storeSeverityRank (prSeverity p)
      then inc\<lparr>incSeverity := prSeverity p\<rparr> else inc)"

definition refreshIncidentOnAttach :: "incidentIO \<Rightarrow> Incident \<Rightarrow> StoredProblem \<Rightarrow> IncidentStore \<Rightarrow> (unit + Incident) \<times> IncidentStore" where
  "refreshIncidentOnAttach io inc p st =
     (if \<not> iioUpsert io then (Inl (), st)
      else
        (let (j, st') = UpsertIncident io (raisedIncident inc p) st in
         (Inr j,
          if isKnownSeverity (prSeverity p) \<and> storeSeverityRank (incSeverity inc) < storeSeverityRank (prSeverity p)
          then AppendIncidentLifecycle io j
                 (systemEvent (incID j) ''severity_raised''
                    (incSeverity inc @ '' '' @ rightArrow @ '' '' @ prSeverity p @ '' ('' @ spRuleName p @ '')'') (prID p)) st'
          else st')))"

definition incidentOf :: "StoredProblem \<Rightarrow> Incident" where
  "incidentOf p =
     \<lparr>incID = [], incTitle = (if prService p \<noteq> [] then prService p @ '' '' @ emDash @ '' '' @ spRuleName p else spRuleName p),
      incSeverity = prSeverity p, incStatus = ''open'', incService = prService p, incSummary = spDescription p, incAssignee = [],
      incPostmortem = [], incStartedAt = prStartedAt p, incAckAt = None, incResolvedAt = None, incUpdatedAt = 0\<rparr>"

definition createIncidentFor :: "incidentIO \<Rightarrow> StoredProblem \<Rightarrow> IncidentStore \<Rightarrow> (unit + Incident) \<times> IncidentStore" where
  "createIncidentFor io p st =
     (if \<not> iioUpsert io then (Inl (), st)
      else
        (let (j, st') = UpsertIncident io (incidentOf p) st in
         (Inr j, AppendIncidentLifecycle io j (systemEvent (incID j) ''created'' (''Auto-created from '' @ spRuleName p) []) st')))"

definition bindProblemToIncident :: "incidentIO \<Rightarrow> StoredProblem \<Rightarrow> string \<Rightarrow> bool \<Rightarrow> IncidentStore \<Rightarrow> bool \<times> IncidentStore" where
  "bindProblemToIncident io p incidentID topological st =
     (if \<not> iioBind io then (False, st)
      else
        (True, AppendIncidentEvent io
           (systemEvent incidentID ''problem_attached''
              (if topological then spRuleName p @ '' [clustered via service topology '' @ emDash @ '' '' @ prService p @ '']'' else spRuleName p) (prID p))
           (st\<lparr>itBindings := (itBindings st)(prID p \<mapsto> incidentID)\<rparr>)))"

text \<open>No incident and no error; an error, with the incident when only the binding failed; the incident.\<close>

datatype attachResult = NoIncident | AttachError "Incident option" | Attached Incident

definition bindTo :: "incidentIO \<Rightarrow> StoredProblem \<Rightarrow> bool \<Rightarrow> (unit + Incident) \<times> IncidentStore \<Rightarrow> attachResult \<times> IncidentStore" where
  "bindTo io p topological r =
     (case r of
        (Inl _, st) \<Rightarrow> (AttachError None, st)
      | (Inr inc, st) \<Rightarrow>
          (let (ok, st') = bindProblemToIncident io p (incID inc) topological st in
           (if ok then Attached inc else AttachError (Some inc), st')))"

text \<open>What an existing binding answers: \<open>Some\<close> ends the operation.\<close>

definition boundIncident :: "incidentIO \<Rightarrow> StoredProblem \<Rightarrow> IncidentStore \<Rightarrow> attachResult option" where
  "boundIncident io p st =
     (case (if iioReadBinding io then itBindings st (prID p) else None) of
        None \<Rightarrow> None
      | Some existingID \<Rightarrow>
          if existingID = [] then None
          else if \<not> iioGet io then Some (AttachError None)
          else (let inc = GetIncident existingID (itIncidents st) in
                if reuseIncidentBinding inc then Some (Attached (the inc)) else None))"

text \<open>The incident of the same service that was active last, else that of a neighbour, with a flag for the latter.\<close>

definition groupTarget :: "incidentIO \<Rightarrow> (string \<Rightarrow> string list) option \<Rightarrow> string \<Rightarrow> Incident list \<Rightarrow> string \<times> bool" where
  "groupTarget io np service tbl =
     (let cutoff = iioNow io - incidentGroupingWindow; same = matchIncidentSameService io service cutoff tbl in
      if same \<noteq> [] then (same, False)
      else (case np of
              None \<Rightarrow> ([], False)
            | Some nb \<Rightarrow> (let near = matchIncidentAmong io (nb service) cutoff tbl in (near, near \<noteq> []))))"

definition AttachProblemToIncidentWith ::
  "incidentIO \<Rightarrow> (string \<Rightarrow> string list) option \<Rightarrow> StoredProblem \<Rightarrow> IncidentStore \<Rightarrow> attachResult \<times> IncidentStore" where
  "AttachProblemToIncidentWith io np p st =
     (if \<not> iioEnabled io then (NoIncident, st)
      else
        (case boundIncident io p st of
           Some r \<Rightarrow> (r, st)
         | None \<Rightarrow>
             (let (matched, topological) = groupTarget io np (prService p) (itIncidents st) in
              bindTo io p topological
                (case (if matched \<noteq> [] \<and> iioGet io then GetIncident matched (itIncidents st) else None) of
                   Some got \<Rightarrow> refreshIncidentOnAttach io got p st
                 | None \<Rightarrow> createIncidentFor io p st))))"

definition dedupNonEmpty :: "string list \<Rightarrow> string list" where
  "dedupNonEmpty ss = rev (foldl (\<lambda>out s. if s = [] \<or> s \<in> set out then out else s # out) [] ss)"

definition joinCandidateNeighbours :: "string list \<Rightarrow> (string \<Rightarrow> string list) option \<Rightarrow> string list" where
  "joinCandidateNeighbours services np =
     (case np of
        None \<Rightarrow> []
      | Some nb \<Rightarrow>
          (let selves = dedupNonEmpty services in
           rev (foldl (\<lambda>out n. if n = [] \<or> n \<in> set selves \<or> n \<in> set out then out else n # out) [] (concat (map nb selves)))))"

definition joinTarget :: "incidentIO \<Rightarrow> string list \<Rightarrow> (string \<Rightarrow> string list) option \<Rightarrow> Incident list \<Rightarrow> string \<times> bool" where
  "joinTarget io selves np tbl =
     (let cutoff = iioNow io - incidentGroupingWindow; self = matchIncidentAmong io selves cutoff tbl in
      if self \<noteq> [] then (self, False)
      else (let near = matchIncidentAmong io (joinCandidateNeighbours selves np) cutoff tbl in (near, near \<noteq> [])))"

definition JoinOpenIncidentWith ::
  "incidentIO \<Rightarrow> StoredProblem \<Rightarrow> string list \<Rightarrow> (string \<Rightarrow> string list) option \<Rightarrow> IncidentStore \<Rightarrow> attachResult \<times> IncidentStore" where
  "JoinOpenIncidentWith io p services np st =
     (let selves = dedupNonEmpty services in
      if \<not> iioEnabled io \<or> selves = [] then (NoIncident, st)
      else
        (case boundIncident io p st of
           Some r \<Rightarrow> (r, st)
         | None \<Rightarrow>
             (let (matched, topological) = joinTarget io selves np (itIncidents st) in
              if matched = [] then (NoIncident, st)
              else if \<not> iioGet io then (AttachError None, st)
              else (case GetIncident matched (itIncidents st) of
                      None \<Rightarrow> (NoIncident, st)
                    | Some got \<Rightarrow> bindTo io p topological (refreshIncidentOnAttach io got p st)))))"

section \<open>The cascade\<close>

record OpenIncidentRollup =
  irID :: string
  irProblemCount :: int
  irUnresolved :: int
  irMaxResolvedAt :: int
  irStartedAt :: int

definition attachedProblems :: "IncidentStore \<Rightarrow> StoredProblem list \<Rightarrow> string \<Rightarrow> StoredProblem list" where
  "attachedProblems st problems ident = filter (\<lambda>p. prID p \<noteq> [] \<and> itBindings st (prID p) = Some ident) problems"

definition rollupOf :: "IncidentStore \<Rightarrow> StoredProblem list \<Rightarrow> Incident \<Rightarrow> OpenIncidentRollup" where
  "rollupOf st problems i =
     (let ps = attachedProblems st problems (incID i) in
      \<lparr>irID = incID i, irProblemCount = int (length ps), irUnresolved = int (length (filter (\<lambda>p. prStatus p \<noteq> ''resolved'') ps)),
       irMaxResolvedAt = (case List.map_filter spResolvedAt ps of [] \<Rightarrow> 0 | t # ts \<Rightarrow> foldl max t ts), irStartedAt = incStartedAt i\<rparr>)"

definition OpenIncidentRollups :: "IncidentStore \<Rightarrow> StoredProblem list \<Rightarrow> OpenIncidentRollup list" where
  "OpenIncidentRollups st problems = map (rollupOf st problems) (take 5000 (filter (\<lambda>i. incStatus i \<noteq> ''resolved'') (itIncidents st)))"

definition incidentOrphanGrace :: int where "incidentOrphanGrace = 3600 * 10 ^ 9"

definition incidentCascadeDecisionAt :: "int \<Rightarrow> int \<Rightarrow> int \<Rightarrow> int \<Rightarrow> int \<Rightarrow> bool \<times> int" where
  "incidentCascadeDecisionAt problemCount unresolved maxResolvedAt startedAt now =
     (if 0 < unresolved then (False, 0)
      else if problemCount = 0 then
        (if startedAt = 0 \<or> now - startedAt < incidentOrphanGrace then (False, 0) else (True, now))
      else if 0 < maxResolvedAt then (True, maxResolvedAt)
      else (True, now))"

definition cascadeOne :: "incidentIO \<Rightarrow> OpenIncidentRollup \<Rightarrow> IncidentStore \<Rightarrow> IncidentStore" where
  "cascadeOne io ro st =
     (let (resolve, endedAt) = incidentCascadeDecisionAt (irProblemCount ro) (irUnresolved ro) (irMaxResolvedAt ro) (irStartedAt ro) (iioNow io) in
      if \<not> resolve \<or> \<not> iioGet io then st
      else
        (case GetIncident (irID ro) (itIncidents st) of
           None \<Rightarrow> st
         | Some inc \<Rightarrow>
             if incStatus inc = ''resolved'' \<or> \<not> iioUpsert io then st
             else
               (let (j, st') = UpsertIncident io (inc\<lparr>incStatus := ''resolved'', incResolvedAt := Some endedAt\<rparr>) st in
                AppendIncidentLifecycle io j
                  ((systemEvent (incID j) ''resolved''
                     (if irProblemCount ro = 0 then ''auto-resolved: no problem ever attached (orphaned past the grace window)''
                      else ''auto-resolved: all attached problems cleared'') [])\<lparr>ieTime := endedAt\<rparr>) st')))"

definition cascadeResolveIncidents :: "incidentIO \<Rightarrow> (string \<Rightarrow> incidentIO) \<Rightarrow> bool \<Rightarrow> StoredProblem list \<Rightarrow> IncidentStore \<Rightarrow> IncidentStore" where
  "cascadeResolveIncidents io each rollupsOK problems st =
     (if \<not> rollupsOK then st
      else fold (\<lambda>ro st. cascadeOne ((each (irID ro))\<lparr>iioNow := iioNow io\<rparr>) ro st) (OpenIncidentRollups st problems) st)"

section \<open>Operators\<close>

text \<open>A handler answers with a status code.\<close>

definition createIncident :: "incidentIO \<Rightarrow> string \<Rightarrow> Incident option \<Rightarrow> IncidentStore \<Rightarrow> nat \<times> IncidentStore" where
  "createIncident io actor body st =
     (if \<not> iioEnabled io then (410, st)
      else
        (case body of
           None \<Rightarrow> (400, st)
         | Some inc \<Rightarrow>
             if incTitle inc = [] then (400, st)
             else if \<not> iioUpsert io then (500, st)
             else
               (let (j, st') = UpsertIncident io (inc\<lparr>incID := []\<rparr>) st in
                (200, AppendIncidentLifecycle io j
                   \<lparr>ieIncidentID = incID j, ieTime = 0, ieKind = ''created'', ieActor = actor, ieBody = ''Manually created'', ieRefID = []\<rparr> st'))))"

definition updateIncident :: "incidentIO \<Rightarrow> string \<Rightarrow> Incident option \<Rightarrow> IncidentStore \<Rightarrow> nat \<times> IncidentStore" where
  "updateIncident io ident body st =
     (case body of
        None \<Rightarrow> (400, st)
      | Some inc \<Rightarrow> if \<not> iioUpsert io then (500, st) else (200, snd (UpsertIncident io (inc\<lparr>incID := ident\<rparr>) st)))"

definition ackIncident :: "incidentIO \<Rightarrow> string \<Rightarrow> string \<Rightarrow> IncidentStore \<Rightarrow> nat \<times> IncidentStore" where
  "ackIncident io actor ident st =
     (if \<not> iioGet io then (500, st)
      else
        (case GetIncident ident (itIncidents st) of
           None \<Rightarrow> (404, st)
         | Some inc \<Rightarrow>
             if \<not> iioUpsert io then (500, st)
             else
               (let (j, st') = UpsertIncident io (inc\<lparr>incStatus := ''acknowledged'', incAckAt := Some (iioNow io),
                        incAssignee := (if incAssignee inc = [] then actor else incAssignee inc)\<rparr>) st in
                (200, AppendIncidentEvent io
                   \<lparr>ieIncidentID = ident, ieTime = 0, ieKind = ''ack'', ieActor = actor, ieBody = ''Incident acknowledged'', ieRefID = []\<rparr> st'))))"

definition resolveIncident :: "incidentIO \<Rightarrow> string \<Rightarrow> string \<Rightarrow> IncidentStore \<Rightarrow> nat \<times> IncidentStore" where
  "resolveIncident io actor ident st =
     (if \<not> iioGet io then (500, st)
      else
        (case GetIncident ident (itIncidents st) of
           None \<Rightarrow> (404, st)
         | Some inc \<Rightarrow>
             if \<not> iioUpsert io then (500, st)
             else
               (let (j, st') = UpsertIncident io (inc\<lparr>incStatus := ''resolved'', incResolvedAt := Some (iioNow io)\<rparr>) st in
                (200, AppendIncidentLifecycle io j
                   \<lparr>ieIncidentID = ident, ieTime = 0, ieKind = ''resolved'', ieActor = actor, ieBody = ''Incident resolved'', ieRefID = []\<rparr> st'))))"

definition addIncidentNote :: "incidentIO \<Rightarrow> string \<Rightarrow> string \<Rightarrow> string option \<Rightarrow> IncidentStore \<Rightarrow> nat \<times> IncidentStore" where
  "addIncidentNote io actor ident body st =
     (case body of
        None \<Rightarrow> (400, st)
      | Some text \<Rightarrow>
          if text = [] then (400, st)
          else if \<not> iioEvent io then (500, st)
          else (200, AppendIncidentEvent io
                  \<lparr>ieIncidentID = ident, ieTime = 0, ieKind = ''note'', ieActor = actor, ieBody = text, ieRefID = []\<rparr> st))"

definition IncidentPriority :: "Incident \<Rightarrow> string" where
  "IncidentPriority inc =
     (let prio = (if incSeverity inc = ''critical'' then ''P1'' else if incSeverity inc = ''warning'' then ''P2'' else ''P3'') in
      if incStatus inc = ''acknowledged'' then (if prio = ''P1'' then ''P2'' else if prio = ''P2'' then ''P3'' else prio) else prio)"

record incidentPage =
  ipItems :: "Incident list"
  ipTruncated :: bool

definition listIncidents :: "string \<Rightarrow> string \<Rightarrow> string \<Rightarrow> int \<Rightarrow> IncidentStore \<Rightarrow> incidentPage" where
  "listIncidents status service severity limit st =
     (let rows = ListIncidents \<lparr>ifID = [], ifStatus = status, ifServices = None, ifNotStatuses = [], ifService = service,
                                ifSeverity = severity, ifLimit = limit\<rparr> (itIncidents st) in
      \<lparr>ipItems = rows, ipTruncated = (limit \<le> int (length rows))\<rparr>)"

section \<open>Rows\<close>

definition wfIncidents :: "Incident list \<Rightarrow> bool" where
  "wfIncidents tbl \<longleftrightarrow> distinct (map incID tbl) \<and> (\<forall>i\<in>set tbl. incID i \<noteq> [] \<and> incStartedAt i \<noteq> 0 \<and> incStatus i \<noteq> [] \<and> incSeverity i \<noteq> [])"

lemma scanned_simps [simp]:
  "incID (scanned i) = incID i" "incSeverity (scanned i) = incSeverity i" "incStatus (scanned i) = incStatus i"
  "incService (scanned i) = incService i" "incStartedAt (scanned i) = incStartedAt i" "incUpdatedAt (scanned i) = incUpdatedAt i"
  by (simp_all add: scanned_def Let_def)

lemma filter_ident:
  assumes "distinct (map incID tbl)" "i \<in> set tbl"
  shows "filter (\<lambda>j. incID j = incID i) tbl = [i]"
  using assms by (induction tbl) (auto simp: filter_empty_conv image_iff)

lemma GetIncident_Some:
  assumes "wfIncidents tbl" "i \<in> set tbl"
  shows "GetIncident (incID i) tbl = Some (scanned i)"
proof -
  have "incID i \<noteq> []" using assms by (auto simp: wfIncidents_def)
  moreover have "filter (\<lambda>j. incID j = incID i) tbl = [i]" using assms by (intro filter_ident) (simp_all add: wfIncidents_def)
  moreover have "keepsIncident \<lparr>ifID = incID i, ifStatus = [], ifServices = None, ifNotStatuses = [], ifService = [], ifSeverity = [], ifLimit = 1\<rparr> =
      (\<lambda>j. incID j = incID i)" using calculation(1) by (auto simp: keepsIncident_def fun_eq_iff)
  ultimately show ?thesis by (simp add: GetIncident_def ListIncidents_def incidentLimit_def)
qed

lemma GetIncident_member:
  assumes "GetIncident ident tbl = Some j"
  shows "ident \<noteq> [] \<and> (\<exists>i\<in>set tbl. incID i = ident \<and> j = scanned i)"
proof -
  let ?f = "\<lparr>ifID = ident, ifStatus = [], ifServices = None, ifNotStatuses = [], ifService = [], ifSeverity = [], ifLimit = 1\<rparr>"
  have ne: "ident \<noteq> []" and "j \<in> set (ListIncidents ?f tbl)"
    using assms by (auto simp: GetIncident_def split: if_splits list.splits)
  then obtain i where "j = scanned i" "i \<in> set (take (incidentLimit 1) (sort_key (\<lambda>i. - incStartedAt i) (filter (keepsIncident ?f) tbl)))"
    by (auto simp: ListIncidents_def)
  then show ?thesis using ne by (auto simp: keepsIncident_def dest!: in_set_takeD)
qed

lemma filled_simps [simp]:
  "incID i \<noteq> [] \<Longrightarrow> incID (filledIncident io i) = incID i"
  "incStatus i \<noteq> [] \<Longrightarrow> incStatus (filledIncident io i) = incStatus i"
  "incSeverity i \<noteq> [] \<Longrightarrow> incSeverity (filledIncident io i) = incSeverity i"
  "incStartedAt i \<noteq> 0 \<Longrightarrow> incStartedAt (filledIncident io i) = incStartedAt i"
  "incService (filledIncident io i) = incService i"
  "incResolvedAt (filledIncident io i) = incResolvedAt i"
  "incUpdatedAt (filledIncident io i) = iioNow io"
  by (simp_all add: filledIncident_def)

lemma events_keep [simp]:
  "itIncidents (AppendIncidentEvent io ev st) = itIncidents st" "itBindings (AppendIncidentEvent io ev st) = itBindings st"
  "itIncidents (AppendIncidentLifecycle io inc ev st) = itIncidents st" "itBindings (AppendIncidentLifecycle io inc ev st) = itBindings st"
  by (simp_all add: AppendIncidentEvent_def AppendIncidentLifecycle_def Let_def)

lemma UpsertIncident_simps [simp]:
  "fst (UpsertIncident io i st) = filledIncident io i"
  "itIncidents (snd (UpsertIncident io i st)) = filledIncident io i # filter (\<lambda>k. incID k \<noteq> incID (filledIncident io i)) (itIncidents st)"
  "itBindings (snd (UpsertIncident io i st)) = itBindings st"
  by (simp_all add: UpsertIncident_def Let_def)

section \<open>What the automatic paths keep\<close>

text \<open>
  What a later row keeps of a row: its texts, service, assignee, postmortem, start and acknowledgement (times as readers see
  them), a severity that is not lower, and its status and end unless it was resolved in between. Rows of resolved incidents
  stay as they are, and no incident disappears.
\<close>

definition keepsRow :: "Incident \<Rightarrow> Incident \<Rightarrow> bool" where
  "keepsRow i j \<longleftrightarrow>
     incID j = incID i \<and> incTitle j = incTitle i \<and> incService j = incService i \<and> incSummary j = incSummary i \<and>
     incAssignee j = incAssignee i \<and> incPostmortem j = incPostmortem i \<and> incStartedAt j = incStartedAt i \<and>
     incAckAt (scanned j) = incAckAt (scanned i) \<and> storeSeverityRank (incSeverity i) \<le> storeSeverityRank (incSeverity j) \<and>
     (if incStatus j = incStatus i then incResolvedAt (scanned j) = incResolvedAt (scanned i)
      else incStatus i \<noteq> ''resolved'' \<and> incStatus j = ''resolved'')"

definition keepsRows :: "Incident list \<Rightarrow> Incident list \<Rightarrow> bool" where
  "keepsRows tbl tbl' \<longleftrightarrow>
     (\<forall>i\<in>set tbl. incStatus i = ''resolved'' \<longrightarrow> i \<in> set tbl') \<and> (\<forall>i\<in>set tbl. \<exists>j\<in>set tbl'. keepsRow i j)"

lemma keepsRow_refl [simp]: "keepsRow i i"
  by (simp add: keepsRow_def)

lemma keepsRow_trans: "keepsRow i j \<Longrightarrow> keepsRow j k \<Longrightarrow> keepsRow i k"
  by (auto simp: keepsRow_def split: if_splits)

lemma keepsRows_refl [simp]: "keepsRows tbl tbl"
  using keepsRow_refl unfolding keepsRows_def by blast

lemma keepsRows_trans: "keepsRows a b \<Longrightarrow> keepsRows b c \<Longrightarrow> keepsRows a c"
  unfolding keepsRows_def using keepsRow_trans by meson

lemma scanned_scanned [simp]: "scanned (scanned i) = scanned i"
  by (auto simp: scanned_def Let_def split: option.splits)

lemma scanned_cong:
  "incAckAt i = incAckAt j \<Longrightarrow> incAckAt (scanned i) = incAckAt (scanned j)"
  "incResolvedAt i = incResolvedAt j \<Longrightarrow> incResolvedAt (scanned i) = incResolvedAt (scanned j)"
  by (simp_all add: scanned_def Let_def)

lemma scanned_keeps [simp]:
  "incTitle (scanned i) = incTitle i" "incSummary (scanned i) = incSummary i" "incAssignee (scanned i) = incAssignee i"
  "incPostmortem (scanned i) = incPostmortem i"
  by (simp_all add: scanned_def Let_def)

text \<open>The two ways in which a row is written.\<close>

lemma keepsRows_update:
  assumes "wfIncidents tbl" "i \<in> set tbl" "incStatus i \<noteq> ''resolved''" "keepsRow i j" "incSeverity j \<noteq> []"
  shows "keepsRows tbl (j # filter (\<lambda>k. incID k \<noteq> incID j) tbl) \<and> wfIncidents (j # filter (\<lambda>k. incID k \<noteq> incID j) tbl)"
proof -
  have id: "incID j = incID i" using assms(4) by (simp add: keepsRow_def)
  have uniq: "k = i" if "k \<in> set tbl" "incID k = incID i" for k
    using that assms(1,2) by (auto simp: wfIncidents_def distinct_map inj_on_def)
  have "incStartedAt j \<noteq> 0" "incStatus j \<noteq> []" using assms(1,2,4) by (auto simp: wfIncidents_def keepsRow_def split: if_splits)
  then have "wfIncidents (j # filter (\<lambda>k. incID k \<noteq> incID j) tbl)"
    using assms id by (auto simp: wfIncidents_def distinct_map_filter)
  moreover have "keepsRows tbl (j # filter (\<lambda>k. incID k \<noteq> incID j) tbl)"
    unfolding keepsRows_def
  proof (intro conjI ballI impI)
    fix k assume k: "k \<in> set tbl" "incStatus k = ''resolved''"
    then show "k \<in> set (j # filter (\<lambda>k. incID k \<noteq> incID j) tbl)" using uniq assms(3) id by auto
  next
    fix k assume k: "k \<in> set tbl"
    show "\<exists>l\<in>set (j # filter (\<lambda>k. incID k \<noteq> incID j) tbl). keepsRow k l"
      using k uniq [of k] assms(4) id by (cases "incID k = incID j") auto
  qed
  ultimately show ?thesis by blast
qed

lemma keepsRows_new:
  assumes "wfIncidents tbl" "incID j \<notin> incID ` set tbl" "incID j \<noteq> []" "incStartedAt j \<noteq> 0" "incStatus j \<noteq> []" "incSeverity j \<noteq> []"
  shows "keepsRows tbl (j # filter (\<lambda>k. incID k \<noteq> incID j) tbl) \<and> wfIncidents (j # filter (\<lambda>k. incID k \<noteq> incID j) tbl)"
proof -
  have "filter (\<lambda>k. incID k \<noteq> incID j) tbl = tbl" using assms(2) by (auto simp: filter_id_conv image_iff)
  moreover have "keepsRows tbl (j # tbl)" unfolding keepsRows_def using keepsRow_refl by (metis list.set_intros(2))
  ultimately show ?thesis using assms by (auto simp: wfIncidents_def)
qed

definition goodIO :: "incidentIO \<Rightarrow> IncidentStore \<Rightarrow> bool" where
  "goodIO io st \<longleftrightarrow> iioNewID io \<noteq> [] \<and> iioNewID io \<notin> incID ` set (itIncidents st) \<and> 0 < iioNow io"

definition keepsStore :: "IncidentStore \<Rightarrow> IncidentStore \<Rightarrow> bool" where
  "keepsStore st st' \<longleftrightarrow> keepsRows (itIncidents st) (itIncidents st') \<and> wfIncidents (itIncidents st')"

lemma refresh_keeps:
  assumes "wfIncidents (itIncidents st)" "i \<in> set (itIncidents st)" "incStatus i \<noteq> ''resolved''"
  shows "keepsStore st (snd (refreshIncidentOnAttach io (scanned i) p st))"
proof (cases "iioUpsert io")
  case True
  have i: "incID i \<noteq> []" "incStartedAt i \<noteq> 0" "incStatus i \<noteq> []" "incSeverity i \<noteq> []"
    using assms(1,2) by (auto simp: wfIncidents_def)
  let ?r = "raisedIncident (scanned i) p"
  have r: "incID ?r = incID i" "incStatus ?r = incStatus i" "incService ?r = incService i" "incStartedAt ?r = incStartedAt i"
    "incSeverity ?r \<noteq> []" "storeSeverityRank (incSeverity i) \<le> storeSeverityRank (incSeverity ?r)"
    "incTitle ?r = incTitle i" "incSummary ?r = incSummary i" "incAssignee ?r = incAssignee i" "incPostmortem ?r = incPostmortem i"
    "incAckAt ?r = incAckAt (scanned i)" "incResolvedAt ?r = incResolvedAt (scanned i)"
    using i by (auto simp: raisedIncident_def isKnownSeverity_def)
  have "keepsRow i (filledIncident io ?r)"
    using i r scanned_cong [of "filledIncident io ?r" "scanned i"] by (simp add: keepsRow_def filledIncident_def)
  have "keepsRows (itIncidents st) (itIncidents (snd (UpsertIncident io ?r st))) \<and> wfIncidents (itIncidents (snd (UpsertIncident io ?r st)))"
    unfolding UpsertIncident_simps
    by (rule keepsRows_update [OF assms]) (use i r \<open>keepsRow i (filledIncident io ?r)\<close> in simp_all)
  then show ?thesis using True by (simp add: keepsStore_def refreshIncidentOnAttach_def split_beta)
qed (simp add: refreshIncidentOnAttach_def keepsStore_def assms(1))

lemma create_keeps:
  assumes "wfIncidents (itIncidents st)" "goodIO io st"
  shows "keepsStore st (snd (createIncidentFor io p st))"
proof (cases "iioUpsert io")
  case True
  have j: "incID (filledIncident io (incidentOf p)) = iioNewID io" "incStartedAt (filledIncident io (incidentOf p)) \<noteq> 0"
    "incStatus (filledIncident io (incidentOf p)) \<noteq> []" "incSeverity (filledIncident io (incidentOf p)) \<noteq> []"
    using assms(2) by (auto simp: incidentOf_def filledIncident_def goodIO_def)
  have "keepsRows (itIncidents st) (itIncidents (snd (UpsertIncident io (incidentOf p) st))) \<and>
      wfIncidents (itIncidents (snd (UpsertIncident io (incidentOf p) st)))"
    unfolding UpsertIncident_simps by (rule keepsRows_new) (use assms j in \<open>simp_all add: goodIO_def\<close>)
  then show ?thesis using True by (simp add: keepsStore_def createIncidentFor_def split_beta)
qed (simp add: createIncidentFor_def keepsStore_def assms(1))

lemma bindTo_incidents [simp]: "itIncidents (snd (bindTo io p t r)) = itIncidents (snd r)"
  by (auto simp: bindTo_def bindProblemToIncident_def Let_def split_beta split: sum.splits prod.splits)

lemma keepsStore_bindTo [simp]: "keepsStore st (snd (bindTo io p t r)) \<longleftrightarrow> keepsStore st (snd r)"
  by (simp add: keepsStore_def)

lemma newestIncident_member: "newestIncident best is = Some i \<Longrightarrow> i \<in> set is \<or> best = Some i"
  by (induction "is" arbitrary: best) (fastforce split: option.splits if_splits)+

lemma match_member:
  assumes "matchIncidentAmong io services cutoff tbl = ident" "ident \<noteq> []"
  shows "\<exists>i\<in>set tbl. incID i = ident \<and> incStatus i \<noteq> ''resolved'' \<and> incService i \<in> set services \<and> cutoff \<le> activity i"
proof -
  obtain i where "newestIncident None (filter (\<lambda>i. incStatus i \<noteq> ''resolved'' \<and> incService i \<in> set services \<and> cutoff \<le> activity i) tbl) = Some i"
    "ident = incID i" using assms by (auto simp: matchIncidentAmong_def split: if_splits option.splits)
  then show ?thesis using newestIncident_member [of None] by fastforce
qed

text \<open>A match names an unresolved row, which the read returns.\<close>

lemma match_get:
  assumes "wfIncidents tbl" "matchIncidentAmong io services cutoff tbl = ident" "ident \<noteq> []" "GetIncident ident tbl = Some got"
  shows "\<exists>i\<in>set tbl. got = scanned i \<and> incStatus i \<noteq> ''resolved'' \<and> incID i = ident"
proof -
  obtain i where i: "i \<in> set tbl" "incID i = ident" "incStatus i \<noteq> ''resolved''" using match_member [OF assms(2,3)] by blast
  then have "got = scanned i" using GetIncident_Some [OF assms(1) i(1)] assms(4) by simp
  then show ?thesis using i by blast
qed

lemma target_member:
  "groupTarget io np service tbl = (m, t) \<Longrightarrow> m \<noteq> [] \<Longrightarrow> \<exists>ss. matchIncidentAmong io ss (iioNow io - incidentGroupingWindow) tbl = m"
  "joinTarget io selves np tbl = (m, t) \<Longrightarrow> m \<noteq> [] \<Longrightarrow> \<exists>ss. matchIncidentAmong io ss (iioNow io - incidentGroupingWindow) tbl = m"
  by (auto simp: groupTarget_def joinTarget_def matchIncidentSameService_def Let_def split: if_splits option.splits)

lemma refresh_matched:
  assumes "wfIncidents (itIncidents st)" "\<exists>ss. matchIncidentAmong io ss c (itIncidents st) = m" "m \<noteq> []" "GetIncident m (itIncidents st) = Some got"
  shows "keepsStore st (snd (refreshIncidentOnAttach io got p st))"
  using match_get [OF assms(1) _ assms(3,4)] assms(2) refresh_keeps [OF assms(1)] by blast

lemma keepsStore_refl: "wfIncidents (itIncidents st) \<Longrightarrow> keepsStore st st"
  by (simp add: keepsStore_def)

lemma attach_keeps:
  assumes "wfIncidents (itIncidents st)" "goodIO io st"
  shows "keepsStore st (snd (AttachProblemToIncidentWith io np p st))"
proof -
  obtain m t where mt: "groupTarget io np (prService p) (itIncidents st) = (m, t)" by (cases "groupTarget io np (prService p) (itIncidents st)")
  show ?thesis
    using keepsStore_refl [OF assms(1)] create_keeps [OF assms] refresh_matched [OF assms(1) target_member(1) [OF mt]]
    by (auto simp: AttachProblemToIncidentWith_def mt split: option.splits)
qed

lemma join_keeps:
  assumes "wfIncidents (itIncidents st)"
  shows "keepsStore st (snd (JoinOpenIncidentWith io p services np st))"
proof -
  obtain m t where mt: "joinTarget io (dedupNonEmpty services) np (itIncidents st) = (m, t)"
    by (cases "joinTarget io (dedupNonEmpty services) np (itIncidents st)")
  show ?thesis
    using keepsStore_refl [OF assms(1)] refresh_matched [OF assms(1) target_member(2) [OF mt]]
    by (auto simp: JoinOpenIncidentWith_def mt Let_def split: option.splits)
qed

section \<open>The cascade as a rewriting of the table\<close>

text \<open>When the cascade resolves an incident with these attached problems, and to which end.\<close>

definition isCleared :: "int \<Rightarrow> Incident \<Rightarrow> StoredProblem list \<Rightarrow> bool" where
  "isCleared now i ps \<longleftrightarrow> (\<forall>p\<in>set ps. prStatus p = ''resolved'') \<and> (ps \<noteq> [] \<or> incidentOrphanGrace \<le> now - incStartedAt i)"

definition lastClear :: "StoredProblem list \<Rightarrow> int" where
  "lastClear ps = (case List.map_filter spResolvedAt ps of [] \<Rightarrow> 0 | t # ts \<Rightarrow> foldl max t ts)"

definition endOf :: "int \<Rightarrow> StoredProblem list \<Rightarrow> int" where
  "endOf now ps = (if ps \<noteq> [] \<and> 0 < lastClear ps then lastClear ps else now)"

definition resolvedIncident :: "incidentIO \<Rightarrow> int \<Rightarrow> Incident \<Rightarrow> Incident" where
  "resolvedIncident io endedAt i = filledIncident io ((scanned i)\<lparr>incStatus := ''resolved'', incResolvedAt := Some endedAt\<rparr>)"

lemma decision_cleared:
  assumes "incStartedAt i \<noteq> 0"
  shows "incidentCascadeDecisionAt (irProblemCount (rollupOf st problems i)) (irUnresolved (rollupOf st problems i))
      (irMaxResolvedAt (rollupOf st problems i)) (irStartedAt (rollupOf st problems i)) now =
    (if isCleared now i (attachedProblems st problems (incID i)) then (True, endOf now (attachedProblems st problems (incID i))) else (False, 0))"
  using assms
  by (auto simp: incidentCascadeDecisionAt_def rollupOf_def isCleared_def endOf_def lastClear_def Let_def filter_empty_conv)

lemma lastClear_max:
  "p \<in> set ps \<Longrightarrow> spResolvedAt p = Some t \<Longrightarrow> t \<le> lastClear ps"
  "lastClear ps \<noteq> 0 \<Longrightarrow> \<exists>p\<in>set ps. spResolvedAt p = Some (lastClear ps)"
proof -
  have fl: "foldl max t ts = Max (set (t # ts))" for t :: int and ts
    by (simp add: Max.set_eq_fold foldl_conv_fold max.commute del: set_simps)
  have mem: "t \<in> set (List.map_filter spResolvedAt ps) \<longleftrightarrow> (\<exists>p\<in>set ps. spResolvedAt p = Some t)" for t
    by (force simp: List.map_filter_def image_iff)
  have lc: "lastClear ps = (if List.map_filter spResolvedAt ps = [] then 0 else Max (set (List.map_filter spResolvedAt ps)))"
    unfolding lastClear_def fl by (auto split: list.splits)
  show "t \<le> lastClear ps" if p: "p \<in> set ps" "spResolvedAt p = Some t"
  proof -
    have "t \<in> set (List.map_filter spResolvedAt ps)" using p mem by blast
    then show ?thesis unfolding lc by (auto intro: Max_ge)
  qed
  show "\<exists>p\<in>set ps. spResolvedAt p = Some (lastClear ps)" if "lastClear ps \<noteq> 0"
  proof -
    have ne: "List.map_filter spResolvedAt ps \<noteq> []" using that by (auto simp: lc split: if_splits)
    then have "Max (set (List.map_filter spResolvedAt ps)) \<in> set (List.map_filter spResolvedAt ps)" by (intro Max_in) simp_all
    then show ?thesis using mem ne lc by simp
  qed
qed

definition cascadeRow :: "incidentIO \<Rightarrow> (string \<Rightarrow> incidentIO) \<Rightarrow> IncidentStore \<Rightarrow> StoredProblem list \<Rightarrow> Incident \<Rightarrow> Incident option" where
  "cascadeRow io each st problems i =
     (let ps = attachedProblems st problems (incID i); eio = (each (incID i))\<lparr>iioNow := iioNow io\<rparr> in
      if isCleared (iioNow io) i ps \<and> iioGet eio \<and> iioUpsert eio then Some (resolvedIncident eio (endOf (iioNow io) ps) i) else None)"

lemma resolvedIncident_simps:
  assumes "incID i \<noteq> []"
  shows "incID (resolvedIncident io t i) = incID i" "incStatus (resolvedIncident io t i) = ''resolved''" "incResolvedAt (resolvedIncident io t i) = Some t"
  using assms by (simp_all add: resolvedIncident_def filledIncident_def)

lemma cascadeOne_row:
  assumes "wfIncidents (itIncidents st)" "i \<in> set (itIncidents st)" "incStatus i \<noteq> ''resolved''"
  shows "itIncidents (cascadeOne ((each (incID i))\<lparr>iioNow := iioNow io\<rparr>) (rollupOf st0 problems i) st) =
    (case cascadeRow io each st0 problems i of None \<Rightarrow> itIncidents st | Some j \<Rightarrow> upsertRow incID j (itIncidents st))"
proof -
  have "incStartedAt i \<noteq> 0" "incID i \<noteq> []" using assms(1,2) by (auto simp: wfIncidents_def)
  moreover have "irID (rollupOf st0 problems i) = incID i" by (simp add: rollupOf_def Let_def)
  ultimately show ?thesis
    using GetIncident_Some [OF assms(1,2)] assms(3)
    by (simp add: cascadeOne_def decision_cleared cascadeRow_def Let_def split_beta resolvedIncident_def upsertRow_def)
qed

lemma cascadeRow_id:
  "incID i \<noteq> [] \<Longrightarrow> cascadeRow io each st problems i = Some j \<Longrightarrow> incID j = incID i"
  by (auto simp: cascadeRow_def Let_def resolvedIncident_simps split: if_splits)

lemma cascadeRow_keeps:
  assumes "wfIncidents tbl" "i \<in> set tbl" "incStatus i \<noteq> ''resolved''" "cascadeRow io each st problems i = Some j"
  shows "keepsRows tbl (upsertRow incID j tbl) \<and> wfIncidents (upsertRow incID j tbl)"
proof -
  have i: "incID i \<noteq> []" "incStartedAt i \<noteq> 0" "incSeverity i \<noteq> []" using assms(1,2) by (auto simp: wfIncidents_def)
  obtain eio t where j: "j = resolvedIncident eio t i" using assms(4) by (auto simp: cascadeRow_def Let_def split: if_splits)
  have "keepsRow i j" using i assms(3) scanned_cong(1) [of j "scanned i"] by (auto simp: keepsRow_def j resolvedIncident_def filledIncident_def)
  then show ?thesis
    unfolding upsertRow_def
    by (rule keepsRows_update [OF assms(1-3)]) (use i in \<open>simp add: j resolvedIncident_def filledIncident_def\<close>)
qed

lemma cascade_fold:
  assumes "wfIncidents (itIncidents st)" "set is \<subseteq> set (itIncidents st)" "distinct (map incID is)" "\<forall>i\<in>set is. incStatus i \<noteq> ''resolved''"
  shows "itIncidents (fold (\<lambda>i st. cascadeOne ((each (incID i))\<lparr>iioNow := iioNow io\<rparr>) (rollupOf st0 problems i) st) is st) =
      rewriteRows incID (cascadeRow io each st0 problems) is (itIncidents st) \<and>
    keepsStore st (fold (\<lambda>i st. cascadeOne ((each (incID i))\<lparr>iioNow := iioNow io\<rparr>) (rollupOf st0 problems i) st) is st)"
  using assms
proof (induction "is" arbitrary: st)
  case (Cons i "is")
  let ?st = "cascadeOne ((each (incID i))\<lparr>iioNow := iioNow io\<rparr>) (rollupOf st0 problems i) st"
  have i: "i \<in> set (itIncidents st)" "incStatus i \<noteq> ''resolved''" using Cons.prems(2,4) by auto
  note row = cascadeOne_row [where each = each and io = io and problems = problems, OF Cons.prems(1) i, of st0]
  have keep: "keepsStore st ?st"
    using row cascadeRow_keeps [OF Cons.prems(1) i] Cons.prems(1) by (auto simp: keepsStore_def split: option.splits)
  have sub: "set is \<subseteq> set (itIncidents ?st)"
  proof (cases "cascadeRow io each st0 problems i")
    case (Some j)
    have "incID j = incID i" using cascadeRow_id [OF _ Some] Cons.prems(1) i(1) by (auto simp: wfIncidents_def)
    then show ?thesis using Some row Cons.prems(2,3) by (auto simp: upsertRow_def image_iff)
  qed (use row Cons.prems(2) in auto)
  have "wfIncidents (itIncidents ?st)" using keep by (simp add: keepsStore_def)
  note IH = Cons.IH [OF this sub]
  have tail: "distinct (map incID is)" "\<forall>i\<in>set is. incStatus i \<noteq> ''resolved''" using Cons.prems(3,4) by simp_all
  have "rewriteRows incID (cascadeRow io each st0 problems) is (itIncidents ?st) =
      rewriteRows incID (cascadeRow io each st0 problems) (i # is) (itIncidents st)" using row by simp
  moreover have "keepsStore st st''" if "keepsStore ?st st''" for st''
    using that keep keepsRows_trans unfolding keepsStore_def by blast
  ultimately show ?case using IH [OF tail] by simp
qed (simp add: keepsStore_def)

lemma cascade_run:
  assumes "wfIncidents (itIncidents st)"
  defines "live \<equiv> take 5000 (filter (\<lambda>i. incStatus i \<noteq> ''resolved'') (itIncidents st))"
  shows "set (itIncidents (cascadeResolveIncidents io each True problems st)) = rewritten (cascadeRow io each st problems) (set live) ` set (itIncidents st)"
    and "keepsStore st (cascadeResolveIncidents io each rollupsOK problems st)"
proof -
  have sub: "set live \<subseteq> set (itIncidents st)" "\<forall>i\<in>set live. incStatus i \<noteq> ''resolved''"
    unfolding live_def by (auto dest!: in_set_takeD)
  have dist: "distinct (map incID live)"
    using assms(1) unfolding live_def take_map [symmetric] by (simp add: wfIncidents_def distinct_map_filter)
  have run: "cascadeResolveIncidents io each True problems st =
      fold (\<lambda>i st'. cascadeOne ((each (incID i))\<lparr>iioNow := iioNow io\<rparr>) (rollupOf st problems i) st') live st"
    by (simp add: cascadeResolveIncidents_def OpenIncidentRollups_def live_def fold_map o_def rollupOf_def Let_def)
  note fold = cascade_fold [where each = each and io = io and problems = problems, OF assms(1) sub(1) dist sub(2), of st]
  have wf: "incID i \<noteq> []" if "i \<in> set live" for i using that sub(1) assms(1) by (auto simp: wfIncidents_def)
  have "set (rewriteRows incID (cascadeRow io each st problems) live (itIncidents st)) =
      rewritten (cascadeRow io each st problems) (set live) ` set (itIncidents st)"
    using assms(1) by (intro rewriteRows_image dist sub(1) cascadeRow_id wf) (simp_all add: wfIncidents_def)
  then show "set (itIncidents (cascadeResolveIncidents io each True problems st)) =
      rewritten (cascadeRow io each st problems) (set live) ` set (itIncidents st)"
    using fold run by simp
  show "keepsStore st (cascadeResolveIncidents io each rollupsOK problems st)"
    using fold run keepsStore_refl [OF assms(1)] by (cases rollupsOK) (simp_all add: cascadeResolveIncidents_def)
qed

section \<open>Properties\<close>

datatype incidentAct =
    Attach incidentIO "(string \<Rightarrow> string list) option" StoredProblem
  | Join incidentIO StoredProblem "string list" "(string \<Rightarrow> string list) option"
  | Cascade incidentIO "string \<Rightarrow> incidentIO" bool "StoredProblem list"

fun incidentStep :: "incidentAct \<Rightarrow> IncidentStore \<Rightarrow> IncidentStore" where
  "incidentStep (Attach io np p) st = snd (AttachProblemToIncidentWith io np p st)"
| "incidentStep (Join io p services np) st = snd (JoinOpenIncidentWith io p services np st)"
| "incidentStep (Cascade io each ok problems) st = cascadeResolveIncidents io each ok problems st"

text \<open>Identifiers that are made for new incidents are fresh.\<close>

fun goodActs :: "incidentAct list \<Rightarrow> IncidentStore \<Rightarrow> bool" where
  "goodActs [] st \<longleftrightarrow> True"
| "goodActs (a # as) st \<longleftrightarrow> (case a of Attach io np p \<Rightarrow> goodIO io st | _ \<Rightarrow> True) \<and> goodActs as (incidentStep a st)"

lemma incidentStep_keeps:
  assumes "wfIncidents (itIncidents st)" "case a of Attach io np p \<Rightarrow> goodIO io st | _ \<Rightarrow> True"
  shows "keepsStore st (incidentStep a st)"
  using assms attach_keeps join_keeps cascade_run(2) by (cases a) auto

lemma incidentRun_keeps:
  assumes "wfIncidents (itIncidents st)" "goodActs as st"
  shows "keepsStore st (fold incidentStep as st)"
  using assms
proof (induction as arbitrary: st)
  case (Cons a as)
  have step: "keepsStore st (incidentStep a st)" using incidentStep_keeps Cons.prems by simp
  then have "keepsStore (incidentStep a st) (fold incidentStep as (incidentStep a st))"
    using Cons.IH Cons.prems(2) by (simp add: keepsStore_def)
  then show ?case using step keepsRows_trans unfolding keepsStore_def by auto
qed (simp add: keepsStore_refl)

text \<open>
  C8. Over any sequence of attachments, joins and cascades that run one after the other, with any calls that fail: the row of a
  resolved incident stays as it is; every other incident stays in the table with its title, service, summary, assignee,
  postmortem, start and acknowledgement, with a severity that is not lower, and with its status unless a cascade resolved
  it; and identifiers stay unique.
\<close>
theorem automatic_paths_keep_incidents:
  assumes "wfIncidents (itIncidents st)" "goodActs acts st" "st' = fold incidentStep acts st"
  shows "(\<forall>i\<in>set (itIncidents st). incStatus i = ''resolved'' \<longrightarrow> i \<in> set (itIncidents st')) \<and>
    (\<forall>i\<in>set (itIncidents st). \<exists>j\<in>set (itIncidents st'). keepsRow i j) \<and> distinct (map incID (itIncidents st'))"
proof -
  have "keepsStore st st'" using incidentRun_keeps [OF assms(1,2)] assms(3) by simp
  then show ?thesis unfolding keepsStore_def keepsRows_def wfIncidents_def by blast
qed

text \<open>
  C18. With at most 5000 unresolved incidents, and when the rollups are read, the cascade resolves an incident if and only if the
  calls for it succeed, every problem that is attached to it is resolved, and there is such a problem or the incident has
  stood without one for an hour. The end that it records is the latest clear of an attached problem when one is recorded, and
  the time of the cascade otherwise. An incident that it does not resolve keeps its row.
\<close>
theorem cascade_resolves_cleared:
  assumes "wfIncidents (itIncidents st)" "length (filter (\<lambda>i. incStatus i \<noteq> ''resolved'') (itIncidents st)) \<le> 5000" "0 < iioNow io"
    and "i \<in> set (itIncidents st)" "incStatus i \<noteq> ''resolved''"
    and "st' = cascadeResolveIncidents io each True problems st" "j \<in> set (itIncidents st')" "incID j = incID i"
    and "ps = attachedProblems st problems (incID i)"
  shows "(incStatus j = ''resolved'' \<longleftrightarrow>
       iioGet (each (incID i)) \<and> iioUpsert (each (incID i)) \<and> (\<forall>p\<in>set ps. prStatus p = ''resolved'') \<and>
       (ps \<noteq> [] \<or> 3600 * 10 ^ 9 \<le> iioNow io - incStartedAt i)) \<and>
    (if incStatus j = ''resolved''
     then \<exists>t. incResolvedAt j = Some t \<and>
            (if \<exists>p\<in>set ps. \<exists>c>0. spResolvedAt p = Some c
             then (\<exists>p\<in>set ps. spResolvedAt p = Some t) \<and> (\<forall>p\<in>set ps. \<forall>c. spResolvedAt p = Some c \<longrightarrow> c \<le> t)
             else t = iioNow io)
     else j = i)"
proof -
  let ?live = "take 5000 (filter (\<lambda>i. incStatus i \<noteq> ''resolved'') (itIncidents st))"
  have live: "i \<in> set ?live" using assms(2,4,5) by simp
  have tbl: "set (itIncidents st') = rewritten (cascadeRow io each st problems) (set ?live) ` set (itIncidents st)"
    using cascade_run(1) [OF assms(1)] assms(6) by simp
  have ne: "incID k \<noteq> []" if "k \<in> set (itIncidents st)" for k using that assms(1) by (auto simp: wfIncidents_def)
  have rid: "incID (rewritten (cascadeRow io each st problems) P k) = incID k" if "k \<in> set (itIncidents st)" for k P
    using cascadeRow_id [OF ne [OF that]] by (auto simp: rewritten_def split: option.splits)
  obtain k where k: "k \<in> set (itIncidents st)" "j = rewritten (cascadeRow io each st problems) (set ?live) k" using assms(7) tbl by blast
  then have "incID k = incID i" using rid assms(8) by simp
  then have "k = i" using assms(1,4) k(1) by (auto simp: wfIncidents_def distinct_map inj_on_def)
  then have j: "j = (case cascadeRow io each st problems i of None \<Rightarrow> i | Some q \<Rightarrow> q)" using k(2) live by (simp add: rewritten_def)
  let ?clear = "\<exists>p\<in>set ps. \<exists>c>0. spResolvedAt p = Some c"
  have clear: "?clear \<longleftrightarrow> ps \<noteq> [] \<and> 0 < lastClear ps"
  proof
    assume ?clear
    then obtain p c where p: "p \<in> set ps" "0 < c" "spResolvedAt p = Some c" by blast
    then have "c \<le> lastClear ps" using lastClear_max(1) by blast
    then show "ps \<noteq> [] \<and> 0 < lastClear ps" using p by auto
  next
    assume "ps \<noteq> [] \<and> 0 < lastClear ps"
    then show ?clear using lastClear_max(2) [of ps] by auto
  qed
  have ended: "if ?clear then (\<exists>p\<in>set ps. spResolvedAt p = Some (endOf (iioNow io) ps)) \<and>
      (\<forall>p\<in>set ps. \<forall>c. spResolvedAt p = Some c \<longrightarrow> c \<le> endOf (iioNow io) ps) else endOf (iioNow io) ps = iioNow io"
    using lastClear_max unfolding clear by (auto simp: endOf_def)
  show ?thesis
  proof (cases "cascadeRow io each st problems i")
    case None
    then show ?thesis using j assms(5) by (auto simp: cascadeRow_def Let_def isCleared_def incidentOrphanGrace_def assms(9) split: if_splits)
  next
    case (Some q)
    then obtain eio where q: "q = resolvedIncident eio (endOf (iioNow io) ps) i"
      and c: "isCleared (iioNow io) i ps" "iioGet (each (incID i))" "iioUpsert (each (incID i))"
      by (auto simp: cascadeRow_def Let_def assms(9) split: if_splits)
    have "incStatus j = ''resolved''" "incResolvedAt j = Some (endOf (iioNow io) ps)"
      using j Some q resolvedIncident_simps [OF ne [OF assms(4)]] by simp_all
    then show ?thesis using c ended by (simp add: isCleared_def incidentOrphanGrace_def)
  qed
qed

text \<open>The outcome of an attachment.\<close>

lemma bindTo_Attached:
  "bindTo io p t r = (Attached inc, st') \<Longrightarrow> fst r = Inr inc \<and> itBindings st' = (itBindings (snd r))(prID p \<mapsto> incID inc) \<and> itIncidents st' = itIncidents (snd r)"
  by (auto simp: bindTo_def bindProblemToIncident_def Let_def split: prod.splits sum.splits if_splits)

lemma refresh_result:
  assumes "fst (refreshIncidentOnAttach io inc p st) = Inr j"
  shows "j = filledIncident io (raisedIncident inc p) \<and> itIncidents (snd (refreshIncidentOnAttach io inc p st)) = upsertRow incID j (itIncidents st) \<and>
    itBindings (snd (refreshIncidentOnAttach io inc p st)) = itBindings st"
  using assms by (auto simp: refreshIncidentOnAttach_def split_beta upsertRow_def split: if_splits)

lemma create_result:
  assumes "fst (createIncidentFor io p st) = Inr j"
  shows "j = filledIncident io (incidentOf p) \<and> itIncidents (snd (createIncidentFor io p st)) = upsertRow incID j (itIncidents st) \<and>
    itBindings (snd (createIncidentFor io p st)) = itBindings st"
  using assms by (auto simp: createIncidentFor_def split_beta upsertRow_def split: if_splits)

lemma raised_rank: "isKnownSeverity (prSeverity p) \<Longrightarrow> storeSeverityRank (prSeverity p) \<le> storeSeverityRank (incSeverity (raisedIncident inc p))"
  by (simp add: raisedIncident_def)

text \<open>A fresh attachment: the row that it wrote stands first in the table.\<close>

lemma attach_fresh:
  assumes "wfIncidents (itIncidents st)" "goodIO io st" "boundIncident io p st = None"
    and "AttachProblemToIncidentWith io np p st = (Attached inc, st')"
  shows "itIncidents st' = upsertRow incID inc (itIncidents st) \<and> itBindings st' = (itBindings st)(prID p \<mapsto> incID inc) \<and>
    incStatus inc \<noteq> ''resolved'' \<and> incUpdatedAt inc = iioNow io \<and> incID inc \<noteq> [] \<and>
    (incStartedAt inc = prStartedAt p \<or> incStartedAt inc = iioNow io \<or> (\<exists>i\<in>set (itIncidents st). incStartedAt inc = incStartedAt i)) \<and>
    (isKnownSeverity (prSeverity p) \<longrightarrow> storeSeverityRank (prSeverity p) \<le> storeSeverityRank (incSeverity inc))"
proof -
  obtain m t where mt: "groupTarget io np (prService p) (itIncidents st) = (m, t)" by (cases "groupTarget io np (prService p) (itIncidents st)")
  define got where "got = (if m \<noteq> [] \<and> iioGet io then GetIncident m (itIncidents st) else None)"
  define r where "r = (case got of Some g \<Rightarrow> refreshIncidentOnAttach io g p st | None \<Rightarrow> createIncidentFor io p st)"
  have run: "bindTo io p t r = (Attached inc, st')"
    using assms(3,4) by (auto simp: AttachProblemToIncidentWith_def mt got_def r_def split: if_splits)
  note b = bindTo_Attached [OF run]
  show ?thesis
  proof (cases got)
    case None
    then have "fst (createIncidentFor io p st) = Inr inc" using b by (simp add: r_def)
    note c = create_result [OF this]
    have "isKnownSeverity (prSeverity p) \<longrightarrow> prSeverity p \<noteq> []" by (auto simp: isKnownSeverity_def)
    then show ?thesis using b c None assms(2) by (auto simp: r_def incidentOf_def filledIncident_def goodIO_def)
  next
    case (Some g)
    then have "m \<noteq> []" "GetIncident m (itIncidents st) = Some g" by (auto simp: got_def split: if_splits)
    then obtain i where i: "i \<in> set (itIncidents st)" "g = scanned i" "incStatus i \<noteq> ''resolved''"
      using target_member(1) [OF mt] match_get [OF assms(1)] by blast
    have wf: "incID i \<noteq> []" "incStartedAt i \<noteq> 0" "incStatus i \<noteq> []" "incSeverity i \<noteq> []" using assms(1) i(1) by (auto simp: wfIncidents_def)
    have "fst (refreshIncidentOnAttach io g p st) = Inr inc" using b Some by (simp add: r_def)
    note c = refresh_result [OF this]
    have sev: "incSeverity (raisedIncident g p) \<noteq> []" using wf i(2) by (auto simp: raisedIncident_def isKnownSeverity_def)
    have rest: "incStatus (raisedIncident g p) = incStatus i" "incID (raisedIncident g p) = incID i" "incStartedAt (raisedIncident g p) = incStartedAt i"
      using i(2) by (simp_all add: raisedIncident_def)
    show ?thesis
      using b c Some i wf sev rest raised_rank [of p g] by (auto simp: r_def)
  qed
qed

lemma newest_first: "\<forall>k\<in>set is. activity k \<le> activity i \<Longrightarrow> newestIncident (Some i) is = Some i"
  by (induction "is") auto

lemma newest_None: "newestIncident best is = None \<longleftrightarrow> best = None \<and> is = []"
  by (induction "is" arbitrary: best) (auto split: option.splits)

lemma match_none:
  assumes "wfIncidents tbl" "iioMatch io" "matchIncidentAmong io ss cutoff tbl = []" "i \<in> set tbl" "incStatus i \<noteq> ''resolved''" "incService i \<in> set ss"
  shows "activity i < cutoff"
proof (rule ccontr)
  let ?live = "filter (\<lambda>i. incStatus i \<noteq> ''resolved'' \<and> incService i \<in> set ss \<and> cutoff \<le> activity i) tbl"
  assume "\<not> activity i < cutoff"
  then have "?live \<noteq> []" using assms(4-6) by (auto simp: filter_empty_conv)
  then obtain k where k: "newestIncident None ?live = Some k" using newest_None [of None ?live] by auto
  then have "k \<in> set tbl" using newestIncident_member [OF k] by auto
  then show False using k assms(1-3) by (auto simp: matchIncidentAmong_def wfIncidents_def)
qed

text \<open>The service of the incident: that of the problem, or that of a neighbour when the service had no active incident.\<close>

lemma attach_service:
  assumes "wfIncidents (itIncidents st)" "boundIncident io p st = None" "AttachProblemToIncidentWith io np p st = (Attached inc, st')"
  shows "incService inc = prService p \<or>
    (\<exists>nb. np = Some nb \<and> incService inc \<in> set (nb (prService p)) \<and>
       (\<forall>i\<in>set (itIncidents st). incStatus i \<noteq> ''resolved'' \<longrightarrow> incService i = prService p \<longrightarrow> activity i < iioNow io - incidentGroupingWindow))"
proof -
  let ?cut = "iioNow io - incidentGroupingWindow" and ?tbl = "itIncidents st"
  obtain m t where mt: "groupTarget io np (prService p) ?tbl = (m, t)" by (cases "groupTarget io np (prService p) ?tbl")
  define got where "got = (if m \<noteq> [] \<and> iioGet io then GetIncident m ?tbl else None)"
  define r where "r = (case got of Some g \<Rightarrow> refreshIncidentOnAttach io g p st | None \<Rightarrow> createIncidentFor io p st)"
  have run: "bindTo io p t r = (Attached inc, st')"
    using assms(2,3) by (auto simp: AttachProblemToIncidentWith_def mt got_def r_def split: if_splits)
  note b = bindTo_Attached [OF run]
  show ?thesis
  proof (cases got)
    case None
    then show ?thesis using b create_result [of io p st inc] by (simp add: r_def incidentOf_def filledIncident_def)
  next
    case (Some g)
    then have m: "m \<noteq> []" "GetIncident m ?tbl = Some g" by (auto simp: got_def split: if_splits)
    have inc: "incService inc = incService g"
      using b Some refresh_result [of io g p st inc] by (simp add: r_def filledIncident_def raisedIncident_def)
    let ?same = "matchIncidentSameService io (prService p) ?cut ?tbl"
    have svc: "incService g \<in> set ss" if match: "matchIncidentAmong io ss ?cut ?tbl = m" for ss
    proof -
      obtain i where i: "i \<in> set ?tbl" "incID i = m" "incService i \<in> set ss" using match_member [OF match m(1)] by blast
      then have "g = scanned i" using GetIncident_Some [OF assms(1) i(1)] m(2) by simp
      then show ?thesis using i(3) by simp
    qed
    show ?thesis
    proof (cases "?same = []")
      case False
      then have "matchIncidentAmong io [prService p] ?cut ?tbl = m" using mt by (simp add: groupTarget_def matchIncidentSameService_def Let_def)
      then show ?thesis using svc [of "[prService p]"] inc by simp
    next
      case True
      then obtain nb where nb: "np = Some nb" "matchIncidentAmong io (nb (prService p)) ?cut ?tbl = m"
        using mt m(1) by (auto simp: groupTarget_def Let_def split: option.splits)
      have "iioMatch io" using nb(2) m(1) by (auto simp: matchIncidentAmong_def split: if_splits)
      then have "activity i < ?cut" if "i \<in> set ?tbl" "incStatus i \<noteq> ''resolved''" "incService i = prService p" for i
        using match_none [OF assms(1) _ True [unfolded matchIncidentSameService_def]] that by simp
      then show ?thesis using nb svc [OF nb(2)] inc by simp
    qed
  qed
qed

text \<open>The incident that was touched last is the match, and a problem that is matched to an incident is bound to it.\<close>

lemma match_newest:
  assumes "iioMatch io" "incStatus inc \<noteq> ''resolved''" "incService inc \<in> set ss" "bound \<le> activity inc" "\<forall>i\<in>set rest. activity i \<le> activity inc"
  shows "matchIncidentAmong io ss bound (inc # filter P rest) = incID inc"
proof -
  let ?live = "\<lambda>i. incStatus i \<noteq> ''resolved'' \<and> incService i \<in> set ss \<and> bound \<le> activity i"
  have "newestIncident None (filter ?live (inc # filter P rest)) = newestIncident (Some inc) (filter ?live (filter P rest))" using assms(2-4) by simp
  also have "\<dots> = Some inc" using assms(5) by (intro newest_first) auto
  finally show ?thesis using assms(1) by (simp add: matchIncidentAmong_def)
qed

lemma attach_joins:
  assumes "wfIncidents (itIncidents st)" "groupTarget io np (prService q) (itIncidents st) = (incID inc, t)" "inc \<in> set (itIncidents st)"
    and "incID inc \<noteq> []" "incStatus inc \<noteq> ''resolved''" "itBindings st (prID q) = None" "iioEnabled io" "iioGet io" "iioUpsert io" "iioBind io"
  shows "itBindings (snd (AttachProblemToIncidentWith io np q st)) = (itBindings st)(prID q \<mapsto> incID inc)"
proof -
  have "GetIncident (incID inc) (itIncidents st) = Some (scanned inc)" using GetIncident_Some [OF assms(1,3)] by simp
  moreover have "boundIncident io q st = None" using assms(6) by (simp add: boundIncident_def)
  ultimately have "AttachProblemToIncidentWith io np q st = bindTo io q t (refreshIncidentOnAttach io (scanned inc) q st)"
    using assms(2,4,5,7,8) by (simp add: AttachProblemToIncidentWith_def)
  moreover have "incID (raisedIncident (scanned inc) q) = incID inc" by (simp add: raisedIncident_def)
  ultimately show ?thesis
    using assms(4,9,10) by (simp add: refreshIncidentOnAttach_def bindTo_def bindProblemToIncident_def split_beta)
qed

text \<open>
  C20. A problem that is attached without error is bound to one incident that is in the table and not resolved, with at least the
  severity of the problem when that severity is info, warning or critical; no other binding changes. And problems of one
  service share an incident while it is active, whatever their severities: a second problem of the same service that is not
  bound yet and comes at most half an hour after the first was attached goes to the same incident, also when that is
  an incident of a neighbouring service, as long as the calls for it succeed and the neighbours are the same.
\<close>
theorem attach_groups_by_service:
  assumes "wfIncidents (itIncidents st)" "goodIO io st" "itBindings st (prID p) = None"
    and "AttachProblemToIncidentWith io np p st = (Attached inc, st')"
    and "\<forall>i\<in>set (itIncidents st). activity i \<le> iioNow io" "prStartedAt p \<le> iioNow io"
    and "itBindings st (prID q) = None" "prID q \<noteq> prID p" "prService q = prService p"
    and "iioNow io \<le> iioNow io'" "iioNow io' \<le> iioNow io + 30 * 60 * 10 ^ 9"
    and "iioEnabled io'" "iioMatch io'" "iioGet io'" "iioUpsert io'" "iioBind io'"
  shows "inc \<in> set (itIncidents st') \<and> incStatus inc \<noteq> ''resolved'' \<and> itBindings st' = (itBindings st)(prID p \<mapsto> incID inc) \<and>
    (isKnownSeverity (prSeverity p) \<longrightarrow> storeSeverityRank (prSeverity p) \<le> storeSeverityRank (incSeverity inc)) \<and>
    itBindings (snd (AttachProblemToIncidentWith io' np q st')) = (itBindings st')(prID q \<mapsto> incID inc)"
proof -
  have free: "boundIncident io p st = None" using assms(3) by (simp add: boundIncident_def)
  note fresh = attach_fresh [OF assms(1,2) free assms(4)]
  have wf': "wfIncidents (itIncidents st')" using attach_keeps [OF assms(1,2), of np p] assms(4) by (simp add: keepsStore_def)
  have first: "itIncidents st' = inc # filter (\<lambda>k. incID k \<noteq> incID inc) (itIncidents st)" using fresh by (simp add: upsertRow_def)
  have "incStartedAt inc \<le> iioNow io" using fresh assms(5,6) by (auto simp: activity_def)
  then have act: "activity inc = iioNow io" using fresh by (simp add: activity_def)
  let ?cut = "iioNow io' - incidentGroupingWindow"
  have newest: "matchIncidentAmong io' ss ?cut (itIncidents st') = incID inc" if "incService inc \<in> set ss" for ss
    unfolding first using fresh act that assms(5,11,13) by (intro match_newest) (auto simp: incidentGroupingWindow_def)
  obtain t where target: "groupTarget io' np (prService q) (itIncidents st') = (incID inc, t)"
  proof (cases "incService inc = prService p")
    case True
    then have "matchIncidentSameService io' (prService q) ?cut (itIncidents st') = incID inc"
      using newest [of "[prService q]"] assms(9) by (simp add: matchIncidentSameService_def)
    then show ?thesis using that [of False] fresh by (simp add: groupTarget_def)
  next
    case False
    then obtain nb where nb: "np = Some nb" "incService inc \<in> set (nb (prService p))"
      and old: "\<And>i. i \<in> set (itIncidents st) \<Longrightarrow> incStatus i \<noteq> ''resolved'' \<Longrightarrow> incService i = prService p \<Longrightarrow> activity i < iioNow io - incidentGroupingWindow"
      using attach_service [OF assms(1) free assms(4)] by blast
    have "filter (\<lambda>i. incStatus i \<noteq> ''resolved'' \<and> incService i \<in> set [prService q] \<and> ?cut \<le> activity i) (itIncidents st') = []"
      using old False assms(9,10) by (force simp: first filter_empty_conv)
    then have "matchIncidentSameService io' (prService q) ?cut (itIncidents st') = []"
      unfolding matchIncidentSameService_def matchIncidentAmong_def by (simp only: newestIncident.simps) simp
    then show ?thesis using that [of True] newest [of "nb (prService q)"] nb fresh assms(9) by (simp add: groupTarget_def)
  qed
  moreover have "inc \<in> set (itIncidents st')" unfolding first by simp
  moreover have "incID inc \<noteq> []" "itBindings st' (prID q) = None" using fresh assms(7,8) by simp_all
  ultimately have "itBindings (snd (AttachProblemToIncidentWith io' np q st')) = (itBindings st')(prID q \<mapsto> incID inc)"
    using attach_joins [OF wf'] fresh assms(12,14-16) by blast
  moreover note \<open>inc \<in> set (itIncidents st')\<close>
  ultimately show ?thesis using fresh by blast
qed

section \<open>Examples\<close>

definition okIO :: "int \<Rightarrow> string \<Rightarrow> incidentIO" where
  "okIO now nid = \<lparr>iioNow = now, iioNewID = nid, iioEnabled = True, iioHook = False, iioReadBinding = True, iioMatch = True, iioGet = True,
     iioUpsert = True, iioBind = True, iioEvent = True\<rparr>"

definition problemAt :: "int \<Rightarrow> string \<Rightarrow> string \<Rightarrow> StoredProblem" where
  "problemAt t pid sev = (newProblem (envAt t pid) rateRule ''web'' ''error_rate'' (Some 7))\<lparr>prSeverity := sev\<rparr>"

definition noIncidents :: IncidentStore where "noIncidents = \<lparr>itIncidents = [], itBindings = Map.empty, itEvents = [], itNotified = []\<rparr>"

definition oneIncident :: IncidentStore where
  "oneIncident = snd (AttachProblemToIncidentWith (okIO 10 ''i1'') None (problemAt 9 ''p1'' ''warning'') noIncidents)"

lemma oneIncident_simps:
  "itIncidents oneIncident = [filledIncident (okIO 10 ''i1'') (incidentOf (problemAt 9 ''p1'' ''warning''))]" "itBindings oneIncident = [''p1'' \<mapsto> ''i1'']"
  "AttachProblemToIncidentWith (okIO 10 ''i1'') None (problemAt 9 ''p1'' ''warning'') noIncidents =
     (Attached (filledIncident (okIO 10 ''i1'') (incidentOf (problemAt 9 ''p1'' ''warning''))), oneIncident)"
  by (simp_all add: oneIncident_def AttachProblemToIncidentWith_def okIO_def noIncidents_def boundIncident_def groupTarget_def matchIncidentSameService_def
      matchIncidentAmong_def bindTo_def bindProblemToIncident_def createIncidentFor_def UpsertIncident_def filledIncident_def incidentOf_def
      AppendIncidentLifecycle_def AppendIncidentEvent_def problemAt_def newProblem_def envAt_def Let_def)

lemmas exampleRow = filledIncident_def okIO_def incidentOf_def problemAt_def newProblem_def envAt_def rateRule_def

lemma noIncidents_wf: "wfIncidents (itIncidents noIncidents)" "goodIO (okIO 10 ''i1'') noIncidents"
  by (simp_all add: wfIncidents_def noIncidents_def goodIO_def okIO_def)

lemma oneIncident_wf: "wfIncidents (itIncidents oneIncident)"
  by (simp add: oneIncident_simps wfIncidents_def exampleRow)

theorem automatic_paths_keep_incidents_witness:
  "\<exists>j\<in>set (itIncidents (fold incidentStep [Attach (okIO 20 ''i2'') None (problemAt 15 ''p2'' ''critical''), Cascade (okIO 30 []) (\<lambda>_. okIO 0 []) True []] oneIncident)).
     incID j = ''i1'' \<and> 2 \<le> storeSeverityRank (incSeverity j)"
proof -
  let ?acts = "[Attach (okIO 20 ''i2'') None (problemAt 15 ''p2'' ''critical''), Cascade (okIO 30 []) (\<lambda>_. okIO 0 []) True []]"
  have g: "goodActs ?acts oneIncident" by (simp add: oneIncident_simps goodIO_def exampleRow)
  let ?i = "filledIncident (okIO 10 ''i1'') (incidentOf (problemAt 9 ''p1'' ''warning''))"
  have i: "?i \<in> set (itIncidents oneIncident)" "incID ?i = ''i1''" "incSeverity ?i = ''warning''" by (simp_all add: oneIncident_simps exampleRow)
  have "storeSeverityRank ''warning'' = 2" by (simp add: storeSeverityRank_def)
  moreover obtain j where "j \<in> set (itIncidents (fold incidentStep ?acts oneIncident))" "keepsRow ?i j"
    using automatic_paths_keep_incidents [OF oneIncident_wf g refl] i(1) by blast
  ultimately show ?thesis using i(2,3) by (intro bexI [of _ j]) (auto simp: keepsRow_def)
qed

theorem cascade_resolves_cleared_witness:
  "\<exists>i j. i \<in> set (itIncidents oneIncident) \<and> incID j = incID i \<and> incStatus i \<noteq> ''resolved'' \<and> incStatus j = ''resolved'' \<and>
     j \<in> set (itIncidents (cascadeResolveIncidents (okIO 50 []) (\<lambda>_. okIO 0 []) True [MarkResolved (problemAt 9 ''p1'' ''warning'') 40] oneIncident))"
proof -
  let ?i = "filledIncident (okIO 10 ''i1'') (incidentOf (problemAt 9 ''p1'' ''warning''))"
  let ?problems = "[MarkResolved (problemAt 9 ''p1'' ''warning'') 40]"
  have i: "?i \<in> set (itIncidents oneIncident)" "incStatus ?i \<noteq> ''resolved''" by (simp_all add: oneIncident_simps exampleRow)
  have "keepsStore oneIncident (cascadeResolveIncidents (okIO 50 []) (\<lambda>_. okIO 0 []) True ?problems oneIncident)" by (rule cascade_run(2) [OF oneIncident_wf])
  then obtain j where j: "j \<in> set (itIncidents (cascadeResolveIncidents (okIO 50 []) (\<lambda>_. okIO 0 []) True ?problems oneIncident))" "incID j = incID ?i"
    using i(1) unfolding keepsStore_def keepsRows_def keepsRow_def by blast
  have len: "length (filter (\<lambda>i. incStatus i \<noteq> ''resolved'') (itIncidents oneIncident)) \<le> 5000" by (simp add: oneIncident_simps)
  have ps: "attachedProblems oneIncident ?problems (incID ?i) = ?problems"
    by (simp add: attachedProblems_def oneIncident_simps(2) MarkResolved_def exampleRow)
  have "0 < iioNow (okIO 50 [])" by (simp add: okIO_def)
  then have "incStatus j = ''resolved''"
    using cascade_resolves_cleared [OF oneIncident_wf len _ i refl j refl] unfolding ps by (simp add: okIO_def MarkResolved_def)
  then show ?thesis using i j by blast
qed

theorem attach_groups_by_service_witness:
  "itBindings (snd (AttachProblemToIncidentWith (okIO 20 ''i2'') None (problemAt 15 ''p2'' ''critical'') oneIncident)) ''p2'' = Some ''i1''"
proof -
  let ?i = "filledIncident (okIO 10 ''i1'') (incidentOf (problemAt 9 ''p1'' ''warning''))"
  have "itBindings noIncidents (prID (problemAt 9 ''p1'' ''warning'')) = None" by (simp add: noIncidents_def)
  from attach_groups_by_service [OF noIncidents_wf this oneIncident_simps(3), where q = "problemAt 15 ''p2'' ''critical''" and io' = "okIO 20 ''i2''"]
  have "itBindings (snd (AttachProblemToIncidentWith (okIO 20 ''i2'') None (problemAt 15 ''p2'' ''critical'') oneIncident)) (prID (problemAt 15 ''p2'' ''critical'')) = Some (incID ?i)"
    by (simp add: noIncidents_def exampleRow)
  then show ?thesis by (simp add: exampleRow)
qed

section \<open>Where a write is stale\<close>

text \<open>
  An attachment reads the row of its incident and writes the whole row back. When a cascade (or an operator) resolves the incident
  between the read and the write, the write puts the row that was read back in place: the incident is open again and its
  end is lost.
\<close>

lemma stale_attach_reopens:
  assumes "iioUpsert io" "incID i \<noteq> []" "incStatus i \<noteq> []" "incStatus i \<noteq> ''resolved''" "incResolvedAt i = None"
    and "itIncidents resolvedMeanwhile = [i\<lparr>incStatus := ''resolved'', incResolvedAt := Some t\<rparr>]"
  shows "map (\<lambda>j. (incID j, incStatus j, incResolvedAt j)) (itIncidents (snd (refreshIncidentOnAttach io i p resolvedMeanwhile))) =
    [(incID i, incStatus i, None)]"
proof -
  let ?r = "raisedIncident i p"
  have r: "incID ?r = incID i" "incStatus ?r = incStatus i" "incResolvedAt ?r = incResolvedAt i" by (simp_all add: raisedIncident_def)
  have "itIncidents (snd (refreshIncidentOnAttach io i p resolvedMeanwhile)) = itIncidents (snd (UpsertIncident io ?r resolvedMeanwhile))"
    using assms(1) by (simp add: refreshIncidentOnAttach_def split_beta)
  moreover have "incID (filledIncident io ?r) = incID i" "incStatus (filledIncident io ?r) = incStatus i" "incResolvedAt (filledIncident io ?r) = None"
    using assms(2,3,5) r by (simp_all add: filledIncident_def)
  ultimately show ?thesis using assms(6) by simp
qed

section \<open>Where the handlers differ\<close>

text \<open>
  The handler that acknowledges does not look at the status, so it takes a resolved incident back among the unresolved ones, with its end still set. The
  acknowledgement by a link in a message looks at it, and the automatic paths never reopen an incident.
\<close>

lemma ack_reopens_resolved:
  assumes "wfIncidents (itIncidents st)" "i \<in> set (itIncidents st)" "incStatus i = ''resolved''" "iioGet io" "iioUpsert io"
  shows "\<exists>j\<in>set (itIncidents (snd (ackIncident io actor (incID i) st))). incID j = incID i \<and> incStatus j = ''acknowledged'' \<and> incResolvedAt j = incResolvedAt (scanned i)"
  using GetIncident_Some [OF assms(1,2)] assms
  by (auto simp: ackIncident_def split_beta wfIncidents_def filledIncident_def)

text \<open>
  The page says that it is cut when it holds as many rows as were asked for; the store answers at most 200 rows when more than a thousand are
  asked for, so such a page is cut without saying so.
\<close>

lemma page_cut_silently:
  assumes "1000 < limit" "length (filter (keepsIncident \<lparr>ifID = [], ifStatus = status, ifServices = None, ifNotStatuses = [], ifService = service, ifSeverity = severity, ifLimit = limit\<rparr>) (itIncidents st)) = n" "200 < n"
  shows "length (ipItems (listIncidents status service severity limit st)) = 200 \<and> \<not> ipTruncated (listIncidents status service severity limit st)"
  using assms by (simp add: listIncidents_def ListIncidents_def incidentLimit_def Let_def)

text \<open>The badge counts the rows that the list shows, when nothing else narrows them and the list is not cut.\<close>

lemma badge_counts_list:
  assumes "length tbl \<le> 1000"
  shows "CountIncidentsNotInStatuses exclude None tbl =
    length (ListIncidents \<lparr>ifID = [], ifStatus = [], ifServices = None, ifNotStatuses = exclude, ifService = [], ifSeverity = [], ifLimit = 1000\<rparr> tbl)"
proof -
  have "keepsIncident \<lparr>ifID = [], ifStatus = [], ifServices = None, ifNotStatuses = exclude, ifService = [], ifSeverity = [], ifLimit = 1000\<rparr> =
      (\<lambda>i. incStatus i \<notin> set exclude)" by (simp add: keepsIncident_def fun_eq_iff)
  moreover have "length (filter (\<lambda>i. incStatus i \<notin> set exclude) tbl) \<le> 1000" using assms length_filter_le le_trans by blast
  ultimately show ?thesis by (simp add: CountIncidentsNotInStatuses_def ListIncidents_def incidentLimit_def)
qed

end
