(* ===== verification/AlertTick.thy ===== *)
theory AlertTick
  imports AlertEval Keyed "HOL-Library.Multiset"
begin

text \<open>
  The rest of an evaluator tick (\<open>internal/evaluator\<close>): the continuity of evaluation across ticks, pods and
  restarts (\<open>tick_continuity.go\<close>, the heartbeat), the sweep of silent problems with the rows that pollers own, and the
  escalation by age (\<open>evaluator.go\<close>). The zero time is \<open>None\<close>. Lower-casing is an argument; the calls of the clock
  within one sweep give one instant. A middle dot is its two bytes of UTF-8.
\<close>

section \<open>Continuity\<close>

record Heartbeat =
  hbStartedAt :: int
  hbContinuousSince :: int

record tickTrace =
  tkLastTickAt :: "int option"
  tkContSince :: "int option"

definition tickGapTolerance :: "int \<Rightarrow> int" where "tickGapTolerance interval = 2 * interval"

definition noteTickContinuity :: "int \<Rightarrow> Heartbeat option \<Rightarrow> int \<Rightarrow> tickTrace \<Rightarrow> tickTrace" where
  "noteTickContinuity interval hb now tk =
     (let read = (if tkLastTickAt tk = None then hb else None);
          prev = (case tkLastTickAt tk of
                    Some t \<Rightarrow> Some t
                  | None \<Rightarrow> (case read of Some h \<Rightarrow> if 0 < hbStartedAt h then Some (hbStartedAt h) else None | None \<Rightarrow> None));
          inherited = (case read of Some h \<Rightarrow> if 0 < hbContinuousSince h then Some (hbContinuousSince h) else None | None \<Rightarrow> None);
          cont = (case prev of
                    None \<Rightarrow> Some now
                  | Some p \<Rightarrow>
                      if tickGapTolerance interval < now - p then Some now
                      else if tkContSince tk = None then (case inherited of Some i \<Rightarrow> Some i | None \<Rightarrow> Some p)
                      else tkContSince tk) in
      tk\<lparr>tkContSince := cont, tkLastTickAt := Some now\<rparr>)"

definition sweepIsTrustworthy :: "int \<Rightarrow> int \<Rightarrow> tickTrace \<Rightarrow> bool" where
  "sweepIsTrustworthy interval now tk = (case tkContSince tk of None \<Rightarrow> False | Some c \<Rightarrow> 3 * interval \<le> now - c)"

text \<open>What a tick writes for the next leader.\<close>

definition heartbeatOf :: "int \<Rightarrow> tickTrace \<Rightarrow> Heartbeat" where
  "heartbeatOf started tk = \<lparr>hbStartedAt = started, hbContinuousSince = (case tkContSince tk of Some c \<Rightarrow> c | None \<Rightarrow> 0)\<rparr>"

definition tickDeadline :: "int \<Rightarrow> int" where
  "tickDeadline interval = (let d = 5 * interval in if d < 60 * 10 ^ 9 then 60 * 10 ^ 9 else d)"

section \<open>The sweep of silent problems\<close>

definition ListStaleOpenProblems :: "int \<Rightarrow> StoredProblem list \<Rightarrow> StoredProblem list" where
  "ListStaleOpenProblems cutoff tbl = take 500 (sort_key spUpdatedAt (filter (\<lambda>p. isOpenRow p \<and> spUpdatedAt p < cutoff) tbl))"

definition CutPrefix :: "string \<Rightarrow> string \<Rightarrow> string option" where
  "CutPrefix s pre = (if HasPrefix s pre then Some (drop (length pre) s) else None)"

definition sourceOf :: "string \<Rightarrow> string" where
  "sourceOf rest = (case IndexByte rest (CHR ''/'') of Some i \<Rightarrow> take i rest | None \<Rightarrow> rest)"

definition capSubject :: "string \<Rightarrow> string option" where
  "capSubject rest =
     (case IndexByte rest (CHR '':'') of
        None \<Rightarrow> None
      | Some i \<Rightarrow>
          (let a = take i rest; tail = drop (i + 1) rest;
               b = (case IndexByte tail (CHR '':'') of None \<Rightarrow> tail | Some j \<Rightarrow> take j tail) in
           if a = [] \<or> b = [] then None else Some (a @ '':'' @ b)))"

definition PollerOwnedSubject :: "string \<Rightarrow> string option" where
  "PollerOwnedSubject ruleID =
     (case CutPrefix ruleID ''anomaly:ext-down:'' of
        Some rest \<Rightarrow> if rest \<noteq> [] then Some rest else None
      | None \<Rightarrow>
          (case CutPrefix ruleID ''anomaly:ext:'' of
             Some rest \<Rightarrow> if sourceOf rest = [] then None else Some (''ext:'' @ sourceOf rest)
           | None \<Rightarrow>
               (case CutPrefix ruleID ''anomaly-cluster:ext:'' of
                  Some rest \<Rightarrow> if sourceOf rest = [] then None else Some (''ext:'' @ sourceOf rest)
                | None \<Rightarrow>
                    (case CutPrefix ruleID ''anomaly:ext-cap:'' of
                       None \<Rightarrow> None
                     | Some rest \<Rightarrow> capSubject rest))))"

definition pollerKeeps :: "(string \<Rightarrow> bool) option \<Rightarrow> StoredProblem \<Rightarrow> bool" where
  "pollerKeeps live p =
     (case PollerOwnedSubject (prRuleID p) of
        None \<Rightarrow> False
      | Some subject \<Rightarrow> (case live of None \<Rightarrow> True | Some f \<Rightarrow> f subject))"

definition staleSweepCandidates :: "(string \<Rightarrow> bool) option \<Rightarrow> StoredProblem list \<Rightarrow> StoredProblem list \<times> StoredProblem list" where
  "staleSweepCandidates live stale = (filter (\<lambda>p. \<not> pollerKeeps live p) stale, filter (pollerKeeps live) stale)"

definition middleDot :: string where "middleDot = [CHR 0xC2, CHR 0xB7]"

definition appendStaleSuffix :: "string \<Rightarrow> string" where
  "appendStaleSuffix desc =
     (if Contains desc ''source silent'' then desc else desc @ '' '' @ middleDot @ '' auto-resolved: source silent'')"

definition appendResolveSuffix :: "string \<Rightarrow> string \<Rightarrow> string" where
  "appendResolveSuffix desc reason =
     (if Contains desc reason then desc else desc @ '' '' @ middleDot @ '' auto-resolved: '' @ reason)"

definition sweptRow :: "int \<Rightarrow> StoredProblem \<Rightarrow> StoredProblem" where
  "sweptRow now p = (MarkResolved p now)\<lparr>spDescription := appendStaleSuffix (spDescription p)\<rparr>"

text \<open>The loop; \<open>ok\<close> says for which rows the write succeeds.\<close>

fun sweepLoop :: "stampIO \<Rightarrow> (string \<Rightarrow> bool) \<Rightarrow> int \<Rightarrow> StoredProblem list \<Rightarrow> EvalState \<Rightarrow> EvalState" where
  "sweepLoop io ok now [] st = st"
| "sweepLoop io ok now (p # ps) st =
     sweepLoop io ok now ps
       (if ok (prID p) then
          clearResolved io (prRuleID p, prService p) (st\<lparr>esProblems := UpsertProblem now (sweptRow now p) (esProblems st)\<rparr>)
        else st)"

definition sweepStaleProblems ::
  "int \<Rightarrow> bool \<Rightarrow> (string \<Rightarrow> bool) option \<Rightarrow> stampIO \<Rightarrow> (string \<Rightarrow> bool) \<Rightarrow> int \<Rightarrow> tickTrace \<Rightarrow> EvalState \<Rightarrow> EvalState" where
  "sweepStaleProblems interval listOK live io ok now tk st =
     (if \<not> sweepIsTrustworthy interval now tk \<or> \<not> listOK then st
      else sweepLoop io ok now (fst (staleSweepCandidates live (ListStaleOpenProblems (now - 3 * interval) (esProblems st)))) st)"

section \<open>Escalation by age\<close>

record ProblemEscalationConfig =
  ecEnabled :: bool
  ecInfoToWarningSec :: int
  ecWarningToCriticalSec :: int

definition DefaultProblemEscalation :: ProblemEscalationConfig where
  "DefaultProblemEscalation = \<lparr>ecEnabled = True, ecInfoToWarningSec = 15 * 60, ecWarningToCriticalSec = 30 * 60\<rparr>"

definition NormalizeProblemEscalation :: "ProblemEscalationConfig \<Rightarrow> ProblemEscalationConfig" where
  "NormalizeProblemEscalation c =
     (let d = DefaultProblemEscalation;
          i = (if ecInfoToWarningSec c \<le> 0 then ecInfoToWarningSec d else ecInfoToWarningSec c);
          w = (if ecWarningToCriticalSec c \<le> 0 then ecWarningToCriticalSec d else ecWarningToCriticalSec c) in
      c\<lparr>ecInfoToWarningSec := i, ecWarningToCriticalSec := (if w < i then i else w)\<rparr>)"

text \<open>Durations are 64-bit products of seconds.\<close>

definition nextSeverity :: "(string \<Rightarrow> string) \<Rightarrow> string \<Rightarrow> int \<Rightarrow> ProblemEscalationConfig \<Rightarrow> string" where
  "nextSeverity lower cur age cfg0 =
     (if \<not> ecEnabled cfg0 then []
      else
        (let cfg = NormalizeProblemEscalation cfg0;
             toWarning = wrap64 (ecInfoToWarningSec cfg * 10 ^ 9); toCritical = wrap64 (ecWarningToCriticalSec cfg * 10 ^ 9) in
         if lower cur = ''info'' then
           (if toCritical \<le> age then ''critical'' else if toWarning \<le> age then ''warning'' else [])
         else if lower cur = ''warning'' then (if toCritical \<le> age then ''critical'' else [])
         else []))"

definition effectiveSeverity :: "(string \<Rightarrow> string) \<Rightarrow> string \<Rightarrow> int \<Rightarrow> ProblemEscalationConfig \<Rightarrow> string" where
  "effectiveSeverity lower computed age cfg =
     (let next = nextSeverity lower computed age cfg in if next \<noteq> [] then next else computed)"

definition escalationExempt :: "string \<Rightarrow> bool" where
  "escalationExempt ruleID \<longleftrightarrow> ruleID = ''self-volume-spike'' \<or> HasPrefix ruleID ''slo:''"

definition filterProblems :: "StoredProblem list \<Rightarrow> string \<Rightarrow> string \<Rightarrow> nat \<Rightarrow> StoredProblem list" where
  "filterProblems rows status severity limit =
     (let out = sort_key (\<lambda>p. - prStartedAt p)
            (filter (\<lambda>p. (status = [] \<or> prStatus p = status) \<and> (severity = [] \<or> prSeverity p = severity)) rows) in
      if 0 < limit then take limit out else out)"

text \<open>The severity that the sweep gives a row, if it changes.\<close>

definition escalates :: "(string \<Rightarrow> string) \<Rightarrow> ProblemEscalationConfig \<Rightarrow> int \<Rightarrow> StoredProblem \<Rightarrow> string option" where
  "escalates lower cfg now p =
     (if escalationExempt (prRuleID p) then None
      else
        (let next = nextSeverity lower (prSeverity p) (now - prStartedAt p) cfg in
         if next = [] \<or> next = prSeverity p then None else Some next))"

fun escalateLoop ::
  "(string \<Rightarrow> string) \<Rightarrow> ProblemEscalationConfig \<Rightarrow> (string \<Rightarrow> bool) \<Rightarrow> int \<Rightarrow> StoredProblem list \<Rightarrow> StoredProblem list \<Rightarrow> StoredProblem list \<times> StoredProblem list" where
  "escalateLoop lower cfg ok now [] tbl = (tbl, [])"
| "escalateLoop lower cfg ok now (p # ps) tbl =
     (case escalates lower cfg now p of
        None \<Rightarrow> escalateLoop lower cfg ok now ps tbl
      | Some next \<Rightarrow>
          (let q = p\<lparr>prSeverity := next\<rparr> in
           if ok (prID p) then
             (let (tbl', alerts) = escalateLoop lower cfg ok now ps (UpsertProblem now q tbl) in (tbl', q # alerts))
           else escalateLoop lower cfg ok now ps tbl))"

definition escalateStaleProblems ::
  "(string \<Rightarrow> string) \<Rightarrow> ProblemEscalationConfig \<Rightarrow> bool \<Rightarrow> (string \<Rightarrow> bool) \<Rightarrow> int \<Rightarrow> StoredProblem list \<Rightarrow> StoredProblem list \<times> StoredProblem list" where
  "escalateStaleProblems lower cfg snapOK ok now tbl =
     (if \<not> ecEnabled cfg \<or> \<not> snapOK then (tbl, [])
      else escalateLoop lower cfg ok now (filterProblems (openProblemsSnapshot tbl) ''open'' [] 500) tbl)"

section \<open>Continuity over a fleet of pods\<close>

text \<open>
  Pods with their memory, the shared heartbeat and, as a record of what happened, the starts of all ticks. A tick is
  two steps, so that ticks of two pods may overlap; reads and writes of the heartbeat may fail, it may expire, and a
  pod may restart at any time.
\<close>

record fleet =
  flPod :: "string \<Rightarrow> tickTrace"
  flHeartbeat :: "Heartbeat option"
  flStarts :: "int list"

datatype fleetAct = StartTick string int bool | FinishTick string bool | Restart string | LoseHeartbeat

definition noTrace :: tickTrace where "noTrace = \<lparr>tkLastTickAt = None, tkContSince = None\<rparr>"

definition emptyFleet :: fleet where "emptyFleet = \<lparr>flPod = (\<lambda>_. noTrace), flHeartbeat = None, flStarts = []\<rparr>"

fun fleetStep :: "int \<Rightarrow> fleetAct \<Rightarrow> fleet \<Rightarrow> fleet" where
  "fleetStep interval (StartTick r now readOK) f =
     f\<lparr>flPod := (flPod f)(r := noteTickContinuity interval (if readOK then flHeartbeat f else None) now (flPod f r)),
       flStarts := now # flStarts f\<rparr>"
| "fleetStep interval (FinishTick r writeOK) f =
     (case tkLastTickAt (flPod f r) of
        Some started \<Rightarrow> if writeOK then f\<lparr>flHeartbeat := Some (heartbeatOf started (flPod f r))\<rparr> else f
      | None \<Rightarrow> f)"
| "fleetStep interval (Restart r) f = f\<lparr>flPod := (flPod f)(r := noTrace)\<rparr>"
| "fleetStep interval LoseHeartbeat f = f\<lparr>flHeartbeat := None\<rparr>"

definition fleetRun :: "int \<Rightarrow> fleetAct list \<Rightarrow> fleet \<Rightarrow> fleet" where
  "fleetRun interval acts f = fold (fleetStep interval) acts f"

text \<open>Evaluation was going on from \<open>c\<close> to the tick that started at \<open>l\<close>.\<close>

definition observed :: "int \<Rightarrow> int set \<Rightarrow> int \<Rightarrow> int \<Rightarrow> bool" where
  "observed interval S c l \<longleftrightarrow> l \<in> S \<and> (\<forall>x. c \<le> x \<and> x \<le> l \<longrightarrow> (\<exists>t\<in>S. t \<le> x \<and> x \<le> t + tickGapTolerance interval))"

definition traceOK :: "int \<Rightarrow> int set \<Rightarrow> tickTrace \<Rightarrow> bool" where
  "traceOK interval S tk \<longleftrightarrow>
     (case tkLastTickAt tk of
        None \<Rightarrow> tkContSince tk = None
      | Some l \<Rightarrow> (\<exists>c. tkContSince tk = Some c \<and> observed interval S c l))"

definition beatOK :: "int \<Rightarrow> int set \<Rightarrow> Heartbeat option \<Rightarrow> bool" where
  "beatOK interval S hb \<longleftrightarrow> (\<forall>h. hb = Some h \<longrightarrow> observed interval S (hbContinuousSince h) (hbStartedAt h))"

definition fleetOK :: "int \<Rightarrow> fleet \<Rightarrow> bool" where
  "fleetOK interval f \<longleftrightarrow>
     (\<forall>r. traceOK interval (set (flStarts f)) (flPod f r)) \<and> beatOK interval (set (flStarts f)) (flHeartbeat f)"

lemma observed_mono: "observed interval S c l \<Longrightarrow> S \<subseteq> S' \<Longrightarrow> observed interval S' c l"
  unfolding observed_def by blast

lemma observed_self: "0 \<le> interval \<Longrightarrow> t \<in> S \<Longrightarrow> observed interval S t t"
  unfolding observed_def tickGapTolerance_def by auto

lemma observed_extend:
  assumes "observed interval S c l" "now - l \<le> tickGapTolerance interval"
  shows "observed interval (insert now S) c now"
  unfolding observed_def
proof (intro conjI allI impI)
  fix x assume x: "c \<le> x \<and> x \<le> now"
  show "\<exists>t\<in>insert now S. t \<le> x \<and> x \<le> t + tickGapTolerance interval"
  proof (cases "x \<le> l")
    case True
    then show ?thesis using assms(1) x unfolding observed_def by blast
  next
    case False
    have "l \<in> S" using assms(1) by (simp add: observed_def)
    then show ?thesis using False x assms(2) by (intro bexI[of _ l]) auto
  qed
qed simp

lemma noteTick_last [simp]: "tkLastTickAt (noteTickContinuity interval hb now tk) = Some now"
  by (simp add: noteTickContinuity_def Let_def)

lemma noteTick_reset:
  "(\<And>p. prev = Some p \<Longrightarrow> tickGapTolerance interval < now - p) \<Longrightarrow>
   prev = (case tkLastTickAt tk of Some t \<Rightarrow> Some t
           | None \<Rightarrow> (case hb of Some h \<Rightarrow> if 0 < hbStartedAt h then Some (hbStartedAt h) else None | None \<Rightarrow> None)) \<Longrightarrow>
   tkContSince (noteTickContinuity interval hb now tk) = Some now"
  unfolding noteTickContinuity_def Let_def by (auto split: option.splits if_splits)

lemma noteTick_traceOK:
  assumes "0 \<le> interval" "traceOK interval S tk" "beatOK interval S hb"
  shows "traceOK interval (insert now S) (noteTickContinuity interval hb now tk)"
proof (cases "tkLastTickAt tk")
  case (Some l)
  then obtain c where c: "tkContSince tk = Some c" "observed interval S c l"
    using assms(2) by (auto simp: traceOK_def)
  then show ?thesis
    using Some observed_extend[OF c(2)] observed_self[OF assms(1), of now "insert now S"]
    by (auto simp: traceOK_def noteTickContinuity_def Let_def)
next
  case None
  then have tc: "tkContSince tk = None" using assms(2) by (simp add: traceOK_def)
  show ?thesis
  proof (cases "\<exists>h. hb = Some h \<and> 0 < hbStartedAt h \<and> \<not> tickGapTolerance interval < now - hbStartedAt h")
    case True
    then obtain h where h: "hb = Some h" "0 < hbStartedAt h" "\<not> tickGapTolerance interval < now - hbStartedAt h" by blast
    have ob: "observed interval S (hbContinuousSince h) (hbStartedAt h)" using assms(3) h(1) by (simp add: beatOK_def)
    have self: "observed interval S (hbStartedAt h) (hbStartedAt h)"
      using ob by (intro observed_self[OF assms(1)]) (simp add: observed_def)
    show ?thesis
      using None tc h observed_extend[OF ob] observed_extend[OF self]
      by (auto simp: traceOK_def noteTickContinuity_def Let_def)
  next
    case False
    then have "tkContSince (noteTickContinuity interval hb now tk) = Some now"
      using None by (intro noteTick_reset) (auto split: option.splits if_splits)
    then show ?thesis using observed_self[OF assms(1), of now "insert now S"] by (simp add: traceOK_def)
  qed
qed

lemma traceOK_mono: "traceOK interval S tk \<Longrightarrow> S \<subseteq> S' \<Longrightarrow> traceOK interval S' tk"
  unfolding traceOK_def using observed_mono by (fastforce split: option.splits)

lemma beatOK_mono: "beatOK interval S hb \<Longrightarrow> S \<subseteq> S' \<Longrightarrow> beatOK interval S' hb"
  unfolding beatOK_def using observed_mono by blast

lemma fleetStep_OK:
  assumes "0 \<le> interval" "fleetOK interval f"
  shows "fleetOK interval (fleetStep interval a f)"
proof (cases a)
  case (StartTick r now rd)
  let ?S = "set (flStarts f)"
  have "beatOK interval ?S (if rd then flHeartbeat f else None)"
    using assms(2) by (simp add: fleetOK_def beatOK_def)
  then have "traceOK interval (insert now ?S) (noteTickContinuity interval (if rd then flHeartbeat f else None) now (flPod f r))"
    using noteTick_traceOK[OF assms(1)] assms(2) by (simp add: fleetOK_def)
  moreover have "traceOK interval (insert now ?S) (flPod f q)" for q
    using assms(2) traceOK_mono[of interval ?S "flPod f q" "insert now ?S"] by (auto simp: fleetOK_def)
  moreover have "beatOK interval (insert now ?S) (flHeartbeat f)"
    using assms(2) beatOK_mono[of interval ?S _ "insert now ?S"] by (auto simp: fleetOK_def)
  ultimately show ?thesis using StartTick by (cases rd) (simp_all add: fleetOK_def)
next
  case (FinishTick r wr)
  have t: "traceOK interval (set (flStarts f)) (flPod f r)" using assms(2) by (simp add: fleetOK_def)
  show ?thesis
  proof (cases "tkLastTickAt (flPod f r)")
    case None
    then show ?thesis using FinishTick assms(2) by simp
  next
    case (Some l)
    then obtain c where "tkContSince (flPod f r) = Some c" "observed interval (set (flStarts f)) c l"
      using t by (auto simp: traceOK_def)
    then show ?thesis using Some FinishTick assms(2) by (simp add: fleetOK_def beatOK_def heartbeatOf_def)
  qed
next
  case (Restart r)
  then show ?thesis using assms(2) by (simp add: fleetOK_def traceOK_def noTrace_def)
next
  case LoseHeartbeat
  then show ?thesis using assms(2) by (simp add: fleetOK_def beatOK_def)
qed

lemma fleetRun_OK:
  assumes "0 \<le> interval" "fleetOK interval f"
  shows "fleetOK interval (fleetRun interval acts f)"
  using assms(2) unfolding fleetRun_def
  by (induction acts arbitrary: f) (auto simp: fleetStep_OK[OF assms(1)])

lemma emptyFleet_OK: "fleetOK interval emptyFleet"
  by (simp add: fleetOK_def emptyFleet_def noTrace_def traceOK_def beatOK_def)

text \<open>
  C5. A sweep that runs is based on silence that was watched: whatever the ticks, overlaps, restarts, lost heartbeats and
  failed reads and writes of a fleet of pods, when the gate of the sweep opens at an instant on some pod, then at every
  instant of the three intervals before it some pod was evaluating, that is, a tick had started at most two intervals
  earlier, or the instant falls into the tick that is running.
\<close>
theorem trusted_sweep_observed:
  assumes "0 \<le> interval" "f = fleetRun interval acts emptyFleet"
    and "sweepIsTrustworthy interval now (flPod f r)"
    and "now - 3 * interval \<le> x" "x \<le> now"
  shows "\<exists>t\<in>set (flStarts f). t \<le> x \<and> (x \<le> t + tickGapTolerance interval \<or> tkLastTickAt (flPod f r) = Some t)"
proof -
  have "traceOK interval (set (flStarts f)) (flPod f r)"
    using fleetRun_OK[OF assms(1) emptyFleet_OK] assms(2) by (simp add: fleetOK_def)
  moreover obtain c where c: "tkContSince (flPod f r) = Some c" "3 * interval \<le> now - c"
    using assms(3) by (auto simp: sweepIsTrustworthy_def split: option.splits)
  ultimately obtain l where l: "tkLastTickAt (flPod f r) = Some l" "observed interval (set (flStarts f)) c l"
    by (auto simp: traceOK_def split: option.splits)
  show ?thesis
  proof (cases "x \<le> l")
    case True
    moreover have "c \<le> x" using c(2) assms(4) by linarith
    ultimately show ?thesis using l(2) unfolding observed_def by blast
  next
    case False
    then show ?thesis using l by (intro bexI[of _ l]) (auto simp: observed_def)
  qed
qed

definition rolloutActs :: "fleetAct list" where
  "rolloutActs = [StartTick ''a'' 1000 True, FinishTick ''a'' True, StartTick ''a'' 1060 True, FinishTick ''a'' True,
                  Restart ''a'', StartTick ''b'' 1150 True, FinishTick ''b'' True, StartTick ''b'' 1210 True]"

theorem trusted_sweep_observed_witness:
  "sweepIsTrustworthy 60 1211 (flPod (fleetRun 60 rolloutActs emptyFleet) ''b'') \<and>
   (\<exists>t\<in>set (flStarts (fleetRun 60 rolloutActs emptyFleet)).
      t \<le> 1100 \<and> (1100 \<le> t + tickGapTolerance 60 \<or> tkLastTickAt (flPod (fleetRun 60 rolloutActs emptyFleet) ''b'') = Some t))"
proof -
  have "sweepIsTrustworthy 60 1211 (flPod (fleetRun 60 rolloutActs emptyFleet) ''b'')" by code_simp
  then show ?thesis using trusted_sweep_observed[of 60 _ rolloutActs 1211 "''b''" 1100] by simp
qed

section \<open>What the sweep closes\<close>

definition closedRow :: "int \<Rightarrow> StoredProblem \<Rightarrow> StoredProblem" where
  "closedRow now p = (sweptRow now p)\<lparr>spUpdatedAt := now\<rparr>"

lemma sweptRow_key [simp]: "prID (sweptRow now p) = prID p" "prRuleID (sweptRow now p) = prRuleID p" "prService (sweptRow now p) = prService p"
  by (simp_all add: sweptRow_def MarkResolved_def)

lemma closedRow_key [simp]: "prID (closedRow now p) = prID p" "keyOf (closedRow now p) = keyOf p"
  by (simp_all add: closedRow_def keyOf_def)

lemma closedRow_closed: "\<not> isOpenRow (closedRow now p)"
  by (simp add: closedRow_def sweptRow_def MarkResolved_def isOpenRow_def)

lemma clearResolved_simps [simp]:
  "esProblems (clearResolved io k st) = esProblems st"
  "esLastResolved (clearResolved io k st) = (esLastResolved st)(k := None)"
  "esBreachSince (clearResolved io k st) = esBreachSince st"
  by (simp_all add: clearResolved_def)

lemma UpsertProblem_row: "UpsertProblem now p tbl = upsertRow prID (p\<lparr>spUpdatedAt := now\<rparr>) tbl"
  by (simp add: UpsertProblem_def upsertRow_def)

interpretation pt: keyed_table prID "\<lambda>p. p\<lparr>spUpdatedAt := now\<rparr>" "UpsertProblem now" for now
  by unfold_locales (simp_all add: UpsertProblem_row)

definition stamped :: "int \<Rightarrow> (StoredProblem \<Rightarrow> StoredProblem option) \<Rightarrow> StoredProblem \<Rightarrow> StoredProblem option" where
  "stamped now f p = map_option (\<lambda>q. q\<lparr>spUpdatedAt := now\<rparr>) (f p)"

lemma stamped_eq: "stamped now f = (\<lambda>p. map_option (\<lambda>q. q\<lparr>spUpdatedAt := now\<rparr>) (f p))"
  by (simp add: fun_eq_iff stamped_def)

lemmas stamped_image = pt.loop_image [folded stamped_eq]
  and stamped_key = pt.loop_key [folded stamped_eq]
  and stamped_loop = pt.wr_loop [folded stamped_eq]

lemma sweepLoop_rewrite:
  "esProblems (sweepLoop io ok now ps st) = rewriteRows prID (stamped now (\<lambda>p. if ok (prID p) then Some (sweptRow now p) else None)) ps (esProblems st)"
  by (induction ps arbitrary: st) (simp_all add: UpsertProblem_row stamped_def)

lemma sweepLoop_problems:
  assumes "distinct (map prID (esProblems st))" "distinct (map prID ps)" "set ps \<subseteq> set (esProblems st)"
  shows "set (esProblems (sweepLoop io ok now ps st)) =
           (\<lambda>p. if p \<in> set ps \<and> ok (prID p) then closedRow now p else p) ` set (esProblems st)"
proof -
  let ?f = "\<lambda>p. if ok (prID p) then Some (sweptRow now p) else None"
  have "rewritten (stamped now ?f) (set ps) = (\<lambda>p. if p \<in> set ps \<and> ok (prID p) then closedRow now p else p)"
    by (auto simp: fun_eq_iff rewritten_def stamped_def closedRow_def)
  moreover have "prID q = prID p" if "?f p = Some q" for p q using that by (auto split: if_splits)
  ultimately show ?thesis using stamped_image [OF assms, of ?f now] by (simp only: sweepLoop_rewrite)
qed

lemma sweepLoop_stamps:
  "esLastResolved (sweepLoop io ok now ps st) =
     (\<lambda>k. if \<exists>p\<in>set ps. ok (prID p) \<and> keyOf p = k then None else esLastResolved st k)"
  by (induction ps arbitrary: st) (auto simp: fun_eq_iff keyOf_def)

lemma sweepLoop_mirror:
  "esMirror (sweepLoop io ok now ps st) =
     (\<lambda>key. if ioCache io \<and> ioOK io key \<and> (\<exists>p\<in>set ps. ok (prID p) \<and> key = stampKey stampKindResolved (keyOf p)) then None else esMirror st key)"
  by (induction ps arbitrary: st) (auto simp: fun_eq_iff keyOf_def clearResolved_def stampDel_def)

lemma sort_key_ids: "distinct (map f (sort_key g xs)) \<longleftrightarrow> distinct (map f xs)"
proof -
  have "mset (map f (sort_key g xs)) = mset (map f xs)" by simp
  then show ?thesis using mset_eq_imp_distinct_iff by blast
qed

lemma ListStale_props:
  "distinct (map prID tbl) \<Longrightarrow> distinct (map prID (ListStaleOpenProblems cutoff tbl))"
  "p \<in> set (ListStaleOpenProblems cutoff tbl) \<Longrightarrow> p \<in> set tbl \<and> isOpenRow p \<and> spUpdatedAt p < cutoff"
  "length (filter (\<lambda>p. isOpenRow p \<and> spUpdatedAt p < cutoff) tbl) \<le> 500 \<Longrightarrow>
   set (ListStaleOpenProblems cutoff tbl) = {p \<in> set tbl. isOpenRow p \<and> spUpdatedAt p < cutoff}"
proof -
  show "distinct (map prID tbl) \<Longrightarrow> distinct (map prID (ListStaleOpenProblems cutoff tbl))"
    unfolding ListStaleOpenProblems_def take_map [symmetric] by (simp add: sort_key_ids distinct_map_filter)
  show "p \<in> set (ListStaleOpenProblems cutoff tbl) \<Longrightarrow> p \<in> set tbl \<and> isOpenRow p \<and> spUpdatedAt p < cutoff"
    by (auto simp: ListStaleOpenProblems_def dest: in_set_takeD)
  show "length (filter (\<lambda>p. isOpenRow p \<and> spUpdatedAt p < cutoff) tbl) \<le> 500 \<Longrightarrow>
   set (ListStaleOpenProblems cutoff tbl) = {p \<in> set tbl. isOpenRow p \<and> spUpdatedAt p < cutoff}"
    by (auto simp: ListStaleOpenProblems_def)
qed

text \<open>
  C21. The sweep rewrites exactly the silent rows: when its gate is open and the list can be read, a row is closed, with its
  end, its mark and a new version, if and only if it is open or acknowledged, was not written for three intervals, is not
  kept for a poller whose source lives, and its write succeeds; all other rows stay. The cooldowns of the closed rows are lifted, in
  memory and in the mirror where its calls succeed, and no other stamp changes. When the gate is shut or the list fails nothing
  changes. (The list holds 500 rows; more wait for the next tick. The rows that are kept for a poller include the
  series problems of external sources, see \<open>series_rule_exempt\<close>.)
\<close>
theorem sweep_closes_silent:
  assumes "distinct (map prID (esProblems st))"
    and "length (filter (\<lambda>p. isOpenRow p \<and> spUpdatedAt p < now - 3 * interval) (esProblems st)) \<le> 500"
    and "run = (sweepIsTrustworthy interval now tk \<and> listOK)"
    and "silent = (\<lambda>p. run \<and> isOpenRow p \<and> spUpdatedAt p < now - 3 * interval \<and> \<not> pollerKeeps live p \<and> ok (prID p))"
    and "st' = sweepStaleProblems interval listOK live io ok now tk st"
  shows "set (esProblems st') = (\<lambda>p. if silent p then closedRow now p else p) ` set (esProblems st) \<and>
    esLastResolved st' = (\<lambda>k. if \<exists>p\<in>set (esProblems st). silent p \<and> keyOf p = k then None else esLastResolved st k) \<and>
    esMirror st' = (\<lambda>key. if ioCache io \<and> ioOK io key \<and> (\<exists>p\<in>set (esProblems st). silent p \<and> key = stampKey stampKindResolved (keyOf p))
       then None else esMirror st key)"
proof -
  let ?ps = "fst (staleSweepCandidates live (ListStaleOpenProblems (now - 3 * interval) (esProblems st)))"
  have ps: "set ?ps = {p \<in> set (esProblems st). isOpenRow p \<and> spUpdatedAt p < now - 3 * interval \<and> \<not> pollerKeeps live p}"
    using ListStale_props(3) [OF assms(2)] by (auto simp: staleSweepCandidates_def)
  have "distinct (map prID ?ps)" using ListStale_props(1) [OF assms(1)] by (simp add: staleSweepCandidates_def distinct_map_filter)
  note loop = sweepLoop_problems [OF assms(1) this] sweepLoop_stamps [of io ok now ?ps st]
  have st': "st' = (if run then sweepLoop io ok now ?ps st else st)" by (simp add: assms(3,5) sweepStaleProblems_def)
  have "set (esProblems st') = (\<lambda>p. if silent p then closedRow now p else p) ` set (esProblems st)"
  proof (cases run)
    case True
    have "set (esProblems st') = (\<lambda>p. if p \<in> set ?ps \<and> ok (prID p) then closedRow now p else p) ` set (esProblems st)"
      using loop(1) ps True st' by auto
    also have "\<dots> = (\<lambda>p. if silent p then closedRow now p else p) ` set (esProblems st)"
      unfolding ps using True by (intro image_cong) (auto simp: assms(4))
    finally show ?thesis .
  qed (simp add: st' assms(4))
  moreover have "esLastResolved st' = (\<lambda>k. if \<exists>p\<in>set (esProblems st). silent p \<and> keyOf p = k then None else esLastResolved st k)"
    using ps by (cases run) (auto simp: st' loop(2) assms(4) fun_eq_iff)
  moreover have "esMirror st' = (\<lambda>key. if ioCache io \<and> ioOK io key \<and> (\<exists>p\<in>set (esProblems st). silent p \<and> key = stampKey stampKindResolved (keyOf p))
       then None else esMirror st key)"
    using ps by (cases run) (auto simp: st' sweepLoop_mirror assms(4) fun_eq_iff)
  ultimately show ?thesis by blast
qed

lemma openState_wf: "distinct (map prID (esProblems openState))"
  by (simp add: openState_def idleState_def)

definition quietTrace :: tickTrace where "quietTrace = \<lparr>tkLastTickAt = Some 400000000000, tkContSince = Some 5\<rparr>"

theorem sweep_closes_silent_witness:
  "\<exists>p. p \<in> set (esProblems openState) \<and> isOpenRow p \<and>
     closedRow 400000000000 p \<in> set (esProblems (sweepStaleProblems 60000000000 True None \<lparr>ioCache = True, ioOK = (\<lambda>_. True)\<rparr> (\<lambda>_. True) 400000000000 quietTrace openState))"
proof -
  let ?p = "newProblem (envAt 5 ''p1'') rateRule ''web'' ''error_rate'' (Some 7)"
  have p: "esProblems openState = [?p]" by (simp add: openState_def)
  have len: "length (filter (\<lambda>p. isOpenRow p \<and> spUpdatedAt p < 400000000000 - 3 * 60000000000) (esProblems openState)) \<le> 500"
    unfolding p by (simp del: One_nat_def)
  have "isOpenRow ?p \<and> spUpdatedAt ?p < 400000000000 - 3 * 60000000000 \<and> \<not> pollerKeeps None ?p"
    by (simp add: newProblem_def isOpenRow_def pollerKeeps_def PollerOwnedSubject_def CutPrefix_def HasPrefix_def rateRule_def)
  moreover have "sweepIsTrustworthy 60000000000 400000000000 quietTrace" by (simp add: sweepIsTrustworthy_def quietTrace_def)
  moreover note sweep_closes_silent [where tk = quietTrace and listOK = True and live = None and ok = "\<lambda>_. True" and io = "\<lparr>ioCache = True, ioOK = (\<lambda>_. True)\<rparr>",
      OF openState_wf len refl refl refl, THEN conjunct1]
  ultimately show ?thesis unfolding p by (intro exI [of _ ?p]) auto
qed

text \<open>
  A tick may run for five intervals, and the cutoff of the sweep is taken when the sweep starts: a problem that the same
  tick has refreshed more than three intervals before is closed as silent, here on a pod whose first tick began at the
  instant 1 s, with a refresh at 5 s and the sweep at 190 s. The text of the sweep says that a row that is written on every tick stays open.
\<close>

definition slowTick :: "int \<Rightarrow> EvalState" where
  "slowTick now =
     sweepStaleProblems 60000000000 True None \<lparr>ioCache = True, ioOK = (\<lambda>_. True)\<rparr> (\<lambda>_. True) now
       (noteTickContinuity 60000000000 None 1000000000 noTrace)
       (fst (evaluateOne (envAt 5000000000 ''p2'') (rateRule\<lparr>arForSec := 0\<rparr>) ''web'' (measured 9) None openState))"

lemma slow_tick_closes_refreshed:
  "190000000000 - 1000000000 < tickDeadline 60000000000 \<and>
   map prStatus (esProblems (slowTick 190000000000)) = [''resolved''] \<and> map prStatus (esProblems (slowTick 6000000000)) = [''open'']"
  by (simp add: slowTick_def tickDeadline_def sweepStaleProblems_def sweepIsTrustworthy_def noteTickContinuity_def noTrace_def Let_def
      openState_def idleState_def envAt_def rateRule_def measured_def evalStep_defs FindOpenProblem_def isOpenRow_def newProblem_def UpsertProblem_def
      ListStaleOpenProblems_def staleSweepCandidates_def pollerKeeps_def PollerOwnedSubject_def CutPrefix_def HasPrefix_def sweptRow_def MarkResolved_def clearResolved_def)

text \<open>
  With a sustain time longer than three intervals the missed refresh after a failover (\<open>open_problem_not_refreshed\<close>) is
  enough for the sweep: the new leader breaches on every tick of a minute, and the open problem is closed as silent.
\<close>

definition failoverTicks :: "int list \<Rightarrow> EvalState \<Rightarrow> EvalState" where
  "failoverTicks ts st =
     fold (\<lambda>t st. fst (evaluateOne (envAt (t * 10 ^ 9) ''p2'') (rateRule\<lparr>arForSec := 600\<rparr>) ''web'' (measured 9) None st)) ts st"

lemma failover_closes_live_problem:
  "map prStatus (esProblems (failoverTicks [60, 120, 180, 240] openState)) = [''open''] \<and>
   map prStatus (esProblems
     (sweepStaleProblems 60000000000 True None \<lparr>ioCache = True, ioOK = (\<lambda>_. True)\<rparr> (\<lambda>_. True) 240000000000
        (foldl (\<lambda>tk t. noteTickContinuity 60000000000 (Some \<lparr>hbStartedAt = 20, hbContinuousSince = 10\<rparr>) (t * 10 ^ 9) tk) noTrace [60, 120, 180, 240])
        (failoverTicks [60, 120, 180, 240] openState))) = [''resolved'']"
  by (simp add: failoverTicks_def sweepStaleProblems_def sweepIsTrustworthy_def noteTickContinuity_def tickGapTolerance_def noTrace_def Let_def
      openState_def idleState_def envAt_def rateRule_def measured_def evalStep_defs secondsOf_def newProblem_def UpsertProblem_def isOpenRow_def
      ListStaleOpenProblems_def staleSweepCandidates_def pollerKeeps_def PollerOwnedSubject_def CutPrefix_def HasPrefix_def sweptRow_def MarkResolved_def clearResolved_def)

text \<open>
  A comment says that the problems of single series are swept while the problems of a whole source are left to its
  poller; the rule names of series are exempt too.
\<close>

lemma series_rule_exempt: "PollerOwnedSubject ''anomaly:ext:pg/sessions'' = Some ''ext:pg''"
  by code_simp

section \<open>Escalation over the ticks\<close>

definition sevLevel :: "(string \<Rightarrow> string) \<Rightarrow> string \<Rightarrow> nat" where
  "sevLevel lower s = (if lower s = ''info'' then 0 else if lower s = ''warning'' then 1 else 2)"

definition lowerOK :: "(string \<Rightarrow> string) \<Rightarrow> bool" where
  "lowerOK lower \<longleftrightarrow> lower ''warning'' = ''warning'' \<and> lower ''critical'' = ''critical''"

lemma nextSeverity_raises:
  assumes "lowerOK lower" "nextSeverity lower cur age cfg \<noteq> []"
  shows "nextSeverity lower cur age cfg \<in> {''warning'', ''critical''} \<and> sevLevel lower cur < sevLevel lower (nextSeverity lower cur age cfg)"
  using assms by (auto simp: nextSeverity_def sevLevel_def lowerOK_def Let_def split: if_splits)

lemma Normalize_order: "ecInfoToWarningSec (NormalizeProblemEscalation c) \<le> ecWarningToCriticalSec (NormalizeProblemEscalation c)"
  by (simp add: NormalizeProblemEscalation_def Let_def)

text \<open>Steps of ticks: evaluations, with or without the current snapshot, escalation sweeps and sweeps of silent problems.\<close>

datatype tickAct =
    Evaluates evalPair bool
  | Escalates ProblemEscalationConfig bool "string \<Rightarrow> bool" int
  | Sweeps int bool "(string \<Rightarrow> bool) option" stampIO "string \<Rightarrow> bool" int tickTrace

fun tickStep :: "(string \<Rightarrow> string) \<Rightarrow> tickAct \<Rightarrow> EvalState \<Rightarrow> EvalState \<times> StoredProblem list" where
  "tickStep lower (Evaluates (env, r, s, m) useSnap) st =
     (fst (evaluateOne env r s m (if useSnap then Some (openProblemsSnapshot (esProblems st)) else None) st), [])"
| "tickStep lower (Escalates cfg snapOK ok now) st =
     (let (tbl, alerts) = escalateStaleProblems lower cfg snapOK ok now (esProblems st) in (st\<lparr>esProblems := tbl\<rparr>, alerts))"
| "tickStep lower (Sweeps interval listOK live io ok now tk) st = (sweepStaleProblems interval listOK live io ok now tk st, [])"

fun tickRun :: "(string \<Rightarrow> string) \<Rightarrow> tickAct list \<Rightarrow> EvalState \<Rightarrow> EvalState \<times> StoredProblem list" where
  "tickRun lower [] st = (st, [])"
| "tickRun lower (a # as) st =
     (let (st', alerts) = tickStep lower a st; (st'', rest) = tickRun lower as st' in (st'', alerts @ rest))"

text \<open>An identifier that is made for a new problem is not in the table.\<close>

fun freshAct :: "tickAct \<Rightarrow> EvalState \<Rightarrow> bool" where
  "freshAct (Evaluates (env, r, s, m) useSnap) st \<longleftrightarrow> eeNewID env \<notin> prID ` set (esProblems st)"
| "freshAct (Escalates cfg snapOK ok now) st \<longleftrightarrow> True"
| "freshAct (Sweeps interval listOK live io ok now tk) st \<longleftrightarrow> True"

fun freshActs :: "(string \<Rightarrow> string) \<Rightarrow> tickAct list \<Rightarrow> EvalState \<Rightarrow> bool" where
  "freshActs lower [] st \<longleftrightarrow> True"
| "freshActs lower (a # as) st \<longleftrightarrow> freshAct a st \<and> freshActs lower as (fst (tickStep lower a st))"

lemma ByKey_member: "ByKey rows r s = Some p \<Longrightarrow> p \<in> set rows"
proof -
  have "fold reduceLatestProblem rows m k = Some p \<Longrightarrow> p \<in> set rows \<or> m k = Some p" for m k
    by (induction rows arbitrary: m)
       (fastforce simp: reduceLatestProblem_def Let_def split: option.splits if_splits)+
  then show "ByKey rows r s = Some p \<Longrightarrow> p \<in> set rows" by (fastforce simp: ByKey_def)
qed

lemma latestOf_member: "latestOf best rows = Some p \<Longrightarrow> p \<in> set rows \<or> best = Some p"
  by (induction rows arbitrary: best) (fastforce split: option.splits if_splits)+

lemma openFor_member:
  assumes "openFor env (if b then Some (openProblemsSnapshot tbl) else None) r s st = Some p" "esProblems st = tbl"
  shows "p \<in> set tbl"
proof (cases b)
  case True
  then have "p \<in> set (take 50000 (filter isOpenRow tbl))"
    using assms(1) ByKey_member by (simp add: openFor_def openProblemsSnapshot_def)
  then have "p \<in> set (filter isOpenRow tbl)" by (rule in_set_takeD)
  then show ?thesis by simp
next
  case False
  then show ?thesis using assms by (auto simp: openFor_def FindOpenProblem_def dest!: latestOf_member split: if_splits)
qed

lemma gate_problems [simp]:
  "esProblems (snd (sustainGate env r key b st)) = esProblems st"
  "esProblems (snd (inCooldown env r key st)) = esProblems st"
  "esProblems (clearBreach io key st) = esProblems st"
  "esProblems (stampResolved io key now cd st) = esProblems st"
  by (auto simp: sustainGate_def inCooldown_def breachStart_def resolvedAt_def clearBreach_def stampResolved_def Let_def split: option.splits if_splits)

text \<open>An evaluation writes at most one row: a new one, or one of the table with its severity.\<close>

definition writesRow :: "string \<Rightarrow> StoredProblem list \<Rightarrow> StoredProblem list \<Rightarrow> bool" where
  "writesRow newID tbl tbl' \<longleftrightarrow> tbl' = tbl \<or>
     (\<exists>now q. tbl' = UpsertProblem now q tbl \<and> (prID q = newID \<or> (\<exists>p\<in>set tbl. prID q = prID p \<and> prSeverity q = prSeverity p)))"

lemma writesRow_intros:
  "writesRow newID tbl tbl"
  "prID q = newID \<Longrightarrow> writesRow newID tbl (UpsertProblem now q tbl)"
  "p \<in> set tbl \<Longrightarrow> prID q = prID p \<Longrightarrow> prSeverity q = prSeverity p \<Longrightarrow> writesRow newID tbl (UpsertProblem now q tbl)"
  by (auto simp: writesRow_def)

lemma settle_writesRow:
  assumes "\<And>p. cur = Some p \<Longrightarrow> p \<in> set (esProblems st)"
  shows "writesRow (eeNewID env) (esProblems st) (esProblems (fst (settle env r s metric v b cur st)))"
proof (cases "cur = None \<or> prID (the cur) = []")
  case True
  have "writesRow (eeNewID env) (esProblems st) (esProblems (fst (openProblem env (newProblem env r s metric v) (snd (inCooldown env r (arID r, s) st)))))"
    by (simp add: openProblem_def newProblem_def writesRow_intros)
  then show ?thesis
    using True by (auto simp: settle_def Let_def split_beta writesRow_intros split: option.splits)
next
  case False
  then obtain p where p: "cur = Some p" "prID p \<noteq> []" by auto
  then have "p \<in> set (esProblems st)" using assms by simp
  then have "writesRow (eeNewID env) (esProblems st) (esProblems (refreshProblem env p v st))"
    "writesRow (eeNewID env) (esProblems st) (esProblems (fst (resolveProblem env r (arID r, s) p st)))"
    by (auto simp: refreshProblem_def resolveProblem_def MarkResolved_def Let_def intro: writesRow_intros)
  then show ?thesis using p by (auto simp: settle_def Let_def split_beta)
qed

lemma evaluateOne_writesRow:
  "writesRow (eeNewID env) (esProblems st)
     (esProblems (fst (evaluateOne env r s m (if b then Some (openProblemsSnapshot (esProblems st)) else None) st)))"
proof -
  let ?snap = "if b then Some (openProblemsSnapshot (esProblems st)) else None" and ?br = "compare (rmValue m) (arComparator r) (arThreshold r)"
  let ?st = "snd (sustainGate env r (arID r, s) ?br st)"
  have "writesRow (eeNewID env) (esProblems ?st)
      (esProblems (fst (settle env r s (arMetric r) (rmValue m) ?br (openFor env ?snap (arID r) s ?st) ?st)))"
    using openFor_member [of env b "esProblems st" "arID r" s ?st] by (intro settle_writesRow) simp
  then show ?thesis by (simp add: evaluateOne_def Let_def split_beta writesRow_intros)
qed

definition raisedRow :: "(string \<Rightarrow> string) \<Rightarrow> ProblemEscalationConfig \<Rightarrow> (string \<Rightarrow> bool) \<Rightarrow> int \<Rightarrow> StoredProblem \<Rightarrow> StoredProblem option" where
  "raisedRow lower cfg ok now p = (if ok (prID p) then map_option (\<lambda>s. p\<lparr>prSeverity := s\<rparr>) (escalates lower cfg now p) else None)"

lemma raisedRow_id: "raisedRow lower cfg ok now p = Some q \<Longrightarrow> prID q = prID p"
  by (auto simp: raisedRow_def split: if_splits)

lemma raisedRow_level:
  assumes "lowerOK lower" "raisedRow lower cfg ok now p = Some q"
  shows "prSeverity q \<in> {''warning'', ''critical''} \<and> sevLevel lower (prSeverity p) < sevLevel lower (prSeverity q)"
  using assms(2) nextSeverity_raises [OF assms(1), of "prSeverity p" "now - prStartedAt p" cfg]
  by (auto simp: raisedRow_def escalates_def Let_def split: if_splits)

lemma escalateLoop_rewrite:
  "escalateLoop lower cfg ok now ps tbl =
     (rewriteRows prID (stamped now (raisedRow lower cfg ok now)) ps tbl, List.map_filter (raisedRow lower cfg ok now) ps)"
  by (induction ps arbitrary: tbl) (auto simp: raisedRow_def List.map_filter_def Let_def UpsertProblem_row stamped_def split: option.splits)

lemma map_filter_id:
  assumes "distinct (map prID ps)" "\<And>p q. f p = Some q \<Longrightarrow> prID q = prID p"
  shows "filter (\<lambda>q. prID q = i) (List.map_filter f ps) =
           (case List.find (\<lambda>p. prID p = i) ps of None \<Rightarrow> [] | Some p \<Rightarrow> (case f p of None \<Rightarrow> [] | Some q \<Rightarrow> [q]))"
  using assms(1)
proof (induction ps)
  case (Cons p ps)
  have none: "List.find (\<lambda>p. prID p = prID p') ps = None" if "prID p' = prID p" for p'
    using Cons.prems that by (auto simp: find_None_iff image_iff)
  show ?case
    using Cons none [of p] assms(2) [of p] by (cases "f p") (auto simp: List.map_filter_def)
qed (simp add: List.map_filter_def)

lemma find_member:
  assumes "distinct (map prID tbl)" "set ps \<subseteq> set tbl" "p \<in> set tbl" "prID p = i"
  shows "List.find (\<lambda>p. prID p = i) ps = (if p \<in> set ps then Some p else None)"
proof (cases "List.find (\<lambda>p. prID p = i) ps")
  case None
  then show ?thesis using assms(4) by (auto simp: find_None_iff)
next
  case (Some q)
  then have q: "q \<in> set ps" "prID q = i" by (auto simp: find_Some_iff)
  then have "q = p" using assms by (auto simp: distinct_map inj_on_def)
  then show ?thesis using q Some by simp
qed

lemma filterProblems_props:
  assumes "distinct (map prID tbl)"
  shows "set (filterProblems (openProblemsSnapshot tbl) st sev n) \<subseteq> set tbl"
    and "distinct (map prID (filterProblems (openProblemsSnapshot tbl) st sev n))"
proof -
  have "distinct (map prID (openProblemsSnapshot tbl))"
    using assms unfolding openProblemsSnapshot_def take_map [symmetric] by (simp add: distinct_map_filter)
  then show "distinct (map prID (filterProblems (openProblemsSnapshot tbl) st sev n))"
    unfolding filterProblems_def Let_def by (simp add: sort_key_ids distinct_map_filter take_map [symmetric])
  show "set (filterProblems (openProblemsSnapshot tbl) st sev n) \<subseteq> set tbl"
    by (auto simp: filterProblems_def Let_def openProblemsSnapshot_def dest!: in_set_takeD split: if_splits)
qed

text \<open>One escalation sweep, for one row: no alert and the same severity, or one alert with the higher severity that the row now has.\<close>

definition raises :: "(string \<Rightarrow> string) \<Rightarrow> string list \<Rightarrow> string \<Rightarrow> string \<Rightarrow> bool" where
  "raises lower xs old new \<longleftrightarrow>
     (xs = [] \<and> new = old) \<or> (xs = [new] \<and> new \<in> {''warning'', ''critical''} \<and> sevLevel lower old < sevLevel lower new)"

definition sevAlerts :: "string \<Rightarrow> StoredProblem list \<Rightarrow> string list" where
  "sevAlerts i alerts = map prSeverity (filter (\<lambda>q. prID q = i) alerts)"

lemma escalate_row:
  assumes "lowerOK lower" "distinct (map prID tbl)" "p \<in> set tbl"
  shows "\<exists>q \<in> set (fst (escalateStaleProblems lower cfg snapOK ok now tbl)). prID q = prID p \<and>
     raises lower (sevAlerts (prID p) (snd (escalateStaleProblems lower cfg snapOK ok now tbl))) (prSeverity p) (prSeverity q)"
proof (cases "ecEnabled cfg \<and> snapOK")
  case True
  let ?ps = "filterProblems (openProblemsSnapshot tbl) ''open'' [] 500" and ?f = "raisedRow lower cfg ok now"
  note ps = filterProblems_props [OF assms(2), of "''open''" "[]" 500]
  have run: "escalateStaleProblems lower cfg snapOK ok now tbl = (rewriteRows prID (stamped now ?f) ?ps tbl, List.map_filter ?f ?ps)"
    using True by (simp add: escalateStaleProblems_def escalateLoop_rewrite)
  let ?q = "rewritten (stamped now ?f) (set ?ps) p"
  have "?q \<in> set (rewriteRows prID (stamped now ?f) ?ps tbl)"
    using stamped_image [OF assms(2) ps(2,1), of ?f now] raisedRow_id assms(3) by blast
  moreover have "prID ?q = prID p" by (rule stamped_key) (rule raisedRow_id)
  moreover have "raises lower (sevAlerts (prID p) (List.map_filter ?f ?ps)) (prSeverity p) (prSeverity ?q)"
    using map_filter_id [OF ps(2), of ?f "prID p"] raisedRow_id find_member [OF assms(2) ps(1) assms(3) refl] raisedRow_level [OF assms(1)]
    by (auto simp: sevAlerts_def raises_def rewritten_def stamped_def split: option.splits)
  ultimately show ?thesis unfolding run by auto
qed (use assms(3) in \<open>auto simp: escalateStaleProblems_def sevAlerts_def raises_def\<close>)

lemma escalate_ids:
  assumes "distinct (map prID tbl)"
  shows "distinct (map prID (fst (escalateStaleProblems lower cfg snapOK ok now tbl)))"
    and "prID ` set (fst (escalateStaleProblems lower cfg snapOK ok now tbl)) = prID ` set tbl"
    and "i \<notin> prID ` set tbl \<Longrightarrow> sevAlerts i (snd (escalateStaleProblems lower cfg snapOK ok now tbl)) = []"
proof -
  let ?ps = "filterProblems (openProblemsSnapshot tbl) ''open'' [] 500" and ?f = "raisedRow lower cfg ok now"
  note ps = filterProblems_props [OF assms, of "''open''" "[]" 500]
  have run: "escalateStaleProblems lower cfg snapOK ok now tbl =
      (if ecEnabled cfg \<and> snapOK then (rewriteRows prID (stamped now ?f) ?ps tbl, List.map_filter ?f ?ps) else (tbl, []))"
    by (simp add: escalateStaleProblems_def escalateLoop_rewrite)
  show "distinct (map prID (fst (escalateStaleProblems lower cfg snapOK ok now tbl)))"
    unfolding run using assms by (simp add: rewriteRows_keys)
  have "prID (rewritten (stamped now ?f) P p) = prID p" for P p by (rule stamped_key) (rule raisedRow_id)
  then show "prID ` set (fst (escalateStaleProblems lower cfg snapOK ok now tbl)) = prID ` set tbl"
    unfolding run using stamped_image [OF assms ps(2,1), of ?f now] raisedRow_id by (simp add: image_image)
  show "sevAlerts i (snd (escalateStaleProblems lower cfg snapOK ok now tbl)) = []" if "i \<notin> prID ` set tbl"
  proof -
    have "List.find (\<lambda>p. prID p = i) ?ps = None" using that ps(1) by (auto simp: find_None_iff)
    then show ?thesis unfolding run using map_filter_id [OF ps(2), of ?f i] raisedRow_id by (simp add: sevAlerts_def)
  qed
qed

fun allowedAlerts :: "nat \<Rightarrow> string list set" where
  "allowedAlerts 0 = {[], [''warning''], [''critical''], [''warning'', ''critical'']}"
| "allowedAlerts (Suc 0) = {[], [''critical'']}"
| "allowedAlerts (Suc (Suc n)) = {[]}"

lemma allowed_mono: "m \<le> n \<Longrightarrow> allowedAlerts n \<subseteq> allowedAlerts m"
  by (cases m rule: allowedAlerts.cases; cases n rule: allowedAlerts.cases) auto

lemma allowed_raise:
  assumes "lowerOK lower" "raises lower xs old new" "ys \<in> allowedAlerts (sevLevel lower new)"
  shows "xs @ ys \<in> allowedAlerts (sevLevel lower old)"
  using assms by (auto simp: raises_def sevLevel_def lowerOK_def numeral_2_eq_2 split: if_splits)

text \<open>A step keeps identifiers unique, and the row of an identifier that exists keeps its place with the raised severity.\<close>

lemma tickStep_ids:
  assumes "distinct (map prID (esProblems st))"
  shows "distinct (map prID (esProblems (fst (tickStep lower a st))))"
proof (cases "(lower, a, st)" rule: tickStep.cases)
  case (1 l env r s m b st')
  then show ?thesis
    using evaluateOne_writesRow [of env st' r s m b] assms pt.wr_keys by (auto simp: writesRow_def)
next
  case (2 l cfg snapOK ok now st')
  then show ?thesis using escalate_ids(1) [OF assms] by (auto simp: split_beta Let_def)
next
  case (3 l interval listOK live io ok now tk st')
  then show ?thesis using assms by (auto simp: sweepStaleProblems_def sweepLoop_rewrite rewriteRows_keys)
qed

lemma sweep_row:
  assumes "distinct (map prID (esProblems st))" "p \<in> set (esProblems st)"
  shows "\<exists>q \<in> set (esProblems (sweepStaleProblems interval listOK live io ok now tk st)). prID q = prID p \<and> prSeverity q = prSeverity p"
proof (cases "sweepIsTrustworthy interval now tk \<and> listOK")
  case True
  let ?ps = "fst (staleSweepCandidates live (ListStaleOpenProblems (now - 3 * interval) (esProblems st)))"
  have "distinct (map prID ?ps)" "set ?ps \<subseteq> set (esProblems st)"
    using ListStale_props(1) [OF assms(1)] ListStale_props(2) by (auto simp: staleSweepCandidates_def distinct_map_filter)
  then have "set (esProblems (sweepStaleProblems interval listOK live io ok now tk st)) =
      (\<lambda>p. if p \<in> set ?ps \<and> ok (prID p) then closedRow now p else p) ` set (esProblems st)"
    using sweepLoop_problems [OF assms(1), of ?ps io ok now] True by (simp add: sweepStaleProblems_def)
  then have "(if p \<in> set ?ps \<and> ok (prID p) then closedRow now p else p) \<in> set (esProblems (sweepStaleProblems interval listOK live io ok now tk st))"
    using assms(2) by blast
  moreover have "prSeverity (closedRow now p) = prSeverity p" by (simp add: closedRow_def sweptRow_def MarkResolved_def)
  ultimately show ?thesis by (metis closedRow_key(1))
next
  case False
  then show ?thesis using assms(2) by (auto simp: sweepStaleProblems_def)
qed

lemma tickStep_row:
  assumes "lowerOK lower" "distinct (map prID (esProblems st))" "p \<in> set (esProblems st)" "freshAct a st"
  shows "\<exists>q \<in> set (esProblems (fst (tickStep lower a st))). prID q = prID p \<and>
     raises lower (sevAlerts (prID p) (snd (tickStep lower a st))) (prSeverity p) (prSeverity q)"
proof (cases "(lower, a, st)" rule: tickStep.cases)
  case (1 l env r s m b st')
  have w: "writesRow (eeNewID env) (esProblems st) (esProblems (fst (tickStep lower a st)))"
    using evaluateOne_writesRow [of env st r s m b] 1 by (cases b) simp_all
  have "\<exists>q \<in> set (esProblems (fst (tickStep lower a st))). prID q = prID p \<and> prSeverity q = prSeverity p"
    using w unfolding writesRow_def
  proof (elim disjE exE conjE bexE)
    fix now q p' assume up: "esProblems (fst (tickStep lower a st)) = UpsertProblem now q (esProblems st)"
      and q: "p' \<in> set (esProblems st)" "prID q = prID p'" "prSeverity q = prSeverity p'"
    then show ?thesis
      using pt.set_wr [OF assms(2) q(1,2), of now] assms(3) by (cases "p = p'") auto
  next
    fix now q assume "esProblems (fst (tickStep lower a st)) = UpsertProblem now q (esProblems st)" "prID q = eeNewID env"
    moreover have "prID p \<noteq> eeNewID env" using 1 assms(3,4) by (auto simp: image_iff)
    ultimately show ?thesis using assms(3) by (auto simp: UpsertProblem_def)
  qed (use assms(3) in auto)
  then show ?thesis using 1 by (auto simp: raises_def sevAlerts_def)
next
  case (2 l cfg snapOK ok now st')
  then show ?thesis using escalate_row [OF assms(1,2,3), of cfg snapOK ok now] by (auto simp: split_beta Let_def)
next
  case (3 l interval listOK live io ok now tk st')
  then show ?thesis using sweep_row [OF assms(2,3), of interval listOK live io ok now tk] by (auto simp: raises_def sevAlerts_def)
qed

lemma sevAlerts_append: "sevAlerts i (xs @ ys) = sevAlerts i xs @ sevAlerts i ys"
  by (simp add: sevAlerts_def)

lemma tickStep_absent:
  assumes "distinct (map prID (esProblems st))" "i \<notin> prID ` set (esProblems st)"
  shows "sevAlerts i (snd (tickStep lower a st)) = []"
proof (cases "(lower, a, st)" rule: tickStep.cases)
  case (2 l cfg snapOK ok now st')
  then show ?thesis using escalate_ids(3) [OF assms] by (auto simp: split_beta Let_def)
qed (auto simp: sevAlerts_def)

lemma tickRun_allowed:
  assumes "lowerOK lower" "distinct (map prID (esProblems st))" "freshActs lower as st"
  shows "sevAlerts i (snd (tickRun lower as st)) \<in> allowedAlerts 0 \<and>
    (\<forall>p \<in> set (esProblems st). prID p = i \<longrightarrow> sevAlerts i (snd (tickRun lower as st)) \<in> allowedAlerts (sevLevel lower (prSeverity p)))"
  using assms(2,3)
proof (induction as arbitrary: st)
  case Nil
  have "[] \<in> allowedAlerts n" for n by (cases n rule: allowedAlerts.cases) auto
  then show ?case by (simp add: sevAlerts_def)
next
  case (Cons a as)
  let ?st = "fst (tickStep lower a st)"
  have IH: "sevAlerts i (snd (tickRun lower as ?st)) \<in> allowedAlerts 0"
    "\<And>q. q \<in> set (esProblems ?st) \<Longrightarrow> prID q = i \<Longrightarrow> sevAlerts i (snd (tickRun lower as ?st)) \<in> allowedAlerts (sevLevel lower (prSeverity q))"
    using Cons.IH [OF tickStep_ids [OF Cons.prems(1)], of lower a] Cons.prems(2) by auto
  have out: "sevAlerts i (snd (tickRun lower (a # as) st)) =
      sevAlerts i (snd (tickStep lower a st)) @ sevAlerts i (snd (tickRun lower as ?st))"
    by (simp add: split_beta Let_def sevAlerts_append)
  have row: "sevAlerts i (snd (tickRun lower (a # as) st)) \<in> allowedAlerts (sevLevel lower (prSeverity p))"
    if p: "p \<in> set (esProblems st)" "prID p = i" for p
  proof -
    obtain q where "q \<in> set (esProblems ?st)" "prID q = i"
      "raises lower (sevAlerts i (snd (tickStep lower a st))) (prSeverity p) (prSeverity q)"
      using tickStep_row [OF assms(1) Cons.prems(1) p(1)] Cons.prems(2) p(2) by auto
    then show ?thesis unfolding out using allowed_raise [OF assms(1)] IH(2) by blast
  qed
  show ?case
  proof (cases "i \<in> prID ` set (esProblems st)")
    case True
    then obtain p where "p \<in> set (esProblems st)" "prID p = i" by auto
    then have "sevAlerts i (snd (tickRun lower (a # as) st)) \<in> allowedAlerts 0"
      using row allowed_mono [of 0] by blast
    then show ?thesis using row by blast
  next
    case False
    then show ?thesis using row IH(1) tickStep_absent [OF Cons.prems(1) False] unfolding out by auto
  qed
qed

text \<open>
  C7. Escalation by age pages a problem at most twice, and upwards: over any sequence of evaluations, escalation sweeps and
  sweeps of silent problems, with any configurations, failing reads and failing writes in between, the alerts that
  escalation sends for one problem are none, one warning, one critical, or a warning followed by a critical.
\<close>
theorem escalates_at_most_twice:
  assumes "lower ''warning'' = ''warning''" "lower ''critical'' = ''critical''"
    and "distinct (map prID (esProblems st))" "freshActs lower acts st"
  shows "map prSeverity (filter (\<lambda>q. prID q = i) (snd (tickRun lower acts st)))
           \<in> {[], [''warning''], [''critical''], [''warning'', ''critical'']}"
  using tickRun_allowed [of lower st acts i] assms by (simp add: lowerOK_def sevAlerts_def)

definition infoState :: EvalState where
  "infoState = idleState\<lparr>esProblems := [(newProblem (envAt 5 ''p1'') rateRule ''web'' ''error_rate'' (Some 7))\<lparr>prSeverity := ''info''\<rparr>]\<rparr>"

definition agingActs :: "tickAct list" where
  "agingActs = [Escalates DefaultProblemEscalation True (\<lambda>_. True) 900000000005, Escalates DefaultProblemEscalation True (\<lambda>_. True) 900000000006,
                Escalates DefaultProblemEscalation True (\<lambda>_. True) 1800000000005]"

theorem escalates_at_most_twice_witness:
  "freshActs (\<lambda>s. s) agingActs infoState \<and>
   map prSeverity (filter (\<lambda>q. prID q = ''p1'') (snd (tickRun (\<lambda>s. s) agingActs infoState)))
     \<in> {[], [''warning''], [''critical''], [''warning'', ''critical'']}"
proof -
  have f: "freshActs (\<lambda>s. s) agingActs infoState" by (simp add: agingActs_def)
  have "distinct (map prID (esProblems infoState))" by (simp add: infoState_def idleState_def)
  then show ?thesis using f escalates_at_most_twice [of "\<lambda>s. s" infoState agingActs "''p1''"] by blast
qed

end
