(* ===== verification/Anomaly.thy ===== *)
theory Anomaly
  imports AlertTick
begin

text \<open>
  Anomaly events (\<open>internal/chstore/anomaly_event.go\<close>, \<open>anomaly_event_direction.go\<close>, \<open>anomaly_promotion.go\<close>): the row of a
  fingerprint with its episodes, the list of events, and the promotion of events to problems in a tick of the
  evaluator (\<open>evaluator.go\<close>): open, refresh and close. Ratios are rationals, counters words of their width.
  The list of silenced fingerprints and the texts of a promoted problem are arguments; so are the groups of subject events, which
  have a sweep of their own. The optional columns of the table are present.
\<close>

section \<open>Episodes\<close>

record AnomalyEvent =
  aeID :: string
  aeKind :: string
  aePattern :: string
  aeService :: string
  aeStartedAt :: int
  aeLastSeen :: int
  aePeakRatio :: rat
  aeCurrentRatio :: rat
  aeCurrentCount :: "64 word"
  aeEpisodeCount :: "32 word"
  aeFirstStartedAt :: int
  aeBaselineKind :: string
  aePromotion :: string

definition IsAnomalyFingerprint :: "string \<Rightarrow> bool" where
  "IsAnomalyFingerprint s \<longleftrightarrow>
     length s = 16 \<and> list_all (\<lambda>c. c \<in> set ''0123456789abcdef'') s"

definition uniqueAnomalyIDs :: "AnomalyEvent list \<Rightarrow> string list" where
  "uniqueAnomalyIDs evs = rev (foldl (\<lambda>ids e. if aeID e \<in> set ids then ids else aeID e # ids) [] evs)"

definition anomalyActiveAge :: int where "anomalyActiveAge = 10 * 60 * 10 ^ 9"
definition anomalyEpisodeGap :: int where "anomalyEpisodeGap = 2 * anomalyActiveAge + 150 * 10 ^ 9"

definition anomalyNewEpisode :: "int \<Rightarrow> int \<Rightarrow> bool" where
  "anomalyNewEpisode incoming stored \<longleftrightarrow> anomalyEpisodeGap < incoming - stored"

definition storedEpisodeCount :: "AnomalyEvent \<Rightarrow> 32 word" where
  "storedEpisodeCount s = (if aeEpisodeCount s = 0 then 1 else aeEpisodeCount s)"

definition MergeAnomalyCarry :: "AnomalyEvent \<Rightarrow> AnomalyEvent option \<Rightarrow> AnomalyEvent" where
  "MergeAnomalyCarry e stored =
     (case stored of
        None \<Rightarrow> e\<lparr>aePeakRatio := aeCurrentRatio e, aeEpisodeCount := 1, aeFirstStartedAt := aeStartedAt e\<rparr>
      | Some s \<Rightarrow>
          if anomalyNewEpisode (aeLastSeen e) (aeLastSeen s) then
            e\<lparr>aePeakRatio := aeCurrentRatio e, aeEpisodeCount := storedEpisodeCount s + 1,
              aeFirstStartedAt := (if aeFirstStartedAt s \<le> 0 then aeStartedAt s else aeFirstStartedAt s)\<rparr>
          else
            e\<lparr>aeEpisodeCount := storedEpisodeCount s, aeFirstStartedAt := aeFirstStartedAt s, aeStartedAt := aeStartedAt s,
              aePeakRatio := (if aePeakRatio s < aeCurrentRatio e then aeCurrentRatio e else aePeakRatio s),
              aeLastSeen := (if aeLastSeen e < aeLastSeen s then aeLastSeen s else aeLastSeen e),
              aePromotion := (if aePromotion e = [] then aePromotion s else aePromotion e)\<rparr>)"

definition foldAnomalyCarryRow :: "AnomalyEvent \<Rightarrow> (string \<rightharpoonup> AnomalyEvent) \<Rightarrow> (string \<rightharpoonup> AnomalyEvent)" where
  "foldAnomalyCarryRow p prev =
     (case prev (aeID p) of
        Some old \<Rightarrow> if aeLastSeen p \<le> aeLastSeen old then prev else prev(aeID p \<mapsto> p)
      | None \<Rightarrow> prev(aeID p \<mapsto> p))"

text \<open>One read of the rows for the batch, then one write; a failed read or write changes nothing.\<close>

definition UpsertAnomalyEvents :: "bool \<Rightarrow> AnomalyEvent list \<Rightarrow> AnomalyEvent list \<Rightarrow> AnomalyEvent list" where
  "UpsertAnomalyEvents ok evs tbl =
     (if \<not> ok then tbl
      else
        (let ids = uniqueAnomalyIDs evs; prev = fold foldAnomalyCarryRow (filter (\<lambda>p. aeID p \<in> set ids) tbl) Map.empty in
         fold (\<lambda>e tbl. upsertRow aeID (MergeAnomalyCarry e (prev (aeID e))) tbl) evs tbl))"

definition AnomalyPredatesDeploy :: "int \<Rightarrow> int \<Rightarrow> 32 word \<Rightarrow> int \<Rightarrow> bool" where
  "AnomalyPredatesDeploy firstStartedAt startedAt episodeCount deployTime =
     (let earliest = (if 0 < firstStartedAt \<and> firstStartedAt < startedAt then firstStartedAt else startedAt) in
      if deployTime \<le> earliest then False
      else if startedAt < deployTime then True
      else if unat episodeCount < 3 then False
      else (startedAt - earliest) div int (unat (episodeCount - 1)) \<le> 48 * 3600 * 10 ^ 9)"

section \<open>Lists\<close>

definition isActive :: "int \<Rightarrow> int \<Rightarrow> AnomalyEvent \<Rightarrow> bool" where
  "isActive now age e \<longleftrightarrow> now - age \<le> aeLastSeen e"

record ListAnomalyEventsFilter =
  lfSinceNs :: int
  lfLimit :: nat
  lfServices :: "string list option"
  lfFromNs :: int
  lfToNs :: int
  lfActiveOnly :: bool
  lfExcludeIDs :: "string list"
  lfKind :: string

definition keepsEvent :: "int \<Rightarrow> ListAnomalyEventsFilter \<Rightarrow> AnomalyEvent \<Rightarrow> bool" where
  "keepsEvent now f e \<longleftrightarrow>
     (if lfSinceNs f = 0 then now - 24 * 3600 * 10 ^ 9 else lfSinceNs f) \<le> aeLastSeen e \<and>
     (lfActiveOnly f \<longrightarrow> isActive now anomalyActiveAge e) \<and>
     (case lfServices f of None \<Rightarrow> True | Some ss \<Rightarrow> aeService e \<in> set ss) \<and>
     (0 < lfFromNs f \<longrightarrow> lfFromNs f \<le> aeStartedAt e) \<and> (0 < lfToNs f \<longrightarrow> aeStartedAt e < lfToNs f) \<and>
     aeID e \<notin> set (lfExcludeIDs f) \<and> (lfKind f \<noteq> [] \<longrightarrow> aeKind e = lfKind f)"

text \<open>Active events first, then by the last observation.\<close>

definition ListAnomalyEvents :: "int \<Rightarrow> ListAnomalyEventsFilter \<Rightarrow> AnomalyEvent list \<Rightarrow> AnomalyEvent list" where
  "ListAnomalyEvents now f tbl =
     take (if lfLimit f = 0 then 200 else lfLimit f)
       (sort_key (\<lambda>e. if isActive now anomalyActiveAge e then 0 else 1 :: nat)
         (sort_key (\<lambda>e. - aeLastSeen e) (filter (keepsEvent now f) tbl)))"

section \<open>Promotion\<close>

record AnomalyPromotionConfig =
  apEnabled :: bool
  apMinPeakRatio :: rat
  apMinSustainedSec :: int
  apMinCount :: "64 word"
  apCriticalPeakRatio :: rat
  apCountOnlyMinCount :: "64 word"
  apAttachToIncident :: "bool option"

definition DefaultAnomalyPromotion :: AnomalyPromotionConfig where
  "DefaultAnomalyPromotion = \<lparr>apEnabled = True, apMinPeakRatio = 5, apMinSustainedSec = 300, apMinCount = 10, apCriticalPeakRatio = 20,
     apCountOnlyMinCount = 20, apAttachToIncident = None\<rparr>"

definition NormalizeAnomalyPromotion :: "AnomalyPromotionConfig \<Rightarrow> AnomalyPromotionConfig" where
  "NormalizeAnomalyPromotion c =
     (let d = DefaultAnomalyPromotion;
          ratio = (if apMinPeakRatio c \<le> 0 then apMinPeakRatio d else apMinPeakRatio c);
          count = (if apMinCount c = 0 then apMinCount d else apMinCount c);
          crit = (if apCriticalPeakRatio c \<le> 0 then apCriticalPeakRatio d else apCriticalPeakRatio c);
          only = (if apCountOnlyMinCount c = 0 then apCountOnlyMinCount d else apCountOnlyMinCount c) in
      c\<lparr>apMinPeakRatio := ratio, apMinSustainedSec := (if apMinSustainedSec c \<le> 0 then apMinSustainedSec d else apMinSustainedSec c),
        apMinCount := count, apCriticalPeakRatio := (if crit < ratio then ratio else crit),
        apCountOnlyMinCount := (if only < count then count else only)\<rparr>)"

definition AttachesToIncident :: "AnomalyPromotionConfig \<Rightarrow> bool" where
  "AttachesToIncident c \<longleftrightarrow> apAttachToIncident c = None \<or> apAttachToIncident c = Some True"

definition IsSubjectAnomaly :: "AnomalyEvent \<Rightarrow> bool" where "IsSubjectAnomaly ev \<longleftrightarrow> aeKind ev = ''subject_red''"

definition AnomalyBaselineless :: "AnomalyEvent \<Rightarrow> bool" where
  "AnomalyBaselineless ev \<longleftrightarrow> (if aeBaselineKind ev = ''none'' then True else if aeBaselineKind ev = [] then aePeakRatio ev = 0 else False)"

definition IsCountOnlyAnomaly :: "AnomalyEvent \<Rightarrow> bool" where
  "IsCountOnlyAnomaly ev \<longleftrightarrow> aePeakRatio ev = 0 \<and> AnomalyBaselineless ev \<and> (aeKind ev = ''trace_op'' \<or> aeKind ev = ''log_pattern'')"

datatype promotionStep = promoteSkipCleared | promoteSkipMuted | promoteSkipGate | promoteCreate | promoteRefresh

definition anomalyPromotionStep :: "bool \<Rightarrow> bool \<Rightarrow> bool \<Rightarrow> bool \<Rightarrow> promotionStep" where
  "anomalyPromotionStep active muted gateOK hasOpen =
     (if \<not> active then promoteSkipCleared else if muted then promoteSkipMuted else if hasOpen then promoteRefresh
      else if gateOK then promoteCreate else promoteSkipGate)"

definition promotionGate :: "AnomalyEvent \<Rightarrow> AnomalyPromotionConfig \<Rightarrow> int \<Rightarrow> bool" where
  "promotionGate ev cfg now =
     (let sustained = wrap64 (apMinSustainedSec cfg * 10 ^ 9) \<le> now - aeStartedAt ev in
      if IsSubjectAnomaly ev then False
      else if IsCountOnlyAnomaly ev then
        \<not> (aeCurrentCount ev < apCountOnlyMinCount cfg \<or> aeCurrentCount ev < apMinCount cfg) \<and> sustained
      else \<not> aePeakRatio ev < apMinPeakRatio cfg \<and> \<not> aeCurrentCount ev < apMinCount cfg \<and> sustained)"

record promotedMeasure =
  pmMetric :: string
  pmComparator :: string
  pmValue :: rat
  pmThreshold :: rat

definition promotedSeverity :: "AnomalyEvent \<Rightarrow> AnomalyPromotionConfig \<Rightarrow> string" where
  "promotedSeverity ev cfg = (if \<not> IsCountOnlyAnomaly ev \<and> apCriticalPeakRatio cfg \<le> aePeakRatio ev then ''critical'' else ''warning'')"

definition promotedProblemMeasure :: "AnomalyEvent \<Rightarrow> AnomalyPromotionConfig \<Rightarrow> promotedMeasure" where
  "promotedProblemMeasure ev cfg =
     (if IsCountOnlyAnomaly ev then
        \<lparr>pmMetric = ''anomaly_count'', pmComparator = ''>='', pmValue = of_nat (unat (aeCurrentCount ev)), pmThreshold = of_nat (unat (apCountOnlyMinCount cfg))\<rparr>
      else \<lparr>pmMetric = ''anomaly_ratio'', pmComparator = [], pmValue = aePeakRatio ev, pmThreshold = apMinPeakRatio cfg\<rparr>)"

definition carryProblemOperatorState :: "StoredProblem \<Rightarrow> StoredProblem option \<Rightarrow> StoredProblem" where
  "carryProblemOperatorState p cur =
     (case cur of None \<Rightarrow> p | Some o' \<Rightarrow> p\<lparr>prStatus := prStatus o', spAssignee := spAssignee o', prAISummary := prAISummary o'\<rparr>)"

definition promoteAnomalyRuleID :: string where "promoteAnomalyRuleID = ''anomaly-auto:''"
definition promoteSubjectRulePrefix :: string where "promoteSubjectRulePrefix = ''anomaly-auto:subject:''"

text \<open>The surroundings of a sweep: the instant, the settings, the texts, the muted fingerprints and the writes that succeed.\<close>

record promoteEnv =
  peNow :: int
  peCfg :: AnomalyPromotionConfig
  peEsc :: ProblemEscalationConfig
  peLower :: "string \<Rightarrow> string"
  peTexts :: "AnomalyEvent \<Rightarrow> string \<times> string"
  peMuted :: "string \<Rightarrow> bool"
  peOK :: "string \<Rightarrow> bool"

definition promotedProblem :: "promoteEnv \<Rightarrow> AnomalyEvent \<Rightarrow> StoredProblem option \<Rightarrow> StoredProblem" where
  "promotedProblem env ev cur =
     (let ruleID = promoteAnomalyRuleID @ aeID ev; m = promotedProblemMeasure ev (peCfg env);
          startedAt = (case cur of Some o' \<Rightarrow> prStartedAt o' | None \<Rightarrow> aeStartedAt ev);
          ident = (case cur of Some o' \<Rightarrow> prID o' | None \<Rightarrow> ruleID @ '':'' @ aeService ev) in
      carryProblemOperatorState
        \<lparr>prID = ident, prRuleID = ruleID, prService = aeService ev,
         prSeverity = effectiveSeverity (peLower env) (promotedSeverity ev (peCfg env)) (peNow env - startedAt) (peEsc env),
         prStatus = ''open'', prPriority = [], prKind = [], prMetric = pmMetric m, prAISummary = [], prStartedAt = startedAt, prClusters = [],
         spRuleName = fst (peTexts env ev), spValue = Some (pmValue m), spComparator = pmComparator m, spThreshold = pmThreshold m,
         spDescription = snd (peTexts env ev), spAssignee = [], spResolvedAt = None, spUpdatedAt = 0\<rparr> cur)"

definition stepOf :: "promoteEnv \<Rightarrow> AnomalyEvent \<Rightarrow> StoredProblem option \<Rightarrow> promotionStep" where
  "stepOf env ev cur =
     anomalyPromotionStep (isActive (peNow env) anomalyActiveAge ev) (peMuted env (aeID ev)) (promotionGate ev (peCfg env) (peNow env)) (cur \<noteq> None)"

text \<open>The events in turn: the table, and the problems that are new, which are attached and announced. The snapshot is read once, before any write.\<close>

fun promoteLoop :: "promoteEnv \<Rightarrow> StoredProblem list option \<Rightarrow> AnomalyEvent list \<Rightarrow> StoredProblem list \<Rightarrow> StoredProblem list \<times> StoredProblem list" where
  "promoteLoop env snap [] tbl = (tbl, [])"
| "promoteLoop env snap (ev # evs) tbl =
     (let cur = Option.bind snap (\<lambda>rows. ByKey rows (promoteAnomalyRuleID @ aeID ev) (aeService ev)); step = stepOf env ev cur;
          p = promotedProblem env ev cur in
      if IsSubjectAnomaly ev \<or> step \<in> {promoteSkipCleared, promoteSkipMuted, promoteSkipGate} \<or> \<not> peOK env (prID p) then promoteLoop env snap evs tbl
      else
        (let (tbl', new) = promoteLoop env snap evs (UpsertProblem (peNow env) p tbl) in
         (tbl', if step = promoteCreate then p # new else new)))"

definition promotedResolveReason :: "string \<Rightarrow> (string \<Rightarrow> bool) \<Rightarrow> (string \<Rightarrow> bool) \<Rightarrow> (string \<Rightarrow> bool) option \<Rightarrow> string option" where
  "promotedResolveReason ruleID active muted activeGroups =
     (if HasPrefix ruleID promoteSubjectRulePrefix then
        (case activeGroups of None \<Rightarrow> None | Some g \<Rightarrow> if g ruleID then None else Some ''anomaly cleared'')
      else
        (let fp = drop (length promoteAnomalyRuleID) ruleID in
         if muted fp then Some ''anomaly muted'' else if active fp then None else Some ''anomaly cleared''))"

definition clearedRow :: "promoteEnv \<Rightarrow> (string \<Rightarrow> bool) \<Rightarrow> (string \<Rightarrow> bool) option \<Rightarrow> StoredProblem \<Rightarrow> StoredProblem option" where
  "clearedRow env active activeGroups p =
     (if \<not> HasPrefix (prRuleID p) promoteAnomalyRuleID \<or> \<not> peOK env (prID p) then None
      else (case promotedResolveReason (prRuleID p) active (peMuted env) activeGroups of
              None \<Rightarrow> None
            | Some reason \<Rightarrow> Some ((MarkResolved p (peNow env))\<lparr>spDescription := appendResolveSuffix (spDescription p) reason\<rparr>)))"

definition resolveClearedAnomalyPromotions ::
  "promoteEnv \<Rightarrow> bool \<Rightarrow> (string \<Rightarrow> bool) option \<Rightarrow> AnomalyEvent list \<Rightarrow> StoredProblem list \<Rightarrow> StoredProblem list" where
  "resolveClearedAnomalyPromotions env readsOK activeGroups events tbl =
     (if \<not> readsOK then tbl
      else
        (let active = (\<lambda>fp. fp \<in> aeID ` set (ListAnomalyEvents (peNow env)
                  \<lparr>lfSinceNs = peNow env - 3600 * 10 ^ 9, lfLimit = 5000, lfServices = None, lfFromNs = 0, lfToNs = 0, lfActiveOnly = True, lfExcludeIDs = [], lfKind = []\<rparr> events)) in
         fold (\<lambda>p tbl. case clearedRow env active activeGroups p of None \<Rightarrow> tbl | Some q \<Rightarrow> UpsertProblem (peNow env) q tbl) (openProblemsSnapshot tbl) tbl))"

definition promoteStrongAnomalies ::
  "promoteEnv \<Rightarrow> bool \<Rightarrow> bool \<Rightarrow> bool \<Rightarrow> (string \<Rightarrow> bool) option \<Rightarrow> AnomalyEvent list \<Rightarrow> StoredProblem list \<Rightarrow> StoredProblem list \<times> StoredProblem list" where
  "promoteStrongAnomalies env listOK snapOK clearOK activeGroups events tbl =
     (if \<not> apEnabled (peCfg env) \<or> \<not> listOK then (tbl, [])
      else
        (let evs = ListAnomalyEvents (peNow env) \<lparr>lfSinceNs = peNow env - 3600 * 10 ^ 9, lfLimit = 500, lfServices = None, lfFromNs = 0, lfToNs = 0,
                     lfActiveOnly = False, lfExcludeIDs = [], lfKind = []\<rparr> events;
             (tbl', new) = promoteLoop env (if snapOK then Some (openProblemsSnapshot tbl) else None) evs tbl in
         (resolveClearedAnomalyPromotions env clearOK activeGroups events tbl', new)))"

text \<open>The cut of a long text; the ellipsis has three bytes.\<close>

definition truncate :: "string \<Rightarrow> nat \<Rightarrow> string" where
  "truncate s n = (if length s \<le> n then s else take (n - 1) s @ [CHR 0xE2, CHR 0x80, CHR 0xA6])"

section \<open>Episodes as groups of observations\<close>

definition rowFor :: "string \<Rightarrow> AnomalyEvent list \<Rightarrow> AnomalyEvent option" where
  "rowFor i tbl = List.find (\<lambda>r. aeID r = i) tbl"

lemma Merge_id [simp]: "aeID (MergeAnomalyCarry e s) = aeID e"
  by (simp add: MergeAnomalyCarry_def split: option.splits)

lemma rowFor_upsert: "rowFor i (upsertRow aeID r tbl) = (if aeID r = i then Some r else rowFor i tbl)"
proof -
  have "aeID r \<noteq> i \<Longrightarrow> List.find (\<lambda>q. aeID q = i) (filter (\<lambda>y. aeID y \<noteq> aeID r) tbl) = List.find (\<lambda>q. aeID q = i) tbl"
    by (induction tbl) auto
  then show ?thesis by (simp add: rowFor_def upsertRow_def)
qed

lemma carry_other: "\<forall>p\<in>set ps. aeID p \<noteq> k \<Longrightarrow> fold foldAnomalyCarryRow ps m k = m k"
  by (induction ps arbitrary: m) (auto simp: foldAnomalyCarryRow_def split: option.splits)

lemma carry_read:
  assumes "distinct (map aeID tbl)" "P i" "m i = None"
  shows "fold foldAnomalyCarryRow (filter (\<lambda>p. P (aeID p)) tbl) m i = rowFor i tbl"
  using assms
proof (induction tbl arbitrary: m)
  case (Cons a tbl)
  show ?case
  proof (cases "aeID a = i")
    case True
    have "\<forall>p\<in>set (filter (\<lambda>p. P (aeID p)) tbl). aeID p \<noteq> i"
    proof
      fix p assume "p \<in> set (filter (\<lambda>p. P (aeID p)) tbl)"
      then have "aeID p \<in> aeID ` set tbl" by simp
      then show "aeID p \<noteq> i" using Cons.prems(1) True by (cases "aeID p = aeID a") auto
    qed
    note rest = carry_other [OF this]
    have "foldAnomalyCarryRow a m i = Some a" using True Cons.prems(3) by (simp add: foldAnomalyCarryRow_def)
    then show ?thesis using True Cons.prems(2) rest by (simp add: rowFor_def)
  next
    case False
    then have "foldAnomalyCarryRow a m i = None" using Cons.prems(3) by (simp add: foldAnomalyCarryRow_def split: option.splits)
    then show ?thesis using Cons.IH [of m] Cons.IH [of "foldAnomalyCarryRow a m"] Cons.prems False by (simp add: rowFor_def)
  qed
qed (simp add: rowFor_def)

lemma unique_ids: "set (uniqueAnomalyIDs evs) = aeID ` set evs"
proof -
  have "set (foldl (\<lambda>ids e. if aeID e \<in> set ids then ids else aeID e # ids) acc evs) = set acc \<union> aeID ` set evs" for acc
    by (induction evs arbitrary: acc) auto
  then show ?thesis by (simp add: uniqueAnomalyIDs_def)
qed

lemma batch_rows:
  "rowFor i (fold (\<lambda>e tbl. upsertRow aeID (MergeAnomalyCarry e (prev (aeID e))) tbl) evs tbl) =
    foldl (\<lambda>s e. Some (MergeAnomalyCarry e (prev i))) (rowFor i tbl) (filter (\<lambda>e. aeID e = i) evs)"
  by (induction evs arbitrary: tbl) (simp_all add: rowFor_upsert)

lemma batch_keys: "distinct (map aeID tbl) \<Longrightarrow> distinct (map aeID (UpsertAnomalyEvents ok evs tbl))"
proof -
  have "distinct (map aeID tbl) \<Longrightarrow> distinct (map aeID (fold (\<lambda>e tbl. upsertRow aeID (MergeAnomalyCarry e (f e)) tbl) evs tbl))" for f
    by (induction evs arbitrary: tbl) (simp_all add: upsertRow_keys)
  then show "distinct (map aeID tbl) \<Longrightarrow> ?thesis" by (simp add: UpsertAnomalyEvents_def Let_def)
qed

text \<open>A batch that has at most one observation of a fingerprint merges it with the stored row.\<close>

lemma batch_write:
  assumes "distinct (map aeID tbl)" "length (filter (\<lambda>e. aeID e = i) evs) \<le> 1"
  shows "rowFor i (UpsertAnomalyEvents True evs tbl) =
    foldl (\<lambda>s e. Some (MergeAnomalyCarry e s)) (rowFor i tbl) (filter (\<lambda>e. aeID e = i) evs)"
proof (cases "filter (\<lambda>e. aeID e = i) evs")
  case Nil
  then show ?thesis by (simp add: UpsertAnomalyEvents_def Let_def batch_rows)
next
  case (Cons e es)
  then have "i \<in> set (uniqueAnomalyIDs evs)" using filter_eq_ConsD [OF Cons] by (auto simp: unique_ids)
  then have "fold foldAnomalyCarryRow (filter (\<lambda>p. aeID p \<in> set (uniqueAnomalyIDs evs)) tbl) Map.empty i = rowFor i tbl"
    using carry_read [OF assms(1), of "\<lambda>k. k \<in> set (uniqueAnomalyIDs evs)" i Map.empty] by simp
  then show ?thesis using Cons assms(2) by (simp add: UpsertAnomalyEvents_def Let_def batch_rows)
qed

text \<open>The writes of a history of batches; the flag says whether the read and the write of the batch succeeded.\<close>

definition runWrites :: "(bool \<times> AnomalyEvent list) list \<Rightarrow> AnomalyEvent list \<Rightarrow> AnomalyEvent list" where
  "runWrites bs tbl = fold (\<lambda>b tbl. UpsertAnomalyEvents (fst b) (snd b) tbl) bs tbl"

definition writtenOf :: "string \<Rightarrow> (bool \<times> AnomalyEvent list) list \<Rightarrow> AnomalyEvent list" where
  "writtenOf i bs = filter (\<lambda>e. aeID e = i) (concat (map snd (filter fst bs)))"

definition onePerBatch :: "string \<Rightarrow> (bool \<times> AnomalyEvent list) list \<Rightarrow> bool" where
  "onePerBatch i bs \<longleftrightarrow> list_all (\<lambda>b. length (filter (\<lambda>e. aeID e = i) (snd b)) \<le> 1) bs"

lemma writes_run:
  assumes "distinct (map aeID tbl)" "onePerBatch i bs"
  shows "rowFor i (runWrites bs tbl) = foldl (\<lambda>s e. Some (MergeAnomalyCarry e s)) (rowFor i tbl) (writtenOf i bs)"
  using assms
proof (induction bs arbitrary: tbl)
  case (Cons b bs)
  have d: "distinct (map aeID (UpsertAnomalyEvents (fst b) (snd b) tbl))" by (rule batch_keys [OF Cons.prems(1)])
  have one: "onePerBatch i bs" "length (filter (\<lambda>e. aeID e = i) (snd b)) \<le> 1" using Cons.prems(2) by (simp_all add: onePerBatch_def)
  have "rowFor i (runWrites (b # bs) tbl) = rowFor i (runWrites bs (UpsertAnomalyEvents (fst b) (snd b) tbl))" by (simp add: runWrites_def)
  also have "\<dots> = foldl (\<lambda>s e. Some (MergeAnomalyCarry e s)) (rowFor i (UpsertAnomalyEvents (fst b) (snd b) tbl)) (writtenOf i bs)"
    by (rule Cons.IH [OF d one(1)])
  finally show ?case using batch_write [OF Cons.prems(1) one(2)]
    by (cases "fst b") (simp_all add: writtenOf_def UpsertAnomalyEvents_def)
qed (simp add: runWrites_def writtenOf_def)

text \<open>The reference: observations, the latest first, cut where one comes more than the gap after all observations of the group before it.\<close>

definition maxSeen :: "AnomalyEvent list \<Rightarrow> int" where "maxSeen g = Max (aeLastSeen ` set g)"

fun addObservation :: "AnomalyEvent list list \<Rightarrow> AnomalyEvent \<Rightarrow> AnomalyEvent list list" where
  "addObservation [] e = [[e]]"
| "addObservation (g # gs) e = (if maxSeen g + anomalyEpisodeGap < aeLastSeen e then [e] # g # gs else (e # g) # gs)"

definition episodesOf :: "AnomalyEvent list \<Rightarrow> AnomalyEvent list list" where
  "episodesOf evs = foldl addObservation [] evs"

definition describesRow :: "AnomalyEvent list \<Rightarrow> AnomalyEvent \<Rightarrow> bool" where
  "describesRow evs r \<longleftrightarrow>
     (let gs = episodesOf evs; g = hd gs in
      aeStartedAt r = aeStartedAt (last g) \<and> aeLastSeen r = maxSeen g \<and> aePeakRatio r = Max (aeCurrentRatio ` set g) \<and>
      aeEpisodeCount r = of_nat (length gs) \<and> aeFirstStartedAt r = aeStartedAt (hd evs))"

lemma episodes_snoc: "episodesOf (evs @ [e]) = addObservation (episodesOf evs) e"
  by (simp add: episodesOf_def)

lemma episodes_shape: "evs \<noteq> [] \<Longrightarrow> episodesOf evs \<noteq> [] \<and> (\<forall>g\<in>set (episodesOf evs). g \<noteq> []) \<and> concat (episodesOf evs) = rev evs"
proof (induction evs rule: rev_induct)
  case (snoc e evs)
  show ?case
  proof (cases "evs = []")
    case False
    then obtain g gs where "episodesOf evs = g # gs" using snoc by (cases "episodesOf evs") auto
    then show ?thesis using snoc False by (auto simp: episodes_snoc)
  qed (simp add: episodesOf_def)
qed simp

lemma episodes_length: "length (episodesOf evs) \<le> length evs"
proof (induction evs rule: rev_induct)
  case (snoc e evs)
  then show ?case by (cases "episodesOf evs") (auto simp: episodes_snoc)
qed (simp add: episodesOf_def)

lemma count_nonzero: "0 < n \<Longrightarrow> n < 2 ^ 32 \<Longrightarrow> (of_nat n :: 32 word) \<noteq> 0"
  by (simp add: word_of_nat_eq_0_iff nat_dvd_not_less)

lemma merge_describes:
  assumes "evs \<noteq> []" "describesRow evs r" "length evs < 2 ^ 32" "0 < aeStartedAt (hd evs)"
  shows "describesRow (evs @ [e]) (MergeAnomalyCarry e (Some r))"
proof -
  obtain g gs where g: "episodesOf evs = g # gs" "g \<noteq> []" using episodes_shape [OF assms(1)] by (cases "episodesOf evs") auto
  have "length (g # gs) < 2 ^ 32" using episodes_length [of evs] assms(3) g(1) by simp
  then have "(of_nat (length (g # gs)) :: 32 word) \<noteq> 0" by (intro count_nonzero) simp_all
  then have cnt: "storedEpisodeCount r = of_nat (length (g # gs))" using assms(2) g(1) by (simp add: storedEpisodeCount_def describesRow_def Let_def)
  have r: "aeStartedAt r = aeStartedAt (last g)" "aeLastSeen r = maxSeen g" "aePeakRatio r = Max (aeCurrentRatio ` set g)" "aeFirstStartedAt r = aeStartedAt (hd evs)"
    using assms(2) g(1) by (simp_all add: describesRow_def Let_def)
  have hd: "hd (evs @ [e]) = hd evs" using assms(1) by simp
  show ?thesis
  proof (cases "maxSeen g + anomalyEpisodeGap < aeLastSeen e")
    case True
    then have "anomalyNewEpisode (aeLastSeen e) (aeLastSeen r)" by (simp add: anomalyNewEpisode_def r(2))
    then show ?thesis using True g cnt r(4) assms(4) hd
      by (simp add: describesRow_def episodes_snoc MergeAnomalyCarry_def maxSeen_def Let_def)
  next
    case False
    then have "\<not> anomalyNewEpisode (aeLastSeen e) (aeLastSeen r)" by (simp add: anomalyNewEpisode_def r(2))
    then have m: "aePeakRatio (MergeAnomalyCarry e (Some r)) = max (aeCurrentRatio e) (aePeakRatio r)"
      "aeLastSeen (MergeAnomalyCarry e (Some r)) = max (aeLastSeen e) (aeLastSeen r)"
      "aeStartedAt (MergeAnomalyCarry e (Some r)) = aeStartedAt r" "aeFirstStartedAt (MergeAnomalyCarry e (Some r)) = aeFirstStartedAt r"
      "aeEpisodeCount (MergeAnomalyCarry e (Some r)) = storedEpisodeCount r"
      by (simp_all add: MergeAnomalyCarry_def max_def)
    show ?thesis using False g cnt hd
      by (simp add: describesRow_def episodes_snoc m r maxSeen_def Let_def)
  qed
qed

lemma first_describes: "describesRow [e] (MergeAnomalyCarry e None)"
  by (simp add: describesRow_def episodesOf_def MergeAnomalyCarry_def maxSeen_def Let_def)

lemma merges_describe:
  assumes "evs \<noteq> []" "length evs < 2 ^ 32" "0 < aeStartedAt (hd evs)"
  shows "\<exists>r. foldl (\<lambda>s e. Some (MergeAnomalyCarry e s)) None evs = Some r \<and> describesRow evs r"
  using assms
proof (induction evs rule: rev_induct)
  case (snoc e evs)
  then show ?case using first_describes [of e] merge_describes [of evs _ e] by (cases "evs = []") auto
qed simp

text \<open>
  C12. The stored row of a fingerprint is the account of its current episode. For any history of batches, each of any fingerprints and each with
  at most one observation of the fingerprint in question, where the read and the write of a batch may fail (it then changes nothing): the row of the
  fingerprint has the start of the first written observation since the last gap of more than 22 min 30 s, the latest time and the highest ratio since
  then, the number of such episodes and the start of the very first one. Observations may come in any order of their times; there are fewer than
  2^32 of them, and the first has a start after 1970. A batch with two observations of one fingerprint is the subject of \<open>batch_loses_peak\<close> below.
\<close>
theorem episodes_refine:
  assumes "onePerBatch i bs" "obs = writtenOf i bs" "obs \<noteq> []" "length obs < 2 ^ 32" "0 < aeStartedAt (hd obs)"
  shows "\<exists>r. rowFor i (runWrites bs []) = Some r \<and> describesRow obs r"
  using merges_describe [OF assms(3,4,5)] writes_run [OF _ assms(1), of "[]"] assms(2) by (simp add: rowFor_def)

definition obsAt :: "string \<Rightarrow> int \<Rightarrow> rat \<Rightarrow> AnomalyEvent" where
  "obsAt i t r = \<lparr>aeID = i, aeKind = ''trace_op'', aePattern = ''GET /'', aeService = ''web'', aeStartedAt = t, aeLastSeen = t, aePeakRatio = r, aeCurrentRatio = r,
     aeCurrentCount = 50, aeEpisodeCount = 0, aeFirstStartedAt = 0, aeBaselineKind = ''seasonal'', aePromotion = []\<rparr>"

definition nightly :: "(bool \<times> AnomalyEvent list) list" where
  "nightly = [(True, [obsAt ''f'' 1 66, obsAt ''g'' 2 9]), (True, [obsAt ''g'' 3 9, obsAt ''f'' 60000000001 70]), (False, [obsAt ''f'' 60000000002 99]),
     (True, [obsAt ''f'' 1410000000002 6]), (True, [obsAt ''f'' 1410000000001 7])]"

theorem episodes_refine_witness:
  "\<exists>r. rowFor ''f'' (runWrites nightly []) = Some r \<and> aeEpisodeCount r = 2 \<and> aePeakRatio r = 7 \<and> aeFirstStartedAt r = 1"
proof -
  let ?obs = "[obsAt ''f'' 1 66, obsAt ''f'' 60000000001 70, obsAt ''f'' 1410000000002 6, obsAt ''f'' 1410000000001 7]"
  have o: "onePerBatch ''f'' nightly" by (simp add: onePerBatch_def nightly_def obsAt_def)
  have f: "writtenOf ''f'' nightly = ?obs" by (simp add: writtenOf_def nightly_def obsAt_def)
  have "episodesOf ?obs = [[obsAt ''f'' 1410000000001 7, obsAt ''f'' 1410000000002 6], [obsAt ''f'' 60000000001 70, obsAt ''f'' 1 66]]"
    by (simp add: episodesOf_def maxSeen_def obsAt_def anomalyEpisodeGap_def anomalyActiveAge_def)
  then have d: "describesRow ?obs r \<Longrightarrow> aeEpisodeCount r = 2 \<and> aePeakRatio r = 7 \<and> aeFirstStartedAt r = 1" for r
    by (simp add: describesRow_def obsAt_def)
  show ?thesis using episodes_refine [OF o f [symmetric]] d by (auto simp: obsAt_def)
qed

text \<open>
  Within one batch each event is merged with the row that was read before, not with the event before it: of two observations of one
  fingerprint the second is stored alone. The peak is said only to rise within an episode, and the batch is said to hold such pairs.
\<close>

lemma batch_loses_peak:
  "map aePeakRatio (UpsertAnomalyEvents True [obsAt ''f'' 10 66, obsAt ''f'' 5 3] []) = [3] \<and>
   map aeLastSeen (UpsertAnomalyEvents True [obsAt ''f'' 10 66, obsAt ''f'' 5 3] []) = [5]"
  by (simp add: UpsertAnomalyEvents_def uniqueAnomalyIDs_def MergeAnomalyCarry_def upsertRow_def obsAt_def)

text \<open>The cut is said to keep a text within the limit; the ellipsis makes it two bytes longer.\<close>

lemma truncate_over_cap: "n < length s \<Longrightarrow> 0 < n \<Longrightarrow> length (truncate s n) = n + 2"
  by (simp add: truncate_def)

section \<open>One sweep of promotions\<close>

definition promKey :: "AnomalyEvent \<Rightarrow> breachKey" where "promKey ev = (promoteAnomalyRuleID @ aeID ev, aeService ev)"

definition lookupFor :: "StoredProblem list option \<Rightarrow> AnomalyEvent \<Rightarrow> StoredProblem option" where
  "lookupFor snap ev = Option.bind snap (\<lambda>rows. ByKey rows (promoteAnomalyRuleID @ aeID ev) (aeService ev))"

text \<open>The row that the turn of an event writes.\<close>

definition writtenRow :: "promoteEnv \<Rightarrow> StoredProblem list option \<Rightarrow> AnomalyEvent \<Rightarrow> StoredProblem option" where
  "writtenRow env snap ev =
     (let cur = lookupFor snap ev; p = promotedProblem env ev cur in
      if IsSubjectAnomaly ev \<or> stepOf env ev cur \<in> {promoteSkipCleared, promoteSkipMuted, promoteSkipGate} \<or> \<not> peOK env (prID p) then None
      else Some (p\<lparr>spUpdatedAt := peNow env\<rparr>))"

lemma promoteLoop_table:
  "fst (promoteLoop env snap evs tbl) =
     fold (\<lambda>ev tbl. case writtenRow env snap ev of None \<Rightarrow> tbl | Some q \<Rightarrow> upsertRow prID q tbl) evs tbl"
  by (induction evs arbitrary: tbl) (auto simp: writtenRow_def lookupFor_def Let_def split_beta UpsertProblem_row)

lemma promoteLoop_new:
  "p \<in> set (snd (promoteLoop env snap evs tbl)) \<Longrightarrow> \<exists>ev\<in>set evs. lookupFor snap ev = None \<and> p = promotedProblem env ev None"
  by (induction evs arbitrary: tbl)
     (auto simp: Let_def split_beta lookupFor_def stepOf_def anomalyPromotionStep_def split: if_splits)

lemma promoted_id: "prID (promotedProblem env ev cur) = (case cur of Some p \<Rightarrow> prID p | None \<Rightarrow> promoteAnomalyRuleID @ aeID ev @ '':'' @ aeService ev)"
  by (simp add: promotedProblem_def carryProblemOperatorState_def Let_def split: option.splits)

lemma promoted_refresh:
  "prStatus (promotedProblem env ev (Some p)) = prStatus p" "spAssignee (promotedProblem env ev (Some p)) = spAssignee p"
  "prStartedAt (promotedProblem env ev (Some p)) = prStartedAt p" "prRuleID (promotedProblem env ev (Some p)) = promoteAnomalyRuleID @ aeID ev"
  by (simp_all add: promotedProblem_def carryProblemOperatorState_def Let_def)

lemma fold_upserts_keep:
  assumes "q \<in> set tbl" "\<forall>ev\<in>set evs. \<forall>r. w ev = Some r \<longrightarrow> prID r \<noteq> prID q"
  shows "q \<in> set (fold (\<lambda>ev tbl. case w ev of None \<Rightarrow> tbl | Some r \<Rightarrow> upsertRow prID r tbl) evs tbl)"
  using assms
proof (induction evs arbitrary: tbl)
  case (Cons ev evs)
  have "q \<in> set (case w ev of None \<Rightarrow> tbl | Some r \<Rightarrow> upsertRow prID r tbl)"
    using Cons.prems by (auto simp: upsertRow_def split: option.splits)
  then show ?case using Cons.IH Cons.prems(2) by simp
qed simp

lemma fold_upserts_own:
  assumes "ev \<in> set evs" "w ev = Some r" "\<forall>ev'\<in>set evs. ev' \<noteq> ev \<longrightarrow> (\<forall>r'. w ev' = Some r' \<longrightarrow> prID r' \<noteq> prID r)"
  shows "r \<in> set (fold (\<lambda>ev tbl. case w ev of None \<Rightarrow> tbl | Some r \<Rightarrow> upsertRow prID r tbl) evs tbl)"
  using assms
proof (induction evs arbitrary: tbl rule: rev_induct)
  case (snoc x evs)
  show ?case
  proof (cases "x = ev")
    case True
    then show ?thesis using snoc.prems(2) by (simp add: upsertRow_def)
  next
    case False
    then have "r \<in> set (fold (\<lambda>ev tbl. case w ev of None \<Rightarrow> tbl | Some r \<Rightarrow> upsertRow prID r tbl) evs tbl)" using snoc by auto
    then show ?thesis using snoc.prems(3) False by (auto simp: upsertRow_def split: option.splits)
  qed
qed simp

lemma fold_upserts_table:
  assumes "distinct (map prID tbl)"
  shows "distinct (map prID (fold (\<lambda>ev tbl. case w ev of None \<Rightarrow> tbl | Some r \<Rightarrow> upsertRow prID r tbl) evs tbl)) \<and>
    length (filter isOpenRow (fold (\<lambda>ev tbl. case w ev of None \<Rightarrow> tbl | Some r \<Rightarrow> upsertRow prID r tbl) evs tbl)) \<le> length (filter isOpenRow tbl) + length evs"
  using assms
proof (induction evs arbitrary: tbl)
  case (Cons ev evs)
  let ?tbl = "case w ev of None \<Rightarrow> tbl | Some r \<Rightarrow> upsertRow prID r tbl"
  have "distinct (map prID ?tbl)" using Cons.prems upsertRow_keys by (auto split: option.splits)
  note IH = Cons.IH [OF this]
  have "length (filter isOpenRow (filter P tbl)) \<le> length (filter isOpenRow tbl)" for P
    by (metis (no_types, lifting) filter_filter length_filter_le filter_cong conj_commute)
  then have "length (filter isOpenRow ?tbl) \<le> Suc (length (filter isOpenRow tbl))"
    by (auto simp: upsertRow_def le_SucI split: option.splits)
  then show ?case using IH by simp
qed simp

text \<open>What the sweep assumes of the table: identifiers of promoted problems belong to their rule and service.\<close>

definition promotable :: "StoredProblem list \<Rightarrow> AnomalyEvent list \<Rightarrow> bool" where
  "promotable tbl events \<longleftrightarrow> wfTable tbl \<and> length (filter isOpenRow tbl) \<le> 49500 \<and> distinct (map aeID events) \<and>
     (\<forall>ev\<in>set events. noBar (aeID ev) \<and> (\<forall>r\<in>set tbl. prID r = promoteAnomalyRuleID @ aeID ev @ '':'' @ aeService ev \<longrightarrow> keyOf r = promKey ev))"

lemma lookup_open:
  assumes "promotable tbl events" "ev \<in> set events"
  shows "lookupFor (Some (openProblemsSnapshot tbl)) ev = (case openRows tbl (promKey ev) of [] \<Rightarrow> None | p # _ \<Rightarrow> Some p)"
proof -
  have "noBar (promoteAnomalyRuleID @ aeID ev)" using assms by (auto simp: promotable_def noBar_def promoteAnomalyRuleID_def)
  then have "lookupFor (Some (openProblemsSnapshot tbl)) ev = FindOpenProblem tbl (promoteAnomalyRuleID @ aeID ev) (aeService ev)"
    using assms(1) by (simp add: lookupFor_def promotable_def wfTable_def ByKey_FindOpenProblem)
  also have "\<dots> = (case openRows tbl (promKey ev) of [] \<Rightarrow> None | p # _ \<Rightarrow> Some p)"
    using assms(1) FindOpenProblem_unique by (simp add: promotable_def promKey_def)
  finally show ?thesis .
qed

lemma lookup_own:
  assumes "promotable tbl events" "ev \<in> set events" "p \<in> set tbl" "isOpenRow p" "keyOf p = promKey ev"
  shows "lookupFor (Some (openProblemsSnapshot tbl)) ev = Some p"
proof -
  have "p \<in> set (openRows tbl (promKey ev))" using assms(3-5) by (auto simp: openRows_def keyOf_def promKey_def)
  moreover have "length (openRows tbl (promKey ev)) \<le> 1" using assms(1) unfolding promotable_def wfTable_def by blast
  ultimately have "openRows tbl (promKey ev) = [p]" by (cases "openRows tbl (promKey ev)") auto
  then show ?thesis using lookup_open [OF assms(1,2)] by simp
qed

lemma lookup_Some:
  assumes "promotable tbl events" "ev \<in> set events" "lookupFor (Some (openProblemsSnapshot tbl)) ev = Some p"
  shows "p \<in> set tbl \<and> isOpenRow p \<and> keyOf p = promKey ev"
proof -
  obtain xs where "openRows tbl (promKey ev) = p # xs" using assms lookup_open [OF assms(1,2)] by (auto split: list.splits)
  then have "p \<in> set (openRows tbl (promKey ev))" by simp
  then show ?thesis by (auto simp: openRows_def keyOf_def promKey_def)
qed

text \<open>The turn of another event leaves the row of an open problem alone.\<close>

lemma written_other:
  assumes "promotable tbl events" "ev \<in> set events" "p \<in> set tbl" "keyOf p \<noteq> promKey ev"
    and "writtenRow env (Some (openProblemsSnapshot tbl)) ev = Some r"
  shows "prID r \<noteq> prID p"
proof (cases "lookupFor (Some (openProblemsSnapshot tbl)) ev")
  case None
  then have "prID r = promoteAnomalyRuleID @ aeID ev @ '':'' @ aeService ev"
    using assms(5) by (auto simp: writtenRow_def Let_def promoted_id split: if_splits)
  then show ?thesis using assms(1-4) by (auto simp: promotable_def)
next
  case (Some p')
  then have p': "p' \<in> set tbl" "keyOf p' = promKey ev" using lookup_Some [OF assms(1,2)] by auto
  have "prID r = prID p'" using Some assms(5) by (auto simp: writtenRow_def Let_def promoted_id split: if_splits)
  moreover have "p' \<noteq> p" using p' assms(4) by auto
  moreover have "inj_on prID (set tbl)" using assms(1) by (simp add: promotable_def wfTable_def distinct_map)
  ultimately show ?thesis using p'(1) assms(3) by (auto dest: inj_onD)
qed

section \<open>The lists of a sweep\<close>

lemma sort_flag:
  assumes "\<forall>x\<in>set xs. f x \<in> {0, 1 :: nat}"
  shows "sort_key f xs = filter (\<lambda>x. f x = 0) xs @ filter (\<lambda>x. f x = 1) xs"
proof -
  have split: "ys = filter (\<lambda>x. f x = 0) ys @ filter (\<lambda>x. f x = 1) ys" if "sorted (map f ys)" "\<forall>y\<in>set ys. f y \<in> {0, 1}" for ys
    using that
  proof (induction ys)
    case (Cons y ys)
    show ?case
    proof (cases "f y = 0")
      case False
      then have "\<forall>z\<in>set ys. f z = 1" using Cons.prems by force
      then show ?thesis using False Cons.prems(2) by (auto simp: filter_empty_conv filter_id_conv)
    qed (use Cons in auto)
  qed simp
  have "sort_key f xs = filter (\<lambda>x. f x = 0) (sort_key f xs) @ filter (\<lambda>x. f x = 1) (sort_key f xs)"
    by (rule split) (use assms in auto)
  then show ?thesis using sort_key_stable [of f _ xs] by simp
qed

lemma list_active_first:
  assumes "length (filter (\<lambda>e. isActive now anomalyActiveAge e) tbl) \<le> n" "n \<noteq> 0" "ev \<in> set tbl" "isActive now anomalyActiveAge ev" "keepsEvent now f ev" "lfLimit f = n"
  shows "ev \<in> set (ListAnomalyEvents now f tbl)"
proof -
  let ?ys = "sort_key (\<lambda>e. - aeLastSeen e) (filter (keepsEvent now f) tbl)"
  let ?act = "filter (\<lambda>e. isActive now anomalyActiveAge e) ?ys"
  have "mset ?act = filter_mset (isActive now anomalyActiveAge) (filter_mset (keepsEvent now f) (mset tbl))" by (simp add: mset_filter)
  then have "length ?act = size (filter_mset (isActive now anomalyActiveAge) (filter_mset (keepsEvent now f) (mset tbl)))" by (metis size_mset)
  also have "\<dots> \<le> size (filter_mset (isActive now anomalyActiveAge) (mset tbl))" by (intro size_mset_mono multiset_filter_mono) simp
  also have "\<dots> = length (filter (\<lambda>e. isActive now anomalyActiveAge e) tbl)" by (metis mset_filter size_mset)
  finally have len: "length ?act \<le> n" using assms(1) by simp
  have "ListAnomalyEvents now f tbl = take n (?act @ filter (\<lambda>e. \<not> isActive now anomalyActiveAge e) ?ys)"
    using assms(2,6) sort_flag [of ?ys "\<lambda>e. if isActive now anomalyActiveAge e then 0 else 1 :: nat"]
    by (simp add: ListAnomalyEvents_def if_distrib cong: filter_cong)
  moreover have "ev \<in> set ?act" using assms(3-5) by simp
  ultimately show ?thesis using len by simp
qed

lemma list_subset: "set (ListAnomalyEvents now f tbl) \<subseteq> set (filter (keepsEvent now f) tbl)"
  by (auto simp: ListAnomalyEvents_def dest!: in_set_takeD)

lemma list_ids: "distinct (map aeID tbl) \<Longrightarrow> distinct (map aeID (ListAnomalyEvents now f tbl))"
  unfolding ListAnomalyEvents_def take_map [symmetric] by (simp add: sort_key_ids distinct_map_filter)

lemma list_length: "lfLimit f \<noteq> 0 \<Longrightarrow> length (ListAnomalyEvents now f tbl) \<le> lfLimit f"
  by (simp add: ListAnomalyEvents_def)

section \<open>Open, refresh and close agree\<close>

lemma resolve_rewrite:
  "resolveClearedAnomalyPromotions env True groups events tbl =
     rewriteRows prID (stamped (peNow env) (clearedRow env
       (\<lambda>fp. fp \<in> aeID ` set (ListAnomalyEvents (peNow env)
          \<lparr>lfSinceNs = peNow env - 3600 * 10 ^ 9, lfLimit = 5000, lfServices = None, lfFromNs = 0, lfToNs = 0, lfActiveOnly = True, lfExcludeIDs = [], lfKind = []\<rparr> events))
       groups)) (openProblemsSnapshot tbl) tbl"
  by (simp add: resolveClearedAnomalyPromotions_def stamped_loop)

lemma resolve_row:
  assumes "distinct (map prID tbl)" "length (filter isOpenRow tbl) \<le> 50000" "q \<in> set tbl" "isOpenRow q"
    and "active = (\<lambda>fp. fp \<in> aeID ` set (ListAnomalyEvents (peNow env)
          \<lparr>lfSinceNs = peNow env - 3600 * 10 ^ 9, lfLimit = 5000, lfServices = None, lfFromNs = 0, lfToNs = 0, lfActiveOnly = True, lfExcludeIDs = [], lfKind = []\<rparr> events))"
  shows "(case stamped (peNow env) (clearedRow env active groups) q of None \<Rightarrow> q | Some r \<Rightarrow> r) \<in> set (resolveClearedAnomalyPromotions env True groups events tbl)"
proof -
  have snap: "openProblemsSnapshot tbl = filter isOpenRow tbl" using assms(2) by (simp add: openProblemsSnapshot_def)
  have ids: "prID r = prID p" if "clearedRow env active groups p = Some r" for p r
    using that by (auto simp: clearedRow_def MarkResolved_def split: if_splits option.splits)
  have "set (rewriteRows prID (stamped (peNow env) (clearedRow env active groups)) (openProblemsSnapshot tbl) tbl) =
      rewritten (stamped (peNow env) (clearedRow env active groups)) (set (openProblemsSnapshot tbl)) ` set tbl"
    using assms(1) ids unfolding snap by (intro stamped_image) (auto simp: distinct_map_filter)
  moreover have "rewritten (stamped (peNow env) (clearedRow env active groups)) (set (openProblemsSnapshot tbl)) q =
      (case stamped (peNow env) (clearedRow env active groups) q of None \<Rightarrow> q | Some r \<Rightarrow> r)"
    using assms(3,4) by (simp add: rewritten_def snap)
  ultimately show ?thesis unfolding resolve_rewrite assms(5) [symmetric] using assms(3) by (metis imageI)
qed

abbreviation sweepList :: "int \<Rightarrow> ListAnomalyEventsFilter" where
  "sweepList now \<equiv> \<lparr>lfSinceNs = now - 3600 * 10 ^ 9, lfLimit = 500, lfServices = None, lfFromNs = 0, lfToNs = 0, lfActiveOnly = False, lfExcludeIDs = [], lfKind = []\<rparr>"

abbreviation activeList :: "int \<Rightarrow> ListAnomalyEventsFilter" where
  "activeList now \<equiv> \<lparr>lfSinceNs = now - 3600 * 10 ^ 9, lfLimit = 5000, lfServices = None, lfFromNs = 0, lfToNs = 0, lfActiveOnly = True, lfExcludeIDs = [], lfKind = []\<rparr>"

lemma sweep_lists:
  assumes "distinct (map aeID events)" "length (filter (isActive now anomalyActiveAge) events) \<le> 500" "ev \<in> set events"
  shows "isActive now anomalyActiveAge ev \<Longrightarrow> ev \<in> set (ListAnomalyEvents now (sweepList now) events)"
    and "aeID ev \<in> aeID ` set (ListAnomalyEvents now (activeList now) events) \<longleftrightarrow> isActive now anomalyActiveAge ev"
proof -
  have since: "now - 3600 * 10 ^ 9 \<le> aeLastSeen ev" if "isActive now anomalyActiveAge ev" using that by (simp add: isActive_def anomalyActiveAge_def)
  show "ev \<in> set (ListAnomalyEvents now (sweepList now) events)" if "isActive now anomalyActiveAge ev"
    using that since assms(2,3) by (intro list_active_first [where n = 500]) (auto simp: keepsEvent_def)
  have "ev \<in> set (ListAnomalyEvents now (activeList now) events)" if "isActive now anomalyActiveAge ev"
    using that since assms(2,3) by (intro list_active_first [where n = 5000]) (auto simp: keepsEvent_def)
  moreover have "isActive now anomalyActiveAge ev" if "aeID ev \<in> aeID ` set (ListAnomalyEvents now (activeList now) events)"
  proof -
    obtain e where e: "e \<in> set (ListAnomalyEvents now (activeList now) events)" "aeID e = aeID ev" using \<open>aeID ev \<in> _\<close> by auto
    then have "e \<in> set events" "keepsEvent now (activeList now) e" using list_subset by fastforce+
    moreover have "e = ev" using calculation(1) e(2) assms(1,3) by (auto simp: distinct_map inj_on_def)
    ultimately show ?thesis by (simp add: keepsEvent_def)
  qed
  ultimately show "aeID ev \<in> aeID ` set (ListAnomalyEvents now (activeList now) events) \<longleftrightarrow> isActive now anomalyActiveAge ev" by blast
qed

text \<open>The row of an open promoted problem after the turns of all events.\<close>

lemma turns_row:
  assumes "promotable tbl events" "\<forall>i. peOK env i" "p \<in> set tbl" "isOpenRow p" "ev \<in> set events" "keyOf p = promKey ev" "\<not> IsSubjectAnomaly ev" "set evs \<subseteq> set events"
    and "live \<longleftrightarrow> isActive (peNow env) anomalyActiveAge ev \<and> \<not> peMuted env (aeID ev)" "live \<Longrightarrow> ev \<in> set evs"
  shows "\<exists>q\<in>set (fst (promoteLoop env (Some (openProblemsSnapshot tbl)) evs tbl)). prID q = prID p \<and> prRuleID q = prRuleID p \<and> prStartedAt q = prStartedAt p \<and>
    spAssignee q = spAssignee p \<and> prStatus q = prStatus p \<and> (if live then spUpdatedAt q = peNow env else q = p)"
proof -
  let ?w = "writtenRow env (Some (openProblemsSnapshot tbl))"
  have own: "lookupFor (Some (openProblemsSnapshot tbl)) ev = Some p" by (rule lookup_own [OF assms(1,5,3,4,6)])
  have same: "ev' = ev" if "ev' \<in> set events" "promKey ev' = keyOf p" for ev'
    using that assms(1,5,6) by (auto simp: promotable_def promKey_def distinct_map inj_on_def)
  have other: "prID r \<noteq> prID p" if "ev' \<in> set evs" "ev' \<noteq> ev" "?w ev' = Some r" for ev' r
    using written_other [OF assms(1) _ assms(3) _ that(3)] same assms(8) that(1,2) by (metis subsetD)
  show ?thesis
  proof (cases live)
    case True
    let ?q = "(promotedProblem env ev (Some p))\<lparr>spUpdatedAt := peNow env\<rparr>"
    have w: "?w ev = Some ?q"
      using True assms(2,7,9) own by (simp add: writtenRow_def stepOf_def anomalyPromotionStep_def Let_def)
    have "prID ?q = prID p" by (simp add: promoted_id)
    then have "?q \<in> set (fst (promoteLoop env (Some (openProblemsSnapshot tbl)) evs tbl))"
      unfolding promoteLoop_table using True assms(10) w other by (intro fold_upserts_own [where ev = ev]) auto
    moreover have "prRuleID ?q = prRuleID p" using assms(6) by (simp add: promoted_refresh keyOf_def promKey_def)
    ultimately show ?thesis using True by (intro bexI [of _ ?q]) (simp_all add: promoted_id promoted_refresh)
  next
    case False
    then have "?w ev = None" using assms(9) own by (auto simp: writtenRow_def stepOf_def anomalyPromotionStep_def Let_def)
    then have "p \<in> set (fst (promoteLoop env (Some (openProblemsSnapshot tbl)) evs tbl))"
      unfolding promoteLoop_table using assms(3) other by (intro fold_upserts_keep) (auto, metis option.distinct(1))
    then show ?thesis using False by auto
  qed
qed

lemma turns_new:
  assumes "promotable tbl events" "p \<in> set tbl" "isOpenRow p" "set evs \<subseteq> set events"
  shows "prID p \<notin> prID ` set (snd (promoteLoop env (Some (openProblemsSnapshot tbl)) evs tbl))"
proof
  assume "prID p \<in> prID ` set (snd (promoteLoop env (Some (openProblemsSnapshot tbl)) evs tbl))"
  then obtain ev where ev: "ev \<in> set evs" "lookupFor (Some (openProblemsSnapshot tbl)) ev = None" "prID p = prID (promotedProblem env ev None)"
    using promoteLoop_new by fastforce
  have "keyOf p = promKey ev" using assms(1,2,4) ev(1,3) by (auto simp: promotable_def promoted_id)
  then show False using lookup_own [OF assms(1) _ assms(2,3)] ev assms(4) by auto
qed

text \<open>
  C11. A sweep of promotions in which every read and write succeeds and at most 500 events are active treats an open promoted problem whose event is
  in the table in one way: if the event is active and not muted, the row is refreshed with the status, the assignee and the start that it had, stays
  open and gets a new version, whatever the numeric gate says; if the event is in the table and is not active or is muted, the row is closed by the same
  sweep. Either way it is not announced again. (The tables are well formed, at most 49500 rows are open, and neither the event nor the rule is of the
  subject kind, which has its own pass. What happens with more than 500 active events is \<open>promotion_skips_behind_limit\<close> below.)
\<close>
theorem promotion_settles:
  assumes "promotable tbl events" "apEnabled (peCfg env)" "\<forall>i. peOK env i"
    and "length (filter (isActive (peNow env) anomalyActiveAge) events) \<le> 500"
    and "p \<in> set tbl" "isOpenRow p" "ev \<in> set events" "keyOf p = promKey ev" "\<not> IsSubjectAnomaly ev" "\<not> HasPrefix (prRuleID p) promoteSubjectRulePrefix"
    and "promoteStrongAnomalies env True True True groups events tbl = (tbl', new)"
  shows "prID p \<notin> prID ` set new \<and>
    (\<exists>q\<in>set tbl'. prID q = prID p \<and> prStartedAt q = prStartedAt p \<and> spUpdatedAt q = peNow env \<and> spAssignee q = spAssignee p \<and>
       (if isActive (peNow env) anomalyActiveAge ev \<and> \<not> peMuted env (aeID ev) then prStatus q = prStatus p
        else prStatus q = ''resolved'' \<and> spResolvedAt q = Some (peNow env)))"
proof -
  let ?now = "peNow env" and ?evs = "ListAnomalyEvents (peNow env) (sweepList (peNow env)) events"
  let ?tbl = "fst (promoteLoop env (Some (openProblemsSnapshot tbl)) ?evs tbl)" and ?live = "isActive (peNow env) anomalyActiveAge ev \<and> \<not> peMuted env (aeID ev)"
  define active where "active = (\<lambda>fp. fp \<in> aeID ` set (ListAnomalyEvents ?now (activeList ?now) events))"
  have dist: "distinct (map aeID events)" "distinct (map prID tbl)" using assms(1) by (simp_all add: promotable_def wfTable_def)
  have run: "tbl' = resolveClearedAnomalyPromotions env True groups events ?tbl" "new = snd (promoteLoop env (Some (openProblemsSnapshot tbl)) ?evs tbl)"
    using assms(2,11) by (auto simp: promoteStrongAnomalies_def split_beta Let_def)
  have sub: "set ?evs \<subseteq> set events" using list_subset by fastforce
  note lists = sweep_lists [OF dist(1) assms(4,7)]
  have "length ?evs \<le> 500" "length (filter isOpenRow tbl) \<le> 49500" using list_length [of "sweepList ?now"] assms(1) by (simp_all add: promotable_def)
  then have tbl1: "distinct (map prID ?tbl)" "length (filter isOpenRow ?tbl) \<le> 50000"
    using fold_upserts_table [OF dist(2), of "writtenRow env (Some (openProblemsSnapshot tbl))" ?evs] unfolding promoteLoop_table by auto
  obtain q where q: "q \<in> set ?tbl" "prID q = prID p" "prRuleID q = prRuleID p" "prStartedAt q = prStartedAt p" "spAssignee q = spAssignee p"
      "prStatus q = prStatus p" "if ?live then spUpdatedAt q = ?now else q = p"
    using turns_row [OF assms(1,3,5,6,7,8,9) sub refl] lists(1) by blast
  have "isOpenRow q" using q(6) assms(6) by (simp add: isOpenRow_def)
  note row = resolve_row [OF tbl1 q(1) this refl, of env events groups, folded active_def run(1)]
  have rule: "prRuleID q = promoteAnomalyRuleID @ aeID ev" using q(3) assms(8) by (simp add: keyOf_def promKey_def)
  have "\<not> HasPrefix (prRuleID q) promoteSubjectRulePrefix" using q(3) assms(10) by simp
  then have reason: "promotedResolveReason (prRuleID q) active (peMuted env) groups = None \<longleftrightarrow> ?live"
    using lists(2) rule by (auto simp: promotedResolveReason_def active_def Let_def)
  have pre: "HasPrefix (prRuleID q) promoteAnomalyRuleID" by (simp add: rule HasPrefix_def)
  have "\<exists>r\<in>set tbl'. prID r = prID p \<and> prStartedAt r = prStartedAt p \<and> spUpdatedAt r = ?now \<and> spAssignee r = spAssignee p \<and>
       (if ?live then prStatus r = prStatus p else prStatus r = ''resolved'' \<and> spResolvedAt r = Some ?now)"
  proof (cases ?live)
    case True
    then have "stamped ?now (clearedRow env active groups) q = None" using reason by (simp add: stamped_def clearedRow_def)
    then show ?thesis using row q True by auto
  next
    case False
    then obtain reas where "promotedResolveReason (prRuleID q) active (peMuted env) groups = Some reas" using reason by auto
    then have "stamped ?now (clearedRow env active groups) q =
        Some ((MarkResolved q ?now)\<lparr>spDescription := appendResolveSuffix (spDescription q) reas, spUpdatedAt := ?now\<rparr>)"
      using pre assms(3) by (simp add: stamped_def clearedRow_def)
    then show ?thesis using row q False by (intro bexI) (auto simp: MarkResolved_def)
  qed
  then show ?thesis using turns_new [OF assms(1,5,6) sub, of env] run(2) by blast
qed

definition promoteEnvAt :: "int \<Rightarrow> promoteEnv" where
  "promoteEnvAt now = \<lparr>peNow = now, peCfg = DefaultAnomalyPromotion, peEsc = DefaultProblemEscalation, peLower = (\<lambda>s. s), peTexts = (\<lambda>_. ([], [])),
     peMuted = (\<lambda>_. False), peOK = (\<lambda>_. True)\<rparr>"

definition promotedOpen :: StoredProblem where
  "promotedOpen = (promotedProblem (promoteEnvAt 400000000000) (obsAt ''f'' 1 66) None)\<lparr>prStatus := ''acknowledged'', spAssignee := ''ann''\<rparr>"

theorem promotion_settles_witness:
  "\<exists>q\<in>set (fst (promoteStrongAnomalies (promoteEnvAt 500000000000) True True True None [obsAt ''f'' 499000000000 2] [promotedOpen])).
     prStatus q = ''acknowledged'' \<and> spAssignee q = ''ann'' \<and> spUpdatedAt q = 500000000000"
proof -
  let ?env = "promoteEnvAt 500000000000" and ?ev = "obsAt ''f'' 499000000000 2"
  have k: "keyOf promotedOpen = promKey ?ev" "isOpenRow promotedOpen" "prID promotedOpen = ''anomaly-auto:f:web''" "prRuleID promotedOpen = ''anomaly-auto:f''"
    by (simp_all add: promotedOpen_def promotedProblem_def carryProblemOperatorState_def Let_def keyOf_def promKey_def obsAt_def isOpenRow_def promoteAnomalyRuleID_def)
  have "wfTable [promotedOpen]" using k by (auto simp: wfTable_def noBar_def openRows_def)
  then have "promotable [promotedOpen] [?ev]" using k by (auto simp: promotable_def noBar_def obsAt_def)
  moreover have "apEnabled (peCfg ?env)" "\<forall>i. peOK ?env i" by (simp_all add: promoteEnvAt_def DefaultAnomalyPromotion_def)
  moreover have "length (filter (isActive (peNow ?env) anomalyActiveAge) [?ev]) \<le> 500" by simp
  moreover have "\<not> IsSubjectAnomaly ?ev" "\<not> HasPrefix (prRuleID promotedOpen) promoteSubjectRulePrefix" "?ev \<in> set [?ev]" "promotedOpen \<in> set [promotedOpen]"
    using k(4) by (simp_all add: IsSubjectAnomaly_def obsAt_def HasPrefix_def promoteSubjectRulePrefix_def)
  moreover obtain tbl' new where run: "promoteStrongAnomalies ?env True True True None [?ev] [promotedOpen] = (tbl', new)"
    by (cases "promoteStrongAnomalies ?env True True True None [?ev] [promotedOpen]")
  moreover have live: "isActive (peNow ?env) anomalyActiveAge ?ev \<and> \<not> peMuted ?env (aeID ?ev)"
    by (simp add: isActive_def anomalyActiveAge_def promoteEnvAt_def obsAt_def)
  ultimately have "\<exists>q\<in>set tbl'. prStatus q = prStatus promotedOpen \<and> spAssignee q = spAssignee promotedOpen \<and> spUpdatedAt q = peNow ?env"
    using promotion_settles [of "[promotedOpen]" "[?ev]" ?env promotedOpen ?ev None tbl' new] k(1,2) by metis
  then show ?thesis unfolding run by (simp add: promotedOpen_def promoteEnvAt_def)
qed

text \<open>
  The sweep reads 500 events, the pass that closes reads 5000 active ones: the problem of an active event behind the first 500 is neither refreshed nor
  closed, so that the sweep of silent problems closes it while its event goes on. An open problem with an active event is said to be refreshed.
\<close>

lemma promotion_skips_behind_limit:
  assumes "promotable tbl events" "p \<in> set tbl" "isOpenRow p" "ev \<in> set events" "keyOf p = promKey ev" "\<not> HasPrefix (prRuleID p) promoteSubjectRulePrefix"
    and "ev \<notin> set (ListAnomalyEvents (peNow env) (sweepList (peNow env)) events)" "ev \<in> set (ListAnomalyEvents (peNow env) (activeList (peNow env)) events)"
    and "\<not> peMuted env (aeID ev)"
  shows "p \<in> set (fst (promoteStrongAnomalies env listOK True clearOK groups events tbl))"
proof -
  let ?evs = "ListAnomalyEvents (peNow env) (sweepList (peNow env)) events"
  let ?tbl = "fst (promoteLoop env (Some (openProblemsSnapshot tbl)) ?evs tbl)"
  have same: "ev' = ev" if "ev' \<in> set events" "promKey ev' = keyOf p" for ev'
    using that assms(1,4,5) by (auto simp: promotable_def promKey_def distinct_map inj_on_def)
  have sub: "set ?evs \<subseteq> set events" using list_subset by fastforce
  have other: "prID r \<noteq> prID p" if "ev' \<in> set ?evs" "writtenRow env (Some (openProblemsSnapshot tbl)) ev' = Some r" for ev' r
  proof -
    have ev': "ev' \<in> set events" "ev' \<noteq> ev" using that(1) sub assms(7) by blast+
    then have "keyOf p \<noteq> promKey ev'" using same [OF ev'(1)] by auto
    then show ?thesis using written_other [OF assms(1) ev'(1) assms(2) _ that(2)] by simp
  qed
  then have p: "p \<in> set ?tbl" unfolding promoteLoop_table using assms(2) by (intro fold_upserts_keep) auto
  have dist: "distinct (map prID tbl)" using assms(1) by (simp add: promotable_def wfTable_def)
  have "length ?evs \<le> 500" "length (filter isOpenRow tbl) \<le> 49500" using list_length [of "sweepList (peNow env)"] assms(1) by (simp_all add: promotable_def)
  then have tbl1: "distinct (map prID ?tbl)" "length (filter isOpenRow ?tbl) \<le> 50000"
    using fold_upserts_table [OF dist, of "writtenRow env (Some (openProblemsSnapshot tbl))" ?evs] unfolding promoteLoop_table by auto
  define active where "active = (\<lambda>fp. fp \<in> aeID ` set (ListAnomalyEvents (peNow env) (activeList (peNow env)) events))"
  have "prRuleID p = promoteAnomalyRuleID @ aeID ev" "active (aeID ev)" using assms(5,8) by (simp_all add: keyOf_def promKey_def active_def)
  then have "promotedResolveReason (prRuleID p) active (peMuted env) groups = None"
    using assms(6,9) by (simp add: promotedResolveReason_def Let_def)
  then have "stamped (peNow env) (clearedRow env active groups) p = None" by (simp add: stamped_def clearedRow_def)
  then have "p \<in> set (resolveClearedAnomalyPromotions env True groups events ?tbl)"
    using resolve_row [OF tbl1 p assms(3) refl, of env events groups, folded active_def] by simp
  moreover have "resolveClearedAnomalyPromotions env False groups events ?tbl = ?tbl" by (simp add: resolveClearedAnomalyPromotions_def)
  ultimately show ?thesis using p assms(2) by (cases clearOK) (auto simp: promoteStrongAnomalies_def split_beta Let_def)
qed

end
