(* ===== verification/Spec2Isabelle.thy ===== *)
theory Spec2Isabelle
  imports LogQL_Print LogQL_Lucene LogSearch DQL PromQL_Parse Leader SourceState Drain UIStream Cron Ingest NotifyThread TraceChain Incidents Anomaly
begin

text \<open>
  Verification of Coremetry, an observability server written in Go: it receives OpenTelemetry spans, logs and
  metrics, stores them in ClickHouse, keeps search facets in Redis, evaluates watches and alerts, and answers
  queries and chat questions about the data.

  \<^bold>\<open>Parts and how they interact.\<close> Exporters call the receivers (\<open>src/internal/otlp\<close>). A request is converted to
  rows (\<open>convert.go\<close>), each row passes the policy engine (\<open>src/internal/pipeline\<close>), spans are folded into the
  autocomplete cache (\<open>src/internal/acache\<close>), and rows enter one batching consumer per signal
  (\<open>src/internal/consumer\<close>) that writes to ClickHouse; metric bodies are also forwarded. Background workers run on
  the pod that holds a lease in Redis (\<open>src/internal/cache\<close>): watch schedules (\<open>src/internal/watcher\<close>), the log
  template miner (\<open>src/internal/templater\<close>), and the evaluator (\<open>src/internal/evaluator\<close>), which on every tick measures
  the alert rules, opens, refreshes and closes problems in the store, promotes anomaly events to problems, escalates old
  problems, closes silent ones and resolves incidents. A problem that opens is attached to an incident
  (\<open>src/internal/chstore/incident.go\<close>) and handed to the notifier (\<open>src/internal/notify\<close>), which chooses channels and team
  addresses, suppresses repeats and keeps the messages of one problem in one conversation. Traces are analysed as trees
  (\<open>src/internal/chstore/tracetree.go\<close>, \<open>src/internal/tracechain\<close>). Readers search logs through a query language (\<open>src/internal/logql\<close>
  compiled by \<open>src/internal/chstore\<close> to SQL, or sent to Elasticsearch as Lucene), through the piped language of
  \<open>src/internal/dql\<close>, metrics through a PromQL dialect (\<open>src/internal/promql\<close>), and the assistant streams its answers through \<open>src/internal/cosre/uistream\<close>, marking every
  source read with a state of \<open>src/internal/sourcestate\<close>.

  \<^bold>\<open>Theories.\<close>
  \<^item> \<open>Prelude\<close>, \<open>UTF8\<close>, \<open>GoInt\<close>: Go's strings and the functions of the package \<open>strings\<close>, runes, 64-bit integers with
    their decimal notation; the lemmas that the components share.
  \<^item> \<open>LogQL_Lex\<close>, \<open>LogQL_Parse\<close>, \<open>LogQL_Print\<close> (\<open>logql.go\<close>), \<open>LogQL_Compile\<close> (\<open>compile_ch.go\<close>), \<open>LogQL_Lucene\<close>
    (\<open>lucene.go\<close>), \<open>LogSearch\<close> (\<open>log_query_compile.go\<close>, \<open>log_search_predicate.go\<close>): the log query language. Shown: the
    parser returns on every byte string without reading past its tokens, trees have the documented shape,
    printing and parsing are inverse on printable trees; the SQL text of a search depends on its structure only, not on the texts that are
    bound, and has one placeholder for each argument; the Lucene check refuses only what the parser refuses too.
  \<^item> \<open>DQL\<close> (\<open>dql.go\<close>): plans have a known shape, every predicate is kept, in order, and the compiler does not panic where
    lower-casing keeps lengths. Which plans are then run is decided in the API and is not modelled.
  \<^item> \<open>PromQL_Lex\<close>, \<open>PromQL_Parse\<close> (\<open>promql/lex.go\<close>, \<open>parse.go\<close>, the trees of \<open>ast.go\<close>): the metric query language. Shown: the parser returns a
    tree or an error for every byte string and never reads past its tokens.
  \<^item> \<open>Rows\<close> (\<open>chstore/model.go\<close>), \<open>OpNorm\<close> (\<open>opnorm.go\<close>, \<open>sensitive.go\<close>), \<open>OTLP\<close> and \<open>OTLP_Metrics\<close> (\<open>convert.go\<close>,
    \<open>semconv.go\<close>, \<open>exp_histogram.go\<close>, \<open>fingerprint.go\<close> and the counters): requests to rows. Shown: the shape of an
    operation is stable and free of closed literals, the fingerprint of a series does not depend on the order
    of attributes and its text identifies the series.
  \<^item> \<open>Pipeline\<close> (\<open>pipeline.go\<close>): drop, enrich and sample rules with their catalogue. Shown: edits, writes that end in any order and
    refreshes keep the catalogue valid, and a restart reloads it when the write of the last edit landed last; on one record the drop verdict and the hiding of
    names agree with the accept path.
  \<^item> \<open>Consumer\<close> (\<open>consumer.go\<close>): producers, loop and flushers as actions that interleave freely. Shown: nothing
    admitted is lost without being counted, the byte budget holds for items of constant size, shutdown ends.
  \<^item> \<open>Glob\<close>, \<open>ACache\<close> (\<open>acache.go\<close>): the matcher, the delta window and the Redis commands of a flush. Shown: flushed
    increments are the counts of the spans, windows are bounded, written keys expire.
  \<^item> \<open>Ingest\<close> (\<open>http.go\<close>, \<open>grpc.go\<close>, \<open>forward.go\<close>, \<open>forward_filter.go\<close>, \<open>exemplar_cap.go\<close>): the composition of the
    four. Shown: the answers are honest about every item of a request, the forward filter is exact, the policy run on
    shared slices refines the policy of a single row, and the HTTP receiver of traces decodes a body whole or refuses it with its status and counter.
  \<^item> \<open>Leader\<close> (\<open>leader.go\<close>, \<open>redis.go\<close>, \<open>switchable.go\<close>): a fleet of pods as a step relation with failures and late
    answers. Shown: at most one pod leads, and leadership ends when heartbeats fail or the backend is swapped.
  \<^item> \<open>Cron\<close> (\<open>cron.go\<close>, the schedules of \<open>watcher.go\<close>): the next fire time is the least matching one.
  \<^item> \<open>Drain\<close> (\<open>drain.go\<close>, \<open>family.go\<close>): the template tree; counts are conserved and the tree stays well formed.
  \<^item> \<open>SourceState\<close>, \<open>UIStream\<close>: failed reads are never usable as evidence; the chat stream is a run of the message
    protocol and ends with its marker.

  \<^item> \<open>TraceTree\<close> (\<open>tracetree.go\<close>), \<open>TraceChain\<close> (\<open>tracechain.go\<close>, \<open>critpath.go\<close>): the tree of a trace. Shown: the analysis
    returns on every list of spans, cycles included, with the exact self times; the critical path is a
    longest chain whose times add up to the root; the failure chain starts at a failure with none below it.
  \<^item> \<open>Channels\<close> (\<open>settings.go\<close>), \<open>Notify\<close> (\<open>notify.go\<close>, \<open>routing.go\<close>, \<open>problem_dedup.go\<close>), \<open>NotifyThread\<close> (\<open>lifecycle.go\<close>,
    \<open>notify_thread.go\<close>, \<open>verdict_silence.go\<close>): from a problem to messages. Shown: within an hour at most four alerts pass for one problem, episode, channel
    and status while it is not forgotten, what is held back was told before, every alert ends in a verdict that agrees with what was sent, and
    conversations follow their protocol and survive restarts while the store answers.
  \<^item> \<open>Keyed\<close>: tables with one row per key and loops that rewrite them; the locale \<open>keyed_table\<close>.
  \<^item> \<open>AlertEval\<close> (\<open>evaluator.go\<close>, \<open>stamps.go\<close>, \<open>watcher_eval.go\<close>, \<open>chstore/problem.go\<close>): one rule for one service over the
    ticks, with the maps in memory and their mirror in Redis. Shown: the ticks refine an abstract alert with a sustain
    clock, an open flag and a cooldown; under one leader nothing opens without a sustained breach; and over a fleet of replicas that take the lease in
    any order, keep their maps when they lose it and lose them when they restart, the cooldown of a close holds while no replica remembers an older one.
  \<^item> \<open>AlertTick\<close> (\<open>tick_continuity.go\<close>, \<open>heartbeat.go\<close>, the sweeps of \<open>evaluator.go\<close>, \<open>problem_escalation.go\<close>): the rest of a
    tick. Shown: silence counts only when a pod was watching, in every run of a fleet with restarts and lost heartbeats; the sweep closes exactly
    the silent rows; escalation pages a problem at most twice.
  \<^item> \<open>Incidents\<close> (\<open>incident.go\<close>, \<open>api_incidents.go\<close>, the cascade of \<open>evaluator.go\<close>): grouping and resolution. Shown: the
    automatic paths, run one after the other, never reopen, remove or downgrade an incident or lose what operators entered; the cascade resolves exactly what has
    cleared, at the last clear; problems of one service share an active incident. An attachment that overlaps a resolution is shown to undo it.
  \<^item> \<open>Anomaly\<close> (\<open>anomaly_event.go\<close>, \<open>anomaly_promotion.go\<close>, the promotion of \<open>evaluator.go\<close>): the stored row is the account of the
    current episode, for batches with one observation of a fingerprint each, and with at most 500 active events a sweep refreshes or closes every open promoted
    problem that has an event, never both.

  \<^bold>\<open>Conventions.\<close> A struct is a record, a method returns the updated record, an error is a value of a sum or an
  option type with one constructor for each message of the source. A Go map is an association list or a function,
  its order standing for the unspecified order of iteration. Interfaces between components are locales, interpreted
  on the model's own definitions: \<open>lease_store\<close> (the lock that the election relies on), \<open>schema\<close> (the tables the query
  compiler is used with), \<open>carrier_match\<close> (the rows that the policy engine works on), \<open>accounted\<close> (what the receivers
  rely on in a consumer), \<open>lowering\<close> (lower-casing as the piped language needs it), \<open>keyed_table\<close> (what the sweeps rely on in
  the table of problems), \<open>thread_book\<close> (how the record of a conversation is kept). A table of the store is the list of the last versions of its rows, a query with an order and a limit
  sorts and takes, and which calls of the store succeed is an argument of every operation that calls it. A value stored as JSON is the value that it
  decodes to, with texts as \<open>encoding/json\<close> keeps them (\<open>jsonText\<close>). Operations that read and write a table in several calls are one step, except
  where a theory says otherwise (the consumer, the leader election, the catalogue of the pipeline). Times are nanoseconds;
  the calls of the clock within one operation give one instant.

  \<^bold>\<open>Bounds and fuel.\<close> The log query parser spends one unit of fuel for each call and gets six for each token and six
  more; \<open>Parse_total\<close> shows that this is enough for every query. The loops of the metric query parser get one unit for each token that is left, and
  its nesting one for each level that the depth guard allows; \<open>promParse_returns\<close> shows that this is enough. The matcher and the search for fire times are
  partial functions or bounded by a \<open>while\<close> loop, with theorems that they return. All other recursion is total.

  \<^bold>\<open>Arguments.\<close> What is not part of the repository is an argument: Unicode lower-casing and number parsing of Go's
  library, compiled regular expressions given by users, random numbers, SHA-1 and xxhash, float arithmetic and
  formatting, the protobuf codec and the decompressors, the clock, the answers of Redis to reads, fresh identifiers. The
  Redis commands of the lock follow their documented meaning. Values that a rule compares are rationals, with not-a-number as \<open>None\<close>.

  \<^bold>\<open>Not modelled.\<close> HTTP handlers of the API other than those of incidents and the SQL they format, the queries that measure
  a rule, the native detectors of the evaluator and the sweep of subject anomalies, message bodies and senders, clients of external services (Elasticsearch,
  Thanos, Oracle, Argo CD, source hosting, language models), floating-point statistics (anomaly detection,
  forecasts, the evaluation of metric queries), authentication, settings, listeners and process wiring, and the browser client.
\<close>

end
